(* ===== verification/Prelude.thy ===== *)
theory Prelude
  imports Complex_Main "HOL-Library.Word"
begin

text \<open>
  Shared vocabulary of the development: the values Python code of the repository
  passes around (bytes, clock readings, results that may be exceptions), the generic
  lemmas on them, and the locales every stateful component instantiates.

  \<^item> A \<open>bytes\<close> object is a list of \<open>8 word\<close>; a Python \<open>int\<close> is an \<open>int\<close>.
  \<^item> A clock reading (\<open>time.monotonic()\<close>) is a \<open>rat\<close>: additions and comparisons are
    exact, rounding of binary floats is not modelled. A float that comes from outside and is
    checked with \<open>math.isfinite\<close> is a \<open>pyfloat\<close>.
  \<^item> An exception is \<open>Inl\<close> of its class; messages are not modelled.
\<close>

section \<open>Values\<close>

type_synonym byte = "8 word"
type_synonym time = rat

datatype pyfloat = Finite rat | PosInf | NegInf | NaN

datatype py_error =
    ValueError
  | TypeError
  | KeyError
  | IndexError
  | RuntimeError
  | ZeroDivisionError
  | AttributeError
  | QueueFull
  | QueueEmpty
  | StructError
  | AudioAlreadyStarted
  | AudioNotStarted
  | GuardError
  | ControllerError string int
  | CommandError string

type_synonym 'a result = "py_error + 'a"

fun isfinite :: "pyfloat \<Rightarrow> bool" where
  "isfinite (Finite _) = True"
| "isfinite _ = False"

fun bind_result :: "'a result \<Rightarrow> ('a \<Rightarrow> 'b result) \<Rightarrow> 'b result" where
  "bind_result (Inl e) f = Inl e"
| "bind_result (Inr x) f = f x"

named_theorems result_simps \<open>unfolding and inversion rules for results\<close>

lemma bind_result_Inr_iff [result_simps]:
  "bind_result m f = Inr y \<longleftrightarrow> (\<exists>x. m = Inr x \<and> f x = Inr y)"
  by (cases m) auto

lemma bind_result_Inl_iff [result_simps]:
  "bind_result m f = Inl e \<longleftrightarrow> m = Inl e \<or> (\<exists>x. m = Inr x \<and> f x = Inl e)"
  by (cases m) auto

lemma bind_result_cong [fundef_cong]:
  "m = m' \<Longrightarrow> (\<And>x. m' = Inr x \<Longrightarrow> f x = f' x) \<Longrightarrow> bind_result m f = bind_result m' f'"
  by (cases m') auto

section \<open>Bytes\<close>

unbundle bit_operations_syntax

text \<open>
  \<open>bytes([n])\<close>, \<open>bytearray.append(n)\<close>: an \<open>int\<close> outside 0..255 raises \<open>ValueError\<close>.
\<close>

definition byte_of_int :: "int \<Rightarrow> byte result" where
  "byte_of_int n = (if 0 \<le> n \<and> n \<le> 255 then Inr (word_of_int n) else Inl ValueError)"

fun bytes_of_ints :: "int list \<Rightarrow> byte list result" where
  "bytes_of_ints [] = Inr []"
| "bytes_of_ints (n # ns) =
     bind_result (byte_of_int n) (\<lambda>b. bind_result (bytes_of_ints ns) (\<lambda>bs. Inr (b # bs)))"

lemma uint_byte_le [simp]: "uint (b :: byte) \<le> 255"
  using uint_lt2p [of b] by simp

lemma byte_of_int_uint [simp]: "byte_of_int (uint b) = Inr b"
  using uint_lt2p [of b] by (auto simp: byte_of_int_def)

lemma byte_of_int_Inr_iff [result_simps]:
  "byte_of_int n = Inr b \<longleftrightarrow> 0 \<le> n \<and> n \<le> 255 \<and> uint b = n"
proof -
  have "uint (word_of_int n :: byte) = n" if "0 \<le> n" "n \<le> 255"
    using that by (simp add: uint_word_of_int)
  then show ?thesis
    using uint_lt2p [of b] by (auto simp: byte_of_int_def)
qed

lemma bytes_of_ints_map_uint [simp]: "bytes_of_ints (map uint bs) = Inr bs"
  by (induction bs) auto

lemma bytes_of_ints_Inr: "bytes_of_ints ns = Inr bs \<Longrightarrow> ns = map uint bs"
  by (induction ns arbitrary: bs) (auto simp: result_simps)

lemma length_bytes_of_ints: "bytes_of_ints ns = Inr bs \<Longrightarrow> length bs = length ns"
  by (auto dest: bytes_of_ints_Inr)

section \<open>Runs of a component\<close>

text \<open>
  A component with state is a step function on its state; a run applies a list of
  operations (calls, observations, clock readings) in order.
\<close>

definition run :: "('s \<Rightarrow> 'e \<Rightarrow> 's) \<Rightarrow> 's \<Rightarrow> 'e list \<Rightarrow> 's" where
  "run step s es = foldl step s es"

lemma run_Nil [simp]: "run step s [] = s"
  by (simp add: run_def)

lemma run_Cons [simp]: "run step s (e # es) = run step (step s e) es"
  by (simp add: run_def)

lemma run_append [simp]: "run step s (es @ fs) = run step (run step s es) fs"
  by (simp add: run_def)

text \<open>The interface every stateful component offers: an invariant its operations keep.\<close>

locale guarded_system =
  fixes step :: "'s \<Rightarrow> 'e \<Rightarrow> 's"
    and inv :: "'s \<Rightarrow> bool"
  assumes step_inv: "inv s \<Longrightarrow> inv (step s e)"
begin

lemma run_inv: "inv s \<Longrightarrow> inv (run step s es)"
  by (induction es arbitrary: s) (auto intro: step_inv)

lemma run_property:
  assumes "inv s" and "\<And>t e. inv t \<Longrightarrow> P t \<Longrightarrow> P (step t e)" and "P s"
  shows "P (run step s es)"
  using assms(1,3)
proof (induction es arbitrary: s)
  case Nil
  then show ?case by simp
next
  case (Cons e es)
  then show ?case using assms(2) by (auto intro: step_inv)
qed

end

text \<open>
  A system with a counter that no operation turns back (a provider generation, an effect
  epoch, a controller generation): an old value can never become current again.
\<close>

locale epoch_system = guarded_system +
  fixes epoch :: "'a \<Rightarrow> int"
  assumes step_epoch: "inv s \<Longrightarrow> epoch s \<le> epoch (step s e)"
begin

lemma run_epoch: "inv s \<Longrightarrow> epoch s \<le> epoch (run step s es)"
  using run_property [of s "\<lambda>t. epoch s \<le> epoch t" es]
  by (auto intro: order_trans [OF _ step_epoch])

lemma stale_forever:
  assumes "inv s" and "n < epoch s"
  shows "n \<noteq> epoch (run step s es)"
  using run_epoch [OF assms(1), of es] assms(2) by simp

end

section \<open>Codecs\<close>

text \<open>
  An encoder and a decoder that may both raise. \<open>ok\<close> is the domain the encoder accepts.
\<close>

locale codec =
  fixes enc :: "'a \<Rightarrow> 'b result"
    and dec :: "'b \<Rightarrow> 'a result"
    and ok :: "'a \<Rightarrow> bool"
  assumes enc_ok: "ok x \<Longrightarrow> \<exists>b. enc x = Inr b \<and> dec b = Inr x"
begin

lemma dec_enc: "ok x \<Longrightarrow> enc x = Inr b \<Longrightarrow> dec b = Inr x"
  using enc_ok [of x] by auto

lemma enc_inj: "ok x \<Longrightarrow> ok y \<Longrightarrow> enc x = enc y \<Longrightarrow> x = y"
  using enc_ok [of x] enc_ok [of y] by auto

lemma bind_dec_enc: "ok x \<Longrightarrow> bind_result (enc x) dec = Inr x"
  using enc_ok [of x] by auto

end

end
