(* ===== verification/Bcd.thy ===== *)
theory Bcd
  imports Prelude
begin

text \<open>
  The number codecs of the radio protocol.

  \<^item> \<open>commands/_codec.py\<close>: level BCD, fixed-width BCD, single BCD bytes, and the conversions
    between filter widths in Hz and CI-V indices (segments of a profile, lookup tables).
  \<^item> \<open>core/types.py\<close>: the little-endian frequency BCD (\<open>bcd_encode\<close>, \<open>bcd_decode\<close>).

  Each definition keeps the checks of the source in their order. The lemmas show that every
  encoder is total on its stated range, that its decoder inverts it, that the frequency
  decoder accepts nothing the encoder would not produce, and how filter widths convert.
\<close>

section \<open>Decimal formatting\<close>

text \<open>
  \<open>f"{value:0{width}d}"\<close> for a non-negative value: its decimal digits, most significant
  first, padded on the left with zeros up to \<open>width\<close>.
\<close>

fun dec_digits :: "nat \<Rightarrow> int list" where
  "dec_digits n = (if n < 10 then [int n] else dec_digits (n div 10) @ [int (n mod 10)])"

declare dec_digits.simps [simp del]

definition fmt0d :: "nat \<Rightarrow> int \<Rightarrow> int list" where
  "fmt0d width v =
     (let ds = dec_digits (nat v) in replicate (width - length ds) 0 @ ds)"

text \<open>The nibbles of one byte, as \<open>(byte >> 4) & 0x0F\<close> and \<open>byte & 0x0F\<close> read them.\<close>

definition hi_nibble :: "byte \<Rightarrow> int" where
  "hi_nibble b = uint (drop_bit 4 b AND 15)"

definition lo_nibble :: "byte \<Rightarrow> int" where
  "lo_nibble b = uint (b AND 15)"

text \<open>\<open>(high << 4) | low\<close> on Python integers.\<close>

definition pack_nibbles :: "int \<Rightarrow> int \<Rightarrow> int" where
  "pack_nibbles hi lo = push_bit 4 hi OR lo"

section \<open>commands/\_codec.py: levels and fixed-width BCD\<close>

definition level_bcd_encode :: "int \<Rightarrow> byte list result" where
  "level_bcd_encode value =
     (if \<not> (0 \<le> value \<and> value \<le> 255) then Inl ValueError
      else case fmt0d 4 value of
        d0 # d1 # d2 # d3 # _ \<Rightarrow> bytes_of_ints [pack_nibbles d0 d1, pack_nibbles d2 d3]
      | _ \<Rightarrow> Inl IndexError)"

text \<open>The decoding loop: \<open>value\<close> is the accumulator of the loop.\<close>

fun bcd_decode_loop :: "int \<Rightarrow> byte list \<Rightarrow> int result" where
  "bcd_decode_loop value [] = Inr value"
| "bcd_decode_loop value (b # bs) =
     (let high = hi_nibble b; low = lo_nibble b in
      if high > 9 \<or> low > 9 then Inl ValueError
      else bcd_decode_loop (value * 100 + high * 10 + low) bs)"

definition bcd_decode_value :: "byte list \<Rightarrow> int result" where
  "bcd_decode_value data = bcd_decode_loop 0 data"

definition level_bcd_decode :: "byte list \<Rightarrow> int result" where
  "level_bcd_decode data =
     (if length data < 2 then Inl ValueError else bcd_decode_value (take 2 data))"

text \<open>The generator over \<open>range(0, len(text), 2)\<close>: an odd tail reads past the end.\<close>

fun bcd_pairs :: "int list \<Rightarrow> int list result" where
  "bcd_pairs [] = Inr []"
| "bcd_pairs [d] = Inl IndexError"
| "bcd_pairs (d1 # d2 # ds) =
     bind_result (bcd_pairs ds) (\<lambda>ps. Inr (pack_nibbles d1 d2 # ps))"

definition bcd_encode_value :: "int \<Rightarrow> nat \<Rightarrow> byte list result" where
  "bcd_encode_value value byte_count =
     (if value < 0 then Inl ValueError
      else
        let digits = byte_count * 2; maximum = 10 ^ digits - 1 in
        if value > maximum then Inl ValueError
        else bind_result (bcd_pairs (fmt0d digits value)) bytes_of_ints)"

definition bcd_byte :: "int \<Rightarrow> int result" where
  "bcd_byte value =
     (if \<not> (0 \<le> value \<and> value \<le> 99) then Inl ValueError
      else Inr (push_bit 4 (value div 10) OR (value mod 10)))"

section \<open>commands/\_codec.py: filter widths\<close>

text \<open>
  A profile segment. \<open>_segment_value\<close> reads the same four integer fields from a dict or
  from an object; the model starts from the record both give.
\<close>

record filter_segment =
  hz_min :: int
  hz_max :: int
  step_hz :: int
  index_min :: int

text \<open>Python's \<open>%\<close> and \<open>//\<close>, which raise on a zero divisor.\<close>

definition py_mod :: "int \<Rightarrow> int \<Rightarrow> int result" where
  "py_mod a b = (if b = 0 then Inl ZeroDivisionError else Inr (a mod b))"

definition py_div :: "int \<Rightarrow> int \<Rightarrow> int result" where
  "py_div a b = (if b = 0 then Inl ZeroDivisionError else Inr (a div b))"

fun filter_hz_to_index :: "int \<Rightarrow> filter_segment list \<Rightarrow> int result" where
  "filter_hz_to_index hz [] = Inl ValueError"
| "filter_hz_to_index hz (s # ss) =
     (if hz_min s \<le> hz \<and> hz \<le> hz_max s then
        let delta = hz - hz_min s in
        bind_result (py_mod delta (step_hz s)) (\<lambda>r.
          if r \<noteq> 0 then Inl ValueError
          else bind_result (py_div delta (step_hz s)) (\<lambda>q. Inr (index_min s + q)))
      else filter_hz_to_index hz ss)"

text \<open>The loop of \<open>filter_index_to_hz\<close> over the segments sorted by \<open>index_min\<close>.\<close>

fun index_to_hz_loop :: "int \<Rightarrow> filter_segment list \<Rightarrow> int result" where
  "index_to_hz_loop index [] = Inl ValueError"
| "index_to_hz_loop index (s # ss) =
     bind_result (py_div (hz_max s - hz_min s) (step_hz s)) (\<lambda>q.
       let step_count = q + 1;
           next_index = (case ss of [] \<Rightarrow> index_min s + step_count | t # _ \<Rightarrow> index_min t)
       in if index_min s \<le> index \<and> index < next_index
          then Inr (hz_min s + (index - index_min s) * step_hz s)
          else index_to_hz_loop index ss)"

definition filter_index_to_hz :: "int \<Rightarrow> filter_segment list \<Rightarrow> int result" where
  "filter_index_to_hz index segments = index_to_hz_loop index (sort_key index_min segments)"

definition table_index_to_hz :: "int \<Rightarrow> int list \<Rightarrow> int result" where
  "table_index_to_hz index table =
     (if \<not> (0 \<le> index \<and> index < int (length table)) then Inl ValueError
      else Inr (table ! nat index))"

text \<open>The loop of \<open>hz_to_table_index\<close>: \<open>idx\<close> counts, \<open>(best_idx, best_diff)\<close> is the best so far.\<close>

fun nearest_loop :: "int \<Rightarrow> nat \<Rightarrow> nat \<Rightarrow> int \<Rightarrow> int list \<Rightarrow> nat" where
  "nearest_loop hz idx best_idx best_diff [] = best_idx"
| "nearest_loop hz idx best_idx best_diff (entry # rest) =
     (let diff = \<bar>entry - hz\<bar> in
      if diff < best_diff then nearest_loop hz (Suc idx) idx diff rest
      else nearest_loop hz (Suc idx) best_idx best_diff rest)"

definition hz_to_table_index :: "int \<Rightarrow> int list \<Rightarrow> nat result" where
  "hz_to_table_index hz table =
     (case table of [] \<Rightarrow> Inl ValueError
      | t # _ \<Rightarrow> Inr (nearest_loop hz 0 0 \<bar>t - hz\<bar> table))"

section \<open>core/types.py: frequency BCD\<close>

definition frequency_bcd_widths :: "nat list" where
  "frequency_bcd_widths = [5, 6]"

text \<open>
  The digit string has exactly \<open>width * 2\<close> characters when the indexing loop starts:
  formatting pads to that length and the length check rejects anything longer.
\<close>

definition bcd_encode :: "int \<Rightarrow> nat \<Rightarrow> byte list result" where
  "bcd_encode freq_hz width =
     (if freq_hz < 0 then Inl ValueError
      else if width \<notin> set frequency_bcd_widths then Inl ValueError
      else
        let digits = fmt0d (width * 2) freq_hz in
        if length digits > width * 2 then Inl ValueError
        else bytes_of_ints
          (map (\<lambda>i. pack_nibbles (digits ! (width * 2 - 1 - 2 * i - 1))
                                  (digits ! (width * 2 - 1 - 2 * i)))
               [0..<width]))"

fun bcd_freq_loop :: "nat \<Rightarrow> int \<Rightarrow> byte list \<Rightarrow> int result" where
  "bcd_freq_loop i freq [] = Inr freq"
| "bcd_freq_loop i freq (b # bs) =
     (let high = hi_nibble b; low = lo_nibble b in
      if high > 9 \<or> low > 9 then Inl ValueError
      else bcd_freq_loop (Suc i) (freq + low * 10 ^ (2 * i) + high * 10 ^ (2 * i + 1)) bs)"

definition bcd_decode :: "byte list \<Rightarrow> int result" where
  "bcd_decode data =
     (if length data \<notin> set frequency_bcd_widths then Inl ValueError
      else bcd_freq_loop 0 0 data)"

section \<open>Nibbles\<close>

lemma and_15_eq: "(x::int) AND 15 = x mod 16"
proof -
  have "x AND 15 = x AND mask 4" by (simp add: mask_eq_exp_minus_1)
  also have "\<dots> = take_bit 4 x" by (simp only: take_bit_eq_mask)
  finally show ?thesis by (simp add: take_bit_eq_mod)
qed

lemma hi_nibble_eq: "hi_nibble b = uint b div 16"
proof -
  have "uint b div 16 < 16"
    using uint_lt2p [of b] by simp
  moreover have "0 \<le> uint b div 16"
    by (simp add: pos_imp_zdiv_nonneg_iff)
  ultimately show ?thesis
    by (simp add: hi_nibble_def unsigned_and_eq uint_div drop_bit_eq_div and_15_eq)
qed

lemma lo_nibble_eq: "lo_nibble b = uint b mod 16"
  by (simp add: lo_nibble_def unsigned_and_eq and_15_eq)

lemma hi_nibble_bounds: "0 \<le> hi_nibble b \<and> hi_nibble b < 16"
  using uint_lt2p [of b] by (simp add: hi_nibble_eq pos_imp_zdiv_nonneg_iff)

lemma lo_nibble_bounds: "0 \<le> lo_nibble b \<and> lo_nibble b < 16"
  by (simp add: lo_nibble_eq)

lemma pack_nibbles_eq:
  assumes "0 \<le> lo" and "lo < 16"
  shows "pack_nibbles hi lo = hi * 16 + lo"
proof -
  have "take_bit 4 lo = lo"
    using assms by (simp add: take_bit_eq_mod)
  then have "pack_nibbles hi lo = concat_bit 4 lo hi"
    by (simp add: pack_nibbles_def concat_bit_def or.commute)
  also have "\<dots> = lo + push_bit 4 hi"
    using \<open>take_bit 4 lo = lo\<close> by (simp add: concat_bit_eq)
  finally show ?thesis by (simp add: push_bit_eq_mult)
qed

lemma uint_nibbles: "uint b = hi_nibble b * 16 + lo_nibble b"
  by (simp add: hi_nibble_eq lo_nibble_eq)

section \<open>Decimal digits\<close>

fun digits_val :: "int list \<Rightarrow> int" where
  "digits_val [] = 0"
| "digits_val (d # ds) = d * 10 ^ length ds + digits_val ds"

definition digit :: "int \<Rightarrow> bool" where
  "digit d \<longleftrightarrow> 0 \<le> d \<and> d \<le> 9"

lemma digits_val_append [simp]:
  "digits_val (xs @ ys) = digits_val xs * 10 ^ length ys + digits_val ys"
  by (induction xs) (auto simp: algebra_simps power_add)

lemma digits_val_zeros [simp]: "digits_val (replicate n 0) = 0"
  by (induction n) auto

lemma digits_val_bounds:
  "list_all digit ds \<Longrightarrow> 0 \<le> digits_val ds \<and> digits_val ds < 10 ^ length ds"
proof (induction ds)
  case (Cons d ds)
  then have "0 \<le> d" "d \<le> 9" and IH: "0 \<le> digits_val ds" "digits_val ds < 10 ^ length ds"
    by (auto simp: digit_def)
  from \<open>d \<le> 9\<close> have "d * 10 ^ length ds \<le> 9 * 10 ^ length ds"
    by (rule mult_right_mono) simp
  moreover from \<open>0 \<le> d\<close> have "0 \<le> d * 10 ^ length ds" by simp
  ultimately have "0 \<le> d * 10 ^ length ds + digits_val ds"
    "d * 10 ^ length ds + digits_val ds < 10 * 10 ^ length ds"
    using IH by linarith+
  then show ?case by simp
qed simp

lemma digits_val_inj:
  "list_all digit xs \<Longrightarrow> list_all digit ys \<Longrightarrow> length xs = length ys \<Longrightarrow>
   digits_val xs = digits_val ys \<Longrightarrow> xs = ys"
proof (induction xs arbitrary: ys)
  case (Cons d ds)
  then obtain e es where ys: "ys = e # es" by (cases ys) auto
  let ?P = "10 ^ length ds :: int"
  have l: "length es = length ds" using Cons.prems(3) ys by simp
  have b: "0 \<le> digits_val ds" "digits_val ds < ?P" "0 \<le> digits_val es" "digits_val es < ?P"
    using digits_val_bounds [of ds] digits_val_bounds [of es] Cons.prems(1,2) ys l by auto
  have eq: "d * ?P + digits_val ds = e * ?P + digits_val es"
    using Cons.prems(4) ys l by simp
  have "d = (d * ?P + digits_val ds) div ?P" using b by simp
  also have "\<dots> = e" using b by (simp add: eq)
  finally have "d = e" .
  with eq have "digits_val ds = digits_val es" by simp
  with Cons.IH [of es] Cons.prems ys l \<open>d = e\<close> show ?case by simp
qed simp

lemma dec_digits_digit: "list_all digit (dec_digits n)"
proof (induction n rule: dec_digits.induct)
  case (1 n)
  then show ?case by (subst dec_digits.simps) (auto simp: digit_def list_all_iff)
qed

lemma dec_digits_val: "digits_val (dec_digits n) = int n"
proof (induction n rule: dec_digits.induct)
  case (1 n)
  show ?case
  proof (cases "n < 10")
    case False
    with 1 have "digits_val (dec_digits (n div 10)) = int (n div 10)" by simp
    with False show ?thesis
      by (subst dec_digits.simps) (simp add: zdiv_int zmod_int)
  qed (subst dec_digits.simps, simp)
qed

lemma dec_digits_length: "1 \<le> w \<Longrightarrow> length (dec_digits n) \<le> w \<longleftrightarrow> n < 10 ^ w"
proof (induction n arbitrary: w rule: dec_digits.induct)
  case (1 n)
  show ?case
  proof (cases "n < 10")
    case True
    have "n < 10 ^ w"
      using True self_le_power [of "10::nat" w] \<open>1 \<le> w\<close> by linarith
    with True \<open>1 \<le> w\<close> show ?thesis by (subst dec_digits.simps) simp
  next
    case False
    show ?thesis
    proof (cases "w = 1")
      case True
      have "dec_digits (n div 10) \<noteq> []" by (subst dec_digits.simps) simp
      with False True show ?thesis by (subst dec_digits.simps) simp
    next
      case F: False
      then obtain v where v: "w = Suc v" "1 \<le> v" using \<open>1 \<le> w\<close> by (cases w) auto
      have "length (dec_digits (n div 10)) \<le> v \<longleftrightarrow> n div 10 < 10 ^ v"
        using 1(1) [OF False v(2)] .
      moreover have "n div 10 < 10 ^ v \<longleftrightarrow> n < 10 ^ w"
        unfolding v by (simp add: div_less_iff_less_mult mult.commute)
      ultimately show ?thesis using False v by (subst dec_digits.simps) simp
    qed
  qed
qed

lemma fmt0d_digit: "list_all digit (fmt0d w v)"
proof -
  have "digit 0" by (simp add: digit_def)
  then show ?thesis
    using dec_digits_digit by (auto simp: fmt0d_def Let_def list_all_iff)
qed

lemma fmt0d_val: "0 \<le> v \<Longrightarrow> digits_val (fmt0d w v) = v"
  by (simp add: fmt0d_def Let_def dec_digits_val)

lemma fmt0d_length_le: "0 \<le> v \<Longrightarrow> 1 \<le> w \<Longrightarrow> length (fmt0d w v) \<le> w \<longleftrightarrow> v < 10 ^ w"
proof -
  assume "0 \<le> v" and "1 \<le> w"
  have "nat v < 10 ^ w \<longleftrightarrow> v < 10 ^ w"
    using \<open>0 \<le> v\<close> by (simp add: nat_less_iff)
  then show ?thesis
    using dec_digits_length [OF \<open>1 \<le> w\<close>, of "nat v"] by (auto simp: fmt0d_def Let_def)
qed

lemma fmt0d_length: "0 \<le> v \<Longrightarrow> 1 \<le> w \<Longrightarrow> v < 10 ^ w \<Longrightarrow> length (fmt0d w v) = w"
  using fmt0d_length_le [of v w] by (auto simp: fmt0d_def Let_def)

lemma fmt0d_unique:
  assumes "list_all digit ds" and "length ds = w" and "1 \<le> w" and "digits_val ds = v"
  shows "fmt0d w v = ds"
proof -
  have "0 \<le> v" "v < 10 ^ w" using digits_val_bounds [OF assms(1)] assms by auto
  then show ?thesis
    using assms fmt0d_digit fmt0d_length fmt0d_val by (intro digits_val_inj) auto
qed

lemmas fmt0d_facts = fmt0d_digit fmt0d_val fmt0d_length

section \<open>Packed pairs of digits\<close>

text \<open>The digits of packed BCD bytes, most significant first.\<close>

fun byte_digits :: "byte list \<Rightarrow> int list" where
  "byte_digits [] = []"
| "byte_digits (b # bs) = hi_nibble b # lo_nibble b # byte_digits bs"

lemma length_byte_digits [simp]: "length (byte_digits bs) = 2 * length bs"
  by (induction bs) auto

lemma bcd_decode_loop_Inr:
  "bcd_decode_loop a bs = Inr v \<longleftrightarrow>
   list_all digit (byte_digits bs) \<and> v = a * 10 ^ (2 * length bs) + digits_val (byte_digits bs)"
proof (induction bs arbitrary: a)
  case (Cons b bs)
  have "(100::int) = 10 ^ 2" by simp
  then have p: "10 ^ (2 * length (b # bs)) = (100::int) * 10 ^ (2 * length bs)"
    by (simp add: power_add [symmetric])
  show ?case
    using hi_nibble_bounds [of b] lo_nibble_bounds [of b] Cons [of "a * 100 + hi_nibble b * 10 + lo_nibble b"]
    by (auto simp: Let_def digit_def p algebra_simps)
qed auto

lemma pack_digit_byte:
  "digit h \<Longrightarrow> digit l \<Longrightarrow>
   \<exists>b. byte_of_int (pack_nibbles h l) = Inr b \<and> hi_nibble b = h \<and> lo_nibble b = l"
proof -
  assume "digit h" "digit l"
  then have h: "0 \<le> h" "h \<le> 9" and l: "0 \<le> l" "l \<le> 9" by (auto simp: digit_def)
  have e: "pack_nibbles h l = h * 16 + l" using l by (simp add: pack_nibbles_eq)
  define b :: byte where "b = word_of_int (h * 16 + l)"
  have "uint b = (h * 16 + l) mod 256" unfolding b_def by (simp only: uint_word_of_int) simp
  then have "uint b = h * 16 + l" using h l by simp
  moreover have "byte_of_int (pack_nibbles h l) = Inr b"
    using h l by (simp add: e byte_of_int_def b_def)
  ultimately show ?thesis
    using l by (intro exI [of _ b]) (simp add: hi_nibble_eq lo_nibble_eq)
qed

lemma pack_nibbles_byte: "pack_nibbles (hi_nibble b) (lo_nibble b) = uint b"
  using lo_nibble_bounds [of b] by (simp add: pack_nibbles_eq uint_nibbles)

lemma bcd_pairs_digits:
  "list_all digit ds \<Longrightarrow> even (length ds) \<Longrightarrow>
   \<exists>bs. bind_result (bcd_pairs ds) bytes_of_ints = Inr bs \<and> byte_digits bs = ds"
proof (induction ds rule: bcd_pairs.induct)
  case (3 d1 d2 ds)
  then obtain bs where bs: "bind_result (bcd_pairs ds) bytes_of_ints = Inr bs" "byte_digits bs = ds"
    by auto
  obtain b where "byte_of_int (pack_nibbles d1 d2) = Inr b" "hi_nibble b = d1" "lo_nibble b = d2"
    using pack_digit_byte [of d1 d2] 3(2) by auto
  with bs show ?case
    by (intro exI [of _ "b # bs"]) (auto simp: result_simps)
qed auto

lemma bcd_pairs_byte_digits: "bcd_pairs (byte_digits bs) = Inr (map uint bs)"
  by (induction bs) (auto simp: pack_nibbles_byte)

section \<open>Levels and fixed-width values\<close>

lemma bcd_decode_value_Inr:
  "bcd_decode_value bs = Inr v \<longleftrightarrow>
   list_all digit (byte_digits bs) \<and> v = digits_val (byte_digits bs)"
  by (auto simp: bcd_decode_value_def bcd_decode_loop_Inr)

lemma bcd_encode_value_Inr:
  assumes "1 \<le> n" and "0 \<le> v" and "v < 10 ^ (2 * n)"
  shows "\<exists>bs. bcd_encode_value v n = Inr bs \<and> length bs = n \<and> byte_digits bs = fmt0d (n * 2) v"
proof -
  have l: "length (fmt0d (n * 2) v) = n * 2"
    using assms by (intro fmt0d_length) (auto simp: mult.commute)
  have "even (length (fmt0d (n * 2) v))"
    by (simp add: l)
  from bcd_pairs_digits [OF fmt0d_digit this] obtain bs where
    bs: "bind_result (bcd_pairs (fmt0d (n * 2) v)) bytes_of_ints = Inr bs"
      "byte_digits bs = fmt0d (n * 2) v"
    by blast
  have "2 * length bs = 2 * n" using bs(2) l by (metis length_byte_digits mult.commute)
  moreover have "\<not> v > 10 ^ (n * 2) - 1" using assms by (simp add: mult.commute)
  ultimately show ?thesis
    using bs assms by (auto simp: bcd_encode_value_def Let_def)
qed

text \<open>Level encoding is the two-byte instance of the fixed-width encoding.\<close>

lemma level_bcd_encode_eq:
  "0 \<le> v \<Longrightarrow> v \<le> 255 \<Longrightarrow> level_bcd_encode v = bcd_encode_value v 2"
proof -
  assume v: "0 \<le> v" "v \<le> 255"
  then have "length (fmt0d 4 v) = 4" by (intro fmt0d_length) auto
  then obtain d0 d1 d2 d3 where "fmt0d 4 v = [d0, d1, d2, d3]"
    by (auto simp: numeral_eq_Suc length_Suc_conv)
  with v show ?thesis
    by (simp add: level_bcd_encode_def bcd_encode_value_def)
qed

interpretation level: codec level_bcd_encode level_bcd_decode "\<lambda>v. 0 \<le> v \<and> v \<le> 255"
proof
  fix v :: int
  assume v: "0 \<le> v \<and> v \<le> 255"
  then obtain bs where bs: "bcd_encode_value v 2 = Inr bs" "length bs = 2"
    "byte_digits bs = fmt0d (2 * 2) v"
    using bcd_encode_value_Inr [of 2 v] by auto
  then have "level_bcd_decode bs = Inr v"
    using v by (simp add: level_bcd_decode_def bcd_decode_value_Inr fmt0d_digit fmt0d_val)
  with v bs(1) show "\<exists>b. level_bcd_encode v = Inr b \<and> level_bcd_decode b = Inr v"
    by (simp add: level_bcd_encode_eq)
qed

interpretation fixed_bcd: codec "\<lambda>v. bcd_encode_value v (Suc n)" bcd_decode_value
  "\<lambda>v. 0 \<le> v \<and> v < 10 ^ (2 * Suc n)" for n
proof
  fix v :: int
  assume "0 \<le> v \<and> v < 10 ^ (2 * Suc n)"
  then show "\<exists>b. bcd_encode_value v (Suc n) = Inr b \<and> bcd_decode_value b = Inr v"
    using bcd_encode_value_Inr [of "Suc n" v]
    by (auto simp: bcd_decode_value_Inr fmt0d_digit fmt0d_val)
qed

text \<open>The decoder accepts only what the encoder produces.\<close>

lemma bcd_decode_value_canonical:
  assumes "bcd_decode_value bs = Inr v" and "bs \<noteq> []"
  shows "bcd_encode_value v (length bs) = Inr bs"
proof -
  let ?ds = "byte_digits bs"
  have ds: "list_all digit ?ds" "digits_val ?ds = v"
    using assms(1) by (auto simp: bcd_decode_value_Inr)
  have l: "length ?ds = length bs * 2" by simp
  have "1 \<le> length bs * 2" using assms(2) by (cases bs) auto
  then have f: "fmt0d (length bs * 2) v = ?ds"
    using ds l by (intro fmt0d_unique) auto
  have "0 \<le> v" "v < 10 ^ (length bs * 2)"
    using digits_val_bounds [OF ds(1)] ds(2) by (auto simp: mult.commute)
  then show ?thesis
    by (simp add: bcd_encode_value_def Let_def f bcd_pairs_byte_digits)
qed

section \<open>Frequencies\<close>

lemma bcd_freq_loop_Inr:
  "bcd_freq_loop i a bs = Inr f \<longleftrightarrow>
   list_all digit (byte_digits bs) \<and> f = a + 10 ^ (2 * i) * digits_val (byte_digits (rev bs))"
proof (induction bs arbitrary: i a)
  case (Cons b bs)
  have app: "byte_digits (xs @ [b]) = byte_digits xs @ [hi_nibble b, lo_nibble b]" for xs
    by (induction xs) auto
  show ?case
    using hi_nibble_bounds [of b] lo_nibble_bounds [of b]
      Cons [of "Suc i" "a + lo_nibble b * 10 ^ (2 * i) + hi_nibble b * 10 ^ (2 * i + 1)"]
    by (auto simp: Let_def digit_def app algebra_simps)
qed auto

lemma list_all_byte_digits_rev [simp]:
  "list_all digit (byte_digits (rev bs)) = list_all digit (byte_digits bs)"
proof -
  have app: "byte_digits (xs @ ys) = byte_digits xs @ byte_digits ys" for xs ys
    by (induction xs) auto
  show ?thesis by (induction bs) (auto simp: app)
qed

lemma byte_digits_nth:
  "j < length bs \<Longrightarrow> byte_digits bs ! (2 * j) = hi_nibble (bs ! j)"
  "j < length bs \<Longrightarrow> byte_digits bs ! Suc (2 * j) = lo_nibble (bs ! j)"
proof (induction bs arbitrary: j)
  case (Cons b bs)
  { case 1 then show ?case using Cons.IH(1) [of "j - 1"] by (cases j) auto }
  { case 2 then show ?case using Cons.IH(2) [of "j - 1"] by (cases j) auto }
qed auto

text \<open>The indexing loop of \<open>bcd_encode\<close> reads the digit pairs back to front.\<close>

lemma bcd_encode_pairs:
  assumes "length bs = w"
  shows "map (\<lambda>i. pack_nibbles (byte_digits (rev bs) ! (w * 2 - Suc (Suc (2 * i))))
                               (byte_digits (rev bs) ! (w * 2 - Suc (2 * i)))) [0..<w]
       = map uint bs"
proof -
  have "pack_nibbles (byte_digits (rev bs) ! (w * 2 - Suc (Suc (2 * i))))
          (byte_digits (rev bs) ! (w * 2 - Suc (2 * i))) = uint (bs ! i)" if i: "i < w" for i
  proof -
    let ?j = "w - Suc i"
    have j: "w * 2 - Suc (Suc (2 * i)) = 2 * ?j" "w * 2 - Suc (2 * i) = Suc (2 * ?j)"
      "?j < length (rev bs)"
      using i assms by auto
    have "rev bs ! ?j = bs ! i"
      using i assms by (simp add: rev_nth Suc_diff_Suc)
    then show ?thesis
      by (simp only: j(1,2) byte_digits_nth [OF j(3)] pack_nibbles_byte)
  qed
  then show ?thesis
    by (intro nth_equalityI) (auto simp: assms)
qed

lemma bcd_encode_of_digits:
  assumes "length bs = w" and "w \<in> set frequency_bcd_widths"
    and "fmt0d (w * 2) f = byte_digits (rev bs)" and "0 \<le> f"
  shows "bcd_encode f w = Inr bs"
  using assms by (simp add: bcd_encode_def Let_def bcd_encode_pairs)

lemma frequency_widths_pos: "w \<in> set frequency_bcd_widths \<Longrightarrow> 1 \<le> w * 2"
  by (auto simp: frequency_bcd_widths_def)

lemma bcd_decode_encode:
  assumes "bcd_decode bs = Inr f"
  shows "bcd_encode f (length bs) = Inr bs" and "0 \<le> f \<and> f < 10 ^ (2 * length bs)"
proof -
  let ?ds = "byte_digits (rev bs)"
  have w: "length bs \<in> set frequency_bcd_widths"
    and ds: "list_all digit ?ds" "digits_val ?ds = f"
    using assms by (auto simp: bcd_decode_def bcd_freq_loop_Inr split: if_splits)
  have "0 \<le> f" and b: "f < 10 ^ (2 * length bs)"
    using digits_val_bounds [OF ds(1)] ds(2) by auto
  moreover have "fmt0d (length bs * 2) f = ?ds"
    using ds frequency_widths_pos [OF w] by (intro fmt0d_unique) auto
  ultimately show "bcd_encode f (length bs) = Inr bs"
    and "0 \<le> f \<and> f < 10 ^ (2 * length bs)"
    using w by (auto intro: bcd_encode_of_digits)
qed

lemma bcd_encode_Inr:
  assumes "0 \<le> f" and "w \<in> set frequency_bcd_widths" and "f < 10 ^ (2 * w)"
  shows "\<exists>bs. bcd_encode f w = Inr bs \<and> length bs = w \<and> bcd_decode bs = Inr f"
proof -
  have l: "length (fmt0d (w * 2) f) = w * 2"
    using assms frequency_widths_pos [OF assms(2)] by (intro fmt0d_length) (auto simp: mult.commute)
  have "even (length (fmt0d (w * 2) f))"
    by (simp add: l)
  from bcd_pairs_digits [OF fmt0d_digit this] obtain bs where
    bs: "byte_digits bs = fmt0d (w * 2) f"
    by blast
  have "2 * length bs = 2 * w"
    using bs l by (metis length_byte_digits mult.commute)
  then have w: "length (rev bs) = w" by simp
  have "bcd_encode f w = Inr (rev bs)"
    using w assms bs by (intro bcd_encode_of_digits) auto
  moreover have "bcd_decode (rev bs) = Inr f"
    using w assms bs
    by (simp add: bcd_decode_def bcd_freq_loop_Inr fmt0d_digit fmt0d_val)
  ultimately show ?thesis using w by blast
qed

lemma bcd_encode_Inr_domain:
  assumes "bcd_encode f w = Inr bs"
  shows "0 \<le> f \<and> w \<in> set frequency_bcd_widths \<and> f < 10 ^ (2 * w)"
proof -
  have f: "0 \<le> f" and w: "w \<in> set frequency_bcd_widths"
    and "length (fmt0d (w * 2) f) \<le> w * 2"
    using assms by (auto simp: bcd_encode_def Let_def split: if_splits)
  then have "f < 10 ^ (2 * w)"
    using fmt0d_length_le [OF f frequency_widths_pos [OF w]] by (simp add: mult.commute)
  with f w show ?thesis by blast
qed

interpretation frequency: codec "\<lambda>f. bcd_encode f w" bcd_decode
  "\<lambda>f. 0 \<le> f \<and> w \<in> set frequency_bcd_widths \<and> f < 10 ^ (2 * w)" for w
  using bcd_encode_Inr by unfold_locales blast

section \<open>Filter widths\<close>

definition segment_count :: "filter_segment \<Rightarrow> int" where
  "segment_count s = (hz_max s - hz_min s) div step_hz s + 1"

text \<open>
  What a profile's segment list has to satisfy: positive steps, non-empty ranges, and index
  ranges that follow each other without overlap, in list order.
\<close>

fun segments_ok :: "filter_segment list \<Rightarrow> bool" where
  "segments_ok [] \<longleftrightarrow> True"
| "segments_ok [s] \<longleftrightarrow> 0 < step_hz s \<and> hz_min s \<le> hz_max s"
| "segments_ok (s # t # ss) \<longleftrightarrow>
     0 < step_hz s \<and> hz_min s \<le> hz_max s \<and> index_min s + segment_count s \<le> index_min t \<and>
     segments_ok (t # ss)"

lemma segment_count_pos: "0 < step_hz s \<Longrightarrow> hz_min s \<le> hz_max s \<Longrightarrow> 1 \<le> segment_count s"
  by (simp add: segment_count_def pos_imp_zdiv_nonneg_iff)

lemma segments_ok_Cons: "segments_ok (s # ss) \<Longrightarrow> segments_ok ss"
  by (cases ss) auto

lemma segments_ok_head: "segments_ok (s # ss) \<Longrightarrow> 0 < step_hz s \<and> hz_min s \<le> hz_max s"
  by (cases ss) auto

lemma segments_ok_below:
  "segments_ok (s # ss) \<Longrightarrow> t \<in> set ss \<Longrightarrow> index_min s + segment_count s \<le> index_min t"
proof (induction ss arbitrary: s)
  case (Cons u us)
  show ?case
  proof (cases "t = u")
    case False
    have ok: "segments_ok (u # us)" using Cons.prems(1) by simp
    from False Cons.prems(2) have "t \<in> set us" by simp
    with Cons.IH ok have "index_min u + segment_count u \<le> index_min t" by blast
    moreover have "1 \<le> segment_count u"
      using segments_ok_head [OF ok] by (intro segment_count_pos) auto
    ultimately show ?thesis using Cons.prems(1) by simp
  qed (use Cons.prems in simp)
qed simp

lemma segments_ok_sorted: "segments_ok ss \<Longrightarrow> sorted (map index_min ss)"
proof (induction ss)
  case (Cons s ss)
  then have "1 \<le> segment_count s"
    using segments_ok_head by (intro segment_count_pos) auto
  then have "index_min s \<le> index_min t" if "t \<in> set ss" for t
    using segments_ok_below [OF Cons.prems that] by linarith
  moreover have "sorted (map index_min ss)"
    by (rule Cons.IH [OF segments_ok_Cons [OF Cons.prems]])
  ultimately show ?case by auto
qed simp

text \<open>The index the forward conversion computes lies in the range of the segment it used.\<close>

lemma filter_hz_to_index_Inr:
  "filter_hz_to_index hz ss = Inr i \<Longrightarrow> segments_ok ss \<Longrightarrow>
   \<exists>s \<in> set ss. hz_min s \<le> hz \<and> hz \<le> hz_max s \<and>
     index_min s \<le> i \<and> i < index_min s + segment_count s \<and>
     hz = hz_min s + (i - index_min s) * step_hz s"
proof (induction ss)
  case (Cons s ss)
  show ?case
  proof (cases "hz_min s \<le> hz \<and> hz \<le> hz_max s")
    case True
    let ?d = "hz - hz_min s"
    have st: "0 < step_hz s" using segments_ok_head [OF Cons.prems(2)] by simp
    with Cons.prems(1) True have m: "?d mod step_hz s = 0" and i: "i = index_min s + ?d div step_hz s"
      by (auto simp: Let_def py_mod_def py_div_def split: if_splits)
    have "?d div step_hz s * step_hz s = ?d"
      using m div_mult_mod_eq [of ?d "step_hz s"] by simp
    moreover have "0 \<le> ?d div step_hz s"
      using st True by (simp add: pos_imp_zdiv_nonneg_iff)
    moreover have "?d div step_hz s \<le> (hz_max s - hz_min s) div step_hz s"
      using st True by (intro zdiv_mono1) auto
    ultimately show ?thesis
      using True i by (auto simp: segment_count_def)
  next
    case False
    with Cons.prems(1) have "filter_hz_to_index hz ss = Inr i" by auto
    with Cons.IH segments_ok_Cons [OF Cons.prems(2)] show ?thesis by auto
  qed
qed simp

lemma index_to_hz_loop_hit:
  assumes "segments_ok ss" and "s \<in> set ss"
    and "index_min s \<le> i" and "i < index_min s + segment_count s"
  shows "index_to_hz_loop i ss = Inr (hz_min s + (i - index_min s) * step_hz s)"
  using assms(1,2)
proof (induction ss)
  case (Cons t ts)
  have st: "0 < step_hz t" using segments_ok_head [OF Cons.prems(1)] by simp
  show ?case
  proof (cases "t = s")
    case True
    have "i < (case ts of [] \<Rightarrow> index_min s + segment_count s | u # _ \<Rightarrow> index_min u)"
      using assms(4) Cons.prems(1) True by (cases ts) auto
    then have "i < (case ts of [] \<Rightarrow> index_min s + ((hz_max s - hz_min s) div step_hz s + 1)
        | u # _ \<Rightarrow> index_min u)"
      unfolding segment_count_def .
    with True st assms(3) show ?thesis
      by (simp add: py_div_def Let_def)
  next
    case False
    with Cons.prems have s: "s \<in> set ts" by auto
    then obtain u us where ts: "ts = u # us" by (cases ts) auto
    have "index_min u \<le> index_min s"
      using segments_ok_sorted [OF segments_ok_Cons [OF Cons.prems(1)]] s ts by auto
    then have "\<not> (index_min t \<le> i \<and> i < index_min u)" using assms(3) by simp
    with False st ts Cons.IH [OF segments_ok_Cons [OF Cons.prems(1)] s] show ?thesis
      by (auto simp: py_div_def Let_def)
  qed
qed simp

section \<open>Nearest table entry\<close>

lemma nearest_loop_spec:
  assumes "best_idx < length pre" and "best_diff = \<bar>pre ! best_idx - hz\<bar>"
    and "\<forall>j < length pre. best_diff \<le> \<bar>pre ! j - hz\<bar>"
    and "\<forall>j < best_idx. best_diff < \<bar>pre ! j - hz\<bar>"
  shows "let k = nearest_loop hz (length pre) best_idx best_diff rest in
    k < length (pre @ rest) \<and>
    (\<forall>j < length (pre @ rest). \<bar>(pre @ rest) ! k - hz\<bar> \<le> \<bar>(pre @ rest) ! j - hz\<bar>) \<and>
    (\<forall>j < k. \<bar>(pre @ rest) ! k - hz\<bar> < \<bar>(pre @ rest) ! j - hz\<bar>)"
  using assms
proof (induction rest arbitrary: pre best_idx best_diff)
  case Nil
  then show ?case by (auto simp: Let_def)
next
  case (Cons e rest)
  let ?pre = "pre @ [e]"
  have len: "Suc (length pre) = length ?pre" by simp
  show ?case
  proof (cases "\<bar>e - hz\<bar> < best_diff")
    case True
    have "\<forall>j < length ?pre. \<bar>e - hz\<bar> \<le> \<bar>?pre ! j - hz\<bar>"
      using True Cons.prems(3) by (fastforce simp: nth_append less_Suc_eq)
    moreover have "\<forall>j < length pre. \<bar>e - hz\<bar> < \<bar>?pre ! j - hz\<bar>"
      using True Cons.prems(3) by (fastforce simp: nth_append)
    ultimately show ?thesis
      using True Cons.IH [of "length pre" ?pre "\<bar>e - hz\<bar>"] by (simp add: Let_def)
  next
    case False
    have "\<forall>j < length ?pre. best_diff \<le> \<bar>?pre ! j - hz\<bar>"
      using False Cons.prems(3) by (auto simp: nth_append less_Suc_eq)
    moreover have "\<forall>j < best_idx. best_diff < \<bar>?pre ! j - hz\<bar>"
      using Cons.prems(1,4) by (auto simp: nth_append)
    ultimately show ?thesis
      using False Cons.prems(1,2) Cons.IH [of best_idx ?pre best_diff]
      by (simp add: Let_def nth_append)
  qed
qed

lemma hz_to_table_index_spec:
  assumes "hz_to_table_index hz table = Inr k"
  shows "k < length table" and "j < length table \<Longrightarrow> \<bar>table ! k - hz\<bar> \<le> \<bar>table ! j - hz\<bar>"
    and "j < k \<Longrightarrow> \<bar>table ! k - hz\<bar> < \<bar>table ! j - hz\<bar>"
proof -
  obtain t ts where table: "table = t # ts" and k: "k = nearest_loop hz 0 0 \<bar>t - hz\<bar> table"
    using assms by (auto simp: hz_to_table_index_def split: list.splits)
  have "k = nearest_loop hz (length [t]) 0 \<bar>t - hz\<bar> ts"
    using k table by (simp add: Let_def)
  with nearest_loop_spec [of 0 "[t]" "\<bar>t - hz\<bar>" hz ts] table
  show "k < length table" and "j < length table \<Longrightarrow> \<bar>table ! k - hz\<bar> \<le> \<bar>table ! j - hz\<bar>"
    and "j < k \<Longrightarrow> \<bar>table ! k - hz\<bar> < \<bar>table ! j - hz\<bar>"
    by (auto simp: Let_def)
qed

section \<open>Properties\<close>

text \<open>
  The frequency codec is a bijection between its valid inputs and the byte strings it
  accepts: encoding \<open>f\<close> at a width gives \<open>bs\<close> exactly when \<open>bs\<close> has that width and decodes
  to \<open>f\<close>. No two encodings of one frequency exist, and no accepted byte string is lost.
\<close>

theorem bcd_frequency_bijection:
  "bcd_encode f w = Inr bs \<longleftrightarrow> bcd_decode bs = Inr f \<and> length bs = w"
proof
  assume e: "bcd_encode f w = Inr bs"
  from bcd_encode_Inr_domain [OF e] obtain bs' where
    "bcd_encode f w = Inr bs'" "length bs' = w" "bcd_decode bs' = Inr f"
    using bcd_encode_Inr by blast
  with e show "bcd_decode bs = Inr f \<and> length bs = w" by simp
qed (use bcd_decode_encode in blast)

text \<open>
  Fixed-width BCD: with at least one byte, the encoder fails (with \<open>ValueError\<close>) exactly on
  values that are negative or too large; otherwise it gives that many bytes, which decode back.
\<close>

theorem bcd_encode_value_correct:
  assumes "1 \<le> n"
  shows "case bcd_encode_value v n of
      Inl e \<Rightarrow> e = ValueError \<and> (v < 0 \<or> 10 ^ (2 * n) \<le> v)
    | Inr bs \<Rightarrow> 0 \<le> v \<and> v < 10 ^ (2 * n) \<and> length bs = n \<and> bcd_decode_value bs = Inr v"
proof (cases "0 \<le> v \<and> v < 10 ^ (2 * n)")
  case True
  with bcd_encode_value_Inr [OF assms, of v] show ?thesis
    by (auto simp: bcd_decode_value_Inr fmt0d_digit fmt0d_val)
next
  case False
  then have "bcd_encode_value v n = Inl ValueError"
    by (auto simp: bcd_encode_value_def Let_def mult.commute)
  with False show ?thesis by auto
qed

theorem bcd_encode_value_correct_witness:
  "case bcd_encode_value 1234 3 of
      Inl e \<Rightarrow> e = ValueError \<and> ((1234::int) < 0 \<or> 10 ^ (2 * 3) \<le> (1234::int))
    | Inr bs \<Rightarrow> (0::int) \<le> 1234 \<and> (1234::int) < 10 ^ (2 * 3) \<and> length bs = 3 \<and>
        bcd_decode_value bs = Inr 1234"
  by (rule bcd_encode_value_correct) simp

text \<open>
  Levels: the encoder accepts exactly 0..255 and its two bytes decode back to the level,
  whatever bytes follow them in the payload.
\<close>

theorem level_bcd_correct:
  "case level_bcd_encode v of
      Inl e \<Rightarrow> e = ValueError \<and> \<not> (0 \<le> v \<and> v \<le> 255)
    | Inr bs \<Rightarrow> (0 \<le> v \<and> v \<le> 255) \<and> length bs = 2 \<and> level_bcd_decode (bs @ rest) = Inr v"
proof (cases "0 \<le> v \<and> v \<le> 255")
  case True
  then obtain bs where bs: "level_bcd_encode v = Inr bs" "level_bcd_decode bs = Inr v"
    using level.enc_ok by blast
  moreover have "length bs = 2"
    using bs(1) True bcd_encode_value_Inr [of 2 v] by (auto simp: level_bcd_encode_eq)
  ultimately show ?thesis
    using True by (simp add: level_bcd_decode_def)
qed (auto simp: level_bcd_encode_def)

text \<open>
  Filter widths: on a profile whose index ranges do not overlap, converting a width to its
  CI-V index and back gives the width again.
\<close>

theorem filter_width_roundtrip:
  assumes "segments_ok segments" and "filter_hz_to_index hz segments = Inr i"
  shows "filter_index_to_hz i segments = Inr hz"
proof -
  obtain s where s: "s \<in> set segments" "index_min s \<le> i" "i < index_min s + segment_count s"
    and hz: "hz = hz_min s + (i - index_min s) * step_hz s"
    using filter_hz_to_index_Inr [OF assms(2,1)] by blast
  have "filter_index_to_hz i segments = index_to_hz_loop i segments"
    by (simp add: filter_index_to_hz_def sort_key_id_if_sorted segments_ok_sorted assms(1))
  then show ?thesis
    using index_to_hz_loop_hit [OF assms(1) s] hz by simp
qed

definition ic7610_usb_segments :: "filter_segment list" where
  "ic7610_usb_segments =
     [\<lparr>hz_min = 50, hz_max = 500, step_hz = 50, index_min = 0\<rparr>,
      \<lparr>hz_min = 600, hz_max = 3600, step_hz = 100, index_min = 10\<rparr>]"

theorem filter_width_roundtrip_witness:
  "filter_hz_to_index 2400 ic7610_usb_segments = Inr 28 \<and>
   filter_index_to_hz 28 ic7610_usb_segments = Inr 2400"
proof -
  have ok: "segments_ok ic7610_usb_segments"
    by (simp add: ic7610_usb_segments_def segment_count_def)
  have i: "filter_hz_to_index 2400 ic7610_usb_segments = Inr 28"
    by (simp add: ic7610_usb_segments_def py_mod_def py_div_def Let_def)
  show ?thesis using i filter_width_roundtrip [OF ok i] by simp
qed

text \<open>
  Table lookup: \<open>hz_to_table_index\<close> fails only on an empty table and otherwise returns the
  first index whose entry is nearest to the requested width; that index is one
  \<open>table_index_to_hz\<close> accepts.
\<close>

theorem hz_to_table_index_nearest:
  "case hz_to_table_index hz table of
      Inl e \<Rightarrow> e = ValueError \<and> table = []
    | Inr k \<Rightarrow> table_index_to_hz (int k) table = Inr (table ! k) \<and>
        k = (LEAST i. i < length table \<and>
               \<bar>table ! i - hz\<bar> = Min (set (map (\<lambda>x. \<bar>x - hz\<bar>) table)))"
proof (cases "hz_to_table_index hz table")
  case (Inl e)
  then show ?thesis by (auto simp: hz_to_table_index_def split: list.splits)
next
  case (Inr k)
  note spec = hz_to_table_index_spec [OF Inr]
  have m: "Min (set (map (\<lambda>x. \<bar>x - hz\<bar>) table)) = \<bar>table ! k - hz\<bar>"
  proof (rule Min_eqI)
    show "\<bar>table ! k - hz\<bar> \<le> y" if "y \<in> set (map (\<lambda>x. \<bar>x - hz\<bar>) table)" for y
      using that spec(2) by (auto simp: in_set_conv_nth)
  qed (use spec(1) in auto)
  have "(LEAST i. i < length table \<and> \<bar>table ! i - hz\<bar> = \<bar>table ! k - hz\<bar>) = k"
    by (rule Least_equality) (use spec in \<open>force simp: not_less [symmetric]\<close>)+
  with Inr m spec(1) show ?thesis
    by (simp add: table_index_to_hz_def)
qed

end
