(* ===== verification/CivFrames.thy ===== *)
theory CivFrames
  imports Prelude "HOL-Library.Sublist"
begin

text \<open>
  CI-V frames and the command map.

  \<^item> \<open>commands/_frame.py\<close>: \<open>build_civ_frame\<close>, \<open>build_cmd29_frame\<close>, \<open>decode_wire_tuple\<close>,
    \<open>_build_from_map\<close>, \<open>parse_civ_frame\<close>, \<open>parse_ack_nak\<close>.
  \<^item> \<open>commands/command_map.py\<close>: \<open>CommandMap\<close> and the \<open>ReverseCommandIndex\<close>.
  \<^item> \<open>core/civ.py\<close>: \<open>iter_civ_frames\<close>, which cuts a receive buffer into frames.

  A dict is an association list with distinct keys, in insertion order. The lemmas show that
  building and parsing agree on where the sub-command byte is, that a frame built from a map
  entry is resolved back to that entry by the index, and that the buffer scanner returns
  exactly the frames that were concatenated.
\<close>

section \<open>Constants and the parsed frame\<close>

definition CONTROLLER_ADDR :: int where "CONTROLLER_ADDR = 0xE0"
definition RECEIVER_MAIN :: int where "RECEIVER_MAIN = 0x00"
definition RECEIVER_SUB :: int where "RECEIVER_SUB = 0x01"
definition CMD_RECEIVER_PREFIX :: int where "CMD_RECEIVER_PREFIX = 0x29"
definition CMD_PREAMP :: int where "CMD_PREAMP = 0x16"
definition CMD_ACK :: int where "CMD_ACK = 0xFB"
definition CMD_NAK :: int where "CMD_NAK = 0xFA"

definition PREAMBLE :: "byte list" where "PREAMBLE = [0xFE, 0xFE]"
definition TERMINATOR :: "byte list" where "TERMINATOR = [0xFD]"

text \<open>\<open>CivFrame\<close> as the parser produces it: every field was read from one byte.\<close>

record civ_frame =
  cf_to :: byte
  cf_from :: byte
  cf_command :: byte
  cf_sub :: "byte option"
  cf_data :: "byte list"
  cf_receiver :: "byte option"

definition COMMANDS_WITH_SUB :: "int list" where
  "COMMANDS_WITH_SUB = [0x14, 0x15, 0x1C, 0x1A, 0x21, 0x27, 0x16, 0x1B, 0x12, 0x19]"

definition command_carries_sub :: "int \<Rightarrow> bool" where
  "command_carries_sub command \<longleftrightarrow> command \<in> set COMMANDS_WITH_SUB"

section \<open>Building frames\<close>

text \<open>Appending an optional byte, and extending by an optional payload (\<open>if data:\<close>).\<close>

definition append_opt :: "int option \<Rightarrow> byte list result" where
  "append_opt sub = (case sub of None \<Rightarrow> Inr [] | Some n \<Rightarrow> bytes_of_ints [n])"

definition data_bytes :: "byte list option \<Rightarrow> byte list" where
  "data_bytes data = (case data of None \<Rightarrow> [] | Some d \<Rightarrow> d)"

definition build_civ_frame ::
  "int \<Rightarrow> int \<Rightarrow> int \<Rightarrow> int option \<Rightarrow> byte list option \<Rightarrow> byte list result" where
  "build_civ_frame to_addr from_addr command sub data =
     bind_result (bytes_of_ints [to_addr, from_addr, command]) (\<lambda>head.
     bind_result (append_opt sub) (\<lambda>s.
     Inr (PREAMBLE @ head @ s @ data_bytes data @ TERMINATOR)))"

definition build_cmd29_frame ::
  "int \<Rightarrow> int \<Rightarrow> int \<Rightarrow> int option \<Rightarrow> byte list option \<Rightarrow> int \<Rightarrow> byte list result" where
  "build_cmd29_frame to_addr from_addr command sub data receiver =
     bind_result (bytes_of_ints [command]) (\<lambda>c.
     bind_result (append_opt sub) (\<lambda>s.
     let inner = c @ s @ data_bytes data in
     bind_result (bytes_of_ints [receiver]) (\<lambda>r.
     build_civ_frame to_addr from_addr CMD_RECEIVER_PREFIX None (Some (r @ inner)))))"

definition decode_wire_tuple :: "int list \<Rightarrow> (int \<times> int option \<times> byte list) result" where
  "decode_wire_tuple wire =
     (case wire of
        [] \<Rightarrow> Inl IndexError
      | command # rest \<Rightarrow>
          (if rest \<noteq> [] \<and> command_carries_sub command
           then bind_result (bytes_of_ints (tl rest)) (\<lambda>pfx. Inr (command, Some (hd rest), pfx))
           else bind_result (bytes_of_ints rest) (\<lambda>pfx. Inr (command, None, pfx))))"

section \<open>The command map\<close>

record command_map =
  cm_commands :: "(string \<times> int list) list"
  cm_value_variants :: "(string \<times> (int \<times> int list) list) list"

definition cm_get :: "command_map \<Rightarrow> string \<Rightarrow> int list result" where
  "cm_get cm name =
     (case map_of (cm_commands cm) name of None \<Rightarrow> Inl KeyError | Some wire \<Rightarrow> Inr wire)"

definition cm_has :: "command_map \<Rightarrow> string \<Rightarrow> bool" where
  "cm_has cm name \<longleftrightarrow> map_of (cm_commands cm) name \<noteq> None"

definition cm_has_value_variants :: "command_map \<Rightarrow> string \<Rightarrow> bool" where
  "cm_has_value_variants cm name \<longleftrightarrow>
     (case map_of (cm_value_variants cm) name of None \<Rightarrow> False | Some vs \<Rightarrow> vs \<noteq> [])"

definition cm_get_value_variant :: "command_map \<Rightarrow> string \<Rightarrow> int \<Rightarrow> int list result" where
  "cm_get_value_variant cm name value =
     (case map_of (cm_value_variants cm) name of
        None \<Rightarrow> Inl ValueError
      | Some vs \<Rightarrow> (case map_of vs value of None \<Rightarrow> Inl ValueError | Some wire \<Rightarrow> Inr wire))"

text \<open>The wire tuple \<open>_build_from_map\<close> selects: a value variant, or the plain entry.\<close>

definition select_wire ::
  "command_map \<Rightarrow> string \<Rightarrow> byte list option \<Rightarrow> int option \<Rightarrow> int list result" where
  "select_wire cm name data value =
     (if cm_has_value_variants cm name then
        (if data \<noteq> None then Inl ValueError
         else case value of
             None \<Rightarrow> Inl ValueError
           | Some v \<Rightarrow> cm_get_value_variant cm name v)
      else cm_get cm name)"

definition build_from_map ::
  "command_map \<Rightarrow> string \<Rightarrow> int \<Rightarrow> int \<Rightarrow> byte list option \<Rightarrow> int \<Rightarrow> bool \<Rightarrow> int option
   \<Rightarrow> byte list result" where
  "build_from_map cm name to_addr from_addr data receiver command29 value =
     bind_result (select_wire cm name data value) (\<lambda>wire.
     bind_result (decode_wire_tuple wire) (\<lambda>(command, sub, pfx).
       let data' = (if pfx \<noteq> [] then
                      (case data of
                         None \<Rightarrow> Some pfx
                       | Some d \<Rightarrow> (if d \<noteq> [] then Some (pfx @ d) else Some pfx))
                    else data)
       in if command29
          then build_cmd29_frame to_addr from_addr command sub data' receiver
          else build_civ_frame to_addr from_addr command sub data'))"

section \<open>Parsing frames\<close>

definition parse_civ_frame :: "byte list \<Rightarrow> civ_frame result" where
  "parse_civ_frame bs =
     (if length bs < 6 then Inl ValueError
      else if take 2 bs \<noteq> PREAMBLE then Inl ValueError
      else if drop (length bs - 1) bs \<noteq> TERMINATOR then Inl ValueError
      else
        let to_addr = bs ! 2; from_addr = bs ! 3; command = bs ! 4;
            payload = butlast (drop 5 bs)
        in
        if uint command = CMD_RECEIVER_PREFIX \<and> length payload \<ge> 2 then
          let receiver = payload ! 0; real_command = payload ! 1; inner = drop 2 payload in
          (if command_carries_sub (uint real_command) \<and> length inner \<ge> 1
           then Inr \<lparr>cf_to = to_addr, cf_from = from_addr, cf_command = real_command,
                     cf_sub = Some (hd inner), cf_data = tl inner, cf_receiver = Some receiver\<rparr>
           else if uint real_command = CMD_PREAMP \<and> length inner \<ge> 1
           then Inr \<lparr>cf_to = to_addr, cf_from = from_addr, cf_command = real_command,
                     cf_sub = Some (hd inner), cf_data = tl inner, cf_receiver = Some receiver\<rparr>
           else Inr \<lparr>cf_to = to_addr, cf_from = from_addr, cf_command = real_command,
                     cf_sub = None, cf_data = inner, cf_receiver = Some receiver\<rparr>)
        else if command_carries_sub (uint command) \<and> length payload \<ge> 1
        then Inr \<lparr>cf_to = to_addr, cf_from = from_addr, cf_command = command,
                  cf_sub = Some (hd payload), cf_data = tl payload, cf_receiver = None\<rparr>
        else Inr \<lparr>cf_to = to_addr, cf_from = from_addr, cf_command = command,
                  cf_sub = None, cf_data = payload, cf_receiver = None\<rparr>)"

definition parse_ack_nak :: "civ_frame \<Rightarrow> bool option" where
  "parse_ack_nak frame =
     (if uint (cf_command frame) = CMD_ACK then Some True
      else if uint (cf_command frame) = CMD_NAK then Some False
      else None)"

section \<open>Cutting a buffer into frames\<close>

text \<open>\<open>payload.find(b"\\xfd", start)\<close>, counted from \<open>start\<close>.\<close>

fun find_terminator :: "byte list \<Rightarrow> nat option" where
  "find_terminator [] = None"
| "find_terminator (b # bs) = (if b = 0xFD then Some 0 else map_option Suc (find_terminator bs))"

text \<open>
  The scanning loop, as a function of the bytes from \<open>idx\<close> on: \<open>idx < len(payload) - 4\<close> says
  that more than four bytes are left.
\<close>

function iter_civ_frames :: "byte list \<Rightarrow> byte list list" where
  "iter_civ_frames payload =
     (if length payload \<le> 4 then []
      else if payload ! 0 \<noteq> 0xFE \<or> payload ! 1 \<noteq> 0xFE then iter_civ_frames (tl payload)
      else case find_terminator (drop 4 payload) of
             None \<Rightarrow> []
           | Some k \<Rightarrow> take (k + 5) payload # iter_civ_frames (drop (k + 5) payload))"
  by pat_completeness auto
termination
  by (relation "measure length") auto

declare iter_civ_frames.simps [simp del]

section \<open>The reverse index\<close>

text \<open>\<open>d.setdefault(k, v0)\<close> followed by an update of the value found there.\<close>

fun setdefault_update :: "'k \<Rightarrow> 'v \<Rightarrow> ('v \<Rightarrow> 'v) \<Rightarrow> ('k \<times> 'v) list \<Rightarrow> ('k \<times> 'v) list" where
  "setdefault_update k v0 f [] = [(k, f v0)]"
| "setdefault_update k v0 f ((k', v) # kvs) =
     (if k' = k then (k', f v) # kvs else (k', v) # setdefault_update k v0 f kvs)"

type_synonym bucket = "(byte list \<times> string set) list"
type_synonym reverse_index = "((int \<times> int option) \<times> bucket) list"

text \<open>One turn of the loop of \<open>ReverseCommandIndex.__init__\<close>.\<close>

definition index_add ::
  "string \<Rightarrow> int \<times> int option \<times> byte list \<Rightarrow> reverse_index \<Rightarrow> reverse_index" where
  "index_add name key raw =
     (case key of (command, sub, pfx) \<Rightarrow>
        setdefault_update (command, sub) [] (setdefault_update pfx {} (insert name)) raw)"

fun index_loop :: "command_map \<Rightarrow> string list \<Rightarrow> reverse_index \<Rightarrow> reverse_index result" where
  "index_loop cm [] raw = Inr raw"
| "index_loop cm (name # names) raw =
     bind_result (cm_get cm name) (\<lambda>wire.
     bind_result (decode_wire_tuple wire) (\<lambda>key.
       index_loop cm names (index_add name key raw)))"

definition reverse_index_init :: "command_map \<Rightarrow> reverse_index result" where
  "reverse_index_init cm = index_loop cm (map fst (cm_commands cm)) []"

record reverse_lookup_result =
  rl_name :: "string option"
  rl_candidates :: "string set"

text \<open>Construction of a \<open>ReverseLookupResult\<close> with its \<open>__post_init__\<close> checks.\<close>

definition mk_lookup_result :: "string option \<Rightarrow> string set \<Rightarrow> reverse_lookup_result result" where
  "mk_lookup_result name candidates =
     (if name \<noteq> None \<and> candidates \<noteq> {} then Inl ValueError
      else if name = None \<and> card candidates = 1 then Inl ValueError
      else Inr \<lparr>rl_name = name, rl_candidates = candidates\<rparr>)"

definition rl_resolved :: "reverse_lookup_result \<Rightarrow> bool" where
  "rl_resolved r \<longleftrightarrow> rl_name r \<noteq> None"

definition rl_ambiguous :: "reverse_lookup_result \<Rightarrow> bool" where
  "rl_ambiguous r \<longleftrightarrow> rl_name r = None \<and> card (rl_candidates r) \<ge> 2"

definition rl_unrecognized :: "reverse_lookup_result \<Rightarrow> bool" where
  "rl_unrecognized r \<longleftrightarrow> rl_name r = None \<and> rl_candidates r = {}"

definition bucket_candidates :: "bucket \<Rightarrow> byte list \<Rightarrow> string set" where
  "bucket_candidates bucket data =
     \<Union> (set (map snd (filter (\<lambda>(pre, names). prefix pre data) bucket)))"

definition resolve_frame ::
  "reverse_index \<Rightarrow> int \<Rightarrow> int option \<Rightarrow> byte list \<Rightarrow> reverse_lookup_result result" where
  "resolve_frame buckets command sub data =
     (case map_of buckets (command, sub) of
        None \<Rightarrow> mk_lookup_result None {}
      | Some [] \<Rightarrow> mk_lookup_result None {}
      | Some bucket \<Rightarrow>
          (let candidates = bucket_candidates bucket data in
           if candidates = {} then mk_lookup_result None {}
           else if card candidates = 1 then mk_lookup_result (Some (the_elem candidates)) {}
           else mk_lookup_result None candidates))"

section \<open>Building and parsing\<close>

lemma uint_0xFE [simp]: "uint (0xFE :: byte) = 0xFE" by simp

lemma append_opt_Inr [result_simps]:
  "append_opt sub = Inr s \<longleftrightarrow> (case sub of None \<Rightarrow> s = [] | Some n \<Rightarrow> \<exists>b. s = [b] \<and> uint b = n)"
  by (auto simp: append_opt_def result_simps uint_lt2p split: option.splits)

lemma build_civ_frame_Inr:
  assumes "build_civ_frame to_addr from_addr command sub data = Inr bs"
  obtains t f c s where "bs = 0xFE # 0xFE # t # f # c # (s @ data_bytes data) @ [0xFD]"
    and "uint t = to_addr" and "uint f = from_addr" and "uint c = command"
    and "append_opt sub = Inr s"
  using assms by (auto simp: build_civ_frame_def result_simps PREAMBLE_def TERMINATOR_def)

text \<open>How the payload of a frame is split into sub-command byte and data.\<close>

definition split_sub :: "byte \<Rightarrow> byte list \<Rightarrow> byte option \<times> byte list" where
  "split_sub c payload =
     (if command_carries_sub (uint c) \<and> payload \<noteq> [] then (Some (hd payload), tl payload)
      else (None, payload))"

lemma preamp_carries_sub: "command_carries_sub CMD_PREAMP"
  by (simp add: command_carries_sub_def COMMANDS_WITH_SUB_def CMD_PREAMP_def)

lemma receiver_prefix_no_sub: "\<not> command_carries_sub CMD_RECEIVER_PREFIX"
  by (simp add: command_carries_sub_def COMMANDS_WITH_SUB_def CMD_RECEIVER_PREFIX_def)

lemma parse_plain:
  assumes "\<not> (uint c = CMD_RECEIVER_PREFIX \<and> 2 \<le> length payload)"
  shows "parse_civ_frame (0xFE # 0xFE # t # f # c # payload @ [0xFD]) =
    Inr \<lparr>cf_to = t, cf_from = f, cf_command = c, cf_sub = fst (split_sub c payload),
         cf_data = snd (split_sub c payload), cf_receiver = None\<rparr>"
proof -
  have "\<not> length payload \<ge> 1 \<longleftrightarrow> payload = []" by (cases payload) auto
  with assms show ?thesis
    by (auto simp: parse_civ_frame_def Let_def PREAMBLE_def TERMINATOR_def split_sub_def)
qed

lemma parse_cmd29:
  "parse_civ_frame (0xFE # 0xFE # t # f # 0x29 # r # c # payload @ [0xFD]) =
    Inr \<lparr>cf_to = t, cf_from = f, cf_command = c, cf_sub = fst (split_sub c payload),
         cf_data = snd (split_sub c payload), cf_receiver = Some r\<rparr>"
proof -
  have "\<not> length payload \<ge> 1 \<longleftrightarrow> payload = []" by (cases payload) auto
  moreover have "uint c = CMD_PREAMP \<Longrightarrow> command_carries_sub (uint c)"
    using preamp_carries_sub by simp
  ultimately show ?thesis
    by (auto simp: parse_civ_frame_def Let_def PREAMBLE_def TERMINATOR_def split_sub_def
        CMD_RECEIVER_PREFIX_def)
qed

text \<open>
  When the caller's sub-command agrees with the predicate, the parser finds the same split.
\<close>

definition sub_agrees :: "int \<Rightarrow> int option \<Rightarrow> byte list \<Rightarrow> bool" where
  "sub_agrees command sub data \<longleftrightarrow>
     (case sub of None \<Rightarrow> \<not> command_carries_sub command \<or> data = []
                | Some _ \<Rightarrow> command_carries_sub command)"

lemma split_sub_agrees:
  assumes "append_opt sub = Inr s" and "sub_agrees (uint c) sub data"
  shows "map_option uint (fst (split_sub c (s @ data))) = sub"
    and "snd (split_sub c (s @ data)) = data"
  using assms by (auto simp: result_simps sub_agrees_def split_sub_def split: option.splits)

lemma parse_build_civ_frame:
  assumes "build_civ_frame to_addr from_addr command sub data = Inr bs"
    and "sub_agrees command sub (data_bytes data)" and "command \<noteq> CMD_RECEIVER_PREFIX"
  shows "\<exists>fr. parse_civ_frame bs = Inr fr \<and> uint (cf_to fr) = to_addr \<and>
    uint (cf_from fr) = from_addr \<and> uint (cf_command fr) = command \<and>
    map_option uint (cf_sub fr) = sub \<and> cf_data fr = data_bytes data \<and> cf_receiver fr = None"
  using assms(1)
proof (rule build_civ_frame_Inr)
  fix t f c s
  assume h: "bs = 0xFE # 0xFE # t # f # c # (s @ data_bytes data) @ [0xFD]"
    "uint t = to_addr" "uint f = from_addr" "uint c = command" "append_opt sub = Inr s"
  then show ?thesis
    using assms(2,3) parse_plain [of c "s @ data_bytes data" t f]
      split_sub_agrees [of sub s c "data_bytes data"]
    by auto
qed

lemma parse_build_cmd29_frame:
  assumes "build_cmd29_frame to_addr from_addr command sub data receiver = Inr bs"
    and "sub_agrees command sub (data_bytes data)"
  shows "\<exists>fr. parse_civ_frame bs = Inr fr \<and> uint (cf_to fr) = to_addr \<and>
    uint (cf_from fr) = from_addr \<and> uint (cf_command fr) = command \<and>
    map_option uint (cf_sub fr) = sub \<and> cf_data fr = data_bytes data \<and>
    map_option uint (cf_receiver fr) = Some receiver"
proof -
  obtain c s r where c: "uint c = command" and s: "append_opt sub = Inr s" and r: "uint r = receiver"
    and b: "build_civ_frame to_addr from_addr CMD_RECEIVER_PREFIX None
              (Some (r # c # s @ data_bytes data)) = Inr bs"
    using assms(1) by (auto simp: build_cmd29_frame_def result_simps Let_def)
  from b show ?thesis
  proof (rule build_civ_frame_Inr)
    fix t f p q
    assume h: "bs = 0xFE # 0xFE # t # f # p # (q @ data_bytes (Some (r # c # s @ data_bytes data))) @ [0xFD]"
      "uint t = to_addr" "uint f = from_addr" "uint p = CMD_RECEIVER_PREFIX" "append_opt None = Inr q"
    have "p = 0x29"
      using h(4) by (intro word_uint_eqI) (simp add: CMD_RECEIVER_PREFIX_def)
    moreover have "q = []" using h(5) by (simp add: append_opt_def)
    ultimately have "bs = 0xFE # 0xFE # t # f # 0x29 # r # c # (s @ data_bytes data) @ [0xFD]"
      using h(1) by (simp add: data_bytes_def)
    then show ?thesis
      using h c r assms(2) parse_cmd29 [of t f r c "s @ data_bytes data"]
        split_sub_agrees [OF s, of c "data_bytes data"]
      by auto
  qed
qed

lemma decode_wire_tuple_Inr:
  assumes "decode_wire_tuple wire = Inr (command, sub, pfx)"
  shows "sub = None \<Longrightarrow> command_carries_sub command \<Longrightarrow> pfx = []"
    and "sub \<noteq> None \<Longrightarrow> command_carries_sub command"
  using assms by (auto simp: decode_wire_tuple_def result_simps split: list.splits if_splits)

text \<open>The data handed to the frame builder is the prefix of the entry followed by the argument.\<close>

lemma build_from_map_Inr:
  assumes "build_from_map cm name to_addr from_addr data receiver command29 value = Inr bs"
  obtains wire command sub pfx data' where
    "select_wire cm name data value = Inr wire"
    and "decode_wire_tuple wire = Inr (command, sub, pfx)"
    and "data_bytes data' = pfx @ data_bytes data"
    and "(if command29
          then build_cmd29_frame to_addr from_addr command sub data' receiver
          else build_civ_frame to_addr from_addr command sub data') = Inr bs"
proof -
  obtain wire command sub pfx where
    w: "select_wire cm name data value = Inr wire" "decode_wire_tuple wire = Inr (command, sub, pfx)"
    and b: "(let data' = (if pfx \<noteq> [] then
                      (case data of
                         None \<Rightarrow> Some pfx
                       | Some d \<Rightarrow> (if d \<noteq> [] then Some (pfx @ d) else Some pfx))
                    else data)
       in if command29
          then build_cmd29_frame to_addr from_addr command sub data' receiver
          else build_civ_frame to_addr from_addr command sub data') = Inr bs"
    using assms by (auto simp: build_from_map_def result_simps)
  show ?thesis
    by (rule that [OF w _ b [unfolded Let_def]])
       (auto simp: data_bytes_def split: option.splits)
qed

lemma built_frame_parse:
  assumes "build_from_map cm name to_addr from_addr data receiver command29 value = Inr bs"
    and "select_wire cm name data value = Inr wire"
    and "decode_wire_tuple wire = Inr (command, sub, pfx)"
    and "sub \<noteq> None \<or> \<not> command_carries_sub command \<or> data_bytes data = []"
    and "command29 \<or> command \<noteq> CMD_RECEIVER_PREFIX"
  shows "\<exists>fr. parse_civ_frame bs = Inr fr \<and> uint (cf_to fr) = to_addr \<and>
    uint (cf_from fr) = from_addr \<and> uint (cf_command fr) = command \<and>
    map_option uint (cf_sub fr) = sub \<and> cf_data fr = pfx @ data_bytes data \<and>
    map_option uint (cf_receiver fr) = (if command29 then Some receiver else None)"
  using assms(1)
proof (rule build_from_map_Inr)
  fix wire' command' sub' pfx' data'
  assume h: "select_wire cm name data value = Inr wire'"
    "decode_wire_tuple wire' = Inr (command', sub', pfx')"
    "data_bytes data' = pfx' @ data_bytes data"
    "(if command29 then build_cmd29_frame to_addr from_addr command' sub' data' receiver
      else build_civ_frame to_addr from_addr command' sub' data') = Inr bs"
  then have eq: "command' = command" "sub' = sub" "pfx' = pfx"
    using assms(2,3) by auto
  have "sub_agrees command sub (data_bytes data')"
    using assms(4) h(3) eq decode_wire_tuple_Inr [OF assms(3)]
    by (auto simp: sub_agrees_def split: option.splits)
  with h(3,4) assms(5) show ?thesis
    using parse_build_cmd29_frame [of to_addr from_addr command sub data' receiver bs]
      parse_build_civ_frame [of to_addr from_addr command sub data' bs]
    by (cases command29) (auto simp: eq)
qed

section \<open>What the reverse index holds\<close>

lemma map_of_setdefault_update:
  "map_of (setdefault_update k v0 f kvs) k' =
   (if k' = k then Some (f (case map_of kvs k of None \<Rightarrow> v0 | Some v \<Rightarrow> v)) else map_of kvs k')"
  by (induction kvs) auto

fun bucket_has :: "bucket \<Rightarrow> byte list \<Rightarrow> string \<Rightarrow> bool" where
  "bucket_has [] p name \<longleftrightarrow> False"
| "bucket_has ((q, names) # bucket) p name \<longleftrightarrow> q = p \<and> name \<in> names \<or> bucket_has bucket p name"

lemma bucket_has_add:
  "bucket_has (setdefault_update p {} (insert n) bucket) p' n' \<longleftrightarrow>
   p' = p \<and> n' = n \<or> bucket_has bucket p' n'"
  by (induction bucket) (auto split: if_splits)

definition index_has :: "reverse_index \<Rightarrow> int \<times> int option \<Rightarrow> byte list \<Rightarrow> string \<Rightarrow> bool" where
  "index_has idx key p name \<longleftrightarrow>
     (case map_of idx key of None \<Rightarrow> False | Some bucket \<Rightarrow> bucket_has bucket p name)"

lemma index_has_add:
  "index_has (index_add n (c, s, p) idx) key p' n' \<longleftrightarrow>
   key = (c, s) \<and> p' = p \<and> n' = n \<or> index_has idx key p' n'"
  by (auto simp: index_has_def index_add_def map_of_setdefault_update bucket_has_add
      split: option.splits)

definition declares :: "command_map \<Rightarrow> string \<Rightarrow> int \<times> int option \<times> byte list \<Rightarrow> bool" where
  "declares cm name key \<longleftrightarrow> bind_result (cm_get cm name) decode_wire_tuple = Inr key"

lemma index_loop_has:
  "index_loop cm names idx = Inr idx' \<Longrightarrow>
   index_has idx' (c, s) p n \<longleftrightarrow>
   index_has idx (c, s) p n \<or> n \<in> set names \<and> declares cm n (c, s, p)"
proof (induction names arbitrary: idx)
  case (Cons m names)
  then obtain wire c' s' p' where m: "cm_get cm m = Inr wire" "decode_wire_tuple wire = Inr (c', s', p')"
    and l: "index_loop cm names (index_add m (c', s', p') idx) = Inr idx'"
    by (auto simp: result_simps)
  have d: "declares cm m (c, s, p) \<longleftrightarrow> c = c' \<and> s = s' \<and> p = p'"
    using m by (auto simp: declares_def)
  have "index_has idx' (c, s) p n \<longleftrightarrow>
    index_has (index_add m (c', s', p') idx) (c, s) p n \<or> n \<in> set names \<and> declares cm n (c, s, p)"
    by (rule Cons.IH [OF l])
  also have "\<dots> \<longleftrightarrow> index_has idx (c, s) p n \<or> n \<in> set (m # names) \<and> declares cm n (c, s, p)"
    using d by (auto simp: index_has_add)
  finally show ?case .
qed simp

lemma declares_in_map: "declares cm n key \<Longrightarrow> n \<in> set (map fst (cm_commands cm))"
  by (force simp: declares_def result_simps cm_get_def split: option.splits
      dest: map_of_SomeD)

lemma reverse_index_has:
  assumes "reverse_index_init cm = Inr idx"
  shows "index_has idx (c, s) p n \<longleftrightarrow> declares cm n (c, s, p)"
  using index_loop_has [OF assms [unfolded reverse_index_init_def], of c s p n] declares_in_map
  by (auto simp: index_has_def)

text \<open>The specification: the names whose entry is a prefix of the frame.\<close>

definition viable :: "command_map \<Rightarrow> int \<Rightarrow> int option \<Rightarrow> byte list \<Rightarrow> string set" where
  "viable cm command sub data = {name. \<exists>p. declares cm name (command, sub, p) \<and> prefix p data}"

lemma bucket_candidates_has:
  "bucket_candidates bucket data = {n. \<exists>p. bucket_has bucket p n \<and> prefix p data}"
  by (induction bucket) (auto simp: bucket_candidates_def)

lemma resolve_frame_viable:
  assumes "reverse_index_init cm = Inr idx"
  shows "resolve_frame idx c s data =
    Inr (if card (viable cm c s data) = 1
         then \<lparr>rl_name = Some (the_elem (viable cm c s data)), rl_candidates = {}\<rparr>
         else \<lparr>rl_name = None, rl_candidates = viable cm c s data\<rparr>)"
proof (cases "map_of idx (c, s)")
  case None
  then have "\<not> declares cm n (c, s, p)" for n p
    using reverse_index_has [OF assms, of c s p n] by (simp add: index_has_def)
  then have "viable cm c s data = {}"
    by (simp add: viable_def)
  with None show ?thesis by (simp add: resolve_frame_def mk_lookup_result_def)
next
  case (Some bucket)
  then have "viable cm c s data = bucket_candidates bucket data"
    using reverse_index_has [OF assms, symmetric]
    by (simp add: viable_def bucket_candidates_has index_has_def)
  with Some show ?thesis
    by (cases bucket) (auto simp: resolve_frame_def mk_lookup_result_def Let_def bucket_candidates_def)
qed

section \<open>Cutting a buffer\<close>

definition whole_frame :: "byte list \<Rightarrow> bool" where
  "whole_frame f \<longleftrightarrow> 5 \<le> length f \<and> f ! 0 = 0xFE \<and> f ! 1 = 0xFE \<and> last f = 0xFD \<and>
     0xFD \<notin> set (butlast (drop 4 f))"

lemma find_terminator_None: "find_terminator bs = None \<longleftrightarrow> 0xFD \<notin> set bs"
  by (induction bs) auto

lemma find_terminator_Some:
  "find_terminator bs = Some k \<longleftrightarrow> k < length bs \<and> bs ! k = 0xFD \<and> 0xFD \<notin> set (take k bs)"
proof (induction bs arbitrary: k)
  case (Cons b bs)
  show ?case by (cases k) (auto simp: Cons)
qed simp

lemma iter_civ_frames_skip:
  "b \<noteq> 0xFE \<Longrightarrow> iter_civ_frames (b # bs) = iter_civ_frames bs"
  by (subst iter_civ_frames.simps) (auto simp: iter_civ_frames.simps [of bs])

lemma iter_civ_frames_skip_list:
  "0xFE \<notin> set junk \<Longrightarrow> iter_civ_frames (junk @ bs) = iter_civ_frames bs"
  by (induction junk) (auto simp: iter_civ_frames_skip)

lemma iter_civ_frames_no_terminator:
  "0xFD \<notin> set bs \<Longrightarrow> iter_civ_frames bs = []"
proof (induction bs rule: iter_civ_frames.induct)
  case (1 bs)
  have "find_terminator (drop 4 bs) = None"
    using "1.prems" by (auto simp: find_terminator_None dest: in_set_dropD)
  moreover have "0xFD \<notin> set (tl bs)"
    using "1.prems" by (cases bs) auto
  ultimately show ?case
    using "1.IH"(1) by (subst iter_civ_frames.simps) auto
qed

lemma iter_civ_frames_frame:
  assumes "whole_frame f"
  shows "iter_civ_frames (f @ bs) = f # iter_civ_frames bs"
proof -
  let ?k = "length f - 5"
  have len: "5 \<le> length f" and h: "f ! 0 = 0xFE" "f ! 1 = 0xFE"
    using assms by (auto simp: whole_frame_def)
  have body: "drop 4 f = butlast (drop 4 f) @ [0xFD]"
    using assms len append_butlast_last_id [of "drop 4 f"]
    by (auto simp: whole_frame_def last_drop)
  have "find_terminator (drop 4 (f @ bs)) = Some ?k"
  proof -
    have d: "drop 4 (f @ bs) = butlast (drop 4 f) @ [0xFD] @ bs"
      using len body by simp
    have l: "length (butlast (drop 4 f)) = ?k" by simp
    show ?thesis
      unfolding find_terminator_Some d using assms l
      by (auto simp: whole_frame_def nth_append)
  qed
  moreover have "(f @ bs) ! 0 = 0xFE" "(f @ bs) ! 1 = 0xFE" "\<not> length (f @ bs) \<le> 4"
    using h len by (simp_all only: nth_append) auto
  moreover have "take (?k + 5) (f @ bs) = f" "drop (?k + 5) (f @ bs) = bs"
    using len by simp_all
  ultimately show ?thesis
    by (subst iter_civ_frames.simps) (simp only: option.case if_False simp_thms)
qed

lemma iter_civ_frames_concat:
  "list_all whole_frame fs \<Longrightarrow> iter_civ_frames (concat fs @ bs) = fs @ iter_civ_frames bs"
  by (induction fs) (auto simp: iter_civ_frames_frame)

lemma iter_civ_frames_whole: "list_all whole_frame (iter_civ_frames bs)"
proof (induction bs rule: iter_civ_frames.induct)
  case (1 bs)
  show ?case
  proof (cases "length bs > 4 \<and> bs ! 0 = 0xFE \<and> bs ! 1 = 0xFE")
    case True
    show ?thesis
    proof (cases "find_terminator (drop 4 bs)")
      case (Some k)
      then have k: "k < length bs - 4" "drop 4 bs ! k = 0xFD" "0xFD \<notin> set (take k (drop 4 bs))"
        by (auto simp: find_terminator_Some)
      let ?f = "take (k + 5) bs"
      have l: "length ?f = k + 5" using k(1) by simp
      have "last ?f = 0xFD"
        using k l by (subst last_conv_nth) auto
      moreover have "butlast (drop 4 ?f) = take k (drop 4 bs)"
        using k(1) by (simp add: drop_take butlast_take)
      ultimately have "whole_frame ?f"
        using True l k(3) by (auto simp: whole_frame_def)
      with True Some 1 show ?thesis by (subst iter_civ_frames.simps) auto
    qed (use True in \<open>subst iter_civ_frames.simps, simp\<close>)
  qed (use 1 in \<open>subst iter_civ_frames.simps, auto\<close>)
qed

section \<open>Properties\<close>

text \<open>
  Requests and replies agree on the wire: a frame built from a command-map entry parses
  (through a 0x29 wrapper or without one) to the command and sub-command the entry's tuple
  decodes to, with the entry's constant bytes followed by the argument as its data. The one
  excluded shape is a sub-command family entry that declares no sub-command byte and is sent
  with data (its first data byte would be read as the sub-command), and, unwrapped, an entry
  for the 0x29 prefix itself.
\<close>

theorem build_from_map_parses_back:
  assumes "build_from_map cm name to_addr from_addr data receiver command29 value = Inr bs"
    and "select_wire cm name data value = Inr wire"
    and "decode_wire_tuple wire = Inr (command, sub, pfx)"
    and "sub \<noteq> None \<or> \<not> command_carries_sub command \<or> data_bytes data = []"
    and "command29 \<or> command \<noteq> CMD_RECEIVER_PREFIX"
  shows "\<exists>fr. parse_civ_frame bs = Inr fr \<and> uint (cf_to fr) = to_addr \<and>
    uint (cf_from fr) = from_addr \<and> uint (cf_command fr) = command \<and>
    map_option uint (cf_sub fr) = sub \<and> cf_data fr = pfx @ data_bytes data \<and>
    map_option uint (cf_receiver fr) = (if command29 then Some receiver else None)"
  using assms by (rule built_frame_parse)

definition ic7300_sample_map :: command_map where
  "ic7300_sample_map = \<lparr>cm_commands =
     [(''get_af_level'', [0x14, 0x01]), (''set_acc1_mod_level'', [0x1A, 0x05, 0x00, 0x64]),
      (''get_freq'', [0x03])], cm_value_variants = []\<rparr>"

theorem build_from_map_parses_back_witness:
  "\<exists>fr. parse_civ_frame [0xFE, 0xFE, 0x94, 0xE0, 0x29, 0x00, 0x1A, 0x05, 0x00, 0x64, 0x01, 0x28, 0xFD]
      = Inr fr \<and> uint (cf_to fr) = 0x94 \<and> uint (cf_from fr) = 0xE0 \<and>
    uint (cf_command fr) = 0x1A \<and> map_option uint (cf_sub fr) = Some 0x05 \<and>
    cf_data fr = [0x00, 0x64] @ data_bytes (Some [0x01, 0x28]) \<and>
    map_option uint (cf_receiver fr) = (if True then Some 0x00 else None)"
proof -
  have s: "select_wire ic7300_sample_map ''set_acc1_mod_level'' (Some [0x01, 0x28]) None =
      Inr [0x1A, 0x05, 0x00, 0x64]"
    by (simp add: select_wire_def ic7300_sample_map_def cm_has_value_variants_def cm_get_def)
  have d: "decode_wire_tuple [0x1A, 0x05, 0x00, 0x64] = Inr (0x1A, Some 0x05, [0x00, 0x64])"
    by (simp add: decode_wire_tuple_def command_carries_sub_def COMMANDS_WITH_SUB_def byte_of_int_def)
  have b: "build_from_map ic7300_sample_map ''set_acc1_mod_level'' 0x94 CONTROLLER_ADDR
      (Some [0x01, 0x28]) 0x00 True None =
      Inr [0xFE, 0xFE, 0x94, 0xE0, 0x29, 0x00, 0x1A, 0x05, 0x00, 0x64, 0x01, 0x28, 0xFD]"
    by (simp add: build_from_map_def s d build_cmd29_frame_def build_civ_frame_def append_opt_def
        byte_of_int_def data_bytes_def PREAMBLE_def TERMINATOR_def CMD_RECEIVER_PREFIX_def
        CONTROLLER_ADDR_def)
  show ?thesis
    using build_from_map_parses_back [OF b s d] by (simp add: CONTROLLER_ADDR_def)
qed

text \<open>
  The reverse index: resolving a frame never raises, and its outcome is decided by the set
  of declared names whose command and sub-command agree and whose constant bytes are a prefix
  of the data. One such name is the result; several are the candidates; none is unrecognized.
\<close>

theorem reverse_index_resolves:
  assumes "reverse_index_init cm = Inr idx"
  shows "resolve_frame idx c s data =
    Inr (if card (viable cm c s data) = 1
         then \<lparr>rl_name = Some (the_elem (viable cm c s data)), rl_candidates = {}\<rparr>
         else \<lparr>rl_name = None, rl_candidates = viable cm c s data\<rparr>)"
  using assms by (rule resolve_frame_viable)

lemma ic7300_sample_index:
  "reverse_index_init ic7300_sample_map =
     Inr [((0x14, Some 0x01), [([], {''get_af_level''})]),
          ((0x1A, Some 0x05), [([0x00, 0x64], {''set_acc1_mod_level''})]),
          ((0x03, None), [([], {''get_freq''})])]"
  by (simp add: reverse_index_init_def ic7300_sample_map_def cm_get_def decode_wire_tuple_def
      command_carries_sub_def COMMANDS_WITH_SUB_def byte_of_int_def index_add_def)

theorem reverse_index_resolves_witness:
  "resolve_frame [((0x14, Some 0x01), [([], {''get_af_level''})]),
          ((0x1A, Some 0x05), [([0x00, 0x64], {''set_acc1_mod_level''})]),
          ((0x03, None), [([], {''get_freq''})])] 0x03 None [0x00] =
    Inr (if card (viable ic7300_sample_map 0x03 None [0x00]) = 1
         then \<lparr>rl_name = Some (the_elem (viable ic7300_sample_map 0x03 None [0x00])), rl_candidates = {}\<rparr>
         else \<lparr>rl_name = None, rl_candidates = viable ic7300_sample_map 0x03 None [0x00]\<rparr>)"
  by (rule reverse_index_resolves [OF ic7300_sample_index])

text \<open>
  A frame that was built from a plain entry of the profile's own map is always recognized:
  after parsing, the index either resolves it to that entry's name or lists the name among
  the candidates.
\<close>

theorem built_frame_is_recognized:
  assumes "reverse_index_init cm = Inr idx"
    and "\<not> cm_has_value_variants cm name"
    and "build_from_map cm name to_addr from_addr data receiver command29 value = Inr bs"
    and "bind_result (cm_get cm name) decode_wire_tuple = Inr (command, sub, pfx)"
    and "sub \<noteq> None \<or> \<not> command_carries_sub command \<or> data_bytes data = []"
    and "command29 \<or> command \<noteq> CMD_RECEIVER_PREFIX"
  shows "\<exists>fr r. parse_civ_frame bs = Inr fr \<and>
    resolve_frame idx (uint (cf_command fr)) (map_option uint (cf_sub fr)) (cf_data fr) = Inr r \<and>
    (rl_name r = Some name \<or> name \<in> rl_candidates r)"
proof -
  obtain wire where w: "select_wire cm name data value = Inr wire"
      "decode_wire_tuple wire = Inr (command, sub, pfx)"
    using assms(2,4) by (auto simp: select_wire_def result_simps)
  obtain fr where fr: "parse_civ_frame bs = Inr fr" "uint (cf_command fr) = command"
      "map_option uint (cf_sub fr) = sub" "cf_data fr = pfx @ data_bytes data"
    using built_frame_parse [OF assms(3) w assms(5,6)] by blast
  have "declares cm name (command, sub, pfx)"
    using assms(4) by (simp add: declares_def)
  then have "name \<in> viable cm command sub (cf_data fr)"
    using fr(4) by (auto simp: viable_def)
  moreover have "the_elem (viable cm command sub (cf_data fr)) = name"
    if "card (viable cm command sub (cf_data fr)) = 1"
    using that \<open>name \<in> viable cm command sub (cf_data fr)\<close>
    by (elim card_1_singletonE) simp
  ultimately show ?thesis
    unfolding resolve_frame_viable [OF assms(1)]
    by (intro exI [of _ fr]) (simp add: fr(1,2,3))
qed

theorem built_frame_is_recognized_witness:
  "\<exists>fr r. parse_civ_frame [0xFE, 0xFE, 0x94, 0xE0, 0x14, 0x01, 0xFD] = Inr fr \<and>
    resolve_frame [((0x14, Some 0x01), [([], {''get_af_level''})]),
          ((0x1A, Some 0x05), [([0x00, 0x64], {''set_acc1_mod_level''})]),
          ((0x03, None), [([], {''get_freq''})])]
      (uint (cf_command fr)) (map_option uint (cf_sub fr)) (cf_data fr) = Inr r \<and>
    (rl_name r = Some ''get_af_level'' \<or> ''get_af_level'' \<in> rl_candidates r)"
proof (rule built_frame_is_recognized [OF ic7300_sample_index])
  show "\<not> cm_has_value_variants ic7300_sample_map ''get_af_level''"
    by (simp add: cm_has_value_variants_def ic7300_sample_map_def)
  show "build_from_map ic7300_sample_map ''get_af_level'' 0x94 CONTROLLER_ADDR None 0 False None =
      Inr [0xFE, 0xFE, 0x94, 0xE0, 0x14, 0x01, 0xFD]"
    by (simp add: build_from_map_def select_wire_def cm_has_value_variants_def cm_get_def
        ic7300_sample_map_def decode_wire_tuple_def command_carries_sub_def COMMANDS_WITH_SUB_def
        build_civ_frame_def append_opt_def byte_of_int_def data_bytes_def PREAMBLE_def
        TERMINATOR_def CONTROLLER_ADDR_def)
  show "bind_result (cm_get ic7300_sample_map ''get_af_level'') decode_wire_tuple =
      Inr (0x14, Some 0x01, [])"
    by (simp add: cm_get_def ic7300_sample_map_def decode_wire_tuple_def command_carries_sub_def
        COMMANDS_WITH_SUB_def)
qed (simp_all add: CMD_RECEIVER_PREFIX_def)

text \<open>
  C39. Cutting a receive buffer: whatever precedes the first \<open>FE\<close> is skipped, frames that follow
  each other are returned unchanged and in order, and an unterminated tail is left out.
\<close>

theorem iter_civ_frames_complete:
  assumes "list_all whole_frame frames" and "0xFE \<notin> set junk" and "0xFD \<notin> set tail"
  shows "iter_civ_frames (junk @ concat frames @ tail) = frames"
  using assms
  by (simp add: iter_civ_frames_skip_list iter_civ_frames_concat iter_civ_frames_no_terminator)

theorem iter_civ_frames_complete_witness:
  "iter_civ_frames ([0x00, 0x11] @ concat [[0xFE, 0xFE, 0xE0, 0x98, 0xFB, 0xFD],
      [0xFE, 0xFE, 0xE0, 0x98, 0x15, 0x02, 0x01, 0x20, 0xFD]] @ [0xFE, 0xFE, 0xE0]) =
   [[0xFE, 0xFE, 0xE0, 0x98, 0xFB, 0xFD], [0xFE, 0xFE, 0xE0, 0x98, 0x15, 0x02, 0x01, 0x20, 0xFD]]"
proof (rule iter_civ_frames_complete)
  show "list_all whole_frame [[0xFE, 0xFE, 0xE0, 0x98, 0xFB, 0xFD],
      [0xFE, 0xFE, 0xE0, 0x98, 0x15, 0x02, 0x01, 0x20, 0xFD]]"
    by code_simp
qed simp_all

text \<open>
  Everything the scanner yields, on any buffer, is a delimited frame: it starts with
  \<open>FE FE\<close>, ends with \<open>FD\<close>, has at least five bytes, and holds no \<open>FD\<close> between its address
  bytes and its end.
\<close>

theorem iter_civ_frames_sound: "list_all whole_frame (iter_civ_frames payload)"
  by (rule iter_civ_frames_whole)

end
