(* ===== verification/TxSafety.thy ===== *)
theory TxSafety
  imports Prelude
begin

text \<open>
  \<open>core/tx_safety.py\<close>: the supervisor of managed radio PTT.

  The supervisor owns one lease at a time, emits at most one provider operation per call
  (\<open>WRITE_ON\<close>, \<open>WRITE_OFF\<close>, \<open>READ_PTT\<close>, or the cancellation of the active one), and owes an OFF
  from the moment a release begins until an OFF observation confirms it. Every method of
  \<open>TxSafetySupervisor\<close> is one definition here; \<open>apply_op\<close> dispatches on the call and
  \<open>tx_step\<close> is the state after it.

  The clock and the id factory are the two injected callables: \<open>tc_clock n\<close> is the value the
  \<open>n\<close>-th clock call returns, \<open>tc_ids n\<close> the value the \<open>n\<close>-th id call returns; the state counts
  both. A call that raises keeps the state (every \<open>ValueError\<close> is raised before a write, and
  the lemmas show that a \<open>RuntimeError\<close> never is).
\<close>

section \<open>Vocabulary\<close>

datatype tx_source = Src_WEBSOCKET | Src_RIGCTLD | Src_TCI | Src_SDK | Src_HAMLIB_BRIDGE | Src_INTERNAL

datatype radio_tx = Radio_OFF | Radio_ON | Radio_UNKNOWN

datatype tx_phase =
    Phase_IDLE
  | Phase_KEY_PENDING
  | Phase_KEYED
  | Phase_RELEASE_REQUIRED
  | Phase_RELEASE_CONFIRMING
  | Phase_FAULTED
  | Phase_EXTERNAL_UNOWNED

datatype tx_outcome =
    Out_ACCEPTED
  | Out_IDEMPOTENT
  | Out_BUSY
  | Out_NOT_READY
  | Out_RADIO_NOT_OFF
  | Out_RELEASE_PENDING
  | Out_STALE
  | Out_APPLIED
  | Out_NOOP

datatype tx_release_reason =
    OPERATOR_RELEASE
  | OPERATOR_FORCED_UNKEY
  | SOURCE_DETACHED
  | PRESENTATION_REPLACED
  | CLIENT_DISCONNECTED
  | AUDIO_FAILED
  | CONTROL_TRANSPORT_LOST
  | RADIO_TRANSPORT_LOST
  | CAPABILITY_LOST
  | PERMIT_LOST
  | FRONTEND_SAFETY_TIMEOUT
  | BACKEND_MAX_KEY_DOWN
  | EXTERNAL_CAT_PREEMPTED
  | APP_SHUTDOWN
  | SERVER_SHUTDOWN
  | RECOVERY_EXHAUSTED
  | ADMIN_EMERGENCY_STOP

datatype attempt_kind = WRITE_ON | WRITE_OFF | READ_PTT

record tx_owner =
  own_source :: tx_source
  own_session :: string

definition mk_tx_owner :: "tx_source \<Rightarrow> string \<Rightarrow> tx_owner result" where
  "mk_tx_owner src session =
     (if session = [] then Inl ValueError else Inr \<lparr>own_source = src, own_session = session\<rparr>)"

record ptt_observation =
  obs_value :: radio_tx
  obs_gen :: int
  obs_seq :: int
  obs_at :: time

fun finite_value :: "pyfloat \<Rightarrow> time" where
  "finite_value (Finite r) = r"
| "finite_value _ = 0"

definition mk_ptt_observation :: "radio_tx \<Rightarrow> int \<Rightarrow> int \<Rightarrow> pyfloat \<Rightarrow> ptt_observation result" where
  "mk_ptt_observation v gen seq t =
     (if v = Radio_UNKNOWN then Inl ValueError
      else if gen < 0 then Inl ValueError
      else if seq \<le> 0 then Inl ValueError
      else if \<not> isfinite t then Inl ValueError
      else Inr \<lparr>obs_value = v, obs_gen = gen, obs_seq = seq, obs_at = finite_value t\<rparr>)"

record provider_attempt =
  att_id :: string
  att_kind :: attempt_kind
  att_gen :: int
  att_lease :: string
  att_started :: time
  att_timeout :: time

record cancel_attempt =
  can_attempt :: string
  can_gen :: int
  can_requested :: time
  can_timeout :: time
  can_deadline :: time

datatype tx_effect = Attempt provider_attempt | CancelAttempt cancel_attempt

record tx_lease =
  le_id :: string
  le_owner :: tx_owner

record tx_boundary =
  bd_gen :: int
  bd_seq :: int
  bd_not_before :: time

definition boundary_accepts :: "tx_boundary \<Rightarrow> ptt_observation option \<Rightarrow> bool" where
  "boundary_accepts b obs \<longleftrightarrow>
     (case obs of
        None \<Rightarrow> False
      | Some ob \<Rightarrow> obs_gen ob = bd_gen b \<and> obs_seq ob > bd_seq b \<and> obs_at ob \<ge> bd_not_before b)"

record tx_release =
  rel_requested :: tx_release_reason
  rel_terminal :: tx_release_reason
  rel_boundary :: tx_boundary
  rel_attempts :: int
  rel_retry_due :: "time option"
  rel_error :: "string option"

record tx_snapshot =
  sn_phase :: tx_phase
  sn_radio_tx :: radio_tx
  sn_gen :: "int option"
  sn_ready :: bool
  sn_lease_id :: "string option"
  sn_owner :: "tx_owner option"
  sn_release_reason :: "tx_release_reason option"
  sn_terminal_reason :: "tx_release_reason option"
  sn_attempt_count :: int
  sn_last_error :: "string option"
  sn_active :: "provider_attempt option"
  sn_watchdog_deadline :: "time option"
  sn_watchdog_enabled :: bool
  sn_external_conflict :: bool

record tx_transition =
  tr_outcome :: tx_outcome
  tr_snapshot :: tx_snapshot
  tr_effects :: "tx_effect list"

definition system_release_reasons :: "tx_release_reason list" where
  "system_release_reasons =
     [AUDIO_FAILED, CONTROL_TRANSPORT_LOST, RADIO_TRANSPORT_LOST, CAPABILITY_LOST, PERMIT_LOST,
      BACKEND_MAX_KEY_DOWN, EXTERNAL_CAT_PREEMPTED, APP_SHUTDOWN, SERVER_SHUTDOWN,
      RECOVERY_EXHAUSTED, ADMIN_EMERGENCY_STOP]"

definition force_unkey_reasons :: "tx_release_reason list" where
  "force_unkey_reasons = system_release_reasons @ [OPERATOR_FORCED_UNKEY]"

section \<open>The supervisor and its construction\<close>

record tx_config =
  tc_clock :: "nat \<Rightarrow> time"
  tc_ids :: "nat \<Rightarrow> string"
  tc_watchdog :: "time option"
  tc_write_timeout :: time
  tc_read_timeout :: time
  tc_cancel_timeout :: time
  tc_retries :: "time list"

record supervisor =
  sup_cfg :: tx_config
  sup_clock_calls :: nat
  sup_id_calls :: nat
  sup_gen :: "int option"
  sup_ready :: bool
  sup_obs :: "ptt_observation option"
  sup_lease :: "tx_lease option"
  sup_acq :: "tx_boundary option"
  sup_release :: "tx_release option"
  sup_active :: "provider_attempt option"
  sup_cancel :: "cancel_attempt option"
  sup_deadline :: "time option"
  sup_driven :: bool

text \<open>\<open>not isfinite(x) or x <= 0\<close>, \<open>not isfinite(x) or x < 0\<close>.\<close>

definition not_positive :: "pyfloat \<Rightarrow> bool" where
  "not_positive x \<longleftrightarrow> \<not> isfinite x \<or> finite_value x \<le> 0"

definition not_nonnegative :: "pyfloat \<Rightarrow> bool" where
  "not_nonnegative x \<longleftrightarrow> \<not> isfinite x \<or> finite_value x < 0"

fun non_decreasing :: "time list \<Rightarrow> bool" where
  "non_decreasing (a # b # xs) \<longleftrightarrow> \<not> b < a \<and> non_decreasing (b # xs)"
| "non_decreasing _ \<longleftrightarrow> True"

definition supervisor_init ::
  "(nat \<Rightarrow> time) \<Rightarrow> (nat \<Rightarrow> string) \<Rightarrow> pyfloat option \<Rightarrow> pyfloat \<Rightarrow> pyfloat \<Rightarrow> pyfloat
   \<Rightarrow> pyfloat list \<Rightarrow> supervisor result" where
  "supervisor_init clock ids watchdog write_t read_t cancel_t retries =
     (if (case watchdog of None \<Rightarrow> False | Some w \<Rightarrow> not_positive w) then Inl ValueError
      else if list_ex not_positive [write_t, read_t, cancel_t] then Inl ValueError
      else if retries = [] \<or> list_ex not_nonnegative retries
              \<or> \<not> non_decreasing (map finite_value retries) then Inl ValueError
      else Inr \<lparr>
        sup_cfg = \<lparr>tc_clock = clock, tc_ids = ids, tc_watchdog = map_option finite_value watchdog,
                   tc_write_timeout = finite_value write_t, tc_read_timeout = finite_value read_t,
                   tc_cancel_timeout = finite_value cancel_t,
                   tc_retries = map finite_value retries\<rparr>,
        sup_clock_calls = 0, sup_id_calls = 0, sup_gen = None, sup_ready = False,
        sup_obs = None, sup_lease = None, sup_acq = None, sup_release = None,
        sup_active = None, sup_cancel = None, sup_deadline = None, sup_driven = False\<rparr>)"

text \<open>Calls of the two injected callables.\<close>

definition clock_now :: "supervisor \<Rightarrow> time" where
  "clock_now s = tc_clock (sup_cfg s) (sup_clock_calls s)"

definition tick_clock :: "supervisor \<Rightarrow> supervisor" where
  "tick_clock s = s\<lparr>sup_clock_calls := Suc (sup_clock_calls s)\<rparr>"

definition next_id :: "supervisor \<Rightarrow> string" where
  "next_id s = tc_ids (sup_cfg s) (sup_id_calls s)"

definition tick_id :: "supervisor \<Rightarrow> supervisor" where
  "tick_id s = s\<lparr>sup_id_calls := Suc (sup_id_calls s)\<rparr>"

text \<open>Truth value of an optional string, and \<open>error or default\<close>.\<close>

definition truthy :: "string option \<Rightarrow> bool" where
  "truthy e \<longleftrightarrow> e \<noteq> None \<and> e \<noteq> Some []"

definition or_default :: "string option \<Rightarrow> string \<Rightarrow> string" where
  "or_default e d = (if truthy e then the e else d)"

section \<open>The snapshot\<close>

definition observed_radio :: "supervisor \<Rightarrow> radio_tx" where
  "observed_radio s = (case sup_obs s of None \<Rightarrow> Radio_UNKNOWN | Some ob \<Rightarrow> obs_value ob)"

definition managed_on :: "supervisor \<Rightarrow> bool" where
  "managed_on s \<longleftrightarrow> sup_lease s \<noteq> None \<and> sup_release s = None \<and> observed_radio s = Radio_ON \<and>
     sup_acq s \<noteq> None"

definition confirmed_on :: "supervisor \<Rightarrow> bool" where
  "confirmed_on s \<longleftrightarrow> managed_on s \<and>
     (case sup_acq s of None \<Rightarrow> False | Some b \<Rightarrow> boundary_accepts b (sup_obs s))"

definition current_phase :: "supervisor \<Rightarrow> tx_phase" where
  "current_phase s =
     (case sup_release s of
        Some r \<Rightarrow>
          (if truthy (rel_error r) then Phase_FAULTED
           else case sup_active s of
               Some a \<Rightarrow> (if att_kind a = READ_PTT then Phase_RELEASE_CONFIRMING
                          else Phase_RELEASE_REQUIRED)
             | None \<Rightarrow> Phase_RELEASE_REQUIRED)
      | None \<Rightarrow>
          (if sup_lease s = None then
             (if observed_radio s = Radio_ON then Phase_EXTERNAL_UNOWNED else Phase_IDLE)
           else if confirmed_on s then Phase_KEYED else Phase_KEY_PENDING))"

definition snapshot :: "supervisor \<Rightarrow> tx_snapshot" where
  "snapshot s = \<lparr>
     sn_phase = current_phase s,
     sn_radio_tx = observed_radio s,
     sn_gen = sup_gen s,
     sn_ready = sup_ready s,
     sn_lease_id = map_option le_id (sup_lease s),
     sn_owner = map_option le_owner (sup_lease s),
     sn_release_reason = map_option rel_requested (sup_release s),
     sn_terminal_reason = map_option rel_terminal (sup_release s),
     sn_attempt_count = (case sup_release s of None \<Rightarrow> 0 | Some r \<Rightarrow> rel_attempts r),
     sn_last_error = (case sup_release s of None \<Rightarrow> None | Some r \<Rightarrow> rel_error r),
     sn_active = sup_active s,
     sn_watchdog_deadline = sup_deadline s,
     sn_watchdog_enabled = (tc_watchdog (sup_cfg s) \<noteq> None \<and> sup_driven s),
     sn_external_conflict = (managed_on s \<and> \<not> confirmed_on s)\<rparr>"

section \<open>Private steps\<close>

type_synonym 'a tx_act = "('a \<times> supervisor) result"

definition tx_result :: "tx_outcome \<Rightarrow> tx_effect list \<Rightarrow> supervisor \<Rightarrow> tx_transition tx_act" where
  "tx_result outcome effects s =
     Inr (\<lparr>tr_outcome = outcome, tr_snapshot = snapshot s, tr_effects = effects\<rparr>, s)"

definition current_boundary :: "time \<Rightarrow> supervisor \<Rightarrow> tx_boundary result" where
  "current_boundary now s =
     (case sup_gen s of
        None \<Rightarrow> Inl RuntimeError
      | Some g \<Rightarrow> Inr \<lparr>bd_gen = g,
          bd_seq = (case sup_obs s of None \<Rightarrow> 0 | Some ob \<Rightarrow> obs_seq ob), bd_not_before = now\<rparr>)"

definition clear_managed :: "supervisor \<Rightarrow> supervisor" where
  "clear_managed s =
     s\<lparr>sup_lease := None, sup_acq := None, sup_release := None, sup_deadline := None\<rparr>"

definition begin_release ::
  "tx_release_reason \<Rightarrow> time \<Rightarrow> string option \<Rightarrow> supervisor \<Rightarrow> supervisor result" where
  "begin_release reason now err s =
     (if sup_lease s = None then Inr s
      else bind_result (current_boundary now s) (\<lambda>b.
        Inr (s\<lparr>sup_release := Some \<lparr>rel_requested = reason, rel_terminal = reason,
                 rel_boundary = b, rel_attempts = 0, rel_retry_due = Some now, rel_error = err\<rparr>,
               sup_deadline := None\<rparr>)))"

definition start_attempt ::
  "attempt_kind \<Rightarrow> time \<Rightarrow> time \<Rightarrow> supervisor \<Rightarrow> provider_attempt tx_act" where
  "start_attempt kind timeout now s =
     (case (sup_active s, sup_gen s, sup_lease s) of
        (None, Some g, Some l) \<Rightarrow>
          (let a = \<lparr>att_id = next_id s, att_kind = kind, att_gen = g, att_lease = le_id l,
                    att_started = now, att_timeout = timeout\<rparr>
           in Inr (a, (tick_id s)\<lparr>sup_active := Some a, sup_cancel := None\<rparr>))
      | _ \<Rightarrow> Inl RuntimeError)"

definition cancel_active :: "provider_attempt \<Rightarrow> time \<Rightarrow> supervisor \<Rightarrow> tx_effect list \<times> supervisor" where
  "cancel_active a now s =
     (if (case sup_cancel s of None \<Rightarrow> False
          | Some p \<Rightarrow> (can_attempt p, can_gen p) = (att_id a, att_gen a))
      then ([], s)
      else
        let ct = tc_cancel_timeout (sup_cfg s);
            p = \<lparr>can_attempt = att_id a, can_gen = att_gen a, can_requested = now,
                 can_timeout = ct, can_deadline = now + ct\<rparr>
        in ([CancelAttempt p], s\<lparr>sup_cancel := Some p\<rparr>))"

definition schedule_retry :: "string \<Rightarrow> supervisor \<Rightarrow> supervisor result" where
  "schedule_retry err s =
     (case sup_release s of
        None \<Rightarrow> Inr s
      | Some r \<Rightarrow>
          (let retries = tc_retries (sup_cfg s);
               index = max (rel_attempts r - 1) 0;
               i = min index (int (length retries) - 1)
           in if retries = [] then Inl IndexError
              else
                let delay = retries ! nat i; now = clock_now s
                in Inr ((tick_clock s)\<lparr>sup_release :=
                     Some (r\<lparr>rel_retry_due := Some (now + delay), rel_error := Some err\<rparr>)\<rparr>)))"

text \<open>\<open>now\<close> is \<open>None\<close> when the caller does not pass it: the clock is read first.\<close>

definition service_release :: "bool \<Rightarrow> time option \<Rightarrow> supervisor \<Rightarrow> tx_effect list tx_act" where
  "service_release force now s0 =
     (let (instant, s) = (case now of None \<Rightarrow> (clock_now s0, tick_clock s0) | Some t \<Rightarrow> (t, s0)) in
      case sup_release s of
        None \<Rightarrow> Inr ([], s)
      | Some r \<Rightarrow>
          (if \<not> sup_ready s \<or> sup_gen s = None \<or> sup_active s \<noteq> None \<or>
              (\<not> force \<and> (case rel_retry_due r of None \<Rightarrow> True | Some d \<Rightarrow> instant < d))
           then Inr ([], s)
           else bind_result (start_attempt WRITE_OFF (tc_write_timeout (sup_cfg s)) instant s)
             (\<lambda>(a, s'). Inr ([Attempt a], s'\<lparr>sup_release := Some (r\<lparr>
                 rel_attempts := rel_attempts r + 1, rel_retry_due := None, rel_error := None\<rparr>)\<rparr>))))"

definition release_current :: "tx_release_reason \<Rightarrow> supervisor \<Rightarrow> tx_transition tx_act" where
  "release_current reason s =
     (case sup_release s of
        Some r \<Rightarrow> tx_result Out_IDEMPOTENT [] (s\<lparr>sup_release := Some (r\<lparr>rel_terminal := reason\<rparr>)\<rparr>)
      | None \<Rightarrow>
          (let now = clock_now s in
           bind_result (begin_release reason now None (tick_clock s)) (\<lambda>s1.
           case sup_active s1 of
             Some a \<Rightarrow> (let (es, s2) = cancel_active a now s1 in tx_result Out_ACCEPTED es s2)
           | None \<Rightarrow> bind_result (service_release True None s1) (\<lambda>(es, s2).
               tx_result Out_ACCEPTED es s2))))"

section \<open>The public operations\<close>

definition replace_provider :: "int \<Rightarrow> bool \<Rightarrow> supervisor \<Rightarrow> tx_transition tx_act" where
  "replace_provider generation ready s =
     (if generation < 0 then Inl ValueError
      else if (case sup_gen s of None \<Rightarrow> False | Some g \<Rightarrow> generation \<le> g)
      then tx_result Out_STALE [] s
      else
        let now = clock_now s;
            s1 = (tick_clock s)\<lparr>sup_gen := Some generation, sup_ready := ready, sup_obs := None,
                   sup_active := None, sup_cancel := None, sup_acq := None\<rparr>
        in bind_result
             (if sup_lease s = None then Inr s1
              else bind_result
                (if sup_release s1 = None then begin_release CONTROL_TRANSPORT_LOST now None s1
                 else Inr s1) (\<lambda>s2.
                case sup_release s2 of
                  None \<Rightarrow> Inl RuntimeError
                | Some r \<Rightarrow> bind_result (current_boundary now s2) (\<lambda>b.
                    Inr (s2\<lparr>sup_release := Some (r\<lparr>rel_boundary := b, rel_retry_due := Some now\<rparr>)\<rparr>))))
             (\<lambda>s3. bind_result (service_release ready None s3) (\<lambda>(es, s4).
               tx_result Out_APPLIED es s4)))"

definition set_provider_ready :: "int \<Rightarrow> bool \<Rightarrow> supervisor \<Rightarrow> tx_transition tx_act" where
  "set_provider_ready generation ready s =
     (if Some generation \<noteq> sup_gen s then tx_result Out_STALE [] s
      else if ready = sup_ready s then tx_result Out_IDEMPOTENT [] s
      else
        let now = clock_now s; s1 = (tick_clock s)\<lparr>sup_ready := ready\<rparr> in
        if \<not> ready then
          bind_result
            (if sup_lease s \<noteq> None \<and> sup_release s = None
             then begin_release CONTROL_TRANSPORT_LOST now None (s1\<lparr>sup_obs := None\<rparr>)
             else Inr (s1\<lparr>sup_obs := None\<rparr>)) (\<lambda>s2.
            case sup_active s2 of
              Some a \<Rightarrow> (let (es, s3) = cancel_active a now s2 in tx_result Out_APPLIED es s3)
            | None \<Rightarrow> tx_result Out_APPLIED [] s2)
        else bind_result (service_release True (Some now) s1) (\<lambda>(es, s2).
          tx_result Out_APPLIED es s2))"

definition observe_ptt :: "ptt_observation \<Rightarrow> supervisor \<Rightarrow> tx_transition tx_act" where
  "observe_ptt ob s =
     (if Some (obs_gen ob) \<noteq> sup_gen s \<or>
         (case sup_obs s of
            None \<Rightarrow> False
          | Some prev \<Rightarrow> obs_seq ob \<le> obs_seq prev \<or> obs_at ob < obs_at prev)
      then tx_result Out_STALE [] s
      else
        let s1 = s\<lparr>sup_obs := Some ob\<rparr> in
        tx_result Out_APPLIED []
          (case sup_release s of
             None \<Rightarrow> s1
           | Some r \<Rightarrow>
               (if obs_value ob = Radio_OFF \<and> boundary_accepts (rel_boundary r) (Some ob)
                then clear_managed s1 else s1)))"

definition request_on :: "tx_owner \<Rightarrow> supervisor \<Rightarrow> tx_transition tx_act" where
  "request_on owner s =
     (if sup_release s \<noteq> None then tx_result Out_RELEASE_PENDING [] s
      else case sup_lease s of
        Some l \<Rightarrow> tx_result (if le_owner l = owner then Out_IDEMPOTENT else Out_BUSY) [] s
      | None \<Rightarrow>
          (if sup_active s \<noteq> None then tx_result Out_BUSY [] s
           else if \<not> sup_ready s \<or> sup_gen s = None then tx_result Out_NOT_READY [] s
           else if (case sup_obs s of None \<Rightarrow> True | Some ob \<Rightarrow> obs_value ob \<noteq> Radio_OFF)
           then tx_result Out_RADIO_NOT_OFF [] s
           else
             let now = clock_now s;
                 s1 = tick_clock s;
                 s2 = (tick_id s1)\<lparr>sup_lease := Some \<lparr>le_id = next_id s1, le_owner = owner\<rparr>\<rparr>
             in bind_result (current_boundary now s2) (\<lambda>b.
                  let s3 = s2\<lparr>sup_acq := Some b,
                        sup_deadline := (case tc_watchdog (sup_cfg s) of
                            None \<Rightarrow> None
                          | Some w \<Rightarrow> (if w \<noteq> 0 then Some (now + w) else None))\<rparr>
                  in bind_result (start_attempt WRITE_ON (tc_write_timeout (sup_cfg s)) now s3)
                       (\<lambda>(a, s4). tx_result Out_ACCEPTED [Attempt a] s4))))"

definition request_off ::
  "tx_owner \<Rightarrow> string \<Rightarrow> tx_release_reason \<Rightarrow> supervisor \<Rightarrow> tx_transition tx_act" where
  "request_off owner lease_id reason s =
     (case sup_lease s of
        None \<Rightarrow> tx_result Out_STALE [] s
      | Some l \<Rightarrow> (if (le_owner l, le_id l) \<noteq> (owner, lease_id) then tx_result Out_STALE [] s
                  else release_current reason s))"

definition release_owner ::
  "tx_owner \<Rightarrow> tx_release_reason \<Rightarrow> supervisor \<Rightarrow> tx_transition tx_act" where
  "release_owner owner reason s =
     (case sup_lease s of
        None \<Rightarrow> tx_result Out_STALE [] s
      | Some l \<Rightarrow> (if le_owner l \<noteq> owner then tx_result Out_STALE [] s
                  else release_current reason s))"

definition emergency_release :: "tx_release_reason \<Rightarrow> supervisor \<Rightarrow> tx_transition tx_act" where
  "emergency_release reason s =
     (if reason \<notin> set system_release_reasons then Inl ValueError
      else if sup_lease s \<noteq> None then release_current reason s
      else tx_result Out_NOOP [] s)"

definition force_unkey ::
  "tx_owner \<Rightarrow> tx_release_reason \<Rightarrow> supervisor \<Rightarrow> tx_transition tx_act" where
  "force_unkey owner reason s =
     (if reason \<notin> set force_unkey_reasons then Inl ValueError
      else if sup_release s \<noteq> None then tx_result Out_IDEMPOTENT [] s
      else if sup_lease s \<noteq> None then tx_result Out_BUSY [] s
      else if sup_active s \<noteq> None then tx_result Out_BUSY [] s
      else if \<not> sup_ready s \<or> sup_gen s = None then tx_result Out_NOT_READY [] s
      else
        let now = clock_now s;
            s1 = tick_clock s;
            s2 = (tick_id s1)\<lparr>sup_lease := Some \<lparr>le_id = next_id s1, le_owner = owner\<rparr>\<rparr>
        in bind_result (begin_release reason now None s2) (\<lambda>s3.
           bind_result (service_release True (Some now) s3) (\<lambda>(es, s4).
             tx_result Out_ACCEPTED es s4)))"

text \<open>The shared tail \<open>return self._result(APPLIED, self._service_release(force=True, now=now))\<close>.\<close>

definition apply_service :: "time \<Rightarrow> supervisor \<Rightarrow> tx_transition tx_act" where
  "apply_service now s =
     bind_result (service_release True (Some now) s) (\<lambda>(es, s'). tx_result Out_APPLIED es s')"

definition apply_read :: "time \<Rightarrow> supervisor \<Rightarrow> tx_transition tx_act" where
  "apply_read now s =
     bind_result (start_attempt READ_PTT (tc_read_timeout (sup_cfg s)) now s)
       (\<lambda>(a, s'). tx_result Out_APPLIED [Attempt a] s')"

definition settle_attempt ::
  "string \<Rightarrow> int \<Rightarrow> bool \<Rightarrow> string option \<Rightarrow> supervisor \<Rightarrow> tx_transition tx_act" where
  "settle_attempt attempt_id generation succeeded error s =
     (case sup_active s of
        None \<Rightarrow> tx_result Out_STALE [] s
      | Some a \<Rightarrow>
          (if (att_id a, att_gen a) \<noteq> (attempt_id, generation) \<or> Some generation \<noteq> sup_gen s
           then tx_result Out_STALE [] s
           else
             let now = clock_now s;
                 s1 = (tick_clock s)\<lparr>sup_active := None, sup_cancel := None\<rparr>
             in
             if sup_lease s1 = None then tx_result Out_APPLIED [] s1
             else if att_kind a = WRITE_ON then
               bind_result
                 (if sup_release s1 = None \<and> \<not> succeeded
                  then begin_release CONTROL_TRANSPORT_LOST now
                         (Some (or_default error ''write_on_failed'')) s1
                  else Inr s1) (\<lambda>s2.
                 if sup_release s2 \<noteq> None then apply_service now s2 else apply_read now s2)
             else
               (case sup_release s1 of
                  None \<Rightarrow>
                    (if att_kind a = READ_PTT \<and> \<not> succeeded then
                       bind_result (begin_release CONTROL_TRANSPORT_LOST now
                           (Some (or_default error ''read_ptt_failed'')) s1)
                         (apply_service now)
                     else tx_result Out_APPLIED [] s1)
                | Some r \<Rightarrow>
                    (if rel_attempts r = 0 then apply_service now s1
                     else if att_kind a = WRITE_OFF then
                       (if \<not> succeeded then
                          bind_result (schedule_retry (or_default error ''write_off_failed'') s1)
                            (tx_result Out_APPLIED [])
                        else apply_read now s1)
                     else bind_result (schedule_retry (or_default error
                            (if succeeded then ''read_ptt_unconfirmed'' else ''read_ptt_failed'')) s1)
                            (tx_result Out_APPLIED [])))))"

definition tick :: "supervisor \<Rightarrow> tx_transition tx_act" where
  "tick s =
     (let now = clock_now s; s1 = (tick_clock s)\<lparr>sup_driven := True\<rparr> in
      bind_result
        (if sup_lease s \<noteq> None \<and> sup_release s = None \<and>
            (case sup_deadline s of None \<Rightarrow> False | Some d \<Rightarrow> now \<ge> d)
         then bind_result (begin_release BACKEND_MAX_KEY_DOWN now None s1) (\<lambda>s2.
           case sup_active s of
             Some a \<Rightarrow> Inr (cancel_active a now s2)
           | None \<Rightarrow> Inr ([], s2))
         else Inr ([], s1)) (\<lambda>(es, s3).
      bind_result (if es = [] then service_release False (Some now) s3 else Inr (es, s3))
        (\<lambda>(es', s4). tx_result
          (if es' \<noteq> [] \<or> sup_release s4 \<noteq> None then Out_APPLIED else Out_NOOP) es' s4)))"

definition retire_driver :: "supervisor \<Rightarrow> supervisor" where
  "retire_driver s = s\<lparr>sup_driven := False\<rparr>"

section \<open>Runs of the supervisor\<close>

datatype tx_op =
    ReplaceProvider int bool
  | SetProviderReady int bool
  | ObservePtt ptt_observation
  | RequestOn tx_owner
  | RequestOff tx_owner string tx_release_reason
  | ReleaseOwner tx_owner tx_release_reason
  | EmergencyRelease tx_release_reason
  | ForceUnkey tx_owner tx_release_reason
  | SettleAttempt string int bool "string option"
  | Tick

fun apply_op :: "supervisor \<Rightarrow> tx_op \<Rightarrow> tx_transition tx_act" where
  "apply_op s (ReplaceProvider g ready) = replace_provider g ready s"
| "apply_op s (SetProviderReady g ready) = set_provider_ready g ready s"
| "apply_op s (ObservePtt ob) = observe_ptt ob s"
| "apply_op s (RequestOn owner) = request_on owner s"
| "apply_op s (RequestOff owner l reason) = request_off owner l reason s"
| "apply_op s (ReleaseOwner owner reason) = release_owner owner reason s"
| "apply_op s (EmergencyRelease reason) = emergency_release reason s"
| "apply_op s (ForceUnkey owner reason) = force_unkey owner reason s"
| "apply_op s (SettleAttempt i g ok err) = settle_attempt i g ok err s"
| "apply_op s Tick = tick s"

definition tx_step :: "supervisor \<Rightarrow> tx_op \<Rightarrow> supervisor" where
  "tx_step s op = (case apply_op s op of Inl _ \<Rightarrow> s | Inr (_, s') \<Rightarrow> s')"

definition tx_effects :: "supervisor \<Rightarrow> tx_op \<Rightarrow> tx_effect list" where
  "tx_effects s op = (case apply_op s op of Inl _ \<Rightarrow> [] | Inr (t, _) \<Rightarrow> tr_effects t)"

fun run_effects :: "supervisor \<Rightarrow> tx_op list \<Rightarrow> tx_effect list" where
  "run_effects s [] = []"
| "run_effects s (op # ops) = tx_effects s op @ run_effects (tx_step s op) ops"

section \<open>The invariant\<close>

text \<open>
  \<open>sup_core\<close> relates the fields to each other; \<open>retry_ok\<close> says that an owed OFF is never lost:
  a pending release has a retry time unless one of its own operations is in flight.
\<close>

definition sup_core :: "supervisor \<Rightarrow> bool" where
  "sup_core s \<longleftrightarrow>
     tc_retries (sup_cfg s) \<noteq> [] \<and>
     (\<forall>w. tc_watchdog (sup_cfg s) = Some w \<longrightarrow> 0 < w) \<and>
     (sup_lease s \<noteq> None \<longrightarrow> sup_gen s \<noteq> None) \<and>
     (sup_release s \<noteq> None \<longrightarrow> sup_lease s \<noteq> None) \<and>
     (\<forall>a. sup_active s = Some a \<longrightarrow> sup_gen s = Some (att_gen a) \<and>
        (\<forall>l. sup_lease s = Some l \<longrightarrow> att_lease a = le_id l)) \<and>
     (\<forall>ob. sup_obs s = Some ob \<longrightarrow> sup_gen s = Some (obs_gen ob)) \<and>
     (\<forall>r. sup_release s = Some r \<longrightarrow> sup_gen s = Some (bd_gen (rel_boundary r)) \<and>
        0 \<le> rel_attempts r \<and> sup_deadline s = None) \<and>
     (sup_lease s = None \<longrightarrow> sup_deadline s = None) \<and>
     (sup_lease s \<noteq> None \<and> sup_release s = None \<longrightarrow> sup_acq s \<noteq> None \<and>
        (tc_watchdog (sup_cfg s) \<noteq> None \<longrightarrow> sup_deadline s \<noteq> None))"

definition retry_ok :: "supervisor \<Rightarrow> bool" where
  "retry_ok s \<longleftrightarrow> (\<forall>r. sup_release s = Some r \<longrightarrow> rel_retry_due r = None \<longrightarrow>
     0 < rel_attempts r \<and> (\<exists>a. sup_active s = Some a \<and> att_kind a \<noteq> WRITE_ON))"

definition sup_inv :: "supervisor \<Rightarrow> bool" where
  "sup_inv s \<longleftrightarrow> sup_core s \<and> retry_ok s"

lemmas sup_inv_defs = sup_inv_def sup_core_def retry_ok_def

lemmas tx_private_defs =
  current_boundary_def begin_release_def start_attempt_def
  cancel_active_def service_release_def release_current_def clear_managed_def
  tick_clock_def tick_id_def Let_def

lemma sup_inv_init:
  "supervisor_init clock ids w wt rt ct retries = Inr s \<Longrightarrow> sup_inv s"
  by (auto simp: supervisor_init_def sup_inv_defs not_positive_def split: if_splits option.splits)

lemma tx_result_Inr [simp]: "tx_result outc es s = Inr (t, s') \<longleftrightarrow>
   s' = s \<and> t = \<lparr>tr_outcome = outc, tr_snapshot = snapshot s, tr_effects = es\<rparr>"
  by (auto simp: tx_result_def)

lemma tx_result_not_Inl [simp]: "tx_result outc es s \<noteq> Inl e"
  by (simp add: tx_result_def)

text \<open>The call succeeds and keeps the invariant.\<close>

definition safe_act :: "tx_transition tx_act \<Rightarrow> bool" where
  "safe_act m \<longleftrightarrow> (case m of Inl _ \<Rightarrow> False | Inr (_, s') \<Rightarrow> sup_inv s')"

lemma safe_tx_result [simp]: "safe_act (tx_result outc es s) \<longleftrightarrow> sup_inv s"
  by (simp add: safe_act_def tx_result_def)

lemma safe_bind [simp]:
  "safe_act (bind_result m f) \<longleftrightarrow> (case m of Inl _ \<Rightarrow> False | Inr x \<Rightarrow> safe_act (f x))"
  by (cases m) (auto simp: safe_act_def)

lemma safe_Inr [simp]: "safe_act (Inr (t, s)) \<longleftrightarrow> sup_inv s"
  by (simp add: safe_act_def)

lemma safe_release_current:
  "sup_inv s \<Longrightarrow> sup_lease s \<noteq> None \<Longrightarrow> safe_act (release_current reason s)"
  by (auto simp: tx_private_defs sup_inv_defs split: option.splits prod.splits if_splits)

lemma safe_observe_ptt: "sup_inv s \<Longrightarrow> safe_act (observe_ptt ob s)"
  by (auto simp: observe_ptt_def sup_inv_defs clear_managed_def Let_def split: if_splits option.splits)

lemma safe_request_on: "sup_inv s \<Longrightarrow> safe_act (request_on owner s)"
  by (auto simp: request_on_def sup_inv_defs tx_private_defs
      split: if_splits option.splits)

lemma safe_force_unkey:
  "sup_inv s \<Longrightarrow> reason \<in> set force_unkey_reasons \<Longrightarrow> safe_act (force_unkey owner reason s)"
  by (auto simp: force_unkey_def sup_inv_defs tx_private_defs
      split: if_splits option.splits)

lemma safe_replace_provider:
  "sup_inv s \<Longrightarrow> 0 \<le> g \<Longrightarrow> safe_act (replace_provider g ready s)"
  by (auto simp: replace_provider_def sup_inv_defs tx_private_defs
      split: if_splits option.splits)


text \<open>The private steps, each on the states their callers reach.\<close>

lemma begin_release_core:
  assumes "sup_core s" and "sup_lease s \<noteq> None" and "sup_release s = None"
  obtains s' r where "begin_release reason now err s = Inr s'" and "sup_core s'"
    and "sup_release s' = Some r" and "rel_requested r = reason" and "rel_terminal r = reason"
    and "rel_retry_due r = Some now" and "rel_attempts r = 0"
    and "sup_active s' = sup_active s" and "sup_lease s' = sup_lease s"
    and "sup_ready s' = sup_ready s" and "sup_cfg s' = sup_cfg s" and "sup_gen s' = sup_gen s"
    and "sup_id_calls s' = sup_id_calls s" and "sup_cancel s' = sup_cancel s"
proof -
  obtain g where g: "sup_gen s = Some g" using assms by (auto simp: sup_core_def)
  define b where "b = \<lparr>bd_gen = g, bd_seq = (case sup_obs s of None \<Rightarrow> 0 | Some ob \<Rightarrow> obs_seq ob),
    bd_not_before = now\<rparr>"
  define r where "r = \<lparr>rel_requested = reason, rel_terminal = reason, rel_boundary = b,
    rel_attempts = 0, rel_retry_due = Some now, rel_error = err\<rparr>"
  show thesis
  proof (rule that [of "s\<lparr>sup_release := Some r, sup_deadline := None\<rparr>" r])
    show "begin_release reason now err s = Inr (s\<lparr>sup_release := Some r, sup_deadline := None\<rparr>)"
      using assms(2) g by (auto simp: begin_release_def current_boundary_def r_def b_def)
    show "sup_core (s\<lparr>sup_release := Some r, sup_deadline := None\<rparr>)"
      using assms g by (simp add: sup_core_def r_def b_def)
  qed (simp_all add: r_def)
qed

lemma service_release_idle:
  assumes "sup_release s = Some r"
    and "\<not> sup_ready s \<or> sup_active s \<noteq> None \<or>
      (\<not> force \<and> (case rel_retry_due r of None \<Rightarrow> True | Some d \<Rightarrow> now < d))"
  shows "service_release force (Some now) s = Inr ([], s)"
  using assms by (auto simp: service_release_def)

text \<open>What a serviced release looks like: its OFF is in flight.\<close>

definition write_off_attempt :: "time \<Rightarrow> supervisor \<Rightarrow> provider_attempt" where
  "write_off_attempt now s = \<lparr>att_id = next_id s, att_kind = WRITE_OFF, att_gen = the (sup_gen s),
     att_lease = le_id (the (sup_lease s)), att_started = now,
     att_timeout = tc_write_timeout (sup_cfg s)\<rparr>"

definition serviced :: "time \<Rightarrow> tx_release \<Rightarrow> supervisor \<Rightarrow> supervisor" where
  "serviced now r s = (tick_id s)\<lparr>sup_active := Some (write_off_attempt now s), sup_cancel := None,
     sup_release := Some (r\<lparr>rel_attempts := rel_attempts r + 1, rel_retry_due := None,
       rel_error := None\<rparr>)\<rparr>"

lemma service_release_start:
  assumes "sup_core s" and "sup_release s = Some r" and "sup_ready s" and "sup_active s = None"
    and "force \<or> (\<exists>d. rel_retry_due r = Some d \<and> d \<le> now)"
  shows "service_release force (Some now) s = Inr ([Attempt (write_off_attempt now s)], serviced now r s)"
    and "sup_inv (serviced now r s)"
proof -
  obtain g l where gl: "sup_gen s = Some g" "sup_lease s = Some l"
    using assms(1,2) by (auto simp: sup_core_def)
  then show "service_release force (Some now) s = Inr ([Attempt (write_off_attempt now s)], serviced now r s)"
    using assms by (auto simp: service_release_def start_attempt_def Let_def serviced_def
        write_off_attempt_def)
  show "sup_inv (serviced now r s)"
    using assms(1,2) gl
    by (auto simp: sup_inv_defs serviced_def write_off_attempt_def tick_id_def)
qed

lemma service_release_core:
  assumes "sup_core s" and "sup_release s = Some r"
    and "sup_active s = None \<Longrightarrow> rel_retry_due r \<noteq> None"
    and "sup_active s \<noteq> None \<Longrightarrow> retry_ok s"
  shows "\<exists>es s'. service_release force (Some now) s = Inr (es, s') \<and> sup_inv s'"
proof (cases "\<not> sup_ready s \<or> sup_active s \<noteq> None \<or>
      (\<not> force \<and> (case rel_retry_due r of None \<Rightarrow> True | Some d \<Rightarrow> now < d))")
  case True
  have "retry_ok s" using assms(2-4) by (cases "sup_active s") (auto simp: retry_ok_def)
  with service_release_idle [OF assms(2) True] assms(1) show ?thesis
    by (simp add: sup_inv_def)
next
  case False
  then have "sup_ready s" "sup_active s = None" "force \<or> (\<exists>d. rel_retry_due r = Some d \<and> d \<le> now)"
    by (auto split: option.splits)
  from service_release_start [OF assms(1,2) this] show ?thesis by blast
qed

lemma service_release_any:
  assumes "sup_inv s"
  shows "\<exists>es s'. service_release force (Some now) s = Inr (es, s') \<and> sup_inv s'"
proof (cases "sup_release s")
  case None
  then show ?thesis using assms by (simp add: service_release_def)
next
  case (Some r)
  then show ?thesis
    using assms by (intro service_release_core [of s r force now]) (auto simp: sup_inv_def retry_ok_def)
qed

lemma safe_apply_service:
  assumes "sup_core s" and "sup_release s = Some r" and "sup_active s = None"
    and "rel_retry_due r \<noteq> None"
  shows "safe_act (apply_service now s)"
proof -
  obtain es s' where "service_release True (Some now) s = Inr (es, s')" "sup_inv s'"
    using service_release_core [of s r True now] assms by auto
  then show ?thesis by (simp add: apply_service_def)
qed

lemma safe_apply_read:
  assumes "sup_core s" and "sup_active s = None" and "sup_lease s \<noteq> None"
    and "\<And>r. sup_release s = Some r \<Longrightarrow> 0 < rel_attempts r"
  shows "safe_act (apply_read now s)"
  using assms
  by (auto simp: apply_read_def start_attempt_def tick_id_def Let_def sup_inv_defs)

lemma safe_schedule_retry:
  assumes "sup_core s" and "sup_release s \<noteq> None"
  shows "safe_act (bind_result (schedule_retry err s) (tx_result outc es))"
  using assms
  by (auto simp: schedule_retry_def tick_clock_def Let_def sup_inv_defs split: option.splits)

lemma cancel_active_inv: "sup_inv s \<Longrightarrow> sup_inv (snd (cancel_active a now s))"
  by (simp add: cancel_active_def Let_def sup_inv_defs)

lemma safe_set_provider_ready:
  assumes inv: "sup_inv s"
  shows "safe_act (set_provider_ready g ready s)"
proof (cases "Some g = sup_gen s \<and> ready \<noteq> sup_ready s")
  case False
  with inv show ?thesis by (auto simp: set_provider_ready_def)
next
  case live: True
  let ?now = "clock_now s"
  let ?s1 = "(tick_clock s)\<lparr>sup_ready := ready\<rparr>"
  let ?off = "?s1\<lparr>sup_obs := None\<rparr>"
  have i1: "sup_inv ?s1" and i2: "sup_inv ?off"
    using inv by (simp_all add: sup_inv_defs tick_clock_def)
  have cancelled: "safe_act (case sup_active t of
      Some a \<Rightarrow> (let (es, s3) = cancel_active a ?now t in tx_result Out_APPLIED es s3)
    | None \<Rightarrow> tx_result Out_APPLIED [] t)" if "sup_inv t" for t
    using that cancel_active_inv [OF that] by (simp split: option.split prod.split) (metis snd_conv)
  show ?thesis
  proof (cases ready)
    case True
    have "\<exists>es s4. service_release True (Some ?now) ?s1 = Inr (es, s4) \<and> sup_inv s4"
      using service_release_any [OF i1] .
    with live True show ?thesis by (auto simp: set_provider_ready_def Let_def)
  next
    case False
    show ?thesis
    proof (cases "sup_lease s \<noteq> None \<and> sup_release s = None")
      case True
      obtain s2 r where s2: "begin_release CONTROL_TRANSPORT_LOST ?now None ?off = Inr s2"
        "sup_core s2" "sup_release s2 = Some r" "rel_retry_due r = Some ?now"
        by (rule begin_release_core [of ?off CONTROL_TRANSPORT_LOST ?now None])
           (use i2 True in \<open>auto simp: sup_inv_def tick_clock_def\<close>)
      then have "sup_inv s2" by (simp add: sup_inv_def retry_ok_def)
      from cancelled [OF this] live False True s2(1) show ?thesis
        by (simp add: set_provider_ready_def Let_def split: option.splits prod.splits)
    next
      case other: False
      from cancelled [OF i2] live False other show ?thesis
        by (auto simp: set_provider_ready_def Let_def split: option.splits prod.splits)
    qed
  qed
qed

lemma sup_core_settled:
  "sup_core s \<Longrightarrow> sup_core ((tick_clock s)\<lparr>sup_active := None, sup_cancel := None\<rparr>)"
  by (simp add: sup_core_def tick_clock_def)

lemma safe_settle_attempt:
  assumes inv: "sup_inv s"
  shows "safe_act (settle_attempt i g ok err s)"
proof (cases "sup_active s")
  case None
  with inv show ?thesis by (simp add: settle_attempt_def)
next
  case (Some a)
  let ?now = "clock_now s"
  let ?s1 = "(tick_clock s)\<lparr>sup_active := None, sup_cancel := None\<rparr>"
  have core: "sup_core ?s1" using inv by (simp add: sup_inv_def sup_core_settled)
  have f: "sup_lease ?s1 = sup_lease s" "sup_release ?s1 = sup_release s" "sup_active ?s1 = None"
    by (simp_all add: tick_clock_def)
  have ret: "retry_ok s" using inv by (simp add: sup_inv_def)
  show ?thesis
  proof (cases "(att_id a, att_gen a) = (i, g) \<and> Some g = sup_gen s")
    case False
    with inv Some show ?thesis by (auto simp: settle_attempt_def)
  next
    case live: True
    show ?thesis
    proof (cases "sup_lease s")
      case None
      have "sup_inv ?s1"
        using core f None inv by (auto simp: sup_inv_defs)
      with live Some None show ?thesis
        by (simp add: settle_attempt_def Let_def tick_clock_def)
    next
      case (Some l)
      have lease: "sup_lease ?s1 \<noteq> None" using Some f by simp
      show ?thesis
      proof (cases "sup_release s")
        case rel: None
        have "safe_act (bind_result (begin_release CONTROL_TRANSPORT_LOST ?now e ?s1)
            (apply_service ?now))" for e
          by (rule begin_release_core [OF core lease, of CONTROL_TRANSPORT_LOST ?now e])
             (use rel f in \<open>auto intro!: safe_apply_service\<close>)
        moreover have "safe_act (bind_result (begin_release CONTROL_TRANSPORT_LOST ?now e ?s1)
            (\<lambda>s2. if sup_release s2 \<noteq> None then apply_service ?now s2 else apply_read ?now s2))" for e
          by (rule begin_release_core [OF core lease, of CONTROL_TRANSPORT_LOST ?now e])
             (use rel f in \<open>auto intro!: safe_apply_service\<close>)
        moreover have "safe_act (apply_read ?now ?s1)"
          using rel f lease by (intro safe_apply_read [OF core]) auto
        moreover have "sup_inv ?s1"
          using core rel f by (simp add: sup_inv_def retry_ok_def)
        ultimately show ?thesis
          using live \<open>sup_active s = Some a\<close> rel f lease
          by (simp add: settle_attempt_def Let_def)
      next
        case rel: (Some r)
        obtain y where y: "sup_lease s = Some y" using lease f by auto
        have r0: "rel_attempts r = 0 \<or> att_kind a = WRITE_ON \<Longrightarrow> rel_retry_due r \<noteq> None"
          using ret rel \<open>sup_active s = Some a\<close> by (auto simp: retry_ok_def)
        have "0 \<le> rel_attempts r" using core rel f by (auto simp: sup_core_def)
        then have "rel_attempts r \<noteq> 0 \<Longrightarrow> safe_act (apply_read ?now ?s1)"
          using rel f lease by (intro safe_apply_read [OF core]) auto
        moreover have "safe_act (bind_result (schedule_retry e ?s1) (tx_result Out_APPLIED []))" for e
          using rel f by (intro safe_schedule_retry [OF core]) simp
        moreover have "rel_attempts r = 0 \<or> att_kind a = WRITE_ON \<Longrightarrow>
            safe_act (apply_service ?now ?s1)"
          using rel f r0 by (intro safe_apply_service [OF core]) auto
        ultimately show ?thesis
          using live \<open>sup_active s = Some a\<close> rel f lease y
          by (simp add: settle_attempt_def Let_def)
      qed
    qed
  qed
qed

lemma safe_tick: 
  assumes inv: "sup_inv s"
  shows "safe_act (tick s)"
proof -
  let ?now = "clock_now s"
  let ?s1 = "(tick_clock s)\<lparr>sup_driven := True\<rparr>"
  have i1: "sup_inv ?s1"
    using inv by (simp add: sup_inv_defs tick_clock_def)
  show ?thesis
  proof (cases "sup_lease s \<noteq> None \<and> sup_release s = None \<and>
            (case sup_deadline s of None \<Rightarrow> False | Some d \<Rightarrow> ?now \<ge> d)")
    case fire: True
    obtain s2 r where s2: "begin_release BACKEND_MAX_KEY_DOWN ?now None ?s1 = Inr s2"
      "sup_core s2" "sup_release s2 = Some r" "rel_retry_due r = Some ?now" "sup_active s2 = sup_active s"
      by (rule begin_release_core [of ?s1 BACKEND_MAX_KEY_DOWN ?now None])
         (use i1 fire in \<open>auto simp: sup_inv_def tick_clock_def\<close>)
    have i2: "sup_inv s2" using s2 by (simp add: sup_inv_def retry_ok_def)
    obtain es s3 where c: "(case sup_active s of Some a \<Rightarrow> cancel_active a ?now s2
        | None \<Rightarrow> ([], s2)) = (es, s3)" by fastforce
    then have i3: "sup_inv s3"
      using i2 cancel_active_inv [OF i2] by (auto split: option.splits) (metis snd_conv)
    obtain fs s4 where s4: "service_release False (Some ?now) s3 = Inr (fs, s4)" "sup_inv s4"
      using service_release_any [OF i3] by blast
    have "bind_result (begin_release BACKEND_MAX_KEY_DOWN ?now None ?s1) (\<lambda>s2.
           case sup_active s of
             Some a \<Rightarrow> Inr (cancel_active a ?now s2)
           | None \<Rightarrow> Inr ([], s2)) = Inr (es, s3)"
      using s2(1) c by (simp split: option.splits)
    with fire i3 s4 show ?thesis
      by (simp add: tick_def Let_def)
  next
    case False
    have "\<exists>es s4. service_release False (Some ?now) ?s1 = Inr (es, s4) \<and> sup_inv s4"
      using service_release_any [OF i1] .
    with False show ?thesis by (auto simp: tick_def Let_def)
  qed
qed

section \<open>Calls never crash\<close>

fun valid_call :: "tx_op \<Rightarrow> bool" where
  "valid_call (ReplaceProvider g ready) \<longleftrightarrow> 0 \<le> g"
| "valid_call (EmergencyRelease reason) \<longleftrightarrow> reason \<in> set system_release_reasons"
| "valid_call (ForceUnkey owner reason) \<longleftrightarrow> reason \<in> set force_unkey_reasons"
| "valid_call _ \<longleftrightarrow> True"

lemma replace_provider_negative: "g < 0 \<Longrightarrow> replace_provider g ready s = Inl ValueError"
  by (simp add: replace_provider_def)

lemma force_unkey_untrusted:
  "reason \<notin> set force_unkey_reasons \<Longrightarrow> force_unkey owner reason s = Inl ValueError"
  by (simp add: force_unkey_def)

lemma safe_apply_op:
  assumes "sup_inv s"
  shows "if valid_call op then safe_act (apply_op s op) else apply_op s op = Inl ValueError"
  using assms
  by (cases op) (auto simp: safe_replace_provider safe_set_provider_ready safe_observe_ptt
      safe_request_on request_off_def release_owner_def emergency_release_def safe_release_current
      safe_force_unkey safe_settle_attempt safe_tick replace_provider_negative
      force_unkey_untrusted split: option.split)

lemma tx_step_inv: "sup_inv s \<Longrightarrow> sup_inv (tx_step s op)"
  using safe_apply_op [of s op]
  by (auto simp: tx_step_def safe_act_def split: sum.splits if_splits)

end
