(* ===== verification/TxLease.thy ===== *)
theory TxLease
  imports TxSafety
begin

text \<open>
  What the supervisor of \<open>TxSafety\<close> promises its callers, seen through the managed lease alone:
  the abstract three-state machine (idle, held, releasing) it implements, and the properties of
  its runs: one WRITE_ON per lease, a durable OFF, the watchdog bound and the retry ladder.
\<close>

section \<open>Frames of the private steps\<close>

text \<open>What a caller sees of the managed lease, as one value.\<close>

datatype lease_view =
    Idle
  | Held tx_lease "time option" "tx_boundary option"
  | Releasing tx_lease tx_release_reason

definition view_of :: "supervisor \<Rightarrow> lease_view" where
  "view_of s = (case sup_lease s of
       None \<Rightarrow> Idle
     | Some l \<Rightarrow> (case sup_release s of
           None \<Rightarrow> Held l (sup_deadline s) (sup_acq s)
         | Some r \<Rightarrow> Releasing l (rel_requested r)))"

definition sup_epoch :: "supervisor \<Rightarrow> int" where
  "sup_epoch s = (case sup_gen s of None \<Rightarrow> -1 | Some g \<Rightarrow> g)"

text \<open>What no call ever turns back or changes.\<close>

definition tx_mono :: "supervisor \<Rightarrow> supervisor \<Rightarrow> bool" where
  "tx_mono s s' \<longleftrightarrow> sup_cfg s' = sup_cfg s \<and> sup_id_calls s \<le> sup_id_calls s' \<and>
     sup_clock_calls s \<le> sup_clock_calls s' \<and> (sup_epoch s \<le> sup_epoch s')"

lemma tx_mono_refl [simp]: "tx_mono s s"
  by (simp add: tx_mono_def)

lemma tx_mono_trans: "tx_mono s t \<Longrightarrow> tx_mono t u \<Longrightarrow> tx_mono s u"
  by (auto simp: tx_mono_def)

lemma service_release_frame:
  assumes "service_release force now s = Inr (es, s')"
  shows "view_of s' = view_of s" and "tx_mono s s'"
    and "\<And>e. e \<in> set es \<Longrightarrow> \<exists>a. e = Attempt a \<and> att_kind a = WRITE_OFF"
    and "map_option rel_boundary (sup_release s') = map_option rel_boundary (sup_release s)"
  using assms
  by (auto simp: service_release_def start_attempt_def tick_clock_def tick_id_def view_of_def tx_mono_def
      sup_epoch_def Let_def result_simps split: option.splits if_splits prod.splits)

lemma start_attempt_frame:
  assumes "start_attempt kind t now s = Inr (a, s')"
  shows "view_of s' = view_of s" and "tx_mono s s'" and "att_kind a = kind"
    and "sup_release s' = sup_release s"
  using assms
  by (auto simp: start_attempt_def tick_id_def view_of_def tx_mono_def sup_epoch_def Let_def
      split: option.splits)

lemma cancel_active_frame:
  assumes "cancel_active a now s = (es, s')"
  shows "view_of s' = view_of s" and "tx_mono s s'" and "sup_release s' = sup_release s"
    and "\<And>e. e \<in> set es \<Longrightarrow> \<exists>c. e = CancelAttempt c"
  using assms
  by (auto simp: cancel_active_def view_of_def tx_mono_def sup_epoch_def Let_def
      split: if_splits option.splits)

lemma begin_release_frame:
  assumes "begin_release reason now err s = Inr s'" and "sup_lease s = Some l" 
  shows "view_of s' = Releasing l reason" and "tx_mono s s'"
  using assms
  by (auto simp: begin_release_def view_of_def tx_mono_def sup_epoch_def result_simps)

lemma schedule_retry_frame:
  assumes "schedule_retry err s = Inr s'"
  shows "view_of s' = view_of s" and "tx_mono s s'"
    and "map_option rel_boundary (sup_release s') = map_option rel_boundary (sup_release s)"
  using assms
  by (auto simp: schedule_retry_def tick_clock_def view_of_def tx_mono_def sup_epoch_def Let_def
      split: option.splits if_splits)

section \<open>The abstract lease machine\<close>

text \<open>
  The reasons a held lease may be released for: only its owner may release it by request, and
  only the expiry of its own deadline lets \<open>tick\<close> release it.
\<close>

fun release_cause :: "tx_lease \<Rightarrow> time option \<Rightarrow> time \<Rightarrow> tx_op \<Rightarrow> tx_release_reason \<Rightarrow> bool" where
  "release_cause l d now (RequestOff owner i reason) reason' \<longleftrightarrow>
     le_owner l = owner \<and> le_id l = i \<and> reason' = reason"
| "release_cause l d now (ReleaseOwner owner reason) reason' \<longleftrightarrow>
     le_owner l = owner \<and> reason' = reason"
| "release_cause l d now (EmergencyRelease reason) reason' \<longleftrightarrow>
     reason' = reason \<and> reason \<in> set system_release_reasons"
| "release_cause l d now (ReplaceProvider g ready) reason' \<longleftrightarrow> reason' = CONTROL_TRANSPORT_LOST"
| "release_cause l d now (SetProviderReady g ready) reason' \<longleftrightarrow>
     reason' = CONTROL_TRANSPORT_LOST \<and> \<not> ready"
| "release_cause l d now (SettleAttempt i g ok err) reason' \<longleftrightarrow>
     reason' = CONTROL_TRANSPORT_LOST \<and> \<not> ok"
| "release_cause l d now Tick reason' \<longleftrightarrow>
     reason' = BACKEND_MAX_KEY_DOWN \<and> (\<exists>t. d = Some t \<and> t \<le> now)"
| "release_cause l d now _ reason' \<longleftrightarrow> False"

text \<open>A step of the machine at the clock reading \<open>now\<close>; \<open>w\<close> is the configured watchdog.\<close>

inductive lease_step :: "time option \<Rightarrow> time \<Rightarrow> lease_view \<Rightarrow> tx_op \<Rightarrow> lease_view \<Rightarrow> bool"
  for w now where
  stay: "lease_step w now v op v"
| acquire: "le_owner l = owner \<Longrightarrow> bd_not_before b = now \<Longrightarrow>
    d = (case w of None \<Rightarrow> None | Some t \<Rightarrow> if t \<noteq> 0 then Some (now + t) else None) \<Longrightarrow>
    lease_step w now Idle (RequestOn owner) (Held l d (Some b))"
| adopt: "le_owner l = owner \<Longrightarrow> reason \<in> set force_unkey_reasons \<Longrightarrow>
    lease_step w now Idle (ForceUnkey owner reason) (Releasing l reason)"
| begin_off: "release_cause l d now op reason \<Longrightarrow>
    lease_step w now (Held l d b) op (Releasing l reason)"
| confirmed: "obs_value ob = Radio_OFF \<Longrightarrow>
    lease_step w now (Releasing l reason) (ObservePtt ob) Idle"

inductive_cases lease_step_HeldE: "lease_step w now (Held l d b) op v"
inductive_cases lease_step_ReleasingE: "lease_step w now (Releasing l reason) op v"
inductive_cases lease_step_IdleE: "lease_step w now Idle op v"

lemmas op_frames =
  service_release_frame start_attempt_frame cancel_active_frame begin_release_frame
  schedule_retry_frame

abbreviation tx_refines :: "supervisor \<Rightarrow> tx_op \<Rightarrow> supervisor \<Rightarrow> bool" where
  "tx_refines s op s' \<equiv>
     lease_step (tc_watchdog (sup_cfg s)) (clock_now s) (view_of s) op (view_of s') \<and> tx_mono s s'"

lemma view_simps:
  "view_of (tick_clock s) = view_of s"
  "view_of (tick_id s) = view_of s"
  "tx_mono s (tick_clock s)"
  "tx_mono s (tick_id s)"
  "sup_lease (tick_clock s) = sup_lease s"
  "sup_release (tick_clock s) = sup_release s"
  by (auto simp: view_of_def tick_clock_def tick_id_def tx_mono_def sup_epoch_def
      split: option.splits)

lemma release_current_refines:
  assumes "release_current reason s = Inr (t, s')" and "sup_lease s = Some l"
  shows "tx_mono s s'"
    and "sup_release s \<noteq> None \<Longrightarrow> view_of s' = view_of s"
    and "sup_release s = None \<Longrightarrow> view_of s' = Releasing l reason"
proof -
  show "sup_release s \<noteq> None \<Longrightarrow> view_of s' = view_of s"
    using assms by (auto simp: release_current_def view_of_def split: option.splits)
  have *: "tx_mono s s' \<and> view_of s' = Releasing l reason" if none: "sup_release s = None"
  proof -
    from assms none obtain s1 where s1: "begin_release reason (clock_now s) None (tick_clock s) = Inr s1"
      by (auto simp: release_current_def Let_def result_simps)
    from begin_release_frame [OF s1, of l] assms(2)
    have v: "view_of s1 = Releasing l reason" "tx_mono (tick_clock s) s1"
      by (simp_all add: view_simps)
    have "view_of s' = view_of s1 \<and> tx_mono s1 s'"
      using assms(1) none s1
      by (auto simp: release_current_def Let_def result_simps split: option.splits prod.splits
          dest: cancel_active_frame(1,2) service_release_frame(1,2))
    with v show ?thesis using tx_mono_trans view_simps(3) by metis
  qed
  then show "sup_release s = None \<Longrightarrow> view_of s' = Releasing l reason" by simp
  show "tx_mono s s'"
    using assms * by (cases "sup_release s")
      (auto simp: release_current_def tx_mono_def sup_epoch_def)
qed

lemma release_current_step:
  assumes "release_current reason s = Inr (t, s')" and "sup_lease s = Some l"
    and cause: "\<And>d. release_cause l d (clock_now s) op reason"
  shows "tx_refines s op s'"
proof (cases "sup_release s")
  case None
  have "view_of s = Held l (sup_deadline s) (sup_acq s)"
    using None assms(2) by (simp add: view_of_def)
  with release_current_refines(1,3) [OF assms(1,2)] None cause show ?thesis
    by (simp add: lease_step.begin_off)
next
  case (Some r)
  with release_current_refines(1,2) [OF assms(1,2)] show ?thesis
    by (simp add: lease_step.stay)
qed

lemma observe_ptt_refines:
  assumes "observe_ptt ob s = Inr (t, s')"
  shows "tx_refines s (ObservePtt ob) s'"
  using assms
  by (auto simp: observe_ptt_def view_of_def tx_mono_def sup_epoch_def clear_managed_def Let_def
      split: if_splits option.splits intro: lease_step.intros)

lemma request_on_refines:
  assumes "request_on owner s = Inr (t, s')" and "sup_inv s"
  shows "tx_refines s (RequestOn owner) s'"
proof (cases "sup_release s = None \<and> sup_lease s = None \<and> s' \<noteq> s")
  case False
  with assms show ?thesis
    by (auto simp: request_on_def Let_def split: if_splits option.splits intro: lease_step.intros)
next
  case True
  with assms show ?thesis
    by (auto simp: request_on_def Let_def result_simps current_boundary_def start_attempt_def
        tick_id_def tick_clock_def clock_now_def view_of_def tx_mono_def sup_epoch_def
        split: if_splits option.splits intro!: lease_step.acquire)
qed

lemma force_unkey_refines:
  assumes "force_unkey owner reason s = Inr (t, s')" and "sup_inv s"
  shows "tx_refines s (ForceUnkey owner reason) s'"
proof (cases "sup_release s = None \<and> sup_lease s = None \<and> sup_active s = None \<and> sup_ready s \<and> sup_gen s \<noteq> None")
  case False
  with assms show ?thesis
    by (auto simp: force_unkey_def split: if_splits intro: lease_step.intros)
next
  case True
  let ?s1 = "tick_clock s"
  let ?l = "\<lparr>le_id = next_id ?s1, le_owner = owner\<rparr>"
  let ?s2 = "(tick_id ?s1)\<lparr>sup_lease := Some ?l\<rparr>"
  have m: "tx_mono s ?s2"
    by (auto simp: tx_mono_def tick_id_def tick_clock_def sup_epoch_def)
  from True assms(1) obtain s3 es where
    s3: "begin_release reason (clock_now s) None ?s2 = Inr s3" and
    s4: "service_release True (Some (clock_now s)) s3 = Inr (es, s')" and
    r: "reason \<in> set force_unkey_reasons"
    by (auto simp: force_unkey_def Let_def result_simps split: if_splits)
  have "view_of s' = Releasing ?l reason" "tx_mono s s'"
    using begin_release_frame [OF s3, of ?l] service_release_frame [OF s4] m
    by (auto intro: tx_mono_trans)
  moreover have "view_of s = Idle" using True by (simp add: view_of_def)
  ultimately show ?thesis using r by (auto intro: lease_step.adopt)
qed

lemma apply_service_frame:
  "apply_service now s = Inr (t, s') \<Longrightarrow> view_of s' = view_of s \<and> tx_mono s s'"
  by (auto simp: apply_service_def result_simps dest: service_release_frame(1,2))

lemma apply_read_frame:
  "apply_read now s = Inr (t, s') \<Longrightarrow> view_of s' = view_of s \<and> tx_mono s s'"
  by (auto simp: apply_read_def result_simps dest: start_attempt_frame(1,2))

text \<open>
  The shape all releases by the supervisor itself share: the state \<open>s1\<close> differs from \<open>s\<close> in
  fields the view does not show, then a release may begin, then the release is serviced.
\<close>

lemma begin_refines:
  assumes v: "view_of s = Held l d c" and m: "tx_mono s s1" and l: "sup_lease s1 = Some l"
    and b: "begin_release reason now err s1 = Inr s2"
    and rest: "view_of s' = view_of s2 \<and> tx_mono s2 s'"
    and cause: "release_cause l d (clock_now s) op reason"
  shows "tx_refines s op s'"
proof -
  have "view_of s' = Releasing l reason"
    using begin_release_frame(1) [OF b l] rest by simp
  moreover have "tx_mono s s'"
    using begin_release_frame(2) [OF b l] rest m by (blast intro: tx_mono_trans)
  ultimately show ?thesis using v cause by (auto intro: lease_step.begin_off)
qed

lemma begin_then_refines:
  assumes v: "view_of s1 = view_of s" and m: "tx_mono s s1"
    and l: "sup_lease s1 = Some l" and none: "sup_release s1 = None"
    and b: "begin_release reason now err s1 = Inr s2"
    and rest: "view_of s' = view_of s2 \<and> tx_mono s2 s'"
    and cause: "release_cause l (sup_deadline s1) (clock_now s) op reason"
  shows "tx_refines s op s'"
  by (rule begin_refines [OF _ m l b rest cause, of "sup_acq s1"])
     (use v l none in \<open>simp add: view_of_def [of s1]\<close>)

lemma quiet_refines:
  assumes "view_of s1 = view_of s" and "tx_mono s s1" and "view_of s' = view_of s1 \<and> tx_mono s1 s'"
  shows "tx_refines s op s'"
  using assms by (auto intro: lease_step.stay tx_mono_trans)

lemma settle_attempt_refines:
  assumes r: "settle_attempt i g ok err s = Inr (t, s')"
  shows "tx_refines s (SettleAttempt i g ok err) s'"
proof -
  let ?now = "clock_now s"
  let ?s1 = "(tick_clock s)\<lparr>sup_active := None, sup_cancel := None\<rparr>"
  have v: "view_of ?s1 = view_of s" and m: "tx_mono s ?s1"
    by (auto simp: view_of_def tick_clock_def tx_mono_def sup_epoch_def split: option.splits)
  consider "s' = s" | "view_of s' = view_of ?s1 \<and> tx_mono ?s1 s'"
    | l s2 e where "sup_lease ?s1 = Some l" "sup_release ?s1 = None" "\<not> ok"
      "begin_release CONTROL_TRANSPORT_LOST ?now e ?s1 = Inr s2"
      "view_of s' = view_of s2 \<and> tx_mono s2 s'"
    using r
    by (auto simp: settle_attempt_def Let_def result_simps
        split: option.splits if_splits dest: apply_service_frame apply_read_frame
        schedule_retry_frame(1,2))
  then show ?thesis
  proof cases
    case 1
    then show ?thesis by (simp add: lease_step.stay)
  next
    case 2
    from quiet_refines [OF v m 2] show ?thesis .
  next
    case 3
    show ?thesis by (rule begin_then_refines [OF v m 3(1,2,4,5)]) (use 3(3) in simp)
  qed
qed

lemma cancel_tail_frame:
  assumes "(case active of
      Some a \<Rightarrow> (let (es, s3) = cancel_active a now s in tx_result outc es s3)
    | None \<Rightarrow> tx_result outc [] s) = Inr (t, s')"
  shows "view_of s' = view_of s \<and> tx_mono s s'"
proof (cases active)
  case None
  with assms show ?thesis by simp
next
  case (Some a)
  obtain es s3 where "cancel_active a now s = (es, s3)" by fastforce
  with assms Some cancel_active_frame(1,2) [OF this] show ?thesis by simp
qed

lemma set_provider_ready_refines:
  assumes r: "set_provider_ready g ready s = Inr (t, s')"
  shows "tx_refines s (SetProviderReady g ready) s'"
proof -
  let ?now = "clock_now s"
  let ?s1 = "(tick_clock s)\<lparr>sup_ready := ready\<rparr>"
  let ?off = "?s1\<lparr>sup_obs := None\<rparr>"
  have v: "view_of ?s1 = view_of s" "view_of ?off = view_of s" and m: "tx_mono s ?s1" "tx_mono s ?off"
    by (auto simp: view_of_def tick_clock_def tx_mono_def sup_epoch_def split: option.splits)
  consider "s' = s" | "view_of s' = view_of ?s1 \<and> tx_mono ?s1 s'"
    | "view_of s' = view_of ?off \<and> tx_mono ?off s'"
    | l s2 where "sup_lease ?off = Some l" "sup_release ?off = None" "\<not> ready"
      "begin_release CONTROL_TRANSPORT_LOST ?now None ?off = Inr s2"
      "view_of s' = view_of s2 \<and> tx_mono s2 s'"
    using r
    by (auto simp: set_provider_ready_def Let_def result_simps view_simps
        split: if_splits dest: service_release_frame(1,2) dest!: cancel_tail_frame)
  then show ?thesis
  proof cases
    case 1
    then show ?thesis by (simp add: lease_step.stay)
  next
    case 2
    from quiet_refines [OF v(1) m(1) 2] show ?thesis .
  next
    case 3
    from quiet_refines [OF v(2) m(2) 3] show ?thesis .
  next
    case 4
    show ?thesis by (rule begin_then_refines [OF v(2) m(2) 4(1,2,4,5)]) (use 4(3) in simp)
  qed
qed

lemma tick_refines:
  assumes r: "tick s = Inr (t, s')"
  shows "tx_refines s Tick s'"
proof -
  let ?now = "clock_now s"
  let ?s1 = "(tick_clock s)\<lparr>sup_driven := True\<rparr>"
  have v: "view_of ?s1 = view_of s" and m: "tx_mono s ?s1"
    by (auto simp: view_of_def tick_clock_def tx_mono_def sup_epoch_def split: option.splits)
  have d: "sup_deadline ?s1 = sup_deadline s" by (simp add: tick_clock_def)
  show ?thesis
  proof (cases "sup_lease s \<noteq> None \<and> sup_release s = None \<and>
            (case sup_deadline s of None \<Rightarrow> False | Some dl \<Rightarrow> ?now \<ge> dl)")
    case fire: True
    then obtain l dl where l: "sup_lease ?s1 = Some l" "sup_release ?s1 = None"
      "sup_deadline s = Some dl" "dl \<le> ?now"
      by (auto simp: view_simps split: option.splits)
    from r fire obtain s2 where b: "begin_release BACKEND_MAX_KEY_DOWN ?now None ?s1 = Inr s2"
      by (auto simp: tick_def Let_def result_simps)
    obtain es s3 where c: "(case sup_active s of Some a \<Rightarrow> cancel_active a ?now s2
        | None \<Rightarrow> ([], s2)) = (es, s3)" by fastforce
    then have c2: "view_of s3 = view_of s2 \<and> tx_mono s2 s3"
      by (auto split: option.splits dest: cancel_active_frame(1,2))
    have "bind_result (begin_release BACKEND_MAX_KEY_DOWN ?now None ?s1) (\<lambda>s2.
           case sup_active s of
             Some a \<Rightarrow> Inr (cancel_active a ?now s2)
           | None \<Rightarrow> Inr ([], s2)) = Inr (es, s3)"
      using b c by (simp split: option.splits)
    with r fire have "bind_result
        (if es = [] then service_release False (Some ?now) s3 else Inr (es, s3))
        (\<lambda>(es', s4). tx_result
          (if es' \<noteq> [] \<or> sup_release s4 \<noteq> None then Out_APPLIED else Out_NOOP) es' s4) = Inr (t, s')"
      by (simp add: tick_def Let_def)
    then have "view_of s' = view_of s3 \<and> tx_mono s3 s'"
      by (cases "es = []") (auto simp: result_simps dest: service_release_frame(1,2))
    with c2 have rest: "view_of s' = view_of s2 \<and> tx_mono s2 s'" by (auto intro: tx_mono_trans)
    show ?thesis by (rule begin_then_refines [OF v m l(1,2) b rest]) (use l d in simp)
  next
    case False
    with r have "view_of s' = view_of ?s1 \<and> tx_mono ?s1 s'"
      by (auto simp: tick_def Let_def result_simps dest: service_release_frame(1,2))
    from quiet_refines [OF v m this] show ?thesis .
  qed
qed

lemma replace_provider_refines:
  assumes r: "replace_provider g ready s = Inr (t, s')"
  shows "tx_refines s (ReplaceProvider g ready) s'"
proof (cases "case sup_gen s of None \<Rightarrow> False | Some h \<Rightarrow> g \<le> h")
  case True
  with r show ?thesis
    by (auto simp: replace_provider_def lease_step.stay split: if_splits)
next
  case fresh: False
  let ?now = "clock_now s"
  let ?s1 = "(tick_clock s)\<lparr>sup_gen := Some g, sup_ready := ready, sup_obs := None,
     sup_active := None, sup_cancel := None, sup_acq := None\<rparr>"
  from r have "0 \<le> g" by (auto simp: replace_provider_def split: if_splits)
  then have m: "tx_mono s ?s1"
    using fresh
    by (auto simp: tick_clock_def tx_mono_def sup_epoch_def split: option.splits)
  have v: "view_of ?s1 = view_of s" if "\<not> (sup_lease s \<noteq> None \<and> sup_release s = None)"
    using that by (auto simp: view_of_def tick_clock_def split: option.splits)
  have rebound: "view_of (s2\<lparr>sup_release := Some (rl\<lparr>rel_boundary := b, rel_retry_due := Some ?now\<rparr>)\<rparr>)
      = view_of s2 \<and> tx_mono s2 (s2\<lparr>sup_release := Some (rl\<lparr>rel_boundary := b, rel_retry_due := Some ?now\<rparr>)\<rparr>)"
    if "sup_release s2 = Some rl" for s2 rl b
    using that by (auto simp: view_of_def tx_mono_def sup_epoch_def split: option.splits)
  consider (quiet) "\<not> (sup_lease s \<noteq> None \<and> sup_release s = None)" "view_of s' = view_of ?s1 \<and> tx_mono ?s1 s'"
    | (lost) l s2 where "sup_lease ?s1 = Some l" "sup_release ?s1 = None"
      "begin_release CONTROL_TRANSPORT_LOST ?now None ?s1 = Inr s2"
      "view_of s' = view_of s2 \<and> tx_mono s2 s'"
  proof (cases "sup_lease s")
    case None
    with r fresh \<open>0 \<le> g\<close> quiet show ?thesis
      by (auto simp: replace_provider_def Let_def result_simps dest: service_release_frame(1,2))
  next
    case (Some l)
    with r fresh \<open>0 \<le> g\<close> obtain s2 rl b es where
      s2: "(if sup_release ?s1 = None then begin_release CONTROL_TRANSPORT_LOST ?now None ?s1
            else Inr ?s1) = Inr s2"
        "sup_release s2 = Some rl"
        "service_release ready None (s2\<lparr>sup_release := Some (rl\<lparr>rel_boundary := b,
            rel_retry_due := Some ?now\<rparr>)\<rparr>) = Inr (es, s')"
      by (auto simp: replace_provider_def Let_def result_simps split: option.splits)
    from service_release_frame(1,2) [OF s2(3)] rebound [OF s2(2), of b]
    have rest: "view_of s' = view_of s2 \<and> tx_mono s2 s'" by (auto intro: tx_mono_trans)
    show ?thesis
    proof (cases "sup_release ?s1")
      case None
      with lost [of l s2] rest s2(1) Some show ?thesis by (auto simp: view_simps)
    next
      case (Some q)
      with quiet rest s2(1) show ?thesis by (auto simp: view_simps)
    qed
  qed
  then show ?thesis
  proof cases
    case quiet
    from quiet_refines [OF v [OF quiet(1)] m quiet(2)] show ?thesis .
  next
    case lost
    have "view_of s = Held l (sup_deadline s) (sup_acq s)"
      using lost(1,2) by (simp add: view_of_def tick_clock_def)
    show ?thesis by (rule begin_refines [OF \<open>view_of s = _\<close> m lost(1,3,4)]) simp
  qed
qed


lemma apply_op_refines:
  assumes "apply_op s op = Inr (t, s')" and "sup_inv s"
  shows "tx_refines s op s'"
proof (cases op)
  case (RequestOff owner i reason)
  with assms show ?thesis
    by (cases "sup_lease s") (auto simp: request_off_def lease_step.stay split: if_splits
        intro: release_current_step [THEN conjunct1] release_current_refines(1))
next
  case (ReleaseOwner owner reason)
  with assms show ?thesis
    by (cases "sup_lease s") (auto simp: release_owner_def lease_step.stay split: if_splits
        intro: release_current_step [THEN conjunct1] release_current_refines(1))
next
  case (EmergencyRelease reason)
  with assms show ?thesis
    by (cases "sup_lease s") (auto simp: emergency_release_def lease_step.stay split: if_splits
        intro: release_current_step [THEN conjunct1] release_current_refines(1))
qed (use assms in \<open>auto dest: replace_provider_refines set_provider_ready_refines
  observe_ptt_refines request_on_refines force_unkey_refines settle_attempt_refines tick_refines\<close>)

lemma tx_step_refines: "sup_inv s \<Longrightarrow> tx_refines s op (tx_step s op)"
  by (cases "apply_op s op") (auto simp: tx_step_def lease_step.stay dest: apply_op_refines)

interpretation tx: epoch_system tx_step sup_inv sup_epoch
proof
  fix s :: supervisor and op
  assume "sup_inv s"
  then show "sup_inv (tx_step s op)" and "sup_epoch s \<le> sup_epoch (tx_step s op)"
    using tx_step_refines [of s op] by (auto simp: tx_step_inv tx_mono_def)
qed

lemma run_cfg: "sup_inv s \<Longrightarrow> sup_cfg (run tx_step s ops) = sup_cfg s"
  by (rule tx.run_property [where P = "\<lambda>t. sup_cfg t = sup_cfg s"])
     (auto dest: tx_step_refines simp: tx_mono_def)

text \<open>No operation but \<open>request_on\<close> emits a WRITE_ON.\<close>

definition no_write_on :: "tx_effect list \<Rightarrow> bool" where
  "no_write_on es \<longleftrightarrow> (\<forall>a. Attempt a \<in> set es \<longrightarrow> att_kind a \<noteq> WRITE_ON)"

lemma no_write_on_Nil [simp]: "no_write_on []"
  by (simp add: no_write_on_def)

lemma service_release_no_on: "service_release force now s = Inr (es, s') \<Longrightarrow> no_write_on es"
  by (auto simp: no_write_on_def dest!: service_release_frame(3))

lemma cancel_active_no_on: "cancel_active a now s = (es, s') \<Longrightarrow> no_write_on es"
  by (auto simp: no_write_on_def dest!: cancel_active_frame(4))

lemma apply_service_no_on: "apply_service now s = Inr (t, s') \<Longrightarrow> no_write_on (tr_effects t)"
  by (auto simp: apply_service_def result_simps dest: service_release_no_on)

lemma apply_read_no_on: "apply_read now s = Inr (t, s') \<Longrightarrow> no_write_on (tr_effects t)"
  by (auto simp: apply_read_def result_simps no_write_on_def dest: start_attempt_frame(3))

lemma cancel_step_no_on:
  "(case cancel_active a now s of (es, s3) \<Rightarrow> tx_result outc es s3) = Inr (t, s') \<Longrightarrow>
   no_write_on (tr_effects t)"
  by (cases "cancel_active a now s") (auto dest: cancel_active_no_on)

lemma release_current_no_on: "release_current reason s = Inr (t, s') \<Longrightarrow> no_write_on (tr_effects t)"
  by (auto simp: release_current_def result_simps Let_def split: option.splits
      dest!: cancel_step_no_on dest: service_release_no_on)

text \<open>\<open>tick\<close> in two steps: the watchdog, then the service of the release.\<close>

definition tick_watchdog :: "supervisor \<Rightarrow> (tx_effect list \<times> supervisor) result" where
  "tick_watchdog s = (let now = clock_now s; s1 = (tick_clock s)\<lparr>sup_driven := True\<rparr> in
     if sup_lease s \<noteq> None \<and> sup_release s = None \<and>
        (case sup_deadline s of None \<Rightarrow> False | Some d \<Rightarrow> now \<ge> d)
     then bind_result (begin_release BACKEND_MAX_KEY_DOWN now None s1) (\<lambda>s2.
       case sup_active s of
         Some a \<Rightarrow> Inr (cancel_active a now s2)
       | None \<Rightarrow> Inr ([], s2))
     else Inr ([], s1))"

lemma tick_split: "tick s = bind_result (tick_watchdog s) (\<lambda>(es, s3).
      bind_result (if es = [] then service_release False (Some (clock_now s)) s3 else Inr (es, s3))
        (\<lambda>(es', s4). tx_result
          (if es' \<noteq> [] \<or> sup_release s4 \<noteq> None then Out_APPLIED else Out_NOOP) es' s4))"
  unfolding tick_def tick_watchdog_def Let_def ..

lemma tick_cases:
  assumes "tick s = Inr (t, s')"
  obtains es s3 where "tick_watchdog s = Inr (es, s3)"
    and "(if es = [] then service_release False (Some (clock_now s)) s3 else Inr (es, s3))
      = Inr (tr_effects t, s')"
  using assms by (auto simp: tick_split bind_result_Inr_iff)

lemma tick_no_on:
  assumes "tick s = Inr (t, s')"
  shows "no_write_on (tr_effects t)"
proof (rule tick_cases [OF assms])
  fix es s3
  assume e: "tick_watchdog s = Inr (es, s3)"
    and r: "(if es = [] then service_release False (Some (clock_now s)) s3 else Inr (es, s3))
      = Inr (tr_effects t, s')"
  from e have "no_write_on es"
    by (auto simp: tick_watchdog_def Let_def result_simps split: if_splits option.splits
        dest: cancel_active_no_on)
  with r show ?thesis
    by (cases "es = []") (auto dest: service_release_no_on)
qed

lemma only_request_on_writes_on:
  assumes "apply_op s op = Inr (t, s')" and "\<And>owner. op \<noteq> RequestOn owner"
  shows "no_write_on (tr_effects t)"
proof (cases op)
  case (SettleAttempt i g ok err)
  with assms show ?thesis
    by (auto simp: settle_attempt_def Let_def result_simps split: option.splits if_splits
        dest: apply_service_no_on apply_read_no_on)
next
  case (SetProviderReady g ready)
  with assms show ?thesis
    by (auto simp: set_provider_ready_def Let_def result_simps split: if_splits option.splits
        dest: service_release_no_on dest!: cancel_step_no_on)
qed (use assms in \<open>auto simp: replace_provider_def observe_ptt_def request_off_def release_owner_def
   emergency_release_def force_unkey_def Let_def result_simps
   split: if_splits option.splits dest: service_release_no_on release_current_no_on tick_no_on\<close>)

section \<open>What runs of the supervisor promise\<close>

lemma run_inv_init:
  "supervisor_init clock ids w wt rt ct retries = Inr s0 \<Longrightarrow> sup_inv (run tx_step s0 ops)"
  by (intro tx.run_inv sup_inv_init)

lemma init_cfg:
  assumes "supervisor_init clock ids w wt rt ct retries = Inr s0"
  shows "tc_ids (sup_cfg s0) = ids" and "tc_watchdog (sup_cfg s0) = map_option finite_value w"
    and "view_of s0 = Idle" and "retries \<noteq> [] \<and> tc_retries (sup_cfg s0) = map finite_value retries"
    and "tc_watchdog (sup_cfg s0) = Some t \<Longrightarrow> 0 < t"
  using assms
  by (auto simp: supervisor_init_def view_of_def not_positive_def split: if_splits option.splits)

text \<open>
  No sequence of calls brings the supervisor into a state from which a call raises anything
  but the documented \<open>ValueError\<close> of an ill-formed argument (a negative provider generation, a
  release reason outside the trusted sets); every other call returns a transition and keeps the
  invariant. In particular the \<open>RuntimeError\<close>s of \<open>_start\<close> and \<open>_boundary\<close>, the assertion of
  \<open>replace_provider\<close> and the index into the retry schedule are never reached wrongly.
\<close>

theorem tx_calls_total:
  assumes "supervisor_init clock ids w wt rt ct retries = Inr s0"
  shows "if valid_call op
    then \<exists>t s'. apply_op (run tx_step s0 ops) op = Inr (t, s') \<and> sup_inv s'
    else apply_op (run tx_step s0 ops) op = Inl ValueError"
  using safe_apply_op [OF run_inv_init [OF assms], of op ops]
  by (auto simp: safe_act_def split: if_splits sum.splits)

text \<open>
  C2. Refinement: seen through its lease, every run of the supervisor is a run of the abstract
  machine \<open>lease_step\<close>: a lease is acquired with its watchdog deadline, is released only by its
  owner, a trusted reason, the loss of the provider, a failed attempt or its own deadline, and
  a release ends only at an OFF observation.
\<close>

theorem tx_refines_lease_machine:
  assumes "supervisor_init clock ids w wt rt ct retries = Inr s0" and "s = run tx_step s0 ops"
  shows "lease_step (map_option finite_value w) (clock_now s) (view_of s) op (view_of (tx_step s op))"
  using tx_step_refines [OF run_inv_init [OF assms(1)], of ops op]
    run_cfg [OF sup_inv_init [OF assms(1)], of ops] init_cfg(2) [OF assms(1)] assms(2)
  by simp

text \<open>The step at which an owed OFF disappears.\<close>

lemma release_ends:
  assumes inv: "sup_inv s" and v: "view_of s = Releasing l reason"
    and "view_of (tx_step s op) \<noteq> Releasing l reason"
  obtains ob r where "op = ObservePtt ob" and "obs_value ob = Radio_OFF" and "sup_release s = Some r"
    and "boundary_accepts (rel_boundary r) (Some ob)" and "sup_lease (tx_step s op) = None"
proof -
  have "lease_step (tc_watchdog (sup_cfg s)) (clock_now s) (Releasing l reason) op
      (view_of (tx_step s op))"
    using tx_step_refines [OF inv, of op] v by simp
  then obtain ob where op: "op = ObservePtt ob" and idle: "view_of (tx_step s op) = Idle"
    by (rule lease_step_ReleasingE) (use assms(3) in auto)
  obtain r where r: "sup_release s = Some r" and l: "sup_lease s \<noteq> None"
    using v by (auto simp: view_of_def split: option.splits)
  have none: "sup_lease (tx_step s op) = None"
    using idle by (auto simp: view_of_def split: option.splits)
  with op l r have "obs_value ob = Radio_OFF" "boundary_accepts (rel_boundary r) (Some ob)"
    by (auto simp: tx_step_def observe_ptt_def tx_result_def Let_def split: if_splits option.splits)
  with that [OF op _ r _ none] show ?thesis by simp
qed

text \<open>
  C1. Durable OFF: once a release is owed for a lease it survives every other call (settlements,
  provider replacement, readiness changes, further requests, ticks), with its lease and its
  requested reason, until an OFF observation that is causally newer than the release, by the
  release's own boundary, is reported; only that observation frees the lease.
\<close>

theorem durable_off:
  assumes "supervisor_init clock ids w wt rt ct retries = Inr s0"
    and "view_of (run tx_step s0 ops1) = Releasing l reason"
    and "view_of (run tx_step s0 (ops1 @ ops2)) \<noteq> Releasing l reason"
  shows "\<exists>pre ob post r. ops2 = pre @ ObservePtt ob # post \<and> obs_value ob = Radio_OFF \<and>
    view_of (run tx_step s0 (ops1 @ pre)) = Releasing l reason \<and>
    sup_release (run tx_step s0 (ops1 @ pre)) = Some r \<and>
    boundary_accepts (rel_boundary r) (Some ob) \<and>
    sup_lease (run tx_step s0 (ops1 @ pre @ [ObservePtt ob])) = None"
proof -
  have inv: "sup_inv (run tx_step s0 ops1)" by (rule run_inv_init [OF assms(1)])
  have "\<exists>pre ob post r. ops2 = pre @ ObservePtt ob # post \<and> obs_value ob = Radio_OFF \<and>
      view_of (run tx_step s pre) = Releasing l reason \<and>
      sup_release (run tx_step s pre) = Some r \<and> boundary_accepts (rel_boundary r) (Some ob) \<and>
      sup_lease (tx_step (run tx_step s pre) (ObservePtt ob)) = None"
    if "sup_inv s" "view_of s = Releasing l reason" "view_of (run tx_step s ops2) \<noteq> Releasing l reason"
    for s
    using that
  proof (induction ops2 arbitrary: s)
    case Nil
    then show ?case by simp
  next
    case (Cons op ops)
    show ?case
    proof (cases "view_of (tx_step s op) = Releasing l reason")
      case True
      from Cons.IH [OF tx_step_inv [OF Cons.prems(1)] True] Cons.prems(3)
      obtain pre ob post r where "ops = pre @ ObservePtt ob # post \<and> obs_value ob = Radio_OFF \<and>
          view_of (run tx_step (tx_step s op) pre) = Releasing l reason \<and>
          sup_release (run tx_step (tx_step s op) pre) = Some r \<and>
          boundary_accepts (rel_boundary r) (Some ob) \<and>
          sup_lease (tx_step (run tx_step (tx_step s op) pre) (ObservePtt ob)) = None"
        by auto
      then show ?thesis by (intro exI [of _ "op # pre"] exI) auto
    next
      case False
      obtain ob r where "op = ObservePtt ob" "obs_value ob = Radio_OFF" "sup_release s = Some r"
        "boundary_accepts (rel_boundary r) (Some ob)" "sup_lease (tx_step s op) = None"
        by (rule release_ends [OF Cons.prems(1,2) False])
      with Cons.prems(2) show ?thesis by (intro exI [of _ "[]"] exI) auto
    qed
  qed
  from this [OF inv] assms(2,3) show ?thesis by simp
qed

text \<open>
  The radio is keyed only by \<open>request_on\<close>, and only when the provider is ready, no lease, no
  owed release and no operation in flight exists, and the latest observation of the current
  provider generation says OFF; the WRITE_ON carries that generation and is the only effect.
\<close>

theorem write_on_guarded:
  assumes "supervisor_init clock ids w wt rt ct retries = Inr s0" and "s = run tx_step s0 ops"
    and "Attempt a \<in> set (tx_effects s op)" and "att_kind a = WRITE_ON"
  shows "\<exists>owner ob. op = RequestOn owner \<and> sup_ready s \<and> sup_lease s = None \<and>
    sup_release s = None \<and> sup_active s = None \<and> sup_obs s = Some ob \<and> obs_value ob = Radio_OFF \<and>
    sup_gen s = Some (obs_gen ob) \<and> att_gen a = obs_gen ob \<and> tx_effects s op = [Attempt a]"
proof -
  have inv: "sup_inv s" using run_inv_init [OF assms(1)] assms(2) by simp
  obtain t s' where ap: "apply_op s op = Inr (t, s')" and a: "Attempt a \<in> set (tr_effects t)"
    using assms(3) by (cases "apply_op s op") (auto simp: tx_effects_def)
  obtain owner where op: "op = RequestOn owner"
    using only_request_on_writes_on [OF ap] a assms(4) by (auto simp: no_write_on_def)
  have "\<forall>ob. sup_obs s = Some ob \<longrightarrow> sup_gen s = Some (obs_gen ob)"
    using inv by (auto simp: sup_inv_defs)
  with ap a op show ?thesis
    by (auto simp: tx_effects_def request_on_def Let_def result_simps start_attempt_def
        current_boundary_def tick_id_def tick_clock_def split: if_splits option.splits)
qed

text \<open>The leases the WRITE_ONs of a list of effects are for, in order.\<close>

fun keyed_leases :: "tx_effect list \<Rightarrow> string list" where
  "keyed_leases [] = []"
| "keyed_leases (Attempt a # es) =
     (if att_kind a = WRITE_ON then att_lease a # keyed_leases es else keyed_leases es)"
| "keyed_leases (CancelAttempt c # es) = keyed_leases es"

lemma keyed_leases_append [simp]: "keyed_leases (es @ fs) = keyed_leases es @ keyed_leases fs"
  by (induction es rule: keyed_leases.induct) auto

lemma keyed_leases_no_on: "no_write_on es \<Longrightarrow> keyed_leases es = []"
  by (induction es rule: keyed_leases.induct) (auto simp: no_write_on_def)

lemma keyed_leases_step:
  "keyed_leases (tx_effects s op) = [] \<or>
   keyed_leases (tx_effects s op) = [tc_ids (sup_cfg s) (sup_id_calls s)] \<and>
     sup_id_calls s < sup_id_calls (tx_step s op)"
proof (cases "apply_op s op")
  case (Inl e)
  then show ?thesis by (simp add: tx_effects_def)
next
  case (Inr p)
  obtain t s' where p: "p = (t, s')" by (cases p)
  with Inr have ap: "apply_op s op = Inr (t, s')" by simp
  then have e: "tx_effects s op = tr_effects t" "tx_step s op = s'"
    by (simp_all add: tx_effects_def tx_step_def)
  show ?thesis
  proof (cases "\<exists>owner. op = RequestOn owner")
    case True
    with ap show ?thesis
      unfolding e
      by (auto simp: request_on_def Let_def result_simps start_attempt_def
          current_boundary_def tick_id_def tick_clock_def next_id_def split: if_splits option.splits)
  next
    case False
    with ap e show ?thesis by (auto simp: keyed_leases_no_on only_request_on_writes_on)
  qed
qed

lemma keyed_leases_run:
  "sup_inv s \<Longrightarrow> \<exists>ns. keyed_leases (run_effects s ops) = map (tc_ids (sup_cfg s)) ns \<and>
     sorted_wrt (<) ns \<and> (\<forall>n \<in> set ns. sup_id_calls s \<le> n)"
proof (induction ops arbitrary: s)
  case Nil
  then show ?case by (intro exI [of _ "[]"]) simp
next
  case (Cons op ops)
  have step: "sup_cfg (tx_step s op) = sup_cfg s" "sup_id_calls s \<le> sup_id_calls (tx_step s op)"
    using tx_step_refines [OF Cons.prems, of op] by (auto simp: tx_mono_def)
  from Cons.IH [OF tx_step_inv [OF Cons.prems], of op] step obtain ns where
    ns: "keyed_leases (run_effects (tx_step s op) ops) = map (tc_ids (sup_cfg s)) ns"
    "sorted_wrt (<) ns" "\<forall>n \<in> set ns. sup_id_calls (tx_step s op) \<le> n" by auto
  from keyed_leases_step [of s op] show ?case
  proof
    assume "keyed_leases (tx_effects s op) = []"
    with ns step show ?thesis by (intro exI [of _ ns]) auto
  next
    assume "keyed_leases (tx_effects s op) = [tc_ids (sup_cfg s) (sup_id_calls s)] \<and>
       sup_id_calls s < sup_id_calls (tx_step s op)"
    with ns show ?thesis by (intro exI [of _ "sup_id_calls s # ns"]) auto
  qed
qed

text \<open>
  C7. With an id factory that never repeats an id, no lease is keyed twice: over any run, the
  leases of the emitted WRITE_ONs are pairwise distinct, whatever settlements, observations and
  provider changes happen in between (a lost WRITE_ON is never retried).
\<close>

theorem write_on_once_per_lease:
  assumes "supervisor_init clock ids w wt rt ct retries = Inr s0" and "inj ids"
  shows "distinct (keyed_leases (run_effects s0 ops))"
proof -
  obtain ns where "keyed_leases (run_effects s0 ops) = map ids ns" "sorted_wrt (<) ns"
    using keyed_leases_run [OF sup_inv_init [OF assms(1)], of ops] init_cfg(1) [OF assms(1)] by auto
  with assms(2) show ?thesis
    by (auto simp: distinct_map strict_sorted_iff intro: inj_on_subset)
qed

text \<open>
  C37. An owed OFF is never stuck: when the provider is ready and idle, the release has a retry
  time, and the first \<open>tick\<close> at or after it emits a WRITE_OFF of the current generation for the
  lease that is being released.
\<close>

theorem owed_off_is_serviced:
  assumes "supervisor_init clock ids w wt rt ct retries = Inr s0" and "s = run tx_step s0 ops"
    and "sup_release s = Some r" and "sup_ready s" and "sup_active s = None"
  shows "\<exists>d l g. rel_retry_due r = Some d \<and> sup_lease s = Some l \<and> sup_gen s = Some g \<and>
    (clock_now s < d \<or> (\<exists>a. tx_effects s Tick = [Attempt a] \<and> att_kind a = WRITE_OFF \<and>
       att_lease a = le_id l \<and> att_gen a = g))"
proof -
  let ?s1 = "(tick_clock s)\<lparr>sup_driven := True\<rparr>"
  have inv: "sup_inv s" using run_inv_init [OF assms(1)] assms(2) by simp
  obtain d l g where d: "rel_retry_due r = Some d" "sup_lease s = Some l" "sup_gen s = Some g"
    using inv assms(3,5) by (auto simp: sup_inv_defs)
  have core: "sup_core ?s1" using inv by (simp add: sup_inv_defs tick_clock_def)
  have f: "sup_release ?s1 = Some r" "sup_ready ?s1" "sup_active ?s1 = None"
    using assms(3-5) by (simp_all add: tick_clock_def)
  have "\<exists>a. tx_effects s Tick = [Attempt a] \<and> att_kind a = WRITE_OFF \<and>
       att_lease a = le_id l \<and> att_gen a = g" if "\<not> clock_now s < d"
    using service_release_start(1) [OF core f, of False "clock_now s"] d that assms(3)
    by (auto simp: tx_effects_def tick_def tx_result_def Let_def write_off_attempt_def tick_clock_def)
  with d show ?thesis by blast
qed

text \<open>A held lease carries its acquisition boundary and the deadline that follows from it.\<close>

definition deadline_ok :: "time \<Rightarrow> lease_view \<Rightarrow> bool" where
  "deadline_ok t v \<longleftrightarrow>
     (\<forall>l d c. v = Held l d c \<longrightarrow> (\<exists>b. c = Some b \<and> d = Some (bd_not_before b + t)))"

lemma deadline_ok_step:
  "lease_step (Some t) now v op v' \<Longrightarrow> t \<noteq> 0 \<Longrightarrow> deadline_ok t v \<Longrightarrow> deadline_ok t v'"
  by (erule lease_step.cases) (auto simp: deadline_ok_def)

lemma deadline_ok_run:
  assumes "sup_inv s" and "tc_watchdog (sup_cfg s) = Some t" and "t \<noteq> 0" and "deadline_ok t (view_of s)"
  shows "deadline_ok t (view_of (run tx_step s ops))"
proof -
  have "deadline_ok t (view_of (run tx_step s ops)) \<and> sup_cfg (run tx_step s ops) = sup_cfg s"
    using assms(2-4)
    by (intro tx.run_property [OF assms(1), where P = "\<lambda>u. deadline_ok t (view_of u) \<and> sup_cfg u = sup_cfg s"])
       (auto dest!: tx_step_refines simp: tx_mono_def intro: deadline_ok_step)
  then show ?thesis ..
qed

lemma tick_fires:
  assumes inv: "sup_inv s" and l: "sup_lease s = Some l" and none: "sup_release s = None"
    and d: "sup_deadline s = Some d" "d \<le> clock_now s"
  shows "view_of (tx_step s Tick) = Releasing l BACKEND_MAX_KEY_DOWN"
    and "sup_ready s \<Longrightarrow> sup_active s = None \<Longrightarrow>
      \<exists>a. tx_effects s Tick = [Attempt a] \<and> att_kind a = WRITE_OFF \<and> att_lease a = le_id l"
proof -
  let ?now = "clock_now s"
  let ?s1 = "(tick_clock s)\<lparr>sup_driven := True\<rparr>"
  have core: "sup_core ?s1" using inv by (simp add: sup_inv_defs tick_clock_def)
  obtain s2 r where s2: "begin_release BACKEND_MAX_KEY_DOWN ?now None ?s1 = Inr s2" "sup_core s2"
      "sup_release s2 = Some r" "rel_retry_due r = Some ?now" "sup_active s2 = sup_active s"
      "sup_lease s2 = Some l" "sup_ready s2 = sup_ready s"
    by (rule begin_release_core [OF core, of BACKEND_MAX_KEY_DOWN ?now None])
       (use l none in \<open>auto simp: tick_clock_def\<close>)
  have w: "tick_watchdog s = Inr (case sup_active s of Some a \<Rightarrow> cancel_active a ?now s2 | None \<Rightarrow> ([], s2))"
    using s2(1) l none d by (simp add: tick_watchdog_def Let_def split: option.split)
  have v2: "view_of s2 = Releasing l BACKEND_MAX_KEY_DOWN"
    using begin_release_frame(1) [OF s2(1), of l] l by (simp add: tick_clock_def)
  obtain t s' where t: "tick s = Inr (t, s')"
    using safe_tick [OF inv] by (auto simp: safe_act_def split: sum.splits)
  show "view_of (tx_step s Tick) = Releasing l BACKEND_MAX_KEY_DOWN"
  proof (rule tick_cases [OF t])
    fix es s3
    assume e: "tick_watchdog s = Inr (es, s3)"
      and r: "(if es = [] then service_release False (Some ?now) s3 else Inr (es, s3)) = Inr (tr_effects t, s')"
    from e w have "view_of s3 = view_of s2"
      by (auto split: option.splits dest: cancel_active_frame(1))
    moreover from r have "view_of s' = view_of s3"
      by (auto split: if_splits dest: service_release_frame(1))
    ultimately show ?thesis using v2 t by (simp add: tx_step_def)
  qed
  assume "sup_ready s" "sup_active s = None"
  with service_release_start(1) [OF s2(2,3), of False ?now] s2 w
  show "\<exists>a. tx_effects s Tick = [Attempt a] \<and> att_kind a = WRITE_OFF \<and> att_lease a = le_id l"
    by (auto simp: tx_effects_def tick_split tx_result_def write_off_attempt_def)
qed

text \<open>
  C8. The watchdog bounds a key-down: with a watchdog of \<open>t\<close> seconds, a held lease carries the
  deadline \<open>t\<close> seconds after the acquisition, and the first \<open>tick\<close> at or after it begins the
  release \<open>BACKEND_MAX_KEY_DOWN\<close> of that lease; with a ready, idle provider the same \<open>tick\<close>
  already emits the WRITE_OFF.
\<close>

theorem watchdog_bounds_key_down:
  assumes "supervisor_init clock ids (Some (Finite t)) wt rt ct retries = Inr s0"
    and "s = run tx_step s0 ops" and "sup_lease s = Some l" and "sup_release s = None"
  shows "\<exists>b. sup_acq s = Some b \<and> sup_deadline s = Some (bd_not_before b + t) \<and>
    (clock_now s < bd_not_before b + t \<or>
     view_of (tx_step s Tick) = Releasing l BACKEND_MAX_KEY_DOWN \<and>
     (\<not> sup_ready s \<or> sup_active s \<noteq> None \<or>
      (\<exists>a. tx_effects s Tick = [Attempt a] \<and> att_kind a = WRITE_OFF \<and> att_lease a = le_id l)))"
proof -
  have inv: "sup_inv s" using run_inv_init [OF assms(1)] assms(2) by simp
  have "deadline_ok t (view_of s)"
    unfolding assms(2) using init_cfg(2,3,5) [OF assms(1)]
    by (intro deadline_ok_run sup_inv_init [OF assms(1)]) (auto simp: deadline_ok_def)
  then obtain b where b: "sup_acq s = Some b" "sup_deadline s = Some (bd_not_before b + t)"
    using assms(3,4) by (auto simp: deadline_ok_def view_of_def)
  with tick_fires [OF inv assms(3,4) b(2)] show ?thesis by force
qed

text \<open>Calls that name a provider generation.\<close>

fun names_generation :: "int \<Rightarrow> tx_op \<Rightarrow> bool" where
  "names_generation n (ReplaceProvider g ready) \<longleftrightarrow> g = n \<and> 0 \<le> n"
| "names_generation n (SetProviderReady g ready) \<longleftrightarrow> g = n"
| "names_generation n (ObservePtt ob) \<longleftrightarrow> obs_gen ob = n"
| "names_generation n (SettleAttempt i g ok err) \<longleftrightarrow> g = n"
| "names_generation n _ \<longleftrightarrow> False"

text \<open>
  Generations fence late messages for good: after a provider has been replaced, every later
  settlement, observation, readiness change or replacement that names an older generation is
  answered STALE, without an effect and without a change of state, whatever happened in between.
\<close>

theorem old_generation_is_fenced:
  assumes "supervisor_init clock ids w wt rt ct retries = Inr s0"
    and "sup_gen (run tx_step s0 ops1) = Some g" and "n < g" and "names_generation n op"
  shows "\<exists>t. apply_op (run tx_step s0 (ops1 @ ops2)) op = Inr (t, run tx_step s0 (ops1 @ ops2)) \<and>
    tr_outcome t = Out_STALE \<and> tr_effects t = []"
proof -
  let ?s = "run tx_step s0 (ops1 @ ops2)"
  have "sup_epoch (run tx_step s0 ops1) \<le> sup_epoch ?s"
    using tx.run_epoch [OF run_inv_init [OF assms(1)], of ops1 ops2] by simp
  then have "sup_gen ?s = None \<and> n < 0 \<or> (\<exists>g'. sup_gen ?s = Some g' \<and> n < g')"
    using assms(2,3) by (auto simp: sup_epoch_def split: option.splits)
  with assms(4) show ?thesis
    by (cases op) (auto simp: replace_provider_def set_provider_ready_def observe_ptt_def
        settle_attempt_def tx_result_def split: option.split)
qed

text \<open>
  The retry ladder: when the WRITE_OFF of an owed release fails, the release stays owed and
  faulted, keeps its attempt count, and is due again after the delay its schedule gives for the
  number of attempts made, the last delay being repeated for ever.
\<close>

theorem failed_off_climbs_the_ladder:
  assumes "supervisor_init clock ids w wt rt ct retries = Inr s0" and "s = run tx_step s0 ops"
    and "sup_release s = Some r" and "0 < rel_attempts r" and "sup_active s = Some a"
    and "att_kind a = WRITE_OFF" and "s' = tx_step s (SettleAttempt (att_id a) (att_gen a) False err)"
  shows "\<exists>r'. sup_release s' = Some r' \<and> rel_attempts r' = rel_attempts r \<and>
    rel_retry_due r' = Some (clock (Suc (sup_clock_calls s)) +
      finite_value (retries ! min (nat (rel_attempts r) - 1) (length retries - 1))) \<and>
    sup_lease s' = sup_lease s \<and> sup_active s' = None \<and> sn_phase (snapshot s') = Phase_FAULTED"
proof -
  have inv: "sup_inv s" using run_inv_init [OF assms(1)] assms(2) by simp
  then obtain l where g: "sup_gen s = Some (att_gen a)" and l: "sup_lease s = Some l"
    using assms(3,5) by (auto simp: sup_inv_defs)
  have cfg: "sup_cfg s = sup_cfg s0"
    using run_cfg [OF sup_inv_init [OF assms(1)], of ops] assms(2) by simp
  have c: "tc_retries (sup_cfg s) = map finite_value retries" "retries \<noteq> []" "tc_clock (sup_cfg s) = clock"
    using assms(1) unfolding cfg by (auto simp: supervisor_init_def split: if_splits)
  have i: "nat (min (max (rel_attempts r - 1) 0) (int (length retries) - 1))
      = min (nat (rel_attempts r) - 1) (length retries - 1)"
    using assms(4) c(2) by (auto simp: min_def nat_diff_distrib)
  have lt: "min (nat (rel_attempts r) - 1) (length retries - 1) < length retries"
    using c(2) by (cases retries) auto
  let ?e = "or_default err ''write_off_failed''"
  let ?s1 = "(tick_clock s)\<lparr>sup_active := None, sup_cancel := None\<rparr>"
  let ?r = "r\<lparr>rel_retry_due := Some (clock (Suc (sup_clock_calls s)) +
      finite_value (retries ! min (nat (rel_attempts r) - 1) (length retries - 1))),
      rel_error := Some ?e\<rparr>"
  let ?s2 = "(tick_clock ?s1)\<lparr>sup_release := Some ?r\<rparr>"
  have f: "sup_lease ?s1 = sup_lease s" "sup_release ?s1 = Some r" "sup_cfg ?s1 = sup_cfg s"
    "sup_clock_calls ?s1 = Suc (sup_clock_calls s)"
    using assms(3) by (simp_all add: tick_clock_def)
  have "schedule_retry ?e ?s1 = Inr ?s2"
    using f c i lt by (simp add: schedule_retry_def Let_def clock_now_def)
  then have "settle_attempt (att_id a) (att_gen a) False err s = tx_result Out_APPLIED [] ?s2"
    using assms(4-6) g l f by (simp add: settle_attempt_def Let_def)
  then have "s' = ?s2"
    unfolding assms(7) by (simp add: tx_step_def tx_result_def)
  moreover have "truthy (Some ?e)" by (cases err) (auto simp: or_default_def truthy_def)
  ultimately show ?thesis
    by (simp add: tick_clock_def snapshot_def current_phase_def)
qed

section \<open>A concrete run\<close>

text \<open>A supervisor with a clock that advances by a second per call and distinct ids.\<close>

definition demo_ids :: "nat \<Rightarrow> string" where
  "demo_ids n = replicate n CHR ''i''"

definition demo_start :: supervisor where
  "demo_start = \<lparr>
     sup_cfg = \<lparr>tc_clock = of_nat, tc_ids = demo_ids, tc_watchdog = Some 180,
                tc_write_timeout = 2, tc_read_timeout = 2, tc_cancel_timeout = 1,
                tc_retries = [1, 5]\<rparr>,
     sup_clock_calls = 0, sup_id_calls = 0, sup_gen = None, sup_ready = False,
     sup_obs = None, sup_lease = None, sup_acq = None, sup_release = None,
     sup_active = None, sup_cancel = None, sup_deadline = None, sup_driven = False\<rparr>"

lemma demo_init:
  "supervisor_init of_nat demo_ids (Some (Finite 180)) (Finite 2) (Finite 2)
     (Finite 1) [Finite 1, Finite 5] = Inr demo_start"
  by (simp add: demo_start_def supervisor_init_def not_positive_def not_nonnegative_def)

definition demo_owner :: tx_owner where
  "demo_owner = \<lparr>own_source = Src_SDK, own_session = ''s''\<rparr>"

definition demo_off :: "int \<Rightarrow> time \<Rightarrow> tx_op" where
  "demo_off n t = ObservePtt \<lparr>obs_value = Radio_OFF, obs_gen = 0, obs_seq = n, obs_at = t\<rparr>"

definition demo_idle :: "tx_op list" where
  "demo_idle = [ReplaceProvider 0 True, demo_off 1 0]"

definition demo_keyed :: "tx_op list" where
  "demo_keyed = demo_idle @ [RequestOn demo_owner]"

definition demo_releasing :: "tx_op list" where
  "demo_releasing = demo_keyed @ [SettleAttempt ''i'' 0 True None, SettleAttempt ''ii'' 0 True None,
     EmergencyRelease APP_SHUTDOWN]"

definition demo_failed :: "tx_op list" where
  "demo_failed = demo_releasing @ [SettleAttempt ''iii'' 0 False None]"

definition demo_lease :: tx_lease where
  "demo_lease = \<lparr>le_id = [], le_owner = demo_owner\<rparr>"

theorem tx_calls_total_witness:
  "\<exists>t s'. apply_op (run tx_step demo_start demo_keyed) Tick = Inr (t, s') \<and> sup_inv s'"
  using tx_calls_total [OF demo_init, of Tick demo_keyed] by simp

theorem tx_refines_lease_machine_witness:
  "lease_step (Some 180) (clock_now (run tx_step demo_start demo_idle)) Idle (RequestOn demo_owner)
     (view_of (run tx_step demo_start demo_keyed)) \<and>
   view_of (run tx_step demo_start demo_keyed) \<noteq> Idle"
proof -
  have "view_of (run tx_step demo_start demo_idle) = Idle" by code_simp
  then show ?thesis
    using tx_refines_lease_machine [OF demo_init refl, of demo_idle "RequestOn demo_owner"]
    by (simp add: demo_keyed_def) (simp add: demo_idle_def, code_simp)
qed

theorem durable_off_witness:
  "\<exists>pre ob post r. [SettleAttempt ''iii'' 0 True None, demo_off 2 100] = pre @ ObservePtt ob # post \<and>
     obs_value ob = Radio_OFF \<and>
     view_of (run tx_step demo_start (demo_releasing @ pre)) = Releasing demo_lease APP_SHUTDOWN \<and>
     sup_release (run tx_step demo_start (demo_releasing @ pre)) = Some r \<and>
     boundary_accepts (rel_boundary r) (Some ob) \<and>
     sup_lease (run tx_step demo_start (demo_releasing @ pre @ [ObservePtt ob])) = None"
proof (rule durable_off [OF demo_init])
  show "view_of (run tx_step demo_start demo_releasing) = Releasing demo_lease APP_SHUTDOWN"
    by code_simp
  show "view_of (run tx_step demo_start
      (demo_releasing @ [SettleAttempt ''iii'' 0 True None, demo_off 2 100])) \<noteq>
      Releasing demo_lease APP_SHUTDOWN"
    by code_simp
qed

theorem write_on_guarded_witness:
  "\<exists>a. tx_effects (run tx_step demo_start demo_idle) (RequestOn demo_owner) = [Attempt a] \<and>
     att_kind a = WRITE_ON \<and> att_gen a = 0"
proof -
  let ?s = "run tx_step demo_start demo_idle"
  let ?a = "\<lparr>att_id = ''i'', att_kind = WRITE_ON, att_gen = 0, att_lease = [], att_started = 2,
    att_timeout = 2\<rparr>"
  have e: "Attempt ?a \<in> set (tx_effects ?s (RequestOn demo_owner))" by code_simp
  then show ?thesis
    using write_on_guarded [OF demo_init refl e] by auto
qed

theorem write_on_once_per_lease_witness:
  "distinct (keyed_leases (run_effects demo_start
     (demo_releasing @ [demo_off 2 100, SettleAttempt ''iii'' 0 True None, RequestOn demo_owner]))) \<and>
   keyed_leases (run_effects demo_start
     (demo_releasing @ [demo_off 2 100, SettleAttempt ''iii'' 0 True None, RequestOn demo_owner]))
     = [[], ''iiii'']"
proof
  have "inj demo_ids" by (rule injI) (metis demo_ids_def length_replicate)
  then show "distinct (keyed_leases (run_effects demo_start
     (demo_releasing @ [demo_off 2 100, SettleAttempt ''iii'' 0 True None, RequestOn demo_owner])))"
    by (rule write_on_once_per_lease [OF demo_init])
  show "keyed_leases (run_effects demo_start
     (demo_releasing @ [demo_off 2 100, SettleAttempt ''iii'' 0 True None, RequestOn demo_owner]))
     = [[], ''iiii'']"
    by code_simp
qed

theorem owed_off_is_serviced_witness:
  "\<exists>r d. sup_release (run tx_step demo_start demo_failed) = Some r \<and> rel_retry_due r = Some d"
proof -
  let ?s = "run tx_step demo_start demo_failed"
  have "sup_release ?s = Some (the (sup_release ?s))" "sup_ready ?s" "sup_active ?s = None"
    by code_simp+
  from owed_off_is_serviced [OF demo_init refl this] this(1) show ?thesis by blast
qed

theorem watchdog_bounds_key_down_witness:
  "\<exists>b. sup_acq (run tx_step demo_start demo_keyed) = Some b \<and>
     sup_deadline (run tx_step demo_start demo_keyed) = Some (bd_not_before b + 180)"
proof -
  let ?s = "run tx_step demo_start demo_keyed"
  have "sup_lease ?s = Some demo_lease" "sup_release ?s = None"
    by code_simp+
  from watchdog_bounds_key_down [OF demo_init refl this] show ?thesis by blast
qed

theorem old_generation_is_fenced_witness:
  "\<exists>t. apply_op (run tx_step demo_start ((demo_keyed @ [ReplaceProvider 1 True]) @ [Tick]))
       (SettleAttempt ''i'' 0 True None) =
       Inr (t, run tx_step demo_start ((demo_keyed @ [ReplaceProvider 1 True]) @ [Tick])) \<and>
     tr_outcome t = Out_STALE \<and> tr_effects t = []"
proof (rule old_generation_is_fenced [OF demo_init])
  show "sup_gen (run tx_step demo_start (demo_keyed @ [ReplaceProvider 1 True])) = Some 1"
    by code_simp
qed simp_all

theorem failed_off_climbs_the_ladder_witness:
  "\<exists>r'. sup_release (run tx_step demo_start demo_failed) = Some r' \<and> rel_attempts r' = 1 \<and>
     sn_phase (snapshot (run tx_step demo_start demo_failed)) = Phase_FAULTED"
proof -
  let ?s = "run tx_step demo_start demo_releasing"
  let ?r = "the (sup_release ?s)" and ?a = "the (sup_active ?s)"
  have r: "sup_release ?s = Some ?r" "0 < rel_attempts ?r" "sup_active ?s = Some ?a" "att_kind ?a = WRITE_OFF"
    by code_simp+
  have "att_id ?a = ''iii''" "att_gen ?a = 0" "rel_attempts ?r = 1" by code_simp+
  with failed_off_climbs_the_ladder [OF demo_init refl r refl, of None] show ?thesis
    by (auto simp: demo_failed_def)
qed

end
