(* ===== verification/ManagedTx.thy ===== *)
theory ManagedTx
  imports Prelude
begin

text \<open>
  \<open>runtime/managed_tx_state.py\<close>: the pure reducer of managed transmit intent and release debt.

  \<open>reduce_managed_tx\<close> maps a state and an event to the next state, an outcome and the declared
  effects. Every constructor call and every \<open>dataclasses.replace\<close> runs \<open>__post_init__\<close> again, so
  the model runs the same check (\<open>mk_intent\<close>, \<open>mk_state\<close>) at the same places and returns its
  \<open>ValueError\<close>; the lemmas show which of these can be reached.
\<close>

section \<open>Data\<close>

datatype intent_kind = Intent_RX | Intent_PTT | Intent_TRANSMIT

datatype managed_outcome = M_ACCEPTED | M_REJECTED | M_APPLIED | M_STALE

datatype release_plan = PTT_RELEASE | FORCE_RELEASE

datatype actuation_operation = PTT_ON | TRANSMIT_ON | FORCE_RECEIVE

datatype abort_operation = STOP_CW | STOP_TUNE

datatype actuation_result = A_ACCEPTED | A_REJECTED | A_UNCERTAIN

fun result_value :: "actuation_result \<Rightarrow> string" where
  "result_value A_ACCEPTED = ''accepted''"
| "result_value A_REJECTED = ''rejected''"
| "result_value A_UNCERTAIN = ''uncertain''"

record intent =
  in_kind :: intent_kind
  in_owner :: "string option"

definition no_owner :: "string option \<Rightarrow> bool" where
  "no_owner tok \<longleftrightarrow> tok = None \<or> tok = Some []"

definition mk_intent :: "intent_kind \<Rightarrow> string option \<Rightarrow> intent result" where
  "mk_intent kind tok =
     (if kind = Intent_PTT \<and> no_owner tok then Inl ValueError
      else if kind \<noteq> Intent_PTT \<and> tok \<noteq> None then Inl ValueError
      else Inr \<lparr>in_kind = kind, in_owner = tok\<rparr>)"

definition intent_rx :: intent where
  "intent_rx = \<lparr>in_kind = Intent_RX, in_owner = None\<rparr>"

definition intent_ptt :: "string \<Rightarrow> intent result" where
  "intent_ptt tok = mk_intent Intent_PTT (Some tok)"

record effect_token =
  tok_gen :: int
  tok_epoch :: int
  tok_attempt :: string

record managed_effect =
  eff_op :: actuation_operation
  eff_token :: effect_token

record actuation_diagnostic =
  dg_op :: actuation_operation
  dg_result :: actuation_result
  dg_attempt :: string

record abort_error =
  ab_op :: abort_operation
  ab_error :: string

record managed_state =
  ms_intent :: intent
  ms_plan :: "release_plan option"
  ms_started :: "time option"
  ms_tot :: "time option"
  ms_epoch :: int
  ms_pending :: "managed_effect option"
  ms_abort_token :: "effect_token option"
  ms_last :: "actuation_diagnostic option"
  ms_error :: "string option"
  ms_aborts :: "abort_error list"

definition state_ok :: "managed_state \<Rightarrow> bool" where
  "state_ok st \<longleftrightarrow>
     (let active = in_kind (ms_intent st) \<noteq> Intent_RX in
      \<not> (active \<and> (ms_plan st = None \<or> ms_started st = None)) \<and>
      \<not> (\<not> active \<and> (ms_started st \<noteq> None \<or> ms_tot st \<noteq> None)))"

definition mk_state :: "managed_state \<Rightarrow> managed_state result" where
  "mk_state st = (if state_ok st then Inr st else Inl ValueError)"

definition managed_start :: managed_state where
  "managed_start = \<lparr>ms_intent = intent_rx, ms_plan = None, ms_started = None, ms_tot = None,
     ms_epoch = 0, ms_pending = None, ms_abort_token = None, ms_last = None, ms_error = None,
     ms_aborts = []\<rparr>"

definition release_required :: "managed_state \<Rightarrow> bool" where
  "release_required st \<longleftrightarrow> ms_plan st \<noteq> None"

datatype managed_event =
    PttDown string int string time "time option"
  | PttUp string int string
  | TransmitOn int string time "time option"
  | ForceOff "int option" string
  | RetryForceReceive int string
  | ActuationSettled effect_token actuation_operation actuation_result "string option"
  | AbortFailed effect_token abort_operation string

record managed_transition =
  mt_state :: managed_state
  mt_outcome :: managed_outcome
  mt_effects :: "managed_effect list"

section \<open>The reducer\<close>

text \<open>
  \<open>submission_refused_for_release_debt\<close> reads its argument with \<open>getattr\<close>: \<open>None\<close> stands for a
  missing attribute.
\<close>

definition submission_refused_for_release_debt ::
  "managed_outcome option \<Rightarrow> managed_state option \<Rightarrow> bool" where
  "submission_refused_for_release_debt outcome state \<longleftrightarrow>
     outcome = Some M_REJECTED \<and>
     (case state of None \<Rightarrow> False
      | Some st \<Rightarrow> release_required st \<and> in_kind (ms_intent st) = Intent_RX)"

definition mk_token :: "managed_state \<Rightarrow> int \<Rightarrow> string \<Rightarrow> int option \<Rightarrow> effect_token" where
  "mk_token st gen attempt epoch =
     \<lparr>tok_gen = gen, tok_epoch = (case epoch of None \<Rightarrow> ms_epoch st | Some e \<Rightarrow> e),
      tok_attempt = attempt\<rparr>"

definition to_transition ::
  "managed_outcome \<Rightarrow> managed_effect list \<Rightarrow> managed_state \<Rightarrow> managed_transition" where
  "to_transition outcome effects st =
     \<lparr>mt_state = st, mt_outcome = outcome, mt_effects = effects\<rparr>"

text \<open>\<open>_on\<close> reads the generation, the attempt and the two times of its event.\<close>

definition managed_on_intent ::
  "managed_state \<Rightarrow> int \<Rightarrow> string \<Rightarrow> time \<Rightarrow> time option \<Rightarrow> intent \<Rightarrow> actuation_operation
   \<Rightarrow> managed_transition result" where
  "managed_on_intent st gen attempt started tot intent operation =
     (let epoch = ms_epoch st + 1;
          token = mk_token st gen attempt (Some epoch);
          effect = \<lparr>eff_op = operation, eff_token = token\<rparr>
      in bind_result (mk_state (st\<lparr>ms_intent := intent, ms_plan := Some PTT_RELEASE,
             ms_started := Some started, ms_tot := tot, ms_epoch := epoch,
             ms_pending := Some effect, ms_abort_token := None, ms_error := None\<rparr>))
           (\<lambda>st'. Inr (to_transition M_ACCEPTED [effect] st')))"

definition error_or :: "string option \<Rightarrow> string \<Rightarrow> string" where
  "error_or e d = (case e of None \<Rightarrow> d | Some x \<Rightarrow> if x = [] then d else x)"

definition settle_actuation ::
  "managed_state \<Rightarrow> effect_token \<Rightarrow> actuation_operation \<Rightarrow> actuation_result \<Rightarrow> string option
   \<Rightarrow> managed_transition result" where
  "settle_actuation st token operation res err =
     (if (case ms_pending st of None \<Rightarrow> True
          | Some p \<Rightarrow> token \<noteq> eff_token p \<or> operation \<noteq> eff_op p)
      then Inr (to_transition M_STALE [] st)
      else
        let diagnostic = \<lparr>dg_op = operation, dg_result = res, dg_attempt = tok_attempt token\<rparr> in
        bind_result (mk_state (st\<lparr>ms_pending := None, ms_last := Some diagnostic\<rparr>)) (\<lambda>settled.
        bind_result
          (if operation = FORCE_RECEIVE then
             mk_state (settled\<lparr>
               ms_plan := (if res = A_ACCEPTED then None else ms_plan settled),
               ms_error := (if res = A_ACCEPTED then None else Some (error_or err (result_value res)))\<rparr>)
           else if res = A_ACCEPTED then mk_state (settled\<lparr>ms_error := None\<rparr>)
           else mk_state (settled\<lparr>ms_intent := intent_rx, ms_plan := Some FORCE_RELEASE,
               ms_started := None, ms_tot := None,
               ms_error := Some (error_or err (result_value res))\<rparr>))
          (\<lambda>st'. Inr (to_transition M_APPLIED [] st'))))"

fun reduce_managed_tx :: "managed_state \<Rightarrow> managed_event \<Rightarrow> managed_transition result" where
  "reduce_managed_tx st (PttDown owner gen attempt started tot) =
     bind_result (intent_ptt owner) (\<lambda>wanted.
       if ms_intent st = wanted then Inr (to_transition M_ACCEPTED [] st)
       else if in_kind (ms_intent st) \<noteq> Intent_RX \<or> release_required st
       then Inr (to_transition M_REJECTED [] st)
       else managed_on_intent st gen attempt started tot wanted PTT_ON)"
| "reduce_managed_tx st (TransmitOn gen attempt started tot) =
     (if in_kind (ms_intent st) = Intent_TRANSMIT then Inr (to_transition M_ACCEPTED [] st)
      else if in_kind (ms_intent st) \<noteq> Intent_RX \<or> release_required st
      then Inr (to_transition M_REJECTED [] st)
      else bind_result (mk_intent Intent_TRANSMIT None) (\<lambda>wanted.
        managed_on_intent st gen attempt started tot wanted TRANSMIT_ON))"
| "reduce_managed_tx st (PttUp owner gen attempt) =
     bind_result (intent_ptt owner) (\<lambda>wanted.
       if ms_intent st \<noteq> wanted then Inr (to_transition M_REJECTED [] st)
       else
         let effect = \<lparr>eff_op = FORCE_RECEIVE, eff_token = mk_token st gen attempt None\<rparr> in
         bind_result (mk_state (st\<lparr>ms_intent := intent_rx, ms_started := None, ms_tot := None,
             ms_pending := Some effect\<rparr>))
           (\<lambda>st'. Inr (to_transition M_ACCEPTED [effect] st')))"
| "reduce_managed_tx st (RetryForceReceive gen attempt) =
     (if in_kind (ms_intent st) \<noteq> Intent_RX \<or> ms_plan st = None \<or> ms_pending st \<noteq> None
      then Inr (to_transition M_REJECTED [] st)
      else
        let epoch = ms_epoch st + 1;
            effect = \<lparr>eff_op = FORCE_RECEIVE, eff_token = mk_token st gen attempt (Some epoch)\<rparr>
        in bind_result (mk_state (st\<lparr>ms_epoch := epoch, ms_pending := Some effect\<rparr>))
             (\<lambda>st'. Inr (to_transition M_ACCEPTED [effect] st')))"
| "reduce_managed_tx st (ForceOff gen attempt) =
     (let epoch = ms_epoch st + 1;
          force = map_option (\<lambda>g. \<lparr>eff_op = FORCE_RECEIVE,
                                    eff_token = mk_token st g attempt (Some epoch)\<rparr>) gen
      in bind_result (mk_state (st\<lparr>ms_intent := intent_rx, ms_plan := Some FORCE_RELEASE,
             ms_started := None, ms_tot := None, ms_epoch := epoch, ms_pending := force,
             ms_abort_token := map_option eff_token force, ms_aborts := []\<rparr>))
           (\<lambda>st'. Inr (to_transition M_ACCEPTED (case force of None \<Rightarrow> [] | Some e \<Rightarrow> [e]) st')))"
| "reduce_managed_tx st (ActuationSettled token operation res err) =
     settle_actuation st token operation res err"
| "reduce_managed_tx st (AbortFailed token operation err) =
     (if Some token \<noteq> ms_abort_token st then Inr (to_transition M_STALE [] st)
      else bind_result (mk_state (st\<lparr>ms_aborts := ms_aborts st @ [\<lparr>ab_op = operation, ab_error = err\<rparr>]\<rparr>))
             (\<lambda>st'. Inr (to_transition M_APPLIED [] st')))"

definition managed_step :: "managed_state \<Rightarrow> managed_event \<Rightarrow> managed_state" where
  "managed_step st ev = (case reduce_managed_tx st ev of Inl _ \<Rightarrow> st | Inr t \<Rightarrow> mt_state t)"

definition managed_effects :: "managed_state \<Rightarrow> managed_event \<Rightarrow> managed_effect list" where
  "managed_effects st ev = (case reduce_managed_tx st ev of Inl _ \<Rightarrow> [] | Inr t \<Rightarrow> mt_effects t)"

fun_cases reduce_PttDownE: "reduce_managed_tx st (PttDown owner gen attempt started tot) = Inr t"
fun_cases reduce_PttUpE: "reduce_managed_tx st (PttUp owner gen attempt) = Inr t"

section \<open>Invariant\<close>

text \<open>
  Besides the dataclass checks: a PTT intent names an owner, a latched intent owes a PTT release, the pending
  effect belongs to the current epoch, and an ON is pending only while its intent is held.
\<close>

definition managed_inv :: "managed_state \<Rightarrow> bool" where
  "managed_inv st \<longleftrightarrow> state_ok st \<and> 0 \<le> ms_epoch st \<and>
     (in_kind (ms_intent st) = Intent_PTT \<longleftrightarrow> \<not> no_owner (in_owner (ms_intent st))) \<and>
     (in_kind (ms_intent st) \<noteq> Intent_PTT \<longrightarrow> in_owner (ms_intent st) = None) \<and>
     (\<forall>p. ms_pending st = Some p \<longrightarrow> tok_epoch (eff_token p) = ms_epoch st \<and> ms_plan st \<noteq> None \<and>
        (eff_op p = FORCE_RECEIVE \<longleftrightarrow> in_kind (ms_intent st) = Intent_RX)) \<and>
     (\<forall>k. ms_abort_token st = Some k \<longrightarrow> tok_epoch k \<le> ms_epoch st)"

lemmas managed_defs = state_ok_def mk_state_def mk_intent_def intent_ptt_def intent_rx_def
  mk_token_def to_transition_def managed_on_intent_def settle_actuation_def release_required_def
  no_owner_def Let_def

lemma managed_inv_start: "managed_inv managed_start"
  by (simp add: managed_inv_def managed_start_def managed_defs)

text \<open>The events whose owner token the \<open>ManagedTxIntent\<close> constructor refuses.\<close>

fun ownerless :: "managed_event \<Rightarrow> bool" where
  "ownerless (PttDown owner gen attempt started tot) \<longleftrightarrow> owner = []"
| "ownerless (PttUp owner gen attempt) \<longleftrightarrow> owner = []"
| "ownerless _ \<longleftrightarrow> False"

text \<open>A call that returns a state with the invariant, at an epoch no older.\<close>

definition managed_good :: "managed_state \<Rightarrow> managed_transition result \<Rightarrow> bool" where
  "managed_good st m \<longleftrightarrow> (case m of Inl _ \<Rightarrow> False
     | Inr t \<Rightarrow> managed_inv (mt_state t) \<and> ms_epoch st \<le> ms_epoch (mt_state t))"

lemma good_to_transition [simp]:
  "managed_good st (Inr (to_transition outc es st')) \<longleftrightarrow> managed_inv st' \<and> ms_epoch st \<le> ms_epoch st'"
  by (simp add: managed_good_def to_transition_def)

lemma good_mk_state:
  "managed_inv st' \<Longrightarrow> ms_epoch st \<le> ms_epoch st' \<Longrightarrow>
   managed_good st (bind_result (mk_state st') (\<lambda>x. Inr (to_transition outc es x)))"
  by (simp add: mk_state_def managed_inv_def managed_good_def to_transition_def)

lemma good_on:
  assumes "managed_inv st" and "in_kind wanted \<noteq> Intent_RX" and "operation \<noteq> FORCE_RECEIVE"
    and "in_kind wanted = Intent_PTT \<longleftrightarrow> \<not> no_owner (in_owner wanted)"
    and "in_kind wanted \<noteq> Intent_PTT \<longrightarrow> in_owner wanted = None"
  shows "managed_good st (managed_on_intent st gen attempt started tot wanted operation)"
  using assms unfolding managed_on_intent_def Let_def
  by (intro good_mk_state) (auto simp: managed_inv_def state_ok_def mk_token_def)

lemma good_settle:
  assumes "managed_inv st"
  shows "managed_good st (settle_actuation st token operation res err)"
proof (cases "\<exists>p. ms_pending st = Some p \<and> token = eff_token p \<and> operation = eff_op p")
  case False
  with assms show ?thesis by (auto simp: settle_actuation_def split: option.splits)
next
  case True
  then obtain p where p: "ms_pending st = Some p" "token = eff_token p" "operation = eff_op p"
    by blast
  let ?d = "\<lparr>dg_op = operation, dg_result = res, dg_attempt = tok_attempt token\<rparr>"
  let ?s = "st\<lparr>ms_pending := None, ms_last := Some ?d\<rparr>"
  have s: "mk_state ?s = Inr ?s" and si: "managed_inv ?s"
    using assms by (auto simp: managed_inv_def mk_state_def state_ok_def Let_def)
  have "eff_op p = FORCE_RECEIVE \<Longrightarrow> in_kind (ms_intent st) = Intent_RX"
    using assms p(1) by (auto simp: managed_inv_def)
  with si p s show ?thesis
    by (auto simp: settle_actuation_def Let_def managed_inv_def state_ok_def intent_rx_def no_owner_def
        intro!: good_mk_state split del: if_split split: if_split)
qed

lemma reduce_total:
  assumes "managed_inv st"
  shows "if ownerless ev then reduce_managed_tx st ev = Inl ValueError
    else managed_good st (reduce_managed_tx st ev)"
proof (cases ev)
  case (PttDown owner gen attempt started tot)
  then show ?thesis
    using assms by (auto simp: intent_ptt_def mk_intent_def no_owner_def intro!: good_on)
next
  case (PttUp owner gen attempt)
  let ?e = "\<lparr>eff_op = FORCE_RECEIVE, eff_token = mk_token st gen attempt None\<rparr>"
  have "managed_inv (st\<lparr>ms_intent := intent_rx, ms_started := None, ms_tot := None, ms_pending := Some ?e\<rparr>)"
    if "in_kind (ms_intent st) = Intent_PTT"
    using assms that
    by (simp add: managed_inv_def state_ok_def intent_rx_def no_owner_def mk_token_def Let_def)
  then have "ms_intent st = \<lparr>in_kind = Intent_PTT, in_owner = Some owner\<rparr> \<Longrightarrow>
    managed_good st (bind_result (mk_state (st\<lparr>ms_intent := intent_rx, ms_started := None,
      ms_tot := None, ms_pending := Some ?e\<rparr>)) (\<lambda>st'. Inr (to_transition M_ACCEPTED [?e] st')))"
    by (intro good_mk_state) simp_all
  with assms PttUp show ?thesis
    by (simp add: intent_ptt_def mk_intent_def no_owner_def Let_def)
next
  case (TransmitOn gen attempt started tot)
  then show ?thesis
    using assms by (auto simp: mk_intent_def no_owner_def intro!: good_on)
next
  case (ForceOff gen attempt)
  then show ?thesis
    using assms
    by (auto simp: Let_def mk_token_def managed_inv_def state_ok_def intent_rx_def no_owner_def
        intro!: good_mk_state)
next
  case (RetryForceReceive gen attempt)
  then show ?thesis
    using assms
    by (auto simp: Let_def mk_token_def managed_inv_def state_ok_def intro!: good_mk_state)
next
  case (ActuationSettled token operation res err)
  then show ?thesis using assms by (simp add: good_settle)
next
  case (AbortFailed token operation err)
  then show ?thesis
    using assms
    by (auto simp: managed_inv_def state_ok_def Let_def intro!: good_mk_state)
qed

interpretation managed: epoch_system managed_step managed_inv ms_epoch
proof
  fix st :: managed_state and ev
  assume "managed_inv st"
  from reduce_total [OF this, of ev] this
  show "managed_inv (managed_step st ev)" and "ms_epoch st \<le> ms_epoch (managed_step st ev)"
    by (auto simp: managed_step_def managed_good_def split: if_splits sum.splits)
qed

section \<open>Properties\<close>

lemma reachable_inv: "managed_inv (run managed_step managed_start evs)"
  by (rule managed.run_inv [OF managed_inv_start])

text \<open>
  The reducer is total on reachable states: the only exception any event can raise is the
  \<open>ValueError\<close> of a PTT event with an empty owner token; in every other case it returns a state that
  passes the dataclass checks, so no \<open>replace\<close> inside the reducer ever fails.
\<close>

theorem managed_reducer_total:
  "if ownerless ev
   then reduce_managed_tx (run managed_step managed_start evs) ev = Inl ValueError
   else \<exists>t. reduce_managed_tx (run managed_step managed_start evs) ev = Inr t \<and> state_ok (mt_state t) \<and>
     ms_epoch (run managed_step managed_start evs) \<le> ms_epoch (mt_state t)"
  using reduce_total [OF reachable_inv, of ev evs]
  by (auto simp: managed_good_def managed_inv_def split: if_splits sum.splits)

lemma settle_clears_debt:
  assumes "settle_actuation st token operation res err = Inr t"
    and "ms_plan st \<noteq> None" and "ms_plan (mt_state t) = None"
  shows "operation = FORCE_RECEIVE \<and> res = A_ACCEPTED \<and>
    ms_pending st = Some \<lparr>eff_op = FORCE_RECEIVE, eff_token = token\<rparr>"
  using assms
  by (cases "ms_pending st")
     (auto simp: settle_actuation_def mk_state_def to_transition_def Let_def result_simps
      split: if_splits)

lemma debt_cleared_by:
  assumes inv: "managed_inv st" and debt: "release_required st"
    and gone: "\<not> release_required (managed_step st ev)"
  obtains token err where "ev = ActuationSettled token FORCE_RECEIVE A_ACCEPTED err"
    and "ms_pending st = Some \<lparr>eff_op = FORCE_RECEIVE, eff_token = token\<rparr>"
    and "in_kind (ms_intent st) = Intent_RX"
proof -
  obtain t where t: "reduce_managed_tx st ev = Inr t"
    using debt gone by (cases "reduce_managed_tx st ev") (auto simp: managed_step_def)
  then have plan: "ms_plan st \<noteq> None" "ms_plan (mt_state t) = None"
    using debt gone by (auto simp: managed_step_def release_required_def)
  show thesis
  proof (cases ev)
    case (ActuationSettled token operation res err)
    with t plan settle_clears_debt [of st token operation res err t]
    have "operation = FORCE_RECEIVE" "res = A_ACCEPTED"
      "ms_pending st = Some \<lparr>eff_op = FORCE_RECEIVE, eff_token = token\<rparr>" by auto
    moreover from this inv have "in_kind (ms_intent st) = Intent_RX"
      by (auto simp: managed_inv_def)
    ultimately show ?thesis using ActuationSettled that by blast
  qed (use t plan in \<open>auto simp: result_simps managed_on_intent_def mk_state_def to_transition_def
      Let_def split: if_splits\<close>)
qed

text \<open>
  C4. Release debt is durable: a state that owes a release goes on owing it until the settlement
  ACCEPTED of the very FORCE_RECEIVE that is pending arrives, and that happens only after the intent has been dropped.
\<close>

theorem release_debt_durable:
  assumes "st = run managed_step managed_start evs" and "release_required st"
    and "\<not> release_required (managed_step st ev)"
  shows "\<exists>token err. ev = ActuationSettled token FORCE_RECEIVE A_ACCEPTED err \<and>
    ms_pending st = Some \<lparr>eff_op = FORCE_RECEIVE, eff_token = token\<rparr> \<and>
    in_kind (ms_intent st) = Intent_RX"
proof -
  have "managed_inv st" using reachable_inv assms(1) by simp
  from debt_cleared_by [OF this assms(2,3)] show ?thesis by metis
qed

text \<open>An ON among the effects of an event.\<close>

definition keys_on :: "managed_state \<Rightarrow> managed_event \<Rightarrow> bool" where
  "keys_on st ev \<longleftrightarrow> list_ex (\<lambda>e. eff_op e \<noteq> FORCE_RECEIVE) (managed_effects st ev)"

lemma keys_on_cases:
  assumes "keys_on st ev"
  obtains e where "managed_effects st ev = [e]" and "eff_op e \<noteq> FORCE_RECEIVE"
    and "in_kind (ms_intent st) = Intent_RX" and "\<not> release_required st"
    and "release_required (managed_step st ev)" and "ms_pending (managed_step st ev) = Some e"
    and "in_kind (ms_intent (managed_step st ev)) \<noteq> Intent_RX"
    and "tok_epoch (eff_token e) = ms_epoch st + 1"
proof -
  obtain t where t: "reduce_managed_tx st ev = Inr t"
    and e: "list_ex (\<lambda>e. eff_op e \<noteq> FORCE_RECEIVE) (mt_effects t)"
    using assms by (cases "reduce_managed_tx st ev") (auto simp: keys_on_def managed_effects_def)
  have se: "managed_effects st ev = mt_effects t" "managed_step st ev = mt_state t"
    using t by (simp_all add: managed_effects_def managed_step_def)
  show thesis
  proof (cases ev)
    case (PttDown owner gen attempt started tot)
    with t e that show ?thesis
      unfolding se
      by (auto simp: result_simps intent_ptt_def mk_intent_def managed_on_intent_def mk_state_def
          to_transition_def mk_token_def release_required_def Let_def split: if_splits)
  next
    case (TransmitOn gen attempt started tot)
    with t e that show ?thesis
      unfolding se
      by (auto simp: result_simps mk_intent_def managed_on_intent_def mk_state_def
          to_transition_def mk_token_def release_required_def Let_def split: if_splits)
  next
    case (ActuationSettled token operation res err)
    with t e show ?thesis
      by (auto simp: settle_actuation_def to_transition_def result_simps Let_def
          split: if_splits option.splits)
  qed (use t e in \<open>auto simp: result_simps to_transition_def Let_def split: if_splits option.splits\<close>)
qed

text \<open>
  The radio is keyed only from rest: an effect that keys is emitted only in RX with no
  release owed, alone; with it the state owes a release, carries the effect as pending, and opens a new epoch.
\<close>

theorem keyed_only_from_rest:
  assumes "e \<in> set (managed_effects st ev)" and "eff_op e \<noteq> FORCE_RECEIVE"
  shows "in_kind (ms_intent st) = Intent_RX \<and> \<not> release_required st \<and>
    managed_effects st ev = [e] \<and> release_required (managed_step st ev) \<and>
    ms_pending (managed_step st ev) = Some e \<and> tok_epoch (eff_token e) = ms_epoch st + 1 \<and>
    in_kind (ms_intent (managed_step st ev)) \<noteq> Intent_RX"
proof -
  have "keys_on st ev" using assms by (auto simp: keys_on_def list_ex_iff)
  then show ?thesis by (rule keys_on_cases) (use assms in auto)
qed

lemma debt_over_run:
  assumes "managed_inv st" and "release_required st"
    and "\<not> release_required (run managed_step st evs)"
  shows "\<exists>token err. ActuationSettled token FORCE_RECEIVE A_ACCEPTED err \<in> set evs"
  using assms
proof (induction evs arbitrary: st)
  case Nil
  then show ?case by simp
next
  case (Cons ev evs)
  show ?case
  proof (cases "release_required (managed_step st ev)")
    case True
    from Cons.IH [OF managed.step_inv [OF Cons.prems(1)] True] Cons.prems(3)
    show ?thesis by auto
  next
    case False
    from debt_cleared_by [OF Cons.prems(1,2) False] show ?thesis by (metis list.set_intros(1))
  qed
qed

text \<open>
  C6. Between two keyings there is a confirmed return to receive: if the radio is keyed by one
  event of a run and again by a later one, an accepted FORCE_RECEIVE settlement lies between them.
\<close>

theorem keyings_are_separated:
  assumes "keys_on (run managed_step managed_start evs) ev"
    and "keys_on (run managed_step managed_start (evs @ ev # between)) ev'"
  shows "\<exists>token err. ActuationSettled token FORCE_RECEIVE A_ACCEPTED err \<in> set between"
proof -
  let ?st = "run managed_step managed_start evs"
  have inv: "managed_inv (managed_step ?st ev)"
    by (rule managed.step_inv [OF reachable_inv])
  have "release_required (managed_step ?st ev)"
    by (rule keys_on_cases [OF assms(1)])
  moreover have "\<not> release_required (run managed_step (managed_step ?st ev) between)"
    by (rule keys_on_cases [OF assms(2)]) simp
  ultimately show ?thesis by (rule debt_over_run [OF inv])
qed

text \<open>
  ForceOff supersedes: once it has been reduced, every settlement of an effect issued before
  it, whatever its result, is STALE and changes nothing, in every later state.
\<close>

theorem force_off_supersedes:
  assumes "st = run managed_step managed_start evs" and "tok_epoch token \<le> ms_epoch st"
    and "later = run managed_step st (ForceOff gen attempt # evs')"
  shows "reduce_managed_tx later (ActuationSettled token operation res err) =
    Inr \<lparr>mt_state = later, mt_outcome = M_STALE, mt_effects = []\<rparr>"
proof -
  let ?f = "managed_step st (ForceOff gen attempt)"
  have inv: "managed_inv st" using reachable_inv assms(1) by simp
  have "ms_epoch ?f = ms_epoch st + 1"
    by (auto simp: managed_step_def mk_state_def state_ok_def intent_rx_def to_transition_def Let_def)
  then have "ms_epoch st < ms_epoch later"
    using managed.run_epoch [OF managed.step_inv [OF inv], of "ForceOff gen attempt" evs'] assms(3)
    by simp
  moreover have "managed_inv later"
    using managed.run_inv [OF inv, of "ForceOff gen attempt # evs'"] assms(3) by simp
  ultimately have "\<not> (\<exists>p. ms_pending later = Some p \<and> token = eff_token p)"
    using assms(2) by (auto simp: managed_inv_def)
  then show ?thesis
    by (auto simp: settle_actuation_def to_transition_def split: option.split)
qed

text \<open>
  A PTT intent belongs to its owner: it is dropped only by the owner's own PttUp, by ForceOff, or
  by the failed settlement of the key-down still pending; every other event leaves it in place.
\<close>

theorem intent_belongs_to_owner:
  assumes "st = run managed_step managed_start evs"
    and "ms_intent st = \<lparr>in_kind = Intent_PTT, in_owner = Some owner\<rparr>"
    and "ms_intent (managed_step st ev) \<noteq> ms_intent st"
  shows "(\<exists>gen attempt. ev = PttUp owner gen attempt) \<or> (\<exists>gen attempt. ev = ForceOff gen attempt) \<or>
    (\<exists>p res err. ms_pending st = Some p \<and> ev = ActuationSettled (eff_token p) (eff_op p) res err \<and>
       res \<noteq> A_ACCEPTED)"
proof -
  obtain t where t: "reduce_managed_tx st ev = Inr t" "ms_intent (mt_state t) \<noteq> ms_intent st"
    using assms(3) by (cases "reduce_managed_tx st ev") (auto simp: managed_step_def)
  show ?thesis
  proof (cases ev)
    case (ActuationSettled token operation res err)
    with t show ?thesis
      by (auto simp: settle_actuation_def mk_state_def to_transition_def Let_def result_simps
          split: if_splits option.splits)
  qed (use t assms(2) in \<open>auto simp: result_simps intent_ptt_def mk_intent_def managed_on_intent_def
      mk_state_def to_transition_def Let_def split: if_splits\<close>)
qed

text \<open>
  C38. Recovery is always possible: from every reachable state, a ForceOff with a provider whose effect is then
  settled ACCEPTED leads to RX with nothing owed and nothing pending, and the next key-down of any owner is
  accepted and emits its PTT_ON.
\<close>

theorem force_off_recovers:
  assumes "st = run managed_step managed_start evs" and "owner \<noteq> []"
    and "rested = run managed_step st [ForceOff (Some gen) attempt,
      ActuationSettled \<lparr>tok_gen = gen, tok_epoch = ms_epoch st + 1, tok_attempt = attempt\<rparr>
        FORCE_RECEIVE A_ACCEPTED err]"
  shows "ms_intent rested = intent_rx \<and> \<not> release_required rested \<and> ms_pending rested = None \<and>
    managed_effects rested (PttDown owner gen' attempt' started tot) =
      [\<lparr>eff_op = PTT_ON, eff_token = \<lparr>tok_gen = gen', tok_epoch = ms_epoch st + 2,
          tok_attempt = attempt'\<rparr>\<rparr>]"
proof -
  let ?tok = "\<lparr>tok_gen = gen, tok_epoch = ms_epoch st + 1, tok_attempt = attempt\<rparr>"
  have *: "ms_intent rested = intent_rx" "ms_plan rested = None" "ms_pending rested = None"
    "ms_epoch rested = ms_epoch st + 1"
    using assms(3)
    by (simp_all add: managed_step_def mk_state_def state_ok_def intent_rx_def to_transition_def
        mk_token_def settle_actuation_def Let_def)
  then show ?thesis
    using assms(2)
    by (simp add: managed_effects_def release_required_def intent_ptt_def mk_intent_def no_owner_def
        managed_on_intent_def mk_state_def state_ok_def intent_rx_def to_transition_def mk_token_def
        Let_def)
qed

text \<open>
  The receipt test is exact: for a key-down event, \<open>submission_refused_for_release_debt\<close> on the
  outcome and state of its transition holds iff the state before was in RX with a release owed.
\<close>

theorem refusal_receipt_exact:
  assumes "reduce_managed_tx st ev = Inr t"
    and "ev = PttDown owner gen attempt started tot \<or> ev = TransmitOn gen attempt started tot"
  shows "submission_refused_for_release_debt (Some (mt_outcome t)) (Some (mt_state t)) \<longleftrightarrow>
    in_kind (ms_intent st) = Intent_RX \<and> release_required st"
  using assms
  by (auto simp: submission_refused_for_release_debt_def result_simps intent_ptt_def mk_intent_def
      managed_on_intent_def mk_state_def to_transition_def release_required_def Let_def
      split: if_splits)

section \<open>Concrete instances\<close>

definition demo_down :: managed_event where
  "demo_down = PttDown ''op'' 3 ''a1'' 10 (Some 190)"

definition demo_up :: managed_event where
  "demo_up = PttUp ''op'' 3 ''a2''"

definition demo_up_token :: effect_token where
  "demo_up_token = \<lparr>tok_gen = 3, tok_epoch = 1, tok_attempt = ''a2''\<rparr>"

definition demo_confirm :: managed_event where
  "demo_confirm = ActuationSettled demo_up_token FORCE_RECEIVE A_ACCEPTED None"

theorem release_debt_durable_witness:
  "\<exists>token err. demo_confirm = ActuationSettled token FORCE_RECEIVE A_ACCEPTED err \<and>
    ms_pending (run managed_step managed_start [demo_down, demo_up]) =
      Some \<lparr>eff_op = FORCE_RECEIVE, eff_token = token\<rparr> \<and>
    in_kind (ms_intent (run managed_step managed_start [demo_down, demo_up])) = Intent_RX"
  by (rule release_debt_durable [OF refl]) code_simp+

theorem keyed_only_from_rest_witness:
  "in_kind (ms_intent managed_start) = Intent_RX \<and> release_required (managed_step managed_start demo_down)"
proof -
  let ?e = "\<lparr>eff_op = PTT_ON, eff_token = \<lparr>tok_gen = 3, tok_epoch = 1, tok_attempt = ''a1''\<rparr>\<rparr>"
  have "?e \<in> set (managed_effects managed_start demo_down)" by code_simp
  from keyed_only_from_rest [OF this] show ?thesis by simp
qed

theorem keyings_are_separated_witness:
  "\<exists>token err. ActuationSettled token FORCE_RECEIVE A_ACCEPTED err \<in> set [demo_up, demo_confirm]"
  by (rule keyings_are_separated [of "[]" demo_down _ demo_down]) code_simp+

theorem force_off_supersedes_witness:
  "\<exists>s. reduce_managed_tx s (ActuationSettled demo_up_token FORCE_RECEIVE A_ACCEPTED None) =
    Inr \<lparr>mt_state = s, mt_outcome = M_STALE, mt_effects = []\<rparr> \<and> release_required s"
proof -
  let ?st = "run managed_step managed_start [demo_down, demo_up]"
  let ?l = "run managed_step ?st (ForceOff None ''x'' # [])"
  have "tok_epoch demo_up_token \<le> ms_epoch ?st" by code_simp
  from force_off_supersedes [OF refl this refl, of None "''x''" "[]"]
  have "reduce_managed_tx ?l (ActuationSettled demo_up_token FORCE_RECEIVE A_ACCEPTED None) =
    Inr \<lparr>mt_state = ?l, mt_outcome = M_STALE, mt_effects = []\<rparr>" .
  moreover have "release_required ?l" by code_simp
  ultimately show ?thesis by blast
qed

theorem intent_belongs_to_owner_witness:
  "\<exists>gen attempt. demo_up = PttUp ''op'' gen attempt"
proof -
  let ?st = "run managed_step managed_start [demo_down]"
  have "ms_intent ?st = \<lparr>in_kind = Intent_PTT, in_owner = Some ''op''\<rparr>"
    "ms_intent (managed_step ?st demo_up) \<noteq> ms_intent ?st"
    by code_simp+
  from intent_belongs_to_owner [OF refl this] show ?thesis by (auto simp: demo_up_def)
qed

theorem force_off_recovers_witness:
  "ms_intent (run managed_step (run managed_step managed_start [demo_down]) [ForceOff (Some 4) ''f'',
      ActuationSettled \<lparr>tok_gen = 4,
        tok_epoch = ms_epoch (run managed_step managed_start [demo_down]) + 1, tok_attempt = ''f''\<rparr>
        FORCE_RECEIVE A_ACCEPTED None]) = intent_rx"
  using force_off_recovers [OF refl _ refl, of "''op''"] by blast

theorem refusal_receipt_exact_witness:
  "\<exists>t. reduce_managed_tx (run managed_step managed_start [demo_down, demo_up]) demo_down = Inr t \<and>
    submission_refused_for_release_debt (Some (mt_outcome t)) (Some (mt_state t))"
proof -
  let ?st = "run managed_step managed_start [demo_down, demo_up]"
  obtain t where t: "reduce_managed_tx ?st demo_down = Inr t"
    using managed_reducer_total [of demo_down "[demo_down, demo_up]"] by (auto simp: demo_down_def)
  moreover have "in_kind (ms_intent ?st) = Intent_RX \<and> release_required ?st" by code_simp
  ultimately show ?thesis
    using refusal_receipt_exact [OF t] by (auto simp: demo_down_def)
qed

end
