(* ===== verification/Breaker.thy ===== *)
theory Breaker
  imports Prelude
begin

text \<open>
  \<open>rigctld/circuit_breaker.py\<close>: the breaker around CI-V command execution. \<open>time.monotonic()\<close> is
  an argument of the operations that read it. Reading the \<open>state\<close> property may itself move the breaker from OPEN to
  HALF_OPEN, so the model returns the new breaker with the answer. Log calls are left out.
\<close>

section \<open>State and operations\<close>

datatype circuit_state = CLOSED | OPEN | HALF_OPEN

record breaker =
  br_threshold :: int
  br_timeout :: time
  br_state :: circuit_state
  br_failures :: int
  br_opened :: "time option"

definition breaker_init :: "int \<Rightarrow> time \<Rightarrow> breaker result" where
  "breaker_init threshold timeout =
     (if threshold < 1 then Inl ValueError
      else if timeout \<le> 0 then Inl ValueError
      else Inr \<lparr>br_threshold = threshold, br_timeout = timeout, br_state = CLOSED,
                br_failures = 0, br_opened = None\<rparr>)"

definition read_state :: "time \<Rightarrow> breaker \<Rightarrow> circuit_state \<times> breaker" where
  "read_state now b =
     (let b' = (if br_state b = OPEN \<and>
                   (case br_opened b of None \<Rightarrow> False | Some t \<Rightarrow> now - t \<ge> br_timeout b)
                then b\<lparr>br_state := HALF_OPEN\<rparr> else b)
      in (br_state b', b'))"

definition allow_request :: "time \<Rightarrow> breaker \<Rightarrow> bool \<times> breaker" where
  "allow_request now b = (case read_state now b of (st, b') \<Rightarrow> (st \<noteq> OPEN, b'))"

definition record_success :: "breaker \<Rightarrow> breaker" where
  "record_success b = b\<lparr>br_state := CLOSED, br_failures := 0, br_opened := None\<rparr>"

definition record_failure :: "time \<Rightarrow> breaker \<Rightarrow> breaker" where
  "record_failure now b =
     (if br_state b = HALF_OPEN then b\<lparr>br_state := OPEN, br_opened := Some now\<rparr>
      else if br_state b = CLOSED then
        (let b' = b\<lparr>br_failures := br_failures b + 1\<rparr> in
         if br_failures b' \<ge> br_threshold b' then b'\<lparr>br_state := OPEN, br_opened := Some now\<rparr>
         else b')
      else b)"

text \<open>What a run of the breaker records: requests asked, results reported.\<close>

datatype breaker_op = Ask time | Succeed | Fail time

fun breaker_step :: "breaker \<Rightarrow> breaker_op \<Rightarrow> breaker" where
  "breaker_step b (Ask now) = snd (allow_request now b)"
| "breaker_step b Succeed = record_success b"
| "breaker_step b (Fail now) = record_failure now b"

section \<open>Invariant\<close>

definition breaker_inv :: "breaker \<Rightarrow> bool" where
  "breaker_inv b \<longleftrightarrow> 1 \<le> br_threshold b \<and> 0 < br_timeout b \<and> 0 \<le> br_failures b \<and>
     (br_state b = CLOSED \<longrightarrow> br_failures b < br_threshold b \<and> br_opened b = None) \<and>
     (br_state b \<noteq> CLOSED \<longrightarrow> br_failures b \<ge> br_threshold b \<and> br_opened b \<noteq> None)"

lemmas breaker_defs = read_state_def allow_request_def record_success_def record_failure_def
  Let_def

interpretation breaker: guarded_system breaker_step breaker_inv
proof
  fix b :: breaker and e :: breaker_op
  assume "breaker_inv b"
  then show "breaker_inv (breaker_step b e)"
    by (cases e; cases "br_state b") (auto simp: breaker_inv_def breaker_defs)
qed

lemma breaker_inv_init: "breaker_init n rt = Inr b \<Longrightarrow> breaker_inv b"
  by (auto simp: breaker_init_def breaker_inv_def split: if_splits)

lemma allow_request_config [simp]:
  "br_threshold (snd (allow_request now b)) = br_threshold b"
  "br_timeout (snd (allow_request now b)) = br_timeout b"
  "br_opened (snd (allow_request now b)) = br_opened b"
  "br_threshold (record_success b) = br_threshold b"
  "br_threshold (record_failure now b) = br_threshold b"
  by (simp_all add: breaker_defs)

lemma step_config [simp]:
  "br_threshold (breaker_step b e) = br_threshold b"
  "br_timeout (breaker_step b e) = br_timeout b"
  by (cases e; auto simp: breaker_defs)+

lemma run_config [simp]:
  "br_threshold (run breaker_step b es) = br_threshold b"
  "br_timeout (run breaker_step b es) = br_timeout b"
  by (induction es arbitrary: b) simp_all

section \<open>Specification by history\<close>

text \<open>The failures since the last success, newest last.\<close>

fun failure_times :: "time list \<Rightarrow> breaker_op list \<Rightarrow> time list" where
  "failure_times acc [] = acc"
| "failure_times acc (Ask t # es) = failure_times acc es"
| "failure_times acc (Succeed # es) = failure_times [] es"
| "failure_times acc (Fail t # es) = failure_times (acc @ [t]) es"

lemma closed_counts:
  assumes "breaker_inv b"
    and "br_state b = CLOSED \<Longrightarrow> br_failures b = int (length acc)"
    and "br_state b \<noteq> CLOSED \<Longrightarrow> br_threshold b \<le> int (length acc)"
  shows "(br_state (run breaker_step b es) = CLOSED \<longrightarrow>
      br_failures (run breaker_step b es) = int (length (failure_times acc es))) \<and>
    (br_state (run breaker_step b es) \<noteq> CLOSED \<longrightarrow>
      br_threshold b \<le> int (length (failure_times acc es)))"
  using assms
proof (induction es arbitrary: b acc)
  case Nil
  then show ?case by simp
next
  case (Cons e es)
  have inv: "breaker_inv (breaker_step b e)" using Cons.prems(1) by (rule breaker.step_inv)
  show ?case
  proof (cases e)
    case (Ask now)
    have "br_state (breaker_step b e) = CLOSED \<longleftrightarrow> br_state b = CLOSED"
      "br_failures (breaker_step b e) = br_failures b"
      using Ask by (auto simp: breaker_defs)
    then show ?thesis using Cons.IH [OF inv, of acc] Cons.prems Ask by simp
  next
    case Succeed
    have "br_state (breaker_step b e) = CLOSED" "br_failures (breaker_step b e) = 0"
      using Succeed by (simp_all add: breaker_defs)
    then show ?thesis using Cons.IH [OF inv, of "[]"] Succeed by simp
  next
    case (Fail now)
    have "br_state (breaker_step b e) = CLOSED \<Longrightarrow> br_failures (breaker_step b e) = int (length (acc @ [now]))"
      using Fail Cons.prems by (auto simp: breaker_defs split: if_splits)
    moreover have "br_state (breaker_step b e) \<noteq> CLOSED \<Longrightarrow> br_threshold b \<le> int (length (acc @ [now]))"
      using Fail Cons.prems by (cases "br_state b") (auto simp: breaker_defs split: if_splits)
    ultimately show ?thesis
      using Cons.IH [OF inv, of "acc @ [now]"] Fail by simp
  qed
qed

text \<open>
  The breaker implements its history: after any run it is CLOSED exactly when fewer
  failures than the threshold have been recorded since the last success, whatever requests were
  asked in between, and while it is CLOSED its counter is that number.
\<close>

theorem closed_iff_few_failures:
  assumes "breaker_init threshold timeout = Inr b0" and "b = run breaker_step b0 es"
  shows "(br_state b = CLOSED \<longleftrightarrow> int (length (failure_times [] es)) < threshold) \<and>
    (br_state b = CLOSED \<longrightarrow> br_failures b = int (length (failure_times [] es)))"
proof -
  have b0: "br_state b0 = CLOSED" "br_failures b0 = 0" "br_threshold b0 = threshold"
    using assms(1) by (auto simp: breaker_init_def split: if_splits)
  have inv: "breaker_inv b" using breaker.run_inv [OF breaker_inv_init [OF assms(1)]] assms(2) by simp
  from closed_counts [OF breaker_inv_init [OF assms(1)], of "[]" es] b0 assms(2) inv
  show ?thesis by (auto simp: breaker_inv_def)
qed

text \<open>
  An open circuit fails fast for exactly the recovery window: opened by a failure at \<open>t\<close>, with only
  requests asked since, a request asked at \<open>now\<close> (no earlier than the ones before it) is refused iff \<open>now < t + timeout\<close>.
\<close>

theorem open_window_exact:
  assumes "breaker_init threshold timeout = Inr b0" and "b = run breaker_step b0 es"
    and "br_state b \<noteq> OPEN" and "br_state (record_failure t b) = OPEN"
    and "sorted (asked @ [now])"
  shows "fst (allow_request now (run breaker_step (record_failure t b) (map Ask asked)))
    \<longleftrightarrow> t + timeout \<le> now"
proof -
  have to: "br_timeout (record_failure t b) = timeout"
    using assms(1,2) by (auto simp: breaker_init_def breaker_defs split: if_splits)
  have op: "br_opened (record_failure t b) = Some t"
    using assms(3,4) by (auto simp: breaker_defs split: if_splits)
  have "fst (allow_request now (run breaker_step c (map Ask asked))) \<longleftrightarrow> t + timeout \<le> now"
    if "br_timeout c = timeout" "br_opened c = Some t"
      "br_state c = OPEN \<or> br_state c = HALF_OPEN \<and> t + timeout \<le> now" for c
    using that assms(5)
  proof (induction asked arbitrary: c)
    case Nil
    then show ?case by (auto simp: breaker_defs)
  next
    case (Cons a as)
    have "a \<le> now" using Cons.prems(4) by auto
    then have "br_state (snd (allow_request a c)) = OPEN \<or>
        br_state (snd (allow_request a c)) = HALF_OPEN \<and> t + timeout \<le> now"
      using Cons.prems by (auto simp: breaker_defs)
    with Cons.IH [of "snd (allow_request a c)"] Cons.prems show ?case by simp
  qed
  from this [OF to op] assms(4) show ?thesis by simp
qed

text \<open>
  HALF_OPEN is no single-probe gate: once one request has been let through in HALF_OPEN, every further request asked before
  a result is recorded is let through too, at any time and in any number.
\<close>

theorem half_open_lets_all_through:
  assumes "br_state (snd (allow_request t b)) = HALF_OPEN"
  shows "fst (allow_request t b) \<and>
    fst (allow_request now (run breaker_step (snd (allow_request t b)) (map Ask asked)))"
proof
  show "fst (allow_request t b)" using assms by (auto simp: breaker_defs split: if_splits)
  have "br_state (run breaker_step c (map Ask asked)) = HALF_OPEN" if "br_state c = HALF_OPEN" for c
    using that by (induction asked arbitrary: c) (auto simp: breaker_defs)
  from this [OF assms] show "fst (allow_request now
      (run breaker_step (snd (allow_request t b)) (map Ask asked)))"
    by (simp add: breaker_defs)
qed

section \<open>Concrete instances\<close>

definition demo_breaker :: breaker where
  "demo_breaker = \<lparr>br_threshold = 3, br_timeout = 5, br_state = CLOSED, br_failures = 0,
     br_opened = None\<rparr>"

lemma demo_breaker_init: "breaker_init 3 5 = Inr demo_breaker"
  by (simp add: breaker_init_def demo_breaker_def)

definition demo_fails :: "breaker_op list" where
  "demo_fails = [Fail 1, Succeed, Fail 2, Ask 3, Fail 3]"

theorem closed_iff_few_failures_witness:
  "br_state (run breaker_step demo_breaker demo_fails) = CLOSED \<and>
   br_state (run breaker_step demo_breaker (demo_fails @ [Fail 4])) \<noteq> CLOSED"
  using closed_iff_few_failures [OF demo_breaker_init refl, of demo_fails]
    closed_iff_few_failures [OF demo_breaker_init refl, of "demo_fails @ [Fail 4]"]
  by (simp add: demo_fails_def)

theorem open_window_exact_witness:
  "\<not> fst (allow_request 8 (run breaker_step (record_failure 4 (run breaker_step demo_breaker demo_fails))
     (map Ask [5])))"
proof -
  have "br_state (run breaker_step demo_breaker demo_fails) \<noteq> OPEN"
    "br_state (record_failure 4 (run breaker_step demo_breaker demo_fails)) = OPEN"
    "sorted ([5] @ [8 :: time])"
    by code_simp+
  from open_window_exact [OF demo_breaker_init refl this] show ?thesis by simp
qed

theorem half_open_lets_all_through_witness:
  "\<exists>b. fst (allow_request 9 b) \<and> fst (allow_request 9 (run breaker_step (snd (allow_request 9 b)) (map Ask [9])))"
proof -
  let ?b = "run breaker_step demo_breaker (demo_fails @ [Fail 4])"
  have "br_state (snd (allow_request 9 ?b)) = HALF_OPEN" by code_simp
  from half_open_lets_all_through [OF this] show ?thesis by blast
qed

end
