(* ===== verification/Buffers.thy ===== *)
theory Buffers
  imports Prelude
begin

text \<open>
  \<open>core/_bounded_queue.py\<close> (\<open>BoundedQueue\<close>) and \<open>runtime/managed_tx_fence.py\<close> (\<open>TxAbortFence\<close>).

  The wrapped \<open>asyncio.Queue\<close> is its item list, its \<open>maxsize\<close> and its count of unfinished tasks; the
  blocking \<open>get\<close> and \<open>put\<close> are not modelled. The fence keeps its registrations in the
  insertion order of the dictionary; running the cancellations is a function from a
  cancellation to the error it ends with, if any.
\<close>

section \<open>Buffers that drop their oldest entry\<close>

text \<open>The contract of a buffer of capacity \<open>cap\<close> to which an insertion is always possible.\<close>

locale drop_oldest_buffer =
  fixes put :: "'e \<Rightarrow> 'q \<Rightarrow> 'q"
    and items :: "'q \<Rightarrow> 'e list"
    and cap :: nat
    and ok :: "'q \<Rightarrow> bool"
  assumes cap_pos: "0 < cap"
    and put_ok: "ok q \<Longrightarrow> ok (put x q)"
    and put_items: "ok q \<Longrightarrow> items (put x q) =
      (if length (items q) < cap then items q else tl (items q)) @ [x]"
    and bounded: "ok q \<Longrightarrow> length (items q) \<le> cap"
begin

lemma put_keeps_newest: "ok q \<Longrightarrow> items (put x q) = drop (Suc (length (items q)) - cap) (items q @ [x])"
  using put_items [of q x] bounded [of q] cap_pos
  by (cases "length (items q) < cap") (auto simp: drop_Suc)

lemma puts_keep_newest:
  assumes "ok q"
  shows "items (fold put xs q) = drop (length (items q) + length xs - cap) (items q @ xs)
    \<and> ok (fold put xs q)"
  using assms
proof (induction xs arbitrary: q)
  case Nil
  then show ?case using bounded by simp
next
  case (Cons x xs)
  let ?q = "put x q"
  have q: "ok ?q" "items ?q = drop (Suc (length (items q)) - cap) (items q @ [x])"
    using put_ok put_keeps_newest Cons.prems by simp_all
  have n: "length (items ?q) + length xs - cap + (Suc (length (items q)) - cap)
      = length (items q) + length (x # xs) - cap"
    using q(2) bounded [OF Cons.prems] by simp
  have "items ?q @ xs = drop (Suc (length (items q)) - cap) (items q @ x # xs)"
    using q(2) bounded [OF Cons.prems] cap_pos by simp
  then have "items (fold put xs ?q) = drop (length (items q) + length (x # xs) - cap) (items q @ x # xs)"
    using Cons.IH [OF q(1)] n by (simp only: drop_drop)
  then show ?case
    using Cons.IH [OF q(1)] by simp
qed

end

section \<open>BoundedQueue\<close>

record 'a bounded_queue =
  bq_items :: "'a list"
  bq_maxsize :: int
  bq_unfinished :: nat

definition bq_new :: "int \<Rightarrow> 'a bounded_queue" where
  "bq_new maxsize = \<lparr>bq_items = [], bq_maxsize = maxsize, bq_unfinished = 0\<rparr>"

definition bq_full :: "'a bounded_queue \<Rightarrow> bool" where
  "bq_full q \<longleftrightarrow> 0 < bq_maxsize q \<and> bq_maxsize q \<le> int (length (bq_items q))"

definition bq_empty :: "'a bounded_queue \<Rightarrow> bool" where
  "bq_empty q \<longleftrightarrow> bq_items q = []"

definition bq_size :: "'a bounded_queue \<Rightarrow> nat" where
  "bq_size q = length (bq_items q)"

definition get_nowait :: "'a bounded_queue \<Rightarrow> ('a \<times> 'a bounded_queue) result" where
  "get_nowait q = (case bq_items q of
      [] \<Rightarrow> Inl QueueEmpty
    | x # xs \<Rightarrow> Inr (x, q\<lparr>bq_items := xs\<rparr>))"

definition put_nowait :: "'a \<Rightarrow> 'a bounded_queue \<Rightarrow> 'a bounded_queue result" where
  "put_nowait x q =
     (if bq_full q then Inl QueueFull
      else Inr (q\<lparr>bq_items := bq_items q @ [x], bq_unfinished := Suc (bq_unfinished q)\<rparr>))"

definition task_done :: "'a bounded_queue \<Rightarrow> 'a bounded_queue result" where
  "task_done q = (case bq_unfinished q of 0 \<Rightarrow> Inl ValueError | Suc n \<Rightarrow> Inr (q\<lparr>bq_unfinished := n\<rparr>))"

definition put_drop_oldest :: "'a \<Rightarrow> 'a bounded_queue \<Rightarrow> 'a bounded_queue result" where
  "put_drop_oldest x q =
     put_nowait x (if bq_full q then (case get_nowait q of Inl _ \<Rightarrow> q | Inr (_, q') \<Rightarrow> q') else q)"

text \<open>The draining loop, by recursion on the number of items left.\<close>

fun drain_loop ::
  "nat \<Rightarrow> ('a \<Rightarrow> bool) \<Rightarrow> 'a list \<Rightarrow> 'a bounded_queue \<Rightarrow> ('a list \<times> 'a bounded_queue) result" where
  "drain_loop 0 matches retained q = Inr (retained, q)"
| "drain_loop (Suc n) matches retained q =
     (case get_nowait q of
        Inl _ \<Rightarrow> Inr (retained, q)
      | Inr (x, q1) \<Rightarrow> bind_result (task_done q1) (\<lambda>q2.
          drain_loop n matches (if \<not> matches x then retained @ [x] else retained) q2))"

fun put_all :: "'a list \<Rightarrow> 'a bounded_queue \<Rightarrow> 'a bounded_queue result" where
  "put_all [] q = Inr q"
| "put_all (x # xs) q = bind_result (put_nowait x q) (put_all xs)"

definition replace_matching_with_front ::
  "'a \<Rightarrow> ('a \<Rightarrow> bool) \<Rightarrow> 'a bounded_queue \<Rightarrow> 'a bounded_queue result" where
  "replace_matching_with_front x matches q =
     bind_result (drain_loop (Suc (length (bq_items q))) matches [] q) (\<lambda>(retained, q1).
       let kept = (if bq_maxsize q1 > 0 \<and> int (length retained) \<ge> bq_maxsize q1
                   then tl retained else retained)
       in bind_result (put_nowait x q1) (put_all kept))"

definition bq_ok :: "'a bounded_queue \<Rightarrow> bool" where
  "bq_ok q \<longleftrightarrow> 0 < bq_maxsize q \<longrightarrow> int (length (bq_items q)) \<le> bq_maxsize q"

definition put_latest :: "'a \<Rightarrow> 'a bounded_queue \<Rightarrow> 'a bounded_queue" where
  "put_latest x q = (case put_drop_oldest x q of Inl _ \<Rightarrow> q | Inr q' \<Rightarrow> q')"

lemma put_drop_oldest_total:
  assumes "bq_ok q"
  shows "put_drop_oldest x q = Inr (q\<lparr>
    bq_items := (if bq_full q then tl (bq_items q) else bq_items q) @ [x],
    bq_unfinished := Suc (bq_unfinished q)\<rparr>)"
  using assms
  by (cases "bq_items q")
     (auto simp: put_drop_oldest_def put_nowait_def get_nowait_def bq_full_def bq_ok_def)

interpretation latest: drop_oldest_buffer put_latest bq_items "Suc n"
    "\<lambda>q. bq_ok q \<and> bq_maxsize q = int (Suc n)" for n
proof
  fix q :: "'a bounded_queue" and x :: 'a
  assume q: "bq_ok q \<and> bq_maxsize q = int (Suc n)"
  then have p: "put_latest x q = q\<lparr>
      bq_items := (if bq_full q then tl (bq_items q) else bq_items q) @ [x],
      bq_unfinished := Suc (bq_unfinished q)\<rparr>"
    by (simp add: put_latest_def put_drop_oldest_total)
  show "bq_items (put_latest x q) =
      (if length (bq_items q) < Suc n then bq_items q else tl (bq_items q)) @ [x]"
    using q unfolding p by (auto simp: bq_full_def)
  show "bq_ok (put_latest x q) \<and> bq_maxsize (put_latest x q) = int (Suc n)"
    using q unfolding p by (auto simp: bq_ok_def bq_full_def)
  show "length (bq_items q) \<le> Suc n"
    using q by (auto simp: bq_ok_def)
qed simp

lemma drain_loop_items:
  assumes "length (bq_items q) < n" and "length (bq_items q) \<le> bq_unfinished q"
  shows "drain_loop n matches retained q =
    Inr (retained @ filter (\<lambda>x. \<not> matches x) (bq_items q),
         q\<lparr>bq_items := [], bq_unfinished := bq_unfinished q - length (bq_items q)\<rparr>)"
  using assms
proof (induction n arbitrary: retained q)
  case 0
  then show ?case by simp
next
  case (Suc n)
  show ?case
  proof (cases "bq_items q")
    case Nil
    then show ?thesis by (simp add: get_nowait_def)
  next
    case (Cons x xs)
    with Suc.prems obtain m where m: "bq_unfinished q = Suc m" by (cases "bq_unfinished q") auto
    let ?q = "q\<lparr>bq_items := xs, bq_unfinished := m\<rparr>"
    have "drain_loop (Suc n) matches retained q =
        drain_loop n matches (if \<not> matches x then retained @ [x] else retained) ?q"
      using Cons m by (simp add: get_nowait_def task_done_def)
    then show ?thesis
      using Suc.IH [of ?q] Suc.prems Cons m by simp
  qed
qed

lemma put_all_items:
  assumes "0 < bq_maxsize q \<longrightarrow> int (length (bq_items q) + length xs) \<le> bq_maxsize q"
  shows "put_all xs q = Inr (q\<lparr>bq_items := bq_items q @ xs,
    bq_unfinished := bq_unfinished q + length xs\<rparr>)"
  using assms
proof (induction xs arbitrary: q)
  case Nil
  then show ?case by simp
next
  case (Cons x xs)
  then have "put_nowait x q = Inr (q\<lparr>bq_items := bq_items q @ [x], bq_unfinished := Suc (bq_unfinished q)\<rparr>)"
    by (auto simp: put_nowait_def bq_full_def)
  then show ?case
    using Cons.prems Cons.IH [of "q\<lparr>bq_items := bq_items q @ [x], bq_unfinished := Suc (bq_unfinished q)\<rparr>"]
    by simp
qed

text \<open>
  \<open>put_drop_oldest\<close> keeps the newest entries: starting from any queue within its capacity
  \<open>n > 0\<close>, no insertion of a sequence raises, and afterwards the queue holds the last \<open>n\<close> of the entries
  it held followed by those inserted, in order.
\<close>

theorem put_drop_oldest_keeps_newest:
  assumes "bq_ok q" and "bq_maxsize q = int n" and "0 < n"
  shows "\<exists>q'. foldl (\<lambda>m x. bind_result m (put_drop_oldest x)) (Inr q) xs = Inr q' \<and>
    bq_items q' = drop (length (bq_items q) + length xs - n) (bq_items q @ xs) \<and> bq_ok q'"
proof -
  obtain k where k: "n = Suc k" using assms(3) by (cases n) auto
  have "foldl (\<lambda>m x. bind_result m (put_drop_oldest x)) (Inr q) xs = Inr (fold put_latest xs q)"
    if "bq_ok q \<and> bq_maxsize q = int (Suc k)" for q :: "'a bounded_queue"
    using that
  proof (induction xs arbitrary: q)
    case Nil
    then show ?case by simp
  next
    case (Cons x xs)
    have "put_drop_oldest x q = Inr (put_latest x q)"
      using Cons.prems by (simp add: put_latest_def put_drop_oldest_total)
    then show ?case
      using Cons.IH [OF latest.put_ok [OF Cons.prems]] by simp
  qed
  then show ?thesis
    using latest.puts_keep_newest [of q k xs] assms k by auto
qed

text \<open>
  \<open>replace_matching_with_front\<close> never raises \<open>QueueFull\<close> and does what it says: the item stands at the
  front, the entries that do not match follow in their old order, short of the oldest one when no
  room was made, the bound is kept, and the count of unfinished tasks moves by exactly the
  change in the number of queued entries.
\<close>

theorem replace_matching_with_front_correct:
  assumes "bq_ok q" and "length (bq_items q) \<le> bq_unfinished q"
  shows "\<exists>q'. replace_matching_with_front x matches q = Inr q' \<and> bq_ok q' \<and> bq_maxsize q' = bq_maxsize q \<and>
    (let kept = filter (\<lambda>y. \<not> matches y) (bq_items q)
     in bq_items q' = x # (if 0 < bq_maxsize q \<and> bq_maxsize q \<le> int (length kept)
          then tl kept else kept)) \<and>
    bq_unfinished q' + length (bq_items q) = bq_unfinished q + length (bq_items q')"
proof -
  let ?kept = "filter (\<lambda>y. \<not> matches y) (bq_items q)"
  let ?k = "if 0 < bq_maxsize q \<and> bq_maxsize q \<le> int (length ?kept) then tl ?kept else ?kept"
  let ?q1 = "q\<lparr>bq_items := [], bq_unfinished := bq_unfinished q - length (bq_items q)\<rparr>"
  let ?q2 = "?q1\<lparr>bq_items := [x], bq_unfinished := Suc (bq_unfinished q - length (bq_items q))\<rparr>"
  have d: "drain_loop (Suc (length (bq_items q))) matches [] q = Inr (?kept, ?q1)"
    using drain_loop_items [of q "Suc (length (bq_items q))" matches "[]"] assms(2) by simp
  have p: "put_nowait x ?q1 = Inr ?q2"
    by (simp add: put_nowait_def bq_full_def)
  have len: "length ?kept \<le> length (bq_items q)" by simp
  have fits: "0 < bq_maxsize q \<longrightarrow> int (Suc (length ?k)) \<le> bq_maxsize q"
    using assms(1) len by (auto simp: bq_ok_def simp del: length_filter_le)
  have a: "put_all ?k ?q2 = Inr (?q2\<lparr>bq_items := [x] @ ?k,
      bq_unfinished := Suc (bq_unfinished q - length (bq_items q)) + length ?k\<rparr>)"
    using put_all_items [of ?q2 ?k] fits by simp
  have "replace_matching_with_front x matches q = put_all ?k ?q2"
    unfolding replace_matching_with_front_def d using p by (simp add: Let_def)
  with a fits assms(2) show ?thesis
    by (auto simp: bq_ok_def Let_def)
qed

section \<open>TxAbortFence\<close>

record abort_token =
  tk_epoch :: int
  tk_fence :: nat
  tk_number :: int

record 'c fence =
  fe_self :: nat
  fe_epoch :: int
  fe_next :: int
  fe_table :: "(abort_token \<times> 'c \<times> string option) list"

definition fence_new :: "nat \<Rightarrow> 'c fence" where
  "fence_new i = \<lparr>fe_self = i, fe_epoch = 0, fe_next = 0, fe_table = []\<rparr>"

definition fence_issue :: "'c fence \<Rightarrow> abort_token \<times> 'c fence" where
  "fence_issue f =
     (\<lparr>tk_epoch = fe_epoch f, tk_fence = fe_self f, tk_number = fe_next f\<rparr>,
      f\<lparr>fe_next := fe_next f + 1\<rparr>)"

definition fence_is_current :: "abort_token \<Rightarrow> 'c fence \<Rightarrow> bool" where
  "fence_is_current t f \<longleftrightarrow> tk_fence t = fe_self f \<and> tk_epoch t = fe_epoch f"

definition fence_register ::
  "abort_token \<Rightarrow> 'c \<Rightarrow> string option \<Rightarrow> 'c fence \<Rightarrow> 'c fence result" where
  "fence_register t c scope f =
     (if \<not> fence_is_current t f then Inl ValueError
      else if t \<in> fst ` set (fe_table f) then Inl ValueError
      else Inr (f\<lparr>fe_table := fe_table f @ [(t, c, scope)]\<rparr>))"

definition fence_remove :: "abort_token \<Rightarrow> 'c fence \<Rightarrow> bool \<times> 'c fence" where
  "fence_remove t f =
     (t \<in> fst ` set (fe_table f), f\<lparr>fe_table := filter (\<lambda>e. fst e \<noteq> t) (fe_table f)\<rparr>)"

text \<open>\<open>force_off\<close> and \<open>cancel_scope\<close> up to the coroutine they return: its epoch and its cancellations.\<close>

definition fence_force_off :: "'c fence \<Rightarrow> (int \<times> (abort_token \<times> 'c) list) \<times> 'c fence" where
  "fence_force_off f =
     (let f' = f\<lparr>fe_epoch := fe_epoch f + 1\<rparr>
      in ((fe_epoch f', map (\<lambda>(t, c, s). (t, c)) (fe_table f')), f'\<lparr>fe_table := []\<rparr>))"

definition fence_cancel_scope :: "string \<Rightarrow> 'c fence \<Rightarrow> (int \<times> (abort_token \<times> 'c) list) \<times> 'c fence" where
  "fence_cancel_scope scope f =
     ((fe_epoch f, map (\<lambda>(t, c, s). (t, c)) (filter (\<lambda>(t, c, s). s = Some scope) (fe_table f))),
      f\<lparr>fe_table := filter (\<lambda>(t, c, s). s \<noteq> Some scope) (fe_table f)\<rparr>)"

text \<open>\<open>_cancel\<close>: every cancellation is run; the failures are reported in order.\<close>

definition fence_cancel ::
  "('c \<Rightarrow> 'err option) \<Rightarrow> int \<Rightarrow> (abort_token \<times> 'c) list \<Rightarrow> int \<times> (abort_token \<times> 'err) list" where
  "fence_cancel outcome epoch cs =
     (epoch, List.map_filter (\<lambda>(t, c). map_option (Pair t) (outcome c)) cs)"

datatype 'c fence_op =
    Issue
  | Register abort_token 'c "string option"
  | Remove abort_token
  | AbortAll
  | AbortScope string

fun fence_step :: "'c fence \<Rightarrow> 'c fence_op \<Rightarrow> 'c fence" where
  "fence_step f Issue = snd (fence_issue f)"
| "fence_step f (Register t c s) = (case fence_register t c s f of Inl _ \<Rightarrow> f | Inr f' \<Rightarrow> f')"
| "fence_step f (Remove t) = snd (fence_remove t f)"
| "fence_step f AbortAll = snd (fence_force_off f)"
| "fence_step f (AbortScope s) = snd (fence_cancel_scope s f)"

text \<open>The tokens whose cancellations an operation hands out to be run.\<close>

fun handed_out :: "'c fence \<Rightarrow> 'c fence_op \<Rightarrow> abort_token list" where
  "handed_out f AbortAll = map fst (snd (fst (fence_force_off f)))"
| "handed_out f (AbortScope s) = map fst (snd (fst (fence_cancel_scope s f)))"
| "handed_out f _ = []"

definition fence_inv :: "'c fence \<Rightarrow> bool" where
  "fence_inv f \<longleftrightarrow> distinct (map fst (fe_table f)) \<and>
     (\<forall>t \<in> fst ` set (fe_table f). fence_is_current t f)"

interpretation fence: epoch_system fence_step fence_inv fe_epoch
proof
  fix f :: "'c fence" and e :: "'c fence_op"
  assume inv: "fence_inv f"
  show "fence_inv (fence_step f e)"
  proof (cases e)
    case (Register t c s)
    with inv show ?thesis
      by (auto simp: fence_register_def fence_inv_def fence_is_current_def split: sum.splits if_splits)
  qed (use inv in \<open>auto simp: fence_inv_def fence_is_current_def fence_issue_def fence_remove_def
      fence_force_off_def fence_cancel_scope_def Let_def distinct_map_filter\<close>)
  show "fe_epoch f \<le> fe_epoch (fence_step f e)"
    by (cases e)
       (auto simp: fence_issue_def fence_register_def fence_remove_def
          fence_force_off_def fence_cancel_scope_def Let_def split: sum.splits)
qed

definition registered :: "abort_token \<Rightarrow> 'c fence \<Rightarrow> bool" where
  "registered t f \<longleftrightarrow> t \<in> fst ` set (fe_table f)"

text \<open>
  \<open>force_off\<close> is a fence: it hands out every registered cancellation, in registration order, and from then on no
  token issued before it is ever current again: whatever is called in between, registering one raises \<open>ValueError\<close>.
\<close>

theorem force_off_fences_tokens:
  fixes f :: "'c fence"
  assumes "fence_inv f" and "tk_epoch t \<le> fe_epoch f"
  shows "handed_out f AbortAll = map fst (fe_table f) \<and>
    \<not> fence_is_current t (run fence_step (fence_step f AbortAll) ops) \<and>
    fence_register t c s (run fence_step (fence_step f AbortAll) ops) = Inl ValueError"
proof -
  have "fe_epoch (fence_step f AbortAll) = fe_epoch f + 1"
    by (simp add: fence_force_off_def Let_def)
  then have "tk_epoch t < fe_epoch (run fence_step (fence_step f AbortAll) ops)"
    using fence.run_epoch [OF fence.step_inv [OF assms(1)], of AbortAll ops] assms(2) by simp
  then have "\<not> fence_is_current t (run fence_step (fence_step f AbortAll) ops)"
    by (simp add: fence_is_current_def)
  then show ?thesis
    by (auto simp: fence_register_def fence_force_off_def Let_def)
qed

fun registrations :: "abort_token \<Rightarrow> 'c fence_op list \<Rightarrow> nat" where
  "registrations t [] = 0"
| "registrations t (Register u c s # ops) = (if u = t then 1 else 0) + registrations t ops"
| "registrations t (_ # ops) = registrations t ops"

fun all_handed_out :: "'c fence \<Rightarrow> 'c fence_op list \<Rightarrow> abort_token list" where
  "all_handed_out f [] = []"
| "all_handed_out f (op # ops) = handed_out f op @ all_handed_out (fence_step f op) ops"

lemma count_distinct: "distinct xs \<Longrightarrow> count_list xs t = (if t \<in> set xs then 1 else 0)"
  by (induction xs) auto

lemma handed_out_once:
  assumes "fence_inv f"
  shows "count_list (handed_out f op) t + (if registered t (fence_step f op) then 1 else 0)
    \<le> (if registered t f then 1 else 0) + registrations t [op]"
proof (cases op)
  case AbortAll
  have h: "handed_out f op = map fst (fe_table f)" using AbortAll by (auto simp: fence_force_off_def Let_def)
  have "distinct (map fst (fe_table f))" using assms by (simp add: fence_inv_def)
  from count_distinct [OF this, of t]
  have "count_list (handed_out f op) t = (if registered t f then 1 else 0)"
    unfolding h by (simp add: registered_def)
  moreover have "\<not> registered t (fence_step f op)"
    using AbortAll by (simp add: registered_def fence_force_off_def Let_def)
  ultimately show ?thesis by simp
next
  case (AbortScope sc)
  let ?in = "filter (\<lambda>(t, c, s). s = Some sc) (fe_table f)"
  have m: "map fst (map (\<lambda>(t, c, s). (t, c)) ?in) = map fst ?in" by auto
  have d: "distinct (map fst ?in)" using assms by (simp add: fence_inv_def distinct_map_filter)
  have x: "t \<in> fst ` set (filter (\<lambda>(t, c, s). s \<noteq> Some sc) (fe_table f)) \<Longrightarrow> t \<notin> set (map fst ?in)"
    using assms by (auto simp: fence_inv_def distinct_map dest: inj_onD)
  have "handed_out f op = map fst ?in"
    using AbortScope m by (simp only: handed_out.simps fence_cancel_scope_def fst_conv snd_conv)
  then have c: "count_list (handed_out f op) t = (if t \<in> set (map fst ?in) then 1 else 0)"
    using count_distinct [OF d] by simp
  have r: "registered t (fence_step f op) \<Longrightarrow> t \<notin> set (map fst ?in) \<and> registered t f"
    using AbortScope x by (auto simp: registered_def fence_cancel_scope_def)
  have "t \<in> set (map fst ?in) \<Longrightarrow> registered t f" by (force simp: registered_def)
  with c r show ?thesis by auto
qed (auto simp: registered_def fence_issue_def fence_remove_def fence_register_def
      split: sum.splits if_splits)

text \<open>
  A cancellation is handed out at most once per registration: over any run of a new fence, a token is handed
  out by \<open>force_off\<close> and \<open>cancel_scope\<close> together no more often than it was registered.
\<close>

theorem cancelled_once_per_registration:
  fixes ops :: "'c fence_op list"
  shows "count_list (all_handed_out (fence_new i) ops) t \<le> registrations t ops"
proof -
  have "count_list (all_handed_out f ops) t \<le> (if registered t f then 1 else 0) + registrations t ops"
    if "fence_inv f" for f :: "'c fence"
    using that
  proof (induction ops arbitrary: f)
    case Nil
    then show ?case by simp
  next
    case (Cons op ops)
    have "registrations t (op # ops) = registrations t [op] + registrations t ops"
      by (cases op) auto
    then show ?case
      using handed_out_once [OF Cons.prems, of op t] Cons.IH [OF fence.step_inv [OF Cons.prems], of op]
      by simp
  qed
  from this [of "fence_new i"] show ?thesis
    by (simp add: fence_inv_def fence_new_def registered_def)
qed

section \<open>Concrete instances\<close>

theorem put_drop_oldest_keeps_newest_witness:
  "\<exists>q'. foldl (\<lambda>m x. bind_result m (put_drop_oldest x)) (Inr (bq_new 2)) [1, 2, 3 :: int] = Inr q' \<and>
    bq_items q' = [2, 3]"
  using put_drop_oldest_keeps_newest [of "bq_new 2 :: int bounded_queue" 2 "[1, 2, 3]"]
  by (auto simp: bq_new_def bq_ok_def)

theorem replace_matching_with_front_correct_witness:
  "\<exists>q'. replace_matching_with_front 9 even \<lparr>bq_items = [1, 2, 3], bq_maxsize = 3, bq_unfinished = 3\<rparr>
      = Inr q' \<and> bq_items q' = [9, 1, 3 :: int] \<and> bq_unfinished q' = 3"
  using replace_matching_with_front_correct
    [of "\<lparr>bq_items = [1, 2, 3 :: int], bq_maxsize = 3, bq_unfinished = 3\<rparr>" 9 even]
  by (auto simp: bq_ok_def)

theorem force_off_fences_tokens_witness:
  "fence_register \<lparr>tk_epoch = 0, tk_fence = 7, tk_number = 0\<rparr> ''c'' None
     (run fence_step (fence_step (fence_new 7) AbortAll) [Issue]) = Inl ValueError"
proof -
  have "fence_inv (fence_new 7 :: string fence)" by (simp add: fence_inv_def fence_new_def)
  from force_off_fences_tokens [OF this, of "\<lparr>tk_epoch = 0, tk_fence = 7, tk_number = 0\<rparr>" "[Issue]" "''c''" None]
  show ?thesis by (simp add: fence_new_def)
qed

end
