(* ===== verification/PriorityGate.thy ===== *)
theory PriorityGate
  imports Prelude
begin

text \<open>
  \<open>core/priority_exchange.py\<close>: the gate that serializes exchanges with the radio.

  A call of \<open>exchange\<close> is identified by the order in which \<open>_admit\<close> is entered. Its phase says where its
  coroutine stands: inside the \<open>with\<close> block, suspended at \<open>await waiter\<close> (with the state of
  the waiter future, and whether a cancellation reached the task after the result was set), or finished. The event loop
  interleaves calls only at that await, so a step is one of: a call arrives, a waiting task is cancelled, a
  waiting task whose future is done resumes, a call leaves its \<open>with\<close> block. This is the documented
  behaviour of \<open>asyncio\<close>: \<open>Task.cancel\<close> cancels the awaited future when it is pending, and otherwise makes the task
  raise \<open>CancelledError\<close> when it resumes.
\<close>

section \<open>Tiers\<close>

datatype exchange_tier = FORCE_RELEASE | ABORT | URGENT | ORDINARY

fun tier_value :: "exchange_tier \<Rightarrow> int" where
  "tier_value FORCE_RELEASE = 0"
| "tier_value ABORT = 10"
| "tier_value URGENT = 20"
| "tier_value ORDINARY = 30"

lemma tier_value_inject [simp]: "tier_value t = tier_value u \<longleftrightarrow> t = u"
  by (cases t; cases u) simp_all

instantiation exchange_tier :: linorder
begin

definition less_eq_exchange_tier :: "exchange_tier \<Rightarrow> exchange_tier \<Rightarrow> bool" where
  "t \<le> u \<longleftrightarrow> tier_value t \<le> tier_value u"

definition less_exchange_tier :: "exchange_tier \<Rightarrow> exchange_tier \<Rightarrow> bool" where
  "t < u \<longleftrightarrow> tier_value t < tier_value u"

instance
  by standard (auto simp: less_eq_exchange_tier_def less_exchange_tier_def)

end

text \<open>\<open>for tier in ExchangeTier\<close>: the order of definition, which is the order of the values.\<close>

definition tiers :: "exchange_tier list" where
  "tiers = [FORCE_RELEASE, ABORT, URGENT, ORDINARY]"

lemma in_tiers [simp]: "t \<in> set tiers"
  by (cases t) (simp_all add: tiers_def)

lemma sorted_tiers: "sorted_wrt (<) tiers"
  by (simp add: tiers_def less_exchange_tier_def)

section \<open>State and operations\<close>

datatype waiter_future = FPending | FResult | FCancelled

datatype call_phase =
    Absent
  | Waiting exchange_tier waiter_future bool
  | Inside
  | Gone

record gate =
  g_active :: bool
  g_queues :: "exchange_tier \<Rightarrow> nat list"
  g_calls :: "nat \<Rightarrow> call_phase"
  g_next :: nat

definition gate_init :: gate where
  "gate_init = \<lparr>g_active = False, g_queues = (\<lambda>_. []), g_calls = (\<lambda>_. Absent), g_next = 0\<rparr>"

definition is_pending :: "(nat \<Rightarrow> call_phase) \<Rightarrow> nat \<Rightarrow> bool" where
  "is_pending calls w \<longleftrightarrow> (case calls w of Waiting _ FPending _ \<Rightarrow> True | _ \<Rightarrow> False)"

text \<open>\<open>while queue: waiter = queue.popleft(); if not waiter.done(): ...\<close>\<close>

fun pop_pending :: "(nat \<Rightarrow> call_phase) \<Rightarrow> nat list \<Rightarrow> nat option \<times> nat list" where
  "pop_pending calls [] = (None, [])"
| "pop_pending calls (w # ws) =
     (if is_pending calls w then (Some w, ws) else pop_pending calls ws)"

fun set_result :: "call_phase \<Rightarrow> call_phase" where
  "set_result (Waiting t _ c) = Waiting t FResult c"
| "set_result p = p"

fun release_from :: "exchange_tier list \<Rightarrow> gate \<Rightarrow> gate" where
  "release_from [] g = g\<lparr>g_active := False\<rparr>"
| "release_from (t # ts) g =
     (case pop_pending (g_calls g) (g_queues g t) of
        (Some w, q) \<Rightarrow> g\<lparr>g_queues := (g_queues g)(t := q),
                         g_calls := (g_calls g)(w := set_result (g_calls g w))\<rparr>
      | (None, q) \<Rightarrow> release_from ts (g\<lparr>g_queues := (g_queues g)(t := q)\<rparr>))"

definition release_gate :: "gate \<Rightarrow> gate" where
  "release_gate g = release_from tiers g"

text \<open>\<open>_admit\<close> up to its await; \<open>exchange\<close> enters it first.\<close>

definition admit :: "exchange_tier \<Rightarrow> gate \<Rightarrow> gate" where
  "admit t g =
     (let w = g_next g in
      if \<not> g_active g
      then g\<lparr>g_active := True, g_calls := (g_calls g)(w := Inside), g_next := Suc w\<rparr>
      else g\<lparr>g_queues := (g_queues g)(t := g_queues g t @ [w]),
             g_calls := (g_calls g)(w := Waiting t FPending False), g_next := Suc w\<rparr>)"

text \<open>\<open>Task.cancel\<close> on a call suspended at its await.\<close>

definition cancel_call :: "nat \<Rightarrow> gate \<Rightarrow> gate option" where
  "cancel_call w g =
     (case g_calls g w of
        Waiting t FPending c \<Rightarrow> Some (g\<lparr>g_calls := (g_calls g)(w := Waiting t FCancelled c)\<rparr>)
      | Waiting t FResult c \<Rightarrow> Some (g\<lparr>g_calls := (g_calls g)(w := Waiting t FResult True)\<rparr>)
      | _ \<Rightarrow> None)"

text \<open>
  The task runs again: the await returns and the block is entered, or it raises \<open>CancelledError\<close> and the handler
  hands the slot on or takes the waiter out of its queue.
\<close>

definition resume_call :: "nat \<Rightarrow> gate \<Rightarrow> gate option" where
  "resume_call w g =
     (case g_calls g w of
        Waiting t FResult False \<Rightarrow> Some (g\<lparr>g_calls := (g_calls g)(w := Inside)\<rparr>)
      | Waiting t FResult True \<Rightarrow>
          Some (release_gate (g\<lparr>g_calls := (g_calls g)(w := Gone)\<rparr>))
      | Waiting t FCancelled c \<Rightarrow>
          Some (g\<lparr>g_queues := (g_queues g)(t := remove1 w (g_queues g t)),
                  g_calls := (g_calls g)(w := Gone)\<rparr>)
      | _ \<Rightarrow> None)"

text \<open>The \<open>finally\<close> of \<open>exchange\<close>.\<close>

definition leave_call :: "nat \<Rightarrow> gate \<Rightarrow> gate option" where
  "leave_call w g =
     (case g_calls g w of
        Inside \<Rightarrow> Some (release_gate (g\<lparr>g_calls := (g_calls g)(w := Gone)\<rparr>))
      | _ \<Rightarrow> None)"

section \<open>The step relation\<close>

datatype gate_event = Arrive exchange_tier | Cancel nat | Resume nat | Leave nat

inductive gate_step :: "gate \<Rightarrow> gate_event \<Rightarrow> gate \<Rightarrow> bool" where
  arrive: "gate_step g (Arrive t) (admit t g)"
| cancel: "cancel_call w g = Some g' \<Longrightarrow> gate_step g (Cancel w) g'"
| resume: "resume_call w g = Some g' \<Longrightarrow> gate_step g (Resume w) g'"
| leave: "leave_call w g = Some g' \<Longrightarrow> gate_step g (Leave w) g'"

inductive_cases gate_step_ArriveE: "gate_step g (Arrive t) g'"
inductive_cases gate_step_ResumeE: "gate_step g (Resume w) g'"
inductive_cases gate_step_LeaveE: "gate_step g (Leave w) g'"

inductive gate_reachable :: "gate \<Rightarrow> bool" where
  start: "gate_reachable gate_init"
| further: "gate_reachable g \<Longrightarrow> gate_step g e g' \<Longrightarrow> gate_reachable g'"

section \<open>Invariant\<close>

text \<open>A call holds the slot when it is inside, or has been granted the slot and not resumed yet.\<close>

definition holds :: "gate \<Rightarrow> nat \<Rightarrow> bool" where
  "holds g w \<longleftrightarrow> (case g_calls g w of Inside \<Rightarrow> True | Waiting _ FResult _ \<Rightarrow> True | _ \<Rightarrow> False)"

definition queue_ok :: "gate \<Rightarrow> bool" where
  "queue_ok g \<longleftrightarrow>
     (\<forall>t. distinct (g_queues g t)) \<and>
     (\<forall>t w. w \<in> set (g_queues g t) \<longrightarrow>
        (\<exists>f c. g_calls g w = Waiting t f c \<and> f \<noteq> FResult)) \<and>
     (\<forall>t w c. g_calls g w = Waiting t FPending c \<longrightarrow> w \<in> set (g_queues g t)) \<and>
     (\<forall>w. g_next g \<le> w \<longrightarrow> g_calls g w = Absent)"

definition gate_inv :: "gate \<Rightarrow> bool" where
  "gate_inv g \<longleftrightarrow> queue_ok g \<and>
     (\<forall>v w. holds g v \<longrightarrow> holds g w \<longrightarrow> v = w) \<and>
     (g_active g \<longleftrightarrow> (\<exists>w. holds g w)) \<and>
     (\<forall>w. is_pending (g_calls g) w \<longrightarrow> g_active g)"

text \<open>No call holds the slot: the state in which \<open>_release\<close> runs.\<close>

definition vacant :: "gate \<Rightarrow> bool" where
  "vacant g \<longleftrightarrow> queue_ok g \<and> g_active g \<and> (\<forall>w. \<not> holds g w)"

lemma pop_pending_None:
  "pop_pending calls ws = (None, q) \<Longrightarrow> q = [] \<and> (\<forall>w \<in> set ws. \<not> is_pending calls w)"
  by (induction ws) (auto split: if_splits)

lemma pop_pending_Some:
  assumes "pop_pending calls ws = (Some w, q)"
  obtains pre where "ws = pre @ w # q" and "is_pending calls w" and "\<forall>v \<in> set pre. \<not> is_pending calls v"
  using assms
proof (induction ws arbitrary: thesis)
  case Nil
  then show ?case by simp
next
  case (Cons v ws)
  show ?case
  proof (cases "is_pending calls v")
    case True
    with Cons.prems(2) show ?thesis by (intro Cons.prems(1) [of "[]"]) auto
  next
    case False
    with Cons.prems(2) have "pop_pending calls ws = (Some w, q)" by simp
    then obtain pre where "ws = pre @ w # q" "is_pending calls w" "\<forall>v \<in> set pre. \<not> is_pending calls v"
      using Cons.IH by blast
    with False show ?thesis by (intro Cons.prems(1) [of "v # pre"]) auto
  qed
qed

lemma is_pendingE:
  assumes "is_pending calls w"
  obtains t c where "calls w = Waiting t FPending c"
  using assms by (auto simp: is_pending_def split: call_phase.splits waiter_future.splits)

lemma is_pendingI [simp]: "calls w = Waiting t FPending c \<Longrightarrow> is_pending calls w"
  by (simp add: is_pending_def)

text \<open>
  What a release over the tiers \<open>ts\<close> does to a vacant gate whose other tiers hold no pending
  waiter: it grants the first pending waiter of the smallest tier, or nobody waits and the gate is free.
\<close>

definition grants_first :: "exchange_tier list \<Rightarrow> gate \<Rightarrow> gate \<Rightarrow> bool" where
  "grants_first ts g g' \<longleftrightarrow> g_active g' \<and> (\<exists>w t pre post c. t \<in> set ts \<and>
     g_queues g t = pre @ w # post \<and> g_calls g w = Waiting t FPending c \<and>
     (\<forall>v \<in> set pre. \<not> is_pending (g_calls g) v) \<and>
     (\<forall>u v. u < t \<longrightarrow> v \<in> set (g_queues g u) \<longrightarrow> \<not> is_pending (g_calls g) v) \<and>
     g_calls g' = (g_calls g)(w := Waiting t FResult c))"

definition frees :: "gate \<Rightarrow> gate \<Rightarrow> bool" where
  "frees g g' \<longleftrightarrow> (\<forall>w. \<not> is_pending (g_calls g) w) \<and> g_calls g' = g_calls g \<and> \<not> g_active g'"

lemma grant_inv:
  assumes v: "vacant g" and ws: "g_queues g t = pre @ w # q" and w: "is_pending (g_calls g) w"
    and pre: "\<forall>v \<in> set pre. \<not> is_pending (g_calls g) v"
    and g': "g' = g\<lparr>g_queues := (g_queues g)(t := q), g_calls := (g_calls g)(w := set_result (g_calls g w))\<rparr>"
  obtains c where "g_calls g w = Waiting t FPending c" and "gate_inv g'" and "g_active g'"
    and "g_calls g' = (g_calls g)(w := Waiting t FResult c)"
proof -
  have ok: "queue_ok g" and act: "g_active g" and no: "\<And>x. \<not> holds g x"
    using v by (auto simp: vacant_def)
  obtain c where c: "g_calls g w = Waiting t FPending c"
  proof -
    have "w \<in> set (g_queues g t)" using ws by simp
    then obtain f d where "g_calls g w = Waiting t f d" using ok unfolding queue_ok_def by blast
    with w that show ?thesis by (cases f) (auto simp: is_pending_def)
  qed
  have calls: "g_calls g' = (g_calls g)(w := Waiting t FResult c)"
    using g' c by simp
  have dist: "distinct (pre @ w # q)" using ok ws by (metis queue_ok_def)
  have elem: "\<exists>f c. g_calls g x = Waiting u f c \<and> f \<noteq> FResult" if "x \<in> set (g_queues g u)" for x u
    using ok that by (auto simp: queue_ok_def)
  have sub: "set (g_queues g' u) \<subseteq> set (g_queues g u) - {w}" for u
    using g' ws dist elem [of w u] c by (cases "u = t") auto
  have "queue_ok g'"
    unfolding queue_ok_def
  proof (intro conjI allI impI)
    show "distinct (g_queues g' u)" for u
      using g' dist ok by (auto simp: queue_ok_def)
    show "\<exists>f c. g_calls g' x = Waiting u f c \<and> f \<noteq> FResult" if "x \<in> set (g_queues g' u)" for u x
      using that sub [of u] elem [of x u] calls by auto
    show "x \<in> set (g_queues g' u)" if "g_calls g' x = Waiting u FPending d" for u x d
    proof -
      have x: "x \<noteq> w" "g_calls g x = Waiting u FPending d" using that calls by (auto split: if_splits)
      then have "x \<in> set (g_queues g u)" using ok by (auto simp: queue_ok_def)
      then show ?thesis using x ws pre g' by (cases "u = t") auto
    qed
    show "g_calls g' x = Absent" if "g_next g' \<le> x" for x
      using that ok c calls g' by (auto simp: queue_ok_def)
  qed
  moreover have "holds g' x \<longleftrightarrow> x = w" for x
    using no [of x] calls by (auto simp: holds_def)
  moreover have "g_active g'" using act g' by simp
  ultimately have "gate_inv g'" "g_active g'" by (auto simp: gate_inv_def)
  with that c calls show ?thesis by blast
qed

lemma release_from_vacant:
  assumes "vacant g" and "\<And>t w. t \<notin> set ts \<Longrightarrow> w \<in> set (g_queues g t) \<Longrightarrow> \<not> is_pending (g_calls g) w"
    and "sorted_wrt (<) ts"
  shows "gate_inv (release_from ts g) \<and>
    (grants_first ts g (release_from ts g) \<or> frees g (release_from ts g))"
  using assms
proof (induction ts arbitrary: g)
  case Nil
  have none: "\<not> is_pending (g_calls g) w" for w
  proof
    assume p: "is_pending (g_calls g) w"
    then obtain t c where "g_calls g w = Waiting t FPending c" by (rule is_pendingE)
    then have "w \<in> set (g_queues g t)"
      using Nil.prems(1) unfolding vacant_def queue_ok_def by blast
    with Nil.prems(2) p show False by simp
  qed
  have "queue_ok (g\<lparr>g_active := False\<rparr>)" "\<And>w. holds (g\<lparr>g_active := False\<rparr>) w = holds g w"
    using Nil.prems(1) by (auto simp: vacant_def queue_ok_def holds_def)
  with none Nil.prems(1) show ?case
    by (auto simp: gate_inv_def vacant_def frees_def)
next
  case (Cons t ts)
  have lt: "\<And>u. u \<in> set ts \<Longrightarrow> t < u" "sorted_wrt (<) ts" "t \<notin> set ts"
    using Cons.prems(3) by auto
  obtain r q where pp: "pop_pending (g_calls g) (g_queues g t) = (r, q)" by fastforce
  show ?case
  proof (cases r)
    case (Some w)
    from pp Some obtain pre where ws: "g_queues g t = pre @ w # q" and w: "is_pending (g_calls g) w"
      and pre: "\<forall>v \<in> set pre. \<not> is_pending (g_calls g) v"
      by (auto elim: pop_pending_Some)
    obtain c where c: "g_calls g w = Waiting t FPending c" and i: "gate_inv (release_from (t # ts) g)"
      and a: "g_active (release_from (t # ts) g)"
      and u: "g_calls (release_from (t # ts) g) = (g_calls g)(w := Waiting t FResult c)"
      by (rule grant_inv [OF Cons.prems(1) ws w pre, of "release_from (t # ts) g"]) (use pp Some in auto)
    have low: "\<not> is_pending (g_calls g) v" if "u < t" "v \<in> set (g_queues g u)" for u v
    proof -
      have "u \<notin> set (t # ts)" using that(1) lt(1) less_asym by auto
      then show ?thesis using Cons.prems(2) that(2) by blast
    qed
    have "t \<in> set (t # ts)" by simp
    with ws c pre low u have "\<exists>w t' pre post c. t' \<in> set (t # ts) \<and>
        g_queues g t' = pre @ w # post \<and> g_calls g w = Waiting t' FPending c \<and>
        (\<forall>v \<in> set pre. \<not> is_pending (g_calls g) v) \<and>
        (\<forall>u v. u < t' \<longrightarrow> v \<in> set (g_queues g u) \<longrightarrow> \<not> is_pending (g_calls g) v) \<and>
        g_calls (release_from (t # ts) g) = (g_calls g)(w := Waiting t' FResult c)"
      by metis
    with a have "grants_first (t # ts) g (release_from (t # ts) g)"
      unfolding grants_first_def by (rule conjI)
    with i show ?thesis by blast
  next
    case None
    let ?g = "g\<lparr>g_queues := (g_queues g)(t := [])\<rparr>"
    have q: "q = []" "\<forall>w \<in> set (g_queues g t). \<not> is_pending (g_calls g) w"
      using pop_pending_None pp None by blast+
    have r: "release_from (t # ts) g = release_from ts ?g" using pp None q by simp
    have nop: "g_calls g w \<noteq> Waiting t FPending c" for w c
    proof
      assume w: "g_calls g w = Waiting t FPending c"
      then have "w \<in> set (g_queues g t)"
        using Cons.prems(1) unfolding vacant_def queue_ok_def by blast
      with q(2) have "\<not> is_pending (g_calls g) w" by blast
      with w show False by (simp add: is_pending_def)
    qed
    have vac: "vacant ?g"
      using Cons.prems(1) nop by (simp add: vacant_def queue_ok_def holds_def)
    have "gate_inv (release_from ts ?g) \<and>
        (grants_first ts ?g (release_from ts ?g) \<or> frees ?g (release_from ts ?g))"
      by (rule Cons.IH [OF vac _ lt(2)]) (use Cons.prems(2) in \<open>auto split: if_splits\<close>)
    moreover have "grants_first (t # ts) g g'" if "grants_first ts ?g g'" for g'
    proof -
      from that obtain w u pre post c where *: "u \<in> set ts" "g_queues ?g u = pre @ w # post"
        "g_calls g w = Waiting u FPending c" "\<forall>v \<in> set pre. \<not> is_pending (g_calls g) v"
        "\<forall>u' v. u' < u \<longrightarrow> v \<in> set (g_queues ?g u') \<longrightarrow> \<not> is_pending (g_calls g) v"
        "g_calls g' = (g_calls g)(w := Waiting u FResult c)" "g_active g'"
        unfolding grants_first_def by auto
      have "u \<noteq> t" using *(1) lt(3) by blast
      then have "g_queues g u = pre @ w # post" using *(2) by simp
      moreover have "\<not> is_pending (g_calls g) v" if "u' < u" "v \<in> set (g_queues g u')" for u' v
        using *(5) that q(2) by (cases "u' = t") auto
      ultimately show ?thesis
        unfolding grants_first_def using * by (metis list.set_intros(2))
    qed
    ultimately show ?thesis using r by (auto simp: frees_def)
  qed
qed

lemma release_vacant:
  "vacant g \<Longrightarrow> gate_inv (release_gate g) \<and>
    (grants_first tiers g (release_gate g) \<or> frees g (release_gate g))"
  unfolding release_gate_def by (rule release_from_vacant) (simp_all add: sorted_tiers)

text \<open>Dropping the holder of the slot leaves the gate vacant.\<close>

lemma vacant_after:
  assumes "gate_inv g" and "holds g w"
  shows "vacant (g\<lparr>g_calls := (g_calls g)(w := Gone)\<rparr>)"
proof -
  have ok: "queue_ok g" and only: "\<And>v. holds g v \<Longrightarrow> v = w" and act: "g_active g"
    using assms unfolding gate_inv_def by blast+
  have "w \<notin> set (g_queues g t)" for t
    using ok assms(2) by (force simp: queue_ok_def holds_def split: call_phase.splits waiter_future.splits)
  then have "queue_ok (g\<lparr>g_calls := (g_calls g)(w := Gone)\<rparr>)"
    using ok assms(2)
    by (auto simp: queue_ok_def holds_def split: if_splits)
  moreover have "\<not> holds (g\<lparr>g_calls := (g_calls g)(w := Gone)\<rparr>) v" for v
    using only [of v] by (auto simp: holds_def)
  ultimately show ?thesis using act by (simp add: vacant_def)
qed

lemma gate_inv_init: "gate_inv gate_init"
  by (simp add: gate_inv_def queue_ok_def gate_init_def holds_def is_pending_def)

lemma admit_inv:
  assumes "gate_inv g"
  shows "gate_inv (admit t g)"
proof -
  have ok: "queue_ok g" and uniq: "\<And>v w. holds g v \<Longrightarrow> holds g w \<Longrightarrow> v = w"
    and act: "g_active g \<longleftrightarrow> (\<exists>w. holds g w)" and pend: "\<And>w. is_pending (g_calls g) w \<Longrightarrow> g_active g"
    using assms unfolding gate_inv_def by blast+
  have fresh: "g_calls g (g_next g) = Absent" "\<And>u. g_next g \<notin> set (g_queues g u)"
    using ok by (auto simp: queue_ok_def) (metis call_phase.distinct(1) order_refl)
  have "queue_ok (admit t g)"
    using ok fresh by (auto simp: queue_ok_def admit_def Let_def)
  moreover have "holds (admit t g) v \<longleftrightarrow> (if v = g_next g then \<not> g_active g else holds g v)" for v
    by (simp add: holds_def admit_def Let_def)
  moreover have "is_pending (g_calls (admit t g)) v \<Longrightarrow> g_active (admit t g)" for v
    by (simp add: admit_def Let_def)
  moreover have "g_active (admit t g)" by (simp add: admit_def Let_def)
  moreover have "\<not> holds g (g_next g)" using fresh(1) by (simp add: holds_def)
  ultimately show ?thesis
    using uniq act unfolding gate_inv_def by metis
qed

lemma cancel_inv:
  assumes "gate_inv g" and "cancel_call w g = Some g'"
  shows "gate_inv g'"
proof -
  obtain t f c where w: "g_calls g w = Waiting t f c" and f: "f \<noteq> FCancelled"
    and g': "g' = g\<lparr>g_calls := (g_calls g)(w :=
      (if f = FPending then Waiting t FCancelled c else Waiting t FResult True))\<rparr>"
    using assms(2) by (auto simp: cancel_call_def split: call_phase.splits waiter_future.splits)
  have ok: "queue_ok g" using assms(1) by (simp add: gate_inv_def)
  have "queue_ok g'"
    unfolding queue_ok_def
  proof (intro conjI allI impI)
    show "distinct (g_queues g' u)" for u using ok by (simp add: g' queue_ok_def)
    show "\<exists>f c. g_calls g' x = Waiting u f c \<and> f \<noteq> FResult" if "x \<in> set (g_queues g' u)" for u x
    proof -
      have "\<exists>f c. g_calls g x = Waiting u f c \<and> f \<noteq> FResult"
        using that ok by (simp add: g' queue_ok_def)
      with w f show ?thesis by (cases f) (auto simp: g')
    qed
    show "x \<in> set (g_queues g' u)" if "g_calls g' x = Waiting u FPending d" for u x d
      using that ok by (simp add: g' queue_ok_def split: if_splits)
    show "g_calls g' x = Absent" if "g_next g' \<le> x" for x
      using that ok w by (auto simp: g' queue_ok_def)
  qed
  moreover have "holds g' v \<longleftrightarrow> holds g v" for v
    using w f unfolding g' by (cases f) (auto simp: holds_def)
  moreover have "is_pending (g_calls g') v \<Longrightarrow> is_pending (g_calls g) v" for v
    unfolding g' by (auto simp: is_pending_def split: if_splits)
  moreover have "g_active g' = g_active g" unfolding g' by simp
  ultimately show ?thesis using assms(1) by (simp add: gate_inv_def) blast
qed

lemma abandon_inv:
  assumes "gate_inv g" and "g_calls g w = Waiting t FCancelled c"
  shows "gate_inv (g\<lparr>g_queues := (g_queues g)(t := remove1 w (g_queues g t)),
    g_calls := (g_calls g)(w := Gone)\<rparr>)" (is "gate_inv ?g")
proof -
  have ok: "queue_ok g" using assms(1) by (simp add: gate_inv_def)
  have "w \<notin> set (g_queues g u)" if "u \<noteq> t" for u
  proof
    assume "w \<in> set (g_queues g u)"
    then obtain f d where "g_calls g w = Waiting u f d" using ok unfolding queue_ok_def by blast
    with assms(2) that show False by simp
  qed
  then have "queue_ok ?g"
    using ok assms(2) by (auto simp: queue_ok_def split: if_splits)
  moreover have "holds ?g v \<longleftrightarrow> holds g v" for v
    using assms(2) by (simp add: holds_def)
  moreover have "is_pending (g_calls ?g) v \<Longrightarrow> is_pending (g_calls g) v" for v
    by (auto simp: is_pending_def split: if_splits)
  ultimately show ?thesis using assms(1) by (simp add: gate_inv_def) blast
qed

lemma leave_inv:
  "gate_inv g \<Longrightarrow> leave_call w g = Some g' \<Longrightarrow> gate_inv g'"
  using vacant_after [of g w] release_vacant
  by (auto simp: leave_call_def holds_def split: call_phase.splits)

lemma resume_inv:
  assumes "gate_inv g" and "resume_call w g = Some g'"
  shows "gate_inv g'"
proof -
  obtain t f c where w: "g_calls g w = Waiting t f c" "f \<noteq> FPending"
    using assms(2) by (auto simp: resume_call_def split: call_phase.splits waiter_future.splits)
  consider "f = FCancelled" | "f = FResult" "c" | "f = FResult" "\<not> c"
    using w(2) by (cases f) auto
  then show ?thesis
  proof cases
    case 1
    with assms w abandon_inv [of g w t c] show ?thesis by (simp add: resume_call_def)
  next
    case 2
    with w have "holds g w" by (simp add: holds_def)
    from release_vacant [OF vacant_after [OF assms(1) this]]
    have "gate_inv (release_gate (g\<lparr>g_calls := (g_calls g)(w := Gone)\<rparr>))" ..
    with 2 assms w show ?thesis by (auto simp: resume_call_def)
  next
    case 3
    let ?g = "g\<lparr>g_calls := (g_calls g)(w := Inside)\<rparr>"
    have hw: "holds g w" using 3 w by (simp add: holds_def)
    have hv: "holds ?g v \<longleftrightarrow> holds g v" for v using hw by (simp add: holds_def)
    have "w \<notin> set (g_queues g u)" for u
      using assms(1) 3 w unfolding gate_inv_def queue_ok_def by force
    then have "queue_ok ?g"
      using assms(1) 3 w by (auto simp: gate_inv_def queue_ok_def split: if_splits)
    moreover have "is_pending (g_calls ?g) v \<Longrightarrow> is_pending (g_calls g) v" for v
      by (auto simp: is_pending_def split: if_splits)
    ultimately have "gate_inv ?g" using assms(1) hv by (simp add: gate_inv_def) blast
    with 3 assms w show ?thesis by (simp add: resume_call_def)
  qed
qed

lemma gate_reachable_inv: "gate_reachable g \<Longrightarrow> gate_inv g"
proof (induction rule: gate_reachable.induct)
  case start
  show ?case by (rule gate_inv_init)
next
  case (further g e g')
  from further(2,3) show ?case
    by (cases rule: gate_step.cases) (auto intro: admit_inv cancel_inv resume_inv leave_inv)
qed

section \<open>Properties\<close>

text \<open>
  C34. One exchange at a time: in every reachable state, under every interleaving of arrivals,
  cancellations, resumptions and exits, at most one call is inside its exchange, and then the gate is active.
\<close>

theorem one_exchange_at_a_time:
  assumes "gate_reachable g" and "g_calls g v = Inside" and "g_calls g w = Inside"
  shows "v = w \<and> g_active g"
proof -
  have "holds g v" "holds g w" using assms by (simp_all add: holds_def)
  then show ?thesis using gate_reachable_inv [OF assms(1)] unfolding gate_inv_def by blast
qed

text \<open>
  No lost wakeup: while a call waits with a pending future, it stands in the queue of its
  tier, the gate is active, and exactly one call holds the slot: it is inside and will leave, or its future
  is done and it will resume. So a cancellation never strands the waiters behind it.
\<close>

theorem waiter_has_a_holder:
  assumes "gate_reachable g" and "g_calls g w = Waiting t FPending c"
  shows "w \<in> set (g_queues g t) \<and> g_active g \<and>
    (\<exists>!h. g_calls g h = Inside \<or> (\<exists>u d. g_calls g h = Waiting u FResult d))"
proof -
  have inv: "gate_inv g" by (rule gate_reachable_inv [OF assms(1)])
  have h: "holds g h \<longleftrightarrow> g_calls g h = Inside \<or> (\<exists>u d. g_calls g h = Waiting u FResult d)" for h
    by (auto simp: holds_def split: call_phase.splits waiter_future.splits)
  have "w \<in> set (g_queues g t)" "g_active g"
    using inv assms(2) is_pendingI [where calls = "g_calls g", OF assms(2)]
    unfolding gate_inv_def queue_ok_def by blast+
  moreover from this(2) inv have "\<exists>!h. holds g h" unfolding gate_inv_def by blast
  ultimately show ?thesis by (simp add: h)
qed

text \<open>
  Strict priority, first come first served within a tier: when the call inside leaves, either
  nobody waits and the gate becomes free, or the slot is granted to exactly one pending waiter: no pending
  waiter is queued in a more urgent tier, and none stands before it in its own.
\<close>

theorem release_prefers_urgent:
  assumes "gate_reachable g" and "gate_step g (Leave w) g'"
  shows "(\<exists>v t pre post c. g_queues g t = pre @ v # post \<and> g_calls g v = Waiting t FPending c \<and>
      (\<forall>x \<in> set pre. \<not> is_pending (g_calls g) x) \<and>
      (\<forall>u x. u < t \<longrightarrow> x \<in> set (g_queues g u) \<longrightarrow> \<not> is_pending (g_calls g) x) \<and>
      g_calls g' = (g_calls g)(w := Gone, v := Waiting t FResult c)) \<or>
    ((\<forall>x. \<not> is_pending (g_calls g) x) \<and> \<not> g_active g' \<and> g_calls g' = (g_calls g)(w := Gone))"
proof -
  let ?g = "g\<lparr>g_calls := (g_calls g)(w := Gone)\<rparr>"
  have inv: "gate_inv g" by (rule gate_reachable_inv [OF assms(1)])
  from assms(2) have w: "g_calls g w = Inside" and g': "g' = release_gate ?g"
    by (auto elim!: gate_step_LeaveE simp: leave_call_def split: call_phase.splits)
  have hw: "holds g w" using w by (simp add: holds_def)
  have p: "is_pending ((g_calls g)(w := Gone)) x \<longleftrightarrow> is_pending (g_calls g) x" for x
    using w by (auto simp: is_pending_def)
  from release_vacant [OF vacant_after [OF inv hw]]
  consider (grant) "grants_first tiers ?g g'" | (free) "frees ?g g'" unfolding g' by blast
  then show ?thesis
  proof cases
    case free
    then show ?thesis by (auto simp: frees_def p)
  next
    case grant
    then obtain v t pre post c where *: "g_queues g t = pre @ v # post"
      "((g_calls g)(w := Gone)) v = Waiting t FPending c" "\<forall>x \<in> set pre. \<not> is_pending (g_calls g) x"
      "\<forall>u x. u < t \<longrightarrow> x \<in> set (g_queues g u) \<longrightarrow> \<not> is_pending (g_calls g) x"
      "g_calls g' = (g_calls g)(w := Gone, v := Waiting t FResult c)"
      unfolding grants_first_def by (auto simp: p)
    then have "g_calls g v = Waiting t FPending c" by (simp split: if_splits)
    with * show ?thesis by blast
  qed
qed

text \<open>
  A cancelled call never enters: once a cancellation has reached a waiting call, before or after it was
  granted the slot, the call ends without entering, and if it had been granted the slot, the slot is passed on
  as by an exit.
\<close>

theorem cancelled_call_never_enters:
  assumes "gate_reachable g" and "gate_step g (Cancel w) g'" and "gate_step g' (Resume w) g''"
  shows "g_calls g'' w = Gone \<and> ((\<exists>x. is_pending (g_calls g'') x) \<longrightarrow> g_active g'')"
proof -
  have "gate_reachable g'" "gate_reachable g''"
    using assms gate_reachable.further by blast+
  then have inv: "gate_inv g'" "gate_inv g''" by (simp_all add: gate_reachable_inv)
  from assms(2) obtain t f c where w: "g_calls g' w = Waiting t f c" "f = FCancelled \<or> f = FResult \<and> c"
    by (auto elim!: gate_step.cases simp: cancel_call_def split: call_phase.splits waiter_future.splits)
  have r: "resume_call w g' = Some g''"
    using assms(3) by (auto elim: gate_step_ResumeE)
  have "g_calls g'' w = Gone"
  proof (cases "f = FCancelled")
    case True
    with r w show ?thesis by (auto simp: resume_call_def)
  next
    case False
    let ?g = "g'\<lparr>g_calls := (g_calls g')(w := Gone)\<rparr>"
    have g'': "g'' = release_gate ?g" using False r w by (auto simp: resume_call_def)
    have "holds g' w" using False w by (simp add: holds_def)
    from release_vacant [OF vacant_after [OF inv(1) this]]
    have "grants_first tiers ?g g'' \<or> frees ?g g''" unfolding g'' by blast
    then show ?thesis by (auto simp: grants_first_def frees_def split: if_splits)
  qed
  with inv(2) show ?thesis by (auto simp: gate_inv_def)
qed

section \<open>A concrete interleaving\<close>

text \<open>Call 0 is inside; calls 1 (ordinary) and 2 (urgent) wait.\<close>

definition demo_gate :: gate where
  "demo_gate = admit URGENT (admit ORDINARY (admit ORDINARY gate_init))"

lemma demo_gate_reachable: "gate_reachable demo_gate"
  unfolding demo_gate_def
  by (intro gate_reachable.further [OF _ gate_step.arrive] gate_reachable.start)

lemma demo_gate_calls:
  "g_calls demo_gate 0 = Inside" "g_calls demo_gate (Suc 0) = Waiting ORDINARY FPending False"
  "g_calls demo_gate 2 = Waiting URGENT FPending False"
  by (simp_all add: demo_gate_def admit_def gate_init_def Let_def)

theorem one_exchange_at_a_time_witness:
  "g_calls demo_gate 0 = Inside \<and> g_active demo_gate"
  using one_exchange_at_a_time [OF demo_gate_reachable demo_gate_calls(1) demo_gate_calls(1)]
    demo_gate_calls(1) by simp

theorem waiter_has_a_holder_witness:
  "Suc 0 \<in> set (g_queues demo_gate ORDINARY) \<and> g_active demo_gate"
  using waiter_has_a_holder [OF demo_gate_reachable demo_gate_calls(2)] by simp

lemma demo_gate_leave: "gate_step demo_gate (Leave 0) (the (leave_call 0 demo_gate))"
  by (rule gate_step.leave) (simp add: leave_call_def demo_gate_calls)

theorem release_prefers_urgent_witness:
  "\<exists>v t c. g_calls (the (leave_call 0 demo_gate)) = (g_calls demo_gate)(0 := Gone, v := Waiting t FResult c)"
  using release_prefers_urgent [OF demo_gate_reachable demo_gate_leave]
    is_pendingI [where calls = "g_calls demo_gate", OF demo_gate_calls(2)] by blast

theorem cancelled_call_never_enters_witness:
  "\<exists>g'. g_calls g' (Suc 0) = Gone \<and>
    gate_step (the (cancel_call (Suc 0) demo_gate)) (Resume (Suc 0)) g'"
proof -
  let ?c = "the (cancel_call (Suc 0) demo_gate)"
  have c: "gate_step demo_gate (Cancel (Suc 0)) ?c"
    by (rule gate_step.cancel) (simp add: cancel_call_def demo_gate_calls)
  have "g_calls ?c (Suc 0) = Waiting ORDINARY FCancelled False"
    by (simp add: cancel_call_def demo_gate_calls)
  then have r: "gate_step ?c (Resume (Suc 0)) (the (resume_call (Suc 0) ?c))"
    by (intro gate_step.resume) (simp add: resume_call_def)
  from cancelled_call_never_enters [OF demo_gate_reachable c r] r show ?thesis by blast
qed

end
