(* ===== verification/CivTracker.thy ===== *)
theory CivTracker
  imports CivFrames "HOL-Library.Sublist"
begin

text \<open>
  \<open>core/civ.py\<close> beside the buffer scanner (which is in \<open>CivFrames\<close>): request keys, the tracker of
  pending CI-V requests, and the ledger of owed PTT replies.

  A future is a number; \<open>tr_futs\<close> gives its state, which is the part of \<open>asyncio.Future\<close> the tracker uses. The
  readings of \<open>time.monotonic()\<close> an operation makes are its arguments, one per call site of the source; in the loop
  of \<open>_retire_sinks_passed_by\<close> the readings overwrite each other and the argument is the last of them.
\<close>

section \<open>Request keys\<close>

datatype civ_event_type = Ev_ACK | Ev_NAK | Ev_RESPONSE | Ev_SCOPE_CHUNK | Ev_SCOPE_FRAME

record civ_event =
  ev_type :: civ_event_type
  ev_frame :: "civ_frame option"
  ev_receiver :: "int option"

record request_key =
  rk_command :: byte
  rk_sub :: "byte option"
  rk_receiver :: "byte option"
  rk_prefix :: "byte list"

definition data_prefix_commands :: "byte list" where
  "data_prefix_commands = [0x07, 0x25, 0x26]"

definition data_prefix_lengths :: "byte \<Rightarrow> byte option \<Rightarrow> nat list" where
  "data_prefix_lengths command sub = (if (command, sub) = (0x1A, Some 0x00) then [3, 4] else [])"

definition request_key_from_frame :: "civ_frame \<Rightarrow> request_key" where
  "request_key_from_frame fr =
     \<lparr>rk_command = cf_command fr, rk_sub = cf_sub fr, rk_receiver = cf_receiver fr,
      rk_prefix = (if cf_command fr \<in> set data_prefix_commands \<or>
                      length (cf_data fr) \<in> set (data_prefix_lengths (cf_command fr) (cf_sub fr))
                   then cf_data fr else [])\<rparr>"

definition read_identity_from_frame :: "civ_frame \<Rightarrow> request_key" where
  "read_identity_from_frame fr =
     \<lparr>rk_command = cf_command fr, rk_sub = cf_sub fr, rk_receiver = cf_receiver fr,
      rk_prefix = cf_data fr\<rparr>"

definition key_matches :: "request_key \<Rightarrow> civ_frame \<Rightarrow> bool" where
  "key_matches key fr =
     (if cf_command fr \<noteq> rk_command key then False
      else if cf_sub fr \<noteq> rk_sub key then False
      else if rk_receiver key \<noteq> None \<and> cf_receiver fr \<noteq> rk_receiver key then False
      else if rk_prefix key \<noteq> [] \<and> \<not> prefix (rk_prefix key) (cf_data fr) then False
      else True)"

definition BROADCAST_ADDR :: byte where
  "BROADCAST_ADDR = 0x00"

section \<open>The tracker\<close>

datatype future_error = Aborted | Expired

datatype future_state =
    Open
  | Answered civ_frame
  | Failed future_error
  | Withdrawn

record ack_waiter =
  aw_future :: "nat option"
  aw_token :: int
  aw_created :: time
  aw_gen :: int
  aw_nak_only :: bool
  aw_key :: "request_key option"
  aw_refused :: "request_key option"

record pending_request =
  pr_key :: request_key
  pr_future :: nat
  pr_created :: time
  pr_gen :: int

record backlog_entry =
  be_frame :: civ_frame
  be_created :: time
  be_gen :: int

record tracker =
  tr_acks :: "ack_waiter list"
  tr_resps :: "pending_request list"
  tr_backlog :: "backlog_entry list"
  tr_token :: int
  tr_gen :: int
  tr_ttl :: time
  tr_backlog_size :: int
  tr_backlog_ttl :: time
  tr_cleaned :: int
  tr_timeouts :: int
  tr_hits :: int
  tr_drops :: int
  tr_orphans :: int
  tr_unclaimed :: "time option"
  tr_refused :: "request_key list"
  tr_futs :: "nat \<Rightarrow> future_state"
  tr_next :: nat

definition tracker_init :: "time \<Rightarrow> int \<Rightarrow> time \<Rightarrow> tracker" where
  "tracker_init ttl cap bttl =
     \<lparr>tr_acks = [], tr_resps = [], tr_backlog = [], tr_token = 1, tr_gen = 0, tr_ttl = ttl,
      tr_backlog_size = max 0 cap, tr_backlog_ttl = max 0 bttl, tr_cleaned = 0, tr_timeouts = 0,
      tr_hits = 0, tr_drops = 0, tr_orphans = 0, tr_unclaimed = None, tr_refused = [],
      tr_futs = (\<lambda>_. Open), tr_next = 0\<rparr>"

definition is_done :: "tracker \<Rightarrow> nat \<Rightarrow> bool" where
  "is_done t f \<longleftrightarrow> tr_futs t f \<noteq> Open"

text \<open>\<open>if not future.done(): future.set_result(...)\<close> and the same with an exception.\<close>

definition settle :: "nat \<Rightarrow> future_state \<Rightarrow> tracker \<Rightarrow> tracker" where
  "settle f st t = (if is_done t f then t else t\<lparr>tr_futs := (tr_futs t)(f := st)\<rparr>)"

text \<open>\<open>loop.create_future()\<close>.\<close>

definition create_future :: "tracker \<Rightarrow> nat \<times> tracker" where
  "create_future t = (tr_next t, t\<lparr>tr_next := Suc (tr_next t), tr_futs := (tr_futs t)(tr_next t := Open)\<rparr>)"

definition pending_count :: "tracker \<Rightarrow> nat" where
  "pending_count t = length (tr_acks t) + length (tr_resps t)"

definition response_pending_count :: "time \<Rightarrow> time \<Rightarrow> tracker \<Rightarrow> nat" where
  "response_pending_count now max_age t =
     (let cutoff = now - max_age in
      length (filter (\<lambda>w. pr_created w > cutoff) (tr_resps t)) +
      length (filter (\<lambda>w. aw_key w \<noteq> None \<and> aw_created w > cutoff) (tr_acks t)))"

definition ack_sink_count :: "tracker \<Rightarrow> nat" where
  "ack_sink_count t = length (filter (\<lambda>w. aw_future w = None) (tr_acks t))"

definition note_timeout :: "tracker \<Rightarrow> tracker" where
  "note_timeout t = t\<lparr>tr_timeouts := tr_timeouts t + 1\<rparr>"

definition note_ack_unclaimed :: "time \<Rightarrow> tracker \<Rightarrow> tracker" where
  "note_ack_unclaimed now t = t\<lparr>tr_unclaimed := Some now\<rparr>"

text \<open>\<open>_prune_ack_backlog\<close>: what is kept, and how many entries are dropped.\<close>

fun prune_loop :: "int \<Rightarrow> time \<Rightarrow> time \<Rightarrow> backlog_entry list \<Rightarrow> backlog_entry list \<times> int" where
  "prune_loop gen ttl cutoff [] = ([], 0)"
| "prune_loop gen ttl cutoff (e # es) =
     (if be_gen e \<noteq> gen then (let (kept, n) = prune_loop gen ttl cutoff es in (kept, n + 1))
      else if ttl > 0 \<and> be_created e > cutoff then (e # es, 0)
      else (let (kept, n) = prune_loop gen ttl cutoff es in (kept, n + 1)))"

definition prune_ack_backlog :: "time \<Rightarrow> tracker \<Rightarrow> tracker" where
  "prune_ack_backlog now t =
     (if tr_backlog t = [] then t
      else let (kept, n) = prune_loop (tr_gen t) (tr_backlog_ttl t) (now - tr_backlog_ttl t) (tr_backlog t)
           in t\<lparr>tr_backlog := kept, tr_drops := tr_drops t + n\<rparr>)"

fun pop_first_nak :: "backlog_entry list \<Rightarrow> backlog_entry option \<times> backlog_entry list" where
  "pop_first_nak [] = (None, [])"
| "pop_first_nak (e # es) =
     (if cf_command (be_frame e) = 0xFA then (Some e, es)
      else (let (found, rest) = pop_first_nak es in (found, e # rest)))"

definition pop_matching_ack_backlog :: "bool \<Rightarrow> tracker \<Rightarrow> backlog_entry option \<times> tracker" where
  "pop_matching_ack_backlog nak_only t =
     (case tr_backlog t of
        [] \<Rightarrow> (None, t)
      | e # es \<Rightarrow>
          (if \<not> nak_only then (Some e, t\<lparr>tr_backlog := es\<rparr>)
           else (let (found, rest) = pop_first_nak (tr_backlog t)
                 in (found, t\<lparr>tr_backlog := rest\<rparr>))))"

text \<open>\<open>register_ack(wait=True)\<close> returns the future, \<open>register_ack(wait=False)\<close> the sink token.\<close>

definition register_ack_wait :: "time \<Rightarrow> bool \<Rightarrow> bool \<Rightarrow> tracker \<Rightarrow> nat \<times> tracker" where
  "register_ack_wait created consume_backlog nak_only t0 =
     (let token = tr_token t0;
          t1 = prune_ack_backlog created (t0\<lparr>tr_token := token + 1\<rparr>);
          (f, t2) = create_future t1;
          (cached, t3) = (if consume_backlog then pop_matching_ack_backlog nak_only t2 else (None, t2))
      in case cached of
           Some e \<Rightarrow> (f, (settle f (Answered (be_frame e)) t3)\<lparr>tr_hits := tr_hits t3 + 1\<rparr>)
         | None \<Rightarrow> (f, t3\<lparr>tr_acks := tr_acks t3 @ [\<lparr>aw_future = Some f, aw_token = token,
             aw_created = created, aw_gen = tr_gen t3, aw_nak_only = nak_only, aw_key = None,
             aw_refused = None\<rparr>]\<rparr>))"

definition register_ack_sink ::
  "time \<Rightarrow> request_key option \<Rightarrow> request_key option \<Rightarrow> tracker \<Rightarrow> int \<times> tracker" where
  "register_ack_sink created response_key refused_read t0 =
     (let token = tr_token t0;
          t1 = prune_ack_backlog created (t0\<lparr>tr_token := token + 1\<rparr>)
      in (token, t1\<lparr>tr_acks := tr_acks t1 @ [\<lparr>aw_future = None, aw_token = token,
            aw_created = created, aw_gen = tr_gen t1, aw_nak_only = False, aw_key = response_key,
            aw_refused = refused_read\<rparr>]\<rparr>))"

definition take_refused_reads :: "tracker \<Rightarrow> request_key list \<times> tracker" where
  "take_refused_reads t = (tr_refused t, t\<lparr>tr_refused := []\<rparr>)"

definition register_response :: "time \<Rightarrow> request_key \<Rightarrow> tracker \<Rightarrow> nat \<times> tracker" where
  "register_response created key t =
     (let (f, t1) = create_future t
      in (f, t1\<lparr>tr_resps := tr_resps t1 @ [\<lparr>pr_key = key, pr_future = f, pr_created = created,
            pr_gen = tr_gen t1\<rparr>]\<rparr>))"

definition unregister :: "nat \<Rightarrow> tracker \<Rightarrow> tracker" where
  "unregister f t = t\<lparr>tr_acks := filter (\<lambda>w. aw_future w \<noteq> Some f) (tr_acks t),
     tr_resps := filter (\<lambda>w. pr_future w \<noteq> f) (tr_resps t)\<rparr>"

fun remove_sink :: "int \<Rightarrow> ack_waiter list \<Rightarrow> (ack_waiter list) option" where
  "remove_sink token [] = None"
| "remove_sink token (w # ws) =
     (if aw_token w = token \<and> aw_future w = None then Some ws
      else map_option ((#) w) (remove_sink token ws))"

definition unregister_ack_sink :: "int \<Rightarrow> tracker \<Rightarrow> bool \<times> tracker" where
  "unregister_ack_sink token t =
     (case remove_sink token (tr_acks t) of
        None \<Rightarrow> (False, t)
      | Some ws \<Rightarrow> (True, t\<lparr>tr_acks := ws\<rparr>))"

definition drop_ack_sinks :: "time \<Rightarrow> tracker \<Rightarrow> nat \<times> tracker" where
  "drop_ack_sinks now t =
     (let t1 = (if list_ex (\<lambda>w. aw_future w = None \<and> aw_key w = None) (tr_acks t)
                then note_ack_unclaimed now t else t);
          kept = filter (\<lambda>w. aw_future w \<noteq> None) (tr_acks t1)
      in (length (tr_acks t) - length kept, t1\<lparr>tr_acks := kept\<rparr>))"

definition drop_ack_backlog :: "tracker \<Rightarrow> nat \<times> tracker" where
  "drop_ack_backlog t =
     (length (tr_backlog t),
      t\<lparr>tr_backlog := [], tr_drops := tr_drops t + int (length (tr_backlog t))\<rparr>)"

text \<open>Expiring one waiter: its future fails and the timeout is counted, unless it is done already.\<close>

definition expire_future :: "nat \<Rightarrow> tracker \<Rightarrow> tracker" where
  "expire_future f t =
     (if is_done t f then t else note_timeout (settle f (Failed Expired) t))"

fun expire_acks :: "time \<Rightarrow> ack_waiter list \<Rightarrow> tracker \<Rightarrow> tracker" where
  "expire_acks cutoff [] t = t"
| "expire_acks cutoff (w # ws) t =
     expire_acks cutoff ws
       (if aw_created w > cutoff then t
        else case aw_future w of None \<Rightarrow> t | Some f \<Rightarrow> expire_future f t)"

fun expire_resps :: "time \<Rightarrow> pending_request list \<Rightarrow> tracker \<Rightarrow> tracker" where
  "expire_resps cutoff [] t = t"
| "expire_resps cutoff (w # ws) t =
     expire_resps cutoff ws (if pr_created w > cutoff then t else expire_future (pr_future w) t)"

definition cleanup_stale :: "time \<Rightarrow> tracker \<Rightarrow> int \<times> tracker" where
  "cleanup_stale now t =
     (let cutoff = now - tr_ttl t;
          acks = tr_acks t; resps = tr_resps t;
          fresh_acks = filter (\<lambda>w. aw_created w > cutoff) acks;
          fresh_resps = filter (\<lambda>w. pr_created w > cutoff) resps;
          t1 = (expire_acks cutoff acks t)\<lparr>tr_acks := fresh_acks\<rparr>;
          t2 = (expire_resps cutoff resps t1)\<lparr>tr_resps := fresh_resps\<rparr>;
          cleaned = int (length acks - length fresh_acks) + int (length resps - length fresh_resps)
      in (cleaned, t2\<lparr>tr_cleaned := tr_cleaned t2 + cleaned\<rparr>))"

definition fail_futures :: "nat list \<Rightarrow> tracker \<Rightarrow> tracker" where
  "fail_futures fs t = fold (\<lambda>f. settle f (Failed Aborted)) fs t"

definition fail_all :: "tracker \<Rightarrow> tracker" where
  "fail_all t =
     (let t1 = (fail_futures (List.map_filter aw_future (tr_acks t)) t)
                 \<lparr>tr_acks := [], tr_backlog := [], tr_refused := []\<rparr>
      in (fail_futures (map pr_future (tr_resps t1)) t1)\<lparr>tr_resps := []\<rparr>)"

definition advance_generation :: "tracker \<Rightarrow> int \<times> tracker" where
  "advance_generation t =
     (let t1 = fail_all t; t2 = t1\<lparr>tr_gen := tr_gen t1 + 1\<rparr> in (tr_gen t2, t2))"

text \<open>
  The loop over the ACK waiters: what stays before and after the waiter that takes the answer, and that
  waiter. A waiter of another generation and one whose future is done are popped on the way.
\<close>

fun ack_loop ::
  "int \<Rightarrow> bool \<Rightarrow> (nat \<Rightarrow> future_state) \<Rightarrow> ack_waiter list \<Rightarrow> ack_waiter list \<times> ack_waiter option" where
  "ack_loop gen is_nak futs [] = ([], None)"
| "ack_loop gen is_nak futs (w # ws) =
     (if aw_gen w \<noteq> gen then ack_loop gen is_nak futs ws
      else if aw_nak_only w \<and> \<not> is_nak then
        (let (kept, taker) = ack_loop gen is_nak futs ws in (w # kept, taker))
      else case aw_future w of
          Some f \<Rightarrow> (if futs f = Open then (ws, Some w) else ack_loop gen is_nak futs ws)
        | None \<Rightarrow> (ws, Some w))"

definition park_orphan :: "time \<Rightarrow> civ_frame \<Rightarrow> tracker \<Rightarrow> bool \<times> tracker" where
  "park_orphan now fr t0 =
     (let t = t0\<lparr>tr_orphans := tr_orphans t0 + 1\<rparr> in
      if tr_backlog_size t \<le> 0 then (False, t\<lparr>tr_drops := tr_drops t + 1\<rparr>)
      else
        let t1 = (if int (length (tr_backlog t)) \<ge> tr_backlog_size t
                  then t\<lparr>tr_backlog := tl (tr_backlog t), tr_drops := tr_drops t + 1\<rparr> else t)
        in (True, t1\<lparr>tr_backlog := tr_backlog t1 @ [\<lparr>be_frame = fr, be_created = now, be_gen = tr_gen t1\<rparr>]\<rparr>))"

definition resolve_ack :: "time \<Rightarrow> time \<Rightarrow> bool \<Rightarrow> civ_frame \<Rightarrow> tracker \<Rightarrow> bool \<times> tracker" where
  "resolve_ack now_prune now_park is_nak fr t0 =
     (let t = prune_ack_backlog now_prune t0;
          (kept, taker) = ack_loop (tr_gen t) is_nak (tr_futs t) (tr_acks t);
          t1 = t\<lparr>tr_acks := kept\<rparr>
      in case taker of
           Some w \<Rightarrow> (case aw_future w of
               Some f \<Rightarrow> (True, settle f (Answered fr) t1)
             | None \<Rightarrow> (True, (case (is_nak, aw_refused w) of
                   (True, Some r) \<Rightarrow> t1\<lparr>tr_refused := tr_refused t1 @ [r]\<rparr>
                 | _ \<Rightarrow> t1)))
         | None \<Rightarrow> park_orphan now_park fr t1)"

fun response_loop :: "int \<Rightarrow> civ_frame \<Rightarrow> pending_request list \<Rightarrow> pending_request list \<times> pending_request option" where
  "response_loop gen fr [] = ([], None)"
| "response_loop gen fr (p # ps) =
     (if pr_gen p \<noteq> gen then response_loop gen fr ps
      else if key_matches (pr_key p) fr then (ps, Some p)
      else (let (kept, taker) = response_loop gen fr ps in (p # kept, taker)))"

text \<open>The sinks the answer passed, the sink it retires, and the rest.\<close>

fun sink_split :: "civ_frame \<Rightarrow> ack_waiter list \<Rightarrow> (ack_waiter list \<times> ack_waiter list) option" where
  "sink_split fr [] = None"
| "sink_split fr (w # ws) =
     (if (case aw_key w of None \<Rightarrow> False | Some k \<Rightarrow> key_matches k fr) then Some ([], ws)
      else map_option (\<lambda>(older, rest). (w # older, rest)) (sink_split fr ws))"

definition retire_sinks_passed_by :: "time \<Rightarrow> ack_waiter list \<Rightarrow> ack_waiter list \<Rightarrow> tracker \<Rightarrow> tracker" where
  "retire_sinks_passed_by now older rest t =
     (let kept = filter (\<lambda>w. aw_future w \<noteq> None) older;
          t1 = (if list_ex (\<lambda>w. aw_future w = None \<and> aw_key w = None) older
                then note_ack_unclaimed now t else t)
      in t1\<lparr>tr_acks := kept @ rest\<rparr>)"

definition resolve_response :: "time \<Rightarrow> bool \<Rightarrow> civ_frame \<Rightarrow> tracker \<Rightarrow> bool \<times> tracker" where
  "resolve_response now ordered fr t0 =
     (let (kept, taker) = response_loop (tr_gen t0) fr (tr_resps t0);
          t = t0\<lparr>tr_resps := kept\<rparr>
      in case taker of
           Some p \<Rightarrow> (True, settle (pr_future p) (Answered fr) t)
         | None \<Rightarrow>
             (if cf_to fr = BROADCAST_ADDR then (False, t)
              else case sink_split fr (tr_acks t) of
                  None \<Rightarrow> (False, t)
                | Some (older, rest) \<Rightarrow>
                    (if ordered then (True, retire_sinks_passed_by now older rest t)
                     else (True, t\<lparr>tr_acks := older @ rest\<rparr>))))"

definition resolve ::
  "time \<Rightarrow> time \<Rightarrow> civ_event \<Rightarrow> int option \<Rightarrow> bool \<Rightarrow> tracker \<Rightarrow> bool \<times> tracker" where
  "resolve now1 now2 event generation ordered t =
     (if generation \<noteq> None \<and> generation \<noteq> Some (tr_gen t) then (False, t)
      else case ev_frame event of
          None \<Rightarrow> (False, t)
        | Some fr \<Rightarrow>
            (if ev_type event = Ev_ACK \<or> ev_type event = Ev_NAK
             then resolve_ack now1 now2 (ev_type event = Ev_NAK) fr t
             else if ev_type event = Ev_RESPONSE then resolve_response now2 ordered fr t
             else (False, t)))"

end
