(* ===== verification/TrackerRuns.thy ===== *)
theory TrackerRuns
  imports CivTracker
begin

text \<open>
  Runs of the CI-V request tracker of \<open>CivTracker\<close>: its operations as events, the invariant they
  keep, and what the tracker promises to the callers that wait on its futures. \<open>Cancel f\<close> is the
  one event from outside the tracker: the task that waits on future \<open>f\<close> is cancelled or times out, which cancels the
  future while its waiter still stands in the lists.
\<close>

section \<open>Events\<close>

datatype tracker_op =
    RegisterAck time bool bool
  | RegisterSink time "request_key option" "request_key option"
  | TakeRefused
  | RegisterResponse time request_key
  | Unregister nat
  | UnregisterSink int
  | DropSinks time
  | DropBacklog
  | CleanupStale time
  | AdvanceGeneration
  | FailAll
  | Resolve time time civ_event "int option" bool
  | NoteTimeout
  | NoteUnclaimed time
  | Cancel nat

fun tracker_step :: "tracker \<Rightarrow> tracker_op \<Rightarrow> tracker" where
  "tracker_step t (RegisterAck now consume nak_only) = snd (register_ack_wait now consume nak_only t)"
| "tracker_step t (RegisterSink now key refused) = snd (register_ack_sink now key refused t)"
| "tracker_step t TakeRefused = snd (take_refused_reads t)"
| "tracker_step t (RegisterResponse now key) = snd (register_response now key t)"
| "tracker_step t (Unregister f) = unregister f t"
| "tracker_step t (UnregisterSink token) = snd (unregister_ack_sink token t)"
| "tracker_step t (DropSinks now) = snd (drop_ack_sinks now t)"
| "tracker_step t DropBacklog = snd (drop_ack_backlog t)"
| "tracker_step t (CleanupStale now) = snd (cleanup_stale now t)"
| "tracker_step t AdvanceGeneration = snd (advance_generation t)"
| "tracker_step t FailAll = fail_all t"
| "tracker_step t (Resolve n1 n2 ev gen ordered) = snd (resolve n1 n2 ev gen ordered t)"
| "tracker_step t NoteTimeout = note_timeout t"
| "tracker_step t (NoteUnclaimed now) = note_ack_unclaimed now t"
| "tracker_step t (Cancel f) = settle f Withdrawn t"

section \<open>Invariant\<close>

definition ack_futures :: "ack_waiter list \<Rightarrow> nat list" where
  "ack_futures ws = List.map_filter aw_future ws"

lemma ack_futures_simps [simp]:
  "ack_futures [] = []"
  "ack_futures (w # ws) = (case aw_future w of None \<Rightarrow> ack_futures ws | Some f \<Rightarrow> f # ack_futures ws)"
  "ack_futures (xs @ ys) = ack_futures xs @ ack_futures ys"
  by (auto simp: ack_futures_def List.map_filter_def split: option.split)

lemma ack_futures_set: "set (ack_futures ws) = {f. \<exists>w \<in> set ws. aw_future w = Some f}"
  by (induction ws) (auto split: option.split)

definition tracked :: "tracker \<Rightarrow> nat list" where
  "tracked t = ack_futures (tr_acks t) @ map pr_future (tr_resps t)"

definition tracker_inv :: "tracker \<Rightarrow> bool" where
  "tracker_inv t \<longleftrightarrow>
     (\<forall>w \<in> set (tr_acks t). aw_gen w = tr_gen t \<and> aw_token w < tr_token t \<and>
        (aw_future w \<noteq> None \<longrightarrow> aw_key w = None)) \<and>
     (\<forall>p \<in> set (tr_resps t). pr_gen p = tr_gen t) \<and>
     (\<forall>e \<in> set (tr_backlog t). be_gen e = tr_gen t) \<and>
     0 \<le> tr_backlog_size t \<and> int (length (tr_backlog t)) \<le> tr_backlog_size t \<and>
     sorted_wrt (<) (map aw_token (tr_acks t)) \<and>
     distinct (tracked t) \<and> (\<forall>f \<in> set (tracked t). f < tr_next t)"

text \<open>
  What the loops take out of the lists keeps the invariant: \<open>shrunk t t'\<close> holds when the waiters, the backlog and the
  generation of \<open>t'\<close> come from \<open>t\<close> by leaving entries out.
\<close>

definition shrunk :: "tracker \<Rightarrow> tracker \<Rightarrow> bool" where
  "shrunk t t' \<longleftrightarrow> subseq (tr_acks t') (tr_acks t) \<and> subseq (tr_resps t') (tr_resps t) \<and>
     subseq (tr_backlog t') (tr_backlog t) \<and> tr_gen t' = tr_gen t \<and> tr_token t' = tr_token t \<and>
     tr_next t' = tr_next t \<and> tr_backlog_size t' = tr_backlog_size t"

lemma subseq_set: "subseq xs ys \<Longrightarrow> x \<in> set xs \<Longrightarrow> x \<in> set ys"
  by (erule list_emb_set) auto

lemma subseq_sorted_wrt: "subseq xs ys \<Longrightarrow> sorted_wrt P (map f ys) \<Longrightarrow> sorted_wrt P (map f xs)"
proof (induction rule: list_emb.induct)
  case (list_emb_Nil ys)
  then show ?case by simp
next
  case (list_emb_Cons xs ys y)
  then show ?case by simp
next
  case (list_emb_Cons2 x y xs ys)
  then show ?case by (auto dest: subseq_set)
qed

lemma subseq_distinct: "subseq xs ys \<Longrightarrow> distinct ys \<Longrightarrow> distinct xs"
  by (induction rule: list_emb.induct) (auto dest: subseq_set)

lemma subseq_ack_futures: "subseq xs ys \<Longrightarrow> subseq (ack_futures xs) (ack_futures ys)"
  by (induction rule: list_emb.induct) (auto split: option.split)

lemma shrunk_inv:
  assumes "shrunk t t'" and inv: "tracker_inv t"
  shows "tracker_inv t'"
proof -
  have s: "subseq (tr_acks t') (tr_acks t)" "subseq (tr_resps t') (tr_resps t)"
    "subseq (tr_backlog t') (tr_backlog t)" and e: "tr_gen t' = tr_gen t" "tr_token t' = tr_token t"
    "tr_next t' = tr_next t" "tr_backlog_size t' = tr_backlog_size t"
    using assms(1) by (auto simp: shrunk_def)
  have "subseq (tracked t') (tracked t)"
    unfolding tracked_def using s by (intro list_emb_append_mono subseq_ack_futures subseq_map)
  moreover have "length (tr_backlog t') \<le> length (tr_backlog t)"
    by (rule list_emb_length [OF s(3)])
  ultimately show ?thesis
    using inv s e unfolding tracker_inv_def
    by (auto dest: subseq_set intro: subseq_sorted_wrt subseq_distinct)
qed

lemma settle_fields [simp]:
  "tr_acks (settle f st t) = tr_acks t" "tr_resps (settle f st t) = tr_resps t"
  "tr_backlog (settle f st t) = tr_backlog t" "tr_gen (settle f st t) = tr_gen t"
  "tr_token (settle f st t) = tr_token t" "tr_next (settle f st t) = tr_next t"
  "tr_backlog_size (settle f st t) = tr_backlog_size t"
  "tr_refused (settle f st t) = tr_refused t"
  by (simp_all add: settle_def)

lemma expire_future_fields [simp]:
  "tr_acks (expire_future f t) = tr_acks t" "tr_resps (expire_future f t) = tr_resps t"
  "tr_backlog (expire_future f t) = tr_backlog t" "tr_gen (expire_future f t) = tr_gen t"
  "tr_token (expire_future f t) = tr_token t" "tr_next (expire_future f t) = tr_next t"
  "tr_backlog_size (expire_future f t) = tr_backlog_size t"
  by (simp_all add: expire_future_def note_timeout_def)

lemma expire_acks_fields [simp]:
  "tr_acks (expire_acks c ws t) = tr_acks t" "tr_resps (expire_acks c ws t) = tr_resps t"
  "tr_backlog (expire_acks c ws t) = tr_backlog t" "tr_gen (expire_acks c ws t) = tr_gen t"
  "tr_token (expire_acks c ws t) = tr_token t" "tr_next (expire_acks c ws t) = tr_next t"
  "tr_backlog_size (expire_acks c ws t) = tr_backlog_size t"
  by (induction ws arbitrary: t) (auto split: option.split)

lemma expire_resps_fields [simp]:
  "tr_acks (expire_resps c ws t) = tr_acks t" "tr_resps (expire_resps c ws t) = tr_resps t"
  "tr_backlog (expire_resps c ws t) = tr_backlog t" "tr_gen (expire_resps c ws t) = tr_gen t"
  "tr_token (expire_resps c ws t) = tr_token t" "tr_next (expire_resps c ws t) = tr_next t"
  "tr_backlog_size (expire_resps c ws t) = tr_backlog_size t"
  by (induction ws arbitrary: t) auto

lemma fail_futures_Nil [simp]: "fail_futures [] t = t"
  and fail_futures_Cons [simp]: "fail_futures (f # fs) t = fail_futures fs (settle f (Failed Aborted) t)"
  by (simp_all add: fail_futures_def)

lemma fail_futures_fields [simp]:
  "tr_acks (fail_futures fs t) = tr_acks t" "tr_resps (fail_futures fs t) = tr_resps t"
  "tr_backlog (fail_futures fs t) = tr_backlog t" "tr_gen (fail_futures fs t) = tr_gen t"
  "tr_token (fail_futures fs t) = tr_token t" "tr_next (fail_futures fs t) = tr_next t"
  "tr_backlog_size (fail_futures fs t) = tr_backlog_size t"
  by (induction fs arbitrary: t) auto

lemma prune_loop_subseq: "subseq (fst (prune_loop gen ttl c es)) es"
  by (induction es) (auto simp: Let_def split: prod.split)

lemma prune_shrunk: "shrunk t (prune_ack_backlog now t)"
  using prune_loop_subseq [of "tr_gen t" "tr_backlog_ttl t" "now - tr_backlog_ttl t" "tr_backlog t"]
  by (auto simp: shrunk_def prune_ack_backlog_def Let_def split: prod.split)

lemma prune_fields [simp]:
  "tr_acks (prune_ack_backlog now t) = tr_acks t" "tr_resps (prune_ack_backlog now t) = tr_resps t"
  "tr_gen (prune_ack_backlog now t) = tr_gen t" "tr_token (prune_ack_backlog now t) = tr_token t"
  "tr_next (prune_ack_backlog now t) = tr_next t" "tr_futs (prune_ack_backlog now t) = tr_futs t"
  "tr_backlog_size (prune_ack_backlog now t) = tr_backlog_size t"
  "tr_refused (prune_ack_backlog now t) = tr_refused t"
  by (auto simp: prune_ack_backlog_def Let_def split: prod.split)

lemma pop_first_nak_subseq: "subseq (snd (pop_first_nak es)) es"
  by (induction es) (auto split: prod.split)

lemma pop_matching_shrunk: "shrunk t (snd (pop_matching_ack_backlog n t))"
  using pop_first_nak_subseq [of "tr_backlog t"]
  by (auto simp: shrunk_def pop_matching_ack_backlog_def split: list.split prod.split)

lemma ack_loop_subseq: "subseq (fst (ack_loop gen n futs ws)) ws"
  by (induction ws) (auto simp: Let_def split: prod.split option.split)

lemma response_loop_subseq: "subseq (fst (response_loop gen fr ps)) ps"
  by (induction ps) (auto split: prod.split)

lemma remove_sink_subseq: "remove_sink token ws = Some ws' \<Longrightarrow> subseq ws' ws"
  by (induction ws arbitrary: ws') (auto split: if_splits)

lemma sink_split_append:
  "sink_split fr ws = Some (older, rest) \<Longrightarrow>
   \<exists>w k. ws = older @ w # rest \<and> aw_key w = Some k \<and> key_matches k fr \<and>
     (\<forall>v \<in> set older. \<forall>k. aw_key v = Some k \<longrightarrow> \<not> key_matches k fr)"
  by (induction ws arbitrary: older) (fastforce split: if_splits option.splits)+

lemma shrunk_trans: "shrunk t u \<Longrightarrow> shrunk u v \<Longrightarrow> shrunk t v"
  unfolding shrunk_def by (auto intro: subseq_order.trans)

lemma shrunk_refl [simp]: "shrunk t t"
  by (simp add: shrunk_def)

lemma bump_inv: "tracker_inv t \<Longrightarrow> tracker_inv (t\<lparr>tr_token := tr_token t + 1\<rparr>)"
  by (auto simp: tracker_inv_def tracked_def)

lemma create_inv: "tracker_inv t \<Longrightarrow> tracker_inv (snd (create_future t))"
  by (auto simp: tracker_inv_def tracked_def create_future_def intro: less_SucI)

lemma append_ack_inv:
  assumes "tracker_inv t" and "aw_gen w = tr_gen t" and "aw_token w < tr_token t"
    and "\<And>v. v \<in> set (tr_acks t) \<Longrightarrow> aw_token v < aw_token w"
    and "\<And>f. aw_future w = Some f \<Longrightarrow> f < tr_next t \<and> f \<notin> set (tracked t) \<and> aw_key w = None"
  shows "tracker_inv (t\<lparr>tr_acks := tr_acks t @ [w]\<rparr>)"
  using assms
  by (cases "aw_future w") (auto simp: tracker_inv_def tracked_def sorted_wrt_append)

lemma register_ack_wait_inv:
  assumes inv: "tracker_inv t"
  shows "tracker_inv (snd (register_ack_wait now consume nak t))"
proof -
  let ?t1 = "prune_ack_backlog now (t\<lparr>tr_token := tr_token t + 1\<rparr>)"
  obtain t2 where e: "create_future ?t1 = (tr_next t, t2)" and t2: "t2 = snd (create_future ?t1)"
    by (simp add: create_future_def)
  obtain cached t3 where p: "(if consume then pop_matching_ack_backlog nak t2 else (None, t2)) = (cached, t3)"
    by fastforce
  have i1: "tracker_inv ?t1" by (rule shrunk_inv [OF prune_shrunk bump_inv [OF inv]])
  have "shrunk t2 t3" using p pop_matching_shrunk [of t2 nak] by (cases consume) auto
  then have i3: "tracker_inv t3" by (rule shrunk_inv) (use create_inv [OF i1] t2 in simp)
  have f: "tr_acks t3 = tr_acks t" "tr_resps t3 = tr_resps t"
    "tr_token t3 = tr_token t + 1" "tr_next t3 = Suc (tr_next t)"
    using p t2 by (auto simp: create_future_def pop_matching_ack_backlog_def
        split: list.splits prod.splits if_splits)
  have new: "tr_next t \<notin> set (tracked t3)"
    using inv f by (auto simp: tracker_inv_def tracked_def)
  show ?thesis
  proof (cases cached)
    case (Some c)
    have "tracker_inv ((settle (tr_next t) (Answered (be_frame c)) t3)\<lparr>tr_hits := tr_hits t3 + 1\<rparr>)"
      by (rule shrunk_inv [OF _ i3]) (simp add: shrunk_def)
    with Some show ?thesis
      unfolding register_ack_wait_def Let_def e prod.case p by simp
  next
    case None
    have "tracker_inv (t3\<lparr>tr_acks := tr_acks t3 @ [\<lparr>aw_future = Some (tr_next t),
        aw_token = tr_token t, aw_created = now, aw_gen = tr_gen t3, aw_nak_only = nak,
        aw_key = None, aw_refused = None\<rparr>]\<rparr>)"
      by (rule append_ack_inv [OF i3]) (use f new inv in \<open>auto simp: tracker_inv_def\<close>)
    with None show ?thesis
      unfolding register_ack_wait_def Let_def e prod.case p by simp
  qed
qed

lemma register_ack_sink_inv:
  assumes inv: "tracker_inv t"
  shows "tracker_inv (snd (register_ack_sink now key refused t))"
proof -
  let ?t1 = "prune_ack_backlog now (t\<lparr>tr_token := tr_token t + 1\<rparr>)"
  have i1: "tracker_inv ?t1" by (rule shrunk_inv [OF prune_shrunk bump_inv [OF inv]])
  have "tracker_inv (?t1\<lparr>tr_acks := tr_acks ?t1 @ [\<lparr>aw_future = None, aw_token = tr_token t,
      aw_created = now, aw_gen = tr_gen ?t1, aw_nak_only = False, aw_key = key, aw_refused = refused\<rparr>]\<rparr>)"
    by (rule append_ack_inv [OF i1]) (use inv in \<open>auto simp: tracker_inv_def\<close>)
  then show ?thesis by (simp add: register_ack_sink_def Let_def)
qed

lemma register_response_inv: "tracker_inv t \<Longrightarrow> tracker_inv (snd (register_response now key t))"
  by (auto simp: tracker_inv_def tracked_def register_response_def create_future_def intro: less_SucI)

lemma park_orphan_inv:
  assumes "tracker_inv t"
  shows "tracker_inv (snd (park_orphan now fr t))"
proof (cases "tr_backlog t")
  case Nil
  with assms show ?thesis by (auto simp: park_orphan_def tracker_inv_def tracked_def Let_def)
next
  case (Cons e es)
  with assms show ?thesis by (auto simp: park_orphan_def tracker_inv_def tracked_def Let_def)
qed

lemma resolve_ack_inv:
  assumes inv: "tracker_inv t"
  shows "tracker_inv (snd (resolve_ack n1 n2 nak fr t))"
proof -
  let ?t = "prune_ack_backlog n1 t"
  obtain kept taker where l: "ack_loop (tr_gen ?t) nak (tr_futs ?t) (tr_acks ?t) = (kept, taker)"
    by fastforce
  have "subseq kept (tr_acks ?t)"
    using ack_loop_subseq [of "tr_gen ?t" nak "tr_futs ?t" "tr_acks ?t"] l by simp
  then have "shrunk ?t (?t\<lparr>tr_acks := kept\<rparr>)" by (simp add: shrunk_def)
  then have i: "tracker_inv (?t\<lparr>tr_acks := kept\<rparr>)"
    using shrunk_inv [OF _ shrunk_inv [OF prune_shrunk inv]] by blast
  have r: "tracker_inv (t'\<lparr>tr_refused := rs\<rparr>)" "tracker_inv (settle f st t')" if "tracker_inv t'" for t' rs f st
    using that by (auto simp: tracker_inv_def tracked_def)
  show ?thesis
    using l i park_orphan_inv [OF i]
    by (auto simp: resolve_ack_def Let_def r split: option.split bool.split)
qed

lemma resolve_response_inv:
  assumes inv: "tracker_inv t"
  shows "tracker_inv (snd (resolve_response now ordered fr t))"
proof (rule shrunk_inv [OF _ inv])
  obtain kept taker where l: "response_loop (tr_gen t) fr (tr_resps t) = (kept, taker)"
    by fastforce
  have k: "subseq kept (tr_resps t)"
    using response_loop_subseq [of "tr_gen t" fr "tr_resps t"] l by simp
  have s: "subseq (filter P older @ rest) (tr_acks t) \<and> subseq (older @ rest) (tr_acks t)"
    if split: "sink_split fr (tr_acks t) = Some (older, rest)" for older rest P
  proof -
    obtain w where w: "tr_acks t = older @ [w] @ rest"
      using sink_split_append [OF split] by auto
    have "subseq rest ([w] @ rest)" by (simp add: list_emb_Cons)
    then show ?thesis unfolding w
      by (intro conjI list_emb_append_mono subseq_filter_left subseq_order.order_refl)
         simp_all
  qed
  show "shrunk t (snd (resolve_response now ordered fr t))"
    using k s l
    by (auto simp: resolve_response_def retire_sinks_passed_by_def note_ack_unclaimed_def shrunk_def
        Let_def split: option.split)
qed

lemma fail_all_fields:
  "tr_acks (fail_all t) = []" "tr_resps (fail_all t) = []" "tr_backlog (fail_all t) = []"
  "tr_gen (fail_all t) = tr_gen t" "tr_token (fail_all t) = tr_token t"
  "tr_next (fail_all t) = tr_next t" "tr_backlog_size (fail_all t) = tr_backlog_size t"
  by (simp_all add: fail_all_def Let_def)

lemma cleanup_stale_shrunk: "shrunk t (snd (cleanup_stale now t))"
  by (simp add: cleanup_stale_def Let_def shrunk_def)

lemma tracker_step_inv:
  assumes inv: "tracker_inv t"
  shows "tracker_inv (tracker_step t op)"
proof (cases op)
  case AdvanceGeneration
  with inv show ?thesis
    by (simp add: advance_generation_def Let_def tracker_inv_def tracked_def fail_all_fields)
next
  case FailAll
  with inv show ?thesis by (simp add: tracker_inv_def tracked_def fail_all_fields)
next
  case (Resolve n1 n2 ev gen ordered)
  with inv show ?thesis
    by (simp add: resolve_def resolve_ack_inv resolve_response_inv split: option.split)
next
  case (UnregisterSink token)
  then have "shrunk t (tracker_step t op)"
    by (auto simp: shrunk_def unregister_ack_sink_def remove_sink_subseq split: option.split)
  then show ?thesis by (rule shrunk_inv [OF _ inv])
next
  case (CleanupStale now)
  then show ?thesis using shrunk_inv [OF cleanup_stale_shrunk inv] by simp
next
  case (Unregister f)
  then have "shrunk t (tracker_step t op)" by (simp add: shrunk_def unregister_def)
  then show ?thesis by (rule shrunk_inv [OF _ inv])
next
  case (DropSinks now)
  then have "shrunk t (tracker_step t op)"
    by (simp add: shrunk_def drop_ack_sinks_def note_ack_unclaimed_def Let_def)
  then show ?thesis by (rule shrunk_inv [OF _ inv])
next
  case DropBacklog
  then have "shrunk t (tracker_step t op)" by (simp add: shrunk_def drop_ack_backlog_def)
  then show ?thesis by (rule shrunk_inv [OF _ inv])
next
  case TakeRefused
  then have "shrunk t (tracker_step t op)" by (simp add: shrunk_def take_refused_reads_def)
  then show ?thesis by (rule shrunk_inv [OF _ inv])
next
  case NoteTimeout
  then have "shrunk t (tracker_step t op)" by (simp add: shrunk_def note_timeout_def)
  then show ?thesis by (rule shrunk_inv [OF _ inv])
next
  case (NoteUnclaimed now)
  then have "shrunk t (tracker_step t op)" by (simp add: shrunk_def note_ack_unclaimed_def)
  then show ?thesis by (rule shrunk_inv [OF _ inv])
next
  case (Cancel f)
  then have "shrunk t (tracker_step t op)" by (simp add: shrunk_def)
  then show ?thesis by (rule shrunk_inv [OF _ inv])
qed (use inv in \<open>simp_all add: register_ack_wait_inv register_ack_sink_inv register_response_inv\<close>)

lemma tracker_inv_init: "tracker_inv (tracker_init ttl cap bttl)"
  by (simp add: tracker_init_def tracker_inv_def tracked_def)

lemma resolve_gen: "tr_gen (snd (resolve n1 n2 ev gen ordered t)) = tr_gen t"
  by (auto simp: resolve_def resolve_ack_def resolve_response_def park_orphan_def
      retire_sinks_passed_by_def note_ack_unclaimed_def Let_def
      split: option.split prod.split bool.split)

lemma tracker_step_gen:
  "tr_gen (tracker_step t op) = (if op = AdvanceGeneration then tr_gen t + 1 else tr_gen t)"
  by (cases op)
     (auto simp: register_ack_wait_def register_ack_sink_def take_refused_reads_def
      register_response_def create_future_def unregister_def unregister_ack_sink_def drop_ack_sinks_def
      drop_ack_backlog_def cleanup_stale_def advance_generation_def fail_all_fields resolve_gen
      note_timeout_def note_ack_unclaimed_def pop_matching_ack_backlog_def Let_def
      split: option.split prod.split list.split if_splits)

interpretation tracker: epoch_system tracker_step tracker_inv tr_gen
  by standard (simp_all add: tracker_step_inv tracker_step_gen)

section \<open>Futures\<close>

text \<open>What an operation does to the futures that exist: a done one keeps its value.\<close>

definition futures_kept :: "tracker \<Rightarrow> tracker \<Rightarrow> bool" where
  "futures_kept t t' \<longleftrightarrow> tr_next t \<le> tr_next t' \<and>
     (\<forall>f < tr_next t. tr_futs t f \<noteq> Open \<longrightarrow> tr_futs t' f = tr_futs t f)"

lemma futures_kept_trans: "futures_kept t u \<Longrightarrow> futures_kept u v \<Longrightarrow> futures_kept t v"
  by (auto simp: futures_kept_def)

lemma futures_kept_same: "tr_futs t' = tr_futs t \<Longrightarrow> tr_next t \<le> tr_next t' \<Longrightarrow> futures_kept t t'"
  by (simp add: futures_kept_def)

lemma futures_kept_refl [simp]: "futures_kept t t"
  by (simp add: futures_kept_same)

lemma settle_futs: "tr_futs (settle f st t) g = (if g = f \<and> tr_futs t f = Open then st else tr_futs t g)"
  by (simp add: settle_def is_done_def)

lemma settle_kept: "futures_kept t (settle f st t)"
  by (simp add: futures_kept_def settle_futs)

lemma expire_future_futs:
  "tr_futs (expire_future f t) g = (if g = f \<and> tr_futs t f = Open then Failed Expired else tr_futs t g)"
  by (auto simp: expire_future_def note_timeout_def settle_def is_done_def)

lemma expire_acks_futs:
  "tr_futs (expire_acks c ws t) g =
     (if tr_futs t g = Open \<and> list_ex (\<lambda>w. aw_future w = Some g \<and> \<not> c < aw_created w) ws
      then Failed Expired else tr_futs t g)"
proof (induction ws arbitrary: t)
  case Nil
  then show ?case by simp
next
  case (Cons w ws)
  let ?t = "if aw_created w > c then t else case aw_future w of None \<Rightarrow> t | Some f \<Rightarrow> expire_future f t"
  have "tr_futs ?t g = (if tr_futs t g = Open \<and> aw_future w = Some g \<and> \<not> c < aw_created w
      then Failed Expired else tr_futs t g)"
    by (cases "aw_future w") (simp_all add: expire_future_futs)
  then show ?case using Cons.IH [of ?t] by (simp add: expire_future_futs)
qed

lemma expire_resps_futs:
  "tr_futs (expire_resps c ws t) g =
     (if tr_futs t g = Open \<and> list_ex (\<lambda>w. pr_future w = g \<and> \<not> c < pr_created w) ws
      then Failed Expired else tr_futs t g)"
proof (induction ws arbitrary: t)
  case Nil
  then show ?case by simp
next
  case (Cons w ws)
  let ?t = "if pr_created w > c then t else expire_future (pr_future w) t"
  have "tr_futs ?t g = (if tr_futs t g = Open \<and> pr_future w = g \<and> \<not> c < pr_created w
      then Failed Expired else tr_futs t g)"
    by (simp add: expire_future_futs)
  then show ?case using Cons.IH [of ?t] by (simp add: expire_future_futs)
qed

lemma fail_futures_futs:
  "tr_futs (fail_futures fs t) g =
     (if tr_futs t g = Open \<and> g \<in> set fs then Failed Aborted else tr_futs t g)"
  by (induction fs arbitrary: t) (auto simp: settle_futs)

lemma fail_all_futs:
  "tr_futs (fail_all t) g =
     (if tr_futs t g = Open \<and> g \<in> set (tracked t) then Failed Aborted else tr_futs t g)"
  by (auto simp: fail_all_def Let_def fail_futures_futs tracked_def ack_futures_def)

lemma create_kept: "futures_kept t (snd (create_future t))"
  by (simp add: futures_kept_def create_future_def)

lemma pop_matching_futs:
  "tr_futs (snd (pop_matching_ack_backlog n t)) = tr_futs t"
  "tr_next (snd (pop_matching_ack_backlog n t)) = tr_next t"
  by (auto simp: pop_matching_ack_backlog_def split: list.split prod.split)

lemma register_ack_wait_kept: "futures_kept t (snd (register_ack_wait now consume nak t))"
proof -
  let ?t1 = "prune_ack_backlog now (t\<lparr>tr_token := tr_token t + 1\<rparr>)"
  obtain t2 where e: "create_future ?t1 = (tr_next t, t2)" and t2: "t2 = snd (create_future ?t1)"
    by (simp add: create_future_def)
  obtain cached t3 where p: "(if consume then pop_matching_ack_backlog nak t2 else (None, t2)) = (cached, t3)"
    by fastforce
  have "futures_kept t ?t1" by (simp add: futures_kept_same)
  then have "futures_kept t t2" using create_kept t2 futures_kept_trans by blast
  moreover have "tr_futs t3 = tr_futs t2 \<and> tr_next t3 = tr_next t2"
    using p pop_matching_futs [of nak t2] by (cases consume) auto
  ultimately have k: "futures_kept t t3" by (simp add: futures_kept_def)
  have n: "t3' = t3 \<Longrightarrow> tr_futs (t3'\<lparr>tr_hits := h\<rparr>) = tr_futs t3" for t3' h by simp
  show ?thesis
  proof (cases cached)
    case (Some c)
    have "futures_kept t (settle (tr_next t) (Answered (be_frame c)) t3)"
      using k settle_kept futures_kept_trans by blast
    with Some show ?thesis
      unfolding register_ack_wait_def Let_def e prod.case p by (simp add: futures_kept_def)
  next
    case None
    with k show ?thesis
      unfolding register_ack_wait_def Let_def e prod.case p by (simp add: futures_kept_def)
  qed
qed

lemma resolve_futs:
  "tr_next (snd (resolve n1 n2 ev gen ordered t)) = tr_next t \<and>
   (\<exists>f fr. tr_futs (snd (resolve n1 n2 ev gen ordered t)) = tr_futs t \<or>
     tr_futs t f = Open \<and> f \<in> set (tracked t) \<and>
     tr_futs (snd (resolve n1 n2 ev gen ordered t)) = (tr_futs t)(f := Answered fr))"
proof -
  have taker: "w \<in> set ws" if "ack_loop g k fu ws = (kept, Some w)" for g k fu ws kept w
    using that by (induction ws arbitrary: kept) (auto simp: Let_def split: if_splits option.splits prod.splits)
  have ptaker: "p \<in> set ps" if "response_loop g fr ps = (kept, Some p)" for g fr ps kept p
    using that by (induction ps arbitrary: kept) (auto split: if_splits prod.splits)
  have s: "tr_futs (settle f st t') = (if tr_futs t' f = Open then (tr_futs t')(f := st) else tr_futs t')"
    for f st t' by (simp add: settle_def is_done_def)
  have ack: ?thesis if "resolve n1 n2 ev gen ordered t = resolve_ack n1 n2 k fr t" for k fr
  proof -
    obtain kept tk where l: "ack_loop (tr_gen t) k (tr_futs t) (tr_acks t) = (kept, tk)" by fastforce
    show ?thesis
    proof (cases tk)
      case None
      with l that show ?thesis by (auto simp: resolve_ack_def Let_def park_orphan_def)
    next
      case (Some w)
      have w: "w \<in> set (tr_acks t)" using taker l Some by blast
      show ?thesis
      proof (cases "aw_future w")
        case None
        with l Some that show ?thesis by (auto simp: resolve_ack_def Let_def split: option.split bool.split)
      next
        case (Some f)
        then have "f \<in> set (tracked t)" using w by (auto simp: tracked_def ack_futures_set)
        moreover have "tr_next (snd (resolve n1 n2 ev gen ordered t)) = tr_next t"
          "tr_futs (snd (resolve n1 n2 ev gen ordered t)) =
            (if tr_futs t f = Open then (tr_futs t)(f := Answered fr) else tr_futs t)"
          using l \<open>tk = Some w\<close> Some that by (simp_all add: resolve_ack_def Let_def s)
        ultimately show ?thesis by (cases "tr_futs t f = Open") auto
      qed
    qed
  qed
  have resp: ?thesis if "resolve n1 n2 ev gen ordered t = resolve_response n2 ordered fr t" for fr
  proof -
    obtain kept tk where l: "response_loop (tr_gen t) fr (tr_resps t) = (kept, tk)" by fastforce
    show ?thesis
    proof (cases tk)
      case None
      with l that show ?thesis
        by (auto simp: resolve_response_def Let_def retire_sinks_passed_by_def note_ack_unclaimed_def
            split: option.split)
    next
      case (Some p)
      then have "pr_future p \<in> set (tracked t)" using ptaker l by (force simp: tracked_def)
      moreover have "tr_next (snd (resolve n1 n2 ev gen ordered t)) = tr_next t"
        "tr_futs (snd (resolve n1 n2 ev gen ordered t)) =
          (if tr_futs t (pr_future p) = Open then (tr_futs t)(pr_future p := Answered fr) else tr_futs t)"
        using l Some that by (simp_all add: resolve_response_def Let_def s)
      ultimately show ?thesis by (cases "tr_futs t (pr_future p) = Open") auto
    qed
  qed
  have none: ?thesis if "resolve n1 n2 ev gen ordered t = (False, t)"
    using that by simp
  have "(\<exists>k fr. resolve n1 n2 ev gen ordered t = resolve_ack n1 n2 k fr t) \<or>
      (\<exists>fr. resolve n1 n2 ev gen ordered t = resolve_response n2 ordered fr t) \<or>
      resolve n1 n2 ev gen ordered t = (False, t)"
    by (auto simp: resolve_def split: option.split)
  then show ?thesis using ack resp none by blast
qed

lemma tracker_step_kept: "futures_kept t (tracker_step t op)"
proof (cases op)
  case (RegisterAck now consume nak)
  then show ?thesis by (simp add: register_ack_wait_kept)
next
  case (RegisterResponse now key)
  then show ?thesis by (simp add: register_response_def create_future_def futures_kept_def)
next
  case (CleanupStale now)
  then show ?thesis
    by (simp add: cleanup_stale_def Let_def futures_kept_def expire_acks_futs expire_resps_futs)
next
  case AdvanceGeneration
  then show ?thesis
    by (simp add: advance_generation_def Let_def futures_kept_def fail_all_fields fail_all_futs)
next
  case FailAll
  then show ?thesis by (simp add: futures_kept_def fail_all_fields fail_all_futs)
next
  case (Resolve n1 n2 ev gen ordered)
  then show ?thesis
    using resolve_futs [of n1 n2 ev gen ordered t] by (auto simp: futures_kept_def)
qed (simp_all add: settle_kept futures_kept_same register_ack_sink_def take_refused_reads_def unregister_def
    unregister_ack_sink_def drop_ack_sinks_def drop_ack_backlog_def note_timeout_def
    note_ack_unclaimed_def Let_def split: option.split)

lemma run_kept: "futures_kept t (run tracker_step t ops)"
proof (induction ops arbitrary: t)
  case Nil
  then show ?case by simp
next
  case (Cons op ops)
  then show ?case using tracker_step_kept futures_kept_trans by fastforce
qed

section \<open>Properties\<close>

lemma reachable_tracker_inv: "tracker_inv (run tracker_step (tracker_init ttl cap bttl) ops)"
  by (rule tracker.run_inv [OF tracker_inv_init])

text \<open>
  The lists of the tracker are well formed after any sequence of operations: every waiter and backlog
  entry is of the current generation, the backlog respects its bound, the ACK waiters stand in the order of their tokens, and no
  future is waited on twice.
\<close>

theorem tracker_well_formed:
  "let t = run tracker_step (tracker_init ttl cap bttl) ops in
   list_all (\<lambda>w. aw_gen w = tr_gen t) (tr_acks t) \<and>
   list_all (\<lambda>p. pr_gen p = tr_gen t) (tr_resps t) \<and>
   list_all (\<lambda>e. be_gen e = tr_gen t) (tr_backlog t) \<and> int (length (tr_backlog t)) \<le> max 0 cap \<and>
   sorted_wrt (<) (map aw_token (tr_acks t)) \<and> distinct (tracked t)"
proof -
  have size: "tr_backlog_size (tracker_step t op) = tr_backlog_size t" for t op
  proof (cases op)
    case (RegisterAck now consume nak)
    then show ?thesis
      by (auto simp: register_ack_wait_def create_future_def pop_matching_ack_backlog_def Let_def
          split: option.split list.split prod.split)
  next
    case (Resolve n1 n2 ev gen ordered)
    then show ?thesis
      by (auto simp: resolve_def resolve_ack_def resolve_response_def park_orphan_def
          retire_sinks_passed_by_def note_ack_unclaimed_def Let_def
          split: option.split prod.split bool.split)
  qed (auto simp: register_ack_sink_def take_refused_reads_def register_response_def create_future_def
      unregister_def unregister_ack_sink_def drop_ack_sinks_def drop_ack_backlog_def cleanup_stale_def
      advance_generation_def fail_all_fields note_timeout_def note_ack_unclaimed_def Let_def
      split: option.split)
  have "tr_backlog_size (run tracker_step t ops) = tr_backlog_size t" for t
    by (induction ops arbitrary: t) (simp_all add: size)
  then show ?thesis
    using reachable_tracker_inv [of ttl cap bttl ops]
    by (auto simp: tracker_inv_def Let_def tracker_init_def list_all_iff)
qed

text \<open>
  A future completes at most once: whatever a future was completed with, no later operation changes it, and a single
  \<open>resolve\<close> completes at most one future, one that was waited on.
\<close>

theorem futures_complete_once:
  assumes "f < tr_next t" and "tr_futs t f \<noteq> Open"
  shows "tr_futs (run tracker_step t ops) f = tr_futs t f \<and>
    (\<forall>g h. tr_futs (snd (resolve n1 n2 ev gen ordered t)) g \<noteq> tr_futs t g \<longrightarrow>
       tr_futs (snd (resolve n1 n2 ev gen ordered t)) h \<noteq> tr_futs t h \<longrightarrow> g = h \<and> g \<in> set (tracked t))"
proof (intro conjI allI impI)
  show "tr_futs (run tracker_step t ops) f = tr_futs t f"
    using run_kept [of t ops] assms by (simp add: futures_kept_def)
  fix g h
  assume "tr_futs (snd (resolve n1 n2 ev gen ordered t)) g \<noteq> tr_futs t g"
    and "tr_futs (snd (resolve n1 n2 ev gen ordered t)) h \<noteq> tr_futs t h"
  then show "g = h" and "g \<in> set (tracked t)"
    using resolve_futs [of n1 n2 ev gen ordered t] by (auto split: if_splits)
qed

text \<open>
  Advancing the generation is a fence: every future waited on is completed with an error, nothing
  is waited on any more, and from then on an event of an older generation resolves nothing and changes nothing.
\<close>

theorem advance_generation_fences:
  assumes "t = run tracker_step (tracker_init ttl cap bttl) ops1"
    and "t' = tracker_step t AdvanceGeneration" and "g \<le> tr_gen t"
  shows "(\<forall>f \<in> set (tracked t). tr_futs t f = Open \<longrightarrow> tr_futs t' f = Failed Aborted) \<and>
    tr_acks t' = [] \<and> tr_resps t' = [] \<and> tr_backlog t' = [] \<and>
    resolve n1 n2 ev (Some g) ordered (run tracker_step t' ops2) = (False, run tracker_step t' ops2)"
proof -
  have inv: "tracker_inv t" using reachable_tracker_inv assms(1) by simp
  have "tr_gen t < tr_gen t'" unfolding assms(2) tracker_step_gen by simp
  moreover have "tracker_inv t'" unfolding assms(2) by (rule tracker.step_inv [OF inv])
  ultimately have "tr_gen t < tr_gen (run tracker_step t' ops2)"
    using tracker.run_epoch [of t' ops2] by simp
  then have "resolve n1 n2 ev (Some g) ordered (run tracker_step t' ops2) = (False, run tracker_step t' ops2)"
    using assms(3) by (simp add: resolve_def)
  moreover have "tr_futs t' f = Failed Aborted" if "f \<in> set (tracked t)" "tr_futs t f = Open" for f
    using that unfolding assms(2) by (simp add: advance_generation_def Let_def fail_all_futs)
  moreover have "tr_acks t' = [] \<and> tr_resps t' = [] \<and> tr_backlog t' = []"
    unfolding assms(2) by (simp add: advance_generation_def Let_def fail_all_fields)
  ultimately show ?thesis by blast
qed

text \<open>The waiters an ACK or a NAK may settle.\<close>

definition takes :: "tracker \<Rightarrow> bool \<Rightarrow> ack_waiter \<Rightarrow> bool" where
  "takes t is_nak w \<longleftrightarrow> (\<not> aw_nak_only w \<or> is_nak) \<and>
     (case aw_future w of None \<Rightarrow> True | Some f \<Rightarrow> tr_futs t f = Open)"

lemma ack_loop_first:
  assumes "\<forall>v \<in> set (pre @ w # post). aw_gen v = tr_gen t" and "\<forall>v \<in> set pre. \<not> takes t is_nak v"
    and "takes t is_nak w"
  shows "ack_loop (tr_gen t) is_nak (tr_futs t) (pre @ w # post) =
    (filter (\<lambda>v. aw_nak_only v \<and> \<not> is_nak) pre @ post, Some w)"
  using assms
proof (induction pre)
  case Nil
  then show ?case by (auto simp: takes_def split: option.splits)
next
  case (Cons v pre)
  then show ?case by (auto simp: takes_def split: option.splits)
qed

text \<open>
  C12. An ACK or NAK goes to the oldest waiter that may take it: that waiter alone leaves its place, its future is completed with the frame,
  or, for a sink retired by a refusal, the read it stands for is reported as refused; before it only
  finished waiters are dropped, after it nothing moves.
\<close>

theorem ack_goes_to_oldest_taker:
  assumes "t = run tracker_step (tracker_init ttl cap bttl) ops"
    and "tr_acks t = pre @ w # post" and "\<forall>v \<in> set pre. \<not> takes t (k = Ev_NAK) v"
    and "takes t (k = Ev_NAK) w" and "k = Ev_ACK \<or> k = Ev_NAK"
    and "(b, t') = resolve n1 n2 \<lparr>ev_type = k, ev_frame = Some fr, ev_receiver = rx\<rparr> None ordered t"
  shows "b \<and> tr_acks t' = filter (\<lambda>v. aw_nak_only v \<and> k \<noteq> Ev_NAK) pre @ post \<and> tr_resps t' = tr_resps t \<and>
    tr_futs t' = (case aw_future w of None \<Rightarrow> tr_futs t | Some f \<Rightarrow> (tr_futs t)(f := Answered fr)) \<and>
    tr_refused t' = tr_refused t @ (case (k, aw_future w, aw_refused w) of
      (Ev_NAK, None, Some r) \<Rightarrow> [r] | _ \<Rightarrow> [])"
proof -
  have "\<forall>v \<in> set (pre @ w # post). aw_gen v = tr_gen t"
    using reachable_tracker_inv [of ttl cap bttl ops] assms(1,2) by (simp add: tracker_inv_def)
  from ack_loop_first [OF this assms(3,4)]
  have l: "ack_loop (tr_gen t) (k = Ev_NAK) (tr_futs t) (tr_acks t) =
      (filter (\<lambda>v. aw_nak_only v \<and> k \<noteq> Ev_NAK) pre @ post, Some w)"
    using assms(2) by simp
  have r: "(b, t') = resolve_ack n1 n2 (k = Ev_NAK) fr t"
    using assms(5,6) by (auto simp: resolve_def)
  show ?thesis
  proof (cases "aw_future w")
    case None
    with r l assms(5) show ?thesis
      by (auto simp: resolve_ack_def Let_def split: option.splits)
  next
    case (Some f)
    then have "tr_futs t f = Open" using assms(4) by (simp add: takes_def)
    with Some r l assms(5) show ?thesis
      by (auto simp: resolve_ack_def Let_def settle_def is_done_def)
  qed
qed

text \<open>
  On a transport that keeps the order, a directed answer that retires a sink proves the older sinks lost: they are dropped with it, so
  every sink left was registered later, and the blocking waiters before it keep their place and their futures.
\<close>

theorem ordered_answer_retires_older_sinks:
  assumes "t = run tracker_step (tracker_init ttl cap bttl) ops"
    and "tr_acks t = older @ w # rest" and "aw_key w = Some k" and "key_matches k fr"
    and "\<forall>v \<in> set older. \<forall>k. aw_key v = Some k \<longrightarrow> \<not> key_matches k fr"
    and "\<forall>p \<in> set (tr_resps t). \<not> key_matches (pr_key p) fr" and "cf_to fr \<noteq> BROADCAST_ADDR"
    and "(b, t') = resolve n1 n2 \<lparr>ev_type = Ev_RESPONSE, ev_frame = Some fr, ev_receiver = rx\<rparr> None True t"
  shows "b \<and> tr_acks t' = filter (\<lambda>v. aw_future v \<noteq> None) older @ rest \<and> tr_futs t' = tr_futs t \<and>
    (\<forall>v \<in> set (tr_acks t'). aw_future v = None \<longrightarrow> aw_token w < aw_token v)"
proof -
  have inv: "tracker_inv t" using reachable_tracker_inv assms(1) by simp
  have l: "response_loop (tr_gen t) fr ps = (ps, None)"
    if "\<forall>p \<in> set ps. pr_gen p = tr_gen t \<and> \<not> key_matches (pr_key p) fr" for ps
    using that by (induction ps) auto
  have rl: "response_loop (tr_gen t) fr (tr_resps t) = (tr_resps t, None)"
    by (rule l) (use inv assms(6) in \<open>simp add: tracker_inv_def\<close>)
  have sp: "sink_split fr (vs @ w # rest) = Some (vs, rest)"
    if "\<forall>v \<in> set vs. \<forall>k. aw_key v = Some k \<longrightarrow> \<not> key_matches k fr" for vs
    using that assms(3,4) by (induction vs) (auto split: option.split)
  have s: "sink_split fr (tr_acks t) = Some (older, rest)"
    using sp [OF assms(5)] assms(2) by simp
  have "b \<and> tr_acks t' = filter (\<lambda>v. aw_future v \<noteq> None) older @ rest \<and> tr_futs t' = tr_futs t"
    using assms(7,8) rl s
    by (auto simp: resolve_def resolve_response_def retire_sinks_passed_by_def note_ack_unclaimed_def Let_def)
  moreover have "sorted_wrt (<) (map aw_token (older @ w # rest))"
    using inv assms(2) by (simp add: tracker_inv_def)
  ultimately show ?thesis by (auto simp: sorted_wrt_append)
qed

text \<open>No waiter is lost in the loops.\<close>

lemma in_tracked:
  "f \<in> set (tracked t) \<longleftrightarrow>
     (\<exists>w \<in> set (tr_acks t). aw_future w = Some f) \<or> (\<exists>p \<in> set (tr_resps t). pr_future p = f)"
  by (auto simp: tracked_def ack_futures_set)

lemma ack_loop_keeps:
  "ack_loop gen k fu ws = (kept, tk) \<Longrightarrow> v \<in> set ws \<Longrightarrow> aw_gen v = gen \<Longrightarrow> aw_future v = Some f \<Longrightarrow>
   fu f = Open \<Longrightarrow> v \<in> set kept \<or> tk = Some v"
  by (induction ws arbitrary: kept) (auto simp: Let_def split: if_splits option.splits prod.splits)

lemma response_loop_keeps:
  "response_loop gen fr ps = (kept, tk) \<Longrightarrow> p \<in> set ps \<Longrightarrow> pr_gen p = gen \<Longrightarrow>
   p \<in> set kept \<or> tk = Some p"
  by (induction ps arbitrary: kept) (auto split: if_splits prod.splits)

definition remembered :: "nat \<Rightarrow> tracker \<Rightarrow> bool" where
  "remembered f t \<longleftrightarrow> f \<in> set (tracked t) \<or> tr_futs t f \<noteq> Open"

lemma resolve_ack_remembers:
  assumes inv: "tracker_inv t" and f: "f \<in> set (tracked t)" and op: "tr_futs t f = Open"
  shows "remembered f (snd (resolve_ack n1 n2 k fr t))"
proof -
  obtain kept tk where l: "ack_loop (tr_gen t) k (tr_futs t) (tr_acks t) = (kept, tk)" by fastforce
  have kept: "(\<exists>v \<in> set kept. aw_future v = Some f) \<or> (\<exists>v. tk = Some v \<and> aw_future v = Some f)
      \<or> (\<exists>p \<in> set (tr_resps t). pr_future p = f)"
  proof (cases "\<exists>v \<in> set (tr_acks t). aw_future v = Some f")
    case True
    then obtain v where v: "v \<in> set (tr_acks t)" "aw_future v = Some f" by blast
    with inv have "aw_gen v = tr_gen t" by (simp add: tracker_inv_def)
    from ack_loop_keeps [OF l v(1) this v(2) op] v(2) show ?thesis by blast
  next
    case False
    with f show ?thesis by (simp add: in_tracked)
  qed
  show ?thesis
  proof (cases tk)
    case None
    with l kept show ?thesis
      by (auto simp: resolve_ack_def Let_def park_orphan_def remembered_def in_tracked)
  next
    case (Some v)
    with l kept op show ?thesis
      by (cases "aw_future v")
         (auto simp: resolve_ack_def Let_def remembered_def in_tracked settle_futs
           split: option.split bool.split)
  qed
qed

lemma resolve_response_remembers:
  assumes inv: "tracker_inv t" and f: "f \<in> set (tracked t)" and op: "tr_futs t f = Open"
  shows "remembered f (snd (resolve_response now ordered fr t))"
proof -
  obtain kept tk where l: "response_loop (tr_gen t) fr (tr_resps t) = (kept, tk)" by fastforce
  have kept: "(\<exists>v \<in> set (tr_acks t). aw_future v = Some f) \<or> (\<exists>p \<in> set kept. pr_future p = f)
      \<or> (\<exists>p. tk = Some p \<and> pr_future p = f)"
    using f inv response_loop_keeps [OF l] by (auto simp: in_tracked tracker_inv_def)
  show ?thesis
  proof (cases tk)
    case (Some p)
    with l kept show ?thesis
      by (auto simp: resolve_response_def Let_def remembered_def in_tracked settle_futs)
  next
    case None
    have split: "\<exists>w. aw_future w = None \<and> tr_acks t = older @ w # rest"
      if s: "sink_split fr (tr_acks t) = Some (older, rest)" for older rest
    proof -
      from sink_split_append [OF s] obtain w k where w: "tr_acks t = older @ w # rest" "aw_key w = Some k"
        by blast
      with inv have "aw_future w = None" by (fastforce simp: tracker_inv_def)
      with w(1) show ?thesis by blast
    qed
    show ?thesis
    proof (cases "cf_to fr = BROADCAST_ADDR \<or> sink_split fr (tr_acks t) = None")
      case True
      with l kept None show ?thesis
        by (auto simp: resolve_response_def Let_def remembered_def in_tracked split: option.split)
    next
      case False
      then obtain older rest where s: "sink_split fr (tr_acks t) = Some (older, rest)" by auto
      with split obtain w where "aw_future w = None" "tr_acks t = older @ w # rest" by blast
      with False s l kept None show ?thesis
        by (auto simp: resolve_response_def Let_def remembered_def in_tracked
            retire_sinks_passed_by_def note_ack_unclaimed_def)
    qed
  qed
qed

lemma remove_sink_keeps:
  "remove_sink token ws = Some ws' \<Longrightarrow> v \<in> set ws \<Longrightarrow> aw_future v \<noteq> None \<Longrightarrow> v \<in> set ws'"
  by (induction ws arbitrary: ws') (auto split: if_splits)

lemma register_ack_wait_acks:
  "\<exists>new. tr_acks (snd (register_ack_wait now consume nak t)) = tr_acks t @ new \<and>
     tr_resps (snd (register_ack_wait now consume nak t)) = tr_resps t"
  by (auto simp: register_ack_wait_def create_future_def pop_matching_ack_backlog_def Let_def
      split: option.split list.split prod.split)

text \<open>
  C13. No waiter is forgotten: whatever operation runs, a future that is waited on and open is afterwards still waited on, or completed,
  unless its own owner unregistered it.
\<close>

theorem no_waiter_is_forgotten:
  assumes "t = run tracker_step (tracker_init ttl cap bttl) ops"
    and "f \<in> set (tracked t)" and "tr_futs t f = Open" and "op \<noteq> Unregister f"
  shows "f \<in> set (tracked (tracker_step t op)) \<or> tr_futs (tracker_step t op) f \<noteq> Open"
proof -
  have inv: "tracker_inv t" using reachable_tracker_inv assms(1) by simp
  have "remembered f (tracker_step t op)"
  proof (cases op)
    case (RegisterAck now consume nak)
    obtain new where "tr_acks (tracker_step t op) = tr_acks t @ new" "tr_resps (tracker_step t op) = tr_resps t"
      using register_ack_wait_acks [of now consume nak t] RegisterAck by auto
    with assms(2) show ?thesis by (auto simp: remembered_def in_tracked)
  next
    case (Resolve n1 n2 ev gen ordered)
    then show ?thesis
      using assms(2,3) resolve_ack_remembers [OF inv] resolve_response_remembers [OF inv]
      by (auto simp: resolve_def remembered_def split: option.split)
  next
    case AdvanceGeneration
    with assms(2,3) show ?thesis
      by (simp add: remembered_def advance_generation_def Let_def fail_all_futs)
  next
    case FailAll
    with assms(2,3) show ?thesis by (simp add: remembered_def fail_all_futs)
  next
    case (CleanupStale now)
    let ?c = "now - tr_ttl t"
    from assms(2) consider (ack) w where "w \<in> set (tr_acks t)" "aw_future w = Some f"
      | (resp) p where "p \<in> set (tr_resps t)" "pr_future p = f" by (auto simp: in_tracked)
    then show ?thesis
    proof cases
      case ack
      then have "?c < aw_created w \<or> list_ex (\<lambda>w. aw_future w = Some f \<and> \<not> ?c < aw_created w) (tr_acks t)"
        by (auto simp: list_ex_iff)
      then show ?thesis
        using ack assms(3) unfolding CleanupStale remembered_def in_tracked
        by (auto simp: cleanup_stale_def Let_def expire_acks_futs expire_resps_futs)
    next
      case resp
      then have "?c < pr_created p \<or> list_ex (\<lambda>w. pr_future w = f \<and> \<not> ?c < pr_created w) (tr_resps t)"
        by (auto simp: list_ex_iff)
      then show ?thesis
        using resp assms(3) unfolding CleanupStale remembered_def in_tracked
        by (auto simp: cleanup_stale_def Let_def expire_acks_futs expire_resps_futs)
    qed
  next
    case (UnregisterSink token)
    with assms(2) show ?thesis
      by (fastforce simp: unregister_ack_sink_def remembered_def in_tracked dest: remove_sink_keeps
          split: option.split)
  qed (use assms(2,4) in \<open>auto simp: remembered_def in_tracked register_ack_sink_def take_refused_reads_def
      register_response_def create_future_def unregister_def drop_ack_sinks_def drop_ack_backlog_def
      settle_futs note_timeout_def note_ack_unclaimed_def Let_def\<close>)
  then show ?thesis by (simp add: remembered_def)
qed

section \<open>Concrete instances\<close>

definition demo_frame :: "byte \<Rightarrow> civ_frame" where
  "demo_frame c = \<lparr>cf_to = 0xE0, cf_from = 0x98, cf_command = c, cf_sub = None, cf_data = [],
     cf_receiver = None\<rparr>"

definition demo_key :: "byte \<Rightarrow> request_key" where
  "demo_key c = request_key_from_frame (demo_frame c)"

text \<open>Two polls as sinks and a blocking waiter between them.\<close>

definition demo_ops :: "tracker_op list" where
  "demo_ops = [RegisterSink 0 (Some (demo_key 3)) (Some (demo_key 3)), RegisterAck 0 False False,
     RegisterSink 0 (Some (demo_key 4)) (Some (demo_key 4))]"

abbreviation demo_tracker :: tracker where
  "demo_tracker \<equiv> run tracker_step (tracker_init 10 16 1) demo_ops"

definition demo_poll :: "int \<Rightarrow> byte \<Rightarrow> ack_waiter" where
  "demo_poll i c = \<lparr>aw_future = None, aw_token = i, aw_created = 0, aw_gen = 0, aw_nak_only = False,
     aw_key = Some (demo_key c), aw_refused = Some (demo_key c)\<rparr>"

definition demo_blocking :: ack_waiter where
  "demo_blocking = \<lparr>aw_future = Some 0, aw_token = 2, aw_created = 0, aw_gen = 0,
     aw_nak_only = False, aw_key = None, aw_refused = None\<rparr>"

text \<open>Two blocking waiters, the first one cancelled by its caller while it still stands in the list.\<close>

definition demo_cancelled :: "tracker_op list" where
  "demo_cancelled = [RegisterAck 0 False False, Cancel 0, RegisterAck 0 False False]"

definition demo_wait :: "nat \<Rightarrow> int \<Rightarrow> ack_waiter" where
  "demo_wait f i = \<lparr>aw_future = Some f, aw_token = i, aw_created = 0, aw_gen = 0,
     aw_nak_only = False, aw_key = None, aw_refused = None\<rparr>"

lemmas demo_tracker_defs = demo_ops_def demo_poll_def demo_blocking_def tracker_init_def
  register_ack_wait_def register_ack_sink_def prune_ack_backlog_def create_future_def Let_def

lemma demo_tracker_acks: "tr_acks demo_tracker = [demo_poll 1 3, demo_blocking, demo_poll 3 4]"
  by (simp add: demo_tracker_defs)

lemma demo_tracker_rest: "tr_resps demo_tracker = []" "tr_futs demo_tracker 0 = Open"
  "tr_refused demo_tracker = []" "tr_gen demo_tracker = 0"
  by (simp_all add: demo_tracker_defs)

theorem futures_complete_once_witness:
  "tr_futs (run tracker_step (tracker_step demo_tracker FailAll) [Resolve 0 0 \<lparr>ev_type = Ev_ACK,
     ev_frame = Some (demo_frame 0xFB), ev_receiver = None\<rparr> None True]) 0 = Failed Aborted"
proof -
  let ?t = "tracker_step demo_tracker FailAll"
  have "tr_futs ?t 0 = Failed Aborted"
    by (simp add: fail_all_futs demo_tracker_rest tracked_def demo_tracker_acks demo_blocking_def demo_poll_def)
  moreover have "0 < tr_next ?t" by (simp add: fail_all_fields demo_tracker_defs)
  moreover have "tr_futs ?t 0 \<noteq> Open" using calculation(1) by simp
  ultimately show ?thesis using futures_complete_once [of 0 ?t, THEN conjunct1] by metis
qed

theorem advance_generation_fences_witness:
  "tr_futs (tracker_step demo_tracker AdvanceGeneration) 0 = Failed Aborted"
proof -
  have "0 \<in> set (tracked demo_tracker)"
    by (simp add: in_tracked demo_tracker_acks demo_blocking_def)
  then show ?thesis
    using advance_generation_fences [OF refl refl, of 0 10 16 1 demo_ops] demo_tracker_rest by simp
qed

theorem ack_goes_to_oldest_taker_witness:
  "tr_refused (snd (resolve 1 1 \<lparr>ev_type = Ev_NAK, ev_frame = Some (demo_frame 0xFA),
     ev_receiver = None\<rparr> None True demo_tracker)) = [demo_key 3] \<and>
   tr_futs (snd (resolve 1 1 \<lparr>ev_type = Ev_ACK, ev_frame = Some (demo_frame 0xFB),
     ev_receiver = None\<rparr> None True (run tracker_step (tracker_init 10 16 1) demo_cancelled))) 1 =
     Answered (demo_frame 0xFB)"
proof
  let ?t = "run tracker_step (tracker_init 10 16 1) demo_cancelled"
  let ?s = "resolve 1 1 \<lparr>ev_type = Ev_ACK, ev_frame = Some (demo_frame 0xFB), ev_receiver = None\<rparr> None True ?t"
  have b: "tr_acks ?t = [demo_wait 0 1] @ demo_wait 1 2 # []"
    by (simp add: demo_cancelled_def demo_wait_def demo_tracker_defs)
  have d: "tr_futs ?t 0 = Withdrawn" "tr_futs ?t 1 = Open"
    by code_simp+
  have tks: "\<not> takes ?t (Ev_ACK = Ev_NAK) (demo_wait 0 1)" "takes ?t (Ev_ACK = Ev_NAK) (demo_wait 1 2)"
    using d by (simp_all add: takes_def demo_wait_def)
  from ack_goes_to_oldest_taker [OF refl b _ tks(2), of "fst ?s" "snd ?s" 1 1 "demo_frame 0xFB" None True] tks(1)
  show "tr_futs (snd ?s) 1 = Answered (demo_frame 0xFB)" by (simp add: demo_wait_def)
next
  let ?r = "resolve 1 1 \<lparr>ev_type = Ev_NAK, ev_frame = Some (demo_frame 0xFA), ev_receiver = None\<rparr> None True demo_tracker"
  have a: "tr_acks demo_tracker = [] @ demo_poll 1 3 # [demo_blocking, demo_poll 3 4]"
    by (simp add: demo_tracker_acks)
  have tk: "takes demo_tracker (Ev_NAK = Ev_NAK) (demo_poll 1 3)"
    by (simp add: takes_def demo_poll_def)
  from ack_goes_to_oldest_taker [OF refl a _ tk, of "fst ?r" "snd ?r" 1 1 "demo_frame 0xFA" None True]
  show "tr_refused (snd ?r) = [demo_key 3]" by (simp add: demo_tracker_rest demo_poll_def)
qed

theorem ordered_answer_retires_older_sinks_witness:
  "tr_acks (snd (resolve 1 1 \<lparr>ev_type = Ev_RESPONSE, ev_frame = Some (demo_frame 4),
     ev_receiver = None\<rparr> None True demo_tracker)) = [demo_blocking]"
proof -
  let ?r = "resolve 1 1 \<lparr>ev_type = Ev_RESPONSE, ev_frame = Some (demo_frame 4), ev_receiver = None\<rparr> None True demo_tracker"
  have a: "tr_acks demo_tracker = [demo_poll 1 3, demo_blocking] @ demo_poll 3 4 # []"
    by (simp add: demo_tracker_acks)
  have k: "aw_key (demo_poll 3 4) = Some (demo_key 4)" by (simp add: demo_poll_def)
  have m: "key_matches (demo_key 4) (demo_frame 4)" "\<not> key_matches (demo_key 3) (demo_frame 4)"
    "cf_to (demo_frame 4) \<noteq> BROADCAST_ADDR" by code_simp+
  from ordered_answer_retires_older_sinks [OF refl a k m(1), of "fst ?r" "snd ?r" 1 1 None] m(2,3)
  show ?thesis by (simp add: demo_tracker_rest demo_poll_def demo_blocking_def)
qed

theorem no_waiter_is_forgotten_witness:
  "0 \<in> set (tracked (tracker_step demo_tracker (DropSinks 1))) \<and>
   tr_futs (tracker_step demo_tracker (DropSinks 1)) 0 = Open"
proof
  show open0: "tr_futs (tracker_step demo_tracker (DropSinks 1)) 0 = Open"
    by code_simp
  have "0 \<in> set (tracked (tracker_step demo_tracker (DropSinks 1))) \<or>
     tr_futs (tracker_step demo_tracker (DropSinks 1)) 0 \<noteq> Open"
    by (rule no_waiter_is_forgotten [OF refl])
       (simp_all add: demo_tracker_rest in_tracked demo_tracker_acks demo_blocking_def)
  with open0 show "0 \<in> set (tracked (tracker_step demo_tracker (DropSinks 1)))" by simp
qed

end
