(* ===== verification/PttLedger.thy ===== *)
theory PttLedger
  imports CivFrames
begin

text \<open>
  \<open>core/civ.py\<close>: \<open>is_directed_ptt_reply\<close> and \<open>PttReplyLedger\<close>, the account of PTT reads whose reply is owed.

  Entries are mutable objects compared by identity, so an entry is a number and the ledger carries the
  store of their fields. The clock reading of an operation is its argument.
\<close>

section \<open>The ledger\<close>

definition is_directed_ptt_reply :: "civ_frame \<Rightarrow> byte \<Rightarrow> bool" where
  "is_directed_ptt_reply fr radio_addr \<longleftrightarrow>
     cf_to fr = 0xE0 \<and> cf_from fr = radio_addr \<and> cf_command fr = 0x1C \<and> cf_sub fr = Some 0x00 \<and>
     length (cf_data fr) = 1 \<and> hd (cf_data fr) \<in> {0x00, 0x01}"

record owed_entry =
  oe_dispatched :: "time option"
  oe_answer :: "civ_frame option"

record ledger =
  lg_lifetime :: time
  lg_quiescence :: time
  lg_owed :: "nat list"
  lg_store :: "nat \<Rightarrow> owed_entry"
  lg_next :: nat
  lg_orphans :: int
  lg_quarantine :: time

definition fresh_entry :: owed_entry where
  "fresh_entry = \<lparr>oe_dispatched = None, oe_answer = None\<rparr>"

definition ledger_init :: "time \<Rightarrow> time \<Rightarrow> ledger" where
  "ledger_init answer_window quiescence =
     \<lparr>lg_lifetime = answer_window + quiescence, lg_quiescence = quiescence, lg_owed = [],
      lg_store = (\<lambda>_. fresh_entry), lg_next = 0, lg_orphans = 0, lg_quarantine = 0\<rparr>"

definition live_entry :: "time \<Rightarrow> ledger \<Rightarrow> nat \<Rightarrow> bool" where
  "live_entry now l e \<longleftrightarrow>
     (case oe_dispatched (lg_store l e) of None \<Rightarrow> True | Some d \<Rightarrow> now \<le> d + lg_lifetime l)"

definition ledger_expire :: "time \<Rightarrow> ledger \<Rightarrow> ledger" where
  "ledger_expire now l = l\<lparr>lg_owed := filter (live_entry now l) (lg_owed l)\<rparr>"

definition note_dispatch :: "time \<Rightarrow> civ_frame \<Rightarrow> ledger \<Rightarrow> nat option \<times> ledger" where
  "note_dispatch now fr l0 =
     (let l = ledger_expire now l0 in
      if cf_command fr \<noteq> 0x1C \<or> cf_sub fr \<noteq> Some 0x00 \<or> cf_data fr \<noteq> [] then (None, l)
      else (Some (lg_next l), l\<lparr>lg_owed := lg_owed l @ [lg_next l],
              lg_store := (lg_store l)(lg_next l := fresh_entry), lg_next := Suc (lg_next l)\<rparr>))"

definition note_written :: "time \<Rightarrow> nat option \<Rightarrow> ledger \<Rightarrow> ledger" where
  "note_written now entry l =
     (case entry of None \<Rightarrow> l
      | Some e \<Rightarrow> (if oe_dispatched (lg_store l e) = None
                  then l\<lparr>lg_store := (lg_store l)(e := (lg_store l e)\<lparr>oe_dispatched := Some now\<rparr>)\<rparr>
                  else l))"

definition ledger_discard :: "nat option \<Rightarrow> ledger \<Rightarrow> ledger" where
  "ledger_discard entry l = l\<lparr>lg_owed := filter (\<lambda>e. Some e \<noteq> entry) (lg_owed l)\<rparr>"

definition note_reply :: "time \<Rightarrow> civ_frame \<Rightarrow> ledger \<Rightarrow> nat option \<times> ledger" where
  "note_reply now fr l0 =
     (let l = ledger_expire now l0 in
      case lg_owed l of
        e # es \<Rightarrow> (Some e, l\<lparr>lg_owed := es,
                     lg_store := (lg_store l)(e := (lg_store l e)\<lparr>oe_answer := Some fr\<rparr>)\<rparr>)
      | [] \<Rightarrow> (None, l\<lparr>lg_orphans := lg_orphans l + 1, lg_quarantine := now + lg_quiescence l\<rparr>))"

definition ledger_eligible :: "time \<Rightarrow> ledger \<Rightarrow> bool \<times> ledger" where
  "ledger_eligible now l0 =
     (let l = ledger_expire now l0 in (lg_owed l = [] \<and> now \<ge> lg_quarantine l, l))"

section \<open>Runs\<close>

datatype ledger_op =
    Dispatch time civ_frame
  | Written time "nat option"
  | Discard "nat option"
  | Reply time civ_frame
  | AskEligible time

fun ledger_step :: "ledger \<Rightarrow> ledger_op \<Rightarrow> ledger" where
  "ledger_step l (Dispatch now fr) = snd (note_dispatch now fr l)"
| "ledger_step l (Written now e) = note_written now e l"
| "ledger_step l (Discard e) = ledger_discard e l"
| "ledger_step l (Reply now fr) = snd (note_reply now fr l)"
| "ledger_step l (AskEligible now) = snd (ledger_eligible now l)"

definition ledger_inv :: "ledger \<Rightarrow> bool" where
  "ledger_inv l \<longleftrightarrow> distinct (lg_owed l) \<and> (\<forall>e \<in> set (lg_owed l). e < lg_next l \<and>
     oe_answer (lg_store l e) = None) \<and> sorted (lg_owed l)"

lemma sorted_snoc_less: "sorted xs \<Longrightarrow> (\<And>x. x \<in> set xs \<Longrightarrow> x < n) \<Longrightarrow> sorted (xs @ [n :: nat])"
  by (auto simp: sorted_append less_imp_le)

lemma expire_inv: "ledger_inv l \<Longrightarrow> ledger_inv (ledger_expire now l)"
  by (auto simp: ledger_inv_def ledger_expire_def intro: sorted_wrt_filter)

lemma note_reply_inv:
  assumes "ledger_inv l"
  shows "ledger_inv (snd (note_reply now fr l))"
proof (cases "lg_owed (ledger_expire now l)")
  case Nil
  then show ?thesis
    using expire_inv [OF assms, of now] by (simp add: note_reply_def Let_def ledger_inv_def)
next
  case (Cons e es)
  then show ?thesis
    using expire_inv [OF assms, of now] by (auto simp: note_reply_def Let_def ledger_inv_def)
qed

interpretation ledger: guarded_system ledger_step ledger_inv
proof
  fix l :: ledger and e :: ledger_op
  assume inv: "ledger_inv l"
  show "ledger_inv (ledger_step l e)"
  proof (cases e)
    case (Dispatch now fr)
    then show ?thesis
      using expire_inv [OF inv, of now]
      by (auto simp: note_dispatch_def Let_def ledger_inv_def fresh_entry_def less_imp_le
          sorted_append intro: less_SucI)
  next
    case (Written now w)
    then show ?thesis
      using inv by (auto simp: note_written_def ledger_inv_def split: option.split)
  next
    case (Discard d)
    then show ?thesis
      using inv by (auto simp: ledger_discard_def ledger_inv_def intro: sorted_wrt_filter)
  next
    case (Reply now fr)
    then show ?thesis using note_reply_inv [OF inv] by simp
  next
    case (AskEligible now)
    then show ?thesis using expire_inv [OF inv] by (simp add: ledger_eligible_def Let_def)
  qed
qed

text \<open>An entry that is no longer owed never is again.\<close>

lemma not_owed_forever:
  assumes "e < lg_next l" and "e \<notin> set (lg_owed l)"
  shows "e \<notin> set (lg_owed (run ledger_step l ops))"
proof -
  have "e < lg_next (ledger_step l op) \<and> e \<notin> set (lg_owed (ledger_step l op))"
    if "e < lg_next l" "e \<notin> set (lg_owed l)" for l op
    using that
    by (cases op) (auto simp: note_dispatch_def note_written_def ledger_discard_def note_reply_def
        ledger_eligible_def ledger_expire_def Let_def split: option.split list.split
        dest: filter_eq_ConsD)
  with assms show ?thesis by (induction ops arbitrary: l) auto
qed

text \<open>
  A PTT reply answers the oldest read whose reply can still come: it is an owed, unanswered, unexpired entry, every
  older owed entry has expired, the frame is recorded as its answer, and no later reply is ever attributed to it again.
\<close>

theorem reply_answers_oldest_owed:
  assumes "l = run ledger_step (ledger_init window quiet) ops"
    and "note_reply now fr l = (Some e, l')"
  shows "e \<in> set (lg_owed l) \<and> live_entry now l e \<and> oe_answer (lg_store l e) = None \<and>
    (\<forall>e' \<in> set (lg_owed l). e' < e \<longrightarrow> \<not> live_entry now l e') \<and>
    oe_answer (lg_store l' e) = Some fr \<and>
    (\<forall>ops'. fst (note_reply now' fr' (run ledger_step l' ops')) \<noteq> Some e)"
proof -
  have "ledger_inv (ledger_init window quiet)" by (simp add: ledger_inv_def ledger_init_def)
  then have inv: "ledger_inv l" unfolding assms(1) by (rule ledger.run_inv)
  obtain es where f: "filter (live_entry now l) (lg_owed l) = e # es"
    and l': "l' = (ledger_expire now l)\<lparr>lg_owed := es,
      lg_store := (lg_store l)(e := (lg_store l e)\<lparr>oe_answer := Some fr\<rparr>)\<rparr>"
    using assms(2) by (auto simp: note_reply_def ledger_expire_def Let_def split: list.splits)
  have set_es: "set (e # es) = {x \<in> set (lg_owed l). live_entry now l x}"
    using arg_cong [OF f, of set] by simp
  then have mem: "e \<in> set (lg_owed l)" "live_entry now l e" by auto
  have sd: "sorted (e # es)" "distinct (e # es)"
    using inv f unfolding ledger_inv_def by (metis sorted_wrt_filter distinct_filter)+
  have older: "\<not> live_entry now l e'" if "e' \<in> set (lg_owed l)" "e' < e" for e'
  proof
    assume "live_entry now l e'"
    then have "e' \<in> set (e # es)" using that(1) set_es by simp
    then show False using sd(1) that(2) by auto
  qed
  have "e < lg_next l'" using inv mem l' by (auto simp: ledger_inv_def ledger_expire_def)
  moreover have "e \<notin> set (lg_owed l')" using sd(2) l' by simp
  ultimately have never: "e \<notin> set (lg_owed (run ledger_step l' ops'))" for ops'
    by (rule not_owed_forever)
  have "fst (note_reply now' fr' m) \<noteq> Some e" if "e \<notin> set (lg_owed m)" for m
    using that
    by (auto simp: note_reply_def ledger_expire_def Let_def split: list.split dest: filter_eq_ConsD)
  with never mem older inv l' show ?thesis by (simp add: ledger_inv_def)
qed

definition demo_read :: civ_frame where
  "demo_read = \<lparr>cf_to = 0x98, cf_from = 0xE0, cf_command = 0x1C, cf_sub = Some 0x00, cf_data = [],
     cf_receiver = None\<rparr>"

theorem reply_answers_oldest_owed_witness:
  "\<exists>l'. note_reply 5 demo_read (run ledger_step (ledger_init 1 2) [Dispatch 0 demo_read,
     Written 0 (Some 0), Dispatch 4 demo_read]) = (Some 1, l') \<and>
     oe_answer (lg_store l' 1) = Some demo_read"
proof -
  let ?l = "run ledger_step (ledger_init 1 2) [Dispatch 0 demo_read, Written 0 (Some 0), Dispatch 4 demo_read]"
  have "fst (note_reply 5 demo_read ?l) = Some 1" by code_simp
  then have "note_reply 5 demo_read ?l = (Some 1, snd (note_reply 5 demo_read ?l))"
    by (metis prod.collapse)
  with reply_answers_oldest_owed [OF refl this] show ?thesis by blast
qed

end
