(* ===== verification/FieldPaths.thy ===== *)
theory FieldPaths
  imports Prelude
begin

text \<open>
  The canonical state paths of the state pipeline
  (\<open>core/state_pipeline_contracts.py\<close>: \<open>FieldPath\<close>, its dotted string form, the acquisition
  classes derived from a path, \<open>FieldSpec\<close> and \<open>FieldRegistry\<close>).

  A path value is a record; the dataclass constructor with its \<open>__post_init__\<close> checks is
  \<open>mk_field_path\<close>, which raises \<open>ValueError\<close>. The paths of the program are the ones it
  accepts (\<open>path_ok\<close>). A serialized path of \<open>to_dict\<close> is a map from keys to strings or
  \<open>None\<close>.
\<close>

section \<open>Enumerations\<close>

datatype field_scope = GLOBAL | RECEIVER | SCOPE_CONTROLS | CONNECTION | HEALTH

datatype vfo_slot = SLOT_ACTIVE | SLOT_UNSELECTED | SLOT_A | SLOT_B

datatype field_family = FREQ_MODE | VFO | OPERATOR_TOGGLES | OPERATOR_CONTROLS | METERS
  | TX_STATE | SLOW_STATE | DISPLAY | FAMILY_CONNECTION | FAMILY_HEALTH

text \<open>Declared in rank order, highest first.\<close>

datatype acquisition_class = KEYING | TX_METER | LIVE | METER | CONTROL | PANEL | SETTING | MENU

fun scope_value :: "field_scope \<Rightarrow> string" where
  "scope_value GLOBAL = ''global''"
| "scope_value RECEIVER = ''receiver''"
| "scope_value SCOPE_CONTROLS = ''scope_controls''"
| "scope_value CONNECTION = ''connection''"
| "scope_value HEALTH = ''health''"

fun slot_value :: "vfo_slot \<Rightarrow> string" where
  "slot_value SLOT_ACTIVE = ''active''"
| "slot_value SLOT_UNSELECTED = ''unselected''"
| "slot_value SLOT_A = ''A''"
| "slot_value SLOT_B = ''B''"

fun family_value :: "field_family \<Rightarrow> string" where
  "family_value FREQ_MODE = ''freq_mode''"
| "family_value VFO = ''vfo''"
| "family_value OPERATOR_TOGGLES = ''operator_toggles''"
| "family_value OPERATOR_CONTROLS = ''operator_controls''"
| "family_value METERS = ''meters''"
| "family_value TX_STATE = ''tx_state''"
| "family_value SLOW_STATE = ''slow_state''"
| "family_value DISPLAY = ''display''"
| "family_value FAMILY_CONNECTION = ''connection''"
| "family_value FAMILY_HEALTH = ''health''"

text \<open>\<open>FieldScope(text)\<close>, \<open>VfoSlot(text)\<close>, \<open>FieldFamily(text)\<close>: an unknown value raises.\<close>

definition scopes :: "field_scope list" where
  "scopes = [GLOBAL, RECEIVER, SCOPE_CONTROLS, CONNECTION, HEALTH]"

definition slots :: "vfo_slot list" where
  "slots = [SLOT_ACTIVE, SLOT_UNSELECTED, SLOT_A, SLOT_B]"

definition families :: "field_family list" where
  "families = [FREQ_MODE, VFO, OPERATOR_TOGGLES, OPERATOR_CONTROLS, METERS, TX_STATE,
     SLOW_STATE, DISPLAY, FAMILY_CONNECTION, FAMILY_HEALTH]"

fun member_of_value :: "('e \<Rightarrow> string) \<Rightarrow> 'e list \<Rightarrow> string \<Rightarrow> 'e result" where
  "member_of_value value [] s = Inl ValueError"
| "member_of_value value (e # es) s =
     (if value e = s then Inr e else member_of_value value es s)"

definition scope_of :: "string \<Rightarrow> field_scope result" where
  "scope_of = member_of_value scope_value scopes"

definition slot_of :: "string \<Rightarrow> vfo_slot result" where
  "slot_of = member_of_value slot_value slots"

section \<open>Tokens\<close>

definition token_alphabet :: string where
  "token_alphabet = ''abcdefghijklmnopqrstuvwxyz0123456789_''"

definition validate_token :: "string \<Rightarrow> string result" where
  "validate_token s =
     (if s = '''' then Inl ValueError
      else if list_ex (\<lambda>ch. ch \<notin> set token_alphabet) s then Inl ValueError
      else Inr s)"

definition validate_family :: "string \<Rightarrow> field_family result" where
  "validate_family s =
     bind_result (validate_token s) (\<lambda>t. member_of_value family_value families t)"

section \<open>Field paths\<close>

record field_path =
  fp_scope :: field_scope
  fp_family :: field_family
  fp_name :: string
  fp_receiver_id :: "string option"
  fp_slot :: "vfo_slot option"

fun validate_optional_token :: "string option \<Rightarrow> string option result" where
  "validate_optional_token None = Inr None"
| "validate_optional_token (Some r) = bind_result (validate_token r) (\<lambda>t. Inr (Some t))"

definition mk_field_path ::
  "field_scope \<Rightarrow> field_family \<Rightarrow> string \<Rightarrow> string option \<Rightarrow> vfo_slot option \<Rightarrow> field_path result"
where
  "mk_field_path scope family name0 receiver0 slot =
     bind_result (validate_token name0) (\<lambda>name.
     bind_result (validate_optional_token receiver0) (\<lambda>receiver_id.
       if scope = RECEIVER \<and> receiver_id = None then Inl ValueError
       else if scope \<in> {GLOBAL, CONNECTION, HEALTH} \<and> (receiver_id \<noteq> None \<or> slot \<noteq> None)
         then Inl ValueError
       else if scope = SCOPE_CONTROLS \<and> slot \<noteq> None then Inl ValueError
       else if scope = SCOPE_CONTROLS \<and> family \<noteq> DISPLAY then Inl ValueError
       else if slot \<in> {Some SLOT_ACTIVE, Some SLOT_UNSELECTED} \<and> scope \<noteq> RECEIVER
         then Inl ValueError
       else if slot \<noteq> None \<and> family \<noteq> FREQ_MODE then Inl ValueError
       else Inr \<lparr>fp_scope = scope, fp_family = family, fp_name = name,
                 fp_receiver_id = receiver_id, fp_slot = slot\<rparr>))"

text \<open>The values the constructor can return.\<close>

definition path_ok :: "field_path \<Rightarrow> bool" where
  "path_ok p \<longleftrightarrow>
     mk_field_path (fp_scope p) (fp_family p) (fp_name p) (fp_receiver_id p) (fp_slot p) = Inr p"

definition receiver_path :: "string \<Rightarrow> string \<Rightarrow> string \<Rightarrow> field_path result" where
  "receiver_path receiver_id family name =
     bind_result (validate_family family) (\<lambda>f. mk_field_path RECEIVER f name (Some receiver_id) None)"

definition vfo_slot_path :: "string \<Rightarrow> string \<Rightarrow> string \<Rightarrow> string \<Rightarrow> field_path result" where
  "vfo_slot_path receiver_id slot family name =
     (if slot \<notin> {slot_value SLOT_A, slot_value SLOT_B} then Inl ValueError
      else bind_result (slot_of slot) (\<lambda>sl.
           bind_result (validate_family family) (\<lambda>f.
             mk_field_path RECEIVER f name (Some receiver_id) (Some sl))))"

definition active_path :: "string \<Rightarrow> string \<Rightarrow> string \<Rightarrow> field_path result" where
  "active_path receiver_id family name =
     bind_result (validate_family family) (\<lambda>f.
       mk_field_path RECEIVER f name (Some receiver_id) (Some SLOT_ACTIVE))"

definition unselected_path :: "string \<Rightarrow> string \<Rightarrow> string \<Rightarrow> field_path result" where
  "unselected_path receiver_id family name =
     bind_result (validate_family family) (\<lambda>f.
       mk_field_path RECEIVER f name (Some receiver_id) (Some SLOT_UNSELECTED))"

definition active_slot_path :: "string \<Rightarrow> field_path result" where
  "active_slot_path receiver_id = receiver_path receiver_id (family_value VFO) ''active_slot''"

definition global_path :: "string \<Rightarrow> string \<Rightarrow> field_path result" where
  "global_path family name =
     bind_result (validate_family family) (\<lambda>f. mk_field_path GLOBAL f name None None)"

definition scope_control_path :: "string \<Rightarrow> string \<Rightarrow> string option \<Rightarrow> field_path result" where
  "scope_control_path family name receiver_id =
     bind_result (validate_family family) (\<lambda>f.
       mk_field_path SCOPE_CONTROLS f name receiver_id None)"

definition receiver_id_aliases :: "string \<rightharpoonup> string" where
  "receiver_id_aliases = map_of
     [(''0'', ''main''), (''main'', ''0''), (''1'', ''sub''), (''sub'', ''1'')]"

text \<open>\<open>replace\<close> builds a new path, so its checks run again.\<close>

definition receiver_alias :: "field_path \<Rightarrow> field_path option result" where
  "receiver_alias p =
     (case Option.bind (fp_receiver_id p) receiver_id_aliases of
        None \<Rightarrow> Inr None
      | Some alias \<Rightarrow>
          bind_result
            (mk_field_path (fp_scope p) (fp_family p) (fp_name p) (Some alias) (fp_slot p))
            (\<lambda>q. Inr (Some q)))"

section \<open>The dotted form\<close>

text \<open>\<open>".".join(parts)\<close> and \<open>value.split(".")\<close>.\<close>

fun join_dots :: "string list \<Rightarrow> string" where
  "join_dots [] = ''''"
| "join_dots [p] = p"
| "join_dots (p # q # ps) = p @ CHR ''.'' # join_dots (q # ps)"

fun split_dots :: "string \<Rightarrow> string list" where
  "split_dots [] = ['''']"
| "split_dots (c # cs) =
     (if c = CHR ''.'' then '''' # split_dots cs
      else case split_dots cs of p # ps \<Rightarrow> (c # p) # ps | [] \<Rightarrow> [[c]])"

definition path_str :: "field_path \<Rightarrow> string" where
  "path_str p =
     (if fp_scope p = RECEIVER then
        (case fp_slot p of
           Some sl \<Rightarrow>
             if sl \<in> {SLOT_ACTIVE, SLOT_UNSELECTED}
             then join_dots [scope_value (fp_scope p), the (fp_receiver_id p), slot_value sl,
                    family_value (fp_family p), fp_name p]
             else join_dots [scope_value (fp_scope p), the (fp_receiver_id p), ''slot'',
                    slot_value sl, family_value (fp_family p), fp_name p]
         | None \<Rightarrow>
             join_dots [scope_value (fp_scope p), the (fp_receiver_id p),
               family_value (fp_family p), fp_name p])
      else if fp_scope p = SCOPE_CONTROLS then
        (case fp_receiver_id p of
           None \<Rightarrow>
             join_dots [scope_value (fp_scope p), scope_value GLOBAL,
               family_value (fp_family p), fp_name p]
         | Some r \<Rightarrow>
             join_dots [scope_value (fp_scope p), ''receiver'', r,
               family_value (fp_family p), fp_name p])
      else join_dots [scope_value (fp_scope p), family_value (fp_family p), fp_name p])"

definition parse_receiver :: "string list \<Rightarrow> field_path result" where
  "parse_receiver parts =
     (if length parts < 4 then Inl ValueError
      else let rx = parts ! 1; marker = parts ! 2 in
        if marker = ''slot'' then
          (if length parts \<noteq> 6 then Inl ValueError
           else vfo_slot_path rx (parts ! 3) (parts ! 4) (parts ! 5))
        else if marker \<in> {slot_value SLOT_ACTIVE, slot_value SLOT_UNSELECTED} then
          (if length parts \<noteq> 5 then Inl ValueError
           else if marker = slot_value SLOT_ACTIVE then active_path rx (parts ! 3) (parts ! 4)
           else unselected_path rx (parts ! 3) (parts ! 4))
        else if length parts \<noteq> 4 then Inl ValueError
        else receiver_path rx marker (parts ! 3))"

definition parse_scope_controls :: "string list \<Rightarrow> field_path result" where
  "parse_scope_controls parts =
     (if parts ! 1 = ''receiver'' then
        (if length parts \<noteq> 5 then Inl ValueError
         else scope_control_path (parts ! 3) (parts ! 4) (Some (parts ! 2)))
      else if parts ! 1 = scope_value GLOBAL then
        (if length parts \<noteq> 4 then Inl ValueError
         else scope_control_path (parts ! 2) (parts ! 3) None)
      else Inl ValueError)"

definition parse_path :: "string \<Rightarrow> field_path result" where
  "parse_path value =
     (let parts = split_dots value in
      if length parts < 3 then Inl ValueError
      else let scope = parts ! 0 in
        if scope = scope_value RECEIVER then parse_receiver parts
        else if scope = scope_value GLOBAL then
          (if length parts \<noteq> 3 then Inl ValueError else global_path (parts ! 1) (parts ! 2))
        else if scope = scope_value SCOPE_CONTROLS then parse_scope_controls parts
        else if scope \<in> {scope_value CONNECTION, scope_value HEALTH} then
          (if length parts \<noteq> 3 then Inl ValueError
           else bind_result (scope_of scope) (\<lambda>sc.
                bind_result (validate_family (parts ! 1)) (\<lambda>f.
                  mk_field_path sc f (parts ! 2) None None)))
        else Inl ValueError)"

text \<open>The JSON form: every value is a string or \<open>None\<close> (\<open>str(None)\<close> is \<open>''None''\<close>).\<close>

type_synonym path_dict = "string \<rightharpoonup> string option"

definition path_to_dict :: "field_path \<Rightarrow> path_dict" where
  "path_to_dict p = map_of
     [(''path'', Some (path_str p)),
      (''scope'', Some (scope_value (fp_scope p))),
      (''receiverId'', fp_receiver_id p),
      (''slot'', map_option slot_value (fp_slot p)),
      (''family'', Some (family_value (fp_family p))),
      (''name'', Some (fp_name p))]"

definition str_of :: "string option \<Rightarrow> string" where
  "str_of v = (case v of None \<Rightarrow> ''None'' | Some s \<Rightarrow> s)"

fun dict_str :: "path_dict \<Rightarrow> string \<Rightarrow> string result" where
  "dict_str d key = (case d key of None \<Rightarrow> Inl KeyError | Some v \<Rightarrow> Inr (str_of v))"

definition path_from_dict :: "path_dict \<Rightarrow> field_path result" where
  "path_from_dict d =
     (case Option.bind (d ''path'') id of
        Some path \<Rightarrow> parse_path path
      | None \<Rightarrow>
          bind_result (bind_result (dict_str d ''scope'') scope_of) (\<lambda>scope.
          bind_result
            (case Option.bind (d ''slot'') id of
               None \<Rightarrow> Inr None
             | Some s \<Rightarrow> bind_result (slot_of s) (\<lambda>sl. Inr (Some sl))) (\<lambda>slot.
          bind_result (bind_result (dict_str d ''family'') validate_family) (\<lambda>family.
          bind_result (dict_str d ''name'') (\<lambda>name.
            mk_field_path scope family name (Option.bind (d ''receiverId'') id) slot)))))"

section \<open>Acquisition classes\<close>

definition live_tuning_field_names :: "string list" where
  "live_tuning_field_names = [''freq_hz'', ''mode'']"

definition live_field_names :: "string list" where
  "live_field_names = live_tuning_field_names @ [''ptt'']"

definition tx_meter_field_names :: "string list" where
  "tx_meter_field_names = [''power'', ''swr'', ''alc'', ''comp'', ''id'']"

definition control_field_names :: "string list" where
  "control_field_names =
     [''af_level'', ''rf_gain'', ''squelch'', ''filter_width'', ''filter_width_radio_default'',
      ''split'', ''tx_target'', ''active'', ''power_level'', ''dual_watch'', ''tuner_status'']"

definition panel_adjustable_field_names :: "string list" where
  "panel_adjustable_field_names =
     [''auto_notch'', ''filter_width'', ''filter_width_radio_default'', ''if_shift'',
      ''manual_notch'', ''manual_notch_freq'', ''manual_notch_width'', ''nb_level'',
      ''notch_filter'', ''nr_level'', ''pbt_inner'', ''pbt_outer'', ''rit_freq'', ''split'']"

definition panel_field_names :: "string list" where
  "panel_field_names =
     filter (\<lambda>n. n \<notin> set control_field_names) panel_adjustable_field_names"

fun demotion_map :: "acquisition_class \<rightharpoonup> acquisition_class" where
  "demotion_map LIVE = Some CONTROL"
| "demotion_map METER = Some CONTROL"
| "demotion_map CONTROL = Some PANEL"
| "demotion_map PANEL = Some SETTING"
| "demotion_map SETTING = Some MENU"
| "demotion_map MENU = Some MENU"
| "demotion_map KEYING = None"
| "demotion_map TX_METER = None"

definition demoted_acquisition_class :: "acquisition_class \<Rightarrow> acquisition_class" where
  "demoted_acquisition_class klass =
     (case demotion_map klass of Some k \<Rightarrow> k | None \<Rightarrow> klass)"

definition startup_critical_path :: "field_path \<Rightarrow> bool" where
  "startup_critical_path p =
     (if fp_family p = FREQ_MODE then fp_name p \<in> set live_tuning_field_names
      else if fp_family p = TX_STATE then fp_name p \<in> set [''ptt'', ''split'', ''tx_target'']
      else False)"

definition acquisition_class_for_path :: "field_path \<Rightarrow> acquisition_class" where
  "acquisition_class_for_path p =
     (if fp_family p = METERS then
        (if fp_name p \<in> set tx_meter_field_names then TX_METER
         else if fp_name p = ''s_meter'' then METER
         else SETTING)
      else if fp_family p = DISPLAY then MENU
      else if fp_name p = ''ptt'' then KEYING
      else if fp_family p = FREQ_MODE \<and> fp_name p \<in> set live_tuning_field_names then
        (if fp_slot p = Some SLOT_ACTIVE then LIVE else CONTROL)
      else if fp_name p \<in> set control_field_names then CONTROL
      else if fp_name p \<in> set panel_field_names then PANEL
      else SETTING)"

section \<open>The registry\<close>

definition field_units :: "string list" where
  "field_units =
     [''hz'', ''centihz'', ''normalized'', ''db'', ''w'', ''ratio'', ''v'', ''a'']"

record field_spec =
  fs_path :: field_path
  fs_family :: field_family
  fs_value_type :: string
  fs_acquisition_class :: acquisition_class
  fs_readable :: bool
  fs_writable :: bool
  fs_unit :: "string option"
  fs_description :: string

definition mk_field_spec :: "field_spec \<Rightarrow> field_spec result" where
  "mk_field_spec spec =
     (if fs_family spec \<noteq> fp_family (fs_path spec) then Inl ValueError
      else bind_result (validate_token (fs_value_type spec)) (\<lambda>_.
        case fs_unit spec of
          Some u \<Rightarrow> if u \<notin> set field_units then Inl ValueError else Inr spec
        | None \<Rightarrow> Inr spec))"

type_synonym path_key = "field_scope \<times> string option \<times> vfo_slot option \<times> string"

definition ambiguity_key :: "field_path \<Rightarrow> path_key" where
  "ambiguity_key p = (fp_scope p, fp_receiver_id p, fp_slot p, fp_name p)"

text \<open>
  The loop of \<open>FieldRegistry.__post_init__\<close>: the serialized paths seen and the family value
  of each ambiguity key.
\<close>

fun check_fields ::
  "string list \<Rightarrow> (path_key \<rightharpoonup> string) \<Rightarrow> field_spec list \<Rightarrow> unit result"
where
  "check_fields by_path keys [] = Inr ()"
| "check_fields by_path keys (spec # specs) =
     (let p = fs_path spec; serialized = path_str p; key = ambiguity_key p;
          fam = family_value (fp_family p) in
      if serialized \<in> set by_path then Inl ValueError
      else case keys key of
        Some previous \<Rightarrow>
          if previous \<noteq> fam then Inl ValueError
          else check_fields (serialized # by_path) (keys(key \<mapsto> fam)) specs
      | None \<Rightarrow> check_fields (serialized # by_path) (keys(key \<mapsto> fam)) specs)"

type_synonym field_registry = "field_spec list"

definition mk_registry :: "field_spec list \<Rightarrow> field_registry result" where
  "mk_registry specs = bind_result (check_fields [] Map.empty specs) (\<lambda>_. Inr specs)"

definition object_spec :: "field_path \<Rightarrow> field_spec" where
  "object_spec p =
     \<lparr>fs_path = p, fs_family = fp_family p, fs_value_type = ''object'',
      fs_acquisition_class = acquisition_class_for_path p,
      fs_readable = True, fs_writable = False, fs_unit = None, fs_description = ''''\<rparr>"

fun build_specs :: "field_path list \<Rightarrow> field_spec list result" where
  "build_specs [] = Inr []"
| "build_specs (p # ps) =
     bind_result (mk_field_spec (object_spec p)) (\<lambda>spec.
     bind_result (build_specs ps) (\<lambda>specs. Inr (spec # specs)))"

definition registry_from_paths :: "field_path list \<Rightarrow> field_registry result" where
  "registry_from_paths ps = bind_result (build_specs ps) mk_registry"

fun find_spec :: "field_path \<Rightarrow> field_registry \<Rightarrow> field_spec result" where
  "find_spec needle [] = Inl KeyError"
| "find_spec needle (spec # specs) =
     (if fs_path spec = needle then Inr spec else find_spec needle specs)"

definition require_path :: "field_registry \<Rightarrow> field_path \<Rightarrow> field_spec result" where
  "require_path reg p = find_spec p reg"

definition require_text :: "field_registry \<Rightarrow> string \<Rightarrow> field_spec result" where
  "require_text reg text = bind_result (parse_path text) (\<lambda>p. find_spec p reg)"

definition registry_paths :: "field_registry \<Rightarrow> field_path list" where
  "registry_paths reg = map fs_path reg"

section \<open>Tokens and dotted strings\<close>

lemma member_of_value_Inr:
  "member_of_value value es s = Inr e \<Longrightarrow> e \<in> set es \<and> value e = s"
  by (induction es) (auto split: if_splits)

lemma validate_token_Inr [result_simps]:
  "validate_token s = Inr t \<longleftrightarrow> t = s \<and> s \<noteq> '''' \<and> (\<forall>ch\<in>set s. ch \<in> set token_alphabet)"
  by (auto simp: validate_token_def list_ex_iff)

lemma validate_optional_token_Inr [result_simps]:
  "validate_optional_token r = Inr q \<longleftrightarrow>
     q = r \<and> (\<forall>s. r = Some s \<longrightarrow> validate_token s = Inr s)"
  by (cases r) (auto simp: result_simps)

lemma dot_not_token: "CHR ''.'' \<notin> set token_alphabet"
  by code_simp

lemma token_dotless: "validate_token s = Inr t \<Longrightarrow> CHR ''.'' \<notin> set s"
  using dot_not_token by (auto simp: validate_token_Inr)

lemma family_of_value [simp]: "validate_family (family_value f) = Inr f"
  by (cases f; hypsubst; code_simp)

lemma slot_of_value [simp]: "slot_of (slot_value s) = Inr s"
  by (cases s; hypsubst; code_simp)

lemma scope_of_value [simp]: "scope_of (scope_value s) = Inr s"
  by (cases s; hypsubst; code_simp)

lemma validate_family_Inr: "validate_family s = Inr f \<longleftrightarrow> s = family_value f"
proof
  assume "validate_family s = Inr f"
  then show "s = family_value f"
    by (auto simp: validate_family_def result_simps dest: member_of_value_Inr)
qed simp

lemma slot_of_Inr: "slot_of s = Inr sl \<longleftrightarrow> s = slot_value sl"
  using slot_of_value by (auto simp: slot_of_def dest: member_of_value_Inr)

lemma scope_of_Inr: "scope_of s = Inr sc \<longleftrightarrow> s = scope_value sc"
  using scope_of_value by (auto simp: scope_of_def dest: member_of_value_Inr)

lemma scope_value_dotless [simp]: "CHR ''.'' \<notin> set (scope_value sc)"
  by (cases sc; hypsubst; code_simp)

lemma slot_value_dotless [simp]: "CHR ''.'' \<notin> set (slot_value sl)"
  by (cases sl; hypsubst; code_simp)

lemma family_value_dotless [simp]: "CHR ''.'' \<notin> set (family_value f)"
  by (cases f; hypsubst; code_simp)

lemma family_value_no_marker [simp]:
  "family_value f \<noteq> ''slot'' \<and> family_value f \<noteq> ''active'' \<and> family_value f \<noteq> ''unselected''"
  by (cases f; hypsubst; code_simp)

lemma validate_literals [simp]:
  "validate_family ''freq_mode'' = Inr FREQ_MODE \<and> validate_family ''display'' = Inr DISPLAY \<and>
   slot_of ''A'' = Inr SLOT_A \<and> slot_of ''B'' = Inr SLOT_B \<and>
   scope_of ''connection'' = Inr CONNECTION \<and> scope_of ''health'' = Inr HEALTH"
  by code_simp

lemma split_dots_neq_Nil [simp]: "split_dots s \<noteq> []"
  by (cases s) (auto split: list.splits)

lemma split_dots_dotless: "CHR ''.'' \<notin> set p \<Longrightarrow> split_dots p = [p]"
  by (induction p) auto

lemma split_dots_append:
  "CHR ''.'' \<notin> set p \<Longrightarrow> split_dots (p @ CHR ''.'' # s) = p # split_dots s"
  by (induction p) auto

lemma split_join_dots:
  "ps \<noteq> [] \<Longrightarrow> (\<forall>p\<in>set ps. CHR ''.'' \<notin> set p) \<Longrightarrow> split_dots (join_dots ps) = ps"
  by (induction ps rule: join_dots.induct)
     (auto simp: split_dots_dotless split_dots_append)

lemma join_split_dots: "join_dots (split_dots s) = s"
proof (induction s)
  case Nil
  then show ?case by simp
next
  case (Cons c cs)
  obtain p ps where ps: "split_dots cs = p # ps"
    by (cases "split_dots cs") auto
  with Cons show ?case by (cases ps) auto
qed

section \<open>Paths\<close>

lemma mk_field_path_value:
  "mk_field_path scope family name receiver slot = Inr p \<Longrightarrow>
     p = \<lparr>fp_scope = scope, fp_family = family, fp_name = name,
          fp_receiver_id = receiver, fp_slot = slot\<rparr>"
  unfolding mk_field_path_def bind_result_Inr_iff validate_token_Inr validate_optional_token_Inr
  by (elim exE conjE) (simp split: if_splits)

lemma mk_field_path_Inr:
  "mk_field_path scope family name receiver slot = Inr p \<longleftrightarrow>
     p = \<lparr>fp_scope = scope, fp_family = family, fp_name = name,
          fp_receiver_id = receiver, fp_slot = slot\<rparr> \<and> path_ok p"
  using mk_field_path_value [of scope family name receiver slot p]
  by (auto simp: path_ok_def)

lemma path_ok_tokens:
  assumes "path_ok p"
  shows "CHR ''.'' \<notin> set (fp_name p)"
    and "fp_receiver_id p = Some r \<Longrightarrow> CHR ''.'' \<notin> set r"
  using assms token_dotless
  by (fastforce simp: path_ok_def mk_field_path_def bind_result_Inr_iff
      validate_optional_token_Inr)+

lemma path_ok_shape:
  assumes "path_ok p"
  shows "fp_scope p = RECEIVER \<Longrightarrow> fp_receiver_id p \<noteq> None"
    and "fp_scope p \<in> {GLOBAL, CONNECTION, HEALTH} \<Longrightarrow>
           fp_receiver_id p = None \<and> fp_slot p = None"
    and "fp_scope p = SCOPE_CONTROLS \<Longrightarrow> fp_slot p = None \<and> fp_family p = DISPLAY"
    and "fp_slot p \<noteq> None \<Longrightarrow> fp_scope p = RECEIVER \<and> fp_family p = FREQ_MODE"
proof -
  obtain name r where
    "(if fp_scope p = RECEIVER \<and> r = None then Inl ValueError
      else if fp_scope p \<in> {GLOBAL, CONNECTION, HEALTH} \<and> (r \<noteq> None \<or> fp_slot p \<noteq> None)
        then Inl ValueError
      else if fp_scope p = SCOPE_CONTROLS \<and> fp_slot p \<noteq> None then Inl ValueError
      else if fp_scope p = SCOPE_CONTROLS \<and> fp_family p \<noteq> DISPLAY then Inl ValueError
      else if fp_slot p \<in> {Some SLOT_ACTIVE, Some SLOT_UNSELECTED} \<and> fp_scope p \<noteq> RECEIVER
        then Inl ValueError
      else if fp_slot p \<noteq> None \<and> fp_family p \<noteq> FREQ_MODE then Inl ValueError
      else Inr \<lparr>fp_scope = fp_scope p, fp_family = fp_family p, fp_name = name,
                fp_receiver_id = r, fp_slot = fp_slot p\<rparr>) = Inr p"
    and r: "r = fp_receiver_id p"
    using assms unfolding path_ok_def mk_field_path_def bind_result_Inr_iff
      validate_optional_token_Inr by blast
  note shape = this(1) [unfolded r]
  show "fp_scope p = RECEIVER \<Longrightarrow> fp_receiver_id p \<noteq> None"
    and "fp_scope p \<in> {GLOBAL, CONNECTION, HEALTH} \<Longrightarrow>
           fp_receiver_id p = None \<and> fp_slot p = None"
    and "fp_scope p = SCOPE_CONTROLS \<Longrightarrow> fp_slot p = None \<and> fp_family p = DISPLAY"
    using shape by (auto split: if_splits)
  then show "fp_slot p \<noteq> None \<Longrightarrow> fp_scope p = RECEIVER \<and> fp_family p = FREQ_MODE"
    using shape by (cases "fp_scope p") (auto split: if_splits)
qed

lemmas builder_defs = receiver_path_def vfo_slot_path_def active_path_def unselected_path_def
  global_path_def scope_control_path_def

lemma path_ok_mk:
  "path_ok \<lparr>fp_scope = sc, fp_family = f, fp_name = n, fp_receiver_id = r, fp_slot = sl\<rparr> \<Longrightarrow>
   mk_field_path sc f n r sl =
     Inr \<lparr>fp_scope = sc, fp_family = f, fp_name = n, fp_receiver_id = r, fp_slot = sl\<rparr>"
  by (simp add: path_ok_def)

lemma parse_path_str: "path_ok p \<Longrightarrow> parse_path (path_str p) = Inr p"
proof -
  assume ok: "path_ok p"
  obtain sc f n r sl where p: "p = \<lparr>fp_scope = sc, fp_family = f, fp_name = n,
      fp_receiver_id = r, fp_slot = sl\<rparr>"
    by (cases p) auto
  note made = path_ok_mk [OF ok [unfolded p]]
  note dotless = path_ok_tokens [OF ok, unfolded p, simplified]
  note shape = path_ok_shape [OF ok, unfolded p, simplified]
  note parse = parse_path_def path_str_def p builder_defs Let_def
    split_dots_append split_dots_dotless
  show ?thesis
  proof (cases "sc = RECEIVER")
    case True
    with shape obtain rx where rx: "r = Some rx" by auto
    show ?thesis
    proof (cases sl)
      case None
      then show ?thesis
        using True rx dotless made by (simp add: parse parse_receiver_def)
    next
      case (Some sl')
      with shape have "f = FREQ_MODE" by simp
      then show ?thesis
        using True rx dotless made Some
        by (cases sl') (simp_all add: parse parse_receiver_def)
    qed
  next
    case False
    with shape(2,3) have "sl = None" by (cases sc) auto
    with False shape show ?thesis
      using dotless made
      by (cases sc; cases r)
         (auto simp: parse parse_scope_controls_def)
  qed
qed

text \<open>The builders, read backwards: what they accept and the path they make.\<close>

lemma builder_Inr [result_simps]:
  "receiver_path r f n = Inr p \<longleftrightarrow>
     (\<exists>fam. f = family_value fam \<and> mk_field_path RECEIVER fam n (Some r) None = Inr p)"
  "active_path r f n = Inr p \<longleftrightarrow>
     (\<exists>fam. f = family_value fam \<and> mk_field_path RECEIVER fam n (Some r) (Some SLOT_ACTIVE) = Inr p)"
  "unselected_path r f n = Inr p \<longleftrightarrow>
     (\<exists>fam. f = family_value fam \<and>
        mk_field_path RECEIVER fam n (Some r) (Some SLOT_UNSELECTED) = Inr p)"
  "global_path f n = Inr p \<longleftrightarrow>
     (\<exists>fam. f = family_value fam \<and> mk_field_path GLOBAL fam n None None = Inr p)"
  "scope_control_path f n rx = Inr p \<longleftrightarrow>
     (\<exists>fam. f = family_value fam \<and> mk_field_path SCOPE_CONTROLS fam n rx None = Inr p)"
  by (simp_all add: builder_defs bind_result_Inr_iff validate_family_Inr)

lemma vfo_slot_path_Inr [result_simps]:
  "vfo_slot_path r s f n = Inr p \<longleftrightarrow>
     (\<exists>fam sl. f = family_value fam \<and> s = slot_value sl \<and> sl \<in> {SLOT_A, SLOT_B} \<and>
        mk_field_path RECEIVER fam n (Some r) (Some sl) = Inr p)"
proof -
  have "''A'' = slot_value x \<longleftrightarrow> x = SLOT_A" "''B'' = slot_value x \<longleftrightarrow> x = SLOT_B" for x
    by (cases x; simp)+
  then show ?thesis
    by (auto simp: builder_defs bind_result_Inr_iff validate_family_Inr slot_of_Inr)
qed

lemma split_dots_parts: "split_dots s = parts \<Longrightarrow> s = join_dots parts"
  using join_split_dots [of s] by simp

lemma length_parts:
  "length xs = 3 \<longleftrightarrow> (\<exists>a b c. xs = [a, b, c])"
  "length xs = 4 \<longleftrightarrow> (\<exists>a b c d. xs = [a, b, c, d])"
  "length xs = 5 \<longleftrightarrow> (\<exists>a b c d e. xs = [a, b, c, d, e])"
  "length xs = 6 \<longleftrightarrow> (\<exists>a b c d e f. xs = [a, b, c, d, e, f])"
  by (auto simp: length_Suc_conv eval_nat_numeral)

lemma parse_receiver_str:
  assumes "parse_receiver parts = Inr p" and "parts ! 0 = scope_value RECEIVER"
  shows "path_ok p \<and> path_str p = join_dots parts"
  using assms
  by (auto simp: parse_receiver_def Let_def result_simps mk_field_path_Inr path_str_def
      length_parts split: if_splits)

lemma parse_scope_controls_str:
  assumes "parse_scope_controls parts = Inr p" and "parts ! 0 = scope_value SCOPE_CONTROLS"
  shows "path_ok p \<and> path_str p = join_dots parts"
  using assms
  by (auto simp: parse_scope_controls_def result_simps mk_field_path_Inr path_str_def
      length_parts split: if_splits)

lemma parse_path_sound:
  assumes "parse_path s = Inr p"
  shows "path_ok p \<and> path_str p = s"
proof -
  obtain parts where parts: "split_dots s = parts" by simp
  note parsed = assms [unfolded parse_path_def parts Let_def]
  have "path_ok p \<and> path_str p = join_dots parts"
  proof (cases "parts ! 0 = scope_value RECEIVER \<or> parts ! 0 = scope_value SCOPE_CONTROLS")
    case True
    then show ?thesis
      using parsed parse_receiver_str [of parts p] parse_scope_controls_str [of parts p]
      by (auto split: if_splits)
  next
    case False
    then show ?thesis
      using parsed
      by (auto simp: result_simps mk_field_path_Inr path_str_def length_parts validate_family_Inr
          split: if_splits)
  qed
  then show ?thesis by (simp add: split_dots_parts [OF parts])
qed

lemma path_str_inject: "path_ok p \<Longrightarrow> path_ok q \<Longrightarrow> path_str p = path_str q \<longleftrightarrow> p = q"
  by (metis parse_path_str sum.inject(2))

lemma ambiguity_key_inject:
  "ambiguity_key p = ambiguity_key q \<and> fp_family p = fp_family q \<longleftrightarrow> p = q"
  by (cases p; cases q) (auto simp: ambiguity_key_def)

lemma family_value_inject [simp]: "family_value f = family_value g \<longleftrightarrow> f = g"
  by (metis family_of_value sum.inject(2))

lemma path_dict_lookup [simp]:
  "path_to_dict p ''path'' = Some (Some (path_str p))"
  "path_to_dict p ''scope'' = Some (Some (scope_value (fp_scope p)))"
  "path_to_dict p ''receiverId'' = Some (fp_receiver_id p)"
  "path_to_dict p ''slot'' = Some (map_option slot_value (fp_slot p))"
  "path_to_dict p ''family'' = Some (Some (family_value (fp_family p)))"
  "path_to_dict p ''name'' = Some (Some (fp_name p))"
  by (simp_all add: path_to_dict_def)

lemma path_from_parts:
  assumes "path_ok p"
  shows "path_from_dict ((path_to_dict p)(''path'' := None)) = Inr p"
  using assms
  by (cases "fp_slot p") (simp_all add: path_from_dict_def path_ok_def str_of_def)

section \<open>The registry\<close>

definition spec_key :: "field_spec \<Rightarrow> path_key" where
  "spec_key spec = ambiguity_key (fs_path spec)"

lemma check_fields_iff:
  assumes "list_all (\<lambda>s. path_ok (fs_path s)) (vs @ specs)" and "distinct (map spec_key vs)"
  shows "check_fields (map (\<lambda>s. path_str (fs_path s)) vs)
           (map_of (map (\<lambda>s. (spec_key s, family_value (fp_family (fs_path s)))) vs)) specs = Inr ()
         \<longleftrightarrow> distinct (map spec_key (specs @ vs))"
  using assms
proof (induction specs arbitrary: vs)
  case Nil
  then show ?case by simp
next
  case (Cons spec specs)
  let ?keys = "map_of (map (\<lambda>s. (spec_key s, family_value (fp_family (fs_path s)))) vs)"
  have ok: "path_ok (fs_path spec)" "\<And>v. v \<in> set vs \<Longrightarrow> path_ok (fs_path v)"
    using Cons.prems(1) by (auto simp: list_all_iff)
  show ?case
  proof (cases "spec_key spec \<in> spec_key ` set vs")
    case True
    then obtain v where v: "v \<in> set vs" "spec_key v = spec_key spec" by auto
    have keys: "?keys (spec_key spec) = Some (family_value (fp_family (fs_path v)))"
      using Cons.prems(2)
    proof (intro map_of_is_SomeI)
      show "(spec_key spec, family_value (fp_family (fs_path v))) \<in>
          set (map (\<lambda>s. (spec_key s, family_value (fp_family (fs_path s)))) vs)"
        unfolding set_map by (rule image_eqI [OF _ v(1)]) (simp add: v(2))
    qed (simp add: o_def)
    have "path_str (fs_path spec) \<in> (\<lambda>s. path_str (fs_path s)) ` set vs"
      if "fp_family (fs_path v) = fp_family (fs_path spec)"
      using that v ambiguity_key_inject [of "fs_path v" "fs_path spec"]
      by (metis imageI spec_key_def)
    then show ?thesis
      using True keys by (auto simp: Let_def spec_key_def)
  next
    case False
    then have keys: "?keys (spec_key spec) = None"
      by (force simp: map_of_eq_None_iff)
    have new: "path_str (fs_path spec) \<notin> (\<lambda>s. path_str (fs_path s)) ` set vs"
      using False ok by (auto simp: path_str_inject spec_key_def)
    have "check_fields (map (\<lambda>s. path_str (fs_path s)) (spec # vs))
           (map_of (map (\<lambda>s. (spec_key s, family_value (fp_family (fs_path s)))) (spec # vs)))
           specs = Inr () \<longleftrightarrow> distinct (map spec_key (specs @ spec # vs))"
      using Cons.prems False by (intro Cons.IH) auto
    then show ?thesis
      using keys new False by (auto simp: Let_def spec_key_def [symmetric])
  qed
qed

lemma find_spec_hit:
  "spec \<in> set reg \<Longrightarrow> distinct (map spec_key reg) \<Longrightarrow> find_spec (fs_path spec) reg = Inr spec"
  by (induction reg) (auto simp: spec_key_def)

lemma find_spec_miss: "p \<notin> fs_path ` set reg \<Longrightarrow> find_spec p reg = Inl KeyError"
  by (induction reg) auto

lemma mk_registry_iff:
  assumes "list_all (\<lambda>s. path_ok (fs_path s)) specs"
  shows "mk_registry specs = Inr reg \<longleftrightarrow> reg = specs \<and> distinct (map spec_key specs)"
  using check_fields_iff [of "[]" specs] assms
  by (auto simp: mk_registry_def result_simps)

section \<open>Properties\<close>

text \<open>
  C36. The dotted form is a bijection: \<open>parse\<close> accepts exactly the strings the accepted paths
  print to, returns the path that was printed, and raises \<open>ValueError\<close> on every other
  string; so no two spellings denote one path.
\<close>

theorem parse_path_bijection:
  "parse_path s = Inr p \<longleftrightarrow> path_ok p \<and> path_str p = s"
  using parse_path_sound parse_path_str by blast

text \<open>
  The serialized form of a path reads back as that path, from its \<open>path\<close> entry and, when
  that entry is missing, from the separate entries.
\<close>

theorem path_dict_roundtrip:
  assumes "path_ok p"
  shows "path_from_dict (path_to_dict p) = Inr p \<and>
         path_from_dict ((path_to_dict p)(''path'' := None)) = Inr p"
  using path_from_parts [OF assms] parse_path_str [OF assms] by (simp add: path_from_dict_def)

text \<open>
  \<open>receiver_alias\<close> never raises on an accepted path, and the other spelling it returns
  is an accepted path whose own alias is the original: the alias table is an involution on
  paths that changes nothing but the receiver.
\<close>

theorem receiver_alias_involution:
  assumes "path_ok p"
  shows "receiver_alias p = Inr None \<or>
    (\<exists>q. receiver_alias p = Inr (Some q) \<and> path_ok q \<and> q \<noteq> p \<and>
         receiver_alias q = Inr (Some p) \<and> acquisition_class_for_path q = acquisition_class_for_path p)"
proof (cases "Option.bind (fp_receiver_id p) receiver_id_aliases")
  case None
  then show ?thesis by (simp add: receiver_alias_def)
next
  case (Some other)
  then obtain r where r: "fp_receiver_id p = Some r" "receiver_id_aliases r = Some other"
    by (cases "fp_receiver_id p") auto
  define q where "q = p\<lparr>fp_receiver_id := Some other\<rparr>"
  have swapped: "receiver_id_aliases other = Some r" "other \<noteq> r" "validate_token other = Inr other"
    using r(2) by (auto simp: receiver_id_aliases_def validate_token_def token_alphabet_def
        split: if_splits)
  have q: "mk_field_path (fp_scope p) (fp_family p) (fp_name p) (Some other) (fp_slot p) = Inr q"
    using assms r(1) swapped(3)
    by (cases p) (auto simp: path_ok_def mk_field_path_def q_def result_simps split: if_splits)
  then have "path_ok q" unfolding mk_field_path_Inr by blast
  moreover have "receiver_alias q = Inr (Some p)"
    using assms r swapped by (cases p) (simp add: receiver_alias_def q_def path_ok_def)
  ultimately show ?thesis
    using q r swapped
    by (cases p) (auto simp: receiver_alias_def q_def acquisition_class_for_path_def)
qed

text \<open>
  The registry accepts exactly the field lists in which no two paths agree on scope,
  receiver, slot and name; every field of an accepted registry is then found under its path
  and under its dotted spelling, and every other path raises \<open>KeyError\<close>.
\<close>

theorem registry_lookup_exact:
  assumes "list_all (\<lambda>s. path_ok (fs_path s)) specs" and "mk_registry specs = Inr reg"
  shows "distinct (map spec_key specs) \<and> registry_paths reg = map fs_path specs \<and>
    (spec \<in> set specs \<longrightarrow>
      require_path reg (fs_path spec) = Inr spec \<and>
      require_text reg (path_str (fs_path spec)) = Inr spec) \<and>
    (p \<notin> fs_path ` set specs \<longrightarrow> require_path reg p = Inl KeyError)"
  using assms mk_registry_iff [OF assms(1), of reg] find_spec_miss [of p reg]
  by (auto simp: registry_paths_def require_path_def require_text_def find_spec_hit
      parse_path_str list_all_iff)

text \<open>
  The fields whose absence must refuse startup are never polled in a class slower than
  CONTROL, for any slot and receiver: PTT is KEYING, the tuning pair is LIVE on the active
  slot and CONTROL elsewhere, split and the transmit target are CONTROL.
\<close>

theorem startup_critical_is_polled:
  assumes "startup_critical_path p"
  shows "acquisition_class_for_path p \<in> {KEYING, LIVE, CONTROL} \<and>
    (acquisition_class_for_path p = KEYING \<longleftrightarrow> fp_name p = ''ptt'') \<and>
    (acquisition_class_for_path p = LIVE \<longleftrightarrow>
       fp_family p = FREQ_MODE \<and> fp_slot p = Some SLOT_ACTIVE)"
  using assms
  by (auto simp: startup_critical_path_def acquisition_class_for_path_def
      live_tuning_field_names_def control_field_names_def split: if_splits)

section \<open>Witnesses\<close>

definition demo_path :: field_path where
  "demo_path = \<lparr>fp_scope = RECEIVER, fp_family = FREQ_MODE, fp_name = ''freq_hz'',
     fp_receiver_id = Some ''main'', fp_slot = Some SLOT_ACTIVE\<rparr>"

lemma demo_path_ok: "path_ok demo_path"
  by code_simp

lemma demo_path_parsed: "parse_path ''receiver.main.active.freq_mode.freq_hz'' = Inr demo_path"
  by code_simp

theorem path_dict_roundtrip_witness:
  "path_from_dict (path_to_dict demo_path) = Inr demo_path"
  using path_dict_roundtrip [OF demo_path_ok] by simp

theorem receiver_alias_involution_witness:
  "\<exists>q. receiver_alias demo_path = Inr (Some q) \<and> fp_receiver_id q = Some ''0'' \<and>
       receiver_alias q = Inr (Some demo_path)"
proof -
  have other: "receiver_alias demo_path = Inr (Some (demo_path\<lparr>fp_receiver_id := Some ''0''\<rparr>))"
    by code_simp
  then show ?thesis
    using receiver_alias_involution [OF demo_path_ok] by auto
qed

definition demo_specs :: "field_spec list" where
  "demo_specs = [object_spec demo_path, object_spec (demo_path\<lparr>fp_slot := Some SLOT_A\<rparr>)]"

theorem registry_lookup_exact_witness:
  "require_text demo_specs ''receiver.main.active.freq_mode.freq_hz'' = Inr (object_spec demo_path) \<and>
   require_path demo_specs (demo_path\<lparr>fp_slot := None\<rparr>) = Inl KeyError"
proof -
  have "list_all (\<lambda>s. path_ok (fs_path s)) demo_specs" "mk_registry demo_specs = Inr demo_specs"
    by code_simp+
  note exact = registry_lookup_exact [OF this]
  have "path_str demo_path = ''receiver.main.active.freq_mode.freq_hz''" by code_simp
  then show ?thesis
    using exact [of "object_spec demo_path" "demo_path\<lparr>fp_slot := None\<rparr>"]
    by (simp add: demo_specs_def object_spec_def demo_path_def)
qed

theorem startup_critical_is_polled_witness:
  "acquisition_class_for_path demo_path \<in> {KEYING, LIVE, CONTROL}"
proof -
  have "startup_critical_path demo_path" by code_simp
  then show ?thesis by (rule startup_critical_is_polled [THEN conjunct1])
qed

end
