(* ===== verification/Commands.thy ===== *)
theory Commands
  imports FieldPaths
begin

text \<open>
  The typed commands of \<open>runtime/_poller_types.py\<close>: one constructor per frozen dataclass, with
  the fields in the order of the source, and the generic \<open>CommandIntent\<close> of
  \<open>core/state_pipeline_contracts.py\<close>. The union \<open>Command\<close> is \<open>command\<close>; its dataclasses
  are grouped in five datatypes in source order. \<open>type(cmd)\<close> is the name of the class.
  The payloads typed \<open>Any\<close> carry the record the source names beside them
  (\<open>MemoryChannel\<close>, \<open>BandStackRegister\<close> of \<open>core/types.py\<close>).
\<close>

section \<open>Payloads\<close>

record memory_channel =
  mc_channel :: int
  mc_frequency_hz :: int
  mc_mode :: int
  mc_filter :: int
  mc_scan :: int
  mc_datamode :: int
  mc_tonemode :: int
  mc_tone_freq_hz :: "int option"
  mc_tsql_freq_hz :: "int option"
  mc_name :: string
  mc_group :: "int option"
  mc_duplex :: int
  mc_tone_centihz :: "int option"
  mc_tsql_centihz :: "int option"

record band_stack_register =
  bsr_band :: int
  bsr_register :: int
  bsr_frequency_hz :: int
  bsr_mode :: int
  bsr_filter :: int

section \<open>Command intents\<close>

datatype py_value = PyNone | PyBool bool | PyInt int | PyFloat pyfloat | PyStr string

definition command_sources :: "string list" where
  "command_sources = [''websocket'', ''http'', ''rigctld'', ''tci'', ''public_api'',
     ''internal_policy'', ''diagnostics'', ''test'']"

definition command_priorities :: "string list" where
  "command_priorities = [''user'', ''normal'', ''background'']"

definition pending_policies :: "string list" where
  "pending_policies = [''none'', ''scoped'', ''global'']"

definition validate_source :: "string \<Rightarrow> string list \<Rightarrow> string result" where
  "validate_source value allowed = (if value \<notin> set allowed then Inl ValueError else Inr value)"

record command_intent =
  ci_id :: string
  ci_name :: string
  ci_params :: "(string \<times> py_value) list"
  ci_source :: string
  ci_target :: "field_path option"
  ci_priority :: string
  ci_timeout :: "time option"
  ci_pending_policy :: string
  ci_expected_observations :: "field_path list"

text \<open>The constructor: \<open>__post_init__\<close> only checks (the copied \<open>params\<close> are equal).\<close>

definition mk_command_intent :: "command_intent \<Rightarrow> command_intent result" where
  "mk_command_intent intent =
     bind_result (validate_token (ci_name intent)) (\<lambda>_.
     bind_result (validate_source (ci_source intent) command_sources) (\<lambda>_.
     bind_result (validate_source (ci_priority intent) command_priorities) (\<lambda>_.
     bind_result (validate_source (ci_pending_policy intent) pending_policies) (\<lambda>_.
       case ci_timeout intent of
         Some t \<Rightarrow> if t < 0 then Inl ValueError else Inr intent
       | None \<Rightarrow> Inr intent))))"

section \<open>Command dataclasses\<close>

datatype front_command =
    SetFreq int int
  | SetVfoFreq int int string string int
  | SetMode string "int option" int
  | SendCiv int "int option" "byte list"
  | SetFilter int int
  | SetFilterWidth int int
  | ResetFilterWidth int
  | SetFilterShape int int
  | SetPower int string
  | SetRfGain int int
  | SetAfLevel int int
  | SetSquelch int int
  | SetNB bool int
  | SetNR bool int
  | SetDigiSel bool int
  | SetIpPlus bool int
  | SetAttenuator int int
  | SetPreamp int int
  | SetPbtInner int int

datatype control_command =
    SetPbtOuter int int
  | SetIfShift int int
  | SetNRLevel int int
  | SetNBLevel int int
  | SetAutoNotch bool int
  | SetManualNotch bool int
  | SetNarrow bool int
  | SetNotchFilter int int
  | SetAgcTimeConstant int int
  | SetCwPitch int
  | SetKeySpeed int
  | SetBreakIn int
  | SetApf int int
  | SetTwinPeak bool int
  | SetDriveGain int
  | ScanStart int
  | ScanStop
  | ScanSetDfSpan int
  | ScanSetResume int
  | SetDataMode int int
  | SetMicGain int
  | SetVox bool
  | SetTunerStatus int
  | SetCompressorLevel int
  | SetMonitor bool
  | SetMonitorGain int
  | SetDialLock bool

datatype operating_command =
    SetAgc int int
  | SetRitStatus bool
  | SetRitTxStatus bool
  | SetRitFrequency int
  | SetSplit bool
  | PttOn
  | PttOff
  | SetBand int
  | SelectVfo string
  | VfoSwap
  | VfoEqualize
  | EnableScope string int
  | DisableScope int
  | SwitchScopeReceiver int
  | SetScopeDuringTx bool
  | SetScopeCenterType int
  | SetScopeFixedEdge int int int
  | SetScopeDual bool
  | SetScopeMode int
  | SetScopeSpan int
  | SetScopeSpeed int
  | SetScopeRef int
  | SetScopeHold bool
  | SetScopeEdge int
  | SetScopeVbw bool
  | SetScopeRbw int
  | SetPowerstat bool
  | SetAntenna1 bool

datatype system_command =
    SetAntenna2 bool
  | SetRxAntennaAnt1 bool
  | SetRxAntennaAnt2 bool
  | SetSystemDate int int int
  | SetSystemTime int int
  | SetAcc1ModLevel int
  | SetUsbModLevel int
  | SetLanModLevel int
  | SetDualWatch bool
  | SetCompressor bool
  | SetMainSubTracking bool
  | SetSsbTxBandwidth int
  | SetManualNotchWidth int int
  | SetBreakInDelay int
  | SetVoxGain int
  | SetAntiVoxGain int
  | SetVoxDelay int
  | SetNbDepth int int
  | SetNbWidth int int
  | SetDashRatio int
  | SetRepeaterTone bool int
  | SetRepeaterTsql bool int
  | SetRxAntenna int bool
  | SetMemoryMode int "int option"
  | MemoryWrite
  | MemoryToVfo int

datatype memory_command =
    MemoryClear int "int option"
  | SetMemoryContents memory_channel
  | SetBsr band_stack_register
  | SetDataOffModInput int
  | SetData1ModInput int
  | SetData2ModInput int
  | SetData3ModInput int
  | SetAudioPeakFilter bool int
  | SetRefAdjust int
  | SetCivTransceive bool
  | SetCivOutputAnt bool
  | SetAfMute bool int
  | SetDigiselShift int int
  | SetTuningStep int
  | SetXfcStatus bool
  | SetUtcOffset int int bool
  | QuickSplit
  | QuickDualWatch
  | SetQuickSplit bool
  | SetQuickDualWatch bool
  | QuickDwTrigger
  | QuickSplitTrigger
  | Speak int

datatype command =
    Intent command_intent
  | FrontCmd front_command
  | ControlCmd control_command
  | OperatingCmd operating_command
  | SystemCmd system_command
  | MemoryCmd memory_command

text \<open>\<open>SetVfoFreq.__post_init__\<close>; its \<open>type(...) is int\<close> checks hold by typing.\<close>

definition mk_set_vfo_freq :: "int \<Rightarrow> int \<Rightarrow> string \<Rightarrow> string \<Rightarrow> int \<Rightarrow> command result" where
  "mk_set_vfo_freq freq receiver slot expected_active_slot provider_generation =
     (if \<not> (0 \<le> freq \<and> freq \<le> 9999999999) \<or> provider_generation < 0 then Inl ValueError
      else if receiver \<noteq> 0 \<or> slot \<notin> {''A'', ''B''} then Inl ValueError
      else if expected_active_slot \<notin> {''A'', ''B''} then Inl ValueError
      else Inr (FrontCmd
        (SetVfoFreq freq receiver slot expected_active_slot provider_generation)))"

section \<open>Classes and legacy names\<close>

fun front_command_class :: "front_command \<Rightarrow> string" where
  "front_command_class (SetFreq _ _) = ''SetFreq''"
| "front_command_class (SetVfoFreq _ _ _ _ _) = ''SetVfoFreq''"
| "front_command_class (SetMode _ _ _) = ''SetMode''"
| "front_command_class (SendCiv _ _ _) = ''SendCiv''"
| "front_command_class (SetFilter _ _) = ''SetFilter''"
| "front_command_class (SetFilterWidth _ _) = ''SetFilterWidth''"
| "front_command_class (ResetFilterWidth _) = ''ResetFilterWidth''"
| "front_command_class (SetFilterShape _ _) = ''SetFilterShape''"
| "front_command_class (SetPower _ _) = ''SetPower''"
| "front_command_class (SetRfGain _ _) = ''SetRfGain''"
| "front_command_class (SetAfLevel _ _) = ''SetAfLevel''"
| "front_command_class (SetSquelch _ _) = ''SetSquelch''"
| "front_command_class (SetNB _ _) = ''SetNB''"
| "front_command_class (SetNR _ _) = ''SetNR''"
| "front_command_class (SetDigiSel _ _) = ''SetDigiSel''"
| "front_command_class (SetIpPlus _ _) = ''SetIpPlus''"
| "front_command_class (SetAttenuator _ _) = ''SetAttenuator''"
| "front_command_class (SetPreamp _ _) = ''SetPreamp''"
| "front_command_class (SetPbtInner _ _) = ''SetPbtInner''"

fun control_command_class :: "control_command \<Rightarrow> string" where
  "control_command_class (SetPbtOuter _ _) = ''SetPbtOuter''"
| "control_command_class (SetIfShift _ _) = ''SetIfShift''"
| "control_command_class (SetNRLevel _ _) = ''SetNRLevel''"
| "control_command_class (SetNBLevel _ _) = ''SetNBLevel''"
| "control_command_class (SetAutoNotch _ _) = ''SetAutoNotch''"
| "control_command_class (SetManualNotch _ _) = ''SetManualNotch''"
| "control_command_class (SetNarrow _ _) = ''SetNarrow''"
| "control_command_class (SetNotchFilter _ _) = ''SetNotchFilter''"
| "control_command_class (SetAgcTimeConstant _ _) = ''SetAgcTimeConstant''"
| "control_command_class (SetCwPitch _) = ''SetCwPitch''"
| "control_command_class (SetKeySpeed _) = ''SetKeySpeed''"
| "control_command_class (SetBreakIn _) = ''SetBreakIn''"
| "control_command_class (SetApf _ _) = ''SetApf''"
| "control_command_class (SetTwinPeak _ _) = ''SetTwinPeak''"
| "control_command_class (SetDriveGain _) = ''SetDriveGain''"
| "control_command_class (ScanStart _) = ''ScanStart''"
| "control_command_class ScanStop = ''ScanStop''"
| "control_command_class (ScanSetDfSpan _) = ''ScanSetDfSpan''"
| "control_command_class (ScanSetResume _) = ''ScanSetResume''"
| "control_command_class (SetDataMode _ _) = ''SetDataMode''"
| "control_command_class (SetMicGain _) = ''SetMicGain''"
| "control_command_class (SetVox _) = ''SetVox''"
| "control_command_class (SetTunerStatus _) = ''SetTunerStatus''"
| "control_command_class (SetCompressorLevel _) = ''SetCompressorLevel''"
| "control_command_class (SetMonitor _) = ''SetMonitor''"
| "control_command_class (SetMonitorGain _) = ''SetMonitorGain''"
| "control_command_class (SetDialLock _) = ''SetDialLock''"

fun operating_command_class :: "operating_command \<Rightarrow> string" where
  "operating_command_class (SetAgc _ _) = ''SetAgc''"
| "operating_command_class (SetRitStatus _) = ''SetRitStatus''"
| "operating_command_class (SetRitTxStatus _) = ''SetRitTxStatus''"
| "operating_command_class (SetRitFrequency _) = ''SetRitFrequency''"
| "operating_command_class (SetSplit _) = ''SetSplit''"
| "operating_command_class PttOn = ''PttOn''"
| "operating_command_class PttOff = ''PttOff''"
| "operating_command_class (SetBand _) = ''SetBand''"
| "operating_command_class (SelectVfo _) = ''SelectVfo''"
| "operating_command_class VfoSwap = ''VfoSwap''"
| "operating_command_class VfoEqualize = ''VfoEqualize''"
| "operating_command_class (EnableScope _ _) = ''EnableScope''"
| "operating_command_class (DisableScope _) = ''DisableScope''"
| "operating_command_class (SwitchScopeReceiver _) = ''SwitchScopeReceiver''"
| "operating_command_class (SetScopeDuringTx _) = ''SetScopeDuringTx''"
| "operating_command_class (SetScopeCenterType _) = ''SetScopeCenterType''"
| "operating_command_class (SetScopeFixedEdge _ _ _) = ''SetScopeFixedEdge''"
| "operating_command_class (SetScopeDual _) = ''SetScopeDual''"
| "operating_command_class (SetScopeMode _) = ''SetScopeMode''"
| "operating_command_class (SetScopeSpan _) = ''SetScopeSpan''"
| "operating_command_class (SetScopeSpeed _) = ''SetScopeSpeed''"
| "operating_command_class (SetScopeRef _) = ''SetScopeRef''"
| "operating_command_class (SetScopeHold _) = ''SetScopeHold''"
| "operating_command_class (SetScopeEdge _) = ''SetScopeEdge''"
| "operating_command_class (SetScopeVbw _) = ''SetScopeVbw''"
| "operating_command_class (SetScopeRbw _) = ''SetScopeRbw''"
| "operating_command_class (SetPowerstat _) = ''SetPowerstat''"
| "operating_command_class (SetAntenna1 _) = ''SetAntenna1''"

fun system_command_class :: "system_command \<Rightarrow> string" where
  "system_command_class (SetAntenna2 _) = ''SetAntenna2''"
| "system_command_class (SetRxAntennaAnt1 _) = ''SetRxAntennaAnt1''"
| "system_command_class (SetRxAntennaAnt2 _) = ''SetRxAntennaAnt2''"
| "system_command_class (SetSystemDate _ _ _) = ''SetSystemDate''"
| "system_command_class (SetSystemTime _ _) = ''SetSystemTime''"
| "system_command_class (SetAcc1ModLevel _) = ''SetAcc1ModLevel''"
| "system_command_class (SetUsbModLevel _) = ''SetUsbModLevel''"
| "system_command_class (SetLanModLevel _) = ''SetLanModLevel''"
| "system_command_class (SetDualWatch _) = ''SetDualWatch''"
| "system_command_class (SetCompressor _) = ''SetCompressor''"
| "system_command_class (SetMainSubTracking _) = ''SetMainSubTracking''"
| "system_command_class (SetSsbTxBandwidth _) = ''SetSsbTxBandwidth''"
| "system_command_class (SetManualNotchWidth _ _) = ''SetManualNotchWidth''"
| "system_command_class (SetBreakInDelay _) = ''SetBreakInDelay''"
| "system_command_class (SetVoxGain _) = ''SetVoxGain''"
| "system_command_class (SetAntiVoxGain _) = ''SetAntiVoxGain''"
| "system_command_class (SetVoxDelay _) = ''SetVoxDelay''"
| "system_command_class (SetNbDepth _ _) = ''SetNbDepth''"
| "system_command_class (SetNbWidth _ _) = ''SetNbWidth''"
| "system_command_class (SetDashRatio _) = ''SetDashRatio''"
| "system_command_class (SetRepeaterTone _ _) = ''SetRepeaterTone''"
| "system_command_class (SetRepeaterTsql _ _) = ''SetRepeaterTsql''"
| "system_command_class (SetRxAntenna _ _) = ''SetRxAntenna''"
| "system_command_class (SetMemoryMode _ _) = ''SetMemoryMode''"
| "system_command_class MemoryWrite = ''MemoryWrite''"
| "system_command_class (MemoryToVfo _) = ''MemoryToVfo''"

fun memory_command_class :: "memory_command \<Rightarrow> string" where
  "memory_command_class (MemoryClear _ _) = ''MemoryClear''"
| "memory_command_class (SetMemoryContents _) = ''SetMemoryContents''"
| "memory_command_class (SetBsr _) = ''SetBsr''"
| "memory_command_class (SetDataOffModInput _) = ''SetDataOffModInput''"
| "memory_command_class (SetData1ModInput _) = ''SetData1ModInput''"
| "memory_command_class (SetData2ModInput _) = ''SetData2ModInput''"
| "memory_command_class (SetData3ModInput _) = ''SetData3ModInput''"
| "memory_command_class (SetAudioPeakFilter _ _) = ''SetAudioPeakFilter''"
| "memory_command_class (SetRefAdjust _) = ''SetRefAdjust''"
| "memory_command_class (SetCivTransceive _) = ''SetCivTransceive''"
| "memory_command_class (SetCivOutputAnt _) = ''SetCivOutputAnt''"
| "memory_command_class (SetAfMute _ _) = ''SetAfMute''"
| "memory_command_class (SetDigiselShift _ _) = ''SetDigiselShift''"
| "memory_command_class (SetTuningStep _) = ''SetTuningStep''"
| "memory_command_class (SetXfcStatus _) = ''SetXfcStatus''"
| "memory_command_class (SetUtcOffset _ _ _) = ''SetUtcOffset''"
| "memory_command_class QuickSplit = ''QuickSplit''"
| "memory_command_class QuickDualWatch = ''QuickDualWatch''"
| "memory_command_class (SetQuickSplit _) = ''SetQuickSplit''"
| "memory_command_class (SetQuickDualWatch _) = ''SetQuickDualWatch''"
| "memory_command_class QuickDwTrigger = ''QuickDwTrigger''"
| "memory_command_class QuickSplitTrigger = ''QuickSplitTrigger''"
| "memory_command_class (Speak _) = ''Speak''"

fun command_class :: "command \<Rightarrow> string" where
  "command_class (Intent _) = ''CommandIntent''"
| "command_class (FrontCmd c) = front_command_class c"
| "command_class (ControlCmd c) = control_command_class c"
| "command_class (OperatingCmd c) = operating_command_class c"
| "command_class (SystemCmd c) = system_command_class c"
| "command_class (MemoryCmd c) = memory_command_class c"

text \<open>The canonical command name each legacy dataclass is the enqueued form of.\<close>

definition legacy_command_names :: "string \<rightharpoonup> string" where
  "legacy_command_names = map_of
     [(''SetFreq'', ''set_freq''),
      (''SetVfoFreq'', ''set_vfo_freq''),
      (''SetMode'', ''set_mode''),
      (''SetFilter'', ''set_filter''),
      (''SetFilterWidth'', ''set_filter_width''),
      (''ResetFilterWidth'', ''reset_filter_width''),
      (''SetFilterShape'', ''set_filter_shape''),
      (''SetDataMode'', ''set_data_mode''),
      (''SetAttenuator'', ''set_att''),
      (''SetPreamp'', ''set_preamp''),
      (''SetNB'', ''set_nb''),
      (''SetNR'', ''set_nr''),
      (''SetNBLevel'', ''set_nb_level''),
      (''SetNRLevel'', ''set_nr_level''),
      (''SetAutoNotch'', ''set_auto_notch''),
      (''SetManualNotch'', ''set_manual_notch''),
      (''SetNarrow'', ''set_narrow''),
      (''SetManualNotchWidth'', ''set_manual_notch_width''),
      (''SetNotchFilter'', ''set_notch_filter''),
      (''SetTwinPeak'', ''set_twin_peak''),
      (''SetAgcTimeConstant'', ''set_agc_time_constant''),
      (''SetDigiSel'', ''set_digisel''),
      (''SetIpPlus'', ''set_ip_plus''),
      (''SetPbtInner'', ''set_pbt_inner''),
      (''SetPbtOuter'', ''set_pbt_outer''),
      (''SetRitFrequency'', ''set_rit_frequency''),
      (''SetRitStatus'', ''set_rit_status''),
      (''SetRitTxStatus'', ''set_rit_tx_status''),
      (''SetBreakInDelay'', ''set_break_in_delay''),
      (''SetPower'', ''set_rf_power''),
      (''SetPowerstat'', ''set_powerstat''),
      (''SetSplit'', ''set_split''),
      (''SetAgc'', ''set_agc''),
      (''SetTunerStatus'', ''set_tuner_status''),
      (''SetMicGain'', ''set_mic_gain''),
      (''SetCompressor'', ''set_compressor''),
      (''SetCompressorLevel'', ''set_compressor_level''),
      (''SetMonitor'', ''set_monitor''),
      (''SetMonitorGain'', ''set_monitor_gain''),
      (''SetVox'', ''set_vox''),
      (''SetVoxGain'', ''set_vox_gain''),
      (''SetAntiVoxGain'', ''set_anti_vox_gain''),
      (''SetVoxDelay'', ''set_vox_delay''),
      (''SetCwPitch'', ''set_cw_pitch''),
      (''SetKeySpeed'', ''set_key_speed''),
      (''SetBreakIn'', ''set_break_in''),
      (''SetScopeDuringTx'', ''set_scope_during_tx''),
      (''SetScopeCenterType'', ''set_scope_center_type''),
      (''SetScopeEdge'', ''set_scope_edge''),
      (''SetScopeVbw'', ''set_scope_vbw''),
      (''SetScopeDual'', ''set_scope_dual''),
      (''SetScopeMode'', ''set_scope_mode''),
      (''SetScopeSpan'', ''set_scope_span''),
      (''SetScopeSpeed'', ''set_scope_speed''),
      (''SetScopeRef'', ''set_scope_ref''),
      (''SetScopeHold'', ''set_scope_hold'')]"

definition legacy_name :: "command \<Rightarrow> string option" where
  "legacy_name cmd = legacy_command_names (command_class cmd)"

end
