(* ===== verification/TxObservation.thy ===== *)
theory TxObservation
  imports Commands
begin

text \<open>
  What the state pipeline observed of the transmitter: the snapshot records of
  \<open>core/state_store.py\<close> that the policies read, and \<open>core/tx_observation.py\<close>.

  A field's value and the timing and generation entries the code tests with \<open>type\<close> and
  \<open>isinstance\<close> are Python values (\<open>py_value\<close>), so a test is a branch of the model and not an
  assumption of it.
\<close>

section \<open>Snapshots\<close>

datatype freshness_state = Fresh_UNKNOWN | Fresh_FRESH | Fresh_STALE

datatype observed_ptt = Ptt_OFF | Ptt_ON | Ptt_UNKNOWN

datatype field_value = PttValue observed_ptt | PlainValue py_value

record source_metadata =
  sm_source :: string
  sm_provider :: string
  sm_transport :: "string option"
  sm_native_id :: "string option"
  sm_capability_id :: "string option"
  sm_command_source :: "string option"
  sm_session_id :: "string option"

record field_snapshot =
  fsn_path :: field_path
  fsn_value :: field_value
  fsn_freshness :: freshness_state
  fsn_last_observed_monotonic :: py_value
  fsn_max_age :: py_value
  fsn_source :: source_metadata
  fsn_quality :: "string list"
  fsn_provider_generation :: py_value
  fsn_clock_domain :: "string option"

record state_snapshot =
  ss_state_revision :: int
  ss_freshness_revision :: int
  ss_observation_seq :: int
  ss_generated_at_monotonic :: py_value
  ss_fields :: "field_snapshot list"
  ss_provider_generation :: py_value

definition empty_snapshot :: state_snapshot where
  "empty_snapshot = \<lparr>ss_state_revision = 0, ss_freshness_revision = 0, ss_observation_seq = 0,
     ss_generated_at_monotonic = PyFloat (Finite 0), ss_fields = [],
     ss_provider_generation = PyInt 0\<rparr>"

text \<open>
  The lazily built index keeps the first field of a path, so the lookup is a search; the cached
  index is not part of the value.
\<close>

fun setdefault_index :: "field_snapshot list \<Rightarrow> field_path \<rightharpoonup> field_snapshot" where
  "setdefault_index [] = Map.empty"
| "setdefault_index (item # items) = (setdefault_index items)(fsn_path item \<mapsto> item)"

definition snapshot_field :: "state_snapshot \<Rightarrow> field_path \<Rightarrow> field_snapshot result" where
  "snapshot_field snapshot needle =
     (case setdefault_index (ss_fields snapshot) needle of
        None \<Rightarrow> Inl KeyError
      | Some found \<Rightarrow> Inr found)"

section \<open>Numbers\<close>

text \<open>
  \<open>isinstance(value, (int, float)) and not isinstance(value, bool) and isfinite(value)\<close>, and the
  number itself for the comparisons made after that test. An \<open>int\<close> beyond the float range, for
  which \<open>isfinite\<close> raises, is not modelled.
\<close>

fun finite_number :: "py_value \<Rightarrow> bool" where
  "finite_number (PyInt n) = True"
| "finite_number (PyFloat x) = isfinite x"
| "finite_number _ = False"

fun number :: "py_value \<Rightarrow> rat" where
  "number (PyInt n) = of_int n"
| "number (PyFloat (Finite x)) = x"
| "number _ = 0"

fun is_int :: "py_value \<Rightarrow> bool" where
  "is_int (PyInt _) = True"
| "is_int _ = False"

section \<open>Observed PTT\<close>

definition observed_ptt_path :: field_path where
  "observed_ptt_path = \<lparr>fp_scope = GLOBAL, fp_family = TX_STATE, fp_name = ''observed_ptt'',
     fp_receiver_id = None, fp_slot = None\<rparr>"

fun normalize_observed_ptt :: "field_value \<Rightarrow> observed_ptt" where
  "normalize_observed_ptt (PttValue v) = v"
| "normalize_observed_ptt (PlainValue v) =
     (if v = PyBool True then Ptt_ON else if v = PyBool False then Ptt_OFF else Ptt_UNKNOWN)"

fun is_observed_ptt :: "field_value \<Rightarrow> bool" where
  "is_observed_ptt (PttValue _) = True"
| "is_observed_ptt (PlainValue _) = False"

fun the_observed_ptt :: "field_value \<Rightarrow> observed_ptt" where
  "the_observed_ptt (PttValue v) = v"
| "the_observed_ptt (PlainValue _) = Ptt_UNKNOWN"

definition project_observed_ptt :: "state_snapshot \<Rightarrow> observed_ptt" where
  "project_observed_ptt snapshot =
     (case snapshot_field snapshot observed_ptt_path of
        Inl _ \<Rightarrow> Ptt_UNKNOWN
      | Inr field \<Rightarrow>
          (let timing = [ss_generated_at_monotonic snapshot,
                         fsn_last_observed_monotonic field, fsn_max_age field];
               generated_at = number (ss_generated_at_monotonic snapshot);
               last_observed = number (fsn_last_observed_monotonic field);
               max_age = number (fsn_max_age field) in
           if fsn_freshness field \<noteq> Fresh_FRESH
              \<or> \<not> is_observed_ptt (fsn_value field)
              \<or> \<not> is_int (fsn_provider_generation field)
              \<or> \<not> is_int (ss_provider_generation snapshot)
              \<or> fsn_provider_generation field \<noteq> ss_provider_generation snapshot
              \<or> list_ex (\<lambda>v. \<not> finite_number v) timing
              \<or> fsn_max_age field = PyNone
              \<or> max_age \<le> 0
              \<or> last_observed < 0
              \<or> generated_at < last_observed
              \<or> generated_at - last_observed \<ge> max_age
           then Ptt_UNKNOWN
           else the_observed_ptt (fsn_value field)))"

definition legacy_ptt_bool :: "observed_ptt \<Rightarrow> bool" where
  "legacy_ptt_bool state \<longleftrightarrow> state = Ptt_ON"

section \<open>Qualified evidence\<close>

text \<open>
  The predicate both projections test: fresh, of the provider generation of the snapshot, and
  younger than its own time to live at the snapshot's clock reading.
\<close>

definition evidence_ok :: "state_snapshot \<Rightarrow> field_snapshot \<Rightarrow> bool" where
  "evidence_ok snapshot field \<longleftrightarrow>
     fsn_freshness field = Fresh_FRESH \<and>
     (\<exists>g. fsn_provider_generation field = PyInt g \<and> ss_provider_generation snapshot = PyInt g) \<and>
     finite_number (ss_generated_at_monotonic snapshot) \<and>
     finite_number (fsn_last_observed_monotonic field) \<and> finite_number (fsn_max_age field) \<and>
     0 \<le> number (fsn_last_observed_monotonic field) \<and>
     number (fsn_last_observed_monotonic field) \<le> number (ss_generated_at_monotonic snapshot) \<and>
     number (ss_generated_at_monotonic snapshot)
       < number (fsn_last_observed_monotonic field) + number (fsn_max_age field)"

lemma setdefault_index_find:
  "setdefault_index items p = List.find (\<lambda>item. fsn_path item = p) items"
  by (induction items) auto

lemma is_int_iff: "is_int v \<longleftrightarrow> (\<exists>n. v = PyInt n)"
  by (cases v) auto

lemma finite_number_PyNone [simp]: "finite_number PyNone = False"
  by simp

lemma project_observed_ptt_eq:
  "project_observed_ptt snapshot =
     (case snapshot_field snapshot observed_ptt_path of
        Inl _ \<Rightarrow> Ptt_UNKNOWN
      | Inr field \<Rightarrow> if evidence_ok snapshot field then the_observed_ptt (fsn_value field)
                    else Ptt_UNKNOWN)"
proof (cases "snapshot_field snapshot observed_ptt_path")
  case (Inl e)
  then show ?thesis by (simp add: project_observed_ptt_def)
next
  case (Inr field)
  have plain: "the_observed_ptt v = Ptt_UNKNOWN" if "\<not> is_observed_ptt v" for v
    using that by (cases v) auto
  have none: "fsn_max_age field \<noteq> PyNone" if "finite_number (fsn_max_age field)"
    using that by auto
  show ?thesis
    using Inr plain none
    by (simp add: project_observed_ptt_def evidence_ok_def is_int_iff Let_def not_le not_less) force
qed

end
