(* ===== verification/TxInterlock.thy ===== *)
theory TxInterlock
  imports TxObservation CivFrames
begin

text \<open>
  The transmit interlock: \<open>core/tx_interlock_contract.py\<close> (dispositions and command families)
  and \<open>runtime/tx_interlock.py\<close> (the RF state a seat may trust, the policy for typed commands,
  the one-slot lane of deferred commands, and the byte-level classification of raw CI-V
  frames).
\<close>

section \<open>Contract\<close>

datatype disposition = ALWAYS_PASS | TX_SAFE | DEFER | BLOCK

datatype command_family = PTT_OFF | POWER_OFF | SCAN_STOP | TUNER_OFF | POWER_ON | PTT_ON
  | RAW_CIV | SCAN_START | ANTENNA_SWITCH | TUNER_ENGAGE | FREQUENCY | FAMILY_MODE | BAND
  | VFO_SELECT | VFO_CONTENTS | VFO_TOPOLOGY | MEMORY | RIT_XIT

record family_metadata =
  fm_family :: command_family
  fm_base_disposition :: disposition

definition family_metadata_table :: "family_metadata list" where
  "family_metadata_table = map (\<lambda>(f, d). \<lparr>fm_family = f, fm_base_disposition = d\<rparr>)
     [(PTT_OFF, ALWAYS_PASS), (POWER_OFF, ALWAYS_PASS), (SCAN_STOP, ALWAYS_PASS),
      (TUNER_OFF, ALWAYS_PASS), (POWER_ON, TX_SAFE), (PTT_ON, BLOCK), (RAW_CIV, BLOCK),
      (SCAN_START, BLOCK), (ANTENNA_SWITCH, BLOCK), (TUNER_ENGAGE, BLOCK), (FREQUENCY, TX_SAFE),
      (FAMILY_MODE, TX_SAFE), (BAND, TX_SAFE), (VFO_SELECT, TX_SAFE), (VFO_CONTENTS, TX_SAFE),
      (VFO_TOPOLOGY, DEFER), (MEMORY, DEFER), (RIT_XIT, TX_SAFE)]"

definition metadata_by_family :: "command_family \<rightharpoonup> family_metadata" where
  "metadata_by_family = map_of (map (\<lambda>m. (fm_family m, m)) family_metadata_table)"

section \<open>RF state\<close>

datatype rf_state = RF_RX | RF_TX | RF_UNKNOWN

definition ptt_path :: field_path where
  "ptt_path = \<lparr>fp_scope = GLOBAL, fp_family = TX_STATE, fp_name = ''ptt'',
     fp_receiver_id = None, fp_slot = None\<rparr>"

fun is_bool_value :: "field_value \<Rightarrow> bool" where
  "is_bool_value (PlainValue (PyBool _)) = True"
| "is_bool_value _ = False"

fun negative_int :: "py_value \<Rightarrow> bool" where
  "negative_int (PyInt n) = (n < 0)"
| "negative_int _ = False"

definition resolve_rf_state :: "state_snapshot \<Rightarrow> rf_state" where
  "resolve_rf_state snapshot =
     (case snapshot_field snapshot ptt_path of
        Inl _ \<Rightarrow> RF_UNKNOWN
      | Inr field \<Rightarrow>
          (let timing = [ss_generated_at_monotonic snapshot,
                         fsn_last_observed_monotonic field, fsn_max_age field];
               generated_at = number (ss_generated_at_monotonic snapshot);
               last_observed = number (fsn_last_observed_monotonic field);
               max_age = number (fsn_max_age field) in
           if fsn_freshness field \<noteq> Fresh_FRESH
              \<or> \<not> is_bool_value (fsn_value field)
              \<or> \<not> is_int (fsn_provider_generation field)
              \<or> \<not> is_int (ss_provider_generation snapshot)
              \<or> negative_int (ss_provider_generation snapshot)
              \<or> fsn_provider_generation field \<noteq> ss_provider_generation snapshot
              \<or> list_ex (\<lambda>v. \<not> finite_number v) timing
              \<or> fsn_max_age field = PyNone
              \<or> max_age \<le> 0
              \<or> last_observed < 0
              \<or> generated_at < last_observed
              \<or> generated_at - last_observed \<ge> max_age
           then RF_UNKNOWN
           else if fsn_value field = PlainValue (PyBool True) then RF_TX else RF_RX))"

section \<open>The policy for typed commands\<close>

text \<open>\<open>isinstance(command, types)\<close>: the command dataclasses have no subclasses.\<close>

definition isinstance :: "command \<Rightarrow> string list \<Rightarrow> bool" where
  "isinstance cmd types \<longleftrightarrow> command_class cmd \<in> set types"

definition ALWAYS_PASS_TYPES :: "string list" where
  "ALWAYS_PASS_TYPES = [''PttOff'', ''ScanStop'']"

definition DEFER_TYPES :: "string list" where
  "DEFER_TYPES = [''SetSplit'', ''SetDualWatch'', ''SetMainSubTracking'', ''QuickSplit'',
     ''QuickDualWatch'', ''QuickDwTrigger'', ''QuickSplitTrigger'', ''SetMemoryMode'',
     ''MemoryToVfo'', ''MemoryClear'', ''SetMemoryContents'']"

definition HARD_BLOCK_TYPES :: "string list" where
  "HARD_BLOCK_TYPES = [''PttOn'', ''SendCiv'', ''ScanStart'', ''SetAntenna1'', ''SetAntenna2'',
     ''SetRxAntenna'', ''SetRxAntennaAnt1'', ''SetRxAntennaAnt2'', ''SetCivOutputAnt'']"

text \<open>
  The two tests that read a field: \<open>isinstance(command, SetPowerstat) and not command.on\<close>, and
  \<open>isinstance(command, SetTunerStatus) and command.value in values\<close>.
\<close>

fun powerstat_off :: "command \<Rightarrow> bool" where
  "powerstat_off (OperatingCmd (SetPowerstat on)) = (\<not> on)"
| "powerstat_off _ = False"

fun tuner_status_in :: "int list \<Rightarrow> command \<Rightarrow> bool" where
  "tuner_status_in values (ControlCmd (SetTunerStatus value)) = (value \<in> set values)"
| "tuner_status_in values _ = False"

definition command_family_of :: "command \<Rightarrow> command_family option" where
  "command_family_of cmd =
     (if isinstance cmd [''PttOff''] then Some PTT_OFF
      else if isinstance cmd [''SetPowerstat''] then
        Some (if powerstat_off cmd then POWER_OFF else POWER_ON)
      else if isinstance cmd [''ScanStop''] then Some SCAN_STOP
      else if tuner_status_in [0] cmd then Some TUNER_OFF
      else if isinstance cmd [''PttOn''] then Some PTT_ON
      else if isinstance cmd [''SendCiv''] then Some RAW_CIV
      else if isinstance cmd [''ScanStart''] then Some SCAN_START
      else if isinstance cmd HARD_BLOCK_TYPES then Some ANTENNA_SWITCH
      else if tuner_status_in [1, 2] cmd then Some TUNER_ENGAGE
      else if isinstance cmd [''SetFreq'', ''SetVfoFreq''] then Some FREQUENCY
      else if isinstance cmd [''SetMode''] then Some FAMILY_MODE
      else if isinstance cmd [''SetBand''] then Some BAND
      else if isinstance cmd [''SelectVfo''] then Some VFO_SELECT
      else if isinstance cmd [''VfoSwap'', ''VfoEqualize''] then Some VFO_CONTENTS
      else if isinstance cmd [''SetSplit'', ''SetDualWatch'', ''SetMainSubTracking'',
          ''QuickSplit'', ''QuickDualWatch'', ''QuickDwTrigger'', ''QuickSplitTrigger'']
        then Some VFO_TOPOLOGY
      else if isinstance cmd [''SetMemoryMode'', ''MemoryToVfo'', ''MemoryClear'',
          ''SetMemoryContents''] then Some MEMORY
      else if isinstance cmd [''SetRitTxStatus'', ''SetRitFrequency''] then Some RIT_XIT
      else None)"

definition get_family_metadata :: "command \<Rightarrow> family_metadata option result" where
  "get_family_metadata cmd =
     (case command_family_of cmd of
        None \<Rightarrow> Inr None
      | Some family \<Rightarrow>
          (case metadata_by_family family of
             None \<Rightarrow> Inl KeyError
           | Some m \<Rightarrow> Inr (Some m)))"

definition classify_tx_interlock :: "command \<Rightarrow> disposition" where
  "classify_tx_interlock cmd =
     (if isinstance cmd ALWAYS_PASS_TYPES then ALWAYS_PASS
      else if powerstat_off cmd then ALWAYS_PASS
      else if tuner_status_in [0] cmd then ALWAYS_PASS
      else if tuner_status_in [1, 2] cmd then BLOCK
      else if isinstance cmd HARD_BLOCK_TYPES then BLOCK
      else if isinstance cmd DEFER_TYPES then DEFER
      else TX_SAFE)"

record decision =
  dc_disposition :: disposition
  dc_allowed :: bool
  dc_reason :: string

definition evaluate_tx_interlock :: "command \<Rightarrow> rf_state \<Rightarrow> decision" where
  "evaluate_tx_interlock cmd rf =
     (let d = classify_tx_interlock cmd in
      if d \<in> {ALWAYS_PASS, TX_SAFE} then
        \<lparr>dc_disposition = d, dc_allowed = True,
         dc_reason = ''TX interlock permits this command.''\<rparr>
      else if rf = RF_RX then
        \<lparr>dc_disposition = d, dc_allowed = True, dc_reason = ''RF state is known RX.''\<rparr>
      else if rf = RF_UNKNOWN then
        \<lparr>dc_disposition = d, dc_allowed = False,
         dc_reason = ''RF state is unknown; this command must not be attempted yet.''\<rparr>
      else if d = DEFER then
        \<lparr>dc_disposition = d, dc_allowed = False,
         dc_reason = ''RF state is TX; command is deferred.''\<rparr>
      else
        \<lparr>dc_disposition = d, dc_allowed = False,
         dc_reason = ''RF state is TX; command is blocked.''\<rparr>)"

section \<open>The lane of deferred commands\<close>

datatype deferred_outcome = HELD | RELEASED | EXPIRED | SUPERSEDED

record deferred_result =
  dr_outcome :: deferred_outcome
  dr_command :: command
  dr_expires_at :: time
  dr_replacement :: "command option"

record deferred_command =
  de_command :: command
  de_deferred_at :: time
  de_expires_at :: time
  de_quiet_since :: "time option"

type_synonym lane = "deferred_command option"

definition TTL_SECONDS :: time where "TTL_SECONDS = 3"
definition QUIET_SECONDS :: time where "QUIET_SECONDS = 1"

definition lane_new :: lane where "lane_new = None"

definition lane_pending :: "lane \<Rightarrow> command option" where
  "lane_pending slot = map_option de_command slot"

definition lane_result :: "deferred_outcome \<Rightarrow> deferred_command \<Rightarrow> deferred_result" where
  "lane_result outcome entry =
     \<lparr>dr_outcome = outcome, dr_command = de_command entry, dr_expires_at = de_expires_at entry,
      dr_replacement = None\<rparr>"

definition lane_defer :: "lane \<Rightarrow> command \<Rightarrow> time \<Rightarrow> rf_state \<Rightarrow> (deferred_result \<times> lane) result" where
  "lane_defer previous cmd now rf =
     (let effective = evaluate_tx_interlock cmd rf in
      if dc_disposition effective \<noteq> DEFER \<or> dc_allowed effective \<or> rf \<noteq> RF_TX
      then Inl ValueError
      else
        let replacement =
          (case previous of
             Some p \<Rightarrow>
               if now < de_expires_at p
               then \<lparr>de_command = cmd, de_deferred_at = de_deferred_at p,
                     de_expires_at = de_expires_at p, de_quiet_since = None\<rparr>
               else \<lparr>de_command = cmd, de_deferred_at = now,
                     de_expires_at = now + TTL_SECONDS, de_quiet_since = None\<rparr>
           | None \<Rightarrow> \<lparr>de_command = cmd, de_deferred_at = now,
                     de_expires_at = now + TTL_SECONDS, de_quiet_since = None\<rparr>);
            r =
          (case previous of
             None \<Rightarrow> lane_result HELD replacement
           | Some p \<Rightarrow>
               if now \<ge> de_expires_at p
               then \<lparr>dr_outcome = EXPIRED, dr_command = de_command p,
                     dr_expires_at = de_expires_at p, dr_replacement = Some cmd\<rparr>
               else \<lparr>dr_outcome = SUPERSEDED, dr_command = de_command p,
                     dr_expires_at = de_expires_at p, dr_replacement = Some cmd\<rparr>)
        in Inr (r, Some replacement))"

definition lane_observe :: "lane \<Rightarrow> rf_state \<Rightarrow> time \<Rightarrow> deferred_result option \<times> lane" where
  "lane_observe slot rf now =
     (case slot of
        None \<Rightarrow> (None, None)
      | Some entry \<Rightarrow>
          if now \<ge> de_expires_at entry then (Some (lane_result EXPIRED entry), None)
          else if rf \<noteq> RF_RX then
            let entry' = entry\<lparr>de_quiet_since := None\<rparr> in
            (Some (lane_result HELD entry'), Some entry')
          else (case de_quiet_since entry of
            None \<Rightarrow>
              let entry' = entry\<lparr>de_quiet_since := Some now\<rparr> in
              (Some (lane_result HELD entry'), Some entry')
          | Some quiet_since \<Rightarrow>
              if now - quiet_since < QUIET_SECONDS
              then (Some (lane_result HELD entry), Some entry)
              else (Some (lane_result RELEASED entry), None)))"

section \<open>Raw CI-V frames\<close>

definition FRAME_HEAD :: byte where "FRAME_HEAD = 0xFE"
definition FRAME_TAIL :: byte where "FRAME_TAIL = 0xFD"
definition FRAME_COLLISION :: byte where "FRAME_COLLISION = 0xFC"
definition TX_FAMILY_COMMAND :: byte where "TX_FAMILY_COMMAND = 0x1C"
definition TX_FAMILY_SUBS :: "byte list" where "TX_FAMILY_SUBS = [0x00, 0x01]"
definition VOICE_TX_MEMORY_COMMAND :: byte where "VOICE_TX_MEMORY_COMMAND = 0x28"
definition VOICE_TX_MEMORY_SUB :: byte where "VOICE_TX_MEMORY_SUB = 0x00"
definition RECEIVER_PREFIX_COMMAND :: byte where "RECEIVER_PREFIX_COMMAND = 0x29"
definition SUB_BYTE_COMMANDS :: "byte list" where
  "SUB_BYTE_COMMANDS = [TX_FAMILY_COMMAND, VOICE_TX_MEMORY_COMMAND]"

text \<open>\<open>sub in subs\<close> and \<open>sub == n\<close> for a sub byte that may be \<open>None\<close>.\<close>

definition sub_in :: "byte option \<Rightarrow> byte list \<Rightarrow> bool" where
  "sub_in sub subs = (case sub of None \<Rightarrow> False | Some s \<Rightarrow> s \<in> set subs)"

definition is_tx_family_civ_command :: "byte \<Rightarrow> byte option \<Rightarrow> byte list \<Rightarrow> bool" where
  "is_tx_family_civ_command command sub data =
     (if command = RECEIVER_PREFIX_COMMAND then
        (if length data < 2 \<or> data ! 1 = RECEIVER_PREFIX_COMMAND then True
         else let inner = data ! 1 in
           if inner = TX_FAMILY_COMMAND then
             (if length data < 3 then True
              else data ! 2 \<in> set TX_FAMILY_SUBS \<and> drop 3 data \<noteq> [])
           else if inner = VOICE_TX_MEMORY_COMMAND then
             (if length data < 3 then True else data ! 2 = VOICE_TX_MEMORY_SUB)
           else False)
      else if command = TX_FAMILY_COMMAND then sub_in sub TX_FAMILY_SUBS \<and> data \<noteq> []
      else if command = VOICE_TX_MEMORY_COMMAND then sub_in sub [VOICE_TX_MEMORY_SUB]
      else False)"

text \<open>\<open>frame[a:-1]\<close>.\<close>

definition slice_to_last :: "nat \<Rightarrow> byte list \<Rightarrow> byte list" where
  "slice_to_last a frame = drop a (butlast frame)"

definition unwrap_civ_frame :: "byte list \<Rightarrow> (byte \<times> byte option \<times> byte list) option" where
  "unwrap_civ_frame frame =
     (if length frame < 6 \<or> frame ! 0 \<noteq> FRAME_HEAD \<or> frame ! 1 \<noteq> FRAME_HEAD
         \<or> last frame \<noteq> FRAME_TAIL
      then None
      else if list_ex (\<lambda>b. b \<in> set [FRAME_HEAD, FRAME_TAIL, FRAME_COLLISION])
           (slice_to_last 2 frame)
      then None
      else let command = frame ! 4 in
        if command \<in> set SUB_BYTE_COMMANDS then
          (if length frame < 7 then None
           else Some (command, Some (frame ! 5), slice_to_last 6 frame))
        else if command = RECEIVER_PREFIX_COMMAND then
          Some (command, None, slice_to_last 5 frame)
        else Some (command, None, []))"

definition classify_raw_civ_frame_tx_family :: "byte list \<Rightarrow> bool option" where
  "classify_raw_civ_frame_tx_family frame =
     (case unwrap_civ_frame frame of
        None \<Rightarrow> None
      | Some (command, sub, data) \<Rightarrow> Some (is_tx_family_civ_command command sub data))"

definition is_exact_dekey_triple :: "byte \<Rightarrow> byte option \<Rightarrow> byte list \<Rightarrow> bool" where
  "is_exact_dekey_triple command sub data =
     (if command = TX_FAMILY_COMMAND then sub_in sub TX_FAMILY_SUBS \<and> data = [0x00]
      else if command = VOICE_TX_MEMORY_COMMAND then
        sub_in sub [VOICE_TX_MEMORY_SUB] \<and> data = [0x00]
      else False)"

definition is_exact_raw_dekey_frame :: "byte list \<Rightarrow> bool" where
  "is_exact_raw_dekey_frame frame =
     (case unwrap_civ_frame frame of
        None \<Rightarrow> False
      | Some (command, sub, data) \<Rightarrow>
          if command = RECEIVER_PREFIX_COMMAND then
            length data = 4 \<and> is_exact_dekey_triple (data ! 1) (Some (data ! 2)) (drop 3 data)
          else is_exact_dekey_triple command sub data)"

definition is_transmission_end_triple :: "byte \<Rightarrow> byte option \<Rightarrow> byte list \<Rightarrow> bool" where
  "is_transmission_end_triple command sub data =
     (if command = TX_FAMILY_COMMAND then sub_in sub [0x00] \<and> data = [0x00]
      else if command = VOICE_TX_MEMORY_COMMAND then
        sub_in sub [VOICE_TX_MEMORY_SUB] \<and> data = [0x00]
      else False)"

definition is_exact_raw_transmission_end_frame :: "byte list \<Rightarrow> bool" where
  "is_exact_raw_transmission_end_frame frame =
     (case unwrap_civ_frame frame of
        None \<Rightarrow> False
      | Some (command, sub, data) \<Rightarrow>
          if command = RECEIVER_PREFIX_COMMAND then
            length data = 4 \<and> is_transmission_end_triple (data ! 1) (Some (data ! 2)) (drop 3 data)
          else is_transmission_end_triple command sub data)"

definition send_civ_frame :: "int \<Rightarrow> int option \<Rightarrow> byte list \<Rightarrow> byte list option" where
  "send_civ_frame command sub data =
     (case build_civ_frame 0x00 0x00 command sub (Some data) of
        Inl _ \<Rightarrow> None
      | Inr frame \<Rightarrow> Some frame)"

section \<open>The typed policy\<close>

lemma powerstat_off_class: "powerstat_off cmd \<Longrightarrow> command_class cmd = ''SetPowerstat''"
  by (elim powerstat_off.elims) auto

lemma tuner_status_class: "tuner_status_in vs cmd \<Longrightarrow> command_class cmd = ''SetTunerStatus''"
  by (elim tuner_status_in.elims) auto

lemma tuner_status_both [simp]: "tuner_status_in [0] cmd \<Longrightarrow> \<not> tuner_status_in [1, 2] cmd"
  by (elim tuner_status_in.elims) auto

text \<open>The metadata table as a function: every family has its row.\<close>

fun base_disposition :: "command_family \<Rightarrow> disposition" where
  "base_disposition f =
     (if f \<in> {PTT_OFF, POWER_OFF, SCAN_STOP, TUNER_OFF} then ALWAYS_PASS
      else if f \<in> {PTT_ON, RAW_CIV, SCAN_START, ANTENNA_SWITCH, TUNER_ENGAGE} then BLOCK
      else if f \<in> {VFO_TOPOLOGY, MEMORY} then DEFER
      else TX_SAFE)"

lemma metadata_by_family_eq:
  "metadata_by_family f = Some \<lparr>fm_family = f, fm_base_disposition = base_disposition f\<rparr>"
  by (cases f) (simp_all add: metadata_by_family_def family_metadata_table_def)

lemma get_family_metadata_eq:
  "get_family_metadata cmd = Inr (map_option
     (\<lambda>f. \<lparr>fm_family = f, fm_base_disposition = base_disposition f\<rparr>) (command_family_of cmd))"
  by (simp add: get_family_metadata_def metadata_by_family_eq split: option.splits)

lemmas type_lists = isinstance_def ALWAYS_PASS_TYPES_def DEFER_TYPES_def HARD_BLOCK_TYPES_def

lemma classify_by_family:
  "classify_tx_interlock cmd =
     (case command_family_of cmd of None \<Rightarrow> TX_SAFE | Some f \<Rightarrow> base_disposition f)"
proof (cases "powerstat_off cmd \<or> tuner_status_in [0] cmd \<or> tuner_status_in [1, 2] cmd")
  case True
  then show ?thesis
    using powerstat_off_class [of cmd] tuner_status_class [of "[0]" cmd]
      tuner_status_class [of "[1, 2]" cmd] tuner_status_both [of cmd]
    by (elim disjE;
        simp add: classify_tx_interlock_def command_family_of_def type_lists; blast?)
next
  case False
  then show ?thesis
    by (simp add: classify_tx_interlock_def command_family_of_def type_lists)
qed

lemma evaluate_allowed_iff:
  "dc_allowed (evaluate_tx_interlock cmd rf) \<longleftrightarrow>
     classify_tx_interlock cmd \<in> {ALWAYS_PASS, TX_SAFE} \<or> rf = RF_RX"
  by (simp add: evaluate_tx_interlock_def Let_def)

lemma evaluate_disposition [simp]:
  "dc_disposition (evaluate_tx_interlock cmd rf) = classify_tx_interlock cmd"
  by (simp add: evaluate_tx_interlock_def Let_def)

lemma resolve_rf_state_eq:
  "resolve_rf_state snapshot =
     (case snapshot_field snapshot ptt_path of
        Inl _ \<Rightarrow> RF_UNKNOWN
      | Inr field \<Rightarrow>
          if evidence_ok snapshot field \<and> \<not> negative_int (ss_provider_generation snapshot)
          then (case fsn_value field of
                  PlainValue (PyBool on) \<Rightarrow> if on then RF_TX else RF_RX
                | _ \<Rightarrow> RF_UNKNOWN)
          else RF_UNKNOWN)"
proof (cases "snapshot_field snapshot ptt_path")
  case (Inl e)
  then show ?thesis by (simp add: resolve_rf_state_def)
next
  case (Inr field)
  have none: "fsn_max_age field \<noteq> PyNone" if "finite_number (fsn_max_age field)"
    using that by auto
  have "is_bool_value v \<longleftrightarrow> (\<exists>on. v = PlainValue (PyBool on))" for v
    by (cases v rule: is_bool_value.cases) auto
  then show ?thesis
    using Inr none
    by (simp add: resolve_rf_state_def evidence_ok_def is_int_iff Let_def not_le not_less
        split: field_value.split py_value.split) force
qed

section \<open>Raw frames\<close>

definition clean :: "byte \<Rightarrow> bool" where
  "clean b \<longleftrightarrow> b \<notin> {FRAME_HEAD, FRAME_TAIL, FRAME_COLLISION}"

definition frame_of :: "byte \<Rightarrow> byte \<Rightarrow> byte list \<Rightarrow> byte list" where
  "frame_of t f payload = FRAME_HEAD # FRAME_HEAD # t # f # payload @ [FRAME_TAIL]"

lemmas frame_bytes = FRAME_HEAD_def FRAME_TAIL_def FRAME_COLLISION_def TX_FAMILY_COMMAND_def
  TX_FAMILY_SUBS_def VOICE_TX_MEMORY_COMMAND_def VOICE_TX_MEMORY_SUB_def
  RECEIVER_PREFIX_COMMAND_def SUB_BYTE_COMMANDS_def

lemma unwrap_frame_of:
  "unwrap_civ_frame (frame_of t f (c # body)) =
     (if \<not> list_all clean (t # f # c # body) then None
      else if c \<in> set SUB_BYTE_COMMANDS then
        (case body of [] \<Rightarrow> None | s # d \<Rightarrow> Some (c, Some s, d))
      else if c = RECEIVER_PREFIX_COMMAND then Some (c, None, body)
      else Some (c, None, []))"
proof -
  let ?frame = "frame_of t f (c # body)"
  have bad: "list_ex (\<lambda>b. b \<in> set [FRAME_HEAD, FRAME_TAIL, FRAME_COLLISION]) bs \<longleftrightarrow>
      \<not> list_all clean bs" for bs
    unfolding list_ex_iff list_all_iff clean_def set_simps by blast
  have slices: "slice_to_last 2 ?frame = t # f # c # body" "slice_to_last 5 ?frame = body"
      "slice_to_last 6 ?frame = tl body" "?frame ! 0 = FRAME_HEAD" "?frame ! 1 = FRAME_HEAD"
      "last ?frame = FRAME_TAIL" "?frame ! 4 = c" "body \<noteq> [] \<Longrightarrow> ?frame ! 5 = hd body"
      "\<not> length ?frame < 6" "length ?frame < 7 \<longleftrightarrow> body = []"
    by (auto simp: slice_to_last_def frame_of_def butlast_append drop_Suc nth_append hd_conv_nth)
  show ?thesis
    unfolding unwrap_civ_frame_def bad slices(1-3)
    using slices by (cases body) (auto simp: Let_def)
qed

lemma frame_shape:
  assumes "6 \<le> length frame" "frame ! 0 = FRAME_HEAD" "frame ! 1 = FRAME_HEAD"
    "last frame = FRAME_TAIL"
  obtains t f c body where "frame = frame_of t f (c # body)"
proof -
  obtain a b t f c rest where frame: "frame = a # b # t # f # c # rest" and "rest \<noteq> []"
    using assms(1) by (auto simp: neq_Nil_conv Suc_le_length_iff eval_nat_numeral)
  then obtain body x where "rest = body @ [x]"
    by (cases rest rule: rev_cases) auto
  with frame assms show ?thesis
    by (intro that [of t f c body]) (simp add: frame_of_def)
qed

lemma unwrap_Some_shape:
  assumes "unwrap_civ_frame frame = Some x"
  obtains t f c body where "frame = frame_of t f (c # body)"
proof -
  have "6 \<le> length frame" "frame ! 0 = FRAME_HEAD" "frame ! 1 = FRAME_HEAD"
      "last frame = FRAME_TAIL"
    using assms by (auto simp: unwrap_civ_frame_def split: if_splits)
  then show ?thesis by (rule frame_shape) (rule that)
qed

text \<open>The two wire forms of an actuation: bare, or behind the receiver prefix.\<close>

definition actuation_forms :: "byte list \<Rightarrow> byte list \<Rightarrow> bool" where
  "actuation_forms act payload \<longleftrightarrow>
     payload = act \<or> (\<exists>r. clean r \<and> payload = RECEIVER_PREFIX_COMMAND # r # act)"

lemma clean_literals [simp]:
  "clean 0" "clean 1" "clean TX_FAMILY_COMMAND" "clean VOICE_TX_MEMORY_COMMAND"
  "clean RECEIVER_PREFIX_COMMAND"
  by (simp_all add: clean_def frame_bytes)

lemma frame_of_inject [simp]:
  "frame_of t f p = frame_of t' f' p' \<longleftrightarrow> t = t' \<and> f = f' \<and> p = p'"
  by (simp add: frame_of_def)

lemma length_4: "length xs = 4 \<longleftrightarrow> (\<exists>a b c d. xs = [a, b, c, d])"
  by (auto simp: length_Suc_conv eval_nat_numeral)

lemma exact_frame_iff:
  assumes triple: "\<And>c s d. P c s d \<longleftrightarrow> (\<exists>s'. s = Some s' \<and> (c, s', d) \<in> A)"
    and acts: "A \<subseteq> {(TX_FAMILY_COMMAND, 0, [0]), (TX_FAMILY_COMMAND, 1, [0]),
        (VOICE_TX_MEMORY_COMMAND, 0, [0])}"
  shows "(case unwrap_civ_frame frame of None \<Rightarrow> False
      | Some (command, sub, data) \<Rightarrow>
          if command = RECEIVER_PREFIX_COMMAND
          then length data = 4 \<and> P (data ! 1) (Some (data ! 2)) (drop 3 data)
          else P command sub data)
    \<longleftrightarrow> (\<exists>t f payload. clean t \<and> clean f \<and> frame = frame_of t f payload \<and>
          (\<exists>(c, s, d)\<in>A. actuation_forms (c # s # d) payload))"
    (is "?lhs \<longleftrightarrow> ?rhs")
proof
  assume ?lhs
  then obtain x where x: "unwrap_civ_frame frame = Some x" by (auto split: option.splits)
  then obtain t f c body where frame: "frame = frame_of t f (c # body)"
    by (rule unwrap_Some_shape)
  have cl: "list_all clean (t # f # c # body)"
    using x by (auto simp: frame unwrap_frame_of split: if_splits)
  consider (sub) "c \<in> set SUB_BYTE_COMMANDS" | (prefix) "c = RECEIVER_PREFIX_COMMAND"
    | (other) "c \<notin> set SUB_BYTE_COMMANDS" "c \<noteq> RECEIVER_PREFIX_COMMAND" by blast
  then show ?rhs
  proof cases
    case sub
    then have "c \<noteq> RECEIVER_PREFIX_COMMAND" by (auto simp: frame_bytes)
    with sub \<open>?lhs\<close> cl obtain s d where "body = s # d" "P c (Some s) d"
      by (auto simp: frame unwrap_frame_of split: list.splits if_splits)
    then have "(c, s, d) \<in> A" by (simp add: triple)
    moreover have "actuation_forms (c # s # d) (c # body)"
      using \<open>body = s # d\<close> by (simp add: actuation_forms_def)
    ultimately show ?thesis using cl frame by fastforce
  next
    case prefix
    then have "c \<notin> set SUB_BYTE_COMMANDS" by (auto simp: frame_bytes)
    with prefix \<open>?lhs\<close> cl have "length body = 4" "P (body ! 1) (Some (body ! 2)) (drop 3 body)"
      by (auto simp: frame unwrap_frame_of split: if_splits)
    then obtain r c' s' z where "body = [r, c', s', z]" "P c' (Some s') [z]"
      by (auto simp: length_4)
    then have "(c', s', [z]) \<in> A" by (simp add: triple)
    moreover have "actuation_forms (c' # s' # [z]) (c # body)"
      using \<open>body = [r, c', s', z]\<close> prefix cl by (simp add: actuation_forms_def)
    ultimately show ?thesis using cl frame by fastforce
  next
    case other
    with \<open>?lhs\<close> show ?thesis by (auto simp: frame unwrap_frame_of triple split: if_splits)
  qed
next
  assume ?rhs
  then obtain t f c s d payload where r: "clean t" "clean f" "(c, s, d) \<in> A"
      "actuation_forms (c # s # d) payload" "frame = frame_of t f payload" by blast
  then have csd: "(c, s, d) \<in> {(TX_FAMILY_COMMAND, 0, [0]), (TX_FAMILY_COMMAND, 1, [0]),
        (VOICE_TX_MEMORY_COMMAND, 0, [0])}" using acts by blast
  then have "c \<in> set SUB_BYTE_COMMANDS" "c \<noteq> RECEIVER_PREFIX_COMMAND" "list_all clean (c # s # d)"
      "length d = 1" "RECEIVER_PREFIX_COMMAND \<notin> set SUB_BYTE_COMMANDS"
    by (auto simp: SUB_BYTE_COMMANDS_def) (simp_all add: frame_bytes)
  moreover have "P c (Some s) d" using r(3) by (simp add: triple)
  ultimately show ?lhs
    using r by (auto simp: actuation_forms_def unwrap_frame_of)
qed

lemma transmission_end_triple_iff:
  "is_transmission_end_triple c s d \<longleftrightarrow>
     (\<exists>s'. s = Some s' \<and> (c, s', d) \<in> {(TX_FAMILY_COMMAND, 0, [0]), (VOICE_TX_MEMORY_COMMAND, 0, [0])})"
  by (cases s) (auto simp: is_transmission_end_triple_def sub_in_def VOICE_TX_MEMORY_SUB_def)

lemma dekey_triple_iff:
  "is_exact_dekey_triple c s d \<longleftrightarrow>
     (\<exists>s'. s = Some s' \<and> (c, s', d) \<in> {(TX_FAMILY_COMMAND, 0, [0]), (TX_FAMILY_COMMAND, 1, [0]),
        (VOICE_TX_MEMORY_COMMAND, 0, [0])})"
  by (cases s)
     (auto simp: is_exact_dekey_triple_def sub_in_def VOICE_TX_MEMORY_SUB_def TX_FAMILY_SUBS_def)

lemma transmission_end_bytes:
  "is_exact_raw_transmission_end_frame frame \<longleftrightarrow>
     (\<exists>t f payload. clean t \<and> clean f \<and> frame = frame_of t f payload \<and>
        (actuation_forms [0x1C, 0, 0] payload \<or> actuation_forms [0x28, 0, 0] payload))"
proof -
  have "is_exact_raw_transmission_end_frame frame \<longleftrightarrow>
     (\<exists>t f payload. clean t \<and> clean f \<and> frame = frame_of t f payload \<and>
        (\<exists>(c, s, d)\<in>{(TX_FAMILY_COMMAND, 0, [0]), (VOICE_TX_MEMORY_COMMAND, 0, [0])}.
           actuation_forms (c # s # d) payload))"
    unfolding is_exact_raw_transmission_end_frame_def
    by (rule exact_frame_iff [OF transmission_end_triple_iff]) blast
  then show ?thesis by (simp add: TX_FAMILY_COMMAND_def VOICE_TX_MEMORY_COMMAND_def)
qed

lemma dekey_bytes:
  "is_exact_raw_dekey_frame frame \<longleftrightarrow>
     (\<exists>t f payload. clean t \<and> clean f \<and> frame = frame_of t f payload \<and>
        (actuation_forms [0x1C, 0, 0] payload \<or> actuation_forms [0x1C, 1, 0] payload \<or>
         actuation_forms [0x28, 0, 0] payload))"
proof -
  have "is_exact_raw_dekey_frame frame \<longleftrightarrow>
     (\<exists>t f payload. clean t \<and> clean f \<and> frame = frame_of t f payload \<and>
        (\<exists>(c, s, d)\<in>{(TX_FAMILY_COMMAND, 0, [0]), (TX_FAMILY_COMMAND, 1, [0]),
            (VOICE_TX_MEMORY_COMMAND, 0, [0])}. actuation_forms (c # s # d) payload))"
    unfolding is_exact_raw_dekey_frame_def
    by (rule exact_frame_iff [OF dekey_triple_iff]) blast
  then show ?thesis by (simp add: TX_FAMILY_COMMAND_def VOICE_TX_MEMORY_COMMAND_def)
qed

lemma actuation_is_tx_family:
  assumes "clean t" "clean f" "actuation_forms [c, s, 0] payload"
    and "c = TX_FAMILY_COMMAND \<and> s \<in> {0, 1} \<or> c = VOICE_TX_MEMORY_COMMAND \<and> s = 0"
  shows "classify_raw_civ_frame_tx_family (frame_of t f payload) = Some True"
proof -
  have codes: "TX_FAMILY_COMMAND \<noteq> RECEIVER_PREFIX_COMMAND"
      "VOICE_TX_MEMORY_COMMAND \<noteq> RECEIVER_PREFIX_COMMAND"
      "VOICE_TX_MEMORY_COMMAND \<noteq> TX_FAMILY_COMMAND"
      "RECEIVER_PREFIX_COMMAND \<notin> set SUB_BYTE_COMMANDS"
    by (simp_all add: frame_bytes)
  show ?thesis
    using assms codes
    by (auto simp: actuation_forms_def classify_raw_civ_frame_tx_family_def unwrap_frame_of
        is_tx_family_civ_command_def sub_in_def TX_FAMILY_SUBS_def VOICE_TX_MEMORY_SUB_def
        SUB_BYTE_COMMANDS_def)
qed

lemma dekey_is_tx_family:
  assumes "is_exact_raw_dekey_frame frame"
  shows "classify_raw_civ_frame_tx_family frame = Some True"
proof -
  obtain t f payload where shape: "clean t" "clean f" "frame = frame_of t f payload"
    and "actuation_forms [0x1C, 0, 0] payload \<or> actuation_forms [0x1C, 1, 0] payload \<or>
         actuation_forms [0x28, 0, 0] payload"
    using assms unfolding dekey_bytes by blast
  then show ?thesis
    using actuation_is_tx_family [of t f "0x1C" 0 payload]
      actuation_is_tx_family [of t f "0x1C" 1 payload]
      actuation_is_tx_family [of t f "0x28" 0 payload]
    unfolding TX_FAMILY_COMMAND_def VOICE_TX_MEMORY_COMMAND_def by blast
qed

lemma classified_False_shape:
  assumes "classify_raw_civ_frame_tx_family (frame_of t f payload) = Some False"
  shows "list_all clean (t # f # payload) \<and>
    \<not> (\<exists>p s d. (p = [] \<or> (\<exists>r. p = [RECEIVER_PREFIX_COMMAND, r])) \<and>
         (payload = p @ TX_FAMILY_COMMAND # s # d \<and> s \<in> {0, 1} \<and> d \<noteq> [] \<or>
          payload = p @ VOICE_TX_MEMORY_COMMAND # 0 # d))"
proof -
  obtain x where "unwrap_civ_frame (frame_of t f payload) = Some x"
    using assms by (auto simp: classify_raw_civ_frame_tx_family_def split: option.splits)
  then obtain t' f' c body where "frame_of t f payload = frame_of t' f' (c # body)"
    by (rule unwrap_Some_shape)
  then have payload: "payload = c # body" by simp
  have codes: "TX_FAMILY_COMMAND \<noteq> RECEIVER_PREFIX_COMMAND"
      "VOICE_TX_MEMORY_COMMAND \<noteq> RECEIVER_PREFIX_COMMAND"
      "VOICE_TX_MEMORY_COMMAND \<noteq> TX_FAMILY_COMMAND"
      "RECEIVER_PREFIX_COMMAND \<notin> set SUB_BYTE_COMMANDS"
      "TX_FAMILY_COMMAND \<in> set SUB_BYTE_COMMANDS"
      "VOICE_TX_MEMORY_COMMAND \<in> set SUB_BYTE_COMMANDS"
    by (simp_all add: frame_bytes)
  have cl: "list_all clean (t # f # c # body)"
    using assms by (auto simp: classify_raw_civ_frame_tx_family_def payload unwrap_frame_of
        split: if_splits)
  show ?thesis
  proof (intro conjI notI)
    show "list_all clean (t # f # payload)" using cl by (simp add: payload)
  next
    assume "\<exists>p s d. (p = [] \<or> (\<exists>r. p = [RECEIVER_PREFIX_COMMAND, r])) \<and>
         (payload = p @ TX_FAMILY_COMMAND # s # d \<and> s \<in> {0, 1} \<and> d \<noteq> [] \<or>
          payload = p @ VOICE_TX_MEMORY_COMMAND # 0 # d)"
    then show False
      using assms cl codes
      by (auto simp: classify_raw_civ_frame_tx_family_def payload unwrap_frame_of
          is_tx_family_civ_command_def sub_in_def TX_FAMILY_SUBS_def VOICE_TX_MEMORY_SUB_def)
  qed
qed

lemma send_civ_frame_Some:
  "send_civ_frame command sub data = Some frame \<longleftrightarrow>
     (\<exists>c s. uint c = command \<and> append_opt sub = Inr s \<and> frame = frame_of 0 0 (c # s @ data))"
proof
  assume "send_civ_frame command sub data = Some frame"
  then have "build_civ_frame 0 0 command sub (Some data) = Inr frame"
    by (simp add: send_civ_frame_def split: sum.splits)
  then show "\<exists>c s. uint c = command \<and> append_opt sub = Inr s \<and> frame = frame_of 0 0 (c # s @ data)"
    by (rule build_civ_frame_Inr)
       (auto simp: frame_of_def frame_bytes data_bytes_def unsigned_eq_0_iff)
next
  assume "\<exists>c s. uint c = command \<and> append_opt sub = Inr s \<and> frame = frame_of 0 0 (c # s @ data)"
  then show "send_civ_frame command sub data = Some frame"
    by (auto simp: send_civ_frame_def build_civ_frame_def frame_of_def frame_bytes data_bytes_def
        PREAMBLE_def TERMINATOR_def byte_of_int_def)
qed

lemma wire_bytes_iff:
  "(\<exists>c s. uint c = command \<and> append_opt sub = Inr s \<and> payload = c # s @ data) \<longleftrightarrow>
   map uint payload = command # (case sub of None \<Rightarrow> [] | Some s \<Rightarrow> [s]) @ map uint data"
proof -
  have inj: "map uint xs = map uint data \<longleftrightarrow> xs = data" for xs
    by (rule inj_map_eq_map) (simp add: inj_def word_uint_eq_iff)
  show ?thesis
  proof (cases sub)
    case None
    then show ?thesis by (cases payload) (auto simp: result_simps inj)
  next
    case (Some n)
    then show ?thesis
      by (cases payload; cases "tl payload") (auto simp: result_simps inj)
  qed
qed

section \<open>Runs of the lane\<close>

datatype lane_op = Defer command time rf_state | Observe rf_state time

fun lane_step :: "lane \<Rightarrow> lane_op \<Rightarrow> lane" where
  "lane_step slot (Defer cmd now rf) =
     (case lane_defer slot cmd now rf of Inl _ \<Rightarrow> slot | Inr (_, slot') \<Rightarrow> slot')"
| "lane_step slot (Observe rf now) = snd (lane_observe slot rf now)"

fun op_time :: "lane_op \<Rightarrow> time" where
  "op_time (Defer _ now _) = now"
| "op_time (Observe _ now) = now"

lemma lane_defer_Inr:
  "lane_defer slot cmd now rf = Inr (r, slot') \<Longrightarrow>
     classify_tx_interlock cmd = DEFER \<and> rf = RF_TX \<and>
     (\<exists>e. slot' = Some e \<and> de_command e = cmd \<and> de_quiet_since e = None \<and>
       (de_deferred_at e = now \<and> de_expires_at e = now + TTL_SECONDS \<or>
        (\<exists>p. slot = Some p \<and> now < de_expires_at p \<and> de_deferred_at e = de_deferred_at p \<and>
             de_expires_at e = de_expires_at p)))"
  by (auto simp: lane_defer_def Let_def split: if_splits option.splits)

lemma lane_observe_keeps:
  "lane_observe slot rf now = (r, Some e') \<Longrightarrow>
     \<exists>e. slot = Some e \<and> de_command e' = de_command e \<and> de_deferred_at e' = de_deferred_at e \<and>
       de_expires_at e' = de_expires_at e \<and> now < de_expires_at e \<and>
       (rf \<noteq> RF_RX \<and> de_quiet_since e' = None \<or>
        rf = RF_RX \<and> de_quiet_since e = None \<and> de_quiet_since e' = Some now \<or>
        rf = RF_RX \<and> de_quiet_since e \<noteq> None \<and> de_quiet_since e' = de_quiet_since e)"
  by (auto simp: lane_observe_def Let_def split: if_splits option.splits)

text \<open>A deferred command is refused unless its class is DEFER and RF is observed TX.\<close>

lemma lane_defer_Inl:
  "lane_defer slot cmd now rf = Inl e \<longleftrightarrow>
     e = ValueError \<and> (classify_tx_interlock cmd \<noteq> DEFER \<or> rf \<noteq> RF_TX)"
  by (auto simp: lane_defer_def Let_def evaluate_allowed_iff)

text \<open>
  Operations that keep the lane quiet: observations of known RX, and refused \<open>defer\<close> calls.
\<close>

fun quiet_op :: "lane_op \<Rightarrow> bool" where
  "quiet_op (Defer cmd now rf) \<longleftrightarrow> classify_tx_interlock cmd \<noteq> DEFER \<or> rf \<noteq> RF_TX"
| "quiet_op (Observe rf now) \<longleftrightarrow> rf = RF_RX"

text \<open>Nothing but quiet operations since an observation of known RX at \<open>q\<close>.\<close>

definition quiet_tail :: "lane_op list \<Rightarrow> time \<Rightarrow> bool" where
  "quiet_tail es q \<longleftrightarrow>
     (\<exists>earlier since. es = earlier @ Observe RF_RX q # since \<and> list_all quiet_op since)"

lemma quiet_tail_snoc:
  assumes "quiet_tail es q" and "quiet_op e"
  shows "quiet_tail (es @ [e]) q"
proof -
  obtain earlier since where "es = earlier @ Observe RF_RX q # since" "list_all quiet_op since"
    using assms(1) unfolding quiet_tail_def by blast
  then have "es @ [e] = earlier @ Observe RF_RX q # (since @ [e]) \<and> list_all quiet_op (since @ [e])"
    using assms(2) by simp
  then show ?thesis unfolding quiet_tail_def by blast
qed

lemma quiet_tail_start: "quiet_tail (es @ [Observe RF_RX q]) q"
  unfolding quiet_tail_def by (intro exI [of _ es] exI [of _ "[]"]) simp

text \<open>How one operation can leave a command in the lane.\<close>

lemma lane_step_Some:
  assumes "lane_step slot op = Some e'"
  obtains (deferred) now where "op = Defer (de_command e') now RF_TX"
      "classify_tx_interlock (de_command e') = DEFER" "de_quiet_since e' = None"
      "de_deferred_at e' = now \<and> de_expires_at e' = now + TTL_SECONDS \<or>
       (\<exists>p. slot = Some p \<and> de_deferred_at e' = de_deferred_at p \<and>
            de_expires_at e' = de_expires_at p)"
    | (refused) "slot = Some e'" "quiet_op op"
    | (kept) rf now e where "op = Observe rf now" "slot = Some e" "de_command e' = de_command e"
        "de_deferred_at e' = de_deferred_at e" "de_expires_at e' = de_expires_at e"
        "de_quiet_since e' = None \<or>
         rf = RF_RX \<and> (de_quiet_since e' = Some now \<or> de_quiet_since e' = de_quiet_since e)"
proof (cases op)
  case (Defer cmd now rf)
  show ?thesis
  proof (cases "lane_defer slot cmd now rf")
    case (Inl err)
    then have "slot = Some e'" using assms Defer by simp
    moreover have "quiet_op op" using Inl Defer by (auto simp: lane_defer_Inl)
    ultimately show ?thesis by (rule refused)
  next
    case (Inr q)
    then have "lane_defer slot cmd now rf = Inr (fst q, Some e')"
      using assms Defer by (cases q) simp
    from lane_defer_Inr [OF this] show ?thesis using Defer by (auto intro: deferred)
  qed
next
  case (Observe rf now)
  then have "lane_observe slot rf now = (fst (lane_observe slot rf now), Some e')"
    using assms by (cases "lane_observe slot rf now") simp
  from lane_observe_keeps [OF this] show ?thesis using Observe by (auto intro: kept)
qed

lemma lane_quiet_since:
  "run lane_step lane_new es = Some e \<Longrightarrow> de_quiet_since e = Some q \<Longrightarrow> quiet_tail es q"
proof (induction es arbitrary: e rule: rev_induct)
  case Nil
  then show ?case by (simp add: lane_new_def)
next
  case (snoc op es)
  have "lane_step (run lane_step lane_new es) op = Some e" using snoc.prems(1) by simp
  then show ?case
  proof (cases rule: lane_step_Some)
    case (kept rf now e0)
    with snoc show ?thesis by (auto intro: quiet_tail_snoc quiet_tail_start)
  qed (use snoc in \<open>auto intro: quiet_tail_snoc\<close>)
qed

text \<open>Every held command is a DEFER command, held for at most the time to live.\<close>

definition lane_inv :: "lane \<Rightarrow> bool" where
  "lane_inv slot \<longleftrightarrow>
     (case slot of None \<Rightarrow> True
      | Some e \<Rightarrow> classify_tx_interlock (de_command e) = DEFER \<and>
                 de_expires_at e = de_deferred_at e + TTL_SECONDS)"

lemma lane_step_inv: "lane_inv slot \<Longrightarrow> lane_inv (lane_step slot op)"
proof (cases "lane_step slot op")
  case (Some e)
  assume "lane_inv slot"
  then show ?thesis
    using Some by (cases rule: lane_step_Some [OF Some]) (auto simp: lane_inv_def)
qed (simp add: lane_inv_def)

interpretation lane: guarded_system lane_step lane_inv
  by unfold_locales (rule lane_step_inv)

lemma lane_inv_run: "lane_inv (run lane_step lane_new es)"
  by (rule lane.run_inv) (simp add: lane_inv_def lane_new_def)

lemma lane_hold_origin:
  "run lane_step lane_new es = Some e \<Longrightarrow>
     \<exists>cmd. Defer cmd (de_deferred_at e) RF_TX \<in> set es"
proof (induction es arbitrary: e rule: rev_induct)
  case Nil
  then show ?case by (simp add: lane_new_def)
next
  case (snoc op es)
  have "lane_step (run lane_step lane_new es) op = Some e" using snoc.prems by simp
  then show ?case
    by (cases rule: lane_step_Some) (use snoc.IH in \<open>fastforce+\<close>)
qed

section \<open>Properties\<close>

text \<open>
  C3. Fail-closed transmit policy: against the RF state read from a snapshot, a command is
  allowed exactly when its class is harmless (always-pass or TX-safe) or the snapshot holds a
  PTT observation of \<open>False\<close> that is fresh, of the snapshot's own (non-negative) provider
  generation and younger than its time to live. Missing, stale, foreign or mistyped evidence
  refuses every keying, antenna, raw CI-V and topology command.
\<close>

theorem disruptive_commands_need_observed_rx:
  "dc_allowed (evaluate_tx_interlock cmd (resolve_rf_state snapshot)) \<longleftrightarrow>
     classify_tx_interlock cmd \<in> {ALWAYS_PASS, TX_SAFE} \<or>
     (\<exists>field. snapshot_field snapshot ptt_path = Inr field \<and> evidence_ok snapshot field \<and>
        \<not> negative_int (ss_provider_generation snapshot) \<and>
        fsn_value field = PlainValue (PyBool False))"
  by (auto simp: evaluate_allowed_iff resolve_rf_state_eq
      split: sum.splits field_value.splits py_value.splits if_splits)

text \<open>
  The classifier and the family table are one policy: the metadata lookup never raises,
  and the disposition of every command is the base disposition of its family, TX-safe when it
  has none. De-keying, power-off, scan stop and tuner off are always-pass.
\<close>

theorem classify_agrees_with_family_table:
  "\<exists>m. get_family_metadata cmd = Inr m \<and>
       classify_tx_interlock cmd =
         (case m of None \<Rightarrow> TX_SAFE | Some f \<Rightarrow> fm_base_disposition f) \<and>
       (classify_tx_interlock cmd = ALWAYS_PASS \<longleftrightarrow>
          m \<noteq> None \<and> fm_family (the m) \<in> {PTT_OFF, POWER_OFF, SCAN_STOP, TUNER_OFF})"
  by (auto simp: get_family_metadata_eq classify_by_family split: option.splits if_splits)

text \<open>
  The bool projection and the canonical one read the same evidence alike: when the two
  fields differ only in path and value, and the value of one is the normalized value of the
  other, \<open>resolve_rf_state\<close> answers TX, RX or UNKNOWN exactly when \<open>project_observed_ptt\<close>
  answers on, off or unknown.
\<close>

theorem rf_state_agrees_with_observed_ptt:
  assumes "snapshot_field snapshot ptt_path = Inr field"
    and "snapshot_field snapshot observed_ptt_path =
      Inr (field\<lparr>fsn_path := observed_ptt_path,
                 fsn_value := PttValue (normalize_observed_ptt (fsn_value field))\<rparr>)"
    and "is_bool_value (fsn_value field)"
    and "\<not> negative_int (ss_provider_generation snapshot)"
  shows "resolve_rf_state snapshot =
    (case project_observed_ptt snapshot of
       Ptt_ON \<Rightarrow> RF_TX | Ptt_OFF \<Rightarrow> RF_RX | Ptt_UNKNOWN \<Rightarrow> RF_UNKNOWN)"
proof -
  obtain on where "fsn_value field = PlainValue (PyBool on)"
    using assms(3) by (cases "fsn_value field" rule: is_bool_value.cases) auto
  moreover have "evidence_ok snapshot (field\<lparr>fsn_path := p, fsn_value := v\<rparr>)
      = evidence_ok snapshot field" for p v
    by (simp add: evidence_ok_def)
  ultimately show ?thesis
    using assms(1,2,4) by (simp add: resolve_rf_state_eq project_observed_ptt_eq)
qed

text \<open>
  C9. Exactly these frames end a transmission: PTT off (\<open>1C 00 00\<close>) and the stop of the voice
  transmit memory (\<open>28 00 00\<close>), bare or behind a receiver prefix, with no frame byte inside;
  the de-key exemption adds tuner off (\<open>1C 01 00\<close>) and nothing else.
\<close>

theorem exempt_frames_exact:
  "(is_exact_raw_transmission_end_frame frame \<longleftrightarrow>
     (\<exists>t f payload. clean t \<and> clean f \<and> frame = frame_of t f payload \<and>
        (\<exists>act\<in>{[0x1C, 0, 0], [0x28, 0, 0]}. actuation_forms act payload))) \<and>
   (is_exact_raw_dekey_frame frame \<longleftrightarrow>
     (\<exists>t f payload. clean t \<and> clean f \<and> frame = frame_of t f payload \<and>
        (\<exists>act\<in>{[0x1C, 0, 0], [0x1C, 1, 0], [0x28, 0, 0]}. actuation_forms act payload)))"
  unfolding transmission_end_bytes dekey_bytes by simp

text \<open>
  The raw gates are consistent and fail closed: a frame that ends a transmission is a
  de-key, a de-key is classified as TX family, and a frame classified as harmless holds
  neither a PTT or tuner actuation nor a voice transmit command, bare or behind one receiver
  prefix.
\<close>

theorem raw_gates_fail_closed:
  assumes "classify_raw_civ_frame_tx_family (frame_of t f payload) = verdict"
  shows "(is_exact_raw_transmission_end_frame (frame_of t f payload) \<longrightarrow>
            is_exact_raw_dekey_frame (frame_of t f payload)) \<and>
    (is_exact_raw_dekey_frame (frame_of t f payload) \<longrightarrow> verdict = Some True) \<and>
    (verdict = Some False \<longrightarrow>
       list_all clean (t # f # payload) \<and>
       \<not> (\<exists>p s d. (p = [] \<or> (\<exists>r. p = [0x29, r])) \<and>
            (payload = p @ 0x1C # s # d \<and> s \<in> {0, 1} \<and> d \<noteq> [] \<or>
             payload = p @ 0x28 # 0 # d)))"
proof (intro conjI impI)
  assume "is_exact_raw_transmission_end_frame (frame_of t f payload)"
  then show "is_exact_raw_dekey_frame (frame_of t f payload)"
    by (auto simp: transmission_end_bytes dekey_bytes)
next
  assume "is_exact_raw_dekey_frame (frame_of t f payload)"
  then show "verdict = Some True" using assms by (auto dest: dekey_is_tx_family)
next
  assume "verdict = Some False"
  with assms have harmless: "classify_raw_civ_frame_tx_family (frame_of t f payload) = Some False"
    by simp
  from classified_False_shape [OF this]
  show "list_all clean (t # f # payload)"
    and "\<not> (\<exists>p s d. (p = [] \<or> (\<exists>r. p = [0x29, r])) \<and>
            (payload = p @ 0x1C # s # d \<and> s \<in> {0, 1} \<and> d \<noteq> [] \<or>
             payload = p @ 0x28 # 0 # d))"
    unfolding TX_FAMILY_COMMAND_def VOICE_TX_MEMORY_COMMAND_def RECEIVER_PREFIX_COMMAND_def
    by blast+
qed

text \<open>
  A typed \<open>SendCiv\<close> is judged by its bytes: however the caller splits them into command,
  sub and data, it is exempt as the end of a transmission exactly when the bytes on the wire
  are one of the two actuations, bare or behind a receiver prefix.
\<close>

theorem send_civ_exemption_exact:
  "(\<exists>frame. send_civ_frame command sub data = Some frame \<and>
      is_exact_raw_transmission_end_frame frame) \<longleftrightarrow>
   (\<exists>payload. (\<exists>act\<in>{[0x1C, 0, 0], [0x28, 0, 0]}. actuation_forms act payload) \<and>
      map uint payload = command # (case sub of None \<Rightarrow> [] | Some s \<Rightarrow> [s]) @ map uint data)"
proof -
  have by_bytes: "(\<exists>frame. send_civ_frame command sub data = Some frame \<and> Q frame) \<longleftrightarrow>
      (\<exists>c s. uint c = command \<and> append_opt sub = Inr s \<and> Q (frame_of 0 0 (c # s @ data)))" for Q
    unfolding send_civ_frame_Some by blast
  have "(\<exists>frame. send_civ_frame command sub data = Some frame \<and>
      is_exact_raw_transmission_end_frame frame) \<longleftrightarrow>
    (\<exists>c s. uint c = command \<and> append_opt sub = Inr s \<and>
      (actuation_forms [0x1C, 0, 0] (c # s @ data) \<or> actuation_forms [0x28, 0, 0] (c # s @ data)))"
    using by_bytes [of is_exact_raw_transmission_end_frame]
    by (simp add: transmission_end_bytes)
  also have "\<dots> \<longleftrightarrow> (\<exists>payload. (actuation_forms [0x1C, 0, 0] payload \<or>
      actuation_forms [0x28, 0, 0] payload) \<and>
      (\<exists>c s. uint c = command \<and> append_opt sub = Inr s \<and> payload = c # s @ data))"
    by blast
  finally show ?thesis unfolding wire_bytes_iff by simp
qed

text \<open>
  The lane releases a held command only in known RX, before its deadline, and after RF was
  seen in RX for at least the quiet second without any other observation or newer command in
  between; what it releases is a DEFER command and the lane is empty afterwards.
\<close>

theorem lane_releases_after_quiet:
  assumes "lane_observe (run lane_step lane_new es) rf now = (Some r, slot')"
    and "dr_outcome r = RELEASED"
  shows "rf = RF_RX \<and> slot' = None \<and> now < dr_expires_at r \<and>
    classify_tx_interlock (dr_command r) = DEFER \<and>
    (\<exists>q. quiet_tail es q \<and> QUIET_SECONDS \<le> now - q)"
proof -
  obtain e where e: "run lane_step lane_new es = Some e"
    using assms by (cases "run lane_step lane_new es") (auto simp: lane_observe_def)
  then have "rf = RF_RX \<and> slot' = None \<and> now < de_expires_at e \<and>
      (\<exists>q. de_quiet_since e = Some q \<and> QUIET_SECONDS \<le> now - q) \<and> r = lane_result RELEASED e"
    using assms by (auto simp: lane_observe_def lane_result_def Let_def not_less not_le
        split: if_splits option.splits)
  moreover have "classify_tx_interlock (de_command e) = DEFER"
    using lane_inv_run [of es] e by (simp add: lane_inv_def)
  ultimately show ?thesis
    using lane_quiet_since [OF e] by (auto simp: lane_result_def)
qed

text \<open>
  No command is held longer than three seconds: the hold of a pending command began with
  a \<open>defer\<close> call at the time it records, superseding keeps that deadline, and the first
  observation from the deadline on reports it expired and empties the lane, whatever RF does.
\<close>

theorem lane_hold_is_bounded:
  assumes "run lane_step lane_new es = Some e"
  shows "(\<exists>cmd. Defer cmd (de_deferred_at e) RF_TX \<in> set es) \<and>
    de_expires_at e = de_deferred_at e + TTL_SECONDS \<and>
    (de_deferred_at e + TTL_SECONDS \<le> now \<longrightarrow>
       lane_observe (Some e) rf now = (Some (lane_result EXPIRED e), None))"
  using lane_hold_origin [OF assms] lane_inv_run [of es] assms
  by (simp add: lane_inv_def lane_observe_def)

section \<open>Witnesses\<close>

definition demo_field :: "field_path \<Rightarrow> field_value \<Rightarrow> field_snapshot" where
  "demo_field p v = \<lparr>fsn_path = p, fsn_value = v, fsn_freshness = Fresh_FRESH,
     fsn_last_observed_monotonic = PyFloat (Finite 10), fsn_max_age = PyFloat (Finite 2),
     fsn_source = \<lparr>sm_source = ''poll_response'', sm_provider = ''civ'', sm_transport = None,
       sm_native_id = None, sm_capability_id = None, sm_command_source = None,
       sm_session_id = None\<rparr>,
     fsn_quality = [''confirmed''], fsn_provider_generation = PyInt 1, fsn_clock_domain = None\<rparr>"

definition demo_snapshot :: state_snapshot where
  "demo_snapshot = \<lparr>ss_state_revision = 1, ss_freshness_revision = 1, ss_observation_seq = 1,
     ss_generated_at_monotonic = PyFloat (Finite 11),
     ss_fields = [demo_field ptt_path (PlainValue (PyBool False)),
                  demo_field observed_ptt_path (PttValue Ptt_OFF)],
     ss_provider_generation = PyInt 1\<rparr>"

theorem rf_state_agrees_with_observed_ptt_witness:
  "resolve_rf_state demo_snapshot = RF_RX \<and> project_observed_ptt demo_snapshot = Ptt_OFF"
proof -
  have off: "project_observed_ptt demo_snapshot = Ptt_OFF" by code_simp
  have "resolve_rf_state demo_snapshot =
      (case project_observed_ptt demo_snapshot of
         Ptt_ON \<Rightarrow> RF_TX | Ptt_OFF \<Rightarrow> RF_RX | Ptt_UNKNOWN \<Rightarrow> RF_UNKNOWN)"
    by (rule rf_state_agrees_with_observed_ptt
        [of _ "demo_field ptt_path (PlainValue (PyBool False))"])
       (simp_all add: demo_snapshot_def demo_field_def snapshot_field_def ptt_path_def
        observed_ptt_path_def)
  with off show ?thesis by simp
qed

theorem raw_gates_fail_closed_witness:
  "is_exact_raw_dekey_frame (frame_of 0x98 0xE0 [0x29, 0, 0x1C, 0, 0]) \<and>
   classify_raw_civ_frame_tx_family (frame_of 0x98 0xE0 [0x29, 0, 0x1C, 0, 0]) = Some True"
proof -
  have "is_exact_raw_transmission_end_frame (frame_of 0x98 0xE0 [0x29, 0, 0x1C, 0, 0])"
    by code_simp
  then show ?thesis using raw_gates_fail_closed [OF refl] by blast
qed

definition demo_lane_ops :: "lane_op list" where
  "demo_lane_ops = [Defer (OperatingCmd (SetSplit True)) 10 RF_TX, Observe RF_TX (21 / 2),
     Observe RF_RX 11, Observe RF_RX (23 / 2)]"

definition demo_held :: deferred_command where
  "demo_held = \<lparr>de_command = OperatingCmd (SetSplit True), de_deferred_at = 10,
     de_expires_at = 13, de_quiet_since = Some 11\<rparr>"

lemma demo_lane_run: "run lane_step lane_new demo_lane_ops = Some demo_held"
  by code_simp

theorem lane_releases_after_quiet_witness:
  "lane_observe (Some demo_held) RF_RX 12 = (Some (lane_result RELEASED demo_held), None) \<and>
   (\<exists>q. quiet_tail demo_lane_ops q \<and> QUIET_SECONDS \<le> 12 - q)"
proof -
  have out: "lane_observe (Some demo_held) RF_RX 12 = (Some (lane_result RELEASED demo_held), None)"
    by code_simp
  then have "lane_observe (run lane_step lane_new demo_lane_ops) RF_RX 12 =
      (Some (lane_result RELEASED demo_held), None)"
    by (simp add: demo_lane_run)
  from lane_releases_after_quiet [OF this] out show ?thesis by (simp add: lane_result_def)
qed

theorem lane_hold_is_bounded_witness:
  "lane_observe (Some demo_held) RF_TX 13 = (Some (lane_result EXPIRED demo_held), None)"
  using lane_hold_is_bounded [OF demo_lane_run, of 13 RF_TX]
  by (simp add: demo_held_def TTL_SECONDS_def)

end
