(* ===== verification/Controller.thy ===== *)
theory Controller
  imports Prelude "HOL-Library.AList"
begin

text \<open>
  \<open>runtime/controller_authority.py\<close>: who may control the radio. In local mode every \<open>acquire\<close>
  opens a session of its own; in remote mode there is one exclusive grant. A ticket carries the
  generation it was made in, and \<open>revoke\<close> turns the generation.

  \<^item> Every synchronous method is one definition on the state \<open>authority\<close>; it returns the result
    or the \<open>ControllerError\<close> together with the state, because a call that raises has already
    expired what was due. The clock is read once per call (argument \<open>now\<close>), the injected
    \<open>ready\<close> and \<open>tx_ready\<close> are the booleans the \<open>try\<close> blocks around them leave, and the random
    tokens are arguments.
  \<^item> A task is a field: \<open>ca_revocation\<close> holds the channels the cleanup task will close,
    \<open>ca_watchdog\<close> the generation the grant's watchdog watches, \<open>ca_session_watchdog\<close> whether the
    session watchdog runs. \<open>cleanup_done\<close> is the end of the cleanup task, \<open>set_mode_settled\<close>
    the rest of \<open>set_mode\<close> after its await.
  \<^item> Closing a channel and releasing a session's transmitter are entries of \<open>ca_log\<close>; the
    callbacks do not call the authority back.
  \<^item> A ticket has an identity \<open>tk_ref\<close> for the \<open>is\<close> tests; dictionary keys compare the other
    fields.
\<close>

section \<open>Data\<close>

datatype ctl_mode = Local | Remote
datatype ctl_state = Idle | Held | Revoking | Blocked
datatype ctl_effect = CloseChannel nat | ReleaseTx string | CleanupTx

record ticket =
  tk_ref :: nat
  tk_authority :: nat
  tk_generation :: int
  tk_remote :: bool
  tk_session_id :: "string option"
  tk_primary :: bool
  tk_tx_owner :: "string option"

definition ticket_eq :: "ticket \<Rightarrow> ticket \<Rightarrow> bool" where
  "ticket_eq t u \<longleftrightarrow> tk_authority t = tk_authority u \<and> tk_generation t = tk_generation u \<and>
     tk_remote t = tk_remote u \<and> tk_session_id t = tk_session_id u \<and>
     tk_primary t = tk_primary u \<and> tk_tx_owner t = tk_tx_owner u"

type_synonym channels = "(ticket \<times> nat) list"

fun channel_put :: "ticket \<Rightarrow> nat \<Rightarrow> channels \<Rightarrow> channels" where
  "channel_put t c [] = [(t, c)]"
| "channel_put t c ((u, d) # chs) =
     (if ticket_eq u t then (u, c) # chs else (u, d) # channel_put t c chs)"

definition channel_pop :: "ticket \<Rightarrow> channels \<Rightarrow> channels" where
  "channel_pop t chs = filter (\<lambda>(u, d). \<not> ticket_eq u t) chs"

record session =
  se_key :: string
  se_deadline :: time
  se_primary :: "ticket option"
  se_channels :: channels
  se_client :: "string option"

record authority =
  ca_self :: nat
  ca_max_sessions_per_client :: int
  ca_has_release_session :: bool
  ca_sessions :: "(string \<times> session) list"
  ca_session_watchdog :: bool
  ca_session_fences :: "string list"
  ca_mode :: ctl_mode
  ca_generation :: int
  ca_state :: ctl_state
  ca_key :: "string option"
  ca_deadline :: time
  ca_primary :: "ticket option"
  ca_channels :: channels
  ca_revocation :: "nat list option"
  ca_watchdog :: "int option"
  ca_taking_back :: bool
  ca_controls :: "string \<rightharpoonup> ticket"
  ca_audio :: "(ticket \<times> nat \<times> string option) option"
  ca_audio_revoking :: bool
  ca_next_ref :: nat
  ca_log :: "ctl_effect list"

definition TTL_MS :: int where "TTL_MS = 6000"
definition HEARTBEAT_MS :: int where "HEARTBEAT_MS = 2000"

definition ttl :: time where "ttl = of_int TTL_MS / 1000"

definition authority_new :: "nat \<Rightarrow> int \<Rightarrow> bool \<Rightarrow> authority result" where
  "authority_new self max_sessions has_release =
     (if max_sessions < 1 then Inl ValueError
      else Inr \<lparr>ca_self = self, ca_max_sessions_per_client = max_sessions,
        ca_has_release_session = has_release, ca_sessions = [], ca_session_watchdog = False,
        ca_session_fences = [], ca_mode = Local, ca_generation = 0, ca_state = Idle,
        ca_key = None, ca_deadline = 0, ca_primary = None, ca_channels = [],
        ca_revocation = None, ca_watchdog = None, ca_taking_back = False,
        ca_controls = Map.empty, ca_audio = None, ca_audio_revoking = False,
        ca_next_ref = 0, ca_log = []\<rparr>)"

section \<open>Fencing\<close>

text \<open>
  The session watchdog stops when the last session ends: it is cancelled, or, when it is the
  caller, its loop ends.
\<close>

definition end_session :: "string \<Rightarrow> authority \<Rightarrow> authority" where
  "end_session owner a =
     (case map_of (ca_sessions a) owner of
        None \<Rightarrow> a
      | Some s \<Rightarrow>
          (let rest = filter (\<lambda>(o', _). o' \<noteq> owner) (ca_sessions a) in
           a\<lparr>ca_sessions := rest,
             ca_session_watchdog := ca_session_watchdog a \<and> rest \<noteq> [],
             ca_log := ca_log a @ map CloseChannel (map snd (se_channels s)) @
               (if ca_has_release_session a then [ReleaseTx owner] else []),
             ca_session_fences := ca_session_fences a @
               (if ca_has_release_session a then [owner] else [])\<rparr>))"

definition end_sessions :: "string list \<Rightarrow> authority \<Rightarrow> authority" where
  "end_sessions owners a = fold end_session owners a"

definition revoke :: "authority \<Rightarrow> authority" where
  "revoke a =
     (if ca_mode a = Local then
        end_sessions (map fst (ca_sessions a)) (a\<lparr>ca_generation := ca_generation a + 1\<rparr>)
      else if ca_state a = Revoking then a
      else if ca_state a = Idle \<and> ca_key a = None then a
      else a\<lparr>ca_generation := ca_generation a + 1, ca_key := None, ca_primary := None,
             ca_controls := Map.empty, ca_audio := None, ca_audio_revoking := False,
             ca_state := Revoking, ca_channels := [], ca_watchdog := None,
             ca_revocation := Some (map snd (ca_channels a))\<rparr>)"

text \<open>The cleanup task of a revocation; \<open>safe\<close> is \<open>_is_ready()\<close> after the awaited cleanup.\<close>

definition cleanup_done :: "bool \<Rightarrow> authority \<Rightarrow> authority" where
  "cleanup_done safe a =
     (case ca_revocation a of
        None \<Rightarrow> a
      | Some chs \<Rightarrow> a\<lparr>ca_revocation := None, ca_state := (if safe then Idle else Blocked),
          ca_log := ca_log a @ map CloseChannel chs @ [CleanupTx]\<rparr>)"

definition expire :: "time \<Rightarrow> authority \<Rightarrow> authority" where
  "expire now a =
     (let a1 = (if ca_key a \<noteq> None \<and> now \<ge> ca_deadline a then revoke a else a) in
      end_sessions (map fst (filter (\<lambda>(o', s). now \<ge> se_deadline s) (ca_sessions a1))) a1)"

record status_reply =
  st_mode :: ctl_mode
  st_state :: ctl_state
  st_generation :: int
  st_ttl_ms :: int
  st_heartbeat_ms :: int
  st_remaining_ms :: int

text \<open>\<open>int(x)\<close> truncates towards zero; below zero the \<open>max\<close> hides the difference.\<close>

definition status :: "time \<Rightarrow> authority \<Rightarrow> status_reply \<times> authority" where
  "status now a =
     (let a1 = expire now a in
      (\<lparr>st_mode = ca_mode a1, st_state = ca_state a1, st_generation = ca_generation a1,
        st_ttl_ms = TTL_MS, st_heartbeat_ms = HEARTBEAT_MS,
        st_remaining_ms =
          (if ca_key a1 \<noteq> None then max 0 \<lfloor>(ca_deadline a1 - now) * 1000\<rfloor> else 0)\<rparr>, a1))"

section \<open>Modes\<close>

datatype mode_progress = Finished | AwaitSettle

definition mode_text :: "ctl_mode \<Rightarrow> string" where
  "mode_text m = (case m of Local \<Rightarrow> ''local'' | Remote \<Rightarrow> ''remote'')"

definition set_mode :: "string \<Rightarrow> bool \<Rightarrow> authority \<Rightarrow> mode_progress result \<times> authority" where
  "set_mode mode ready a =
     (if mode \<notin> {''local'', ''remote''} then (Inl (ControllerError ''invalid_request'' 400), a)
      else if ca_taking_back a then (Inl (ControllerError ''controller_busy'' 409), a)
      else if mode = mode_text (ca_mode a) \<and> ca_state a \<noteq> Blocked then (Inr Finished, a)
      else if mode = ''local'' \<and> ca_mode a = Remote then
        (let a1 = a\<lparr>ca_taking_back := True\<rparr> in
         (Inr AwaitSettle, if ca_state a \<noteq> Blocked then revoke a1 else a1))
      else if \<not> ready then (Inl (ControllerError ''controller_not_ready'' 503), a)
      else
        (let a1 = end_sessions (map fst (ca_sessions a)) a in
         (Inr Finished, a1\<lparr>ca_generation := ca_generation a1 + 1,
            ca_mode := (if mode = ''local'' then Local else Remote), ca_state := Idle\<rparr>)))"

text \<open>After the await: \<open>settled\<close> is false when \<open>settle\<close> raised or the call was cancelled.\<close>

definition set_mode_settled :: "bool \<Rightarrow> bool \<Rightarrow> authority \<Rightarrow> mode_progress result \<times> authority" where
  "set_mode_settled settled ready a =
     (if \<not> settled then (Inl RuntimeError, a\<lparr>ca_taking_back := False\<rparr>)
      else if \<not> ready then
        (Inl (ControllerError ''controller_not_ready'' 503), a\<lparr>ca_taking_back := False\<rparr>)
      else (Inr Finished, a\<lparr>ca_generation := ca_generation a + 1, ca_mode := Local,
              ca_state := Idle, ca_taking_back := False\<rparr>))"

section \<open>Grants\<close>

record grant =
  gr_controller_key :: string
  gr_generation :: int
  gr_ttl_ms :: int
  gr_heartbeat_ms :: int

definition open_session ::
  "string option \<Rightarrow> string \<Rightarrow> string \<Rightarrow> time \<Rightarrow> authority \<Rightarrow> grant result \<times> authority"
where
  "open_session client owner_token key now a =
     (if client \<noteq> None \<and>
         int (length (filter (\<lambda>(_, s). se_client s = client) (ca_sessions a)))
           \<ge> ca_max_sessions_per_client a
      then (Inl (ControllerError ''controller_session_limit'' 429), a)
      else
        (let owner = ''controller-session-'' @ owner_token;
             s = \<lparr>se_key = key, se_deadline = now + ttl, se_primary = None, se_channels = [],
                  se_client = client\<rparr> in
         (Inr \<lparr>gr_controller_key = key, gr_generation = ca_generation a, gr_ttl_ms = TTL_MS,
               gr_heartbeat_ms = HEARTBEAT_MS\<rparr>,
          a\<lparr>ca_sessions := AList.update owner s (ca_sessions a),
            ca_session_watchdog := True\<rparr>)))"

definition acquire ::
  "string \<Rightarrow> string option \<Rightarrow> string \<Rightarrow> string \<Rightarrow> bool \<Rightarrow> time \<Rightarrow> authority
     \<Rightarrow> grant result \<times> authority"
where
  "acquire kind client owner_token key ready now a0 =
     (let a = expire now a0 in
      if kind \<notin> {''browser'', ''pro''} then (Inl (ControllerError ''invalid_request'' 400), a)
      else if ca_mode a = Local then open_session client owner_token key now a
      else if ca_taking_back a \<or> ca_state a \<in> {Held, Revoking}
        then (Inl (ControllerError ''controller_busy'' 409), a)
      else if ca_state a = Blocked \<or> \<not> ready
        then (Inl (ControllerError ''controller_not_ready'' 503), a)
      else
        (Inr \<lparr>gr_controller_key = key, gr_generation = ca_generation a + 1, gr_ttl_ms = TTL_MS,
              gr_heartbeat_ms = HEARTBEAT_MS\<rparr>,
         a\<lparr>ca_generation := ca_generation a + 1, ca_key := Some key, ca_deadline := now + ttl,
           ca_state := Held, ca_watchdog := Some (ca_generation a + 1)\<rparr>))"

section \<open>Tickets\<close>

definition new_ticket ::
  "authority \<Rightarrow> int \<Rightarrow> bool \<Rightarrow> string option \<Rightarrow> bool \<Rightarrow> string option \<Rightarrow> ticket \<times> authority"
where
  "new_ticket a gen remote session_id primary tx_owner =
     (\<lparr>tk_ref = ca_next_ref a, tk_authority = ca_self a, tk_generation = gen, tk_remote = remote,
       tk_session_id = session_id, tk_primary = primary, tk_tx_owner = tx_owner\<rparr>,
      a\<lparr>ca_next_ref := ca_next_ref a + 1\<rparr>)"

definition ticket_result :: "ticket \<times> authority \<Rightarrow> ticket result \<times> authority" where
  "ticket_result p = (Inr (fst p), snd p)"

definition controller_invalid :: py_error where
  "controller_invalid = ControllerError ''controller_invalid'' 403"

text \<open>\<open>key.isascii()\<close>.\<close>

definition isascii :: "string \<Rightarrow> bool" where
  "isascii s \<longleftrightarrow> list_all (\<lambda>c. of_char c < (128 :: nat)) s"

definition credential :: "string \<Rightarrow> time \<Rightarrow> authority \<Rightarrow> ticket result \<times> authority" where
  "credential key now a0 =
     (let a = expire now a0 in
      if \<not> (length key = 64 \<and> isascii key) then (Inl controller_invalid, a)
      else if ca_mode a = Local then
        (case List.find (\<lambda>(_, s). se_key s = key) (ca_sessions a) of
           Some (owner, _) \<Rightarrow>
             ticket_result (new_ticket a (ca_generation a) False None False (Some owner))
         | None \<Rightarrow> (Inl controller_invalid, a))
      else if \<not> (ca_state a = Held \<and> ca_key a = Some key) then (Inl controller_invalid, a)
      else ticket_result (new_ticket a (ca_generation a) True None False None))"

definition session_primary :: "authority \<Rightarrow> string \<Rightarrow> ticket option" where
  "session_primary a owner = Option.bind (map_of (ca_sessions a) owner) se_primary"

definition update_session :: "string \<Rightarrow> (session \<Rightarrow> session) \<Rightarrow> authority \<Rightarrow> authority" where
  "update_session owner f a =
     a\<lparr>ca_sessions := map (\<lambda>(o', s). (o', if o' = owner then f s else s)) (ca_sessions a)\<rparr>"

text \<open>The primary ticket a ticket of this transmit owner is measured against.\<close>

definition primary_for :: "authority \<Rightarrow> string option \<Rightarrow> ticket option" where
  "primary_for a tx_owner =
     (case tx_owner of None \<Rightarrow> ca_primary a | Some owner \<Rightarrow> session_primary a owner)"

text \<open>\<open>self._sessions[owner]\<close> raises \<open>KeyError\<close> for an owner without a session.\<close>

definition missing_session :: "authority \<Rightarrow> string option \<Rightarrow> bool" where
  "missing_session a tx_owner \<longleftrightarrow>
     (case tx_owner of None \<Rightarrow> False | Some owner \<Rightarrow> owner \<notin> fst ` set (ca_sessions a))"

definition attach ::
  "string \<Rightarrow> string \<Rightarrow> string \<Rightarrow> time \<Rightarrow> authority \<Rightarrow> ticket result \<times> authority"
where
  "attach key role session_id now a0 =
     (case credential key now a0 of
        (Inl e, a) \<Rightarrow> (Inl e, a)
      | (Inr grant, a) \<Rightarrow>
          if role \<notin> {''primary'', ''auxiliary''}
          then (Inl (ControllerError ''invalid_request'' 400), a)
          else
            (let primary = (role = ''primary'');
                 current = primary_for a (tk_tx_owner grant) in
             if \<not> primary \<and> current = None
               then (Inl (ControllerError ''controller_primary_required'' 403), a)
             else if primary \<and> current \<noteq> None
               then (Inl (ControllerError ''controller_busy'' 409), a)
             else
               (let (ticket, a1) = new_ticket a (tk_generation grant) (tk_remote grant)
                      (Some session_id) primary (tk_tx_owner grant) in
                (Inr ticket,
                 if primary then
                   (case tk_tx_owner grant of
                      None \<Rightarrow> a1\<lparr>ca_primary := Some ticket\<rparr>
                    | Some owner \<Rightarrow> update_session owner (\<lambda>s. s\<lparr>se_primary := Some ticket\<rparr>) a1)
                 else a1))))"

text \<open>The condition \<open>validate\<close> tests after expiring what is due.\<close>

definition ticket_current :: "authority \<Rightarrow> ticket \<Rightarrow> bool" where
  "ticket_current a t \<longleftrightarrow>
     tk_authority t = ca_self a \<and> tk_generation t = ca_generation a \<and>
     ((\<not> tk_remote t \<and> ca_mode a = Local \<and>
        (case tk_tx_owner t of None \<Rightarrow> True | Some owner \<Rightarrow> owner \<in> fst ` set (ca_sessions a))) \<or>
      (tk_remote t \<and> ca_mode a = Remote \<and> ca_state a = Held \<and> ca_key a \<noteq> None))"

definition validate :: "ticket \<Rightarrow> time \<Rightarrow> authority \<Rightarrow> unit result \<times> authority" where
  "validate t now a0 =
     (let a = expire now a0 in
      (if \<not> ticket_current a t then Inl controller_invalid else Inr (), a))"

text \<open>\<open>capture\<close>; \<open>current\<close> is the value of the context variable.\<close>

definition capture :: "ticket option \<Rightarrow> time \<Rightarrow> authority \<Rightarrow> ticket result \<times> authority" where
  "capture current now a0 =
     (let (ticket, a1) =
        (case current of
           Some t \<Rightarrow> if tk_authority t \<noteq> ca_self a0
                     then new_ticket a0 (ca_generation a0) False None False None else (t, a0)
         | None \<Rightarrow> new_ticket a0 (ca_generation a0) False None False None) in
      case validate ticket now a1 of
        (Inl e, a) \<Rightarrow> (Inl e, a)
      | (Inr _, a) \<Rightarrow>
          if tk_remote ticket \<and> ca_primary a = None
          then (Inl (ControllerError ''controller_primary_required'' 403), a)
          else (Inr ticket, a))"

definition heartbeat :: "ticket \<Rightarrow> time \<Rightarrow> authority \<Rightarrow> int result \<times> authority" where
  "heartbeat t now a0 =
     (case validate t now a0 of
        (Inl e, a) \<Rightarrow> (Inl e, a)
      | (Inr _, a) \<Rightarrow>
          if missing_session a (tk_tx_owner t) then (Inl KeyError, a)
          else if \<not> tk_primary t \<or> primary_for a (tk_tx_owner t) \<noteq> Some t
          then (Inl (ControllerError ''controller_primary_required'' 403), a)
          else
            (let deadline = now + ttl in
             (Inr (ca_generation a),
              case tk_tx_owner t of
                None \<Rightarrow> a\<lparr>ca_deadline := deadline\<rparr>
              | Some owner \<Rightarrow> update_session owner (\<lambda>s. s\<lparr>se_deadline := deadline\<rparr>) a)))"

definition is_session_owner :: "string option \<Rightarrow> authority \<Rightarrow> bool" where
  "is_session_owner owner a \<longleftrightarrow>
     (case owner of None \<Rightarrow> False | Some o' \<Rightarrow> o' \<in> fst ` set (ca_sessions a))"

definition validate_positive ::
  "ticket \<Rightarrow> bool \<Rightarrow> time \<Rightarrow> authority \<Rightarrow> unit result \<times> authority"
where
  "validate_positive t tx_ready now a0 =
     (case validate t now a0 of
        (Inl e, a) \<Rightarrow> (Inl e, a)
      | (Inr _, a) \<Rightarrow>
          if tk_remote t \<and> \<not> (\<not> ca_audio_revoking a \<and> tx_ready)
          then (Inl (ControllerError ''controller_not_ready'' 503), a)
          else (Inr (), a))"

definition add_channel :: "ticket \<Rightarrow> nat \<Rightarrow> time \<Rightarrow> authority \<Rightarrow> unit result \<times> authority" where
  "add_channel t close now a0 =
     (case validate t now a0 of
        (Inl e, a) \<Rightarrow> (Inl e, a)
      | (Inr _, a) \<Rightarrow>
          if missing_session a (tk_tx_owner t) then (Inl KeyError, a)
          else (Inr (), case tk_tx_owner t of
             None \<Rightarrow> a\<lparr>ca_channels := channel_put t close (ca_channels a)\<rparr>
           | Some owner \<Rightarrow>
               update_session owner (\<lambda>s. s\<lparr>se_channels := channel_put t close (se_channels s)\<rparr>) a))"

definition register_control :: "ticket \<Rightarrow> time \<Rightarrow> authority \<Rightarrow> unit result \<times> authority" where
  "register_control t now a0 =
     (case validate t now a0 of
        (Inl e, a) \<Rightarrow> (Inl e, a)
      | (Inr _, a) \<Rightarrow>
          (case tk_session_id t of
             None \<Rightarrow> (Inl controller_invalid, a)
           | Some sid \<Rightarrow> (Inr (), a\<lparr>ca_controls := (ca_controls a)(sid \<mapsto> t)\<rparr>)))"

section \<open>Audio\<close>

definition audio_is :: "authority \<Rightarrow> ticket \<Rightarrow> nat \<Rightarrow> bool" where
  "audio_is a t source \<longleftrightarrow>
     (case ca_audio a of None \<Rightarrow> False | Some (u, src, _) \<Rightarrow> ticket_eq u t \<and> src = source)"

definition claim_audio :: "ticket \<Rightarrow> nat \<Rightarrow> time \<Rightarrow> authority \<Rightarrow> unit result \<times> authority" where
  "claim_audio t source now a0 =
     (case validate t now a0 of
        (Inl e, a) \<Rightarrow> (Inl e, a)
      | (Inr _, a) \<Rightarrow>
          if (case ca_audio a of None \<Rightarrow> False | Some (_, src, _) \<Rightarrow> src \<noteq> source)
          then (Inl (ControllerError ''controller_audio_busy'' 409), a)
          else if ca_audio_revoking a
          then (Inl (ControllerError ''controller_audio_busy'' 409), a)
          else (Inr (), a\<lparr>ca_audio := Some (t, source, None)\<rparr>))"

definition audio_matches ::
  "ticket \<Rightarrow> nat \<Rightarrow> string \<Rightarrow> time \<Rightarrow> authority \<Rightarrow> bool result \<times> authority"
where
  "audio_matches t source owner now a0 =
     (case validate t now a0 of
        (Inl e, a) \<Rightarrow> (Inl e, a)
      | (Inr _, a) \<Rightarrow>
          (case (ca_controls a owner, ca_audio a) of
             (Some control, Some (_, _, bound)) \<Rightarrow>
               if ca_audio_revoking a \<or> \<not> audio_is a t source then (Inr False, a)
               else (case validate control now a of
                 (Inl e, a1) \<Rightarrow> (Inl e, a1)
               | (Inr _, a1) \<Rightarrow>
                   if bound \<noteq> None \<and> bound \<noteq> Some owner then (Inr False, a1)
                   else (Inr True, a1\<lparr>ca_audio := Some (t, source, Some owner)\<rparr>))
           | _ \<Rightarrow> (Inr False, a)))"

definition fence_audio :: "ticket \<Rightarrow> nat \<Rightarrow> time \<Rightarrow> authority \<Rightarrow> bool \<times> authority" where
  "fence_audio t source now a =
     (if ca_audio_revoking a \<or> \<not> audio_is a t source then (False, a)
      else (case validate t now (a\<lparr>ca_audio_revoking := True\<rparr>) of
              (Inl _, a1) \<Rightarrow> (False, a1)
            | (Inr _, a1) \<Rightarrow> (True, a1)))"

definition release_audio :: "ticket \<Rightarrow> nat \<Rightarrow> time \<Rightarrow> authority \<Rightarrow> bool \<times> authority" where
  "release_audio t source now a =
     (if \<not> audio_is a t source then (False, a)
      else (case validate t now (a\<lparr>ca_audio := None, ca_audio_revoking := False\<rparr>) of
              (Inl _, a1) \<Rightarrow> (False, a1)
            | (Inr _, a1) \<Rightarrow> (True, a1)))"

section \<open>Leaving\<close>

definition detach :: "ticket \<Rightarrow> authority \<Rightarrow> authority" where
  "detach t a0 =
     (let a = a0\<lparr>ca_channels := channel_pop t (ca_channels a0)\<rparr> in
      case tk_tx_owner t of
        Some owner \<Rightarrow>
          (case map_of (ca_sessions a) owner of
             None \<Rightarrow> a
           | Some s \<Rightarrow>
               (let a1 = update_session owner
                      (\<lambda>s. s\<lparr>se_channels := channel_pop t (se_channels s)\<rparr>) a in
                if se_primary s = Some t then end_session owner a1 else a1))
      | None \<Rightarrow>
          (let a1 = (case tk_session_id t of
                Some sid \<Rightarrow> if ca_controls a sid = Some t
                            then a\<lparr>ca_controls := (ca_controls a)(sid := None)\<rparr> else a
              | None \<Rightarrow> a) in
           if ca_primary a1 = Some t then revoke a1 else a1))"

definition disconnect_control :: "string \<Rightarrow> authority \<Rightarrow> authority" where
  "disconnect_control session_id a =
     (case ca_controls a session_id of None \<Rightarrow> a | Some t \<Rightarrow> detach t a)"

text \<open>\<open>release\<close> up to its final await of \<open>settle\<close>.\<close>

definition release_grant :: "string \<Rightarrow> time \<Rightarrow> authority \<Rightarrow> unit result \<times> authority" where
  "release_grant key now a0 =
     (case credential key now a0 of
        (Inl e, a) \<Rightarrow> (Inl e, a)
      | (Inr ticket, a) \<Rightarrow>
          (Inr (), case tk_tx_owner ticket of
             Some owner \<Rightarrow> end_session owner a
           | None \<Rightarrow> revoke a))"

end
