(* ===== verification/ControllerRuns.thy ===== *)
theory ControllerRuns
  imports Controller
begin

text \<open>
  The controller authority under any sequence of calls: its invariant, the turning of the
  generation, the isolation of sessions and the exclusiveness of the remote grant.
\<close>

section \<open>Operations\<close>

datatype ctl_op =
    Acquire string "string option" string string bool time
  | Credential string time
  | Attach string string string time
  | Capture "ticket option" time
  | Validate ticket time
  | ValidatePositive ticket bool time
  | Heartbeat ticket time
  | AddChannel ticket nat time
  | RegisterControl ticket time
  | ClaimAudio ticket nat time
  | AudioMatches ticket nat string time
  | FenceAudio ticket nat time
  | ReleaseAudio ticket nat time
  | Detach ticket
  | Disconnect string
  | Release string time
  | Revoke
  | SetMode string bool
  | SetModeSettled bool bool
  | CleanupDone bool
  | Status time
  | Tick time

text \<open>
  \<open>Tick\<close> is a round of a watchdog. The rest of \<open>set_mode\<close> runs only in the call that awaits,
  and its \<open>settle\<close> returns normally only when the cleanup task has ended.
\<close>

fun ctl_step :: "authority \<Rightarrow> ctl_op \<Rightarrow> authority" where
  "ctl_step a (Acquire kind client tok key ready now) = snd (acquire kind client tok key ready now a)"
| "ctl_step a (Credential key now) = snd (credential key now a)"
| "ctl_step a (Attach key role sid now) = snd (attach key role sid now a)"
| "ctl_step a (Capture cur now) = snd (capture cur now a)"
| "ctl_step a (Validate t now) = snd (validate t now a)"
| "ctl_step a (ValidatePositive t r now) = snd (validate_positive t r now a)"
| "ctl_step a (Heartbeat t now) = snd (heartbeat t now a)"
| "ctl_step a (AddChannel t c now) = snd (add_channel t c now a)"
| "ctl_step a (RegisterControl t now) = snd (register_control t now a)"
| "ctl_step a (ClaimAudio t src now) = snd (claim_audio t src now a)"
| "ctl_step a (AudioMatches t src own now) = snd (audio_matches t src own now a)"
| "ctl_step a (FenceAudio t src now) = snd (fence_audio t src now a)"
| "ctl_step a (ReleaseAudio t src now) = snd (release_audio t src now a)"
| "ctl_step a (Detach t) = detach t a"
| "ctl_step a (Disconnect sid) = disconnect_control sid a"
| "ctl_step a (Release key now) = snd (release_grant key now a)"
| "ctl_step a Revoke = revoke a"
| "ctl_step a (SetMode mode ready) = snd (set_mode mode ready a)"
| "ctl_step a (SetModeSettled settled ready) =
     (if ca_taking_back a \<and> (settled \<longrightarrow> ca_revocation a = None)
      then snd (set_mode_settled settled ready a) else a)"
| "ctl_step a (CleanupDone safe) = cleanup_done safe a"
| "ctl_step a (Status now) = snd (status now a)"
| "ctl_step a (Tick now) = expire now a"

section \<open>Invariant\<close>

definition client_count :: "string \<Rightarrow> (string \<times> session) list \<Rightarrow> nat" where
  "client_count c xs = length (filter (\<lambda>(_, s). se_client s = Some c) xs)"

definition sessions_ok :: "int \<Rightarrow> int \<Rightarrow> (string \<times> session) list \<Rightarrow> bool" where
  "sessions_ok gen mx xs \<longleftrightarrow> distinct (map fst xs) \<and>
     (\<forall>(own, s)\<in>set xs. \<forall>t. se_primary s = Some t \<longrightarrow>
        tk_generation t = gen \<and> tk_tx_owner t = Some own) \<and>
     (\<forall>c. int (client_count c xs) \<le> mx)"

definition ctl_inv :: "authority \<Rightarrow> bool" where
  "ctl_inv a \<longleftrightarrow>
     (ca_key a \<noteq> None \<longleftrightarrow> ca_state a = Held) \<and>
     (ca_state a = Held \<longrightarrow> ca_mode a = Remote \<and> ca_watchdog a = Some (ca_generation a)) \<and>
     (ca_mode a = Remote \<longrightarrow> ca_sessions a = []) \<and>
     (ca_mode a = Local \<longrightarrow> ca_state a = Idle) \<and>
     (ca_primary a \<noteq> None \<longrightarrow> ca_state a = Held) \<and>
     (ca_state a = Revoking \<longleftrightarrow> ca_revocation a \<noteq> None) \<and>
     (ca_taking_back a \<longrightarrow> ca_mode a = Remote \<and> ca_state a \<noteq> Held) \<and>
     sessions_ok (ca_generation a) (ca_max_sessions_per_client a) (ca_sessions a) \<and>
     (ca_sessions a \<noteq> [] \<longrightarrow> ca_session_watchdog a)"

lemma ctl_inv_new: "authority_new self mx rel = Inr a \<Longrightarrow> ctl_inv a"
  by (auto simp: authority_new_def ctl_inv_def sessions_ok_def client_count_def split: if_splits)

subsection \<open>Ending sessions\<close>

lemma map_of_None_filter:
  "map_of xs k = None \<Longrightarrow> filter (\<lambda>(k', _). k' \<noteq> k) xs = xs"
  by (induction xs) (auto split: if_splits)

lemma end_session_sessions [simp]:
  "ca_sessions (end_session own a) = filter (\<lambda>(o', _). o' \<noteq> own) (ca_sessions a)"
  by (simp add: end_session_def Let_def map_of_None_filter split: option.split)

lemma end_session_frame [simp]:
  "ca_self (end_session own a) = ca_self a"
  "ca_max_sessions_per_client (end_session own a) = ca_max_sessions_per_client a"
  "ca_has_release_session (end_session own a) = ca_has_release_session a"
  "ca_mode (end_session own a) = ca_mode a" "ca_generation (end_session own a) = ca_generation a"
  "ca_state (end_session own a) = ca_state a" "ca_key (end_session own a) = ca_key a"
  "ca_deadline (end_session own a) = ca_deadline a" "ca_primary (end_session own a) = ca_primary a"
  "ca_revocation (end_session own a) = ca_revocation a"
  "ca_watchdog (end_session own a) = ca_watchdog a"
  "ca_taking_back (end_session own a) = ca_taking_back a"
  by (simp_all add: end_session_def Let_def split: option.split)

lemma end_session_watchdog:
  "(ca_sessions a \<noteq> [] \<longrightarrow> ca_session_watchdog a) \<Longrightarrow>
   ca_sessions (end_session own a) \<noteq> [] \<Longrightarrow> ca_session_watchdog (end_session own a)"
  by (auto simp: end_session_def Let_def map_of_None_filter filter_empty_conv split: option.split)

lemma end_sessions_Cons [simp]:
  "end_sessions (own # owners) a = end_sessions owners (end_session own a)"
  "end_sessions [] a = a"
  by (simp_all add: end_sessions_def)

lemma end_sessions_sessions [simp]:
  "ca_sessions (end_sessions owners a) = filter (\<lambda>(o', _). o' \<notin> set owners) (ca_sessions a)"
  by (induction owners arbitrary: a) (auto intro!: filter_cong)

lemma end_sessions_frame [simp]:
  "ca_self (end_sessions owners a) = ca_self a"
  "ca_max_sessions_per_client (end_sessions owners a) = ca_max_sessions_per_client a"
  "ca_has_release_session (end_sessions owners a) = ca_has_release_session a"
  "ca_mode (end_sessions owners a) = ca_mode a"
  "ca_generation (end_sessions owners a) = ca_generation a"
  "ca_state (end_sessions owners a) = ca_state a" "ca_key (end_sessions owners a) = ca_key a"
  "ca_deadline (end_sessions owners a) = ca_deadline a"
  "ca_primary (end_sessions owners a) = ca_primary a"
  "ca_revocation (end_sessions owners a) = ca_revocation a"
  "ca_watchdog (end_sessions owners a) = ca_watchdog a"
  "ca_taking_back (end_sessions owners a) = ca_taking_back a"
  by (induction owners arbitrary: a) auto

lemma end_sessions_watchdog:
  "(ca_sessions a \<noteq> [] \<longrightarrow> ca_session_watchdog a) \<Longrightarrow>
   ca_sessions (end_sessions owners a) \<noteq> [] \<Longrightarrow> ca_session_watchdog (end_sessions owners a)"
proof (induction owners arbitrary: a)
  case (Cons own owners)
  then show ?case using end_session_watchdog [of a own] by (simp only: end_sessions_Cons) blast
qed simp

lemma end_all_sessions [simp]:
  "filter (\<lambda>(o', _). o' \<notin> fst ` set xs) xs = []"
  by (force simp: filter_empty_conv)

lemma sessions_ok_filter:
  assumes "sessions_ok gen mx xs"
  shows "sessions_ok gen mx (filter P xs)"
proof -
  have "client_count c (filter P xs) \<le> client_count c xs" for c
    by (induction xs) (auto simp: client_count_def)
  then have "int (client_count c (filter P xs)) \<le> mx" for c
    using assms unfolding sessions_ok_def by (meson of_nat_le_iff order_trans)
  then show ?thesis
    using assms by (auto simp: sessions_ok_def distinct_map_filter)
qed

lemma sessions_ok_Nil: "sessions_ok gen mx xs \<Longrightarrow> sessions_ok gen' mx []"
  by (fastforce simp: sessions_ok_def client_count_def)

text \<open>The invariant apart from the sessions, on the fields it reads.\<close>

definition grant_inv ::
  "string option \<Rightarrow> ctl_state \<Rightarrow> ctl_mode \<Rightarrow> int option \<Rightarrow> int \<Rightarrow> ticket option \<Rightarrow> nat list option \<Rightarrow> bool
     \<Rightarrow> bool"
where
  "grant_inv key st mode wd gen primary revocation taking \<longleftrightarrow>
     (key \<noteq> None \<longleftrightarrow> st = Held) \<and> (st = Held \<longrightarrow> mode = Remote \<and> wd = Some gen) \<and>
     (mode = Local \<longrightarrow> st = Idle) \<and> (primary \<noteq> None \<longrightarrow> st = Held) \<and>
     (st = Revoking \<longleftrightarrow> revocation \<noteq> None) \<and> (taking \<longrightarrow> mode = Remote \<and> st \<noteq> Held)"

lemma ctl_inv_split:
  "ctl_inv a \<longleftrightarrow>
     grant_inv (ca_key a) (ca_state a) (ca_mode a) (ca_watchdog a) (ca_generation a)
       (ca_primary a) (ca_revocation a) (ca_taking_back a) \<and>
     (ca_mode a = Remote \<longrightarrow> ca_sessions a = []) \<and>
     sessions_ok (ca_generation a) (ca_max_sessions_per_client a) (ca_sessions a) \<and>
     (ca_sessions a \<noteq> [] \<longrightarrow> ca_session_watchdog a)"
  unfolding ctl_inv_def grant_inv_def by blast

lemma end_session_inv:
  assumes "ctl_inv a"
  shows "ctl_inv (end_session own a)"
proof -
  have "ca_sessions a = [] \<Longrightarrow> ca_sessions (end_session own a) = []" by simp
  moreover have "ca_sessions (end_session own a) \<noteq> [] \<longrightarrow> ca_session_watchdog (end_session own a)"
    using end_session_watchdog [of a own] assms unfolding ctl_inv_split by blast
  moreover have "sessions_ok (ca_generation a) (ca_max_sessions_per_client a)
      (ca_sessions (end_session own a))"
    using assms by (simp add: ctl_inv_split sessions_ok_filter)
  ultimately show ?thesis
    using assms unfolding ctl_inv_split end_session_frame by blast
qed

lemma end_sessions_inv: "ctl_inv a \<Longrightarrow> ctl_inv (end_sessions owners a)"
  by (induction owners arbitrary: a) (auto intro: end_session_inv)

lemma revoke_inv: "ctl_inv a \<Longrightarrow> ctl_inv (revoke a)"
proof -
  assume inv: "ctl_inv a"
  show ?thesis
  proof (cases "ca_mode a")
    case Local
    with inv show ?thesis
      by (auto simp: revoke_def ctl_inv_split grant_inv_def dest: sessions_ok_Nil)
  next
    case Remote
    with inv show ?thesis
      by (auto simp: revoke_def ctl_inv_split grant_inv_def dest: sessions_ok_Nil)
  qed
qed

lemma ctl_expire_inv: "ctl_inv a \<Longrightarrow> ctl_inv (expire now a)"
  by (simp add: expire_def Let_def end_sessions_inv revoke_inv)

lemma revoke_generation: "ca_generation a \<le> ca_generation (revoke a)"
  by (simp add: revoke_def)

lemma expire_generation: "ca_generation a \<le> ca_generation (expire now a)"
  by (simp add: expire_def Let_def revoke_generation)

subsection \<open>Every operation\<close>

lemma ctl_inv_quiet_fields [simp]:
  "ctl_inv (a\<lparr>ca_next_ref := n\<rparr>) = ctl_inv a" "ctl_inv (a\<lparr>ca_channels := chs\<rparr>) = ctl_inv a"
  "ctl_inv (a\<lparr>ca_controls := cs\<rparr>) = ctl_inv a" "ctl_inv (a\<lparr>ca_audio := au\<rparr>) = ctl_inv a"
  "ctl_inv (a\<lparr>ca_audio_revoking := r\<rparr>) = ctl_inv a" "ctl_inv (a\<lparr>ca_deadline := d\<rparr>) = ctl_inv a"
  by (simp_all add: ctl_inv_split)

lemma update_session_fields [simp]:
  "ca_generation (update_session own f a) = ca_generation a"
  by (simp add: update_session_def)

lemma update_session_inv:
  assumes inv: "ctl_inv a"
    and client: "\<And>s. se_client (f s) = se_client s"
    and primary: "\<And>s t. se_primary (f s) = Some t \<Longrightarrow>
      se_primary s = Some t \<or> tk_generation t = ca_generation a \<and> tk_tx_owner t = Some own"
  shows "ctl_inv (update_session own f a)"
proof -
  let ?up = "map (\<lambda>(o', s). (o', if o' = own then f s else s))"
  have "map fst (?up xs) = map fst xs" for xs :: "(string \<times> session) list"
    by (induction xs) auto
  moreover have "client_count c (?up xs) = client_count c xs" for c xs
    using client by (induction xs) (auto simp: client_count_def split: if_splits)
  ultimately have "sessions_ok (ca_generation a) (ca_max_sessions_per_client a) (?up (ca_sessions a))"
    unfolding sessions_ok_def
  proof (intro conjI allI)
    assume fst: "\<And>xs. map fst (?up xs) = map fst xs"
      and count: "\<And>c xs. client_count c (?up xs) = client_count c xs"
    have ok: "sessions_ok (ca_generation a) (ca_max_sessions_per_client a) (ca_sessions a)"
      using inv by (simp add: ctl_inv_split)
    show "distinct (map fst (?up (ca_sessions a)))"
      unfolding fst using ok by (simp add: sessions_ok_def)
    show "int (client_count c (?up (ca_sessions a))) \<le> ca_max_sessions_per_client a" for c
      unfolding count using ok by (simp add: sessions_ok_def)
    show "\<forall>(o', s)\<in>set (?up (ca_sessions a)). \<forall>t. se_primary s = Some t \<longrightarrow>
        tk_generation t = ca_generation a \<and> tk_tx_owner t = Some o'"
    proof (clarsimp)
      fix o' s t
      assume "(o', s) \<in> set (ca_sessions a)" "se_primary (if o' = own then f s else s) = Some t"
      then show "tk_generation t = ca_generation a \<and> tk_tx_owner t = Some o'"
        using ok primary [of s t] unfolding sessions_ok_def by (fastforce split: if_splits)
    qed
  qed
  then show ?thesis
    using inv by (simp add: ctl_inv_split update_session_def)
qed

lemma validate_state [simp]: "snd (validate t now a) = expire now a"
  by (simp add: validate_def Let_def)

lemma validate_cases:
  obtains (bad) "validate t now a = (Inl controller_invalid, expire now a)"
      "\<not> ticket_current (expire now a) t"
    | (good) "validate t now a = (Inr (), expire now a)" "ticket_current (expire now a) t"
  by (cases "ticket_current (expire now a) t") (auto simp: validate_def Let_def)

lemma credential_inv: "ctl_inv a \<Longrightarrow> ctl_inv (snd (credential key now a))"
  by (auto simp: credential_def Let_def ctl_expire_inv ticket_result_def new_ticket_def
      split: option.split)

text \<open>A credential ticket carries the current generation, and its owner is a live session.\<close>

lemma credential_Inr:
  assumes "credential key now a = (Inr t, a')"
  shows "tk_generation t = ca_generation a' \<and> ca_generation a' = ca_generation (expire now a) \<and>
    ca_sessions a' = ca_sessions (expire now a) \<and> ca_mode a' = ca_mode (expire now a) \<and>
    ca_state a' = ca_state (expire now a) \<and> ca_key a' = ca_key (expire now a) \<and>
    tk_authority t = ca_self (expire now a) \<and>
    (tk_tx_owner t = None \<longrightarrow> ca_state a' = Held \<and> ca_mode a' = Remote \<and> tk_remote t \<and>
       ca_key a' = Some key) \<and>
    (\<forall>own. tk_tx_owner t = Some own \<longrightarrow> own \<in> fst ` set (ca_sessions a') \<and> \<not> tk_remote t)"
proof -
  let ?a = "expire now a"
  have bad: "length key = 64 \<and> isascii key"
    using assms by (auto simp: credential_def Let_def split: if_splits)
  show ?thesis
  proof (cases "ca_mode ?a")
    case Local
    obtain own s where found: "List.find (\<lambda>(_, s). se_key s = key) (ca_sessions ?a) = Some (own, s)"
      using assms bad Local by (auto simp: credential_def Let_def split: option.splits)
    then have "(own, s) \<in> set (ca_sessions ?a)" by (auto simp: find_Some_iff in_set_conv_nth)
    then have "own \<in> fst ` set (ca_sessions ?a)" by force
    moreover have "a' = ?a\<lparr>ca_next_ref := ca_next_ref ?a + 1\<rparr>"
        "t = fst (new_ticket ?a (ca_generation ?a) False None False (Some own))"
      using assms bad Local found
      by (simp_all add: credential_def Let_def ticket_result_def new_ticket_def)
    ultimately show ?thesis by (simp add: new_ticket_def)
  next
    case Remote
    then show ?thesis
      using assms bad
      by (auto simp: credential_def Let_def ticket_result_def new_ticket_def split: if_splits)
  qed
qed

lemma attach_inv:
  assumes "ctl_inv a"
  shows "ctl_inv (snd (attach key role sid now a))"
proof (cases "credential key now a")
  case (Pair r a')
  have inv: "ctl_inv a'" using credential_inv [OF assms, of key now] Pair by simp
  show ?thesis
  proof (cases r)
    case (Inl e)
    then show ?thesis using Pair inv by (simp add: attach_def)
  next
    case (Inr grant)
    note cred = credential_Inr [OF Pair [unfolded Inr]]
    show ?thesis
    proof (cases "tk_tx_owner grant")
      case None
      with cred inv have "ctl_inv (a'\<lparr>ca_next_ref := n, ca_primary := Some t\<rparr>)" for n t
        by (auto simp: ctl_inv_split grant_inv_def)
      then show ?thesis
        using Pair Inr inv None by (simp add: attach_def Let_def new_ticket_def)
    next
      case (Some own)
      with cred inv have "ctl_inv (update_session own (\<lambda>s. s\<lparr>se_primary := Some t\<rparr>) (a'\<lparr>ca_next_ref := n\<rparr>))"
        if "tk_generation t = ca_generation a'" "tk_tx_owner t = Some own" for n t
        using that by (intro update_session_inv) auto
      then show ?thesis
        using Pair Inr inv Some cred by (simp add: attach_def Let_def new_ticket_def)
    qed
  qed
qed

lemma validating_inv:
  assumes "ctl_inv a" and "\<And>a'. ctl_inv a' \<Longrightarrow> ctl_inv (snd (f a'))"
  shows "ctl_inv (snd (case validate t now a of (Inl e, a') \<Rightarrow> (Inl e, a') | (Inr u, a') \<Rightarrow> f a'))"
  using assms ctl_expire_inv [OF assms(1), of now]
  by (cases rule: validate_cases [of t now a]) simp_all

lemma heartbeat_inv: "ctl_inv a \<Longrightarrow> ctl_inv (snd (heartbeat t now a))"
  unfolding heartbeat_def
  by (rule validating_inv)
     (auto simp: Let_def split: option.split intro: update_session_inv)

lemma add_channel_inv: "ctl_inv a \<Longrightarrow> ctl_inv (snd (add_channel t c now a))"
  unfolding add_channel_def
  by (rule validating_inv) (auto split: option.split intro: update_session_inv)

lemma simple_validating_inv:
  assumes "ctl_inv a"
  shows "ctl_inv (snd (validate_positive t r now a))"
    and "ctl_inv (snd (register_control t now a))"
    and "ctl_inv (snd (claim_audio t src now a))"
  using assms unfolding validate_positive_def register_control_def claim_audio_def
  by (rule validating_inv; auto split: option.split)+

lemma audio_matches_inv: "ctl_inv a \<Longrightarrow> ctl_inv (snd (audio_matches t src own now a))"
  unfolding audio_matches_def
proof (rule validating_inv)
  fix a'
  assume inv: "ctl_inv a'"
  note bound_inv = validating_inv [OF inv]
  show "ctl_inv (snd (case (ca_controls a' own, ca_audio a') of
      (Some control, Some (_, _, bound)) \<Rightarrow>
        if ca_audio_revoking a' \<or> \<not> audio_is a' t src then (Inr False, a')
        else (case validate control now a' of
                (Inl e, a1) \<Rightarrow> (Inl e, a1)
              | (Inr _, a1) \<Rightarrow>
                  if bound \<noteq> None \<and> bound \<noteq> Some own then (Inr False, a1)
                  else (Inr True, a1\<lparr>ca_audio := Some (t, src, Some own)\<rparr>))
    | _ \<Rightarrow> (Inr False, a')))"
    using inv by (auto split: option.split intro!: bound_inv)
qed

lemma fence_audio_inv: "ctl_inv a \<Longrightarrow> ctl_inv (snd (fence_audio t src now a))"
  by (cases rule: validate_cases [of t now "a\<lparr>ca_audio_revoking := True\<rparr>"])
     (auto simp: fence_audio_def ctl_expire_inv)

lemma release_audio_inv: "ctl_inv a \<Longrightarrow> ctl_inv (snd (release_audio t src now a))"
  by (cases rule: validate_cases [of t now "a\<lparr>ca_audio := None, ca_audio_revoking := False\<rparr>"])
     (auto simp: release_audio_def ctl_expire_inv)

lemma capture_inv: "ctl_inv a \<Longrightarrow> ctl_inv (snd (capture cur now a))"
proof -
  assume inv: "ctl_inv a"
  define p where "p = (case cur of
           Some t \<Rightarrow> if tk_authority t \<noteq> ca_self a
                     then new_ticket a (ca_generation a) False None False None else (t, a)
         | None \<Rightarrow> new_ticket a (ca_generation a) False None False None)"
  have "ctl_inv (snd p)" using inv by (auto simp: p_def new_ticket_def split: option.split)
  then show ?thesis
    unfolding capture_def p_def [symmetric]
    by (cases p; cases rule: validate_cases [of "fst p" now "snd p"]) (auto simp: ctl_expire_inv)
qed

lemma detach_inv: "ctl_inv a \<Longrightarrow> ctl_inv (detach t a)"
  by (auto simp: detach_def Let_def split: option.split
      intro!: end_session_inv revoke_inv update_session_inv)

lemma release_grant_inv: "ctl_inv a \<Longrightarrow> ctl_inv (snd (release_grant key now a))"
  using credential_inv [of a key now]
  by (cases "credential key now a")
     (auto simp: release_grant_def split: sum.split option.split intro: end_session_inv revoke_inv)

lemma set_mode_inv: "ctl_inv a \<Longrightarrow> ctl_inv (snd (set_mode mode ready a))"
  by (cases "ca_mode a"; cases "ca_state a")
     (auto simp: set_mode_def Let_def mode_text_def revoke_def ctl_inv_split grant_inv_def
       dest: sessions_ok_Nil)

lemma set_mode_settled_inv:
  "ctl_inv a \<Longrightarrow> ca_taking_back a \<Longrightarrow> (settled \<longrightarrow> ca_revocation a = None) \<Longrightarrow>
   ctl_inv (snd (set_mode_settled settled ready a))"
  by (auto simp: set_mode_settled_def ctl_inv_split grant_inv_def dest: sessions_ok_Nil)

lemma cleanup_done_inv: "ctl_inv a \<Longrightarrow> ctl_inv (cleanup_done safe a)"
  by (cases "ca_mode a") (auto simp: cleanup_done_def ctl_inv_split grant_inv_def split: option.split)

lemma client_count_update:
  "client_count c (AList.update own s xs)
     \<le> client_count c xs + (if se_client s = Some c then 1 else 0)"
  by (induction xs) (auto simp: client_count_def)

lemma set_update_subset: "set (AList.update own s xs) \<subseteq> insert (own, s) (set xs)"
  by (induction xs) auto

lemma open_session_inv:
  assumes "ctl_inv a" and "ca_mode a = Local"
  shows "ctl_inv (snd (open_session client tok key now a))"
proof (cases "fst (open_session client tok key now a)")
  case (Inl e)
  then show ?thesis using assms by (auto simp: open_session_def Let_def split: if_splits)
next
  case (Inr g)
  define s where "s = \<lparr>se_key = key, se_deadline = now + ttl, se_primary = None, se_channels = [],
      se_client = client\<rparr>"
  let ?xs = "AList.update (''controller-session-'' @ tok) s (ca_sessions a)"
  have room: "client = Some c \<Longrightarrow> int (client_count c (ca_sessions a)) < ca_max_sessions_per_client a" for c
    using Inr by (auto simp: open_session_def Let_def client_count_def split: if_splits)
  have ok: "sessions_ok (ca_generation a) (ca_max_sessions_per_client a) (ca_sessions a)"
    using assms by (simp add: ctl_inv_split)
  have "int (client_count c ?xs) \<le> ca_max_sessions_per_client a" for c
  proof -
    have "int (client_count c (ca_sessions a)) \<le> ca_max_sessions_per_client a"
      using ok by (simp add: sessions_ok_def)
    then show ?thesis
      using client_count_update [of c "''controller-session-'' @ tok" s "ca_sessions a"] room [of c]
      by (cases "client = Some c"; simp add: s_def; linarith)
  qed
  moreover have "set ?xs \<subseteq> insert (''controller-session-'' @ tok, s) (set (ca_sessions a))"
    by (rule set_update_subset)
  moreover have "distinct (map fst ?xs)"
    using ok distinct_update [of "ca_sessions a"] by (simp add: sessions_ok_def)
  ultimately have "sessions_ok (ca_generation a) (ca_max_sessions_per_client a) ?xs"
    using ok unfolding sessions_ok_def by (fastforce simp: s_def)
  moreover have "snd (open_session client tok key now a) =
      a\<lparr>ca_sessions := ?xs, ca_session_watchdog := True\<rparr>"
    using Inr by (auto simp: open_session_def Let_def s_def split: if_splits)
  ultimately show ?thesis using assms by (simp add: ctl_inv_split)
qed

lemma acquire_inv: "ctl_inv a \<Longrightarrow> ctl_inv (snd (acquire kind client tok key ready now a))"
proof -
  assume "ctl_inv a"
  then have inv: "ctl_inv (expire now a)" by (rule ctl_expire_inv)
  show ?thesis
  proof (cases "ca_mode (expire now a)")
    case Local
    with inv show ?thesis by (simp add: acquire_def Let_def open_session_inv)
  next
    case Remote
    with inv show ?thesis
      by (cases "ca_state (expire now a)")
         (auto simp: acquire_def Let_def ctl_inv_split grant_inv_def sessions_ok_Nil
           dest: sessions_ok_Nil)
  qed
qed

lemma ctl_step_inv: "ctl_inv a \<Longrightarrow> ctl_inv (ctl_step a op)"
  by (cases op)
     (simp_all add: acquire_inv credential_inv attach_inv capture_inv ctl_expire_inv
       simple_validating_inv heartbeat_inv add_channel_inv audio_matches_inv fence_audio_inv
       release_audio_inv detach_inv disconnect_control_def release_grant_inv revoke_inv
       set_mode_inv set_mode_settled_inv cleanup_done_inv status_def Let_def
       split: option.split)

subsection \<open>The generation\<close>

text \<open>What no operation turns back or changes.\<close>

definition ahead :: "authority \<Rightarrow> authority \<Rightarrow> bool" where
  "ahead a b \<longleftrightarrow> ca_generation a \<le> ca_generation b \<and> ca_self b = ca_self a \<and>
     ca_max_sessions_per_client b = ca_max_sessions_per_client a \<and>
     ca_has_release_session b = ca_has_release_session a"

lemma ahead_refl [simp]: "ahead a a"
  by (simp add: ahead_def)

lemma ahead_trans: "ahead a b \<Longrightarrow> ahead b c \<Longrightarrow> ahead a c"
  by (simp add: ahead_def)

lemma ahead_updates [simp]:
  "ahead a (b\<lparr>ca_next_ref := n\<rparr>) = ahead a b" "ahead a (b\<lparr>ca_channels := chs\<rparr>) = ahead a b"
  "ahead a (b\<lparr>ca_controls := cs\<rparr>) = ahead a b" "ahead a (b\<lparr>ca_audio := au\<rparr>) = ahead a b"
  "ahead a (b\<lparr>ca_audio_revoking := r\<rparr>) = ahead a b" "ahead a (b\<lparr>ca_deadline := d\<rparr>) = ahead a b"
  "ahead a (b\<lparr>ca_primary := t\<rparr>) = ahead a b" "ahead a (update_session own f b) = ahead a b"
  "ahead a (end_session own b) = ahead a b" "ahead a (end_sessions owners b) = ahead a b"
  by (simp_all add: ahead_def update_session_def)

lemma ahead_revoke: "ahead a b \<Longrightarrow> ahead a (revoke b)"
  by (auto simp: ahead_def revoke_def)

lemma ahead_expire: "ahead a b \<Longrightarrow> ahead a (expire now b)"
  by (simp add: expire_def Let_def ahead_revoke)

lemma ahead_validating:
  assumes "\<And>b. ahead a b \<Longrightarrow> ahead a (snd (f b))" and "ahead a b"
  shows "ahead a (snd (case validate t now b of (Inl e, a') \<Rightarrow> (Inl e, a') | (Inr u, a') \<Rightarrow> f a'))"
  using assms ahead_expire [OF assms(2), of now]
  by (cases rule: validate_cases [of t now b]) simp_all

lemma ahead_credential: "ahead a b \<Longrightarrow> ahead a (snd (credential key now b))"
  by (auto simp: credential_def Let_def ahead_expire ticket_result_def new_ticket_def
      split: option.split)

lemma ahead_attach: "ahead a b \<Longrightarrow> ahead a (snd (attach key role sid now b))"
  using ahead_credential [of a b key now]
  by (cases "credential key now b")
     (auto simp: attach_def Let_def new_ticket_def split: sum.split option.split)

lemma ahead_capture: "ahead a b \<Longrightarrow> ahead a (snd (capture cur now b))"
proof -
  assume h: "ahead a b"
  define p where "p = (case cur of
           Some t \<Rightarrow> if tk_authority t \<noteq> ca_self b
                     then new_ticket b (ca_generation b) False None False None else (t, b)
         | None \<Rightarrow> new_ticket b (ca_generation b) False None False None)"
  have "ahead a (snd p)" using h by (auto simp: p_def new_ticket_def split: option.split)
  then show ?thesis
    unfolding capture_def p_def [symmetric]
    by (cases p; cases rule: validate_cases [of "fst p" now "snd p"]) (auto simp: ahead_expire)
qed

lemma ahead_validators:
  assumes "ahead a b"
  shows "ahead a (snd (heartbeat t now b))" "ahead a (snd (add_channel t c now b))"
    "ahead a (snd (validate_positive t r now b))" "ahead a (snd (register_control t now b))"
    "ahead a (snd (claim_audio t src now b))"
  using assms unfolding heartbeat_def add_channel_def validate_positive_def register_control_def
    claim_audio_def
  by (rule ahead_validating [rotated]; auto simp: Let_def split: option.split)+

lemma ahead_audio:
  assumes "ahead a b"
  shows "ahead a (snd (audio_matches t src own now b))"
    and "ahead a (snd (fence_audio t src now b))" and "ahead a (snd (release_audio t src now b))"
proof -
  show "ahead a (snd (audio_matches t src own now b))"
    using assms unfolding audio_matches_def
    by (rule ahead_validating [rotated])
       (auto split: option.split intro!: ahead_validating)
  show "ahead a (snd (fence_audio t src now b))"
    using assms by (cases rule: validate_cases [of t now "b\<lparr>ca_audio_revoking := True\<rparr>"])
      (auto simp: fence_audio_def ahead_expire)
  show "ahead a (snd (release_audio t src now b))"
    using assms
    by (cases rule: validate_cases [of t now "b\<lparr>ca_audio := None, ca_audio_revoking := False\<rparr>"])
       (auto simp: release_audio_def ahead_expire)
qed

lemma ahead_detach: "ahead a b \<Longrightarrow> ahead a (detach t b)"
  by (auto simp: detach_def Let_def ahead_revoke split: option.split)

lemma ahead_release: "ahead a b \<Longrightarrow> ahead a (snd (release_grant key now b))"
  using ahead_credential [of a b key now]
  by (cases "credential key now b")
     (auto simp: release_grant_def ahead_revoke split: sum.split option.split)

lemma ahead_acquire: "ahead a b \<Longrightarrow> ahead a (snd (acquire kind client tok key ready now b))"
  using ahead_expire [of a b now]
  by (auto simp: acquire_def open_session_def Let_def ahead_def)

lemma ahead_modes:
  assumes "ahead a b"
  shows "ahead a (snd (set_mode mode ready b))"
    and "ahead a (snd (set_mode_settled settled ready b))"
    and "ahead a (cleanup_done safe b)"
  using assms ahead_revoke [of a "b\<lparr>ca_taking_back := True\<rparr>"]
  by (auto simp: set_mode_def set_mode_settled_def cleanup_done_def Let_def ahead_def
      split: option.split)

lemma ctl_step_ahead: "ahead a (ctl_step a op)"
  by (cases op)
     (simp_all add: ahead_acquire ahead_credential ahead_attach ahead_capture ahead_expire
       ahead_validators ahead_audio ahead_detach disconnect_control_def ahead_release ahead_revoke
       ahead_modes status_def Let_def split: option.split)

interpretation controller: epoch_system ctl_step ctl_inv ca_generation
proof
  show "ctl_inv a \<Longrightarrow> ctl_inv (ctl_step a op)" for a op by (rule ctl_step_inv)
  show "ca_generation a \<le> ca_generation (ctl_step a op)" for a op
    using ctl_step_ahead [of a op] by (simp add: ahead_def)
qed

subsection \<open>What ending a session does\<close>

definition session_effects :: "bool \<Rightarrow> string \<times> session \<Rightarrow> ctl_effect list" where
  "session_effects rel p =
     map CloseChannel (map snd (se_channels (snd p))) @ (if rel then [ReleaseTx (fst p)] else [])"

lemma end_sessions_log:
  assumes "distinct (map fst ps)" and "\<forall>p\<in>set ps. map_of (ca_sessions a) (fst p) = Some (snd p)"
  shows "ca_log (end_sessions (map fst ps) a) =
    ca_log a @ concat (map (session_effects (ca_has_release_session a)) ps)"
  using assms
proof (induction ps arbitrary: a)
  case Nil
  then show ?case by simp
next
  case (Cons p ps)
  have keep: "map_of (filter (\<lambda>(o', _). o' \<noteq> fst p) xs) k = map_of xs k" if "k \<noteq> fst p"
    for k and xs :: "(string \<times> session) list"
    using that by (induction xs) auto
  have "\<forall>q\<in>set ps. map_of (ca_sessions (end_session (fst p) a)) (fst q) = Some (snd q)"
    using Cons.prems keep by (simp add: image_iff) metis
  then have "ca_log (end_sessions (map fst ps) (end_session (fst p) a)) =
      ca_log (end_session (fst p) a) @ concat (map (session_effects (ca_has_release_session a)) ps)"
    using Cons.IH [of "end_session (fst p) a"] Cons.prems by simp
  moreover have "ca_log (end_session (fst p) a) =
      ca_log a @ session_effects (ca_has_release_session a) p"
    using Cons.prems(2) by (simp add: end_session_def Let_def session_effects_def)
  ultimately show ?case by simp
qed

text \<open>The sessions whose deadline has come.\<close>

definition due_sessions :: "time \<Rightarrow> authority \<Rightarrow> (string \<times> session) list" where
  "due_sessions now a = filter (\<lambda>(_, s). now \<ge> se_deadline s) (ca_sessions a)"

lemma expire_local:
  assumes "ctl_inv a" and "ca_mode a = Local"
  shows "expire now a = end_sessions (map fst (due_sessions now a)) a"
  using assms by (auto simp: expire_def Let_def due_sessions_def ctl_inv_split grant_inv_def)

lemma remaining_sessions:
  assumes "distinct (map fst xs)"
  shows "filter (\<lambda>(o', _). o' \<notin> fst ` set (filter (\<lambda>(_, s). P s) xs)) xs =
    filter (\<lambda>(_, s). \<not> P s) xs"
proof (rule filter_cong [OF refl], clarify)
  fix k v
  assume kv: "(k, v) \<in> set xs"
  have "k \<in> fst ` set (filter (\<lambda>(_, s). P s) xs) \<longleftrightarrow> (\<exists>v'. (k, v') \<in> set xs \<and> P v')"
    by force
  also have "\<dots> \<longleftrightarrow> P v"
    using kv eq_key_imp_eq_value [OF assms kv] by blast
  finally show "k \<notin> fst ` set (filter (\<lambda>(_, s). P s) xs) \<longleftrightarrow> \<not> P v" by simp
qed

lemma run_new_inv: "authority_new self mx rel = Inr a0 \<Longrightarrow> ctl_inv (run ctl_step a0 ops)"
  by (rule controller.run_inv) (rule ctl_inv_new)

lemma run_max: "ca_max_sessions_per_client (run ctl_step a ops) = ca_max_sessions_per_client a"
proof (induction ops arbitrary: a)
  case (Cons op ops)
  then show ?case using ctl_step_ahead [of a op] by (simp add: ahead_def)
qed simp

section \<open>Properties\<close>

text \<open>
  After any sequence of calls, ticks and task completions: a key exists exactly while a
  grant is held, a held grant is in remote mode and watched by a watchdog of its own
  generation, sessions exist in local mode only and are watched, session owners are distinct,
  and no client holds more sessions than the bound given to the constructor.
\<close>

theorem controller_well_formed:
  assumes "authority_new self mx rel = Inr a0" and "a = run ctl_step a0 ops"
  shows "(ca_key a \<noteq> None \<longleftrightarrow> ca_state a = Held) \<and>
    (ca_state a = Held \<longrightarrow> ca_mode a = Remote \<and> ca_watchdog a = Some (ca_generation a)) \<and>
    (ca_mode a = Remote \<longrightarrow> ca_sessions a = []) \<and>
    (ca_sessions a \<noteq> [] \<longrightarrow> ca_session_watchdog a) \<and>
    distinct (map fst (ca_sessions a)) \<and>
    int (client_count c (ca_sessions a)) \<le> mx"
proof -
  have inv: "ctl_inv a" using run_new_inv [OF assms(1)] assms(2) by simp
  moreover have "ca_max_sessions_per_client a = mx"
    using assms by (auto simp: run_max authority_new_def split: if_splits)
  ultimately show ?thesis
    unfolding ctl_inv_split grant_inv_def sessions_ok_def by auto
qed

text \<open>
  Revocation is final: a ticket that is valid when \<open>revoke\<close> runs is refused by every later
  validation, whatever calls, new sessions and mode changes follow.
\<close>

theorem revoked_ticket_never_valid:
  assumes "authority_new self mx rel = Inr a0" and "a = run ctl_step a0 ops"
    and "ticket_current a t"
  shows "\<not> ticket_current (run ctl_step (revoke a) later) t \<and>
    fst (validate t now (run ctl_step (revoke a) later)) = Inl controller_invalid"
proof -
  have inv: "ctl_inv a" using run_new_inv [OF assms(1)] assms(2) by simp
  then have inv': "ctl_inv (revoke a)" by (rule revoke_inv)
  have "tk_generation t < ca_generation (revoke a)"
    using assms(3) by (auto simp: ticket_current_def revoke_def)
  then have stale: "\<not> ticket_current (run ctl_step (revoke a) es) t" for es
    using controller.stale_forever [OF inv', of "tk_generation t" es]
    by (auto simp: ticket_current_def)
  have "\<not> ticket_current (expire now (run ctl_step (revoke a) later)) t"
    using stale [of "later @ [Tick now]"] by simp
  then show ?thesis using stale [of later] by (simp add: validate_def Let_def)
qed

text \<open>
  C35. Sessions are isolated: when time passes in local mode, exactly the sessions whose
  deadline has come end; their channels are closed and their transmitter released once each,
  in order, and nothing else happens. The generation stays, so the tickets of every other
  session stay valid, and those of an ended session do not.
\<close>

theorem sessions_expire_alone:
  assumes "authority_new self mx rel = Inr a0" and "a = run ctl_step a0 ops"
    and "ca_mode a = Local"
  shows "ca_sessions (expire now a) = filter (\<lambda>(_, s). now < se_deadline s) (ca_sessions a) \<and>
    ca_log (expire now a) =
      ca_log a @ concat (map (session_effects (ca_has_release_session a)) (due_sessions now a)) \<and>
    ca_generation (expire now a) = ca_generation a \<and>
    (tk_tx_owner t = Some own \<longrightarrow> ticket_current a t \<longrightarrow>
       (ticket_current (expire now a) t \<longleftrightarrow> own \<notin> fst ` set (due_sessions now a)))"
proof -
  have inv: "ctl_inv a" using run_new_inv [OF assms(1)] assms(2) by simp
  then have dist: "distinct (map fst (ca_sessions a))"
    by (simp add: ctl_inv_split sessions_ok_def)
  note ex = expire_local [OF inv assms(3), of now]
  have "ca_sessions (expire now a) = filter (\<lambda>(_, s). now < se_deadline s) (ca_sessions a)"
    using remaining_sessions [OF dist, of "\<lambda>s. se_deadline s \<le> now"]
    by (simp add: ex due_sessions_def not_le)
  moreover have "ca_log (expire now a) =
      ca_log a @ concat (map (session_effects (ca_has_release_session a)) (due_sessions now a))"
    unfolding ex
    using dist by (intro end_sessions_log)
      (auto simp: due_sessions_def distinct_map_filter intro: map_of_is_SomeI)
  moreover have "ticket_current (expire now a) t \<longleftrightarrow> own \<notin> fst ` set (due_sessions now a)"
    if "tk_tx_owner t = Some own" "ticket_current a t"
    using that assms(3) by (auto simp: ex ticket_current_def image_iff)
  moreover have "ca_generation (expire now a) = ca_generation a" by (simp add: ex)
  ultimately show ?thesis by blast
qed

text \<open>
  The remote grant is exclusive: it is given only when none is held, the cleanup of the
  previous one has ended safely and the radio is ready; until its deadline every other request
  is refused as busy, and only its own key is accepted as a credential.
\<close>

theorem remote_grant_is_exclusive:
  assumes "authority_new self mx rel = Inr a0" and "a = run ctl_step a0 ops"
    and "ca_mode a = Remote" and "acquire kind client tok key ready now a = (Inr g, b)"
  shows "ca_state (expire now a) = Idle \<and> ca_revocation b = None \<and> ready \<and> ca_state b = Held \<and>
    ca_deadline b = now + ttl \<and>
    (now' < now + ttl \<longrightarrow>
       fst (acquire ''browser'' client' tok' key' ready' now' b) =
         Inl (ControllerError ''controller_busy'' 409) \<and>
       ((\<exists>t. fst (credential key' now' b) = Inr t) \<longleftrightarrow>
          key' = key \<and> length key' = 64 \<and> isascii key'))"
proof -
  have inv: "ctl_inv a" using run_new_inv [OF assms(1)] assms(2) by simp
  then have inv': "ctl_inv (expire now a)" by (rule ctl_expire_inv)
  have remote: "ca_mode (expire now a) = Remote"
    using assms(3) by (simp add: expire_def Let_def revoke_def)
  with inv' have none: "ca_sessions (expire now a) = []" by (simp add: ctl_inv_split)
  have got: "ca_state (expire now a) = Idle \<and> ready \<and>
      b = (expire now a)\<lparr>ca_generation := ca_generation (expire now a) + 1, ca_key := Some key,
        ca_deadline := now + ttl, ca_state := Held,
        ca_watchdog := Some (ca_generation (expire now a) + 1)\<rparr>"
    using assms(4) remote
    by (cases "ca_state (expire now a)") (auto simp: acquire_def Let_def split: if_splits)
  have rev: "ca_revocation (expire now a) = None"
    using inv' got by (auto simp: ctl_inv_split grant_inv_def)
  have same: "expire now' b = b" if "now' < now + ttl"
    using got that none by (simp add: expire_def Let_def not_le [symmetric])
  show ?thesis
    using got rev same remote
    by (auto simp: acquire_def credential_def Let_def ticket_result_def new_ticket_def)
qed

text \<open>
  A heartbeat of a session's primary ticket keeps exactly that session for six more
  seconds: it is there at every clock reading before the new deadline and ended at any reading
  from it on, and no other session's deadline moves.
\<close>

theorem heartbeat_extends_one_session:
  assumes "authority_new self mx rel = Inr a0" and "a = run ctl_step a0 ops"
    and "heartbeat t now a = (Inr g, b)" and "tk_tx_owner t = Some own"
  shows "(own \<in> fst ` set (ca_sessions (expire now' b)) \<longleftrightarrow> now' < now + ttl) \<and>
    (own' \<noteq> own \<longrightarrow> map_of (ca_sessions b) own' = map_of (ca_sessions (expire now a)) own')"
proof -
  let ?a = "expire now a" and ?f = "\<lambda>s. s\<lparr>se_deadline := now + ttl\<rparr>"
  have inv: "ctl_inv a" using run_new_inv [OF assms(1)] assms(2) by simp
  have b: "b = update_session own ?f ?a" and live: "own \<in> fst ` set (ca_sessions ?a)"
    using assms(3,4)
    by (cases rule: validate_cases [of t now a];
        simp add: heartbeat_def missing_session_def Let_def split: if_splits)+
  obtain s where s: "(own, s) \<in> set (ca_sessions ?a)" using live by force
  have local: "ca_mode ?a = Local"
    using s ctl_expire_inv [OF inv, of now] by (cases "ca_mode ?a") (auto simp: ctl_inv_split)
  have b_inv: "ctl_inv b" unfolding b
    by (rule update_session_inv [OF ctl_expire_inv [OF inv]]) auto
  have b_local: "ca_mode b = Local" using local by (simp add: b update_session_def)
  have dist: "distinct (map fst (ca_sessions b))"
    using b_inv by (simp add: ctl_inv_split sessions_ok_def)
  have own: "(own, s') \<in> set (ca_sessions b) \<longleftrightarrow> (\<exists>s. (own, s) \<in> set (ca_sessions ?a) \<and> s' = ?f s)"
    for s' by (force simp: b update_session_def)
  have "ca_sessions (expire now' b) = filter (\<lambda>(_, s). now' < se_deadline s) (ca_sessions b)"
    using remaining_sessions [OF dist, of "\<lambda>s. se_deadline s \<le> now'"]
    by (simp add: expire_local [OF b_inv b_local] due_sessions_def not_le)
  then have "own \<in> fst ` set (ca_sessions (expire now' b)) \<longleftrightarrow> now' < now + ttl"
    using own s by (fastforce simp: image_iff)
  moreover have "map_of (map (\<lambda>(o', s). (o', if o' = own then ?f s else s)) xs) own' = map_of xs own'"
    if "own' \<noteq> own" for xs :: "(string \<times> session) list"
    using that by (induction xs) auto
  ultimately show ?thesis by (simp add: b update_session_def)
qed

section \<open>Witnesses\<close>

definition demo_base :: authority where
  "demo_base = (case authority_new 0 2 True of Inr a \<Rightarrow> a | Inl _ \<Rightarrow> undefined)"

lemma demo_base_new: "authority_new 0 2 True = Inr demo_base"
  by (simp add: demo_base_def authority_new_def)

definition key_a :: string where "key_a = replicate 64 (CHR ''a'')"
definition key_b :: string where "key_b = replicate 64 (CHR ''b'')"

definition ctl_demo_ops :: "ctl_op list" where
  "ctl_demo_ops = [Acquire ''browser'' (Some ''10.0.0.1'') ''a'' key_a True 0,
     Attach key_a ''primary'' ''s1'' 0,
     Acquire ''pro'' (Some ''10.0.0.1'') ''b'' key_b True 1]"

definition demo_auth :: authority where
  "demo_auth = run ctl_step demo_base ctl_demo_ops"

definition demo_ticket :: ticket where
  "demo_ticket = \<lparr>tk_ref = 1, tk_authority = 0, tk_generation = 0, tk_remote = False,
     tk_session_id = Some ''s1'', tk_primary = True,
     tk_tx_owner = Some ''controller-session-a''\<rparr>"

lemma demo_ticket_current: "ticket_current demo_auth demo_ticket"
  by code_simp

theorem controller_well_formed_witness:
  "distinct (map fst (ca_sessions demo_auth)) \<and>
   int (client_count ''10.0.0.1'' (ca_sessions demo_auth)) \<le> 2"
  using controller_well_formed [OF demo_base_new demo_auth_def] by simp

theorem revoked_ticket_never_valid_witness:
  "fst (validate demo_ticket 2 (run ctl_step (revoke demo_auth) ctl_demo_ops)) = Inl controller_invalid"
  using revoked_ticket_never_valid [OF demo_base_new demo_auth_def demo_ticket_current] by simp

theorem sessions_expire_alone_witness:
  "ca_generation (expire 6 demo_auth) = ca_generation demo_auth \<and>
   map fst (ca_sessions (expire 6 demo_auth)) = [''controller-session-b''] \<and>
   \<not> ticket_current (expire 6 demo_auth) demo_ticket"
proof -
  have "ca_mode demo_auth = Local" by code_simp
  note alone = sessions_expire_alone [OF demo_base_new demo_auth_def this, of 6 demo_ticket
      "''controller-session-a''"]
  have "''controller-session-a'' \<in> fst ` set (due_sessions 6 demo_auth)" by code_simp
  moreover have "map fst (filter (\<lambda>(_, s). 6 < se_deadline s) (ca_sessions demo_auth)) =
      [''controller-session-b'']" by code_simp
  ultimately show ?thesis
    using alone demo_ticket_current by (simp add: demo_ticket_def)
qed

definition demo_remote :: authority where
  "demo_remote = run ctl_step demo_base [SetMode ''remote'' True]"

theorem remote_grant_is_exclusive_witness:
  "fst (acquire ''browser'' None ''x'' key_b True 5
     (snd (acquire ''pro'' None ''y'' key_a True 0 demo_remote))) =
   Inl (ControllerError ''controller_busy'' 409)"
proof -
  have remote: "ca_mode demo_remote = Remote" by code_simp
  have "acquire ''pro'' None ''y'' key_a True 0 demo_remote =
      (Inr \<lparr>gr_controller_key = key_a, gr_generation = 2, gr_ttl_ms = TTL_MS,
            gr_heartbeat_ms = HEARTBEAT_MS\<rparr>,
       snd (acquire ''pro'' None ''y'' key_a True 0 demo_remote))"
    by (rule prod_eqI) (code_simp, simp)
  note exclusive = remote_grant_is_exclusive [OF demo_base_new demo_remote_def remote this]
  have "(5 :: time) < 0 + ttl" by code_simp
  then show ?thesis using exclusive by blast
qed

theorem heartbeat_extends_one_session_witness:
  "''controller-session-a'' \<in> fst ` set (ca_sessions (expire 9 (snd (heartbeat demo_ticket 4 demo_auth))))"
proof -
  have "heartbeat demo_ticket 4 demo_auth =
      (Inr 0, snd (heartbeat demo_ticket 4 demo_auth))"
    by (rule prod_eqI) (code_simp, simp)
  moreover have "tk_tx_owner demo_ticket = Some ''controller-session-a''"
    by (simp add: demo_ticket_def)
  moreover have "(9 :: time) < 4 + ttl" by code_simp
  ultimately show ?thesis
    using heartbeat_extends_one_session [OF demo_base_new demo_auth_def] by blast
qed

end
