(* ===== verification/CommandQueue.thy ===== *)
theory CommandQueue
  imports TxInterlock ControllerRuns
begin

text \<open>
  The command queue of \<open>runtime/_poller_types.py\<close>: segments that coalesce commands of one kind,
  ordered entries as barriers between them, PTT entries ahead of the coalesced ones, and the
  controller ticket each entry is captured with.

  \<^item> The queue holds its bound \<open>ControllerAuthority\<close> (\<open>cq_controller\<close>); \<open>put\<close> captures a ticket
    from it, so a refused capture raises out of \<open>put\<close>. The context variable of the authority
    and the clock reading are arguments.
  \<^item> An entry has an identity \<open>qe_id\<close>, given by the queue's counter, for the \<open>is\<close> test of
    \<open>remove_pending\<close>. Futures, tasks and the command service are numbers. The asyncio event is
    the flag \<open>cq_notify\<close>.
  \<^item> The done callback that \<open>put_ordered\<close> registers on its future is \<open>future_cancelled\<close>.
\<close>

section \<open>Entries and segments\<close>

record queue_entry =
  qe_id :: nat
  qe_command :: "command option"
  qe_future :: "nat option"
  qe_command_id :: "string option"
  qe_source :: "string option"
  qe_session_id :: "string option"
  qe_command_service :: "nat option"
  qe_expires_at :: "time option"
  qe_provider_generation :: "int option"
  qe_connection_generation :: "nat option"
  qe_positive_tx_ready :: "nat option"
  qe_positive_tx_submission :: "nat option"
  qe_controller_ticket :: "ticket option"

datatype segment_kind = Coalesced | Ordered

datatype dedup_key = ByIntent string "field_path option" | ByType string

record segment =
  sg_kind :: segment_kind
  sg_ptt :: "queue_entry list"
  sg_dedup :: "(dedup_key \<times> queue_entry) list"
  sg_ordered :: "queue_entry list"

definition segment_coalesced :: segment where
  "segment_coalesced = \<lparr>sg_kind = Coalesced, sg_ptt = [], sg_dedup = [], sg_ordered = []\<rparr>"

definition segment_ordered_entry :: "queue_entry \<Rightarrow> segment" where
  "segment_ordered_entry entry =
     \<lparr>sg_kind = Ordered, sg_ptt = [], sg_dedup = [], sg_ordered = [entry]\<rparr>"

definition segment_has_commands :: "segment \<Rightarrow> bool" where
  "segment_has_commands sg \<longleftrightarrow> sg_ptt sg \<noteq> [] \<or> sg_dedup sg \<noteq> [] \<or> sg_ordered sg \<noteq> []"

definition segment_entries :: "segment \<Rightarrow> queue_entry list" where
  "segment_entries sg =
     (if sg_kind sg = Ordered then sg_ordered sg else sg_ptt sg @ map snd (sg_dedup sg))"

section \<open>The queue\<close>

record command_queue =
  cq_segments :: "segment list"
  cq_notify :: bool
  cq_scope_demand_generation :: int
  cq_live_sessions :: "string list option"
  cq_capture :: "nat option"
  cq_controller :: "authority option"
  cq_next_id :: nat

definition queue_new :: command_queue where
  "queue_new = \<lparr>cq_segments = [], cq_notify = False, cq_scope_demand_generation = 0,
     cq_live_sessions = None, cq_capture = None, cq_controller = None, cq_next_id = 0\<rparr>"

definition bind_controller :: "authority \<Rightarrow> command_queue \<Rightarrow> command_queue result" where
  "bind_controller controller q =
     (case cq_controller q of
        Some c \<Rightarrow> if ca_self c \<noteq> ca_self controller then Inl RuntimeError
                  else Inr (q\<lparr>cq_controller := Some c\<rparr>)
      | None \<Rightarrow> Inr (q\<lparr>cq_controller := Some controller\<rparr>))"

text \<open>The captures that are not asked for: unkeying never needs a controlling seat.\<close>

definition needs_no_ticket :: "command option \<Rightarrow> bool" where
  "needs_no_ticket cmd =
     (case cmd of
        Some (OperatingCmd PttOff) \<Rightarrow> True
      | Some (FrontCmd (SendCiv command sub data)) \<Rightarrow>
          (case send_civ_frame command sub data of
             None \<Rightarrow> False
           | Some frame \<Rightarrow> is_exact_raw_transmission_end_frame frame)
      | _ \<Rightarrow> False)"

definition controller_ticket ::
  "command option \<Rightarrow> ticket option \<Rightarrow> time \<Rightarrow> command_queue
     \<Rightarrow> ticket option result \<times> command_queue"
where
  "controller_ticket cmd current now q =
     (case cq_controller q of
        None \<Rightarrow> (Inr None, q)
      | Some c \<Rightarrow>
          if needs_no_ticket cmd then (Inr None, q)
          else (case capture current now c of
                  (Inl e, c') \<Rightarrow> (Inl e, q\<lparr>cq_controller := Some c'\<rparr>)
                | (Inr t, c') \<Rightarrow> (Inr (Some t), q\<lparr>cq_controller := Some c'\<rparr>)))"

definition bind_connection_generation :: "nat \<Rightarrow> command_queue \<Rightarrow> command_queue result" where
  "bind_connection_generation cap q =
     (if cq_capture q \<noteq> None then Inl RuntimeError else Inr (q\<lparr>cq_capture := Some cap\<rparr>))"

definition unbind_connection_generation :: "nat \<Rightarrow> command_queue \<Rightarrow> command_queue result" where
  "unbind_connection_generation cap q =
     (if cq_capture q \<noteq> Some cap then Inl RuntimeError else Inr (q\<lparr>cq_capture := None\<rparr>))"

text \<open>\<open>generation\<close> is what the bound callback returns.\<close>

definition capture_connection_generation :: "nat option \<Rightarrow> command_queue \<Rightarrow> nat result" where
  "capture_connection_generation generation q =
     (case cq_capture q of
        None \<Rightarrow> Inl RuntimeError
      | Some _ \<Rightarrow> (case generation of None \<Rightarrow> Inl RuntimeError | Some g \<Rightarrow> Inr g))"

definition register_session :: "string \<Rightarrow> command_queue \<Rightarrow> command_queue" where
  "register_session sid q =
     q\<lparr>cq_live_sessions :=
         Some (List.insert sid (case cq_live_sessions q of None \<Rightarrow> [] | Some ss \<Rightarrow> ss))\<rparr>"

definition unregister_session :: "string \<Rightarrow> command_queue \<Rightarrow> command_queue" where
  "unregister_session sid q =
     q\<lparr>cq_live_sessions := map_option (removeAll sid) (cq_live_sessions q)\<rparr>"

definition session_is_live :: "command_queue \<Rightarrow> string \<Rightarrow> bool" where
  "session_is_live q sid \<longleftrightarrow>
     (case cq_live_sessions q of None \<Rightarrow> True | Some ss \<Rightarrow> sid \<in> set ss)"

fun scope_demand :: "command option \<Rightarrow> int option" where
  "scope_demand (Some (OperatingCmd (EnableScope _ generation))) = Some generation"
| "scope_demand (Some (OperatingCmd (DisableScope generation))) = Some generation"
| "scope_demand _ = None"

definition record_scope_demand :: "command option \<Rightarrow> command_queue \<Rightarrow> command_queue" where
  "record_scope_demand cmd q =
     (case scope_demand cmd of
        None \<Rightarrow> q
      | Some g \<Rightarrow> q\<lparr>cq_scope_demand_generation := max (cq_scope_demand_generation q) g\<rparr>)"

text \<open>\<open>_coalesced_tail\<close>: the segments before the tail, and the tail.\<close>

definition coalesced_tail :: "segment list \<Rightarrow> segment list \<times> segment" where
  "coalesced_tail sgs =
     (if sgs \<noteq> [] \<and> sg_kind (last sgs) = Coalesced then (butlast sgs, last sgs)
      else (sgs, segment_coalesced))"

definition is_ptt :: "command option \<Rightarrow> bool" where
  "is_ptt cmd \<longleftrightarrow> cmd = Some (OperatingCmd PttOn) \<or> cmd = Some (OperatingCmd PttOff)"

definition dedup_key_of :: "command option \<Rightarrow> dedup_key" where
  "dedup_key_of cmd =
     (case cmd of
        None \<Rightarrow> ByType ''NoneType''
      | Some (Intent i) \<Rightarrow> ByIntent (ci_name i) (ci_target i)
      | Some c \<Rightarrow> ByType (command_class c))"

text \<open>
  The keyword arguments of \<open>put\<close> and \<open>put_ordered\<close> that become fields of the entry are given as
  an entry whose identity and ticket are overwritten.
\<close>

definition make_entry :: "queue_entry \<Rightarrow> ticket option \<Rightarrow> command_queue \<Rightarrow> queue_entry" where
  "make_entry args ticket q = args\<lparr>qe_id := cq_next_id q, qe_controller_ticket := ticket\<rparr>"

definition put :: "queue_entry \<Rightarrow> ticket option \<Rightarrow> time \<Rightarrow> command_queue \<Rightarrow> unit result \<times> command_queue"
where
  "put args current now q0 =
     (let cmd = qe_command args in
      case controller_ticket cmd current now q0 of
        (Inl e, q) \<Rightarrow> (Inl e, q)
      | (Inr ticket, q) \<Rightarrow>
          (let q1 = record_scope_demand cmd q;
               entry = make_entry args ticket q1;
               (front, tail) = coalesced_tail (cq_segments q1);
               tail' = (if is_ptt cmd then tail\<lparr>sg_ptt := sg_ptt tail @ [entry]\<rparr>
                        else tail\<lparr>sg_dedup := AList.update (dedup_key_of cmd) entry (sg_dedup tail)\<rparr>)
           in (Inr (), q1\<lparr>cq_segments := front @ [tail'], cq_notify := True,
                        cq_next_id := cq_next_id q1 + 1\<rparr>)))"

definition put_ordered ::
  "queue_entry \<Rightarrow> ticket option \<Rightarrow> time \<Rightarrow> command_queue \<Rightarrow> queue_entry result \<times> command_queue"
where
  "put_ordered args current now q0 =
     (let cmd = qe_command args in
      case controller_ticket cmd current now q0 of
        (Inl e, q) \<Rightarrow> (Inl e, q)
      | (Inr ticket, q) \<Rightarrow>
          (let q1 = record_scope_demand cmd q;
               entry = make_entry args ticket q1 in
           (Inr entry, q1\<lparr>cq_segments := cq_segments q1 @ [segment_ordered_entry entry],
                          cq_notify := True, cq_next_id := cq_next_id q1 + 1\<rparr>)))"

definition queue_segment_count :: "segment \<Rightarrow> nat" where
  "queue_segment_count sg = length (sg_ptt sg) + length (sg_dedup sg) + length (sg_ordered sg)"

definition queue_pending_count :: "command_queue \<Rightarrow> nat" where
  "queue_pending_count q = sum_list (map queue_segment_count (cq_segments q))"

definition has_commands :: "command_queue \<Rightarrow> bool" where
  "has_commands q \<longleftrightarrow> list_ex segment_has_commands (cq_segments q)"

text \<open>The loop of \<open>take_entry\<close> over the segments: the claimed entry and what is left.\<close>

fun take_loop :: "segment list \<Rightarrow> queue_entry option \<times> segment list" where
  "take_loop [] = (None, [])"
| "take_loop (sg # sgs) =
     (let keep = (\<lambda>sg'. if segment_has_commands sg' then sg' # sgs else sgs) in
      case sg_ordered sg of
        e # es \<Rightarrow> (Some e, keep (sg\<lparr>sg_ordered := es\<rparr>))
      | [] \<Rightarrow>
          (case sg_ptt sg of
             e # es \<Rightarrow> (Some e, keep (sg\<lparr>sg_ptt := es\<rparr>))
           | [] \<Rightarrow>
               (case sg_dedup sg of
                  (_, e) # es \<Rightarrow> (Some e, keep (sg\<lparr>sg_dedup := es\<rparr>))
                | [] \<Rightarrow> take_loop sgs)))"

definition take_entry :: "command_queue \<Rightarrow> queue_entry option \<times> command_queue" where
  "take_entry q =
     (let (e, sgs) = take_loop (cq_segments q); q1 = q\<lparr>cq_segments := sgs\<rparr> in
      (e, if e = None \<or> \<not> has_commands q1 then q1\<lparr>cq_notify := False\<rparr> else q1))"

text \<open>\<open>del entries[index]\<close> of the entry with this identity, \<open>None\<close> when it is not there.\<close>

fun remove_id :: "nat \<Rightarrow> queue_entry list \<Rightarrow> queue_entry list option" where
  "remove_id i [] = None"
| "remove_id i (e # es) =
     (if qe_id e = i then Some es else map_option (\<lambda>es'. e # es') (remove_id i es))"

fun remove_key_id ::
  "nat \<Rightarrow> (dedup_key \<times> queue_entry) list \<Rightarrow> (dedup_key \<times> queue_entry) list option"
where
  "remove_key_id i [] = None"
| "remove_key_id i ((k, e) # es) =
     (if qe_id e = i then Some es else map_option (\<lambda>es'. (k, e) # es') (remove_key_id i es))"

definition remove_from_segment :: "nat \<Rightarrow> segment \<Rightarrow> segment option" where
  "remove_from_segment i sg =
     (case remove_id i (sg_ordered sg) of
        Some es \<Rightarrow> Some (sg\<lparr>sg_ordered := es\<rparr>)
      | None \<Rightarrow>
          (case remove_id i (sg_ptt sg) of
             Some es \<Rightarrow> Some (sg\<lparr>sg_ptt := es\<rparr>)
           | None \<Rightarrow>
               (case remove_key_id i (sg_dedup sg) of
                  Some es \<Rightarrow> Some (sg\<lparr>sg_dedup := es\<rparr>)
                | None \<Rightarrow> None)))"

fun remove_from_segments :: "nat \<Rightarrow> segment list \<Rightarrow> segment list option" where
  "remove_from_segments i [] = None"
| "remove_from_segments i (sg # sgs) =
     (case remove_from_segment i sg of
        Some sg' \<Rightarrow> Some (if segment_has_commands sg' then sg' # sgs else sgs)
      | None \<Rightarrow> map_option (\<lambda>sgs'. sg # sgs') (remove_from_segments i sgs))"

definition remove_pending :: "queue_entry \<Rightarrow> command_queue \<Rightarrow> bool \<times> command_queue" where
  "remove_pending entry q =
     (case remove_from_segments (qe_id entry) (cq_segments q) of
        None \<Rightarrow> (False, q)
      | Some sgs \<Rightarrow>
          (let q1 = q\<lparr>cq_segments := sgs\<rparr> in
           (True, if \<not> has_commands q1 then q1\<lparr>cq_notify := False\<rparr> else q1)))"

text \<open>The done callback of the future of an ordered entry.\<close>

definition future_cancelled :: "queue_entry \<Rightarrow> command_queue \<Rightarrow> command_queue" where
  "future_cancelled entry q =
     (if qe_command entry \<noteq> Some (OperatingCmd PttOff) then snd (remove_pending entry q) else q)"

definition drain_entries :: "command_queue \<Rightarrow> queue_entry list \<times> command_queue" where
  "drain_entries q =
     (concat (map segment_entries (cq_segments q)), q\<lparr>cq_notify := False, cq_segments := []\<rparr>)"

definition drain :: "command_queue \<Rightarrow> command option list \<times> command_queue" where
  "drain q = (let (es, q') = drain_entries q in (map qe_command es, q'))"

section \<open>Currency\<close>

text \<open>
  The order of the tests is the order of the exceptions. The entry's ticket holds its authority;
  here the authority is the argument the validation is made on.
\<close>

definition validate_entry_currency ::
  "queue_entry \<Rightarrow> time \<Rightarrow> int option \<Rightarrow> nat option \<Rightarrow> (string \<Rightarrow> bool) \<Rightarrow> bool \<Rightarrow> authority
     \<Rightarrow> unit result \<times> authority"
where
  "validate_entry_currency entry now provider_generation connection_generation session_live
      require_connection_generation c =
     (if (case qe_expires_at entry of None \<Rightarrow> False | Some t \<Rightarrow> now \<ge> t)
      then (Inl (CommandError ''queued command expired before dispatch''), c)
      else if (case qe_session_id entry of None \<Rightarrow> False | Some sid \<Rightarrow> \<not> session_live sid)
      then (Inl (CommandError ''queued command session is no longer active''), c)
      else if qe_provider_generation entry \<noteq> None \<and>
              qe_provider_generation entry \<noteq> provider_generation
      then (Inl (CommandError ''queued command provider generation changed''), c)
      else if require_connection_generation \<and> qe_connection_generation entry = None
      then (Inl (CommandError ''queued command connection generation is missing''), c)
      else if qe_connection_generation entry \<noteq> None \<and>
              qe_connection_generation entry \<noteq> connection_generation
      then (Inl (CommandError ''queued command connection generation changed''), c)
      else (case qe_controller_ticket entry of
              None \<Rightarrow> (Inr (), c)
            | Some t \<Rightarrow> validate t now c))"

end
