(* ===== verification/QueueRuns.thy ===== *)
theory QueueRuns
  imports CommandQueue
begin

text \<open>
  The command queue under any sequence of calls: the order in which entries leave it, what
  coalescing may replace, and the composition with the controller authority.
\<close>

section \<open>Operations\<close>

datatype queue_op =
    Put queue_entry "ticket option" time
  | PutOrdered queue_entry "ticket option" time
  | Take
  | RemovePending queue_entry
  | FutureCancelled queue_entry
  | Drain
  | RegisterSession string
  | UnregisterSession string
  | ControllerCall ctl_op

fun queue_step :: "command_queue \<Rightarrow> queue_op \<Rightarrow> command_queue" where
  "queue_step q (Put args current now) = snd (put args current now q)"
| "queue_step q (PutOrdered args current now) = snd (put_ordered args current now q)"
| "queue_step q Take = snd (take_entry q)"
| "queue_step q (RemovePending entry) = snd (remove_pending entry q)"
| "queue_step q (FutureCancelled entry) = future_cancelled entry q"
| "queue_step q Drain = snd (drain_entries q)"
| "queue_step q (RegisterSession sid) = register_session sid q"
| "queue_step q (UnregisterSession sid) = unregister_session sid q"
| "queue_step q (ControllerCall op) =
     q\<lparr>cq_controller := map_option (\<lambda>c. ctl_step c op) (cq_controller q)\<rparr>"

definition entries_of :: "segment list \<Rightarrow> queue_entry list" where
  "entries_of sgs = concat (map segment_entries sgs)"

lemma entries_of_simps [simp]:
  "entries_of [] = []" "entries_of (sg # sgs) = segment_entries sg @ entries_of sgs"
  "entries_of (xs @ ys) = entries_of xs @ entries_of ys"
  by (simp_all add: entries_of_def)

lemma drain_entries_fst [simp]: "fst (drain_entries q) = entries_of (cq_segments q)"
  by (simp add: drain_entries_def entries_of_def)

section \<open>Invariant\<close>

definition segment_ok :: "segment \<Rightarrow> bool" where
  "segment_ok sg \<longleftrightarrow> segment_has_commands sg \<and>
     (if sg_kind sg = Ordered
      then sg_ptt sg = [] \<and> sg_dedup sg = [] \<and> length (sg_ordered sg) = 1
      else sg_ordered sg = [] \<and> distinct (map fst (sg_dedup sg)) \<and>
        list_all (\<lambda>e. is_ptt (qe_command e)) (sg_ptt sg) \<and>
        list_all (\<lambda>(k, e). k = dedup_key_of (qe_command e) \<and> \<not> is_ptt (qe_command e)) (sg_dedup sg))"

definition ticket_bound :: "authority option \<Rightarrow> queue_entry \<Rightarrow> bool" where
  "ticket_bound controller e \<longleftrightarrow>
     (case qe_controller_ticket e of
        None \<Rightarrow> True
      | Some t \<Rightarrow> (case controller of None \<Rightarrow> False | Some c \<Rightarrow> tk_generation t \<le> ca_generation c))"

definition queue_inv :: "command_queue \<Rightarrow> bool" where
  "queue_inv q \<longleftrightarrow>
     list_all segment_ok (cq_segments q) \<and>
     (cq_notify q \<longleftrightarrow> cq_segments q \<noteq> []) \<and>
     distinct (map qe_id (entries_of (cq_segments q))) \<and>
     list_all (\<lambda>e. qe_id e < cq_next_id q) (entries_of (cq_segments q)) \<and>
     list_all (ticket_bound (cq_controller q)) (entries_of (cq_segments q)) \<and>
     pred_option ctl_inv (cq_controller q)"

lemma segment_ok_entries: "segment_ok sg \<Longrightarrow> segment_entries sg \<noteq> []"
  by (auto simp: segment_ok_def segment_entries_def segment_has_commands_def split: if_splits)

lemma segment_ok_count: "segment_ok sg \<Longrightarrow> queue_segment_count sg = length (segment_entries sg)"
  by (auto simp: segment_ok_def segment_entries_def queue_segment_count_def split: if_splits)

lemma has_commands_iff:
  "list_all segment_ok (cq_segments q) \<Longrightarrow> has_commands q \<longleftrightarrow> cq_segments q \<noteq> []"
  by (cases "cq_segments q") (auto simp: has_commands_def segment_ok_def)

lemma entries_of_empty: "list_all segment_ok sgs \<Longrightarrow> entries_of sgs = [] \<longleftrightarrow> sgs = []"
  by (cases sgs) (auto dest: segment_ok_entries)

lemma queue_pending_count_entries:
  "list_all segment_ok (cq_segments q) \<Longrightarrow> queue_pending_count q = length (entries_of (cq_segments q))"
proof -
  have "list_all segment_ok sgs \<Longrightarrow> sum_list (map queue_segment_count sgs) = length (entries_of sgs)" for sgs
    by (induction sgs) (auto simp: segment_ok_count)
  then show "list_all segment_ok (cq_segments q) \<Longrightarrow> ?thesis" by (simp add: queue_pending_count_def)
qed

subsection \<open>Taking\<close>

text \<open>A segment with one of its entries taken off is well formed or empty.\<close>

lemma take_loop_head:
  assumes "list_all segment_ok (sg # sgs)"
  obtains e rest where "take_loop (sg # sgs) = (Some e, rest)"
    and "entries_of (sg # sgs) = e # entries_of rest" and "list_all segment_ok rest"
proof -
  have ok: "segment_ok sg" using assms by simp
  show ?thesis
  proof (cases "sg_kind sg")
    case Ordered
    with ok obtain e where "sg_ordered sg = [e]" "sg_ptt sg = []" "sg_dedup sg = []"
      by (auto simp: segment_ok_def length_Suc_conv)
    with Ordered assms show ?thesis
      by (intro that [of e sgs])
         (auto simp: segment_entries_def segment_has_commands_def)
  next
    case Coalesced
    with ok have ord: "sg_ordered sg = []" by (simp add: segment_ok_def)
    show ?thesis
    proof (cases "sg_ptt sg")
      case (Cons e es)
      let ?sg = "sg\<lparr>sg_ptt := es\<rparr>"
      have "segment_has_commands ?sg \<Longrightarrow> segment_ok ?sg"
        using ok Coalesced Cons by (auto simp: segment_ok_def)
      moreover have "\<not> segment_has_commands ?sg \<Longrightarrow> segment_entries sg = [e]"
        using Cons Coalesced by (auto simp: segment_has_commands_def segment_entries_def)
      moreover have "segment_entries sg = e # segment_entries ?sg"
        using Cons Coalesced by (simp add: segment_entries_def)
      ultimately show ?thesis
        using assms Cons ord
        by (cases "segment_has_commands ?sg")
           (auto intro: that [of e "?sg # sgs"] that [of e sgs])
    next
      case Nil
      with ok ord obtain k e es where dd: "sg_dedup sg = (k, e) # es"
        by (cases "sg_dedup sg") (auto simp: segment_ok_def segment_has_commands_def)
      let ?sg = "sg\<lparr>sg_dedup := es\<rparr>"
      have "segment_has_commands ?sg \<Longrightarrow> segment_ok ?sg"
        using ok Coalesced dd by (auto simp: segment_ok_def)
      moreover have "\<not> segment_has_commands ?sg \<Longrightarrow> segment_entries sg = [e]"
        using dd Nil Coalesced by (auto simp: segment_has_commands_def segment_entries_def)
      moreover have "segment_entries sg = e # segment_entries ?sg"
        using dd Nil Coalesced by (simp add: segment_entries_def)
      ultimately show ?thesis
        using assms dd Nil ord
        by (cases "segment_has_commands ?sg")
           (auto intro: that [of e "?sg # sgs"] that [of e sgs])
    qed
  qed
qed

lemma take_entry_cases:
  assumes "list_all segment_ok (cq_segments q)"
  obtains (empty) "cq_segments q = []" "take_entry q = (None, q\<lparr>cq_notify := False\<rparr>)"
    | (taken) e sgs where "take_entry q = (Some e, q\<lparr>cq_segments := sgs,
          cq_notify := cq_notify q \<and> sgs \<noteq> []\<rparr>)"
        "entries_of (cq_segments q) = e # entries_of sgs" "list_all segment_ok sgs"
proof (cases "cq_segments q")
  case Nil
  then show ?thesis by (intro empty) (simp_all add: take_entry_def)
next
  case (Cons sg sgs)
  with assms obtain e rest where taken': "take_loop (sg # sgs) = (Some e, rest)"
    and es: "entries_of (sg # sgs) = e # entries_of rest" and ok: "list_all segment_ok rest"
    by (metis take_loop_head)
  have "has_commands (q\<lparr>cq_segments := rest\<rparr>) \<longleftrightarrow> rest \<noteq> []"
    using ok has_commands_iff [of "q\<lparr>cq_segments := rest\<rparr>"] by simp
  then show ?thesis
    using taken' es ok Cons by (intro taken [of e rest]) (auto simp: take_entry_def)
qed

subsection \<open>Putting\<close>

lemma update_split:
  "AList.update k v xs = xs @ [(k, v)] \<and> k \<notin> fst ` set xs \<or>
   (\<exists>ys w zs. xs = ys @ (k, w) # zs \<and> AList.update k v xs = ys @ (k, v) # zs)"
proof (induction xs)
  case (Cons x xs)
  obtain k' w where x: "x = (k', w)" by fastforce
  show ?case
  proof (cases "k' = k")
    case True
    then have "x # xs = [] @ (k, w) # xs \<and> AList.update k v (x # xs) = [] @ (k, v) # xs"
      by (simp add: x)
    then show ?thesis by blast
  next
    case False
    from Cons.IH show ?thesis
    proof (elim disjE exE conjE)
      fix ys w' zs
      assume "xs = ys @ (k, w') # zs" "AList.update k v xs = ys @ (k, v) # zs"
      then have "x # xs = (x # ys) @ (k, w') # zs \<and>
          AList.update k v (x # xs) = (x # ys) @ (k, v) # zs"
        using False by (simp add: x)
      then show ?thesis by blast
    qed (use False in \<open>auto simp: x\<close>)
  qed
qed simp

text \<open>How \<open>put\<close> changes a coalesced segment.\<close>

definition put_in :: "queue_entry \<Rightarrow> segment \<Rightarrow> segment" where
  "put_in e sg =
     (if is_ptt (qe_command e) then sg\<lparr>sg_ptt := sg_ptt sg @ [e]\<rparr>
      else sg\<lparr>sg_dedup := AList.update (dedup_key_of (qe_command e)) e (sg_dedup sg)\<rparr>)"

lemma put_in_ok:
  assumes "segment_ok sg \<or> sg = segment_coalesced" and "sg_kind sg = Coalesced"
  shows "segment_ok (put_in e sg)"
proof -
  let ?k = "dedup_key_of (qe_command e)"
  have parts: "sg_ordered sg = []" "distinct (map fst (sg_dedup sg))"
      "list_all (\<lambda>e. is_ptt (qe_command e)) (sg_ptt sg)"
      "list_all (\<lambda>(k, e). k = dedup_key_of (qe_command e) \<and> \<not> is_ptt (qe_command e)) (sg_dedup sg)"
    using assms by (auto simp: segment_ok_def segment_coalesced_def)
  have "list_all (\<lambda>(k, e). k = dedup_key_of (qe_command e) \<and> \<not> is_ptt (qe_command e))
      (AList.update ?k e (sg_dedup sg))" if "\<not> is_ptt (qe_command e)"
    using parts(4) that set_update_subset [of ?k e "sg_dedup sg"] by (fastforce simp: list_all_iff)
  moreover have "AList.update ?k e (sg_dedup sg) \<noteq> []" by (cases "sg_dedup sg") auto
  ultimately show ?thesis
    using parts assms(2)
    by (auto simp: put_in_def segment_ok_def segment_has_commands_def distinct_update)
qed

text \<open>What \<open>put\<close> replaces: nothing, or the pending entry of the same key in the segment.\<close>

definition replaces :: "queue_entry \<Rightarrow> queue_entry list \<Rightarrow> bool" where
  "replaces e old \<longleftrightarrow>
     old = [] \<or>
     (\<exists>o'. old = [o'] \<and> \<not> is_ptt (qe_command e) \<and> \<not> is_ptt (qe_command o') \<and>
        dedup_key_of (qe_command o') = dedup_key_of (qe_command e))"

lemma put_in_entries:
  assumes "segment_ok sg \<or> sg = segment_coalesced" and "sg_kind sg = Coalesced"
  obtains xs old ys where "segment_entries sg = xs @ old @ ys"
    and "segment_entries (put_in e sg) = xs @ e # ys" and "replaces e old"
proof (cases "is_ptt (qe_command e)")
  case True
  then show ?thesis
    using assms(2)
    by (intro that [of "sg_ptt sg" "[]" "map snd (sg_dedup sg)"])
       (auto simp: segment_entries_def put_in_def replaces_def)
next
  case False
  let ?k = "dedup_key_of (qe_command e)"
  have dd: "list_all (\<lambda>(k, e). k = dedup_key_of (qe_command e) \<and> \<not> is_ptt (qe_command e)) (sg_dedup sg)"
    using assms by (auto simp: segment_ok_def segment_coalesced_def)
  from update_split [of ?k e "sg_dedup sg"] show ?thesis
  proof (elim disjE exE conjE)
    assume "AList.update ?k e (sg_dedup sg) = sg_dedup sg @ [(?k, e)]"
    then show ?thesis
      using False assms(2)
      by (intro that [of "segment_entries sg" "[]" "[]"])
         (auto simp: segment_entries_def put_in_def replaces_def)
  next
    fix ys w zs
    assume "sg_dedup sg = ys @ (?k, w) # zs" "AList.update ?k e (sg_dedup sg) = ys @ (?k, e) # zs"
    then show ?thesis
      using False assms(2) dd
      by (intro that [of "sg_ptt sg @ map snd ys" "[w]" "map snd zs"])
         (auto simp: segment_entries_def put_in_def replaces_def)
  qed
qed

text \<open>The capture of a ticket touches the controller only, by one of its own steps.\<close>

lemma controller_ticket_cases:
  obtains (quiet) "controller_ticket cmd current now q = (Inr None, q)"
      "cq_controller q = None \<or> needs_no_ticket cmd"
    | (refused) e c where "cq_controller q = Some c"
        "controller_ticket cmd current now q =
           (Inl e, q\<lparr>cq_controller := Some (ctl_step c (Capture current now))\<rparr>)"
    | (granted) t c where "cq_controller q = Some c"
        "controller_ticket cmd current now q =
           (Inr (Some t), q\<lparr>cq_controller := Some (ctl_step c (Capture current now))\<rparr>)"
        "tk_generation t = ca_generation (ctl_step c (Capture current now))"
proof (cases "cq_controller q")
  case None
  then show ?thesis by (intro quiet) (simp_all add: controller_ticket_def)
next
  case (Some c)
  show ?thesis
  proof (cases "needs_no_ticket cmd")
    case True
    then show ?thesis using Some by (intro quiet) (simp_all add: controller_ticket_def)
  next
    case False
    show ?thesis
    proof (cases "fst (capture current now c)")
      case (Inl e)
      then show ?thesis
        using Some False
        by (intro refused [of c e]) (auto simp: controller_ticket_def split: prod.split sum.split)
    next
      case (Inr t)
      have "tk_generation t = ca_generation (snd (capture current now c))"
      proof -
        define p where "p = (case current of
             Some t \<Rightarrow> if tk_authority t \<noteq> ca_self c
                       then new_ticket c (ca_generation c) False None False None else (t, c)
           | None \<Rightarrow> new_ticket c (ca_generation c) False None False None)"
        show ?thesis
          using Inr unfolding capture_def p_def [symmetric]
          by (cases p; cases rule: validate_cases [of "fst p" now "snd p"])
             (auto simp: ticket_current_def split: if_splits)
      qed
      then show ?thesis
        using Some False Inr
        by (intro granted [of c t]) (auto simp: controller_ticket_def split: prod.split sum.split)
    qed
  qed
qed

text \<open>The controller after a call: unchanged, or after one capture.\<close>

definition captured :: "authority option \<Rightarrow> authority option \<Rightarrow> bool" where
  "captured c c' \<longleftrightarrow> c' = c \<or>
     (\<exists>a current now. c = Some a \<and> c' = Some (ctl_step a (Capture current now)))"

lemma record_scope_demand_frame [simp]:
  "cq_segments (record_scope_demand cmd q) = cq_segments q"
  "cq_notify (record_scope_demand cmd q) = cq_notify q"
  "cq_controller (record_scope_demand cmd q) = cq_controller q"
  "cq_next_id (record_scope_demand cmd q) = cq_next_id q"
  "cq_live_sessions (record_scope_demand cmd q) = cq_live_sessions q"
  by (simp_all add: record_scope_demand_def split: option.split)

text \<open>Both puts, up to the segment list they make of the new entry.\<close>

lemma put_result:
  obtains (refused) err q' where "put args current now q = (Inl err, q')"
      "put_ordered args current now q = (Inl err, q')" "cq_segments q' = cq_segments q"
      "cq_notify q' = cq_notify q" "cq_next_id q' = cq_next_id q"
      "captured (cq_controller q) (cq_controller q')"
    | (accepted) e q1 q2 where "put args current now q = (Inr (), q1)"
      "put_ordered args current now q = (Inr e, q2)"
      "qe_id e = cq_next_id q" "qe_command e = qe_command args"
      "cq_segments q1 = fst (coalesced_tail (cq_segments q)) @ [put_in e (snd (coalesced_tail (cq_segments q)))]"
      "cq_segments q2 = cq_segments q @ [segment_ordered_entry e]"
      "cq_notify q1" "cq_notify q2" "cq_next_id q1 = cq_next_id q + 1" "cq_next_id q2 = cq_next_id q + 1"
      "cq_controller q2 = cq_controller q1" "captured (cq_controller q) (cq_controller q1)"
      "ticket_bound (cq_controller q1) e"
      "needs_no_ticket (qe_command args) \<Longrightarrow> qe_controller_ticket e = None"
proof (cases rule: controller_ticket_cases [of "qe_command args" current now q])
  case (refused err c)
  let ?q = "q\<lparr>cq_controller := Some (ctl_step c (Capture current now))\<rparr>"
  show ?thesis
    using refused
    by (intro that(1) [of err ?q])
       (simp add: put_def put_ordered_def Let_def, simp add: put_ordered_def Let_def,
        simp, simp, simp, unfold captured_def, auto)
next
  case quiet
  define e where "e = make_entry args None (record_scope_demand (qe_command args) q)"
  show ?thesis
    using quiet
    by (intro that(2) [of "snd (put args current now q)" e "snd (put_ordered args current now q)"])
       (auto simp: put_def put_ordered_def Let_def e_def make_entry_def put_in_def captured_def
         ticket_bound_def split: prod.split)
next
  case (granted t c)
  let ?q = "q\<lparr>cq_controller := Some (ctl_step c (Capture current now))\<rparr>"
  define e where "e = make_entry args (Some t) (record_scope_demand (qe_command args) ?q)"
  have ask: "\<not> needs_no_ticket (qe_command args)"
    using granted by (auto simp: controller_ticket_def split: if_splits)
  have cap: "captured (cq_controller q) (Some (ctl_step c (Capture current now)))"
    using granted(1) unfolding captured_def by blast
  show ?thesis
    using granted(1,2) ask cap granted(3)
    by (intro that(2) [of "snd (put args current now q)" e "snd (put_ordered args current now q)"])
       (auto simp: put_def put_ordered_def Let_def e_def make_entry_def put_in_def
         ticket_bound_def split: prod.split)
qed

lemma coalesced_tail_entries:
  assumes "list_all segment_ok sgs"
  shows "entries_of sgs = entries_of (fst (coalesced_tail sgs)) @
      segment_entries (snd (coalesced_tail sgs))"
    and "list_all segment_ok (fst (coalesced_tail sgs))"
    and "segment_ok (snd (coalesced_tail sgs)) \<or> snd (coalesced_tail sgs) = segment_coalesced"
    and "sg_kind (snd (coalesced_tail sgs)) = Coalesced"
proof -
  have "entries_of sgs = entries_of (butlast sgs) @ segment_entries (last sgs)" if "sgs \<noteq> []"
    using that by (cases sgs rule: rev_cases) simp_all
  moreover have "segment_entries segment_coalesced = []"
    by (simp add: segment_entries_def segment_coalesced_def)
  ultimately show "entries_of sgs = entries_of (fst (coalesced_tail sgs)) @
      segment_entries (snd (coalesced_tail sgs))"
    by (simp add: coalesced_tail_def)
  show "list_all segment_ok (fst (coalesced_tail sgs))"
    using assms by (auto simp: coalesced_tail_def list_all_iff dest: in_set_butlastD)
  show "segment_ok (snd (coalesced_tail sgs)) \<or> snd (coalesced_tail sgs) = segment_coalesced"
    using assms by (auto simp: coalesced_tail_def list_all_iff)
  show "sg_kind (snd (coalesced_tail sgs)) = Coalesced"
    by (auto simp: coalesced_tail_def segment_coalesced_def)
qed

lemma captured_inv:
  assumes "captured c c'"
  shows "pred_option ctl_inv c \<Longrightarrow> pred_option ctl_inv c'"
    and "ticket_bound c e \<Longrightarrow> ticket_bound c' e"
proof -
  have "ca_generation a \<le> ca_generation (snd (capture current now a))" for a current now
    using ctl_step_ahead [of a "Capture current now"] by (simp add: ahead_def)
  then show "ticket_bound c e \<Longrightarrow> ticket_bound c' e"
    using assms unfolding captured_def ticket_bound_def
    by (auto split: option.splits intro: order_trans)
  show "pred_option ctl_inv c \<Longrightarrow> pred_option ctl_inv c'"
    using assms capture_inv unfolding captured_def by (elim disjE exE conjE) simp_all
qed

subsection \<open>Removing\<close>

definition without :: "nat \<Rightarrow> queue_entry list \<Rightarrow> queue_entry list" where
  "without i es = filter (\<lambda>e. qe_id e \<noteq> i) es"

lemma without_simps [simp]:
  "without i [] = []" "without i (xs @ ys) = without i xs @ without i ys"
  "without i (e # es) = (if qe_id e = i then without i es else e # without i es)"
  by (simp_all add: without_def)

lemma without_absent: "i \<notin> qe_id ` set es \<Longrightarrow> without i es = es"
  by (induction es) auto

lemma remove_id_eq:
  "distinct (map qe_id es) \<Longrightarrow>
   remove_id i es = (if i \<in> qe_id ` set es then Some (without i es) else None)"
  by (induction es) (auto simp: without_absent)

lemma remove_key_id_eq:
  "distinct (map (\<lambda>p. qe_id (snd p)) es) \<Longrightarrow>
   remove_key_id i es =
     (if i \<in> (\<lambda>p. qe_id (snd p)) ` set es then Some (filter (\<lambda>p. qe_id (snd p) \<noteq> i) es) else None)"
proof (induction es)
  case (Cons p es)
  obtain k e where p: "p = (k, e)" by fastforce
  have "filter (\<lambda>p. qe_id (snd p) \<noteq> i) es = es" if "i \<notin> (\<lambda>p. qe_id (snd p)) ` set es"
    using that by (induction es) auto
  then show ?case using Cons by (auto simp: p)
qed simp

lemma remove_from_segment_eq:
  assumes "segment_ok sg" and "distinct (map qe_id (segment_entries sg))"
  shows "i \<notin> qe_id ` set (segment_entries sg) \<Longrightarrow> remove_from_segment i sg = None"
    and "i \<in> qe_id ` set (segment_entries sg) \<Longrightarrow>
      \<exists>sg'. remove_from_segment i sg = Some sg' \<and>
        (if segment_has_commands sg' then segment_ok sg' \<and>
           segment_entries sg' = without i (segment_entries sg)
         else without i (segment_entries sg) = [])"
proof -
  have "(i \<notin> qe_id ` set (segment_entries sg) \<longrightarrow> remove_from_segment i sg = None) \<and>
    (i \<in> qe_id ` set (segment_entries sg) \<longrightarrow>
      (\<exists>sg'. remove_from_segment i sg = Some sg' \<and>
        (if segment_has_commands sg' then segment_ok sg' \<and>
           segment_entries sg' = without i (segment_entries sg)
         else without i (segment_entries sg) = [])))"
  proof (cases "sg_kind sg")
    case Ordered
    with assms(1) obtain e where "sg_ordered sg = [e]" "sg_ptt sg = []" "sg_dedup sg = []"
      by (auto simp: segment_ok_def length_Suc_conv)
    with Ordered show ?thesis
      by (auto simp: remove_from_segment_def segment_entries_def segment_has_commands_def)
  next
    case Coalesced
    have ord: "sg_ordered sg = []" using assms(1) Coalesced by (simp add: segment_ok_def)
    have entries: "segment_entries sg = sg_ptt sg @ map snd (sg_dedup sg)"
      using Coalesced by (simp add: segment_entries_def)
    have dp: "distinct (map qe_id (sg_ptt sg))"
        "distinct (map (\<lambda>p. qe_id (snd p)) (sg_dedup sg))"
        "qe_id ` set (sg_ptt sg) \<inter> (\<lambda>p. qe_id (snd p)) ` set (sg_dedup sg) = {}"
      using assms(2) by (auto simp: entries o_def image_image)
    have keys: "map snd (filter (\<lambda>p. qe_id (snd p) \<noteq> i) ps) = without i (map snd ps)"
      for ps :: "(dedup_key \<times> queue_entry) list"
      by (induction ps) auto
    have sub: "list_all P (without i es)" if "list_all P es" for P es
      using that by (auto simp: without_def list_all_iff)
    have sub': "list_all P (filter Q ps)" "distinct (map fst (filter Q ps))"
      if "list_all P ps" "distinct (map fst ps)" for P Q and ps :: "(dedup_key \<times> queue_entry) list"
      using that by (auto simp: list_all_iff distinct_map_filter)
    show ?thesis
    proof (cases "i \<in> qe_id ` set (sg_ptt sg)")
      case True
      then have "i \<notin> (\<lambda>p. qe_id (snd p)) ` set (sg_dedup sg)" using dp(3) by blast
      then have "without i (map snd (sg_dedup sg)) = map snd (sg_dedup sg)"
        by (intro without_absent) (auto simp: image_image)
      then show ?thesis
        using True assms(1) Coalesced ord dp(1) sub
        by (auto simp: remove_from_segment_def remove_id_eq entries segment_ok_def
            segment_entries_def segment_has_commands_def)
    next
      case False
      then have ptt: "without i (sg_ptt sg) = sg_ptt sg" by (rule without_absent)
      show ?thesis
        using False ptt assms(1) Coalesced ord dp(1,2) sub' keys [of "sg_dedup sg"]
        by (auto simp: remove_from_segment_def remove_id_eq remove_key_id_eq entries segment_ok_def
            segment_entries_def segment_has_commands_def image_image)
    qed
  qed
  then show "i \<notin> qe_id ` set (segment_entries sg) \<Longrightarrow> remove_from_segment i sg = None"
    and "i \<in> qe_id ` set (segment_entries sg) \<Longrightarrow>
      \<exists>sg'. remove_from_segment i sg = Some sg' \<and>
        (if segment_has_commands sg' then segment_ok sg' \<and>
           segment_entries sg' = without i (segment_entries sg)
         else without i (segment_entries sg) = [])" by blast+
qed

lemma remove_from_segments_eq:
  assumes "list_all segment_ok sgs" and "distinct (map qe_id (entries_of sgs))"
  shows "i \<notin> qe_id ` set (entries_of sgs) \<and> remove_from_segments i sgs = None \<or>
    i \<in> qe_id ` set (entries_of sgs) \<and>
      (\<exists>sgs'. remove_from_segments i sgs = Some sgs' \<and> list_all segment_ok sgs' \<and>
         entries_of sgs' = without i (entries_of sgs))"
  using assms
proof (induction sgs)
  case (Cons sg sgs)
  have ok: "segment_ok sg" "distinct (map qe_id (segment_entries sg))"
    using Cons.prems by auto
  show ?case
  proof (cases "i \<in> qe_id ` set (segment_entries sg)")
    case True
    then have "i \<notin> qe_id ` set (entries_of sgs)" using Cons.prems(2) by auto
    then have rest: "without i (entries_of sgs) = entries_of sgs" by (rule without_absent)
    obtain sg' where "remove_from_segment i sg = Some sg'"
      "if segment_has_commands sg' then segment_ok sg' \<and>
         segment_entries sg' = without i (segment_entries sg)
       else without i (segment_entries sg) = []"
      using remove_from_segment_eq(2) [OF ok True] by blast
    then show ?thesis
      using True Cons.prems(1) rest by (auto split: if_splits)
  next
    case False
    then have "remove_from_segment i sg = None"
      by (rule remove_from_segment_eq(1) [OF ok])
    then show ?thesis
      using Cons.IH Cons.prems False by (auto simp: without_absent)
  qed
qed simp

lemma remove_pending_cases:
  assumes "queue_inv q"
  obtains (absent) "qe_id e \<notin> qe_id ` set (entries_of (cq_segments q))"
      "remove_pending e q = (False, q)"
    | (removed) sgs where "qe_id e \<in> qe_id ` set (entries_of (cq_segments q))"
        "remove_pending e q = (True, q\<lparr>cq_segments := sgs, cq_notify := sgs \<noteq> []\<rparr>)"
        "list_all segment_ok sgs" "entries_of sgs = without (qe_id e) (entries_of (cq_segments q))"
proof -
  have ok: "list_all segment_ok (cq_segments q)" "distinct (map qe_id (entries_of (cq_segments q)))"
    and notify: "cq_notify q \<longleftrightarrow> cq_segments q \<noteq> []"
    using assms by (auto simp: queue_inv_def)
  from remove_from_segments_eq [OF ok, of "qe_id e"] show ?thesis
  proof (elim disjE conjE exE)
    assume "qe_id e \<notin> qe_id ` set (entries_of (cq_segments q))"
      "remove_from_segments (qe_id e) (cq_segments q) = None"
    then show ?thesis by (intro absent) (simp_all add: remove_pending_def)
  next
    fix sgs
    assume r: "qe_id e \<in> qe_id ` set (entries_of (cq_segments q))"
      "remove_from_segments (qe_id e) (cq_segments q) = Some sgs" "list_all segment_ok sgs"
      "entries_of sgs = without (qe_id e) (entries_of (cq_segments q))"
    have has: "has_commands (q\<lparr>cq_segments := sgs\<rparr>) \<longleftrightarrow> sgs \<noteq> []"
      using r(3) has_commands_iff [of "q\<lparr>cq_segments := sgs\<rparr>"] by simp
    have "cq_notify q" using r(1) notify by auto
    then have "q\<lparr>cq_segments := sgs\<rparr> = q\<lparr>cq_segments := sgs, cq_notify := True\<rparr>"
      by (intro command_queue.equality) simp_all
    then show ?thesis
      using r has by (intro removed [of sgs]) (simp_all add: remove_pending_def Let_def)
  qed
qed

subsection \<open>Every operation\<close>

lemma put_inv:
  assumes "queue_inv q"
  shows "queue_inv (snd (put args current now q))"
    and "queue_inv (snd (put_ordered args current now q))"
proof -
  have ok: "list_all segment_ok (cq_segments q)" using assms by (simp add: queue_inv_def)
  note tail = coalesced_tail_entries [OF ok]
  have "queue_inv (snd (put args current now q)) \<and> queue_inv (snd (put_ordered args current now q))"
  proof (cases rule: put_result [of args current now q])
    case (refused err q')
    have bound: "list_all (ticket_bound (cq_controller q')) es"
      if "list_all (ticket_bound (cq_controller q)) es" for es
      using that captured_inv(2) [OF refused(6)] by (auto simp: list_all_iff)
    have "queue_inv q'"
      using assms refused captured_inv(1) [OF refused(6)] bound by (simp add: queue_inv_def)
    then show ?thesis using refused by simp
  next
    case (accepted e q1 q2)
    have bound: "list_all (ticket_bound (cq_controller q1)) es"
      if "list_all (ticket_bound (cq_controller q)) es" for es
      using that captured_inv(2) [OF accepted(12)] by (auto simp: list_all_iff)
    have fresh: "qe_id e \<notin> qe_id ` set (entries_of (cq_segments q))"
      using assms accepted(3) by (force simp: queue_inv_def list_all_iff)
    obtain xs old ys where parts: "segment_entries (snd (coalesced_tail (cq_segments q))) = xs @ old @ ys"
        "segment_entries (put_in e (snd (coalesced_tail (cq_segments q)))) = xs @ e # ys"
      by (rule put_in_entries [OF tail(3,4)])
    define front where "front = entries_of (fst (coalesced_tail (cq_segments q)))"
    have before: "entries_of (cq_segments q) = front @ xs @ old @ ys"
      and after1: "entries_of (cq_segments q1) = front @ xs @ e # ys"
      and after2: "entries_of (cq_segments q2) = (front @ xs @ old @ ys) @ [e]"
      using tail(1) parts accepted(5,6)
      by (simp_all add: front_def segment_ordered_entry_def segment_entries_def)
    have inv: "pred_option ctl_inv (cq_controller q1)"
      using assms captured_inv(1) [OF accepted(12)] by (simp add: queue_inv_def)
    have facts: "distinct (map qe_id (front @ xs @ old @ ys))"
        "list_all (\<lambda>e. qe_id e < cq_next_id q) (front @ xs @ old @ ys)"
        "list_all (ticket_bound (cq_controller q1)) (front @ xs @ old @ ys)"
      using assms bound unfolding queue_inv_def before by auto
    have mono: "list_all (\<lambda>e. qe_id e < cq_next_id q + 1) es"
      if "list_all (\<lambda>e. qe_id e < cq_next_id q) es" for es :: "queue_entry list"
      using that by (auto simp: list_all_iff)
    have "queue_inv q1"
      using accepted facts inv fresh tail(2) put_in_ok [OF tail(3,4)] mono
      unfolding queue_inv_def after1 before by auto
    moreover have "segment_ok (segment_ordered_entry e)"
      by (simp add: segment_ok_def segment_ordered_entry_def segment_has_commands_def)
    then have "queue_inv q2"
      using accepted facts inv fresh ok mono
      unfolding queue_inv_def after2 before by auto
    ultimately show ?thesis using accepted by simp
  qed
  then show "queue_inv (snd (put args current now q))"
    and "queue_inv (snd (put_ordered args current now q))" by blast+
qed

lemma remove_pending_inv: "queue_inv q \<Longrightarrow> queue_inv (snd (remove_pending e q))"
proof -
  assume inv: "queue_inv q"
  then show ?thesis
  proof (cases rule: remove_pending_cases [of q e])
    case (removed sgs)
    then show ?thesis
      using inv by (auto simp: queue_inv_def without_def list_all_iff distinct_map_filter)
  qed (use inv in simp)
qed

lemma take_entry_inv: "queue_inv q \<Longrightarrow> queue_inv (snd (take_entry q))"
proof -
  assume inv: "queue_inv q"
  then have ok: "list_all segment_ok (cq_segments q)" by (simp add: queue_inv_def)
  from ok show ?thesis
    by (cases rule: take_entry_cases) (use inv in \<open>auto simp: queue_inv_def\<close>)
qed

lemma quiet_inv:
  assumes "queue_inv q"
  shows "queue_inv (snd (drain_entries q))" and "queue_inv (register_session sid q)"
    and "queue_inv (unregister_session sid q)"
  using assms
  by (simp_all add: queue_inv_def drain_entries_def register_session_def unregister_session_def)

lemma queue_step_inv: "queue_inv q \<Longrightarrow> queue_inv (queue_step q op)"
proof (cases op)
  case (ControllerCall cop)
  assume inv: "queue_inv q"
  have "ticket_bound (map_option (\<lambda>c. ctl_step c cop) c) e" if "ticket_bound c e" for c e
    using that ctl_step_ahead [of _ cop]
    by (auto simp: ticket_bound_def ahead_def split: option.splits intro: order_trans)
  then have "list_all (ticket_bound (map_option (\<lambda>c. ctl_step c cop) c)) es"
    if "list_all (ticket_bound c) es" for c es
    using that by (auto simp: list_all_iff)
  moreover have "pred_option ctl_inv (map_option (\<lambda>c. ctl_step c cop) c)"
    if "pred_option ctl_inv c" for c
    using that ctl_step_inv by (cases c) auto
  ultimately show ?thesis using inv ControllerCall by (simp add: queue_inv_def)
qed (simp_all add: put_inv take_entry_inv remove_pending_inv quiet_inv future_cancelled_def)

interpretation queue: guarded_system queue_step queue_inv
  by unfold_locales (rule queue_step_inv)

section \<open>Reachable queues\<close>

text \<open>A new queue, bound to a new authority at some point or never, under any calls.\<close>

inductive queue_reachable :: "command_queue \<Rightarrow> bool" where
  start: "queue_reachable queue_new"
| bound: "queue_reachable q \<Longrightarrow> cq_controller q = None \<Longrightarrow> authority_new self mx rel = Inr c \<Longrightarrow>
    bind_controller c q = Inr q' \<Longrightarrow> queue_reachable q'"
| stepped: "queue_reachable q \<Longrightarrow> queue_reachable (queue_step q op)"

lemma queue_new_inv: "queue_inv queue_new"
  by (simp add: queue_inv_def queue_new_def)

lemma queue_reachable_inv: "queue_reachable q \<Longrightarrow> queue_inv q"
proof (induction rule: queue_reachable.induct)
  case start
  show ?case by (rule queue_new_inv)
next
  case (bound q self mx rel c q')
  have "ticket_bound None e \<Longrightarrow> ticket_bound (Some c) e" for e
    by (simp add: ticket_bound_def split: option.splits)
  then have "list_all (ticket_bound (Some c)) es" if "list_all (ticket_bound None) es" for es
    using that by (auto simp: list_all_iff)
  then show ?case
    using bound ctl_inv_new by (auto simp: bind_controller_def queue_inv_def)
qed (rule queue_step_inv)

lemma queue_reachable_run: "queue_reachable q \<Longrightarrow> queue_reachable (run queue_step q ops)"
  by (induction ops arbitrary: q) (auto intro: queue_reachable.stepped)

text \<open>Taking entries one at a time, at most \<open>n\<close> of them.\<close>

fun take_n :: "nat \<Rightarrow> command_queue \<Rightarrow> queue_entry list \<times> command_queue" where
  "take_n 0 q = ([], q)"
| "take_n (Suc n) q =
     (case take_entry q of
        (None, q') \<Rightarrow> ([], q')
      | (Some e, q') \<Rightarrow> (let (es, q'') = take_n n q' in (e # es, q'')))"

lemma take_n_all:
  "queue_inv q \<Longrightarrow> n = queue_pending_count q \<Longrightarrow>
   fst (take_n n q) = entries_of (cq_segments q) \<and> queue_inv (snd (take_n n q)) \<and>
   cq_segments (snd (take_n n q)) = []"
proof (induction n arbitrary: q)
  case 0
  then show ?case
    by (auto simp: queue_pending_count_entries entries_of_empty queue_inv_def)
next
  case (Suc n)
  then have ok: "list_all segment_ok (cq_segments q)" by (simp add: queue_inv_def)
  then show ?case
  proof (cases rule: take_entry_cases)
    case empty
    then show ?thesis using Suc.prems(2) by (simp add: queue_pending_count_def)
  next
    case (taken e sgs)
    let ?q = "q\<lparr>cq_segments := sgs, cq_notify := cq_notify q \<and> sgs \<noteq> []\<rparr>"
    have "queue_inv ?q" using take_entry_inv [OF Suc.prems(1)] taken(1) by simp
    moreover have "n = queue_pending_count ?q"
      using Suc.prems(2) taken(2,3) ok queue_pending_count_entries [of ?q]
      by (simp add: queue_pending_count_entries)
    ultimately show ?thesis
      using Suc.IH [of ?q] taken by (auto split: prod.split)
  qed
qed

text \<open>The entries of ordered segments.\<close>

definition ordered_entries :: "segment list \<Rightarrow> queue_entry list" where
  "ordered_entries sgs = concat (map segment_entries (filter (\<lambda>sg. sg_kind sg = Ordered) sgs))"

lemma ordered_entries_front:
  "set (ordered_entries sgs) \<subseteq> set (entries_of (fst (coalesced_tail sgs)))"
proof -
  have "set (ordered_entries sgs') \<subseteq> set (entries_of sgs')" for sgs'
    by (auto simp: ordered_entries_def entries_of_def)
  moreover have "ordered_entries sgs = ordered_entries (butlast sgs)"
    if "sgs \<noteq> []" "sg_kind (last sgs) = Coalesced"
    using that by (cases sgs rule: rev_cases) (simp_all add: ordered_entries_def)
  ultimately show ?thesis by (auto simp: coalesced_tail_def)
qed

text \<open>Controller calls behind the queue's operations.\<close>

lemma queue_controller_run:
  assumes "queue_inv q" and "cq_controller q = Some c"
  shows "\<exists>cops. cq_controller (run queue_step q ops) = Some (run ctl_step c cops)"
  using assms
proof (induction ops arbitrary: q c)
  case Nil
  then show ?case by (intro exI [of _ "[]"]) simp
next
  case (Cons op ops)
  have "\<exists>cops. cq_controller (queue_step q op) = Some (run ctl_step c cops)"
  proof -
    have cap: "\<exists>cops. x = Some (run ctl_step c cops)" if "captured (Some c) x" for x
      using that unfolding captured_def
    proof (elim disjE exE conjE)
      assume "x = Some c"
      then show ?thesis by (intro exI [of _ "[]"]) simp
    next
      fix a current now
      assume "Some c = Some a" "x = Some (ctl_step a (Capture current now))"
      then show ?thesis by (intro exI [of _ "[Capture current now]"]) simp
    qed
    show ?thesis
    proof (cases op)
      case (Put args current now)
      show ?thesis
        by (cases rule: put_result [of args current now q])
           (use Put Cons.prems(2) cap in auto)
    next
      case (PutOrdered args current now)
      show ?thesis
        by (cases rule: put_result [of args current now q])
           (use PutOrdered Cons.prems(2) cap in auto)
    next
      case (ControllerCall cop)
      then show ?thesis using Cons.prems(2) by (intro exI [of _ "[cop]"]) simp
    next
      case Take
      have "list_all segment_ok (cq_segments q)" using Cons.prems(1) by (simp add: queue_inv_def)
      then have "cq_controller (queue_step q op) = Some c"
        by (cases rule: take_entry_cases) (use Take Cons.prems(2) in auto)
      then show ?thesis by (intro exI [of _ "[]"]) simp
    next
      case (RemovePending e)
      from Cons.prems(1) have "cq_controller (queue_step q op) = Some c"
        by (cases rule: remove_pending_cases [of q e])
           (use RemovePending Cons.prems(2) in auto)
      then show ?thesis by (intro exI [of _ "[]"]) simp
    next
      case (FutureCancelled e)
      from Cons.prems(1) have "cq_controller (queue_step q op) = Some c"
        by (cases rule: remove_pending_cases [of q e])
           (use FutureCancelled Cons.prems(2) in \<open>auto simp: future_cancelled_def\<close>)
      then show ?thesis by (intro exI [of _ "[]"]) simp
    qed (use Cons.prems(2) in \<open>auto simp: drain_entries_def register_session_def
        unregister_session_def intro!: exI [of _ "[]"]\<close>)
  qed
  then obtain cops where "cq_controller (queue_step q op) = Some (run ctl_step c cops)" by blast
  from Cons.IH [OF queue_step_inv [OF Cons.prems(1)] this]
  obtain cops' where "cq_controller (run queue_step (queue_step q op) ops) =
      Some (run ctl_step (run ctl_step c cops) cops')" by blast
  then show ?case by (intro exI [of _ "cops @ cops'"]) simp
qed

section \<open>Properties\<close>

text \<open>
  The event never lies: in every reachable queue the notification flag is set exactly when
  a command is pending, \<open>queue_pending_count\<close> is the number of entries \<open>drain\<close> returns, every entry
  is pending once, PTT entries are never coalesced and an ordered segment holds one entry.
\<close>

theorem queue_well_formed:
  assumes "queue_reachable q"
  shows "(cq_notify q \<longleftrightarrow> queue_pending_count q \<noteq> 0) \<and> (has_commands q \<longleftrightarrow> queue_pending_count q \<noteq> 0) \<and>
    queue_pending_count q = length (fst (drain_entries q)) \<and>
    distinct (map qe_id (fst (drain_entries q))) \<and> list_all segment_ok (cq_segments q)"
proof -
  have inv: "queue_inv q" by (rule queue_reachable_inv [OF assms])
  then have ok: "list_all segment_ok (cq_segments q)" by (simp add: queue_inv_def)
  show ?thesis
    using inv queue_pending_count_entries [OF ok] entries_of_empty [OF ok] has_commands_iff [OF ok]
    by (auto simp: queue_inv_def)
qed

text \<open>
  C10. Draining at once and taking one by one give the same commands in the same order: taking
  as many times as \<open>queue_pending_count\<close> says returns exactly what \<open>drain_entries\<close> returns, and the
  next \<open>take_entry\<close> finds nothing.
\<close>

theorem take_repeats_drain:
  assumes "queue_reachable q"
  shows "fst (take_n (queue_pending_count q) q) = fst (drain_entries q) \<and>
    fst (take_entry (snd (take_n (queue_pending_count q) q))) = None"
  using take_n_all [OF queue_reachable_inv [OF assms] refl] by (simp add: take_entry_def)

text \<open>
  C11. What \<open>put\<close> may displace: the new entry either joins the pending ones, or takes the place
  of the one pending entry of the same kind of command and target in the tail segment. No PTT
  entry is ever displaced, every ordered entry stays ahead of the new one, and the order of all
  the others is unchanged; \<open>put_ordered\<close> always appends.
\<close>

theorem put_keeps_order:
  assumes "queue_reachable q"
    and "put args current now q = (Inr (), q1)"
    and "put_ordered args current now q = (Inr e2, q2)"
  shows "(\<exists>e xs old ys. fst (drain_entries q) = xs @ old @ ys \<and>
      fst (drain_entries q1) = xs @ e # ys \<and> qe_command e = qe_command args \<and>
      replaces e old \<and> set (ordered_entries (cq_segments q)) \<subseteq> set xs) \<and>
    fst (drain_entries q2) = fst (drain_entries q) @ [e2] \<and> qe_command e2 = qe_command args"
proof -
  have ok: "list_all segment_ok (cq_segments q)"
    using queue_reachable_inv [OF assms(1)] by (simp add: queue_inv_def)
  note tail = coalesced_tail_entries [OF ok]
  show ?thesis
  proof (cases rule: put_result [of args current now q])
    case (accepted e q1' q2')
    obtain xs old ys where parts: "segment_entries (snd (coalesced_tail (cq_segments q))) = xs @ old @ ys"
        "segment_entries (put_in e (snd (coalesced_tail (cq_segments q)))) = xs @ e # ys"
        "replaces e old"
      by (rule put_in_entries [OF tail(3,4)])
    have "fst (drain_entries q) = (entries_of (fst (coalesced_tail (cq_segments q))) @ xs) @ old @ ys"
      "fst (drain_entries q1) = (entries_of (fst (coalesced_tail (cq_segments q))) @ xs) @ e # ys"
      using tail(1) parts accepted(1,5) assms(2) by simp_all
    moreover have "set (ordered_entries (cq_segments q)) \<subseteq>
        set (entries_of (fst (coalesced_tail (cq_segments q))) @ xs)"
      using ordered_entries_front [of "cq_segments q"] by auto
    moreover have "fst (drain_entries q2) = fst (drain_entries q) @ [e2]" "qe_command e2 = qe_command args"
      using accepted(2,4,6) assms(3) by (simp_all add: segment_ordered_entry_def segment_entries_def)
    ultimately show ?thesis using parts(3) accepted(4) by blast
  qed (use assms in simp)
qed

text \<open>
  Removal is exact: \<open>remove_pending\<close> answers whether the entry was pending, takes out that
  entry and nothing else, and leaves the order of the others.
\<close>

theorem remove_pending_exact:
  assumes "queue_reachable q"
  shows "(fst (remove_pending e q) \<longleftrightarrow> qe_id e \<in> qe_id ` set (fst (drain_entries q))) \<and>
    fst (drain_entries (snd (remove_pending e q))) = without (qe_id e) (fst (drain_entries q))"
  by (cases rule: remove_pending_cases [OF queue_reachable_inv [OF assms], of e])
     (auto simp: without_absent)

text \<open>
  Unkeying is never gated: a typed PTT off, or a \<open>SendCiv\<close> whose wire bytes end a
  transmission, is queued whatever the controller authority would answer, and carries no
  ticket that a revocation could void.
\<close>

theorem unkey_is_always_queued:
  assumes "queue_reachable q"
    and "qe_command args = Some (OperatingCmd PttOff) \<or>
      (\<exists>command sub data frame. qe_command args = Some (FrontCmd (SendCiv command sub data)) \<and>
         send_civ_frame command sub data = Some frame \<and> is_exact_raw_transmission_end_frame frame)"
  shows "\<exists>q1 e. put args current now q = (Inr (), q1) \<and> e \<in> set (fst (drain_entries q1)) \<and>
    qe_command e = qe_command args \<and> qe_controller_ticket e = None"
proof -
  have exempt: "needs_no_ticket (qe_command args)"
    using assms(2) by (auto simp: needs_no_ticket_def)
  have ok: "list_all segment_ok (cq_segments q)"
    using queue_reachable_inv [OF assms(1)] by (simp add: queue_inv_def)
  note tail = coalesced_tail_entries [OF ok]
  show ?thesis
  proof (cases rule: put_result [of args current now q])
    case (refused err q')
    then show ?thesis
      using exempt by (auto simp: put_def controller_ticket_def Let_def
          split: option.splits prod.splits)
  next
    case (accepted e q1 q2)
    obtain xs old ys where
        "segment_entries (put_in e (snd (coalesced_tail (cq_segments q)))) = xs @ e # ys"
      by (rule put_in_entries [OF tail(3,4)])
    then have "e \<in> set (fst (drain_entries q1))" using accepted(5) by simp
    then show ?thesis using accepted exempt by blast
  qed
qed

text \<open>
  C5. Revocation reaches into the queue: once the bound authority is revoked in local mode or
  with a grant held, no entry that was pending with a ticket passes the currency check any
  more, on any later state of the queue and its controller.
\<close>

theorem revoke_voids_queued_commands:
  assumes "queue_reachable q" and "cq_controller q = Some c"
    and "ca_mode c = Local \<or> ca_state c = Held"
    and "e \<in> set (fst (drain_entries q))" and "qe_controller_ticket e \<noteq> None"
    and "cq_controller (run queue_step q (ControllerCall Revoke # later)) = Some c'"
  shows "\<exists>err. fst (validate_entry_currency e now pg cg live req c') = Inl err"
proof -
  have inv: "queue_inv q" by (rule queue_reachable_inv [OF assms(1)])
  obtain t where t: "qe_controller_ticket e = Some t" using assms(5) by auto
  have "tk_generation t \<le> ca_generation c"
    using inv assms(2,4) t by (auto simp: queue_inv_def list_all_iff ticket_bound_def)
  also have "\<dots> < ca_generation (revoke c)"
    using assms(3) inv assms(2)
    by (cases "ca_mode c") (auto simp: revoke_def queue_inv_def ctl_inv_def)
  finally have old: "tk_generation t < ca_generation (revoke c)" .
  have c_inv: "ctl_inv (revoke c)" using inv assms(2) by (simp add: queue_inv_def revoke_inv)
  have "cq_controller (queue_step q (ControllerCall Revoke)) = Some (revoke c)"
    using assms(2) by simp
  from queue_controller_run [OF queue_step_inv [OF inv] this, of later]
  obtain cops where "cq_controller (run queue_step (queue_step q (ControllerCall Revoke)) later) =
      Some (run ctl_step (revoke c) cops)" by blast
  with assms(6) have c': "c' = run ctl_step (revoke c) cops"
    by (simp only: run_Cons option.inject)
  have "\<not> ticket_current (run ctl_step (revoke c) (cops @ [Tick now])) t"
    using controller.stale_forever [OF c_inv old, of "cops @ [Tick now]"]
    by (auto simp: ticket_current_def)
  then have "fst (validate t now c') = Inl controller_invalid"
    by (simp add: validate_def Let_def c')
  then show ?thesis by (auto simp: validate_entry_currency_def t)
qed

section \<open>Witnesses\<close>

definition entry_for :: "command \<Rightarrow> queue_entry" where
  "entry_for cmd = \<lparr>qe_id = 0, qe_command = Some cmd, qe_future = None, qe_command_id = None,
     qe_source = None, qe_session_id = None, qe_command_service = None, qe_expires_at = None,
     qe_provider_generation = None, qe_connection_generation = None, qe_positive_tx_ready = None,
     qe_positive_tx_submission = None, qe_controller_ticket = None\<rparr>"

definition demo_bound :: command_queue where
  "demo_bound = queue_new\<lparr>cq_controller := Some demo_base\<rparr>"

lemma demo_bound_reachable: "queue_reachable demo_bound"
  by (rule queue_reachable.bound [OF queue_reachable.start _ demo_base_new])
     (simp_all add: queue_new_def demo_bound_def bind_controller_def)

text \<open>A frequency, a PTT on, an ordered mode change, and the frequency twice again.\<close>

definition demo_queue :: command_queue where
  "demo_queue = run queue_step demo_bound
     [Put (entry_for (FrontCmd (SetFreq 7000000 0))) None 0,
      Put (entry_for (OperatingCmd PttOn)) None 0,
      PutOrdered (entry_for (FrontCmd (front_command.SetMode ''USB'' None 0))) None 0,
      Put (entry_for (FrontCmd (SetFreq 7100000 0))) None 0,
      Put (entry_for (FrontCmd (SetFreq 7200000 0))) None 0]"

lemma demo_queue_reachable: "queue_reachable demo_queue"
  unfolding demo_queue_def by (rule queue_reachable_run [OF demo_bound_reachable])

lemma demo_queue_drain:
  "map qe_command (fst (drain_entries demo_queue)) =
     [Some (OperatingCmd PttOn), Some (FrontCmd (SetFreq 7000000 0)),
      Some (FrontCmd (front_command.SetMode ''USB'' None 0)), Some (FrontCmd (SetFreq 7200000 0))]"
  by code_simp

theorem queue_well_formed_witness:
  "queue_pending_count demo_queue = length (fst (drain_entries demo_queue)) \<and> has_commands demo_queue"
proof -
  have "queue_pending_count demo_queue = 4" by code_simp
  then show ?thesis using queue_well_formed [OF demo_queue_reachable] by simp
qed

theorem take_repeats_drain_witness:
  "map qe_command (fst (take_n (queue_pending_count demo_queue) demo_queue)) =
     [Some (OperatingCmd PttOn), Some (FrontCmd (SetFreq 7000000 0)),
      Some (FrontCmd (front_command.SetMode ''USB'' None 0)), Some (FrontCmd (SetFreq 7200000 0))]"
  using take_repeats_drain [OF demo_queue_reachable] demo_queue_drain by simp

definition demo_args :: queue_entry where
  "demo_args = entry_for (OperatingCmd PttOff)"

theorem put_keeps_order_witness:
  "\<exists>e xs old ys. fst (drain_entries demo_queue) = xs @ old @ ys \<and>
     fst (drain_entries (snd (put demo_args None 0 demo_queue))) = xs @ e # ys \<and>
     qe_command e = Some (OperatingCmd PttOff) \<and> replaces e old"
proof -
  have "fst (put demo_args None 0 demo_queue) = Inr ()" by code_simp
  then have p: "put demo_args None 0 demo_queue = (Inr (), snd (put demo_args None 0 demo_queue))"
    by (simp add: prod_eq_iff)
  obtain e2 where "fst (put_ordered demo_args None 0 demo_queue) = Inr e2"
    by (cases rule: put_result [of demo_args None 0 demo_queue]) (use p in auto)
  then have o2: "put_ordered demo_args None 0 demo_queue =
      (Inr e2, snd (put_ordered demo_args None 0 demo_queue))"
    by (simp add: prod_eq_iff)
  from put_keeps_order [OF demo_queue_reachable p o2] show ?thesis
    by (simp add: demo_args_def entry_for_def) blast
qed

definition demo_first :: queue_entry where
  "demo_first = hd (fst (drain_entries demo_queue))"

theorem remove_pending_exact_witness:
  "map qe_command (fst (drain_entries (snd (remove_pending demo_first demo_queue)))) =
     [Some (FrontCmd (SetFreq 7000000 0)), Some (FrontCmd (front_command.SetMode ''USB'' None 0)),
      Some (FrontCmd (SetFreq 7200000 0))]"
proof -
  have "map qe_command (without (qe_id demo_first) (fst (drain_entries demo_queue))) =
     [Some (FrontCmd (SetFreq 7000000 0)), Some (FrontCmd (front_command.SetMode ''USB'' None 0)),
      Some (FrontCmd (SetFreq 7200000 0))]" by code_simp
  then show ?thesis
    using remove_pending_exact [OF demo_queue_reachable, of demo_first] by simp
qed

theorem unkey_is_always_queued_witness:
  "\<exists>q1 e. put demo_args None 0 demo_queue = (Inr (), q1) \<and> e \<in> set (fst (drain_entries q1)) \<and>
     qe_command e = Some (OperatingCmd PttOff) \<and> qe_controller_ticket e = None"
  using unkey_is_always_queued [OF demo_queue_reachable, of demo_args]
  by (simp add: demo_args_def entry_for_def)

theorem revoke_voids_queued_commands_witness:
  "\<exists>err. fst (validate_entry_currency demo_first 0 None None (\<lambda>_. True) False
     (the (cq_controller (run queue_step demo_queue [ControllerCall Revoke, Take])))) = Inl err"
proof -
  obtain c where c: "cq_controller demo_queue = Some c" and "ca_mode c = Local"
  proof -
    have "map_option ca_mode (cq_controller demo_queue) = Some Local" by code_simp
    then show ?thesis using that by auto
  qed
  moreover have "fst (drain_entries demo_queue) \<noteq> []" using demo_queue_drain by auto
  then have "demo_first \<in> set (fst (drain_entries demo_queue))"
    unfolding demo_first_def by (rule hd_in_set)
  moreover have "qe_controller_ticket demo_first \<noteq> None" by code_simp
  moreover have "cq_controller (run queue_step demo_queue [ControllerCall Revoke, Take]) \<noteq> None"
    by code_simp
  then have "cq_controller (run queue_step demo_queue (ControllerCall Revoke # [Take])) =
      Some (the (cq_controller (run queue_step demo_queue [ControllerCall Revoke, Take])))"
    by simp
  ultimately show ?thesis
    using revoke_voids_queued_commands [OF demo_queue_reachable] by blast
qed

end
