(* ===== verification/Sequences.thy ===== *)
theory Sequences
  imports Prelude "HOL-Library.AList"
begin

text \<open>
  What the packet components share: 16-bit sequence numbers that wrap, the \<open>struct\<close>
  formats of the packet headers, and the contract of a component that turns numbered
  packets into an ordered output with gaps.

  \<^item> \<open>ahead n s\<close> is \<open>(s - n) & 0xFFFF\<close>: how far \<open>s\<close> lies ahead of \<open>n\<close>.
  \<^item> A dictionary keyed by sequence number is an association list in insertion order with
    distinct keys (\<open>AList.update\<close>, \<open>AList.delete\<close>, \<open>map_of\<close>).
  \<^item> An output slot is \<open>Some\<close> packet or \<open>None\<close> for a number that was given up.
\<close>

type_synonym seqno = "16 word"

section \<open>Sequence numbers\<close>

definition ahead :: "seqno \<Rightarrow> seqno \<Rightarrow> nat" where
  "ahead n s = unat (s - n)"

named_theorems seq_simps \<open>distances between sequence numbers\<close>

lemma ahead_self [simp]: "ahead n n = 0"
  by (simp add: ahead_def)

lemma ahead_0_iff [simp]: "ahead n s = 0 \<longleftrightarrow> s = n"
  by (auto simp: ahead_def unat_eq_0)

lemma ahead_less: "ahead n s < 65536"
proof -
  have "unat (s - n) < 2 ^ LENGTH(16)" by (rule unsigned_less)
  then show ?thesis by (simp add: ahead_def)
qed

lemma of_nat_ahead: "n + of_nat (ahead n s) = s"
  by (simp add: ahead_def)

lemma ahead_inj: "ahead n s = ahead n t \<longleftrightarrow> s = t"
  by (metis of_nat_ahead)

lemma ahead_of_nat: "k < 65536 \<Longrightarrow> ahead n (n + of_nat k) = k"
  by (simp add: ahead_def unat_of_nat)

lemma ahead_Suc [seq_simps]: "s \<noteq> n \<Longrightarrow> ahead (n + 1) s = ahead n s - 1"
proof -
  assume "s \<noteq> n"
  then have "s - n \<noteq> 0" by simp
  then have "unat (s - n - 1) = unat (s - n) - 1" by (rule unat_minus_one)
  then show ?thesis by (simp add: ahead_def algebra_simps)
qed

lemma ahead_pos: "s \<noteq> n \<Longrightarrow> 0 < ahead n s"
  using ahead_0_iff [of n s] by linarith

lemma ahead_add [seq_simps]: "k \<le> ahead n s \<Longrightarrow> ahead (n + of_nat k) s = ahead n s - k"
proof (induction k)
  case 0
  then show ?case by simp
next
  case (Suc k)
  then have k: "ahead (n + of_nat k) s = ahead n s - k" and "0 < ahead n s - k" by simp_all
  then have "s \<noteq> n + of_nat k" by (metis ahead_self less_numeral_extra(3))
  then have "ahead (n + of_nat k + 1) s = ahead n s - k - 1"
    using k by (simp add: ahead_Suc)
  then show ?case by (simp add: algebra_simps)
qed

section \<open>Packets held ahead of a missing number\<close>

fun held_measure :: "seqno \<Rightarrow> (seqno \<times> 'p) list \<Rightarrow> nat" where
  "held_measure seq [] = 0"
| "held_measure seq ((s, p) # buf) = Suc (ahead seq s) + held_measure seq buf"

lemma ahead_Suc_le: "s \<noteq> n \<Longrightarrow> ahead (n + 1) s \<le> ahead n s"
  by (simp add: ahead_Suc)

lemma ahead_Suc_less: "s \<noteq> n \<Longrightarrow> ahead (n + 1) s < ahead n s"
  using ahead_pos [of s n] by (simp add: ahead_Suc)

lemma held_measure_delete_le: "held_measure (seq + 1) (AList.delete seq buf) \<le> held_measure seq buf"
proof (induction buf)
  case Nil
  then show ?case by simp
next
  case (Cons x buf)
  obtain s p where "x = (s, p)" by (cases x)
  then show ?case using Cons.IH ahead_Suc_le [of s seq] by (cases "s = seq") simp_all
qed

lemma held_measure_delete: "map_of buf seq = Some p \<Longrightarrow>
    held_measure (seq + 1) (AList.delete seq buf) < held_measure seq buf"
proof (induction buf)
  case Nil
  then show ?case by simp
next
  case (Cons x buf)
  obtain s q where "x = (s, q)" by (cases x)
  then show ?case
    using Cons held_measure_delete_le [of seq buf] ahead_Suc_le [of s seq] by (cases "s = seq") simp_all
qed

lemma held_measure_skip: "map_of buf seq = None \<Longrightarrow> buf \<noteq> [] \<Longrightarrow>
    held_measure (seq + 1) buf < held_measure seq buf"
proof (induction buf)
  case Nil
  then show ?case by simp
next
  case (Cons x buf)
  obtain s q where "x = (s, q)" by (cases x)
  then show ?case
    using Cons ahead_Suc_less [of s seq] by (cases buf) (auto split: if_splits)
qed

definition held_ok :: "('p \<Rightarrow> seqno) \<Rightarrow> seqno \<Rightarrow> (seqno \<times> 'p) list \<Rightarrow> bool" where
  "held_ok num n buf \<longleftrightarrow> distinct (map fst buf) \<and> list_all (\<lambda>(s, p). num p = s \<and> ahead n s \<le> 0x8000) buf"

lemma held_ok_Nil [simp]: "held_ok num n []"
  by (simp add: held_ok_def)

lemma length_delete:
  "distinct (map fst al) \<Longrightarrow> map_of al k = Some v \<Longrightarrow> Suc (length (AList.delete k al)) = length al"
proof (induction al)
  case Nil
  then show ?case by simp
next
  case (Cons x al)
  then show ?case by (cases x) (auto split: if_splits simp: delete_id)
qed

lemma held_ok_delete:
  assumes "held_ok num n buf"
  shows "held_ok num (n + 1) (AList.delete n buf)"
proof -
  have "ahead (n + 1) s \<le> 0x8000" if "(s, p) \<in> set (AList.delete n buf)" for s p
  proof -
    have "s \<noteq> n" using that delete_notin_dom [of n buf] by force
    moreover have "(s, p) \<in> set buf" using that by (auto simp: AList.delete_eq)
    ultimately show ?thesis
      using assms ahead_Suc_le [of s n] by (auto simp: held_ok_def list_all_iff)
  qed
  moreover have "num p = s" if "(s, p) \<in> set (AList.delete n buf)" for s p
    using that assms by (auto simp: held_ok_def list_all_iff AList.delete_eq)
  ultimately show ?thesis
    using assms distinct_delete [of buf n] by (auto simp: held_ok_def list_all_iff)
qed

lemma held_ok_skip:
  assumes "held_ok num n buf" and "map_of buf n = None"
  shows "held_ok num (n + 1) buf"
proof -
  have "ahead (n + 1) s \<le> 0x8000" if "(s, p) \<in> set buf" for s p
    using assms that ahead_Suc_le [of s n]
    by (force simp: held_ok_def list_all_iff map_of_eq_None_iff)
  then show ?thesis using assms by (auto simp: held_ok_def list_all_iff)
qed

lemma held_ok_update:
  assumes "held_ok num n buf" and "map_of buf (num p) = None" and "ahead n (num p) \<le> 0x8000"
  shows "held_ok num n (AList.update (num p) p buf)" and "length (AList.update (num p) p buf) = Suc (length buf)"
    and "AList.update (num p) p buf = buf @ [(num p, p)]"
proof -
  have "num p \<notin> fst ` set buf" using assms(2) by (simp add: map_of_eq_None_iff)
  then have upd: "AList.update (num p) p buf = buf @ [(num p, p)]"
    by (induction buf) (auto simp: image_iff)
  show "held_ok num n (AList.update (num p) p buf)"
    using assms \<open>num p \<notin> fst ` set buf\<close> by (auto simp: upd held_ok_def)
  show "length (AList.update (num p) p buf) = Suc (length buf)"
    by (simp add: upd)
  show "AList.update (num p) p buf = buf @ [(num p, p)]" by (rule upd)
qed

section \<open>Header formats\<close>

definition le16 :: "16 word \<Rightarrow> byte list" where
  "le16 w = [ucast w, ucast (drop_bit 8 w)]"

definition be16 :: "16 word \<Rightarrow> byte list" where
  "be16 w = [ucast (drop_bit 8 w), ucast w]"

definition le32 :: "32 word \<Rightarrow> byte list" where
  "le32 w = [ucast w, ucast (drop_bit 8 w), ucast (drop_bit 16 w), ucast (drop_bit 24 w)]"

definition word16 :: "byte \<Rightarrow> byte \<Rightarrow> 16 word" where
  "word16 hi lo = push_bit 8 (ucast hi) OR ucast lo"

definition word32 :: "byte \<Rightarrow> byte \<Rightarrow> byte \<Rightarrow> byte \<Rightarrow> 32 word" where
  "word32 b3 b2 b1 b0 =
     push_bit 24 (ucast b3) OR push_bit 16 (ucast b2) OR push_bit 8 (ucast b1) OR ucast b0"

text \<open>\<open>struct.unpack_from\<close> at an offset inside the buffer.\<close>

definition get_le16 :: "byte list \<Rightarrow> nat \<Rightarrow> 16 word" where
  "get_le16 d i = word16 (d ! (i + 1)) (d ! i)"

definition get_be16 :: "byte list \<Rightarrow> nat \<Rightarrow> 16 word" where
  "get_be16 d i = word16 (d ! i) (d ! (i + 1))"

definition get_le32 :: "byte list \<Rightarrow> nat \<Rightarrow> 32 word" where
  "get_le32 d i = word32 (d ! (i + 3)) (d ! (i + 2)) (d ! (i + 1)) (d ! i)"

lemma length_formats [simp]: "length (le16 w) = 2" "length (be16 w) = 2" "length (le32 v) = 4"
  by (simp_all add: le16_def be16_def le32_def)

lemma word16_bytes: "word16 (ucast (drop_bit 8 w)) (ucast w) = w"
  by (rule bit_word_eqI) (auto simp: word16_def bit_simps)

lemma word32_bytes:
  "word32 (ucast (drop_bit 24 w)) (ucast (drop_bit 16 w)) (ucast (drop_bit 8 w)) (ucast w) = w"
  by (rule bit_word_eqI, rename_tac n, case_tac "n < 16"; case_tac "n < 24")
    (auto simp: word32_def bit_simps)

lemma nth_append3: "length xs = i \<Longrightarrow> k < length ys \<Longrightarrow> (xs @ ys @ zs) ! (i + k) = ys ! k"
  by (simp add: nth_append)

lemma get_le16_append: "length xs = i \<Longrightarrow> get_le16 (xs @ le16 w @ zs) i = w"
  using nth_append3 [of xs i 0 "le16 w" zs] nth_append3 [of xs i 1 "le16 w" zs]
  by (simp add: get_le16_def le16_def word16_bytes)

lemma get_be16_append: "length xs = i \<Longrightarrow> get_be16 (xs @ be16 w @ zs) i = w"
  using nth_append3 [of xs i 0 "be16 w" zs] nth_append3 [of xs i 1 "be16 w" zs]
  by (simp add: get_be16_def be16_def word16_bytes)

lemma get_le32_append: "length xs = i \<Longrightarrow> get_le32 (xs @ le32 w @ zs) i = w"
  using nth_append3 [of xs i 0 "le32 w" zs] nth_append3 [of xs i 1 "le32 w" zs]
    nth_append3 [of xs i 2 "le32 w" zs] nth_append3 [of xs i 3 "le32 w" zs]
  by (simp add: get_le32_def le32_def word32_bytes)

section \<open>Ordered output with gaps\<close>

definition gap_number :: "'p option list \<Rightarrow> nat" where
  "gap_number r = length (filter (\<lambda>x. x = None) r)"

definition packet_number :: "'p option list \<Rightarrow> nat" where
  "packet_number r = length (filter (\<lambda>x. x \<noteq> None) r)"

fun slot_packets :: "'p option list \<Rightarrow> 'p list" where
  "slot_packets [] = []"
| "slot_packets (Some p # r) = p # slot_packets r"
| "slot_packets (None # r) = slot_packets r"

lemma slot_packets_append [simp]: "slot_packets (r @ q) = slot_packets r @ slot_packets q"
  by (induction r rule: slot_packets.induct) auto

lemma packet_number_simps [simp]: "packet_number [] = 0"
  "packet_number (Some p # r) = Suc (packet_number r)" "packet_number (None # r) = packet_number r"
  by (simp_all add: packet_number_def)

lemma gap_number_simps [simp]: "gap_number [] = 0"
  "gap_number (Some p # r) = gap_number r" "gap_number (None # r) = Suc (gap_number r)"
  by (simp_all add: gap_number_def)

lemma packet_number_append [simp]: "packet_number (r @ q) = packet_number r + packet_number q"
  by (simp add: packet_number_def)

lemma packets_and_gaps: "packet_number r + gap_number r = length r"
  by (induction r) (auto simp: packet_number_def gap_number_def)

text \<open>The slots of an output that starts at number \<open>n\<close> carry \<open>n\<close>, \<open>n + 1\<close>, ... or a gap.\<close>

fun numbered :: "('p \<Rightarrow> seqno) \<Rightarrow> seqno \<Rightarrow> 'p option list \<Rightarrow> bool" where
  "numbered num n [] \<longleftrightarrow> True"
| "numbered num n (x # xs) \<longleftrightarrow>
     (case x of None \<Rightarrow> True | Some p \<Rightarrow> num p = n) \<and> numbered num (n + 1) xs"

lemma numbered_append [simp]:
  "numbered num n (xs @ ys) \<longleftrightarrow> numbered num n xs \<and> numbered num (n + of_nat (length xs)) ys"
  by (induction xs arbitrary: n) (auto simp: algebra_simps)

lemma numbered_nth:
  "numbered num n xs \<Longrightarrow> i < length xs \<Longrightarrow> xs ! i = Some p \<Longrightarrow> num p = n + of_nat i"
proof (induction xs arbitrary: n i)
  case Nil
  then show ?case by simp
next
  case (Cons x xs)
  then show ?case by (cases i) (auto simp: algebra_simps)
qed

text \<open>
  A component that is fed events and puts out slots: \<open>feed\<close> collects the output of a run.
\<close>

fun feed :: "('s \<Rightarrow> 'e \<Rightarrow> 'o list \<times> 's) \<Rightarrow> 's \<Rightarrow> 'e list \<Rightarrow> 'o list \<times> 's" where
  "feed step s [] = ([], s)"
| "feed step s (e # es) = (let (out, t) = step s e; (outs, u) = feed step t es in (out @ outs, u))"

locale ordered_output =
  fixes step :: "'s \<Rightarrow> 'e \<Rightarrow> 'p option list \<times> 's"
    and inv :: "'s \<Rightarrow> bool"
    and next_number :: "'s \<Rightarrow> seqno"
    and num :: "'p \<Rightarrow> seqno"
  assumes step_inv: "inv s \<Longrightarrow> inv (snd (step s e))"
    and step_numbered: "inv s \<Longrightarrow> numbered num (next_number s) (fst (step s e))"
    and step_next: "inv s \<Longrightarrow>
      next_number (snd (step s e)) = next_number s + of_nat (length (fst (step s e)))"
begin

lemma feed_inv: "inv s \<Longrightarrow> inv (snd (feed step s es))"
  by (induction es arbitrary: s) (auto simp: Let_def split_beta intro: step_inv)

lemma feed_next:
  "inv s \<Longrightarrow> next_number (snd (feed step s es)) = next_number s + of_nat (length (fst (feed step s es)))"
  by (induction es arbitrary: s) (auto simp: Let_def split_beta step_inv step_next algebra_simps)

lemma feed_numbered: "inv s \<Longrightarrow> numbered num (next_number s) (fst (feed step s es))"
proof (induction es arbitrary: s)
  case Nil
  then show ?case by simp
next
  case (Cons e es)
  show ?case
    using Cons.IH [OF step_inv [OF Cons.prems, of e]] step_numbered [OF Cons.prems, of e]
      step_next [OF Cons.prems, of e]
    by (simp add: Let_def split_beta)
qed

text \<open>So the packet in slot \<open>i\<close> is the one numbered \<open>i\<close> after the start.\<close>

lemma feed_slot:
  assumes "inv s" and "i < length (fst (feed step s es))" and "fst (feed step s es) ! i = Some p"
  shows "num p = next_number s + of_nat i"
  using numbered_nth [OF feed_numbered [OF assms(1)] assms(2,3)] .

end

end
