(* ===== verification/AudioStream.thy ===== *)
theory AudioStream
  imports Sequences
begin

text \<open>
  \<open>audio/lan_stream.py\<close>: \<open>AudioPacket\<close> with its parser and builder, \<open>JitterBuffer\<close>, and the
  receive and transmit sides of \<open>AudioStream\<close>.

  \<^item> \<open>send_seq\<close> is read from and written to a 16-bit header field, so it is a \<open>seqno\<close>; the
    connection ids are the 32-bit header fields.
  \<^item> The jitter buffer's dictionary is an association list; \<open>jb_deliver\<close> and \<open>jb_flush_loop\<close>
    are its two loops, proved to end.
  \<^item> The stream's callbacks are numbers; what they are called with is the log. The receive
    task is a flag, and each packet it takes from the transport is one step. A callback
    does not raise.
\<close>

section \<open>Packets\<close>

record audio_packet =
  ap_ident :: "16 word"
  ap_seq :: seqno
  ap_data :: "byte list"

definition AUDIO_HEADER_SIZE :: nat where
  "AUDIO_HEADER_SIZE = 0x18"

definition TX_IDENT :: "16 word" where
  "TX_IDENT = 0x0080"

definition MAX_AUDIO_PAYLOAD :: nat where
  "MAX_AUDIO_PAYLOAD = 1364"

definition PACKET_DATA :: "16 word" where
  "PACKET_DATA = 0x00"

definition parse_audio_packet :: "byte list \<Rightarrow> audio_packet option" where
  "parse_audio_packet data =
     (if length data \<le> AUDIO_HEADER_SIZE then None
      else if get_le16 data 0x04 \<noteq> PACKET_DATA then None
      else Some \<lparr>ap_ident = get_le16 data 0x10, ap_seq = get_be16 data 0x12,
                 ap_data = drop AUDIO_HEADER_SIZE data\<rparr>)"

text \<open>The two length fields raise \<open>struct.error\<close> when the payload does not fit them.\<close>

definition build_audio_packet ::
  "byte list \<Rightarrow> 32 word \<Rightarrow> 32 word \<Rightarrow> seqno \<Rightarrow> 16 word \<Rightarrow> byte list result" where
  "build_audio_packet audio sender receiver seq ident =
     (let total = AUDIO_HEADER_SIZE + length audio in
      if 2 ^ 32 \<le> total \<or> 2 ^ 16 \<le> length audio then Inl StructError
      else Inr (le32 (of_nat total) @ le16 PACKET_DATA @ le16 0 @ le32 sender @ le32 receiver
        @ le16 ident @ be16 seq @ le16 0 @ be16 (of_nat (length audio)) @ audio))"

section \<open>The jitter buffer\<close>

record jitter =
  jb_depth :: int
  jb_buffer :: "(seqno \<times> audio_packet) list"
  jb_next :: "seqno option"
  jb_max_held :: int
  jb_duplicates :: nat
  jb_stale :: nat
  jb_gaps :: nat
  jb_underruns :: nat
  jb_overruns :: nat

definition jitter_new :: "int \<Rightarrow> jitter result" where
  "jitter_new depth =
     (if depth < 1 then Inl ValueError
      else Inr \<lparr>jb_depth = depth, jb_buffer = [], jb_next = None, jb_max_held = depth * 4,
                jb_duplicates = 0, jb_stale = 0, jb_gaps = 0, jb_underruns = 0, jb_overruns = 0\<rparr>)"

definition jb_pending :: "jitter \<Rightarrow> nat" where
  "jb_pending j = length (jb_buffer j)"

text \<open>\<open>ahead_count\<close>: the held packets ahead of a missing number.\<close>

definition ahead_count :: "seqno \<Rightarrow> (seqno \<times> audio_packet) list \<Rightarrow> nat" where
  "ahead_count seq buf = length (filter (\<lambda>(s, _). 0 < ahead seq s \<and> ahead seq s < 0x8000) buf)"

text \<open>
  The loop of \<open>_deliver\<close>: the slots it puts out, the next number, the packets left, and whether
  it stopped at a missing number (an underrun).
\<close>

function jb_deliver_loop ::
  "int \<Rightarrow> seqno \<Rightarrow> (seqno \<times> audio_packet) list
    \<Rightarrow> audio_packet option list \<times> seqno \<times> (seqno \<times> audio_packet) list \<times> bool"
where
  "jb_deliver_loop depth seq buf =
     (if buf = [] then ([], seq, buf, False)
      else case map_of buf seq of
        Some p \<Rightarrow>
          (let (r, out) = jb_deliver_loop depth (seq + 1) (AList.delete seq buf) in (Some p # r, out))
      | None \<Rightarrow>
          (if depth \<le> int (ahead_count seq buf)
           then (let (r, out) = jb_deliver_loop depth (seq + 1) buf in (None # r, out))
           else ([], seq, buf, True)))"
  by pat_completeness auto
termination
  by (relation "measure (\<lambda>(depth, seq, buf). held_measure seq buf)")
    (auto simp: held_measure_delete held_measure_skip)

declare jb_deliver_loop.simps [simp del]

definition jb_deliver :: "seqno \<Rightarrow> jitter \<Rightarrow> audio_packet option list \<times> jitter" where
  "jb_deliver nxt j =
     (let (r, n, b, underrun) = jb_deliver_loop (jb_depth j) nxt (jb_buffer j) in
      (r, j\<lparr>jb_buffer := b, jb_next := Some n, jb_gaps := jb_gaps j + gap_number r,
            jb_underruns := jb_underruns j + (if underrun then 1 else 0)\<rparr>))"

text \<open>
  The loop of \<open>_flush_all\<close> up to the number after \<open>max(self._buffer)\<close>; it also stops when more
  than \<open>cap\<close> slots are out.
\<close>

function jb_flush_loop ::
  "int \<Rightarrow> nat \<Rightarrow> seqno \<Rightarrow> seqno \<Rightarrow> (seqno \<times> audio_packet) list \<Rightarrow> audio_packet option list \<times> seqno"
where
  "jb_flush_loop cap n nxt stop buf =
     (if nxt = stop then ([], nxt)
      else if cap < int (Suc n) then ([map_of buf nxt], nxt + 1)
      else (let (r, e) = jb_flush_loop cap (Suc n) (nxt + 1) stop (AList.delete nxt buf) in
            (map_of buf nxt # r, e)))"
  by pat_completeness auto
termination
  by (relation "measure (\<lambda>(cap, n, nxt, stop, buf). ahead nxt stop)")
    (auto simp: ahead_Suc ahead_pos)

declare jb_flush_loop.simps [simp del]

definition max_key :: "(seqno \<times> audio_packet) list \<Rightarrow> seqno" where
  "max_key buf = foldr max (map fst buf) 0"

definition jb_flush_all :: "jitter \<Rightarrow> audio_packet option list \<times> jitter" where
  "jb_flush_all j =
     (if jb_buffer j = [] then ([], j)
      else case jb_next j of
        None \<Rightarrow> ([], j)
      | Some nxt \<Rightarrow>
          (let (r, n) = jb_flush_loop (jb_max_held j + jb_depth j) 0 nxt
                          (max_key (jb_buffer j) + 1) (jb_buffer j) in
           (r, j\<lparr>jb_next := Some n, jb_buffer := [], jb_gaps := jb_gaps j + gap_number r\<rparr>)))"

definition jb_push :: "audio_packet \<Rightarrow> jitter \<Rightarrow> audio_packet option list \<times> jitter" where
  "jb_push packet j0 =
     (let seq = ap_seq packet;
          nxt = (case jb_next j0 of None \<Rightarrow> seq | Some n \<Rightarrow> n);
          j = j0\<lparr>jb_next := Some nxt\<rparr>
      in if map_of (jb_buffer j) seq \<noteq> None then ([], j\<lparr>jb_duplicates := jb_duplicates j + 1\<rparr>)
         else if 0x8000 < ahead nxt seq then ([], j\<lparr>jb_stale := jb_stale j + 1\<rparr>)
         else
           let j1 = j\<lparr>jb_buffer := AList.update seq packet (jb_buffer j)\<rparr> in
           if jb_max_held j1 < int (jb_pending j1)
           then jb_flush_all (j1\<lparr>jb_overruns := jb_overruns j1 + 1\<rparr>)
           else if int (jb_pending j1) < jb_depth j1 then ([], j1)
           else jb_deliver nxt j1)"

section \<open>What the jitter buffer keeps\<close>

text \<open>Every gap is followed by at least \<open>d\<close> packets, \<open>k\<close> of them not yet put out.\<close>

fun gaps_justified :: "int \<Rightarrow> nat \<Rightarrow> audio_packet option list \<Rightarrow> bool" where
  "gaps_justified d k [] \<longleftrightarrow> True"
| "gaps_justified d k (x # xs) \<longleftrightarrow>
     (x \<noteq> None \<or> d \<le> int (packet_number xs + k)) \<and> gaps_justified d k xs"

lemma ahead_count_le: "ahead_count n buf \<le> length buf"
  by (simp add: ahead_count_def)

text \<open>At most one held packet is exactly half the number space ahead and not counted.\<close>

lemma length_le_ahead_count:
  assumes "held_ok ap_seq n buf" and "map_of buf n = None"
  shows "length buf \<le> Suc (ahead_count n buf)"
proof -
  let ?far = "filter (\<lambda>x. \<not> (\<lambda>(s, _). 0 < ahead n s \<and> ahead n s < 0x8000) x) buf"
  have half: "ahead n s = 0x8000" if "(s, p) \<in> set ?far" for s p
  proof -
    have "(s, p) \<in> set buf" using that by simp
    then have "s \<noteq> n" "ahead n s \<le> 0x8000"
      using assms by (auto simp: held_ok_def list_all_iff map_of_eq_None_iff intro: rev_image_eqI)
    then show ?thesis using that ahead_pos [of s n] by auto
  qed
  have far: "s = n + of_nat 0x8000" if "(s, p) \<in> set ?far" for s p
    using of_nat_ahead [of n s] half [OF that] by simp
  have "set (map fst ?far) \<subseteq> {n + of_nat 0x8000}"
  proof
    fix s assume "s \<in> set (map fst ?far)"
    then obtain p where "(s, p) \<in> set ?far" by (auto simp only: set_map fst_conv)
    then show "s \<in> {n + of_nat 0x8000}" using far by blast
  qed
  moreover have "distinct (map fst ?far)"
    using assms(1) by (auto simp: held_ok_def distinct_map_filter)
  ultimately have "length ?far \<le> 1"
    using distinct_card [of "map fst ?far"] card_mono [of "{n + of_nat 0x8000}" "set (map fst ?far)"] by simp
  then show ?thesis
    using sum_length_filter_compl [of "\<lambda>(s, _). 0 < ahead n s \<and> ahead n s < 0x8000" buf]
    by (simp add: ahead_count_def)
qed

lemma deliver_loop_spec:
  assumes "held_ok ap_seq n buf" and "jb_deliver_loop depth n buf = (r, n', b, u)"
  shows "numbered ap_seq n r" and "n' = n + of_nat (length r)" and "held_ok ap_seq n' b"
    and "packet_number r + length b = length buf" and "gaps_justified depth (length b) r"
    and "b = [] \<or> map_of b n' = None \<and> int (ahead_count n' b) < depth"
proof -
  have "held_ok ap_seq n buf \<Longrightarrow> jb_deliver_loop depth n buf = (r, n', b, u) \<Longrightarrow>
      numbered ap_seq n r \<and> n' = n + of_nat (length r) \<and> held_ok ap_seq n' b
      \<and> packet_number r + length b = length buf \<and> gaps_justified depth (length b) r
      \<and> (b = [] \<or> map_of b n' = None \<and> int (ahead_count n' b) < depth)"
  proof (induction depth n buf arbitrary: r rule: jb_deliver_loop.induct)
    case (1 depth seq buf)
    note loop = "1.prems"(2) [unfolded jb_deliver_loop.simps [of depth seq buf]]
    show ?case
    proof (cases "buf = []")
      case True
      then show ?thesis using loop by simp
    next
      case nonempty: False
      show ?thesis
      proof (cases "map_of buf seq")
        case (Some p)
        obtain r1 where r1: "jb_deliver_loop depth (seq + 1) (AList.delete seq buf) = (r1, n', b, u)"
            "r = Some p # r1"
          using loop nonempty Some by (auto split: prod.splits)
        have "ap_seq p = seq"
          using "1.prems"(1) map_of_SomeD [OF Some] by (auto simp: held_ok_def list_all_iff)
        moreover have "Suc (length (AList.delete seq buf)) = length buf"
          using length_delete [OF _ Some] "1.prems"(1) by (simp add: held_ok_def)
        ultimately show ?thesis
          using "1.IH"(2) [OF nonempty Some held_ok_delete [OF "1.prems"(1)] r1(1)] r1(2)
          by (auto simp: algebra_simps)
      next
        case None
        show ?thesis
        proof (cases "depth \<le> int (ahead_count seq buf)")
          case True
          obtain r1 where r1: "jb_deliver_loop depth (seq + 1) buf = (r1, n', b, u)" "r = None # r1"
            using loop nonempty None True by (auto split: prod.splits)
          show ?thesis
            using "1.IH"(1) [OF nonempty None True held_ok_skip [OF "1.prems"(1) None] r1(1)] r1(2)
              True ahead_count_le [of seq buf]
            by (auto simp: algebra_simps)
        next
          case False
          then show ?thesis using loop nonempty None "1.prems"(1) by simp
        qed
      qed
    qed
  qed
  then show "numbered ap_seq n r" "n' = n + of_nat (length r)" "held_ok ap_seq n' b"
    "packet_number r + length b = length buf" "gaps_justified depth (length b) r"
    "b = [] \<or> map_of b n' = None \<and> int (ahead_count n' b) < depth"
    using assms by blast+
qed


text \<open>The invariant: at most \<open>depth\<close> packets are held, so the overflow branch never runs.\<close>

definition jitter_inv :: "jitter \<Rightarrow> bool" where
  "jitter_inv j \<longleftrightarrow> 1 \<le> jb_depth j \<and> jb_max_held j = jb_depth j * 4 \<and> int (jb_pending j) \<le> jb_depth j
     \<and> jb_overruns j = 0
     \<and> (case jb_next j of None \<Rightarrow> jb_buffer j = [] | Some n \<Rightarrow> held_ok ap_seq n (jb_buffer j))"

definition jb_expected :: "jitter \<Rightarrow> seqno \<Rightarrow> seqno" where
  "jb_expected j s = (case jb_next j of None \<Rightarrow> s | Some n \<Rightarrow> n)"

lemma jitter_new_inv: "jitter_new depth = Inr j \<Longrightarrow> jitter_inv j \<and> jb_next j = None"
  by (auto simp: jitter_new_def jitter_inv_def jb_pending_def split: if_splits)

text \<open>The three outcomes of a push.\<close>

lemma jb_push_cases:
  assumes "jitter_inv j" and "jb_push p j = (r, j')" and "n = jb_expected j (ap_seq p)"
  obtains (dup) "map_of (jb_buffer j) (ap_seq p) \<noteq> None" "r = []"
      "j' = j\<lparr>jb_next := Some n, jb_duplicates := jb_duplicates j + 1\<rparr>"
    | (stale) "map_of (jb_buffer j) (ap_seq p) = None" "0x8000 < ahead n (ap_seq p)" "r = []"
      "j' = j\<lparr>jb_next := Some n, jb_stale := jb_stale j + 1\<rparr>"
    | (held) buf where "map_of (jb_buffer j) (ap_seq p) = None" "ahead n (ap_seq p) \<le> 0x8000"
      "buf = AList.update (ap_seq p) p (jb_buffer j)" "length buf = Suc (jb_pending j)" "held_ok ap_seq n buf"
      "int (length buf) < jb_depth j" "r = []" "j' = j\<lparr>jb_next := Some n, jb_buffer := buf\<rparr>"
    | (deliver) buf n' b u where "map_of (jb_buffer j) (ap_seq p) = None"
      "ahead n (ap_seq p) \<le> 0x8000" "held_ok ap_seq n buf"
      "buf = AList.update (ap_seq p) p (jb_buffer j)" "length buf = Suc (jb_pending j)"
      "jb_deliver_loop (jb_depth j) n buf = (r, n', b, u)"
      "j' = j\<lparr>jb_next := Some n', jb_buffer := b, jb_gaps := jb_gaps j + gap_number r,
               jb_underruns := jb_underruns j + (if u then 1 else 0)\<rparr>"
proof -
  let ?buf = "AList.update (ap_seq p) p (jb_buffer j)"
  have ok: "held_ok ap_seq n (jb_buffer j)"
    using assms(1,3) by (auto simp: jitter_inv_def jb_expected_def split: option.splits)
  have n: "(case jb_next j of None \<Rightarrow> ap_seq p | Some n \<Rightarrow> n) = n"
    using assms(3) by (simp add: jb_expected_def)
  show thesis
  proof (cases "map_of (jb_buffer j) (ap_seq p)")
    case (Some q)
    then show thesis using dup assms(2) n by (simp add: jb_push_def Let_def)
  next
    case None
    show thesis
    proof (cases "0x8000 < ahead n (ap_seq p)")
      case True
      then show thesis using stale None assms(2) n by (simp add: jb_push_def Let_def)
    next
      case False
      then have near: "ahead n (ap_seq p) \<le> 0x8000" by simp
      note buf = held_ok_update [OF ok None near]
      have len: "length ?buf = Suc (jb_pending j)" using buf(2) by (simp add: jb_pending_def)
      have cap: "\<not> jb_max_held j < int (length ?buf)"
        using assms(1) len by (auto simp: jitter_inv_def)
      show thesis
      proof (cases "int (length ?buf) < jb_depth j")
        case True
        then show thesis
          using held [of ?buf] None near buf len cap False assms(2) n by (simp add: jb_push_def Let_def jb_pending_def)
      next
        case deep: False
        obtain r0 n' b u where "jb_deliver_loop (jb_depth j) n ?buf = (r0, n', b, u)"
          by (cases "jb_deliver_loop (jb_depth j) n ?buf")
        then have "r = r0" "j' = j\<lparr>jb_next := Some n', jb_buffer := b,
            jb_gaps := jb_gaps j + gap_number r0, jb_underruns := jb_underruns j + (if u then 1 else 0)\<rparr>"
          using None near cap deep assms(2) n
          by (auto simp: jb_push_def Let_def jb_pending_def jb_deliver_def)
        with \<open>jb_deliver_loop (jb_depth j) n ?buf = (r0, n', b, u)\<close> show thesis
          using deliver [of ?buf n' b u] None near buf(1) len by blast
      qed
    qed
  qed
qed

lemma jb_push_spec:
  assumes "jitter_inv j" and "jb_push p j = (r, j')" and "n = jb_expected j (ap_seq p)"
  shows "jitter_inv j'" and "numbered ap_seq n r" and "jb_next j' = Some (n + of_nat (length r))"
    and "packet_number r + jb_pending j' + jb_duplicates j' + jb_stale j'
      = Suc (jb_pending j + jb_duplicates j + jb_stale j)"
    and "jb_gaps j' = jb_gaps j + gap_number r"
    and "gaps_justified (jb_depth j) (jb_pending j') r"
    and "jb_depth j' = jb_depth j"
proof -
  have ok: "held_ok ap_seq n (jb_buffer j)"
    using assms(1,3) by (auto simp: jitter_inv_def jb_expected_def split: option.splits)
  have "jitter_inv j' \<and> numbered ap_seq n r \<and> jb_next j' = Some (n + of_nat (length r))
      \<and> packet_number r + jb_pending j' + jb_duplicates j' + jb_stale j'
        = Suc (jb_pending j + jb_duplicates j + jb_stale j)
      \<and> jb_gaps j' = jb_gaps j + gap_number r
      \<and> gaps_justified (jb_depth j) (jb_pending j') r \<and> jb_depth j' = jb_depth j"
  proof (rule jb_push_cases [OF assms])
    assume "r = []" "j' = j\<lparr>jb_next := Some n, jb_duplicates := jb_duplicates j + 1\<rparr>"
    then show ?thesis using assms(1) ok by (simp add: jitter_inv_def jb_pending_def)
  next
    assume "r = []" "j' = j\<lparr>jb_next := Some n, jb_stale := jb_stale j + 1\<rparr>"
    then show ?thesis using assms(1) ok by (simp add: jitter_inv_def jb_pending_def)
  next
    fix buf assume "length buf = Suc (jb_pending j)" "held_ok ap_seq n buf" "int (length buf) < jb_depth j"
      "r = []" "j' = j\<lparr>jb_next := Some n, jb_buffer := buf\<rparr>"
    then show ?thesis using assms(1) by (simp add: jitter_inv_def jb_pending_def)
  next
    fix buf n' b u assume h: "held_ok ap_seq n buf" "length buf = Suc (jb_pending j)"
      "jb_deliver_loop (jb_depth j) n buf = (r, n', b, u)"
      "j' = j\<lparr>jb_next := Some n', jb_buffer := b, jb_gaps := jb_gaps j + gap_number r,
               jb_underruns := jb_underruns j + (if u then 1 else 0)\<rparr>"
    note d = deliver_loop_spec [OF h(1,3)]
    have "int (length b) \<le> jb_depth j"
    proof (cases "b = []")
      case True
      then show ?thesis using assms(1) by (simp add: jitter_inv_def)
    next
      case False
      then have "map_of b n' = None" "int (ahead_count n' b) < jb_depth j" using d(6) by auto
      then show ?thesis using length_le_ahead_count [OF d(3)] by simp
    qed
    then have "jitter_inv j'"
      using d(3) h(4) assms(1) by (simp add: jitter_inv_def jb_pending_def)
    moreover have "packet_number r + jb_pending j' = Suc (jb_pending j)"
      using d(4) h(2,4) by (simp add: jb_pending_def)
    moreover have "gaps_justified (jb_depth j) (jb_pending j') r"
      using d(5) h(4) by (simp add: jb_pending_def)
    ultimately show ?thesis
      using d(1,2) h(4) by simp
  qed
  then show "jitter_inv j'" "numbered ap_seq n r" "jb_next j' = Some (n + of_nat (length r))"
    "packet_number r + jb_pending j' + jb_duplicates j' + jb_stale j'
      = Suc (jb_pending j + jb_duplicates j + jb_stale j)"
    "jb_gaps j' = jb_gaps j + gap_number r"
    "gaps_justified (jb_depth j) (jb_pending j') r" "jb_depth j' = jb_depth j"
    by blast+
qed


section \<open>Runs of pushes\<close>

definition jb_step :: "jitter \<Rightarrow> audio_packet \<Rightarrow> audio_packet option list \<times> jitter" where
  "jb_step j p = jb_push p j"

definition jitter_started :: "jitter \<Rightarrow> bool" where
  "jitter_started j \<longleftrightarrow> jitter_inv j \<and> jb_next j \<noteq> None"

definition jb_number :: "jitter \<Rightarrow> seqno" where
  "jb_number j = jb_expected j 0"

lemma jb_expected_started: "jitter_started j \<Longrightarrow> jb_expected j s = jb_number j"
  by (auto simp: jitter_started_def jb_number_def jb_expected_def)

lemma jb_step_spec:
  assumes "jitter_started j" and "jb_step j p = (r, j')"
  shows "jitter_started j'" and "numbered ap_seq (jb_number j) r"
    and "jb_number j' = jb_number j + of_nat (length r)"
  using jb_push_spec [of j p r j' "jb_number j"] assms jb_expected_started [OF assms(1)]
  by (auto simp: jitter_started_def jb_step_def jb_number_def jb_expected_def)

interpretation jitter: ordered_output jb_step jitter_started jb_number ap_seq
proof unfold_locales
  fix j p assume "jitter_started j"
  moreover obtain r j' where "jb_step j p = (r, j')" by (cases "jb_step j p")
  ultimately show "jitter_started (snd (jb_step j p))" and "numbered ap_seq (jb_number j) (fst (jb_step j p))"
    and "jb_number (snd (jb_step j p)) = jb_number j + of_nat (length (fst (jb_step j p)))"
    using jb_step_spec [of j p r j'] by simp_all
qed

text \<open>A fresh buffer behaves as one started at the number of its first packet.\<close>

definition jitter_start :: "seqno \<Rightarrow> jitter \<Rightarrow> jitter" where
  "jitter_start n j = j\<lparr>jb_next := Some n\<rparr>"

lemma jb_step_start:
  "jb_next j = None \<Longrightarrow> jb_step j p = jb_step (jitter_start (ap_seq p) j) p"
  by (simp add: jb_step_def jb_push_def jitter_start_def)

lemma jitter_started_start: "jitter_inv j \<Longrightarrow> jb_next j = None \<Longrightarrow> jitter_started (jitter_start n j)"
  by (simp add: jitter_started_def jitter_start_def jitter_inv_def jb_pending_def)

lemma feed_start:
  assumes "jitter_new depth = Inr j"
  shows "feed jb_step j (p # ps) = feed jb_step (jitter_start (ap_seq p) j) (p # ps)"
  using jb_step_start [of j p] jitter_new_inv [OF assms] by simp

lemma feed_conserves:
  "jitter_inv j \<Longrightarrow> jitter_inv (snd (feed jb_step j ps))
    \<and> packet_number (fst (feed jb_step j ps)) + jb_pending (snd (feed jb_step j ps))
        + jb_duplicates (snd (feed jb_step j ps)) + jb_stale (snd (feed jb_step j ps))
      = length ps + jb_pending j + jb_duplicates j + jb_stale j
    \<and> jb_gaps (snd (feed jb_step j ps)) = jb_gaps j + gap_number (fst (feed jb_step j ps))
    \<and> jb_depth (snd (feed jb_step j ps)) = jb_depth j"
proof (induction ps arbitrary: j)
  case Nil
  then show ?case by simp
next
  case (Cons p ps)
  obtain r j' where step: "jb_step j p = (r, j')" by (cases "jb_step j p")
  note spec = jb_push_spec [OF Cons.prems step [unfolded jb_step_def] refl]
  show ?case
    using Cons.IH [OF spec(1)] spec(4,5,7) step
    by (simp add: Let_def split_beta packet_number_def gap_number_def)
qed

text \<open>
  C17. Whatever arrives in whatever order, the jitter buffer plays packets in number order: slot
  \<open>i\<close> of everything its pushes return holds the packet numbered \<open>i\<close> after the first one, or a
  gap; so no packet is played twice or before an older one.\<close>

theorem jitter_plays_in_order:
  assumes "jitter_new depth = Inr j" and "i < length (fst (feed jb_step j (p # ps)))"
    and "fst (feed jb_step j (p # ps)) ! i = Some q"
  shows "ap_seq q = ap_seq p + of_nat i"
proof -
  have "jitter_started (jitter_start (ap_seq p) j)"
    using jitter_new_inv [OF assms(1)] jitter_started_start by blast
  from jitter.feed_slot [OF this assms(2,3) [unfolded feed_start [OF assms(1)]]]
  show ?thesis by (simp add: jitter_start_def jb_number_def jb_expected_def)
qed

text \<open>
  Every pushed packet is accounted for, exactly once: played, still held, dropped as a
  duplicate or dropped as stale; every gap is counted; at most \<open>depth\<close> packets are ever held,
  so the overflow protection of \<open>push\<close> never acts.\<close>

theorem jitter_accounts_for_every_packet:
  assumes "jitter_new depth = Inr j" and "feed jb_step j ps = (out, j')"
  shows "packet_number out + jb_pending j' + jb_duplicates j' + jb_stale j' = length ps
    \<and> jb_gaps j' = gap_number out \<and> int (jb_pending j') \<le> depth \<and> jb_overruns j' = 0"
proof -
  have j: "jb_pending j = 0" "jb_duplicates j = 0" "jb_stale j = 0" "jb_gaps j = 0" "jb_depth j = depth"
    using assms(1) by (auto simp: jitter_new_def jb_pending_def split: if_splits)
  show ?thesis
    using feed_conserves [of j ps] jitter_new_inv [OF assms(1)] assms(2) j
    by (auto simp: jitter_inv_def)
qed

text \<open>
  A packet is given up for lost only on evidence: each gap a push returns is followed by at
  least \<open>depth\<close> later packets, returned after it or still held.\<close>

theorem jitter_gap_needs_evidence:
  assumes "jitter_new depth = Inr j0" and "feed jb_step j0 ps = (out, j)" and "jb_push p j = (r, j')"
  shows "gaps_justified depth (jb_pending j') r"
  using jb_push_spec(6) [OF _ assms(3) refl] feed_conserves [of j0 ps] jitter_new_inv [OF assms(1)]
    assms(1,2)
  by (auto simp: jitter_new_def split: if_splits)

section \<open>Flushing\<close>

lemma max_key_ge: "s \<in> fst ` set buf \<Longrightarrow> s \<le> max_key buf"
  by (induction buf) (auto simp: max_key_def le_max_iff_disj)

lemma max_key_in: "buf \<noteq> [] \<Longrightarrow> max_key buf \<in> fst ` set buf"
proof (induction buf)
  case Nil
  then show ?case by simp
next
  case (Cons x buf)
  then show ?case by (cases "buf = []") (auto simp: max_key_def max_def)
qed

lemma flush_loop_spec:
  assumes "held_ok ap_seq nxt buf" and "list_all (\<lambda>(s, p). ahead nxt s < ahead nxt stop) buf"
    and "int n + int (ahead nxt stop) \<le> cap + 1" and "jb_flush_loop cap n nxt stop buf = (r, e)"
  shows "numbered ap_seq nxt r \<and> e = stop \<and> packet_number r = length buf \<and> length r = ahead nxt stop"
  using assms
proof (induction cap n nxt stop buf arbitrary: r rule: jb_flush_loop.induct)
  case (1 cap n nxt stop buf)
  note loop = "1.prems"(4) [unfolded jb_flush_loop.simps [of cap n nxt stop buf]]
  let ?rest = "AList.delete nxt buf"
  show ?case
  proof (cases "nxt = stop")
    case True
    then show ?thesis using loop "1.prems"(2) by (cases buf) auto
  next
    case False
    have shorter: "ahead (nxt + 1) stop = ahead nxt stop - 1" "0 < ahead nxt stop"
      using ahead_Suc [of stop nxt] ahead_pos [of stop nxt] False by simp_all
    have ok: "held_ok ap_seq (nxt + 1) ?rest"
      by (rule held_ok_delete [OF "1.prems"(1)])
    have below: "list_all (\<lambda>(s, p). ahead (nxt + 1) s < ahead (nxt + 1) stop) ?rest"
    proof (clarsimp simp: list_all_iff)
      fix s p assume s: "(s, p) \<in> set ?rest"
      then have "s \<noteq> nxt" using delete_notin_dom [of nxt buf] by force
      moreover have "ahead nxt s < ahead nxt stop"
        using s "1.prems"(2) by (auto simp: list_all_iff AList.delete_eq)
      ultimately show "ahead (nxt + 1) s < ahead (nxt + 1) stop"
        using shorter ahead_Suc [of s nxt] ahead_pos [of s nxt] by simp
    qed
    have num: "case map_of buf nxt of None \<Rightarrow> True | Some p \<Rightarrow> ap_seq p = nxt"
      using "1.prems"(1) by (auto simp: held_ok_def list_all_iff split: option.split dest: map_of_SomeD)
    have len: "length ?rest + (if map_of buf nxt = None then 0 else 1) = length buf"
      using length_delete [of buf nxt] "1.prems"(1)
      by (auto simp: held_ok_def map_of_eq_None_iff delete_id)
    show ?thesis
    proof (cases "cap < int (Suc n)")
      case True
      then have "ahead nxt stop = 1" using "1.prems"(3) shorter by simp
      then have stop: "stop = nxt + 1" using of_nat_ahead [of nxt stop] by simp
      then have "?rest = []" using below by (cases ?rest) auto
      then show ?thesis
        using loop False True num len stop \<open>ahead nxt stop = 1\<close>
        by (auto simp: packet_number_def split: option.splits)
    next
      case deeper: False
      obtain r1 where r1: "jb_flush_loop cap (Suc n) (nxt + 1) stop ?rest = (r1, e)"
          "r = map_of buf nxt # r1"
        using loop False deeper by (auto split: prod.splits)
      have "numbered ap_seq (nxt + 1) r1 \<and> e = stop \<and> packet_number r1 = length ?rest
          \<and> length r1 = ahead (nxt + 1) stop"
        using "1.IH" [OF False deeper ok below _ r1(1)] "1.prems"(3) shorter by simp
      then show ?thesis
        using r1(2) num len shorter by (cases "map_of buf nxt") auto
    qed
  qed
qed


lemma ahead_Suc_right: "ahead n s < 65535 \<Longrightarrow> ahead n (s + 1) = Suc (ahead n s)"
  using ahead_of_nat [of "Suc (ahead n s)" n] of_nat_ahead [of n s] by (simp add: algebra_simps)

lemma ahead_mono: "n \<le> s \<Longrightarrow> s \<le> t \<Longrightarrow> ahead n s \<le> ahead n t"
  by (simp add: ahead_def unat_sub word_le_nat_alt diff_le_mono)

text \<open>
  At the end of a stream everything held is played, in order and with its gaps, as long as
  the numbers held do not pass 0xFFFF and lie within \<open>5 * depth\<close> of the next one.\<close>

theorem flush_plays_what_is_held:
  assumes "jitter_inv j" and "jb_next j = Some n"
    and "list_all (\<lambda>(s, p). n \<le> s \<and> int (ahead n s) \<le> 5 * jb_depth j) (jb_buffer j)"
    and "jb_flush_all j = (r, j')"
  shows "numbered ap_seq n r \<and> packet_number r = jb_pending j \<and> jb_pending j' = 0"
proof (cases "jb_buffer j = []")
  case True
  then show ?thesis using assms(4) by (auto simp: jb_flush_all_def jb_pending_def packet_number_def)
next
  case False
  let ?stop = "max_key (jb_buffer j) + 1"
  obtain p where p: "(max_key (jb_buffer j), p) \<in> set (jb_buffer j)"
    using max_key_in [OF False] by auto
  have ok: "held_ok ap_seq n (jb_buffer j)" using assms(1,2) by (simp add: jitter_inv_def)
  have max: "n \<le> max_key (jb_buffer j)" "int (ahead n (max_key (jb_buffer j))) \<le> 5 * jb_depth j"
      "ahead n (max_key (jb_buffer j)) \<le> 0x8000"
    using p assms(3) ok by (auto simp: list_all_iff held_ok_def)
  have stop: "ahead n ?stop = Suc (ahead n (max_key (jb_buffer j)))"
    by (rule ahead_Suc_right) (use max(3) in simp)
  have below: "list_all (\<lambda>(s, p). ahead n s < ahead n ?stop) (jb_buffer j)"
  proof (clarsimp simp: list_all_iff)
    fix s p assume s: "(s, p) \<in> set (jb_buffer j)"
    then have "s \<le> max_key (jb_buffer j)" using max_key_ge [of s "jb_buffer j"] by force
    moreover have "n \<le> s" using s assms(3) by (auto simp: list_all_iff)
    ultimately show "ahead n s < ahead n ?stop" using ahead_mono stop by (simp add: le_imp_less_Suc)
  qed
  obtain r0 e where loop: "jb_flush_loop (jb_max_held j + jb_depth j) 0 n ?stop (jb_buffer j) = (r0, e)"
    by (cases "jb_flush_loop (jb_max_held j + jb_depth j) 0 n ?stop (jb_buffer j)")
  have "int 0 + int (ahead n ?stop) \<le> jb_max_held j + jb_depth j + 1"
    using stop max(2) assms(1) by (simp add: jitter_inv_def)
  from flush_loop_spec [OF ok below this loop] show ?thesis
    using assms(2,4) False loop by (auto simp: jb_flush_all_def jb_pending_def)
qed


section \<open>Building and parsing\<close>

lemma drop_header:
  "drop 24 (le32 a @ le16 b @ le16 c @ le32 d @ le32 e @ le16 f @ be16 g @ le16 h @ be16 k @ xs) = xs"
  by (simp add: drop_append)

lemma header_fields:
  assumes pkt_def: "pkt = le32 a @ le16 b @ le16 c @ le32 d @ le32 e @ le16 f @ be16 g @ le16 h @ be16 k @ xs"
  shows "get_le16 pkt 4 = b" and "get_le16 pkt 16 = f" and "get_be16 pkt 18 = g"
proof -
  show "get_le16 pkt 4 = b"
    unfolding pkt_def by (rule get_le16_append) simp
  show "get_le16 pkt 16 = f"
    using get_le16_append [of "le32 a @ le16 b @ le16 c @ le32 d @ le32 e" 16 f "be16 g @ le16 h @ be16 k @ xs"]
    by (simp add: pkt_def)
  show "get_be16 pkt 18 = g"
    using get_be16_append [of "le32 a @ le16 b @ le16 c @ le32 d @ le32 e @ le16 f" 18 g "le16 h @ be16 k @ xs"]
    by (simp add: pkt_def)
qed

lemma parse_build:
  assumes "build_audio_packet audio sender receiver seq ident = Inr pkt" and "audio \<noteq> []"
  shows "parse_audio_packet pkt = Some \<lparr>ap_ident = ident, ap_seq = seq, ap_data = audio\<rparr>"
proof -
  have pkt: "pkt = le32 (of_nat (24 + length audio)) @ le16 0 @ le16 0 @ le32 sender @ le32 receiver
      @ le16 ident @ be16 seq @ le16 0 @ be16 (of_nat (length audio)) @ audio"
    using assms(1) by (auto simp: build_audio_packet_def AUDIO_HEADER_SIZE_def PACKET_DATA_def Let_def
        split: if_splits)
  have "\<not> length pkt \<le> 24" using assms(2) by (simp add: pkt)
  moreover have "get_le16 pkt 4 = 0" "get_le16 pkt 16 = ident" "get_be16 pkt 18 = seq" "drop 24 pkt = audio"
    using header_fields [OF pkt] pkt drop_header by simp_all
  ultimately show ?thesis
    by (simp add: parse_audio_packet_def AUDIO_HEADER_SIZE_def PACKET_DATA_def)
qed


section \<open>The stream\<close>

datatype audio_state = AS_IDLE | AS_RECEIVING | AS_TRANSMITTING

record stream =
  as_state :: audio_state
  as_callback :: "nat option"
  as_taps :: "nat list"
  as_rx_running :: bool
  as_tx_seq :: seqno
  as_jitter_depth :: int
  as_jitter :: "jitter option"
  as_rx_received :: nat
  as_rx_delivered :: nat
  as_rx_lost :: nat
  as_tx_sent :: nat
  as_jitter_ema :: rat
  as_jitter_max :: nat
  as_underruns :: nat
  as_overruns :: nat
  as_duplicates :: nat
  as_stale :: nat
  as_out_of_order :: nat
  as_last_seq :: "seqno option"
  as_calls :: "(nat \<times> audio_packet option) list"

definition stream_new :: "int \<Rightarrow> stream" where
  "stream_new depth = \<lparr>as_state = AS_IDLE, as_callback = None, as_taps = [], as_rx_running = False,
     as_tx_seq = 0, as_jitter_depth = depth, as_jitter = None, as_rx_received = 0,
     as_rx_delivered = 0, as_rx_lost = 0, as_tx_sent = 0, as_jitter_ema = 0, as_jitter_max = 0,
     as_underruns = 0, as_overruns = 0, as_duplicates = 0, as_stale = 0, as_out_of_order = 0,
     as_last_seq = None, as_calls = []\<rparr>"

definition reset_rx_stats :: "stream \<Rightarrow> stream" where
  "reset_rx_stats s = s\<lparr>as_rx_received := 0, as_rx_delivered := 0, as_rx_lost := 0,
     as_jitter_ema := 0, as_jitter_max := 0, as_underruns := 0, as_overruns := 0,
     as_duplicates := 0, as_stale := 0, as_out_of_order := 0, as_last_seq := None\<rparr>"

definition update_rx_order_stats :: "seqno \<Rightarrow> stream \<Rightarrow> stream" where
  "update_rx_order_stats seq s =
     (case as_last_seq s of
        None \<Rightarrow> s\<lparr>as_last_seq := Some seq\<rparr>
      | Some lastseq \<Rightarrow>
          (let step = ahead lastseq seq in
           if step = 0 then s
           else if step < 0x8000 then
             let deviation = step - 1;
                 lost = (if as_jitter s = None \<and> 1 < step then step - 1 else 0)
             in s\<lparr>as_jitter_ema := as_jitter_ema s * (7 / 8) + of_nat deviation * (1 / 8),
                  as_jitter_max := max (as_jitter_max s) deviation,
                  as_out_of_order := as_out_of_order s + (if step \<noteq> 1 then 1 else 0),
                  as_rx_lost := as_rx_lost s + lost, as_underruns := as_underruns s + lost,
                  as_last_seq := Some seq\<rparr>
           else s\<lparr>as_out_of_order := as_out_of_order s + 1\<rparr>))"

definition sync_jitter_stats :: "stream \<Rightarrow> stream" where
  "sync_jitter_stats s =
     (case as_jitter s of
        None \<Rightarrow> s
      | Some j \<Rightarrow> s\<lparr>as_rx_lost := jb_gaps j, as_underruns := jb_underruns j,
          as_overruns := jb_overruns j, as_duplicates := jb_duplicates j, as_stale := jb_stale j\<rparr>)"

text \<open>\<open>_build_audio_stats\<close>: the computed fields; the others are copied.\<close>

definition packet_loss_percent :: "stream \<Rightarrow> rat" where
  "packet_loss_percent s0 =
     (let s = sync_jitter_stats s0; expected = as_rx_delivered s + as_rx_lost s in
      if 0 < expected then of_nat (as_rx_lost s) / of_nat expected * 100 else 0)"

definition estimated_latency_ms :: "stream \<Rightarrow> rat" where
  "estimated_latency_ms s =
     (case as_jitter s of
        None \<Rightarrow> 0
      | Some j \<Rightarrow> (if 0 < jb_depth j then of_int (max (jb_depth j) (int (jb_pending j))) * 20 else 0))"

definition add_rx_tap :: "nat \<Rightarrow> stream \<Rightarrow> stream" where
  "add_rx_tap cb s = (if cb \<in> set (as_taps s) then s else s\<lparr>as_taps := as_taps s @ [cb]\<rparr>)"

definition remove_rx_tap :: "nat \<Rightarrow> stream \<Rightarrow> stream" where
  "remove_rx_tap cb s = s\<lparr>as_taps := remove1 cb (as_taps s)\<rparr>"

definition start_rx :: "nat \<Rightarrow> int option \<Rightarrow> stream \<Rightarrow> stream result" where
  "start_rx callback jitter_depth s =
     (if as_state s \<noteq> AS_IDLE then Inl AudioAlreadyStarted
      else
        let depth = (case jitter_depth of Some d \<Rightarrow> d | None \<Rightarrow> as_jitter_depth s);
            s1 = reset_rx_stats s
        in bind_result (if 0 < depth then map_sum id Some (jitter_new depth) else Inr None) (\<lambda>j.
             Inr (s1\<lparr>as_jitter := j, as_callback := Some callback, as_state := AS_RECEIVING,
                     as_rx_running := True\<rparr>)))"

definition call_listeners :: "audio_packet option \<Rightarrow> stream \<Rightarrow> stream" where
  "call_listeners x s = s\<lparr>as_calls := as_calls s
     @ (case as_callback s of None \<Rightarrow> [] | Some cb \<Rightarrow> [(cb, x)]) @ map (\<lambda>tap. (tap, x)) (as_taps s)\<rparr>"

definition hand_over :: "stream \<Rightarrow> audio_packet option \<Rightarrow> stream" where
  "hand_over s x =
     call_listeners x (if x \<noteq> None then s\<lparr>as_rx_delivered := as_rx_delivered s + 1\<rparr> else s)"

text \<open>One datagram taken by \<open>_rx_loop\<close>; the loop has ended when the state is idle.\<close>

definition rx_datagram :: "byte list \<Rightarrow> stream \<Rightarrow> stream" where
  "rx_datagram data s =
     (if \<not> as_rx_running s then s
      else if as_state s = AS_IDLE then s\<lparr>as_rx_running := False\<rparr>
      else if length data \<le> AUDIO_HEADER_SIZE then s
      else case parse_audio_packet data of
        None \<Rightarrow> s
      | Some pkt \<Rightarrow>
          (if as_callback s = None \<and> as_taps s = [] then s
           else
             let s1 = update_rx_order_stats (ap_seq pkt) (s\<lparr>as_rx_received := as_rx_received s + 1\<rparr>) in
             case as_jitter s1 of
               Some j \<Rightarrow>
                 (let (ready, j') = jb_push pkt j in
                  sync_jitter_stats (foldl hand_over (s1\<lparr>as_jitter := Some j'\<rparr>) ready))
             | None \<Rightarrow> hand_over s1 (Some pkt)))"

definition stop_rx :: "stream \<Rightarrow> stream" where
  "stop_rx s =
     (if as_state s \<noteq> AS_RECEIVING then s
      else
        let s1 = s\<lparr>as_state := AS_IDLE, as_rx_running := False\<rparr>;
            s2 = (case (as_jitter s1, as_callback s1) of
                (Some j, Some cb) \<Rightarrow>
                  (let (rest, j') = jb_flush_all j in
                   s1\<lparr>as_jitter := Some j', as_rx_delivered := as_rx_delivered s1 + packet_number rest,
                      as_calls := as_calls s1 @ map (\<lambda>x. (cb, x)) rest\<rparr>)
              | _ \<Rightarrow> s1)
        in (sync_jitter_stats s2)\<lparr>as_jitter := None, as_callback := None\<rparr>)"

definition start_tx :: "stream \<Rightarrow> stream result" where
  "start_tx s =
     (if as_state s = AS_TRANSMITTING then Inl AudioAlreadyStarted
      else Inr (s\<lparr>as_state := AS_TRANSMITTING, as_tx_seq := 0, as_tx_sent := 0\<rparr>))"

text \<open>\<open>push_tx\<close>: the packets handed to \<open>send_tracked\<close> and the new state.\<close>

function push_chunks ::
  "32 word \<Rightarrow> 32 word \<Rightarrow> byte list \<Rightarrow> stream \<Rightarrow> (byte list list \<times> stream) result" where
  "push_chunks my remote data s =
     (if data = [] then Inr ([], s)
      else bind_result (build_audio_packet (take MAX_AUDIO_PAYLOAD data) my remote (as_tx_seq s) TX_IDENT)
        (\<lambda>pkt. bind_result (push_chunks my remote (drop MAX_AUDIO_PAYLOAD data)
             (s\<lparr>as_tx_seq := as_tx_seq s + 1, as_tx_sent := as_tx_sent s + 1\<rparr>))
          (\<lambda>(pkts, s'). Inr (pkt # pkts, s'))))"
  by pat_completeness auto
termination
  by (relation "measure (\<lambda>(my, remote, data, s). length data)") (auto simp: MAX_AUDIO_PAYLOAD_def)

declare push_chunks.simps [simp del]

definition push_tx :: "32 word \<Rightarrow> 32 word \<Rightarrow> byte list \<Rightarrow> stream \<Rightarrow> (byte list list \<times> stream) result" where
  "push_tx my remote data s =
     (if as_state s \<noteq> AS_TRANSMITTING then Inl AudioNotStarted else push_chunks my remote data s)"

definition stop_tx :: "stream \<Rightarrow> stream" where
  "stop_tx s =
     (if as_state s \<noteq> AS_TRANSMITTING then s
      else s\<lparr>as_state := (if as_rx_running s then AS_RECEIVING else AS_IDLE)\<rparr>)"

section \<open>What a listener hears\<close>

definition calls_to :: "nat \<Rightarrow> stream \<Rightarrow> audio_packet option list" where
  "calls_to cb s = map snd (filter (\<lambda>(l, x). l = cb) (as_calls s))"

definition audio_packets :: "byte list list \<Rightarrow> audio_packet list" where
  "audio_packets ds = List.map_filter parse_audio_packet ds"

lemma audio_packets_simps [simp]: "audio_packets [] = []"
  "audio_packets (d # ds) = (case parse_audio_packet d of None \<Rightarrow> [] | Some p \<Rightarrow> [p]) @ audio_packets ds"
  by (auto simp: audio_packets_def List.map_filter_def split: option.splits)

lemma feed_append:
  "feed step s (es @ fs) =
     (fst (feed step s es) @ fst (feed step (snd (feed step s es)) fs),
      snd (feed step (snd (feed step s es)) fs))"
  by (induction es arbitrary: s) (auto simp: Let_def split_beta)

lemma filter_taps: "cb \<notin> set taps \<Longrightarrow> filter (\<lambda>(l, x). l = cb) (map (\<lambda>tap. (tap, y)) taps) = []"
  by (induction taps) auto

lemma hand_over_calls:
  assumes "as_callback s = Some cb" and "cb \<notin> set (as_taps s)"
  shows "calls_to cb (hand_over s x) = calls_to cb s @ [x]"
  using assms filter_taps [OF assms(2)]
  by (cases x) (simp_all add: hand_over_def call_listeners_def calls_to_def)

lemma hand_over_fields [simp]:
  "as_callback (hand_over s x) = as_callback s" "as_taps (hand_over s x) = as_taps s"
  "as_state (hand_over s x) = as_state s" "as_rx_running (hand_over s x) = as_rx_running s"
  "as_jitter (hand_over s x) = as_jitter s" "as_rx_received (hand_over s x) = as_rx_received s"
  "as_rx_delivered (hand_over s x) = as_rx_delivered s + (if x = None then 0 else 1)"
  by (simp_all add: hand_over_def call_listeners_def)

lemma hand_overs_fields [simp]:
  "as_callback (foldl hand_over s xs) = as_callback s" "as_taps (foldl hand_over s xs) = as_taps s"
  "as_state (foldl hand_over s xs) = as_state s" "as_rx_running (foldl hand_over s xs) = as_rx_running s"
  "as_jitter (foldl hand_over s xs) = as_jitter s"
  "as_rx_received (foldl hand_over s xs) = as_rx_received s"
  "as_rx_delivered (foldl hand_over s xs) = as_rx_delivered s + packet_number xs"
  by (induction xs arbitrary: s) (auto simp: packet_number_def)

lemma hand_overs_calls:
  "as_callback s = Some cb \<Longrightarrow> cb \<notin> set (as_taps s)
    \<Longrightarrow> calls_to cb (foldl hand_over s xs) = calls_to cb s @ xs"
  by (induction xs arbitrary: s) (auto simp: hand_over_calls)

lemma sync_jitter_fields [simp]:
  "as_callback (sync_jitter_stats s) = as_callback s" "as_taps (sync_jitter_stats s) = as_taps s"
  "as_state (sync_jitter_stats s) = as_state s" "as_rx_running (sync_jitter_stats s) = as_rx_running s"
  "as_jitter (sync_jitter_stats s) = as_jitter s" "as_rx_received (sync_jitter_stats s) = as_rx_received s"
  "as_rx_delivered (sync_jitter_stats s) = as_rx_delivered s" "calls_to cb (sync_jitter_stats s) = calls_to cb s"
  "as_jitter s = Some j \<Longrightarrow> as_rx_lost (sync_jitter_stats s) = jb_gaps j"
  by (auto simp: sync_jitter_stats_def calls_to_def split: option.splits)

lemma update_order_fields [simp]:
  "as_callback (update_rx_order_stats n s) = as_callback s" "as_taps (update_rx_order_stats n s) = as_taps s"
  "as_state (update_rx_order_stats n s) = as_state s"
  "as_rx_running (update_rx_order_stats n s) = as_rx_running s"
  "as_jitter (update_rx_order_stats n s) = as_jitter s"
  "as_rx_received (update_rx_order_stats n s) = as_rx_received s"
  "as_rx_delivered (update_rx_order_stats n s) = as_rx_delivered s"
  "calls_to cb (update_rx_order_stats n s) = calls_to cb s"
  by (auto simp: update_rx_order_stats_def calls_to_def Let_def split: option.splits)

lemma parse_needs_header: "length d \<le> AUDIO_HEADER_SIZE \<Longrightarrow> parse_audio_packet d = None"
  by (simp add: parse_audio_packet_def)

text \<open>The receiving stream after the packets \<open>ps\<close>, with a jitter buffer that began as \<open>j0\<close>.\<close>

definition receiving :: "nat \<Rightarrow> jitter \<Rightarrow> audio_packet list \<Rightarrow> stream \<Rightarrow> bool" where
  "receiving cb j0 ps s \<longleftrightarrow> as_rx_running s \<and> as_state s \<noteq> AS_IDLE \<and> as_callback s = Some cb
     \<and> cb \<notin> set (as_taps s) \<and> as_jitter s = Some (snd (feed jb_step j0 ps))
     \<and> calls_to cb s = fst (feed jb_step j0 ps) \<and> as_rx_received s = length ps
     \<and> as_rx_delivered s = packet_number (fst (feed jb_step j0 ps))"

lemma rx_datagram_receiving:
  assumes "receiving cb j0 ps s"
  shows "receiving cb j0 (ps @ audio_packets [d]) (rx_datagram d s)"
proof (cases "parse_audio_packet d")
  case None
  then show ?thesis using assms by (simp add: rx_datagram_def receiving_def)
next
  case (Some p)
  then have long: "\<not> length d \<le> AUDIO_HEADER_SIZE" using parse_needs_header by fastforce
  let ?j = "snd (feed jb_step j0 ps)"
  obtain r j' where push: "jb_push p ?j = (r, j')" by (cases "jb_push p ?j")
  let ?s1 = "update_rx_order_stats (ap_seq p) (s\<lparr>as_rx_received := as_rx_received s + 1\<rparr>)"
  have step: "rx_datagram d s = sync_jitter_stats (foldl hand_over (?s1\<lparr>as_jitter := Some j'\<rparr>) r)"
    using assms Some long push by (simp add: rx_datagram_def receiving_def)
  have feed: "feed jb_step j0 (ps @ [p]) = (fst (feed jb_step j0 ps) @ r, j')"
    using push by (simp add: feed_append jb_step_def)
  have calls: "calls_to cb (update_rx_order_stats n (s\<lparr>as_rx_received := k\<rparr>)\<lparr>as_jitter := x\<rparr>)
      = calls_to cb s" for n k x
    using update_order_fields(8) [of cb n "s\<lparr>as_rx_received := k\<rparr>"] by (simp add: calls_to_def)
  show ?thesis
    using assms Some hand_overs_calls [of "?s1\<lparr>as_jitter := Some j'\<rparr>" cb r]
    unfolding receiving_def step
    by (simp add: feed calls)
qed

lemma rx_datagrams_receiving:
  "receiving cb j0 ps s
    \<Longrightarrow> receiving cb j0 (ps @ audio_packets ds) (foldl (\<lambda>t d. rx_datagram d t) s ds)"
proof (induction ds arbitrary: ps s)
  case Nil
  then show ?case by simp
next
  case (Cons d ds)
  have "audio_packets (d # ds) = audio_packets [d] @ audio_packets ds" by simp
  then show ?case using Cons.IH [OF rx_datagram_receiving [OF Cons.prems, of d]] by simp
qed

text \<open>
  The listener of a receiving stream hears exactly what the jitter buffer makes of the audio
  packets among the datagrams, and the received and delivered counters are exact.\<close>

theorem listener_hears_the_jitter_output:
  assumes "start_rx cb (Some depth) s = Inr s0" and "jitter_new depth = Inr j"
    and "cb \<notin> set (as_taps s)" and "calls_to cb s = []"
    and "t = foldl (\<lambda>t d. rx_datagram d t) s0 ds"
  shows "calls_to cb t = fst (feed jb_step j (audio_packets ds))
    \<and> as_rx_received t = length (audio_packets ds)
    \<and> as_rx_delivered t = packet_number (calls_to cb t)"
proof -
  have "0 < depth" using assms(2) by (auto simp: jitter_new_def split: if_splits)
  then have "receiving cb j [] s0"
    using assms by (auto simp: start_rx_def receiving_def reset_rx_stats_def calls_to_def
        packet_number_def Let_def split: if_splits)
  from rx_datagrams_receiving [OF this, of ds] show ?thesis
    using assms(5) by (simp add: receiving_def)
qed

section \<open>Sending\<close>

lemma build_chunk:
  "\<exists>pkt. build_audio_packet (take MAX_AUDIO_PAYLOAD data) my remote n ident = Inr pkt"
  by (auto simp: build_audio_packet_def MAX_AUDIO_PAYLOAD_def AUDIO_HEADER_SIZE_def Let_def)

lemma push_chunks_sends:
  "\<exists>pkts s'. push_chunks my remote data s = Inr (pkts, s')
    \<and> length (audio_packets pkts) = length pkts
    \<and> concat (map ap_data (audio_packets pkts)) = data
    \<and> map ap_seq (audio_packets pkts) = map (\<lambda>i. as_tx_seq s + of_nat i) [0..<length pkts]
    \<and> list_all (\<lambda>p. ap_ident p = TX_IDENT \<and> ap_data p \<noteq> [] \<and> length (ap_data p) \<le> MAX_AUDIO_PAYLOAD)
        (audio_packets pkts)
    \<and> as_tx_seq s' = as_tx_seq s + of_nat (length pkts) \<and> as_tx_sent s' = as_tx_sent s + length pkts"
proof (induction my remote data s rule: push_chunks.induct)
  case (1 my remote data s)
  show ?case
  proof (cases "data = []")
    case True
    then show ?thesis by (simp add: push_chunks.simps)
  next
    case False
    let ?s = "s\<lparr>as_tx_seq := as_tx_seq s + 1, as_tx_sent := as_tx_sent s + 1\<rparr>"
    obtain pkt where pkt:
        "build_audio_packet (take MAX_AUDIO_PAYLOAD data) my remote (as_tx_seq s) TX_IDENT = Inr pkt"
      using build_chunk by blast
    have "take MAX_AUDIO_PAYLOAD data \<noteq> []" using False by (simp add: MAX_AUDIO_PAYLOAD_def)
    note parse = parse_build [OF pkt this]
    obtain pkts s' where rest: "push_chunks my remote (drop MAX_AUDIO_PAYLOAD data) ?s = Inr (pkts, s')"
        "length (audio_packets pkts) = length pkts"
        "concat (map ap_data (audio_packets pkts)) = drop MAX_AUDIO_PAYLOAD data"
        "map ap_seq (audio_packets pkts) = map (\<lambda>i. as_tx_seq ?s + of_nat i) [0..<length pkts]"
        "list_all (\<lambda>p. ap_ident p = TX_IDENT \<and> ap_data p \<noteq> [] \<and> length (ap_data p) \<le> MAX_AUDIO_PAYLOAD)
          (audio_packets pkts)"
        "as_tx_seq s' = as_tx_seq ?s + of_nat (length pkts)" "as_tx_sent s' = as_tx_sent ?s + length pkts"
      using "1.IH" [OF False pkt] by blast
    have "push_chunks my remote data s = Inr (pkt # pkts, s')"
      using False pkt rest(1) by (simp add: push_chunks.simps [of my remote data s])
    moreover have "map ap_seq (audio_packets (pkt # pkts))
        = map (\<lambda>i. as_tx_seq s + of_nat i) [0..<length (pkt # pkts)]"
      using rest(4) parse
      by (simp add: upt_conv_Cons map_Suc_upt [symmetric] comp_def algebra_simps del: upt_Suc)
    moreover have "concat (map ap_data (audio_packets (pkt # pkts))) = data"
      using rest(3) parse by simp
    ultimately show ?thesis
      using rest(2,5,6,7) parse False
      by (intro exI [of _ "pkt # pkts"] exI [of _ s']) (simp add: MAX_AUDIO_PAYLOAD_def algebra_simps)
  qed
qed

text \<open>
  Sending never fails while transmitting, and loses nothing: the packets of one call parse
  back to non-empty chunks within the radio's payload limit that concatenate to the audio, with
  consecutive sequence numbers from the stream's own.\<close>

theorem push_tx_round_trip:
  assumes "as_state s = AS_TRANSMITTING"
  shows "\<exists>pkts s'. push_tx my remote data s = Inr (pkts, s')
    \<and> length (audio_packets pkts) = length pkts
    \<and> concat (map ap_data (audio_packets pkts)) = data
    \<and> map ap_seq (audio_packets pkts) = map (\<lambda>i. as_tx_seq s + of_nat i) [0..<length pkts]
    \<and> list_all (\<lambda>p. ap_ident p = TX_IDENT \<and> ap_data p \<noteq> [] \<and> length (ap_data p) \<le> MAX_AUDIO_PAYLOAD)
        (audio_packets pkts)
    \<and> as_tx_seq s' = as_tx_seq s + of_nat (length pkts)"
  using push_chunks_sends [of my remote data s] assms by (auto simp: push_tx_def)

section \<open>Concrete runs\<close>

definition demo_packet :: "seqno \<Rightarrow> audio_packet" where
  "demo_packet n = \<lparr>ap_ident = 0x9781, ap_seq = n, ap_data = [1, 2]\<rparr>"

definition demo_jitter :: jitter where
  "demo_jitter = \<lparr>jb_depth = 2, jb_buffer = [], jb_next = None, jb_max_held = 8,
     jb_duplicates = 0, jb_stale = 0, jb_gaps = 0, jb_underruns = 0, jb_overruns = 0\<rparr>"

lemma demo_jitter_new: "jitter_new 2 = Inr demo_jitter"
  by (simp add: jitter_new_def demo_jitter_def)

text \<open>Number 0xFFFF arrives after 0, 1 never arrives, 2 and 3 do.\<close>

definition demo_arrivals :: "audio_packet list" where
  "demo_arrivals = map demo_packet [0xFFFE, 0, 0xFFFF, 0xFFFF, 2, 3]"

lemmas jitter_eval = jb_step_def jb_push_def jb_deliver_def jb_deliver_loop.simps jb_flush_all_def
  jb_flush_loop.simps max_key_def ahead_count_def ahead_def jb_pending_def gap_number_def Let_def
  demo_jitter_def demo_packet_def

lemma demo_feed:
  "feed jb_step demo_jitter (demo_packet 0xFFFE # map demo_packet [0, 0xFFFF, 0xFFFF, 2, 3]) =
     ([Some (demo_packet 0xFFFE), Some (demo_packet 0xFFFF), Some (demo_packet 0), None,
       Some (demo_packet 2), Some (demo_packet 3)],
      demo_jitter\<lparr>jb_next := Some 4, jb_stale := 1, jb_gaps := 1, jb_underruns := 1\<rparr>)"
  by (simp add: jitter_eval)

theorem jitter_plays_in_order_witness:
  "ap_seq (demo_packet 2) = ap_seq (demo_packet 0xFFFE) + of_nat 4"
  using jitter_plays_in_order [OF demo_jitter_new, of 4 "demo_packet 0xFFFE"
      "map demo_packet [0, 0xFFFF, 0xFFFF, 2, 3]" "demo_packet 2"]
  unfolding demo_feed by simp

theorem jitter_accounts_for_every_packet_witness:
  "packet_number (fst (feed jb_step demo_jitter demo_arrivals)) + 0 + 0 + 1 = length demo_arrivals"
  using jitter_accounts_for_every_packet [OF demo_jitter_new,
      of "demo_packet 0xFFFE # map demo_packet [0, 0xFFFF, 0xFFFF, 2, 3]", OF demo_feed]
    demo_feed
  by (simp add: demo_arrivals_def demo_jitter_def jb_pending_def)

theorem jitter_gap_needs_evidence_witness:
  "gaps_justified 2 0 [None, Some (demo_packet 2), Some (demo_packet 3)]"
proof -
  have "feed jb_step demo_jitter (map demo_packet [0xFFFE, 0, 0xFFFF, 2]) =
      ([Some (demo_packet 0xFFFE), Some (demo_packet 0xFFFF), Some (demo_packet 0)],
       demo_jitter\<lparr>jb_next := Some 1, jb_buffer := [(2, demo_packet 2)], jb_underruns := 1\<rparr>)"
    by (simp add: jitter_eval)
  moreover have "jb_push (demo_packet 3) (demo_jitter\<lparr>jb_next := Some 1,
        jb_buffer := [(2, demo_packet 2)], jb_underruns := 1\<rparr>) =
      ([None, Some (demo_packet 2), Some (demo_packet 3)],
       demo_jitter\<lparr>jb_next := Some 4, jb_gaps := 1, jb_underruns := 1\<rparr>)"
    by (simp add: jitter_eval)
  ultimately show ?thesis
    using jitter_gap_needs_evidence [OF demo_jitter_new] by (auto simp: demo_jitter_def jb_pending_def)
qed

theorem flush_plays_what_is_held_witness:
  "numbered ap_seq 5 [None, Some (demo_packet 6)] \<and> packet_number [None, Some (demo_packet 6)] = 1"
proof -
  let ?j = "demo_jitter\<lparr>jb_next := Some 5, jb_buffer := [(6, demo_packet 6)]\<rparr>"
  have "jitter_inv ?j" by (simp add: jitter_inv_def held_ok_def jitter_eval)
  moreover have "jb_flush_all ?j = ([None, Some (demo_packet 6)], demo_jitter\<lparr>jb_next := Some 7, jb_gaps := 1\<rparr>)"
    by (simp add: jitter_eval)
  moreover have "list_all (\<lambda>(s, p). 5 \<le> s \<and> int (ahead 5 s) \<le> 5 * jb_depth ?j) (jb_buffer ?j)"
    by (simp add: jitter_eval word_le_nat_alt)
  ultimately show ?thesis
    using flush_plays_what_is_held [of ?j 5] by (simp add: jb_pending_def)
qed

text \<open>Two datagrams built by the sender's own builder, and a short control packet between them.\<close>

definition demo_datagram :: "seqno \<Rightarrow> byte list" where
  "demo_datagram n = (case build_audio_packet [1, 2] 1 2 n 0x9781 of Inl _ \<Rightarrow> [] | Inr d \<Rightarrow> d)"

lemma demo_audio: "audio_packets [demo_datagram 4, [0, 0], demo_datagram 5] = [demo_packet 4, demo_packet 5]"
proof -
  have "parse_audio_packet (demo_datagram n) = Some (demo_packet n)" for n
    using build_chunk [of "[1, 2]" 1 2 n "0x9781"] parse_build [of "[1, 2]" 1 2 n "0x9781"]
    by (auto simp: demo_datagram_def demo_packet_def MAX_AUDIO_PAYLOAD_def)
  then show ?thesis by (simp add: parse_audio_packet_def AUDIO_HEADER_SIZE_def)
qed

theorem listener_hears_the_jitter_output_witness:
  "\<exists>s0. start_rx 7 (Some 2) (stream_new 5) = Inr s0
    \<and> calls_to 7 (foldl (\<lambda>t d. rx_datagram d t) s0 [demo_datagram 4, [0, 0], demo_datagram 5])
      = [Some (demo_packet 4), Some (demo_packet 5)]"
proof -
  obtain s0 where s0: "start_rx 7 (Some 2) (stream_new 5) = Inr s0"
    by (auto simp: start_rx_def stream_new_def jitter_new_def Let_def)
  have "feed jb_step demo_jitter (audio_packets [demo_datagram 4, [0, 0], demo_datagram 5])
      = ([Some (demo_packet 4), Some (demo_packet 5)], demo_jitter\<lparr>jb_next := Some 6\<rparr>)"
    unfolding demo_audio by (simp add: jitter_eval)
  then show ?thesis
    using listener_hears_the_jitter_output [OF s0 demo_jitter_new _ _ refl,
        of "[demo_datagram 4, [0, 0], demo_datagram 5]"] s0
    by (auto simp: stream_new_def calls_to_def)
qed

theorem push_tx_round_trip_witness:
  "\<exists>pkts s'. push_tx 1 2 (replicate 1365 0) ((stream_new 5)\<lparr>as_state := AS_TRANSMITTING\<rparr>) = Inr (pkts, s')
    \<and> length (audio_packets pkts) = length pkts
    \<and> concat (map ap_data (audio_packets pkts)) = replicate 1365 0"
  using push_tx_round_trip [of "(stream_new 5)\<lparr>as_state := AS_TRANSMITTING\<rparr>" 1 2 "replicate 1365 0"]
  by auto

end
