(* ===== verification/Transport.thy ===== *)
theory Transport
  imports Sequences Buffers
begin

text \<open>
  \<open>core/transport.py\<close>: the packet handling of \<open>IcomTransport\<close> and \<open>IcomCivTransport\<close>, without the
  socket.

  \<^item> Sequence numbers and packet types are the 16-bit fields, connection ids the 32-bit fields of
    the header.
  \<^item> \<open>tp_sent\<close> is the log of what \<open>_raw_send\<close> was given; \<open>tp_calls\<close> the log of the callbacks, which do
    not raise. A guard (\<open>is_current\<close>) is a number; what a call of it answers at the moment
    (\<open>None\<close>: it raises) is a parameter of the step.
  \<^item> The steps of ordered delivery also return the packets they gave to \<open>_route_data_packet\<close>, in that order.
  \<^item> A pass of \<open>_retransmit_loop\<close> is the step \<open>retransmit_tick\<close>, one of \<open>_idle_loop\<close> \<open>idle_tick\<close>.
\<close>

section \<open>State\<close>

definition HEADER_SIZE :: nat where "HEADER_SIZE = 0x10"
definition CONTROL_SIZE :: nat where "CONTROL_SIZE = 0x10"
definition CONNINFO_NOTICE_SIZE :: nat where "CONNINFO_NOTICE_SIZE = 0x90"
definition TOKEN_PACKET_SIZE :: nat where "TOKEN_PACKET_SIZE = 0x40"
definition PING_SIZE :: nat where "PING_SIZE = 0x15"
definition IDLE_PERIOD :: time where "IDLE_PERIOD = 1 / 10"
definition BUFSIZE :: nat where "BUFSIZE = 500"
definition MAX_MISSING :: nat where "MAX_MISSING = 50"
definition REORDER_WINDOW :: nat where "REORDER_WINDOW = 256"
definition PACKET_QUEUE_MAXSIZE :: int where "PACKET_QUEUE_MAXSIZE = 4096"
definition OVERFLOW_LOG_INTERVAL :: time where "OVERFLOW_LOG_INTERVAL = 5"
definition PRESSURE_THRESHOLD :: rat where "PRESSURE_THRESHOLD = 7 / 10"

definition PACKET_CONTROL :: "16 word" where "PACKET_CONTROL = 0x01"
definition PACKET_DISCONNECT :: "16 word" where "PACKET_DISCONNECT = 0x05"
definition PACKET_PING :: "16 word" where "PACKET_PING = 0x07"

datatype conn_state = CS_DISCONNECTED | CS_CONNECTING | CS_CONNECTED

record held_packet =
  hp_data :: "byte list"
  hp_ptype :: "16 word"
  hp_seq :: seqno
  hp_sender :: "32 word"

datatype tp_call = ConninfoNotice "byte list" | TokenReply "byte list" | ScopeFast "byte list" | ScopeShed

record transport =
  tp_ordered :: bool
  tp_state :: conn_state
  tp_my_id :: "32 word"
  tp_remote_id :: "32 word"
  tp_send_seq :: seqno
  tp_ping_seq :: seqno
  tp_tx_buffer :: "(seqno \<times> byte list) list"
  tp_guards :: "(seqno \<times> nat) list"
  tp_rx_last :: "seqno option"
  tp_missing :: "(seqno \<times> nat) list"
  tp_rx_next :: "seqno option"
  tp_held :: "(seqno \<times> held_packet) list"
  tp_given_up :: "seqno list"
  tp_reordered :: nat
  tp_duplicate :: nat
  tp_lost :: nat
  tp_late :: nat
  tp_queue :: "byte list bounded_queue"
  tp_rx_count :: nat
  tp_last_tracked :: time
  tp_fast_path :: bool
  tp_shed :: bool
  tp_discard :: bool
  tp_conninfo :: bool
  tp_token :: bool
  tp_scope_dropped :: nat
  tp_overflow_evicted :: nat
  tp_overflow_logged :: time
  tp_sent :: "byte list list"
  tp_calls :: "tp_call list"

definition transport_new :: "bool \<Rightarrow> transport" where
  "transport_new ordered = \<lparr>tp_ordered = ordered, tp_state = CS_DISCONNECTED, tp_my_id = 0,
     tp_remote_id = 0, tp_send_seq = 0, tp_ping_seq = 0, tp_tx_buffer = [], tp_guards = [],
     tp_rx_last = None, tp_missing = [], tp_rx_next = None, tp_held = [], tp_given_up = [],
     tp_reordered = 0, tp_duplicate = 0, tp_lost = 0, tp_late = 0,
     tp_queue = bq_new PACKET_QUEUE_MAXSIZE, tp_rx_count = 0, tp_last_tracked = 0,
     tp_fast_path = False, tp_shed = False, tp_discard = False, tp_conninfo = False,
     tp_token = False, tp_scope_dropped = 0, tp_overflow_evicted = 0, tp_overflow_logged = 0,
     tp_sent = [], tp_calls = []\<rparr>"

text \<open>What \<open>connect\<close> resets before it opens the socket.\<close>

definition connect_reset :: "transport \<Rightarrow> transport" where
  "connect_reset t = t\<lparr>tp_send_seq := 0, tp_ping_seq := 0, tp_tx_buffer := [], tp_guards := [],
     tp_rx_last := None, tp_missing := [], tp_rx_next := None, tp_held := [], tp_given_up := [],
     tp_remote_id := 0, tp_queue := (tp_queue t)\<lparr>bq_items := []\<rparr>, tp_state := CS_CONNECTING\<rparr>"

definition raw_send :: "byte list \<Rightarrow> transport \<Rightarrow> transport" where
  "raw_send d t = t\<lparr>tp_sent := tp_sent t @ [d]\<rparr>"

section \<open>Packets\<close>

definition build_control :: "16 word \<Rightarrow> seqno \<Rightarrow> transport \<Rightarrow> byte list" where
  "build_control ptype seq t =
     le32 (of_nat CONTROL_SIZE) @ le16 ptype @ le16 seq @ le32 (tp_my_id t) @ le32 (tp_remote_id t)"

text \<open>\<open>now\<close> is the clock in whole milliseconds.\<close>

definition build_ping :: "nat \<Rightarrow> transport \<Rightarrow> byte list" where
  "build_ping now_ms t =
     le32 (of_nat PING_SIZE) @ le16 PACKET_PING @ le16 (tp_ping_seq t) @ le32 (tp_my_id t)
       @ le32 (tp_remote_id t) @ [0x00] @ le32 (of_nat now_ms)"

definition send_ping :: "nat \<Rightarrow> transport \<Rightarrow> transport" where
  "send_ping now_ms t = (raw_send (build_ping now_ms t) t)\<lparr>tp_ping_seq := tp_ping_seq t + 1\<rparr>"

text \<open>The part of \<open>disconnect\<close> that talks to the radio.\<close>

definition disconnect_send :: "transport \<Rightarrow> transport" where
  "disconnect_send t =
     (if tp_state t \<noteq> CS_DISCONNECTED \<and> tp_remote_id t \<noteq> 0
      then (raw_send (build_control PACKET_DISCONNECT 0 t) t)\<lparr>tp_remote_id := 0, tp_my_id := 0\<rparr>
      else t)"

section \<open>Sending\<close>

definition next_send_seq :: "transport \<Rightarrow> seqno \<times> transport" where
  "next_send_seq t = (tp_send_seq t, t\<lparr>tp_send_seq := tp_send_seq t + 1\<rparr>)"

definition track_sent :: "seqno \<Rightarrow> byte list \<Rightarrow> nat option \<Rightarrow> transport \<Rightarrow> transport" where
  "track_sent seq d guard t0 =
     (let t1 = (if seq = 0 then t0\<lparr>tp_tx_buffer := [], tp_guards := []\<rparr> else t0);
          t2 = t1\<lparr>tp_tx_buffer := AList.delete seq (tp_tx_buffer t1),
                  tp_guards := AList.delete seq (tp_guards t1)\<rparr>;
          t3 = (case tp_tx_buffer t2 of
                  (evicted, _) # rest \<Rightarrow>
                    (if BUFSIZE \<le> length (tp_tx_buffer t2)
                     then t2\<lparr>tp_tx_buffer := rest, tp_guards := AList.delete evicted (tp_guards t2)\<rparr>
                     else t2)
                | [] \<Rightarrow> t2)
      in t3\<lparr>tp_tx_buffer := AList.update seq d (tp_tx_buffer t3),
            tp_guards := (case guard of None \<Rightarrow> tp_guards t3 | Some g \<Rightarrow> AList.update seq g (tp_guards t3))\<rparr>)"

definition with_seq :: "byte list \<Rightarrow> seqno \<Rightarrow> byte list" where
  "with_seq d seq = take 6 d @ le16 seq @ drop 8 d"

text \<open>
  \<open>send_tracked\<close>: the guard is called first; \<open>pack_into\<close> raises on a packet shorter than its header
  field, after the number was taken.
\<close>

definition send_tracked ::
  "(nat \<Rightarrow> bool option) \<Rightarrow> time \<Rightarrow> byte list \<Rightarrow> nat option \<Rightarrow> transport \<Rightarrow> unit result \<times> transport"
where
  "send_tracked current now d guard t =
     (case (case guard of None \<Rightarrow> Some True | Some g \<Rightarrow> current g) of
        None \<Rightarrow> (Inl GuardError, t)
      | Some False \<Rightarrow> (Inl (CommandError ''Tracked write is no longer current''), t)
      | Some True \<Rightarrow>
          (let (seq, t1) = next_send_seq t in
           if length d < 8 then (Inl StructError, t1)
           else (Inr (), (raw_send (with_seq d seq) (track_sent seq (with_seq d seq) guard t1))
                           \<lparr>tp_last_tracked := now\<rparr>)))"

definition idle_tick :: "time \<Rightarrow> transport \<Rightarrow> transport" where
  "idle_tick now t =
     (if tp_state t = CS_DISCONNECTED then t
      else if IDLE_PERIOD \<le> now - tp_last_tracked t
      then snd (send_tracked (\<lambda>_. Some True) now (build_control 0x00 0 t) None t)
      else t)"

section \<open>Retransmit requests from the radio\<close>

definition retransmit :: "(nat \<Rightarrow> bool option) \<Rightarrow> seqno \<Rightarrow> transport \<Rightarrow> transport" where
  "retransmit current seq t =
     (case map_of (tp_tx_buffer t) seq of
        None \<Rightarrow> raw_send (build_control 0x00 seq t) t
      | Some d \<Rightarrow>
          (case map_of (tp_guards t) seq of
             None \<Rightarrow> raw_send d t
           | Some g \<Rightarrow>
               (if current g = Some True then raw_send d t
                else raw_send (build_control 0x00 seq t) t)))"

text \<open>The 4-byte (first, last) pairs of a payload; a trailing partial pair carries none.\<close>

fun seq_ranges :: "byte list \<Rightarrow> (seqno \<times> seqno) list" where
  "seq_ranges (a # b # c # d # rest) = (word16 b a, word16 d c) # seq_ranges rest"
| "seq_ranges _ = []"

definition range_seqs :: "seqno \<times> seqno \<Rightarrow> seqno list" where
  "range_seqs r =
     (let (first, lst) = r; span = ahead first lst in
      if 0x8000 \<le> span then []
      else map (\<lambda>k. first + of_nat k) [0..<min (span + 1) MAX_MISSING])"

definition requested_seqs :: "byte list \<Rightarrow> 32 word \<Rightarrow> seqno \<Rightarrow> seqno list" where
  "requested_seqs d len seq =
     (if unat len = CONTROL_SIZE \<and> length d = CONTROL_SIZE then [seq]
      else concat (map range_seqs (seq_ranges (drop CONTROL_SIZE d))))"

definition handle_retransmit_packet ::
  "(nat \<Rightarrow> bool option) \<Rightarrow> byte list \<Rightarrow> 32 word \<Rightarrow> seqno \<Rightarrow> transport \<Rightarrow> transport" where
  "handle_retransmit_packet current d len seq t =
     foldl (\<lambda>t s. retransmit current s t) t (requested_seqs d len seq)"

definition handle_ping_packet :: "byte list \<Rightarrow> seqno \<Rightarrow> transport \<Rightarrow> bool \<times> transport" where
  "handle_ping_packet d seq t =
     (if length d \<noteq> PING_SIZE then (False, t)
      else if d ! 0x10 = 0x00
      then (True, raw_send (le32 (of_nat PING_SIZE) @ le16 PACKET_PING @ le16 seq
              @ le32 (tp_my_id t) @ le32 (tp_remote_id t) @ [0x01] @ take 4 (drop 0x11 d)) t)
      else (True, t))"

section \<open>Missing numbers\<close>

definition note_missing :: "(seqno \<times> nat) list \<Rightarrow> seqno \<Rightarrow> (seqno \<times> nat) list" where
  "note_missing missing s = (if map_of missing s = None then missing @ [(s, 0)] else missing)"

definition record_rx_seq :: "seqno \<Rightarrow> transport \<Rightarrow> transport" where
  "record_rx_seq seq t0 =
     (let t = t0\<lparr>tp_missing := AList.delete seq (tp_missing t0)\<rparr> in
      case tp_rx_last t of
        None \<Rightarrow> t\<lparr>tp_rx_last := Some seq\<rparr>
      | Some lst \<Rightarrow>
          (let delta = ahead lst seq in
           if delta = 0 then t
           else if delta \<le> 0x7FFF then
             (if MAX_MISSING < delta then t\<lparr>tp_missing := [], tp_rx_last := Some seq\<rparr>
              else t\<lparr>tp_missing := foldl note_missing (tp_missing t)
                        (map (\<lambda>k. lst + of_nat k) [1..<delta]),
                     tp_rx_last := Some seq\<rparr>)
           else t))"

definition build_retransmit_requests :: "transport \<Rightarrow> byte list list" where
  "build_retransmit_requests t =
     (let seqs = map fst (tp_missing t) in
      case seqs of
        [] \<Rightarrow> []
      | [s] \<Rightarrow> [build_control PACKET_CONTROL s t]
      | _ \<Rightarrow> [le32 (of_nat (CONTROL_SIZE + 4 * length seqs)) @ le16 PACKET_CONTROL @ le16 0
               @ le32 (tp_my_id t) @ le32 (tp_remote_id t)
               @ concat (map (\<lambda>s. le16 s @ le16 s) seqs)])"

section \<open>Routing a data packet\<close>

definition note_overflow :: "time \<Rightarrow> transport \<Rightarrow> transport" where
  "note_overflow now t0 =
     (let t = t0\<lparr>tp_overflow_evicted := tp_overflow_evicted t0 + 1\<rparr> in
      if tp_overflow_logged t \<noteq> 0 \<and> now - tp_overflow_logged t < OVERFLOW_LOG_INTERVAL then t
      else t\<lparr>tp_overflow_logged := now, tp_overflow_evicted := 0\<rparr>)"

definition is_scope_packet :: "byte list \<Rightarrow> bool" where
  "is_scope_packet d \<longleftrightarrow> HEADER_SIZE + 5 < length d \<and> d ! HEADER_SIZE = 0xFE
     \<and> d ! (HEADER_SIZE + 1) = 0xFE \<and> d ! (HEADER_SIZE + 4) = 0x27 \<and> d ! (HEADER_SIZE + 5) = 0x00"

definition queue_pressure :: "'a bounded_queue \<Rightarrow> rat" where
  "queue_pressure q = (if bq_maxsize q \<le> 0 then 0 else of_nat (bq_size q) / of_int (bq_maxsize q))"

definition add_call :: "tp_call \<Rightarrow> transport \<Rightarrow> transport" where
  "add_call c t = t\<lparr>tp_calls := tp_calls t @ [c]\<rparr>"

definition enqueue_packet :: "time \<Rightarrow> bool \<Rightarrow> byte list \<Rightarrow> transport \<Rightarrow> transport" where
  "enqueue_packet now scope d t =
     (case put_nowait d (tp_queue t) of
        Inr q \<Rightarrow>
          (let t1 = t\<lparr>tp_queue := q\<rparr> in
           if tp_shed t1 \<and> PRESSURE_THRESHOLD < queue_pressure q then add_call ScopeShed t1 else t1)
      | Inl _ \<Rightarrow>
          (if scope then t\<lparr>tp_scope_dropped := tp_scope_dropped t + 1\<rparr> else note_overflow now t))"

definition route_data_packet :: "time \<Rightarrow> held_packet \<Rightarrow> transport \<Rightarrow> transport" where
  "route_data_packet now p t0 =
     (let d = hp_data p; scope = is_scope_packet d;
          t = (if tp_remote_id t0 = 0 \<and> hp_sender p \<noteq> 0 then t0\<lparr>tp_remote_id := hp_sender p\<rparr> else t0)
      in if hp_ptype p = 0x00 \<and> length d = CONNINFO_NOTICE_SIZE \<and> tp_conninfo t0
         then add_call (ConninfoNotice d) t0
         else if hp_ptype p = 0x00 \<and> length d = TOKEN_PACKET_SIZE \<and> tp_token t0
         then add_call (TokenReply d) t0
         else if tp_discard t0 \<and> hp_ptype p = 0x00 then t0
         else if scope \<and> tp_fast_path t then add_call (ScopeFast d) t
         else if bq_full (tp_queue t) then
           (if scope then t\<lparr>tp_scope_dropped := tp_scope_dropped t + 1\<rparr>
            else
              let t1 = (case get_nowait (tp_queue t) of Inl _ \<Rightarrow> t | Inr (_, q) \<Rightarrow> t\<lparr>tp_queue := q\<rparr>)
              in enqueue_packet now scope d (note_overflow now t1))
         else enqueue_packet now scope d t)"

section \<open>Ordered delivery\<close>

text \<open>The held number next after \<open>nxt\<close>: \<open>min\<close> by the distance from it.\<close>

definition first_held :: "seqno \<Rightarrow> (seqno \<times> 'p) list \<Rightarrow> seqno" where
  "first_held nxt held = arg_min_list (ahead nxt) (map fst held)"

lemma first_held_in: "held \<noteq> [] \<Longrightarrow> first_held nxt held \<in> fst ` set held"
  using arg_min_list_in [of "map fst held" "ahead nxt"] by (simp add: first_held_def)

lemma first_held_least: "s \<in> fst ` set held \<Longrightarrow> ahead nxt (first_held nxt held) \<le> ahead nxt s"
proof -
  assume s: "s \<in> fst ` set held"
  then have "map fst held \<noteq> []" by auto
  then have "ahead nxt (first_held nxt held) = Min (ahead nxt ` set (map fst held))"
    unfolding first_held_def by (rule f_arg_min_list_f)
  then show ?thesis using s by auto
qed

lemma first_held_ahead:
  "map_of held nxt = None \<Longrightarrow> held \<noteq> [] \<Longrightarrow> 0 < ahead nxt (first_held nxt held)"
  using first_held_in [of held nxt] ahead_pos [of "first_held nxt held" nxt]
  by (metis map_of_eq_None_iff)

lemma held_measure_jump:
  assumes "\<And>s. s \<in> fst ` set buf \<Longrightarrow> k \<le> ahead n s"
  shows "held_measure (n + of_nat k) buf + k * length buf = held_measure n buf"
  using assms
proof (induction buf)
  case Nil
  then show ?case by simp
next
  case (Cons x buf)
  obtain s p where x: "x = (s, p)" by (cases x)
  have k: "k \<le> ahead n s" using Cons.prems x by simp
  have "held_measure (n + of_nat k) buf + k * length buf = held_measure n buf"
    by (rule Cons.IH) (use Cons.prems in simp)
  then show ?case using k x ahead_add [OF k] by simp
qed

lemma held_measure_first:
  assumes "map_of held nxt = None" and "held \<noteq> []"
  shows "held_measure (first_held nxt held) held < held_measure nxt held"
proof -
  let ?k = "ahead nxt (first_held nxt held)"
  have "nxt + of_nat ?k = first_held nxt held" by (rule of_nat_ahead)
  then have "held_measure (first_held nxt held) held + ?k * length held = held_measure nxt held"
    using held_measure_jump [of held ?k nxt] first_held_least [of _ held nxt] by metis
  moreover have "0 < ?k * length held" using first_held_ahead [OF assms] assms(2) by simp
  ultimately show ?thesis by linarith
qed

text \<open>
  The loop of \<open>_release_in_order\<close>: the packets it routes, how many numbers it skips and which of them it gives up,
  the next number, and the packets and missing numbers left.
\<close>

function release_loop ::
  "seqno option \<Rightarrow> (seqno \<times> nat) list \<Rightarrow> seqno \<Rightarrow> (seqno \<times> 'p) list
    \<Rightarrow> 'p list \<times> nat \<times> seqno list \<times> seqno \<times> (seqno \<times> 'p) list \<times> (seqno \<times> nat) list"
where
  "release_loop lst missing nxt held =
     (if held = [] then ([], 0, [], nxt, held, missing)
      else case map_of held nxt of
        Some p \<Rightarrow>
          (let (r, out) = release_loop lst missing (nxt + 1) (AList.delete nxt held) in (p # r, out))
      | None \<Rightarrow>
          (let newest = (case lst of None \<Rightarrow> nxt | Some l \<Rightarrow> l) in
           if map_of missing nxt \<noteq> None \<and> ahead nxt newest \<le> REORDER_WINDOW
           then ([], 0, [], nxt, held, missing)
           else
             let first = first_held nxt held; skipped = ahead nxt first;
                 missing' = filter (\<lambda>(s, _). skipped \<le> ahead nxt s) missing;
                 (r, lost, g, out) = release_loop lst missing' first held
             in (r, skipped + lost,
                 map (\<lambda>k. nxt + of_nat k) [skipped - REORDER_WINDOW..<skipped] @ g, out)))"
  by pat_completeness auto
termination
  by (relation "measure (\<lambda>(lst, missing, nxt, held). held_measure nxt held)")
    (auto simp: held_measure_delete held_measure_first)

declare release_loop.simps [simp del]

text \<open>A \<open>deque\<close> of bounded length forgets its oldest elements.\<close>

definition deque_extend :: "nat \<Rightarrow> 'a list \<Rightarrow> 'a list \<Rightarrow> 'a list" where
  "deque_extend maxlen xs ys = drop (length (xs @ ys) - maxlen) (xs @ ys)"

definition release_in_order :: "time \<Rightarrow> transport \<Rightarrow> held_packet list \<times> transport" where
  "release_in_order now t =
     (case tp_rx_next t of
        None \<Rightarrow> ([], t)
      | Some nxt \<Rightarrow>
          (let (r, lost, g, n, h, m) = release_loop (tp_rx_last t) (tp_missing t) nxt (tp_held t) in
           (r, foldl (\<lambda>t p. route_data_packet now p t)
                 (t\<lparr>tp_held := h, tp_missing := m, tp_rx_next := Some n,
                    tp_given_up := deque_extend REORDER_WINDOW (tp_given_up t) g,
                    tp_lost := tp_lost t + lost\<rparr>) r)))"

definition accept_in_order ::
  "time \<Rightarrow> held_packet \<Rightarrow> bool \<Rightarrow> transport \<Rightarrow> held_packet list \<times> transport" where
  "accept_in_order now p arrived_after_later t =
     (let seq = hp_seq p;
          nxt = (case tp_rx_next t of None \<Rightarrow> seq | Some n \<Rightarrow> n);
          behind = ahead seq nxt
      in if 0 < behind \<and> behind < 0x8000
         then ([], if seq \<in> set (tp_given_up t) then t\<lparr>tp_late := tp_late t + 1\<rparr>
                   else t\<lparr>tp_duplicate := tp_duplicate t + 1\<rparr>)
         else if map_of (tp_held t) seq \<noteq> None
         then ([], t\<lparr>tp_duplicate := tp_duplicate t + 1\<rparr>)
         else release_in_order now
           (t\<lparr>tp_reordered := tp_reordered t + (if arrived_after_later then 1 else 0),
              tp_held := AList.update seq p (tp_held t), tp_rx_next := Some nxt\<rparr>))"

definition handle_data_packet ::
  "time \<Rightarrow> held_packet \<Rightarrow> transport \<Rightarrow> held_packet list \<times> transport" where
  "handle_data_packet now p t =
     (if hp_ptype p = 0x00 \<and> (hp_seq p \<noteq> 0 \<or> tp_ordered t) then
        let late = (case tp_rx_last t of None \<Rightarrow> False
                    | Some l \<Rightarrow> 0 < ahead (hp_seq p) l \<and> ahead (hp_seq p) l < 0x8000);
            t1 = record_rx_seq (hp_seq p) t
        in if tp_ordered t1 then accept_in_order now p late t1
           else ([], route_data_packet now p t1)
      else ([], route_data_packet now p t))"

definition handle_packet ::
  "(nat \<Rightarrow> bool option) \<Rightarrow> time \<Rightarrow> byte list \<Rightarrow> transport \<Rightarrow> held_packet list \<times> transport" where
  "handle_packet current now d t0 =
     (if length d < HEADER_SIZE then ([], t0)
      else
        let t = t0\<lparr>tp_rx_count := tp_rx_count t0 + 1\<rparr>;
            len = get_le32 d 0; ptype = get_le16 d 4; seq = get_le16 d 6;
            p = \<lparr>hp_data = d, hp_ptype = ptype, hp_seq = seq, hp_sender = get_le32 d 8\<rparr>
        in if ptype = 0x01 then ([], handle_retransmit_packet current d len seq t)
           else if ptype = PACKET_PING then
             (case handle_ping_packet d seq t of
                (True, t1) \<Rightarrow> ([], t1)
              | (False, t1) \<Rightarrow> handle_data_packet now p t1)
           else handle_data_packet now p t)"

text \<open>One pass of the retransmit loop: ask, then count the tries and give up the spent numbers.\<close>

definition retransmit_tick :: "time \<Rightarrow> transport \<Rightarrow> held_packet list \<times> transport" where
  "retransmit_tick now t0 =
     (if tp_state t0 = CS_DISCONNECTED then ([], t0)
      else
        let t = foldl (\<lambda>t d. raw_send d t) t0 (build_retransmit_requests t0);
            spent = filter (\<lambda>(s, c). 4 \<le> c) (tp_missing t);
            t1 = t\<lparr>tp_missing := map (\<lambda>(s, c). (s, c + 1)) (filter (\<lambda>(s, c). \<not> 4 \<le> c) (tp_missing t))\<rparr>
        in if spent \<noteq> [] \<and> tp_held t1 \<noteq> [] then release_in_order now t1 else ([], t1))"

end
