(* ===== verification/TransportRuns.thy ===== *)
theory TransportRuns
  imports Transport "HOL-Library.Multiset"
begin

text \<open>
  The transport of \<open>Transport\<close> under any sequence of datagrams, sends and loop passes: ordered
  delivery without loss or repetition of what arrived, the bound on what is held back, the
  retransmit requests in both directions, and the sent packets kept for them.
\<close>

section \<open>The release loop\<close>

definition held_within :: "nat \<Rightarrow> seqno \<Rightarrow> (seqno \<times> 'p) list \<Rightarrow> bool" where
  "held_within w n held \<longleftrightarrow> list_all (\<lambda>(s, p). ahead n s \<le> w) held"

definition newest_of :: "seqno option \<Rightarrow> seqno \<Rightarrow> seqno" where
  "newest_of lst nxt = (case lst of None \<Rightarrow> nxt | Some l \<Rightarrow> l)"

text \<open>
  \<open>forward num n r m k\<close>: from number \<open>n\<close> on, the packets \<open>r\<close> come in the order of their numbers, with \<open>k\<close> numbers
  skipped in all and never more than half the number space at once; \<open>m\<close> is the number after them.
\<close>

fun forward :: "('p \<Rightarrow> seqno) \<Rightarrow> seqno \<Rightarrow> 'p list \<Rightarrow> seqno \<Rightarrow> nat \<Rightarrow> bool" where
  "forward num n [] m k \<longleftrightarrow> m = n \<and> k = 0"
| "forward num n (p # r) m k \<longleftrightarrow> ahead n (num p) \<le> 0x8000 \<and> ahead n (num p) \<le> k \<and>
     forward num (num p + 1) r m (k - ahead n (num p))"

lemma forward_append:
  "forward num n r m k \<Longrightarrow> forward num m q m' k' \<Longrightarrow> forward num n (r @ q) m' (k + k')"
proof (induction r arbitrary: n k)
  case (Cons p r)
  then have "ahead n (num p) \<le> k + k'" "k + k' - ahead n (num p) = (k - ahead n (num p)) + k'" by simp_all
  moreover have "forward num (num p + 1) (r @ q) m' ((k - ahead n (num p)) + k')"
    by (rule Cons.IH) (use Cons.prems in simp_all)
  ultimately show ?case using Cons.prems by (simp only: append_Cons forward.simps)
qed simp

text \<open>The distance between two packets that follow each other, and what all of them skip.\<close>

definition step_ahead :: "('p \<Rightarrow> seqno) \<Rightarrow> 'p list \<Rightarrow> nat \<Rightarrow> nat" where
  "step_ahead num r i = ahead (num (r ! i)) (num (r ! Suc i))"

lemma ahead_next: "ahead (n + 1) s \<le> 0x8000 \<Longrightarrow> ahead n s = Suc (ahead (n + 1) s)"
proof -
  assume near: "ahead (n + 1) s \<le> 0x8000"
  have "n + of_nat (Suc (ahead (n + 1) s)) = s" using of_nat_ahead [of "n + 1" s] by (simp add: add.assoc)
  then show ?thesis using ahead_of_nat [of "Suc (ahead (n + 1) s)" n] near by simp
qed

lemma forward_steps:
  "forward num n r m k \<Longrightarrow>
    (\<forall>i. Suc i < length r \<longrightarrow> 0 < step_ahead num r i \<and> step_ahead num r i \<le> 0x8001) \<and>
    k = (case r of [] \<Rightarrow> 0 | p # _ \<Rightarrow> ahead n (num p)) + (\<Sum>i < length r - 1. step_ahead num r i - 1)"
proof (induction r arbitrary: n k)
  case (Cons p r)
  have f: "ahead n (num p) \<le> k" "forward num (num p + 1) r m (k - ahead n (num p))" using Cons.prems by simp_all
  note ih = Cons.IH [OF f(2)]
  show ?case
  proof (cases r)
    case Nil
    then show ?thesis using ih f by simp
  next
    case (Cons q r')
    have near: "ahead (num p + 1) (num q) \<le> 0x8000" using f(2) Cons by simp
    have first: "step_ahead num (p # r) 0 = Suc (ahead (num p + 1) (num q))"
      using ahead_next [OF near] by (simp add: step_ahead_def Cons)
    have later: "step_ahead num (p # r) (Suc i) = step_ahead num r i" for i by (simp add: step_ahead_def)
    have "(\<Sum>i < Suc (length r - 1). step_ahead num (p # r) i - 1)
        = (step_ahead num (p # r) 0 - 1) + (\<Sum>i < length r - 1. step_ahead num (p # r) (Suc i) - 1)"
      by (rule sum.lessThan_Suc_shift)
    then have "(\<Sum>i < length r. step_ahead num (p # r) i - 1)
        = ahead (num p + 1) (num q) + (\<Sum>i < length r - 1. step_ahead num r i - 1)"
      unfolding later first by (simp add: Cons)
    moreover have "0 < step_ahead num (p # r) i \<and> step_ahead num (p # r) i \<le> 0x8001" if "Suc i < length (p # r)" for i
      using that ih near first later by (cases i) auto
    moreover have "k = ahead n (num p) + (ahead (num p + 1) (num q) + (\<Sum>i < length r - 1. step_ahead num r i - 1))"
      using ih f(1) unfolding Cons list.case by linarith
    ultimately show ?thesis by simp
  qed
qed simp

lemma mset_delete:
  "distinct (map fst al) \<Longrightarrow> map_of al k = Some p \<Longrightarrow> mset (map snd al) = add_mset p (mset (map snd (AList.delete k al)))"
  by (induction al) (auto simp: delete_id split: if_splits)

lemma held_ok_first:
  assumes "held_ok num n held" and "held \<noteq> []"
  shows "held_ok num (first_held n held) held"
proof -
  let ?k = "ahead n (first_held n held)"
  have "ahead (n + of_nat ?k) s \<le> 0x8000" if "(s, p) \<in> set held" for s p
  proof -
    have "?k \<le> ahead n s" using first_held_least [of s held n] that by force
    then show ?thesis
      using that assms(1) ahead_add [of ?k n s] by (auto simp: held_ok_def list_all_iff)
  qed
  then show ?thesis
    using assms(1) by (auto simp: held_ok_def list_all_iff of_nat_ahead)
qed

lemma map_of_first_held: "held \<noteq> [] \<Longrightarrow> \<exists>p. map_of held (first_held n held) = Some p"
  using first_held_in [of held n] by (metis map_of_eq_None_iff not_None_eq)

text \<open>What the loop leaves lies no further ahead than it did.\<close>

lemma release_loop_spec:
  assumes "held_ok num n held" and "release_loop lst missing n held = (r, k, g, n', h, m)"
  shows "forward num n r n' k" and "held_ok num n' h"
    and "mset r + mset (map snd h) = mset (map snd held)"
    and "set m \<subseteq> set missing" and "distinct (map fst missing) \<Longrightarrow> distinct (map fst m)"
    and "set h \<subseteq> set held"
    and "h = [] \<or> map_of h n' = None \<and> map_of m n' \<noteq> None \<and> ahead n' (newest_of lst n') \<le> REORDER_WINDOW"
    and "\<And>s q. (s, q) \<in> set h \<Longrightarrow> ahead n' s \<le> ahead n s"
    and "map_of held n = Some p \<Longrightarrow> \<exists>r'. r = p # r'"
proof -
  have "held_ok num n held \<Longrightarrow> release_loop lst missing n held = (r, k, g, n', h, m) \<Longrightarrow>
      forward num n r n' k \<and> held_ok num n' h
      \<and> mset r + mset (map snd h) = mset (map snd held)
      \<and> set m \<subseteq> set missing \<and> (distinct (map fst missing) \<longrightarrow> distinct (map fst m))
      \<and> set h \<subseteq> set held
      \<and> (h = [] \<or> map_of h n' = None \<and> map_of m n' \<noteq> None \<and> ahead n' (newest_of lst n') \<le> REORDER_WINDOW)
      \<and> (\<forall>s p. (s, p) \<in> set h \<longrightarrow> ahead n' s \<le> ahead n s)
      \<and> (\<forall>p. map_of held n = Some p \<longrightarrow> (\<exists>r'. r = p # r'))"
  proof (induction lst missing n held arbitrary: r k g rule: release_loop.induct)
    case (1 lst missing nxt held)
    note loop = "1.prems"(2) [unfolded release_loop.simps [of lst missing nxt held]]
    show ?case
    proof (cases "held = []")
      case True
      then show ?thesis using loop by simp
    next
      case nonempty: False
      show ?thesis
      proof (cases "map_of held nxt")
        case (Some p)
        obtain r1 k1 g1 where r1:
            "release_loop lst missing (nxt + 1) (AList.delete nxt held) = (r1, k1, g1, n', h, m)"
            "r = p # r1" "k = k1"
          using loop nonempty Some by (auto split: prod.splits)
        note ih = "1.IH"(2) [OF nonempty Some held_ok_delete [OF "1.prems"(1)] r1(1)]
        have num: "num p = nxt"
          using "1.prems"(1) map_of_SomeD [OF Some] by (auto simp: held_ok_def list_all_iff)
        have "mset (map snd held) = add_mset p (mset (map snd (AList.delete nxt held)))"
          using mset_delete [OF _ Some] "1.prems"(1) by (simp add: held_ok_def)
        then have "mset r + mset (map snd h) = mset (map snd held)" using ih r1(2) by simp
        moreover have sub: "set (AList.delete nxt held) \<subseteq> set held" by (auto simp: AList.delete_eq)
        moreover have "ahead n' s \<le> ahead nxt s" if "(s, q) \<in> set h" for s q
        proof -
          have "(s, q) \<in> set (AList.delete nxt held)" using that ih by blast
          then have "s \<noteq> nxt" using delete_notin_dom [of nxt held] by force
          then show ?thesis using that ih ahead_Suc_le [of s nxt] by (meson order_trans)
        qed
        moreover have "forward num nxt r n' k" using ih r1(2,3) num by simp
        moreover have "held_ok num n' h" "set m \<subseteq> set missing"
            "distinct (map fst missing) \<longrightarrow> distinct (map fst m)" "set h \<subseteq> set held"
            "h = [] \<or> map_of h n' = None \<and> map_of m n' \<noteq> None \<and> ahead n' (newest_of lst n') \<le> REORDER_WINDOW"
          using ih sub by blast+
        ultimately show ?thesis using r1(2) Some by (intro conjI allI impI) simp_all
      next
        case None
        show ?thesis
        proof (cases "map_of missing nxt \<noteq> None \<and> ahead nxt (newest_of lst nxt) \<le> REORDER_WINDOW")
          case True
          then show ?thesis
            using loop nonempty None "1.prems"(1) by (auto simp: newest_of_def split: option.splits)
        next
          case False
          let ?first = "first_held nxt held"
          let ?m = "filter (\<lambda>(s, _). ahead nxt ?first \<le> ahead nxt s) missing"
          obtain k1 g1 where r1: "release_loop lst ?m ?first held = (r, k1, g1, n', h, m)"
              "k = ahead nxt ?first + k1"
            using loop nonempty None False by (auto simp: newest_of_def Let_def split: prod.splits)
          note ih = "1.IH"(1) [OF nonempty None refl _ refl refl refl held_ok_first [OF "1.prems"(1) nonempty] r1(1)]
          have ih: "forward num ?first r n' k1 \<and> held_ok num n' h
              \<and> mset r + mset (map snd h) = mset (map snd held)
              \<and> set m \<subseteq> set ?m \<and> (distinct (map fst ?m) \<longrightarrow> distinct (map fst m))
              \<and> set h \<subseteq> set held
              \<and> (h = [] \<or> map_of h n' = None \<and> map_of m n' \<noteq> None
                   \<and> ahead n' (newest_of lst n') \<le> REORDER_WINDOW)
              \<and> (\<forall>s p. (s, p) \<in> set h \<longrightarrow> ahead n' s \<le> ahead ?first s)
              \<and> (\<forall>p. map_of held ?first = Some p \<longrightarrow> (\<exists>r'. r = p # r'))"
            by (rule ih) (use False in \<open>simp add: newest_of_def\<close>)
          have first: "nxt + of_nat (ahead nxt ?first) = ?first" by (rule of_nat_ahead)
          have "ahead n' s \<le> ahead nxt s" if "(s, q) \<in> set h" for s q
          proof -
            have "(s, q) \<in> set held" using that ih by blast
            then have "ahead nxt ?first \<le> ahead nxt s" using first_held_least [of s held nxt] by force
            then have "ahead ?first s \<le> ahead nxt s"
              using ahead_add [of "ahead nxt ?first" nxt s] first by simp
            then show ?thesis using that ih by (meson order_trans)
          qed
          moreover have "forward num nxt r n' k"
          proof -
            obtain p where p: "map_of held ?first = Some p" using map_of_first_held [OF nonempty, of nxt] by blast
            then obtain r' where r': "r = p # r'" using ih by blast
            have "num p = ?first" "ahead nxt ?first \<le> 0x8000"
              using map_of_SomeD [OF p] "1.prems"(1) by (auto simp: held_ok_def list_all_iff)
            then show ?thesis using ih r1(2) by (simp add: r')
          qed
          moreover have "distinct (map fst missing) \<longrightarrow> distinct (map fst m)"
            using ih distinct_map_filter [of fst missing] by blast
          moreover have "set ?m \<subseteq> set missing" by auto
          moreover have "held_ok num n' h" "set m \<subseteq> set ?m" "set h \<subseteq> set held" "mset r + mset (map snd h) = mset (map snd held)"
              "h = [] \<or> map_of h n' = None \<and> map_of m n' \<noteq> None \<and> ahead n' (newest_of lst n') \<le> REORDER_WINDOW"
            using ih by blast+
          ultimately show ?thesis using None by (intro conjI allI impI) (simp_all add: subset_trans)
        qed
      qed
    qed
  qed
  note this [OF assms]
  then show "forward num n r n' k" "held_ok num n' h"
    "mset r + mset (map snd h) = mset (map snd held)" "set m \<subseteq> set missing"
    "distinct (map fst missing) \<Longrightarrow> distinct (map fst m)" "set h \<subseteq> set held"
    "h = [] \<or> map_of h n' = None \<and> map_of m n' \<noteq> None \<and> ahead n' (newest_of lst n') \<le> REORDER_WINDOW"
    "\<And>s q. (s, q) \<in> set h \<Longrightarrow> ahead n' s \<le> ahead n s"
    "map_of held n = Some p \<Longrightarrow> \<exists>r'. r = p # r'"
    by blast+
qed

section \<open>One step\<close>

text \<open>The receive side of the state; sends, routing and replies leave it alone.\<close>

definition rx_view where
  "rx_view (t :: transport) = (tp_ordered t, tp_state t, tp_rx_last t, tp_missing t, tp_rx_next t, tp_held t,
     tp_given_up t, tp_reordered t, tp_duplicate t, tp_lost t, tp_late t)"

lemma rx_viewD:
  assumes "rx_view t' = rx_view t"
  shows "tp_ordered t' = tp_ordered t" "tp_state t' = tp_state t" "tp_rx_last t' = tp_rx_last t"
    "tp_missing t' = tp_missing t" "tp_rx_next t' = tp_rx_next t" "tp_held t' = tp_held t"
    "tp_given_up t' = tp_given_up t" "tp_duplicate t' = tp_duplicate t" "tp_lost t' = tp_lost t"
    "tp_late t' = tp_late t"
  using assms by (simp_all add: rx_view_def)

lemma rx_view_raw_send [simp]: "rx_view (raw_send d t) = rx_view t"
  by (simp add: raw_send_def rx_view_def)

lemma rx_view_raw_sends [simp]: "rx_view (foldl (\<lambda>t d. raw_send d t) t ds) = rx_view t"
  by (induction ds arbitrary: t) simp_all

lemma rx_view_note_overflow [simp]: "rx_view (note_overflow now t) = rx_view t"
  by (simp add: note_overflow_def rx_view_def Let_def)

lemma rx_view_enqueue [simp]: "rx_view (enqueue_packet now sc d t) = rx_view t"
proof -
  have "rx_view (t\<lparr>tp_queue := q\<rparr>) = rx_view t" "rx_view (t\<lparr>tp_scope_dropped := k\<rparr>) = rx_view t"
    "rx_view (add_call c t) = rx_view t" "rx_view (add_call c (t\<lparr>tp_queue := q\<rparr>)) = rx_view t" for q k c
    by (simp_all add: rx_view_def add_call_def)
  then show ?thesis by (simp add: enqueue_packet_def Let_def split: sum.split)
qed

lemma rx_view_route [simp]: "rx_view (route_data_packet now p t) = rx_view t"
proof -
  have upd: "rx_view (t\<lparr>tp_remote_id := i\<rparr>) = rx_view t" "rx_view (add_call c t) = rx_view t"
    "rx_view (t\<lparr>tp_scope_dropped := k\<rparr>) = rx_view t" "rx_view (t\<lparr>tp_queue := q\<rparr>) = rx_view t" for t i c k q
    by (simp_all add: rx_view_def add_call_def)
  show ?thesis
    by (simp add: route_data_packet_def Let_def upd split: sum.split prod.split)
qed

lemma rx_view_routes [simp]:
  "rx_view (foldl (\<lambda>t p. route_data_packet now p t) t r) = rx_view t"
  by (induction r arbitrary: t) simp_all

lemma rx_view_retransmit [simp]: "rx_view (retransmit current s t) = rx_view t"
  by (simp add: retransmit_def split: option.split)

lemma rx_view_handle_retransmit [simp]: "rx_view (handle_retransmit_packet current d len seq t) = rx_view t"
proof -
  have "rx_view (foldl (\<lambda>t s. retransmit current s t) t ss) = rx_view t" for ss
    by (induction ss arbitrary: t) simp_all
  then show ?thesis by (simp add: handle_retransmit_packet_def)
qed

lemma rx_view_handle_ping: "handle_ping_packet d seq t = (b, t') \<Longrightarrow> rx_view t' = rx_view t"
  by (auto simp: handle_ping_packet_def split: if_splits)

lemma rx_view_send_tracked [simp]: "rx_view (snd (send_tracked current now d guard t)) = rx_view t"
proof -
  have "rx_view (track_sent seq pkt g t) = rx_view t" for seq pkt g t
    by (simp add: track_sent_def Let_def rx_view_def split: list.split)
  moreover have "rx_view (t\<lparr>tp_last_tracked := now\<rparr>) = rx_view t" "rx_view (t\<lparr>tp_send_seq := k\<rparr>) = rx_view t" for t k
    by (simp_all add: rx_view_def)
  ultimately show ?thesis
    by (simp add: send_tracked_def next_send_seq_def split: option.split bool.split)
qed

text \<open>What release does to the state.\<close>

lemma release_in_order_spec:
  assumes "tp_rx_next t = Some n" and "held_ok hp_seq n (tp_held t)" and "release_in_order now t = (r, t')"
  obtains n' k where "forward hp_seq n r n' k" "tp_rx_next t' = Some n'" "held_ok hp_seq n' (tp_held t')"
    "mset r + mset (map snd (tp_held t')) = mset (map snd (tp_held t))" "tp_lost t' = tp_lost t + k"
    "set (tp_missing t') \<subseteq> set (tp_missing t)"
    "distinct (map fst (tp_missing t)) \<Longrightarrow> distinct (map fst (tp_missing t'))"
    "set (tp_held t') \<subseteq> set (tp_held t)" "map_of (tp_held t') n' = None"
    "tp_held t' = [] \<or> map_of (tp_missing t') n' \<noteq> None \<and> ahead n' (newest_of (tp_rx_last t) n') \<le> REORDER_WINDOW"
    "\<And>s q. (s, q) \<in> set (tp_held t') \<Longrightarrow> ahead n' s \<le> ahead n s"
    "\<And>p. map_of (tp_held t) n = Some p \<Longrightarrow> \<exists>r'. r = p # r'"
    "tp_ordered t' = tp_ordered t" "tp_state t' = tp_state t" "tp_rx_last t' = tp_rx_last t"
    "tp_duplicate t' = tp_duplicate t" "tp_late t' = tp_late t"
proof -
  obtain r0 k g n' h m where loop:
      "release_loop (tp_rx_last t) (tp_missing t) n (tp_held t) = (r0, k, g, n', h, m)"
    by (cases "release_loop (tp_rx_last t) (tp_missing t) n (tp_held t)")
  let ?t = "t\<lparr>tp_held := h, tp_missing := m, tp_rx_next := Some n',
              tp_given_up := deque_extend REORDER_WINDOW (tp_given_up t) g, tp_lost := tp_lost t + k\<rparr>"
  have r: "r0 = r" and t': "rx_view t' = rx_view ?t"
    using assms(1,3) loop by (auto simp: release_in_order_def)
  note spec = release_loop_spec [OF assms(2) loop, unfolded r]
  note f = rx_viewD [OF t']
  show thesis
    by (rule that [of n' k]) (use f spec in auto)
qed

section \<open>The receive side in order\<close>

definition rx_inv :: "transport \<Rightarrow> bool" where
  "rx_inv t \<longleftrightarrow> tp_ordered t \<and> distinct (map fst (tp_missing t))
     \<and> list_all (\<lambda>(s, c). c \<le> 4) (tp_missing t)
     \<and> (case tp_rx_last t of
          None \<Rightarrow> tp_rx_next t = None \<and> tp_missing t = []
        | Some l \<Rightarrow> map_of (tp_missing t) l = None)
     \<and> (case tp_rx_next t of
          None \<Rightarrow> tp_held t = []
        | Some n \<Rightarrow> held_ok hp_seq n (tp_held t) \<and> held_within REORDER_WINDOW n (tp_held t)
            \<and> map_of (tp_held t) n = None)"

lemma rx_inv_view:
  assumes "rx_view t' = rx_view t"
  shows "rx_inv t' \<longleftrightarrow> rx_inv t"
  unfolding rx_inv_def rx_viewD [OF assms] ..

lemma note_missing_keys:
  "set (map fst (foldl note_missing m ss)) = set (map fst m) \<union> set ss"
  by (induction ss arbitrary: m) (auto simp: note_missing_def map_of_eq_None_iff)

lemma note_missing_distinct:
  "distinct (map fst m) \<Longrightarrow> distinct (map fst (foldl note_missing m ss))"
  by (induction ss arbitrary: m) (auto simp: note_missing_def map_of_eq_None_iff)

lemma note_missing_counts:
  "list_all (\<lambda>(s, c). c \<le> 4) m \<Longrightarrow> list_all (\<lambda>(s, c). c \<le> 4) (foldl note_missing m ss)"
  by (induction ss arbitrary: m) (auto simp: note_missing_def)

lemma record_rx_seq_spec:
  assumes "rx_inv t"
  shows "\<exists>l. tp_rx_last (record_rx_seq seq t) = Some l \<and> map_of (tp_missing (record_rx_seq seq t)) l = None
      \<and> (l = seq \<or> 0x8000 \<le> ahead l seq)"
    and "distinct (map fst (tp_missing (record_rx_seq seq t)))"
    and "list_all (\<lambda>(s, c). c \<le> 4) (tp_missing (record_rx_seq seq t))"
    and "tp_rx_next (record_rx_seq seq t) = tp_rx_next t" "tp_held (record_rx_seq seq t) = tp_held t"
      "tp_ordered (record_rx_seq seq t) = tp_ordered t" "tp_state (record_rx_seq seq t) = tp_state t"
      "tp_lost (record_rx_seq seq t) = tp_lost t" "tp_late (record_rx_seq seq t) = tp_late t"
      "tp_duplicate (record_rx_seq seq t) = tp_duplicate t"
proof -
  let ?m = "AList.delete seq (tp_missing t)"
  have m: "distinct (map fst ?m)" "list_all (\<lambda>(s, c). c \<le> 4) ?m"
    using assms distinct_delete [of "tp_missing t" seq]
    by (auto simp: rx_inv_def list_all_iff AList.delete_eq)
  have none: "map_of ?m seq = None" using delete_notin_dom [of seq "tp_missing t"] by (simp add: map_of_eq_None_iff)
  show "distinct (map fst (tp_missing (record_rx_seq seq t)))"
    using m(1) note_missing_distinct by (simp add: record_rx_seq_def Let_def split: option.split)
  show "list_all (\<lambda>(s, c). c \<le> 4) (tp_missing (record_rx_seq seq t))"
    using m(2) note_missing_counts by (simp add: record_rx_seq_def Let_def split: option.split)
  show "tp_rx_next (record_rx_seq seq t) = tp_rx_next t" "tp_held (record_rx_seq seq t) = tp_held t"
      "tp_ordered (record_rx_seq seq t) = tp_ordered t" "tp_state (record_rx_seq seq t) = tp_state t"
      "tp_lost (record_rx_seq seq t) = tp_lost t" "tp_late (record_rx_seq seq t) = tp_late t"
      "tp_duplicate (record_rx_seq seq t) = tp_duplicate t"
    by (simp_all add: record_rx_seq_def Let_def split: option.split)
  show "\<exists>l. tp_rx_last (record_rx_seq seq t) = Some l \<and> map_of (tp_missing (record_rx_seq seq t)) l = None
      \<and> (l = seq \<or> 0x8000 \<le> ahead l seq)"
  proof (cases "tp_rx_last t")
    case None
    then show ?thesis using none by (simp add: record_rx_seq_def Let_def)
  next
    case (Some l)
    have old: "map_of ?m l = None"
      using assms Some by (auto simp: rx_inv_def map_of_eq_None_iff AList.delete_eq)
    let ?d = "ahead l seq"
    consider "?d = 0" | "?d \<noteq> 0" "?d \<le> 0x7FFF" "MAX_MISSING < ?d"
      | "?d \<noteq> 0" "?d \<le> 0x7FFF" "\<not> MAX_MISSING < ?d" | "0x7FFF < ?d" by linarith
    then show ?thesis
    proof cases
      case 1
      then show ?thesis using Some none by (simp add: record_rx_seq_def Let_def)
    next
      case 2
      then show ?thesis using Some by (simp add: record_rx_seq_def Let_def)
    next
      case 3
      have neq: "seq \<noteq> l + of_nat k" if "k < ?d" for k
        using that ahead_of_nat [of k l] 3 by auto
      have "seq \<notin> set (map (\<lambda>k. l + of_nat k) [1..<?d])"
      proof
        assume "seq \<in> set (map (\<lambda>k. l + of_nat k) [1..<?d])"
        then obtain k where "seq = l + of_nat k" "k < ?d"
          unfolding set_map set_upt image_iff Bex_def atLeastLessThan_iff by blast
        then show False using neq by blast
      qed
      then have "seq \<notin> set (map fst (foldl note_missing ?m (map (\<lambda>k. l + of_nat k) [1..<?d])))"
        using none [unfolded map_of_eq_None_iff] unfolding note_missing_keys Un_iff
        by (auto simp only: set_map)
      then show ?thesis using Some 3 by (simp add: record_rx_seq_def Let_def map_of_eq_None_iff)
    next
      case 4
      then show ?thesis using Some old by (auto simp: record_rx_seq_def Let_def)
    qed
  qed
qed

text \<open>A number behind the next one has the next one ahead of it.\<close>

lemma ahead_swap: "s \<noteq> n \<Longrightarrow> ahead n s + ahead s n = 65536"
proof -
  assume "s \<noteq> n"
  have "of_nat (ahead n s + ahead s n) = (0 :: seqno)"
    using of_nat_ahead [of n s] of_nat_ahead [of s n] by (simp add: ahead_def)
  then have "65536 dvd ahead n s + ahead s n"
    unfolding word_of_nat_eq_0_iff by simp
  moreover have "0 < ahead n s + ahead s n" using ahead_pos [OF \<open>s \<noteq> n\<close>] by simp
  moreover have "ahead n s + ahead s n < 2 * 65536" using ahead_less [of n s] ahead_less [of s n] by simp
  ultimately show ?thesis by (elim dvdE) simp
qed

text \<open>A numbered data packet on an ordered transport.\<close>

definition expected_number :: "transport \<Rightarrow> seqno \<Rightarrow> seqno" where
  "expected_number t s = (case tp_rx_next t of None \<Rightarrow> s | Some n \<Rightarrow> n)"

definition accounted :: "transport \<Rightarrow> nat" where
  "accounted t = length (tp_held t) + tp_duplicate t + tp_late t"

lemma release_keeps_bound:
  assumes "held_ok hp_seq m h" and "map_of (ms :: (seqno \<times> nat) list) m \<noteq> None"
    and "map_of ms l = None" and "ahead m l \<le> REORDER_WINDOW"
    and "\<And>s q. (s, q) \<in> set h \<Longrightarrow> ahead m s \<le> REORDER_WINDOW \<or> s = seq"
    and "l = seq \<or> 0x8000 \<le> ahead l seq"
  shows "held_within REORDER_WINDOW m h"
proof -
  have "ahead m s \<le> REORDER_WINDOW" if s: "(s, q) \<in> set h" for s q
  proof (cases "s = seq")
    case False
    then show ?thesis using assms(5) [OF s] by blast
  next
    case True
    show ?thesis
    proof (cases "l = seq")
      case True
      then show ?thesis using assms(4) \<open>s = seq\<close> by simp
    next
      case False
      then have far: "0x8000 \<le> ahead l seq" using assms(6) by blast
      have "l \<noteq> m" using assms(2,3) by auto
      then have pos: "0 < ahead m l" by (rule ahead_pos)
      have near: "ahead m seq \<le> 0x8000" using s assms(1) \<open>s = seq\<close> by (auto simp: held_ok_def list_all_iff)
      show ?thesis
      proof (rule ccontr)
        assume "\<not> ?thesis"
        then have "ahead m l \<le> ahead m seq" using assms(4) \<open>s = seq\<close> by simp
        then have "ahead l seq = ahead m seq - ahead m l"
          using ahead_add [of "ahead m l" m seq] by (simp add: of_nat_ahead)
        then show False using far near pos by simp
      qed
    qed
  qed
  then show ?thesis by (auto simp: held_within_def list_all_iff)
qed

lemma handle_data_packet_spec:
  assumes inv: "rx_inv t" and data: "hp_ptype p = 0" and step: "handle_data_packet now p t = (r, t')"
    and n: "n = expected_number t (hp_seq p)"
  shows "\<exists>n' k. rx_inv t' \<and> forward hp_seq n r n' k \<and> tp_rx_next t' = Some n'
    \<and> length r + accounted t' = Suc (accounted t) \<and> tp_lost t' = tp_lost t + k
    \<and> mset r + mset (map snd (tp_held t')) \<subseteq># add_mset p (mset (map snd (tp_held t)))
    \<and> (tp_rx_next t = None \<longrightarrow> (\<exists>r'. r = p # r'))"
proof -
  let ?seq = "hp_seq p"
  let ?t1 = "record_rx_seq ?seq t"
  note rec = record_rx_seq_spec [OF inv, of ?seq]
  obtain l where l: "tp_rx_last ?t1 = Some l" "map_of (tp_missing ?t1) l = None"
      "l = ?seq \<or> 0x8000 \<le> ahead l ?seq"
    using rec(1) by blast
  have ord: "tp_ordered t" using inv by (simp add: rx_inv_def)
  have nxt: "(case tp_rx_next ?t1 of None \<Rightarrow> ?seq | Some n \<Rightarrow> n) = n"
    using rec(4) n by (simp add: expected_number_def)
  have held: "held_ok hp_seq n (tp_held t)" "held_within REORDER_WINDOW n (tp_held t)"
    using inv n by (auto simp: rx_inv_def expected_number_def held_within_def split: option.splits)
  obtain late where step1: "accept_in_order now p late ?t1 = (r, t')"
    using step data ord rec(6) by (simp add: handle_data_packet_def Let_def)
  note accept = step1 [unfolded accept_in_order_def Let_def nxt]
  show ?thesis
  proof (cases "0 < ahead ?seq n \<and> ahead ?seq n < 0x8000")
    case True
    then have "n \<noteq> ?seq" by auto
    then have some: "tp_rx_next t = Some n"
      using n by (auto simp: expected_number_def split: option.splits)
    have r: "r = []" and t': "t' = ?t1\<lparr>tp_late := tp_late ?t1 + 1\<rparr> \<or> t' = ?t1\<lparr>tp_duplicate := tp_duplicate ?t1 + 1\<rparr>"
      using accept True by (auto split: if_splits)
    have "rx_inv t'"
      using t' rec l inv held some ord by (auto simp: rx_inv_def)
    then show ?thesis
      using t' r rec some by (auto simp: accounted_def)
  next
    case notbehind: False
    show ?thesis
    proof (cases "map_of (tp_held ?t1) ?seq = None")
      case False
      then have some: "tp_rx_next t = Some n"
        using n rec(5) inv by (auto simp: expected_number_def rx_inv_def split: option.splits)
      have r: "r = []" and t': "t' = ?t1\<lparr>tp_duplicate := tp_duplicate ?t1 + 1\<rparr>"
        using accept notbehind False by auto
      have "rx_inv t'"
        using t' rec l inv held some ord by (auto simp: rx_inv_def)
      then show ?thesis
        using t' r rec some by (auto simp: accounted_def)
    next
      case True
      let ?h = "AList.update ?seq p (tp_held t)"
      obtain t2 where rel: "release_in_order now t2 = (r, t')" and t2: "tp_rx_next t2 = Some n"
          "tp_held t2 = ?h" "tp_missing t2 = tp_missing ?t1" "tp_rx_last t2 = tp_rx_last ?t1"
          "tp_ordered t2 = tp_ordered t" "tp_state t2 = tp_state t" "tp_lost t2 = tp_lost t"
          "tp_duplicate t2 = tp_duplicate t" "tp_late t2 = tp_late t"
        using accept notbehind True rec by auto
      have near: "ahead n ?seq \<le> 0x8000"
        using notbehind ahead_swap [of ?seq n] by (cases "?seq = n") auto
      have free: "map_of (tp_held t) ?seq = None" using True rec(5) by simp
      note h = held_ok_update [OF held(1) free near]
      have ok2: "held_ok hp_seq n (tp_held t2)" using h(1) t2(2) by simp
      have upd: "?h = tp_held t @ [(?seq, p)]" using h(3) by simp
      show ?thesis
      proof (rule release_in_order_spec [OF t2(1) ok2 rel])
        fix n' k
        assume spec: "forward hp_seq n r n' k" "tp_rx_next t' = Some n'" "held_ok hp_seq n' (tp_held t')"
          "mset r + mset (map snd (tp_held t')) = mset (map snd (tp_held t2))" "tp_lost t' = tp_lost t2 + k"
          "set (tp_missing t') \<subseteq> set (tp_missing t2)"
          "distinct (map fst (tp_missing t2)) \<Longrightarrow> distinct (map fst (tp_missing t'))"
          "set (tp_held t') \<subseteq> set (tp_held t2)" "map_of (tp_held t') n' = None"
          "tp_held t' = [] \<or> map_of (tp_missing t') n' \<noteq> None \<and> ahead n' (newest_of (tp_rx_last t2) n') \<le> REORDER_WINDOW"
          and closer: "\<And>s q. (s, q) \<in> set (tp_held t') \<Longrightarrow> ahead n' s \<le> ahead n s"
          and head: "\<And>p. map_of (tp_held t2) n = Some p \<Longrightarrow> \<exists>r'. r = p # r'"
          and same: "tp_ordered t' = tp_ordered t2" "tp_rx_last t' = tp_rx_last t2"
            "tp_duplicate t' = tp_duplicate t2" "tp_late t' = tp_late t2"
        have last: "tp_rx_last t' = Some l" using same(2) t2(4) l(1) by simp
        have free_last: "map_of (tp_missing t') l = None"
          using spec(6) t2(3) l(2) by (auto simp: map_of_eq_None_iff)
        have "held_within REORDER_WINDOW n' (tp_held t')"
        proof (cases "tp_held t' = []")
          case True
          then show ?thesis by (simp add: held_within_def)
        next
          case False
          then have gap: "map_of (tp_missing t') n' \<noteq> None" "ahead n' l \<le> REORDER_WINDOW"
            using spec(10) t2(4) l(1) by (auto simp: newest_of_def)
          show ?thesis
          proof (rule release_keeps_bound [OF spec(3) gap(1) free_last gap(2) _ l(3)])
            fix s q assume s: "(s, q) \<in> set (tp_held t')"
            have "(s, q) \<in> set (tp_held t @ [(?seq, p)])"
              by (rule subsetD [OF spec(8) [unfolded t2(2) upd] s])
            then have "s = ?seq \<or> (s, q) \<in> set (tp_held t)" by auto
            moreover have "ahead n' s \<le> ahead n s" by (rule closer [OF s])
            moreover have "ahead n s \<le> REORDER_WINDOW" if "(s, q) \<in> set (tp_held t)"
              using that held(2) by (auto simp: held_within_def list_all_iff)
            ultimately show "ahead n' s \<le> REORDER_WINDOW \<or> s = ?seq" using order_trans by blast
          qed
        qed
        moreover have "list_all (\<lambda>(s, c). c \<le> 4) (tp_missing t')"
          using rec(3) spec(6) t2(3) by (auto simp: list_all_iff)
        moreover have "distinct (map fst (tp_missing t'))" using rec(2) spec(7) t2(3) by simp
        ultimately have "rx_inv t'"
          using last free_last spec(2,3,9) same(1) t2(5) ord by (simp add: rx_inv_def)
        moreover have all: "mset r + mset (map snd (tp_held t')) = add_mset p (mset (map snd (tp_held t)))"
          using spec(4) unfolding t2(2) upd by simp
        then have "length r + length (tp_held t') = Suc (length (tp_held t))"
          by (metis length_map size_add_mset size_mset size_union)
        then have "length r + accounted t' = Suc (accounted t)" using same(3,4) t2 by (simp add: accounted_def)
        moreover have "\<exists>r'. r = p # r'" if none: "tp_rx_next t = None"
        proof (rule head)
          have "tp_held t = []" "n = ?seq" using none inv n by (simp_all add: rx_inv_def expected_number_def)
          then show "map_of (tp_held t2) n = Some p" unfolding t2(2) upd by simp
        qed
        ultimately show ?thesis using spec(1,2,5) t2(7) all by auto
      qed
    qed
  qed
qed

section \<open>Runs\<close>

datatype tp_event =
    Datagram "nat \<Rightarrow> bool option" time "byte list"
  | RetransmitPass time
  | IdlePass time
  | SendTracked "nat \<Rightarrow> bool option" time "byte list" "nat option"
  | PingPass nat

fun tp_step :: "transport \<Rightarrow> tp_event \<Rightarrow> held_packet list \<times> transport" where
  "tp_step t (Datagram current now d) = handle_packet current now d t"
| "tp_step t (RetransmitPass now) = retransmit_tick now t"
| "tp_step t (IdlePass now) = ([], idle_tick now t)"
| "tp_step t (SendTracked current now d guard) = ([], snd (send_tracked current now d guard t))"
| "tp_step t (PingPass now_ms) = ([], send_ping now_ms t)"

text \<open>The datagrams that ordered delivery is about: data packets with a header.\<close>

definition numbered_datagram :: "byte list \<Rightarrow> bool" where
  "numbered_datagram d \<longleftrightarrow> HEADER_SIZE \<le> length d \<and> get_le16 d 4 = 0"

fun numbered_event :: "tp_event \<Rightarrow> bool" where
  "numbered_event (Datagram current now d) \<longleftrightarrow> numbered_datagram d"
| "numbered_event _ \<longleftrightarrow> False"

definition packet_of :: "byte list \<Rightarrow> held_packet" where
  "packet_of d = \<lparr>hp_data = d, hp_ptype = get_le16 d 4, hp_seq = get_le16 d 6, hp_sender = get_le32 d 8\<rparr>"

fun arrived :: "tp_event \<Rightarrow> held_packet list" where
  "arrived (Datagram current now d) = (if numbered_datagram d then [packet_of d] else [])"
| "arrived _ = []"

lemma length_arrived: "length (concat (map arrived es)) = length (filter numbered_event es)"
proof (induction es)
  case (Cons e es)
  then show ?case by (cases e) simp_all
qed simp

text \<open>
  \<open>progress t r t' a\<close>: a step from \<open>t\<close> to \<open>t'\<close> in which the numbered packets \<open>a\<close> arrived routed \<open>r\<close>.
\<close>

definition progress :: "transport \<Rightarrow> held_packet list \<Rightarrow> transport \<Rightarrow> held_packet list \<Rightarrow> bool" where
  "progress t r t' a \<longleftrightarrow> rx_inv t' \<and>
     (tp_rx_next t = None \<and> r = [] \<and> tp_rx_next t' = None \<and> tp_lost t' = tp_lost t
      \<or> (\<exists>n n' k. (tp_rx_next t = Some n \<or> tp_rx_next t = None \<and> (\<exists>p r'. r = p # r' \<and> hp_seq p = n)) \<and>
           forward hp_seq n r n' k \<and> tp_rx_next t' = Some n' \<and> tp_lost t' = tp_lost t + k)) \<and>
     length r + accounted t' = length a + accounted t \<and>
     mset r + mset (map snd (tp_held t')) \<subseteq># mset a + mset (map snd (tp_held t))"

lemma progress_view:
  assumes "rx_inv t" and "rx_view t' = rx_view t"
  shows "progress t [] t' []"
  using assms rx_inv_view [OF assms(2)] rx_viewD [OF assms(2)]
  by (cases "tp_rx_next t") (auto simp: progress_def accounted_def)

lemma progress_cong:
  assumes "rx_view u = rx_view t"
  shows "progress u r t' a \<longleftrightarrow> progress t r t' a"
  unfolding progress_def accounted_def rx_viewD [OF assms] ..

lemma progress_data:
  assumes "rx_inv t" and "hp_ptype p = 0" and "handle_data_packet now p t = (r, t')"
  shows "progress t r t' [p]"
proof (cases "tp_rx_next t")
  case None
  then have "expected_number t (hp_seq p) = hp_seq p" by (simp add: expected_number_def)
  then show ?thesis
    using handle_data_packet_spec [OF assms refl] None unfolding progress_def by auto
next
  case (Some n)
  then have "expected_number t (hp_seq p) = n" by (simp add: expected_number_def)
  then show ?thesis
    using handle_data_packet_spec [OF assms refl] Some unfolding progress_def by auto
qed

lemma progress_unnumbered:
  assumes "rx_inv t" and "hp_ptype p \<noteq> 0" and "handle_data_packet now p t = (r, t')"
  shows "progress t r t' []"
  using assms progress_view [OF assms(1), of t'] by (auto simp: handle_data_packet_def)

lemma progress_datagram:
  assumes "rx_inv t" and "handle_packet current now d t = (r, t')"
  shows "progress t r t' (if numbered_datagram d then [packet_of d] else [])"
proof (cases "length d < HEADER_SIZE")
  case True
  then show ?thesis using assms progress_view [OF assms(1)] by (auto simp: handle_packet_def numbered_datagram_def)
next
  case False
  let ?u = "t\<lparr>tp_rx_count := tp_rx_count t + 1\<rparr>"
  let ?p = "packet_of d"
  have view: "rx_view ?u = rx_view t" by (simp add: rx_view_def)
  then have u: "rx_inv ?u" using rx_inv_view assms(1) by blast
  consider (re) "get_le16 d 4 = 1" | (ping) "get_le16 d 4 = PACKET_PING" "get_le16 d 4 \<noteq> 1"
    | (data) "get_le16 d 4 \<noteq> 1" "get_le16 d 4 \<noteq> PACKET_PING" by blast
  then show ?thesis
  proof cases
    case re
    then have "r = []" "rx_view t' = rx_view t"
      using assms(2) False view by (auto simp: handle_packet_def Let_def)
    then show ?thesis using progress_view [OF assms(1)] re by (simp add: numbered_datagram_def)
  next
    case ping
    then have "\<not> numbered_datagram d" by (simp add: numbered_datagram_def PACKET_PING_def)
    moreover have "progress ?u r t' []"
    proof (cases "handle_ping_packet d (get_le16 d 6) ?u")
      case (Pair b u1)
      have v1: "rx_view u1 = rx_view ?u" by (rule rx_view_handle_ping [OF Pair])
      show ?thesis
      proof (cases b)
        case True
        then have "r = []" "t' = u1"
          using assms(2) False ping Pair by (auto simp: handle_packet_def Let_def)
        then show ?thesis using progress_view [OF u v1] by simp
      next
        case no: False
        then have "handle_data_packet now ?p u1 = (r, t')"
          using assms(2) False ping Pair by (simp add: handle_packet_def packet_of_def Let_def)
        moreover have "rx_inv u1" using rx_inv_view [OF v1] u by simp
        ultimately have "progress u1 r t' []"
          using progress_unnumbered [of u1 ?p] ping by (simp add: packet_of_def PACKET_PING_def)
        then show ?thesis using progress_cong [OF v1] by simp
      qed
    qed
    ultimately show ?thesis using progress_cong [OF view] by simp
  next
    case data
    have step: "handle_data_packet now ?p ?u = (r, t')"
      using assms(2) False data by (simp add: handle_packet_def packet_of_def Let_def)
    have "progress ?u r t' (if numbered_datagram d then [packet_of d] else [])"
    proof (cases "get_le16 d 4 = 0")
      case True
      then show ?thesis using progress_data [OF u _ step] False by (simp add: numbered_datagram_def packet_of_def)
    next
      case no: False
      then show ?thesis using progress_unnumbered [OF u _ step] by (simp add: numbered_datagram_def packet_of_def)
    qed
    then show ?thesis using progress_cong [OF view] by simp
  qed
qed

text \<open>A pass of the retransmit loop.\<close>

definition spent_tries :: "(seqno \<times> nat) list \<Rightarrow> (seqno \<times> nat) list" where
  "spent_tries m = map (\<lambda>(s, c). (s, c + 1)) (filter (\<lambda>(s, c). \<not> 4 \<le> c) m)"

lemma spent_tries_facts:
  "fst ` set (spent_tries m) \<subseteq> fst ` set m"
  "distinct (map fst m) \<Longrightarrow> distinct (map fst (spent_tries m))"
  "list_all (\<lambda>(s, c). c \<le> 4) (spent_tries m)"
proof -
  show "fst ` set (spent_tries m) \<subseteq> fst ` set m" by (force simp: spent_tries_def)
  have "map fst (spent_tries m) = map fst (filter (\<lambda>(s, c). \<not> 4 \<le> c) m)"
    by (simp add: spent_tries_def split_beta comp_def)
  then show "distinct (map fst m) \<Longrightarrow> distinct (map fst (spent_tries m))"
    by (simp add: distinct_map_filter)
  show "list_all (\<lambda>(s, c). c \<le> 4) (spent_tries m)" by (auto simp: spent_tries_def list_all_iff)
qed

lemma retransmit_tick_cases:
  assumes "rx_inv t" and "retransmit_tick now t = (r, t')"
  obtains (off) "tp_state t = CS_DISCONNECTED" "r = []" "t' = t"
    | (quiet) u where "tp_state t \<noteq> CS_DISCONNECTED" "r = []" "t' = u" "rx_inv u"
      "tp_missing u = spent_tries (tp_missing t)" "tp_held u = tp_held t" "tp_rx_next u = tp_rx_next t"
      "tp_state u = tp_state t" "accounted u = accounted t" "tp_lost u = tp_lost t"
      "tp_duplicate u = tp_duplicate t" "tp_late u = tp_late t"
      "filter (\<lambda>(s, c). 4 \<le> c) (tp_missing t) = [] \<or> tp_held t = []"
    | (release) u n where "tp_state t \<noteq> CS_DISCONNECTED" "rx_inv u" "tp_rx_next t = Some n"
      "tp_missing u = spent_tries (tp_missing t)" "tp_held u = tp_held t" "tp_rx_next u = Some n"
      "tp_state u = tp_state t" "accounted u = accounted t" "tp_lost u = tp_lost t"
      "tp_duplicate u = tp_duplicate t" "tp_late u = tp_late t"
      "tp_rx_last u = tp_rx_last t" "release_in_order now u = (r, t')"
proof (cases "tp_state t = CS_DISCONNECTED")
  case True
  then show thesis using off assms(2) by (simp add: retransmit_tick_def)
next
  case False
  let ?s = "foldl (\<lambda>t d. raw_send d t) t (build_retransmit_requests t)"
  let ?u = "?s\<lparr>tp_missing := spent_tries (tp_missing t)\<rparr>"
  have view: "rx_view ?s = rx_view t" by simp
  note f = rx_viewD [OF view]
  have inv: "rx_inv ?u"
    using assms(1) f spent_tries_facts [of "tp_missing t"]
    by (auto simp: rx_inv_def map_of_eq_None_iff spent_tries_def split: option.splits)
  have u: "tp_missing ?u = spent_tries (tp_missing t)" "tp_held ?u = tp_held t" "tp_rx_next ?u = tp_rx_next t"
      "tp_state ?u = tp_state t" "accounted ?u = accounted t" "tp_lost ?u = tp_lost t" "tp_rx_last ?u = tp_rx_last t"
      "tp_duplicate ?u = tp_duplicate t" "tp_late ?u = tp_late t"
    using f by (simp_all add: accounted_def)
  have "(if filter (\<lambda>(s, c). 4 \<le> c) (tp_missing ?s) \<noteq> [] \<and> tp_held ?s \<noteq> []
      then release_in_order now (?s\<lparr>tp_missing := spent_tries (tp_missing ?s)\<rparr>)
      else ([], ?s\<lparr>tp_missing := spent_tries (tp_missing ?s)\<rparr>)) = (r, t')"
    using assms(2) False by (simp add: retransmit_tick_def Let_def spent_tries_def split del: if_split cong: if_cong)
  then have step: "(if filter (\<lambda>(s, c). 4 \<le> c) (tp_missing t) \<noteq> [] \<and> tp_held t \<noteq> []
      then release_in_order now ?u else ([], ?u)) = (r, t')"
    by (simp only: f(4) f(6))
  show thesis
  proof (cases "filter (\<lambda>(s, c). 4 \<le> c) (tp_missing t) \<noteq> [] \<and> tp_held t \<noteq> []")
    case True
    then obtain n where "tp_rx_next t = Some n"
      using assms(1) by (auto simp: rx_inv_def split: option.splits)
    then show thesis using release [of ?u n] step True False inv u by simp
  next
    case idle: False
    then show thesis using quiet [of ?u] step False inv u by auto
  qed
qed

lemma progress_release:
  assumes inv: "rx_inv u" and n: "tp_rx_next u = Some n" and rel: "release_in_order now u = (r, t')"
  shows "progress u r t' []" and "tp_state t' = tp_state u"
    and "\<exists>n'. tp_rx_next t' = Some n' \<and> (tp_held t' = [] \<or> map_of (tp_missing t') n' \<noteq> None)"
    and "set (tp_missing t') \<subseteq> set (tp_missing u)"
    and "length r + length (tp_held t') = length (tp_held u)"
proof -
  have held: "held_ok hp_seq n (tp_held u)" "held_within REORDER_WINDOW n (tp_held u)"
    using inv n by (auto simp: rx_inv_def)
  obtain n' k where spec: "forward hp_seq n r n' k" "tp_rx_next t' = Some n'" "held_ok hp_seq n' (tp_held t')"
      "mset r + mset (map snd (tp_held t')) = mset (map snd (tp_held u))" "tp_lost t' = tp_lost u + k"
      "set (tp_missing t') \<subseteq> set (tp_missing u)"
      "distinct (map fst (tp_missing u)) \<Longrightarrow> distinct (map fst (tp_missing t'))"
      "set (tp_held t') \<subseteq> set (tp_held u)" "map_of (tp_held t') n' = None"
      "tp_held t' = [] \<or> map_of (tp_missing t') n' \<noteq> None"
    and closer: "\<And>s q. (s, q) \<in> set (tp_held t') \<Longrightarrow> ahead n' s \<le> ahead n s"
    and same: "tp_ordered t' = tp_ordered u" "tp_state t' = tp_state u" "tp_rx_last t' = tp_rx_last u"
      "tp_duplicate t' = tp_duplicate u" "tp_late t' = tp_late u"
    by (rule release_in_order_spec [OF n held(1) rel]) blast
  obtain l where l: "tp_rx_last u = Some l" "map_of (tp_missing u) l = None"
    using inv n by (auto simp: rx_inv_def split: option.splits)
  have free: "map_of (tp_missing t') l = None" using spec(6) l(2) by (auto simp: map_of_eq_None_iff)
  have "held_within REORDER_WINDOW n' (tp_held t')"
    unfolding held_within_def list_all_iff
  proof (clarify)
    fix s q assume s: "(s, q) \<in> set (tp_held t')"
    have "(s, q) \<in> set (tp_held u)" by (rule subsetD [OF spec(8) s])
    then have "ahead n s \<le> REORDER_WINDOW" using held(2) by (auto simp: held_within_def list_all_iff)
    then show "ahead n' s \<le> REORDER_WINDOW" using closer [OF s] by simp
  qed
  moreover have "list_all (\<lambda>(s, c). c \<le> 4) (tp_missing t')"
    using inv spec(6) by (auto simp: rx_inv_def list_all_iff)
  moreover have "distinct (map fst (tp_missing t'))" using inv spec(7) by (simp add: rx_inv_def)
  ultimately have rx: "rx_inv t'"
    using l(1) free spec(2,3,9) same inv by (simp add: rx_inv_def)
  show len: "length r + length (tp_held t') = length (tp_held u)"
    using spec(4) by (metis length_map size_mset size_union)
  show "progress u r t' []"
    using rx spec(1,2,4,5) same len n by (auto simp: progress_def accounted_def)
  show "tp_state t' = tp_state u" by (rule same)
  show "\<exists>n'. tp_rx_next t' = Some n' \<and> (tp_held t' = [] \<or> map_of (tp_missing t') n' \<noteq> None)" using spec(2,10) by blast
  show "set (tp_missing t') \<subseteq> set (tp_missing u)" by (rule spec(6))
qed

lemma progress_tick:
  assumes "rx_inv t" and "retransmit_tick now t = (r, t')"
  shows "progress t r t' []"
proof (rule retransmit_tick_cases [OF assms])
  assume "r = []" "t' = t"
  then show ?thesis using progress_view [OF assms(1)] by simp
next
  fix u assume "r = []" "t' = u" "rx_inv u" "tp_rx_next u = tp_rx_next t" "accounted u = accounted t"
    "tp_lost u = tp_lost t" "tp_held u = tp_held t"
  then show ?thesis by (cases "tp_rx_next t") (auto simp: progress_def)
next
  fix u n assume u: "rx_inv u" "tp_rx_next t = Some n" "tp_rx_next u = Some n" "accounted u = accounted t"
    "tp_lost u = tp_lost t" "release_in_order now u = (r, t')" "tp_held u = tp_held t"
  show ?thesis
    using progress_release(1) [OF u(1,3,6)] u(2,3,4,5,7) by (simp add: progress_def)
qed

lemma tp_step_progress:
  assumes "rx_inv t" and "tp_step t e = (r, t')"
  shows "progress t r t' (arrived e)"
proof (cases e)
  case (Datagram current now d)
  then show ?thesis using progress_datagram [OF assms(1), of current now d] assms(2) by simp
next
  case (RetransmitPass now)
  then show ?thesis using progress_tick [OF assms(1)] assms(2) by simp
next
  case (IdlePass now)
  have "rx_view (idle_tick now t) = rx_view t" by (simp add: idle_tick_def)
  then show ?thesis using progress_view [OF assms(1)] assms(2) IdlePass by auto
next
  case (SendTracked current now d guard)
  then show ?thesis using progress_view [OF assms(1)] assms(2) by auto
next
  case (PingPass now_ms)
  have "rx_view (send_ping now_ms t) = rx_view t"
    by (simp add: send_ping_def raw_send_def rx_view_def)
  then show ?thesis using progress_view [OF assms(1)] assms(2) PingPass by auto
qed

text \<open>A session begins with \<open>connect\<close>, whatever the instance was used for before.\<close>

lemma connect_reset_inv: "tp_ordered t0 \<Longrightarrow> rx_inv (connect_reset t0)"
  by (simp add: connect_reset_def rx_inv_def)

lemma mset_through:
  assumes "R + H1 \<subseteq># A + H" "Q + H' \<subseteq># B + H1" shows "(R + Q) + H' \<subseteq># (A + B) + H"
proof -
  have "R + (Q + H') \<subseteq># R + (B + H1)" using assms(2) by simp
  also have "R + (B + H1) = B + (R + H1)" by (simp add: ac_simps)
  also have "\<dots> \<subseteq># B + (A + H)" using assms(1) by simp
  finally show ?thesis by (simp add: ac_simps)
qed

lemma feed_progress:
  "rx_inv t \<Longrightarrow> feed tp_step t es = (out, t') \<Longrightarrow> progress t out t' (concat (map arrived es))"
proof (induction es arbitrary: t out)
  case Nil
  then show ?case using progress_view by simp
next
  case (Cons e es)
  obtain r t1 where step: "tp_step t e = (r, t1)" by (cases "tp_step t e")
  obtain q where rest: "feed tp_step t1 es = (q, t')" "out = r @ q"
    using Cons.prems(2) step by (cases "feed tp_step t1 es") (simp del: tp_step.simps)
  note p = tp_step_progress [OF Cons.prems(1) step]
  have inv: "rx_inv t1" using p by (simp add: progress_def)
  note ih = Cons.IH [OF inv rest(1)]
  have "mset (r @ q) + mset (map snd (tp_held t')) \<subseteq># mset (arrived e @ concat (map arrived es)) + mset (map snd (tp_held t))"
    using mset_through [of "mset r" "mset (map snd (tp_held t1))"] ih p by (simp add: progress_def)
  moreover have "length (r @ q) + accounted t' = length (arrived e @ concat (map arrived es)) + accounted t"
    using ih p by (simp add: progress_def)
  moreover have "tp_rx_next t = None \<and> r @ q = [] \<and> tp_rx_next t' = None \<and> tp_lost t' = tp_lost t
      \<or> (\<exists>n n' k. (tp_rx_next t = Some n \<or> tp_rx_next t = None \<and> (\<exists>p r'. r @ q = p # r' \<and> hp_seq p = n)) \<and>
           forward hp_seq n (r @ q) n' k \<and> tp_rx_next t' = Some n' \<and> tp_lost t' = tp_lost t + k)"
  proof (cases "tp_rx_next t1")
    case None
    then have "r = []" "tp_rx_next t = None" "tp_lost t1 = tp_lost t" using p by (auto simp: progress_def)
    then show ?thesis using ih None unfolding progress_def by auto
  next
    case (Some m)
    then obtain n k where n: "tp_rx_next t = Some n \<or> tp_rx_next t = None \<and> (\<exists>p r'. r = p # r' \<and> hp_seq p = n)"
        "forward hp_seq n r m k" "tp_lost t1 = tp_lost t + k"
      using p by (auto simp: progress_def)
    obtain m' k' where "forward hp_seq m q m' k'" "tp_rx_next t' = Some m'" "tp_lost t' = tp_lost t1 + k'"
      using ih Some by (auto simp: progress_def)
    then show ?thesis using n forward_append [OF n(2)] by (intro disjI2 exI [of _ n] exI [of _ m'] exI [of _ "k + k'"]) auto
  qed
  ultimately show ?case using ih unfolding progress_def rest(2) by simp
qed

section \<open>What ordered delivery promises\<close>

text \<open>
  C14. Whatever order the network delivers, duplicates or drops datagrams in, and however sends,
  pings and loop passes come between, the CI-V transport hands packets on in the radio's order: the
  number of each lies ahead of the one before it, by at most half the number space and one, the numbers
  between them are exactly the lost ones it counts, and only packets that arrived are handed on, each at
  most as often as it arrived.\<close>

theorem civ_delivery_in_order:
  assumes "feed tp_step (connect_reset t0) es = (out, t)" and "tp_ordered t0"
  shows "(\<forall>i. Suc i < length out \<longrightarrow>
      0 < ahead (hp_seq (out ! i)) (hp_seq (out ! Suc i)) \<and> ahead (hp_seq (out ! i)) (hp_seq (out ! Suc i)) \<le> 0x8001)
    \<and> tp_lost t = tp_lost t0 + (\<Sum>i < length out - 1. ahead (hp_seq (out ! i)) (hp_seq (out ! Suc i)) - 1)
    \<and> mset out \<subseteq># mset (concat (map arrived es))"
proof -
  have p: "progress (connect_reset t0) out t (concat (map arrived es))"
    by (rule feed_progress [OF connect_reset_inv [OF assms(2)] assms(1)])
  have "out = [] \<and> tp_lost t = tp_lost t0 \<or> (\<exists>p r' n' k. out = p # r' \<and> forward hp_seq (hp_seq p) out n' k \<and> tp_lost t = tp_lost t0 + k)"
    using p by (auto simp: progress_def connect_reset_def)
  moreover have "mset out \<subseteq># mset (concat (map arrived es))"
    using p by (auto simp: progress_def connect_reset_def intro: subset_mset.order_trans [OF mset_subset_eq_add_left])
  ultimately show ?thesis using forward_steps [of hp_seq _ out] unfolding step_ahead_def by fastforce
qed

text \<open>
  No numbered packet of a session disappears: each one is delivered, still held, or counted as a duplicate
  or as late.\<close>

theorem civ_packets_accounted:
  assumes "feed tp_step (connect_reset t0) es = (out, t)" and "tp_ordered t0"
  shows "length out + length (tp_held t) + tp_duplicate t + tp_late t
      = length (filter numbered_event es) + tp_duplicate t0 + tp_late t0"
  using feed_progress [OF connect_reset_inv [OF assms(2)] assms(1)]
  by (simp add: progress_def accounted_def connect_reset_def length_arrived)

lemma card_held:
  assumes "held_ok num n held" and "held_within w n held" and "map_of held n = None"
  shows "length held \<le> w"
proof -
  have "set (map fst held) \<subseteq> (\<lambda>k. n + of_nat k) ` {1..w}"
  proof
    fix s assume "s \<in> set (map fst held)"
    then obtain q where s: "(s, q) \<in> set held" by auto
    then have "s \<noteq> n" using assms(3) by (auto simp: map_of_eq_None_iff intro: rev_image_eqI)
    then have "ahead n s \<in> {1..w}"
      using ahead_pos [of s n] s assms(2) by (auto simp: held_within_def list_all_iff)
    then show "s \<in> (\<lambda>k. n + of_nat k) ` {1..w}" using of_nat_ahead [of n s] by (metis imageI)
  qed
  then have "card (set (map fst held)) \<le> card ((\<lambda>k. n + of_nat k) ` {1..w})"
    by (intro card_mono) auto
  also have "\<dots> \<le> w" using card_image_le [of "{1..w}" "\<lambda>k. n + of_nat k"] by simp
  finally show ?thesis using assms(1) distinct_card [of "map fst held"] by (simp add: held_ok_def)
qed

text \<open>
  What is held back is bounded by the reorder window: at most 256 packets, none further than
  256 numbers ahead of the next one to deliver.\<close>

theorem civ_hold_is_bounded:
  assumes "feed tp_step (connect_reset t0) es = (out, t)" and "tp_ordered t0" and "tp_rx_next t = Some n"
  shows "length (tp_held t) \<le> 256 \<and> list_all (\<lambda>(s, p). ahead n s \<le> 256) (tp_held t)"
proof -
  have "rx_inv t" using feed_progress [OF connect_reset_inv [OF assms(2)] assms(1)] by (simp add: progress_def)
  then show ?thesis
    using card_held [of hp_seq n "tp_held t" 256] assms(3)
    by (simp add: rx_inv_def REORDER_WINDOW_def held_within_def)
qed

text \<open>The hold waits for a number the retransmit loop still asks for.\<close>

definition waiting_for_retransmit :: "transport \<Rightarrow> bool" where
  "waiting_for_retransmit t \<longleftrightarrow> tp_held t = []
     \<or> (case tp_rx_next t of None \<Rightarrow> False | Some n \<Rightarrow> map_of (tp_missing t) n \<noteq> None)"

lemma spent_tries_min:
  "list_all (\<lambda>(s, c). k \<le> c) m \<Longrightarrow> list_all (\<lambda>(s, c). Suc k \<le> c) (spent_tries m)"
  by (auto simp: spent_tries_def list_all_iff)

lemma spent_tries_keep:
  assumes "filter (\<lambda>(s, c). 4 \<le> c) m = []" and "map_of m n \<noteq> None"
  shows "map_of (spent_tries m) n \<noteq> None"
proof -
  have "filter (\<lambda>(s, c). \<not> 4 \<le> c) m = m"
    using assms(1) by (auto simp: filter_empty_conv filter_id_conv)
  then have "map fst (spent_tries m) = map fst m" by (simp add: spent_tries_def split_beta)
  then have "fst ` set (spent_tries m) = fst ` set m" by (metis set_map)
  then show ?thesis using assms(2) by (simp add: map_of_eq_None_iff)
qed

lemma tick_waiting:
  assumes "rx_inv t" and "waiting_for_retransmit t" and "tp_state t \<noteq> CS_DISCONNECTED"
    and "list_all (\<lambda>(s, c). k \<le> c) (tp_missing t)" and "tp_step t (RetransmitPass now) = (r, t')"
  shows "rx_inv t' \<and> waiting_for_retransmit t' \<and> tp_state t' \<noteq> CS_DISCONNECTED
    \<and> list_all (\<lambda>(s, c). Suc k \<le> c) (tp_missing t')
    \<and> length r + length (tp_held t') = length (tp_held t)"
proof -
  have tick: "retransmit_tick now t = (r, t')" using assms(5) by simp
  show ?thesis
  proof (rule retransmit_tick_cases [OF assms(1) tick])
    assume "tp_state t = CS_DISCONNECTED"
    then show ?thesis using assms(3) by simp
  next
    fix u assume u: "t' = u" "rx_inv u" "r = []" "tp_missing u = spent_tries (tp_missing t)" "tp_held u = tp_held t"
      "tp_rx_next u = tp_rx_next t" "tp_state u = tp_state t"
      "filter (\<lambda>(s, c). 4 \<le> c) (tp_missing t) = [] \<or> tp_held t = []"
    have "waiting_for_retransmit u"
      using assms(2) u(4,5,6,8) spent_tries_keep [of "tp_missing t"]
      by (auto simp: waiting_for_retransmit_def split: option.splits)
    then show ?thesis using u spent_tries_min [OF assms(4)] assms(3) by simp
  next
    fix u n assume u: "rx_inv u" "tp_missing u = spent_tries (tp_missing t)" "tp_rx_next u = Some n"
      "tp_state u = tp_state t" "release_in_order now u = (r, t')" "tp_held u = tp_held t"
    note rel = progress_release [OF u(1,3,5)]
    have "rx_inv t'" using rel(1) by (simp add: progress_def)
    moreover have "waiting_for_retransmit t'" using rel(3) by (auto simp: waiting_for_retransmit_def)
    moreover have "list_all (\<lambda>(s, c). Suc k \<le> c) (tp_missing t')"
      using spent_tries_min [OF assms(4)] rel(4) u(2) by (auto simp: list_all_iff)
    ultimately show ?thesis using rel(2,5) u(4,6) assms(3) by simp
  qed
qed

lemma ticks_waiting:
  assumes "rx_inv t" and "waiting_for_retransmit t" and "tp_state t \<noteq> CS_DISCONNECTED"
    and "list_all (\<lambda>(s, c). k \<le> c) (tp_missing t)"
    and "feed tp_step t (map RetransmitPass nows) = (out, t')"
  shows "rx_inv t' \<and> waiting_for_retransmit t'
    \<and> list_all (\<lambda>(s, c). k + length nows \<le> c) (tp_missing t')
    \<and> length out + length (tp_held t') = length (tp_held t)"
  using assms
proof (induction nows arbitrary: t k out)
  case Nil
  then show ?case by simp
next
  case (Cons now nows)
  obtain r t1 where step: "tp_step t (RetransmitPass now) = (r, t1)" by (cases "tp_step t (RetransmitPass now)")
  obtain out1 where rest: "feed tp_step t1 (map RetransmitPass nows) = (out1, t')" "out = r @ out1"
    using Cons.prems(5) step
    by (cases "feed tp_step t1 (map RetransmitPass nows)") (simp del: tp_step.simps)
  note tick = tick_waiting [OF Cons.prems(1-4) step]
  have "rx_inv t' \<and> waiting_for_retransmit t'
      \<and> list_all (\<lambda>(s, c). Suc k + length nows \<le> c) (tp_missing t')
      \<and> length out1 + length (tp_held t') = length (tp_held t1)"
    by (rule Cons.IH) (use tick rest(1) in blast)+
  then show ?case using tick rest(2) by simp
qed

text \<open>
  C15. A lost packet holds the others back for a bounded time: while connected, five passes of the
  retransmit loop without an arrival deliver everything that waits for a retransmission.\<close>

theorem five_passes_release_the_hold:
  assumes "feed tp_step (connect_reset t0) es = (out, t)" and "tp_ordered t0" and "tp_state t \<noteq> CS_DISCONNECTED"
    and "waiting_for_retransmit t"
    and "feed tp_step t (map RetransmitPass [a, b, c, d, e]) = (out', t')"
  shows "tp_held t' = [] \<and> tp_missing t' = [] \<and> length out' = length (tp_held t)"
proof -
  have inv: "rx_inv t" using feed_progress [OF connect_reset_inv [OF assms(2)] assms(1)] by (simp add: progress_def)
  have "list_all (\<lambda>(s, c). 0 \<le> c) (tp_missing t)" by (simp add: list_all_iff)
  note last = ticks_waiting [OF inv assms(4,3) this assms(5)]
  have none: "tp_missing t' = []"
    using last by (cases "tp_missing t'") (auto simp: rx_inv_def)
  then have "tp_held t' = []"
    using last by (auto simp: waiting_for_retransmit_def split: option.splits)
  then show ?thesis using none last by simp
qed

section \<open>Sent packets and retransmit requests\<close>

definition tx_view where
  "tx_view (t :: transport) = (tp_tx_buffer t, tp_guards t, tp_send_seq t)"

lemma tx_viewD:
  "tx_view t' = tx_view t \<Longrightarrow>
    tp_tx_buffer t' = tp_tx_buffer t \<and> tp_guards t' = tp_guards t \<and> tp_send_seq t' = tp_send_seq t"
  by (simp add: tx_view_def)

lemma tx_view_simple [simp]:
  "tx_view (raw_send d t) = tx_view t" "tx_view (note_overflow now t) = tx_view t"
  "tx_view (add_call c t) = tx_view t" "tx_view (record_rx_seq s t) = tx_view t"
  "tx_view (t\<lparr>tp_queue := q\<rparr>) = tx_view t" "tx_view (t\<lparr>tp_scope_dropped := k\<rparr>) = tx_view t"
  "tx_view (t\<lparr>tp_remote_id := i\<rparr>) = tx_view t" "tx_view (t\<lparr>tp_rx_count := k\<rparr>) = tx_view t"
  "tx_view (t\<lparr>tp_late := k\<rparr>) = tx_view t" "tx_view (t\<lparr>tp_duplicate := k\<rparr>) = tx_view t"
  "tx_view (t\<lparr>tp_missing := m\<rparr>) = tx_view t" "tx_view (t\<lparr>tp_ping_seq := p\<rparr>) = tx_view t"
  by (simp_all add: tx_view_def raw_send_def note_overflow_def add_call_def record_rx_seq_def Let_def
      split: option.split)

lemma tx_view_route [simp]: "tx_view (route_data_packet now p t) = tx_view t"
  by (simp add: route_data_packet_def enqueue_packet_def Let_def split: sum.split prod.split)

lemma tx_view_routes [simp]:
  "tx_view (foldl (\<lambda>t p. route_data_packet now p t) t r) = tx_view t"
  by (induction r arbitrary: t) simp_all

lemma tx_view_release [simp]: "tx_view (snd (release_in_order now t)) = tx_view t"
proof -
  have "tx_view (t\<lparr>tp_held := h, tp_missing := m, tp_rx_next := n, tp_given_up := g, tp_lost := k\<rparr>) = tx_view t"
    for h m n g k by (simp add: tx_view_def)
  then show ?thesis
    by (simp add: release_in_order_def split: option.split prod.split)
qed

lemma tx_view_accept [simp]: "tx_view (snd (accept_in_order now p late t)) = tx_view t"
proof -
  have "tx_view (t\<lparr>tp_reordered := k, tp_held := h, tp_rx_next := n\<rparr>) = tx_view t" for k h n
    by (simp add: tx_view_def)
  then show ?thesis by (simp add: accept_in_order_def Let_def)
qed

lemma tx_view_data [simp]: "tx_view (snd (handle_data_packet now p t)) = tx_view t"
  by (simp add: handle_data_packet_def Let_def)

lemma tx_view_retransmits [simp]: "tx_view (foldl (\<lambda>t s. retransmit current s t) t ss) = tx_view t"
  by (induction ss arbitrary: t) (simp_all add: retransmit_def split: option.split)

lemma tx_view_handle [simp]: "tx_view (snd (handle_packet current now d t)) = tx_view t"
  by (simp add: handle_packet_def handle_retransmit_packet_def handle_ping_packet_def Let_def)

lemma tx_view_tick [simp]: "tx_view (snd (retransmit_tick now t)) = tx_view t"
proof -
  have "tx_view (foldl (\<lambda>t d. raw_send d t) t ds) = tx_view t" for ds
    by (induction ds arbitrary: t) simp_all
  then show ?thesis by (simp add: retransmit_tick_def Let_def)
qed

lemma tx_view_ping [simp]: "tx_view (send_ping now_ms t) = tx_view t"
  by (simp add: send_ping_def)

text \<open>The buffer of sent packets: one entry per number, at most \<open>BUFSIZE\<close>, each carrying its number.\<close>

definition tx_inv :: "transport \<Rightarrow> bool" where
  "tx_inv t \<longleftrightarrow> distinct (map fst (tp_tx_buffer t)) \<and> length (tp_tx_buffer t) \<le> BUFSIZE
     \<and> list_all (\<lambda>(s, d). 8 \<le> length d \<and> get_le16 d 6 = s) (tp_tx_buffer t)"

lemma tx_inv_view: "tx_view t' = tx_view t \<Longrightarrow> tx_inv t' \<longleftrightarrow> tx_inv t"
  by (simp add: tx_inv_def tx_view_def)

text \<open>The buffer after one tracked send: the number's old entry and the evicted one are gone.\<close>

lemma track_sent_buffer:
  "tp_tx_buffer (track_sent seq d guard t) =
     (let b = AList.delete seq (if seq = 0 then [] else tp_tx_buffer t) in
      (if BUFSIZE \<le> length b then tl b else b) @ [(seq, d)])"
proof -
  have upd: "AList.update seq d b = b @ [(seq, d)]" if "seq \<notin> fst ` set b" for b
    using that by (induction b) (auto simp: image_iff)
  let ?b = "AList.delete seq (if seq = 0 then [] else tp_tx_buffer t)"
  have free: "seq \<notin> fst ` set ?b" by (rule delete_notin_dom)
  have b: "tp_tx_buffer (track_sent seq d guard t) =
      AList.update seq d (case ?b of [] \<Rightarrow> [] | x # rest \<Rightarrow> if BUFSIZE \<le> length ?b then rest else ?b)"
    by (cases "seq = 0") (auto simp: track_sent_def Let_def split: list.split)
  show ?thesis
  proof (cases ?b)
    case Nil
    then show ?thesis unfolding b Let_def by (simp add: upd BUFSIZE_def)
  next
    case (Cons x rest)
    then have "seq \<notin> fst ` set rest" "seq \<notin> fst ` set (x # rest)" using free by auto
    then show ?thesis unfolding b Let_def Cons using upd [of rest] upd [of "x # rest"] by simp
  qed
qed

lemma get_with_seq: "8 \<le> length d \<Longrightarrow> get_le16 (with_seq d seq) 6 = seq \<and> length (with_seq d seq) = length d"
  using get_le16_append [of "take 6 d" 6 seq "drop 8 d"] by (simp add: with_seq_def)

lemma tx_inv_track:
  assumes "tx_inv t" and "8 \<le> length d" and "get_le16 d 6 = seq"
  shows "tx_inv (track_sent seq d guard t)"
proof -
  let ?b = "AList.delete seq (if seq = 0 then [] else tp_tx_buffer t)"
  let ?c = "if BUFSIZE \<le> length ?b then tl ?b else ?b"
  have len: "length ?b \<le> BUFSIZE"
    using order_trans [OF length_delete_le [of seq "tp_tx_buffer t"]] assms(1)
    by (simp add: tx_inv_def split: if_split)
  have b: "distinct (map fst ?b)" "list_all (\<lambda>(s, d). 8 \<le> length d \<and> get_le16 d 6 = s) ?b" "seq \<notin> fst ` set ?b"
    using assms(1) distinct_delete [of "tp_tx_buffer t" seq]
      delete_notin_dom [of seq "tp_tx_buffer t"]
    by (auto simp: tx_inv_def list_all_iff AList.delete_eq)
  have "set (tl xs) \<subseteq> set xs" for xs :: "(seqno \<times> byte list) list" by (cases xs) auto
  then have c: "set ?c \<subseteq> set ?b" by (simp split: if_split)
  have "distinct (map fst ?c)" using b(1) by (simp add: map_tl distinct_tl)
  moreover have "seq \<notin> fst ` set ?c" using b(3) c by blast
  moreover have "list_all (\<lambda>(s, d). 8 \<le> length d \<and> get_le16 d 6 = s) ?c"
    using b(2) c by (auto simp: list_all_iff)
  moreover have "Suc (length ?c) \<le> BUFSIZE"
    using len by (auto simp: BUFSIZE_def)
  ultimately show ?thesis
    using assms(2,3) by (simp add: tx_inv_def track_sent_buffer Let_def)
qed

text \<open>A tracked send, and the events that make one.\<close>

lemma send_tracked_view:
  assumes "send_tracked current now d guard t = (res, t')"
  obtains (kept) "tx_view t' = tx_view t" "res \<noteq> Inr ()"
    | (taken) "tp_tx_buffer t' = tp_tx_buffer t" "tp_guards t' = tp_guards t"
        "tp_send_seq t' = tp_send_seq t + 1" "res \<noteq> Inr ()"
    | (sent) u where "8 \<le> length d" "res = Inr ()"
        "tx_view t' = tx_view (track_sent (tp_send_seq t) (with_seq d (tp_send_seq t)) guard
           (t\<lparr>tp_send_seq := tp_send_seq t + 1\<rparr>))"
        "tp_sent t' = tp_sent t @ [with_seq d (tp_send_seq t)]"
proof -
  have view: "tx_view (u\<lparr>tp_last_tracked := now\<rparr>) = tx_view u" for u by (simp add: tx_view_def)
  have log: "tp_sent (track_sent n pkt g u) = tp_sent u" for n pkt g u
    by (simp add: track_sent_def Let_def split: list.split)
  consider "(case guard of None \<Rightarrow> Some True | Some g \<Rightarrow> current g) \<noteq> Some True"
    | "(case guard of None \<Rightarrow> Some True | Some g \<Rightarrow> current g) = Some True" "length d < 8"
    | "(case guard of None \<Rightarrow> Some True | Some g \<Rightarrow> current g) = Some True" "8 \<le> length d" by linarith
  then show thesis
  proof cases
    case 1
    then have "t' = t \<and> res \<noteq> Inr ()"
      using assms by (auto simp: send_tracked_def split: option.splits bool.splits)
    then show thesis using kept by simp
  next
    case 2
    then have "t' = t\<lparr>tp_send_seq := tp_send_seq t + 1\<rparr> \<and> res \<noteq> Inr ()"
      using assms by (auto simp: send_tracked_def next_send_seq_def)
    then show thesis using taken by simp
  next
    case 3
    then have "res = Inr ()" and t': "t' = (raw_send (with_seq d (tp_send_seq t))
        (track_sent (tp_send_seq t) (with_seq d (tp_send_seq t)) guard
          (t\<lparr>tp_send_seq := tp_send_seq t + 1\<rparr>)))\<lparr>tp_last_tracked := now\<rparr>"
      using assms by (auto simp: send_tracked_def next_send_seq_def)
    then show thesis using sent 3(2) view by (simp add: raw_send_def log tx_view_def)
  qed
qed

fun sends :: "tp_event \<Rightarrow> bool" where
  "sends (SendTracked current now d guard) \<longleftrightarrow> True"
| "sends (IdlePass now) \<longleftrightarrow> True"
| "sends _ \<longleftrightarrow> False"

lemma tx_view_step:
  "\<not> sends e \<Longrightarrow> tx_view (snd (tp_step t e)) = tx_view t"
  by (cases e) simp_all

lemma tp_step_send:
  assumes "sends e"
  obtains (none) "snd (tp_step t e) = t"
    | (send) current now d guard where "snd (tp_step t e) = snd (send_tracked current now d guard t)"
proof (cases e)
  case (IdlePass now)
  show thesis
  proof (cases "tp_state t = CS_DISCONNECTED \<or> \<not> IDLE_PERIOD \<le> now - tp_last_tracked t")
    case True
    then show thesis using none IdlePass by (auto simp: idle_tick_def)
  next
    case False
    then show thesis
      using send [of "\<lambda>_. Some True" now "build_control 0 0 t" None] IdlePass by (simp add: idle_tick_def)
  qed
next
  case (SendTracked current now d guard)
  then show thesis using send by simp
qed (use assms in simp_all)

lemma tx_inv_step: "tx_inv t \<Longrightarrow> tx_inv (snd (tp_step t e))"
proof (cases "sends e")
  case False
  assume "tx_inv t"
  then show ?thesis using tx_inv_view [OF tx_view_step [OF False]] by simp
next
  case True
  assume inv: "tx_inv t"
  show ?thesis
  proof (rule tp_step_send [OF True, of t])
    assume "snd (tp_step t e) = t"
    then show ?thesis using inv by simp
  next
    fix current now d guard
    assume e: "snd (tp_step t e) = snd (send_tracked current now d guard t)"
    obtain res t' where st: "send_tracked current now d guard t = (res, t')"
      by (cases "send_tracked current now d guard t")
    have "tx_inv t'"
    proof (rule send_tracked_view [OF st])
      assume "tx_view t' = tx_view t"
      then show ?thesis using tx_inv_view inv by blast
    next
      assume "tp_tx_buffer t' = tp_tx_buffer t"
      then show ?thesis using inv by (simp add: tx_inv_def)
    next
      let ?u = "t\<lparr>tp_send_seq := tp_send_seq t + 1\<rparr>"
      assume "8 \<le> length d" and v: "tx_view t' = tx_view (track_sent (tp_send_seq t)
          (with_seq d (tp_send_seq t)) guard ?u)"
      moreover have "tx_inv ?u" using inv by (simp add: tx_inv_def)
      ultimately have "tx_inv (track_sent (tp_send_seq t) (with_seq d (tp_send_seq t)) guard ?u)"
        using tx_inv_track get_with_seq by metis
      then show ?thesis using tx_inv_view [OF v] by simp
    qed
    then show ?thesis using e st by simp
  qed
qed

lemma tx_inv_feed: "tx_inv t \<Longrightarrow> tx_inv (snd (feed tp_step t es))"
  by (induction es arbitrary: t) (auto simp: split_beta intro: tx_inv_step simp del: tp_step.simps)

lemma connect_reset_tx_inv: "tx_inv (connect_reset t0)"
  by (simp add: tx_inv_def connect_reset_def)

text \<open>The answers to the radio's retransmit requests.\<close>

definition retransmit_answer :: "(nat \<Rightarrow> bool option) \<Rightarrow> transport \<Rightarrow> seqno \<Rightarrow> byte list" where
  "retransmit_answer current t s =
     (case map_of (tp_tx_buffer t) s of
        Some d \<Rightarrow> (if (case map_of (tp_guards t) s of None \<Rightarrow> True | Some g \<Rightarrow> current g = Some True)
                   then d else build_control 0 s t)
      | None \<Rightarrow> build_control 0 s t)"

lemma retransmit_raw: "retransmit current s t = raw_send (retransmit_answer current t s) t"
  by (simp add: retransmit_def retransmit_answer_def split: option.split)

lemma retransmits_sent:
  "tp_sent (foldl (\<lambda>t s. retransmit current s t) t ss) = tp_sent t @ map (retransmit_answer current t) ss"
proof (induction ss arbitrary: t)
  case Nil
  then show ?case by simp
next
  case (Cons s ss)
  have "tp_tx_buffer (raw_send d t) = tp_tx_buffer t" "tp_guards (raw_send d t) = tp_guards t"
      "build_control ptype n (raw_send d t) = build_control ptype n t" for d ptype n
    by (simp_all add: raw_send_def build_control_def)
  then have "retransmit_answer current (raw_send d t) = retransmit_answer current t" for d
    by (intro ext) (simp add: retransmit_answer_def split: option.split)
  then show ?case using Cons [of "retransmit current s t"] by (simp add: retransmit_raw raw_send_def)
qed

lemma control_seq: "get_le16 (build_control ptype s t) 6 = s"
  using get_le16_append [of "le32 (of_nat CONTROL_SIZE) @ le16 ptype" 6 s "le32 (tp_my_id t) @ le32 (tp_remote_id t)"]
  by (simp add: build_control_def)

lemma answer_seq: "tx_inv t \<Longrightarrow> get_le16 (retransmit_answer current t s) 6 = s"
  by (auto simp: retransmit_answer_def tx_inv_def list_all_iff control_seq split: option.splits dest: map_of_SomeD)

text \<open>
  The two ends of the retransmit protocol agree: read back by the handler of such requests, the
  packet the retransmit loop sends asks for exactly the missing numbers, in order.\<close>

theorem retransmit_request_round_trip:
  assumes "build_retransmit_requests t = [d]"
  shows "requested_seqs d (get_le32 d 0) (get_le16 d 6) = map fst (tp_missing t)"
proof -
  have ranges: "concat (map range_seqs (seq_ranges (concat (map (\<lambda>s. le16 s @ le16 s) ss)))) = ss" for ss
  proof (induction ss)
    case Nil
    then show ?case by simp
  next
    case (Cons s ss)
    have "range_seqs (s, s) = [s]" by (simp add: range_seqs_def MAX_MISSING_def)
    then show ?case using Cons by (simp add: le16_def word16_bytes)
  qed
  show ?thesis
  proof (cases "map fst (tp_missing t)")
    case Nil
    then show ?thesis using assms by (simp add: build_retransmit_requests_def)
  next
    case (Cons s rest)
    show ?thesis
    proof (cases rest)
      case Nil
      then have d: "d = build_control PACKET_CONTROL s t"
        using assms Cons by (simp add: build_retransmit_requests_def)
      have "get_le32 d 0 = of_nat CONTROL_SIZE" "length d = CONTROL_SIZE"
        using get_le32_append [of "[]" 0 "of_nat CONTROL_SIZE"] unfolding d
        by (simp_all add: build_control_def CONTROL_SIZE_def)
      then show ?thesis
        using Cons Nil control_seq d by (simp add: requested_seqs_def CONTROL_SIZE_def)
    next
      case more: (Cons s2 rest2)
      let ?ss = "map fst (tp_missing t)"
      have d: "d = le32 (of_nat (CONTROL_SIZE + 4 * length ?ss)) @ le16 PACKET_CONTROL @ le16 0
          @ le32 (tp_my_id t) @ le32 (tp_remote_id t) @ concat (map (\<lambda>s. le16 s @ le16 s) ?ss)"
        using assms Cons more by (simp add: build_retransmit_requests_def Let_def)
      have "drop CONTROL_SIZE d = concat (map (\<lambda>s. le16 s @ le16 s) ?ss)"
        unfolding d by (simp add: CONTROL_SIZE_def drop_append)
      moreover have "CONTROL_SIZE < length d"
        unfolding d using Cons more by (simp add: CONTROL_SIZE_def)
      ultimately show ?thesis using ranges [of ?ss] by (simp add: requested_seqs_def del: map_map)
    qed
  qed
qed

text \<open>A sent packet in the buffer, with at most \<open>k\<close> packets sent after it.\<close>

definition kept_packet :: "seqno \<Rightarrow> byte list \<Rightarrow> nat option \<Rightarrow> nat \<Rightarrow> transport \<Rightarrow> bool" where
  "kept_packet seq pkt guard k t \<longleftrightarrow> tx_inv t \<and> map_of (tp_guards t) seq = guard
     \<and> (\<exists>pre post. tp_tx_buffer t = pre @ (seq, pkt) # post \<and> length post \<le> k)"

lemma map_of_guards_track:
  assumes "n \<noteq> 0" and "seq \<noteq> n"
    and "\<not> (BUFSIZE \<le> length (AList.delete n (tp_tx_buffer t))
             \<and> fst (hd (AList.delete n (tp_tx_buffer t))) = seq)"
  shows "map_of (tp_guards (track_sent n d guard t)) seq = map_of (tp_guards t) seq"
proof (cases "AList.delete n (tp_tx_buffer t)")
  case Nil
  then show ?thesis using assms(1,2)
    by (simp add: track_sent_def Let_def update_conv' split: option.split)
next
  case (Cons x rest)
  then show ?thesis using assms
    by (cases x) (auto simp: track_sent_def Let_def update_conv' split: option.split)
qed

lemma map_of_guards_self: "map_of (tp_guards (track_sent n d guard t)) n = guard"
proof -
  have "map_of (AList.delete n g) n = None" "map_of (AList.delete m (AList.delete n g)) n = None"
    for m and g :: "(seqno \<times> nat) list"
    by (simp_all add: delete_conv')
  then show ?thesis
    by (cases guard) (simp_all add: track_sent_def Let_def update_conv' split: list.split)
qed

lemma kept_packet_track:
  assumes "kept_packet seq pkt guard k t" and "n \<noteq> 0" and "n \<noteq> seq" and "Suc k < BUFSIZE"
    and "8 \<le> length d" and "get_le16 d 6 = n"
  shows "kept_packet seq pkt guard (Suc k) (track_sent n d g t)"
proof -
  obtain pre post where b: "tp_tx_buffer t = pre @ (seq, pkt) # post" "length post \<le> k"
    using assms(1) by (auto simp: kept_packet_def)
  let ?pre = "AList.delete n pre" and ?post = "AList.delete n post"
  have del: "AList.delete n (tp_tx_buffer t) = ?pre @ (seq, pkt) # ?post"
    using b(1) assms(3) by (simp add: AList.delete_eq)
  have post: "length ?post \<le> k" using b(2) order_trans [OF length_delete_le [of n post]] by simp
  have inv: "tx_inv t" using assms(1) by (simp add: kept_packet_def)
  have evict: "?pre \<noteq> []" if "BUFSIZE \<le> length (?pre @ (seq, pkt) # ?post)"
    using that post assms(4) by (cases ?pre) auto
  have "\<exists>pre post. tp_tx_buffer (track_sent n d g t) = pre @ (seq, pkt) # post \<and> length post \<le> Suc k"
  proof (cases "BUFSIZE \<le> length (?pre @ (seq, pkt) # ?post)")
    case True
    then have "tp_tx_buffer (track_sent n d g t) = tl ?pre @ (seq, pkt) # (?post @ [(n, d)])"
      using evict assms(2) by (simp add: track_sent_buffer del Let_def)
    then show ?thesis using post by (intro exI [of _ "tl ?pre"] exI [of _ "?post @ [(n, d)]"]) simp
  next
    case False
    then have "tp_tx_buffer (track_sent n d g t) = ?pre @ (seq, pkt) # (?post @ [(n, d)])"
      using assms(2) by (simp add: track_sent_buffer del Let_def)
    then show ?thesis using post by (intro exI [of _ ?pre] exI [of _ "?post @ [(n, d)]"]) simp
  qed
  moreover have "map_of (tp_guards (track_sent n d g t)) seq = guard"
  proof -
    have "fst (hd (?pre @ (seq, pkt) # ?post)) \<noteq> seq" if big: "BUFSIZE \<le> length (?pre @ (seq, pkt) # ?post)"
    proof -
      obtain x rest where pre: "?pre = x # rest" using evict [OF big] by (cases ?pre) auto
      have "distinct (map fst (AList.delete n (tp_tx_buffer t)))"
        using inv distinct_delete by (auto simp: tx_inv_def)
      then show ?thesis using pre by (simp add: del)
    qed
    then show ?thesis
      using map_of_guards_track [of n seq t d g] assms(1,2,3) by (auto simp: del kept_packet_def)
  qed
  moreover have "tx_inv (track_sent n d g t)" by (rule tx_inv_track [OF inv assms(5,6)])
  ultimately show ?thesis by (simp add: kept_packet_def)
qed

lemma kept_packet_view: "tx_view t' = tx_view t \<Longrightarrow> kept_packet seq pkt guard k t' \<longleftrightarrow> kept_packet seq pkt guard k t"
  using tx_inv_view [of t' t] by (simp add: kept_packet_def tx_view_def)

lemma kept_packet_mono: "kept_packet seq pkt guard k t \<Longrightarrow> k \<le> m \<Longrightarrow> kept_packet seq pkt guard m t"
  unfolding kept_packet_def by (meson order_trans)

text \<open>The number of the next tracked packet lies \<open>k + 1\<close> after the kept one at most.\<close>

lemma kept_packet_step:
  assumes "kept_packet seq pkt guard k t" and "Suc k < BUFSIZE" and "unat seq + k < 65535"
    and "unat seq < unat (tp_send_seq t)" and "unat (tp_send_seq t) \<le> Suc (unat seq + k)"
    and "sends e" and "unat seq + Suc k < 65535"
  shows "kept_packet seq pkt guard (Suc k) (snd (tp_step t e))
    \<and> unat seq < unat (tp_send_seq (snd (tp_step t e)))
    \<and> unat (tp_send_seq (snd (tp_step t e))) \<le> Suc (unat seq + Suc k)"
proof -
  have weak: "kept_packet seq pkt guard (Suc k) t" by (rule kept_packet_mono [OF assms(1)]) simp
  let ?n = "tp_send_seq t"
  have nz: "?n \<noteq> 0" "?n \<noteq> seq" using assms(4) by auto
  have "unat ?n + 1 < 2 ^ LENGTH(16)" using assms(5,7) by simp
  then have suc: "unat (?n + 1) = Suc (unat ?n)" by (simp add: unat_word_ariths)
  show ?thesis
  proof (rule tp_step_send [OF assms(6), of t])
    assume "snd (tp_step t e) = t"
    then show ?thesis using weak assms(4,5) by simp
  next
    fix current now d g
    assume e: "snd (tp_step t e) = snd (send_tracked current now d g t)"
    obtain res t' where st: "send_tracked current now d g t = (res, t')" by (cases "send_tracked current now d g t")
    have "kept_packet seq pkt guard (Suc k) t' \<and> (tp_send_seq t' = ?n \<or> tp_send_seq t' = ?n + 1)"
    proof (rule send_tracked_view [OF st])
      assume v: "tx_view t' = tx_view t"
      then show ?thesis using kept_packet_view [OF v] weak tx_viewD [OF v] by simp
    next
      assume "tp_tx_buffer t' = tp_tx_buffer t" "tp_guards t' = tp_guards t" "tp_send_seq t' = ?n + 1"
      then show ?thesis using weak by (simp add: kept_packet_def tx_inv_def)
    next
      let ?u = "t\<lparr>tp_send_seq := ?n + 1\<rparr>"
      assume len: "8 \<le> length d" and v: "tx_view t' = tx_view (track_sent ?n (with_seq d ?n) g ?u)"
      have u: "kept_packet seq pkt guard k ?u" using assms(1) by (simp add: kept_packet_def tx_inv_def)
      have "kept_packet seq pkt guard (Suc k) (track_sent ?n (with_seq d ?n) g ?u)"
        by (rule kept_packet_track [OF u nz assms(2)]) (use get_with_seq [OF len] len in simp_all)
      moreover have "tp_send_seq (track_sent ?n (with_seq d ?n) g ?u) = ?n + 1"
        by (simp add: track_sent_def Let_def split: list.split)
      ultimately show ?thesis using kept_packet_view [OF v] tx_viewD [OF v] by simp
    qed
    then show ?thesis using e st suc assms(4,5) by auto
  qed
qed

lemma kept_packet_feed:
  assumes "kept_packet seq pkt guard k t" and "k + length (filter sends es) < BUFSIZE"
    and "unat seq + k + length (filter sends es) < 65535"
    and "unat seq < unat (tp_send_seq t)" and "unat (tp_send_seq t) \<le> Suc (unat seq + k)"
  shows "\<exists>m. kept_packet seq pkt guard m (snd (feed tp_step t es))"
  using assms
proof (induction es arbitrary: t k)
  case Nil
  then show ?case by auto
next
  case (Cons e es)
  let ?t = "snd (tp_step t e)"
  have feed: "snd (feed tp_step t (e # es)) = snd (feed tp_step ?t es)" by (simp add: split_beta)
  show ?case
  proof (cases "sends e")
    case True
    then have "kept_packet seq pkt guard (Suc k) ?t \<and> unat seq < unat (tp_send_seq ?t)
        \<and> unat (tp_send_seq ?t) \<le> Suc (unat seq + Suc k)"
      using kept_packet_step [OF Cons.prems(1) _ _ Cons.prems(4,5)] Cons.prems(2,3) by simp
    then show ?thesis
      using Cons.IH [of "Suc k" ?t] Cons.prems(2,3) True unfolding feed by simp
  next
    case False
    note v = tx_view_step [OF False, of t]
    have "kept_packet seq pkt guard k ?t" using kept_packet_view [OF v] Cons.prems(1) by simp
    then show ?thesis
      using Cons.IH [of k ?t] Cons.prems False tx_viewD [OF v] unfolding feed by simp
  qed
qed

text \<open>
  A packet stays available for retransmission, with its guard, while at most 498 further
  tracked sends happen and the numbers do not roll over, whatever else happens in between.\<close>

lemma sent_stays:
  assumes "t = snd (feed tp_step (connect_reset t0) es0)"
    and "send_tracked current now d guard t = (Inr (), t1)"
    and "t2 = snd (feed tp_step t1 es)"
    and "length (filter sends es) < 499"
    and "unat (tp_send_seq t) + length (filter sends es) < 65535"
  shows "map_of (tp_tx_buffer t2) (tp_send_seq t) = Some (with_seq d (tp_send_seq t))
    \<and> map_of (tp_guards t2) (tp_send_seq t) = guard"
proof -
  let ?n = "tp_send_seq t"
  let ?u = "t\<lparr>tp_send_seq := ?n + 1\<rparr>"
  have "tx_inv t" using tx_inv_feed [OF connect_reset_tx_inv] assms(1) by blast
  then have u: "tx_inv ?u" by (simp add: tx_inv_def)
  have len: "8 \<le> length d" and v: "tx_view t1 = tx_view (track_sent ?n (with_seq d ?n) guard ?u)"
    by (rule send_tracked_view [OF assms(2)], simp_all)+
  let ?w = "track_sent ?n (with_seq d ?n) guard ?u"
  have inv: "tx_inv ?w" by (rule tx_inv_track [OF u]) (use get_with_seq [OF len] len in simp_all)
  have "map_of (tp_guards ?w) ?n = guard" by (rule map_of_guards_self)
  moreover obtain pre where "tp_tx_buffer ?w = pre @ [(?n, with_seq d ?n)]"
    unfolding track_sent_buffer Let_def by blast
  ultimately have "kept_packet ?n (with_seq d ?n) guard 0 ?w"
    using inv unfolding kept_packet_def by (intro conjI exI [of _ pre] exI [of _ "[]"]) simp_all
  then have kept: "kept_packet ?n (with_seq d ?n) guard 0 t1" using kept_packet_view [OF v] by simp
  have seq: "tp_send_seq t1 = ?n + 1"
    using tx_viewD [OF v] by (simp add: track_sent_def Let_def split: list.split)
  have "unat ?n + 1 < 2 ^ LENGTH(16)" using assms(5) by simp
  then have "unat (?n + 1) = Suc (unat ?n)" by (simp add: unat_word_ariths)
  then obtain m where "kept_packet ?n (with_seq d ?n) guard m t2"
    using kept_packet_feed [OF kept, of es] assms(3,4,5) seq by (auto simp: BUFSIZE_def)
  then obtain pre post where b: "tx_inv t2" "map_of (tp_guards t2) ?n = guard"
      "tp_tx_buffer t2 = pre @ (?n, with_seq d ?n) # post"
    by (auto simp: kept_packet_def)
  then have "(?n, with_seq d ?n) \<in> set (tp_tx_buffer t2)" by simp
  then show ?thesis using b map_of_eq_Some_iff [of "tp_tx_buffer t2"] by (simp add: tx_inv_def)
qed

text \<open>
  C16. A retransmit request is answered completely, truthfully and safely: one packet per requested number, in
  order and carrying that number; it is the stored packet when there is one whose guard still holds, and an idle packet
  otherwise. So a packet that was sent is resent byte for byte when it is asked for, unless its write is
  no longer current, while at most 498 further tracked sends happen and the numbers do not roll over, whatever else
  happens in between; and a write that is no longer current is never sent again.\<close>

theorem retransmit_answers_each_number:
  assumes "t = snd (feed tp_step (connect_reset t0) es0)"
    and "send_tracked current now d guard t = (Inr (), t1)"
    and "t2 = snd (feed tp_step t1 es)"
    and "length (filter sends es) < 499"
    and "unat (tp_send_seq t) + length (filter sends es) < 65535"
  shows "tp_sent t1 = tp_sent t @ [with_seq d (tp_send_seq t)] \<and>
    (\<exists>answers. tp_sent (handle_retransmit_packet current' req len seq t2) = tp_sent t2 @ answers
      \<and> map (\<lambda>a. get_le16 a 6) answers = requested_seqs req len seq
      \<and> (\<forall>i < length answers. answers ! i =
          (case map_of (tp_tx_buffer t2) (requested_seqs req len seq ! i) of
             Some pkt \<Rightarrow>
               (case map_of (tp_guards t2) (requested_seqs req len seq ! i) of
                  Some g \<Rightarrow> if current' g = Some True then pkt else build_control 0 (requested_seqs req len seq ! i) t2
                | None \<Rightarrow> pkt)
           | None \<Rightarrow> build_control 0 (requested_seqs req len seq ! i) t2))
      \<and> (\<forall>i < length answers. requested_seqs req len seq ! i = tp_send_seq t \<longrightarrow>
          answers ! i = (if guard = None \<or> current' (the guard) = Some True then with_seq d (tp_send_seq t)
                         else build_control 0 (tp_send_seq t) t2)))"
proof -
  let ?n = "tp_send_seq t" and ?ss = "requested_seqs req len seq"
  have stays: "map_of (tp_tx_buffer t2) ?n = Some (with_seq d ?n)" "map_of (tp_guards t2) ?n = guard"
    using sent_stays [OF assms] by simp_all
  have "tx_inv t" using tx_inv_feed [OF connect_reset_tx_inv] assms(1) by blast
  then have "tx_inv t1" using tx_inv_step [of t "SendTracked current now d guard"] assms(2) by simp
  then have inv: "tx_inv t2" using tx_inv_feed assms(3) by blast
  have sent: "tp_sent t1 = tp_sent t @ [with_seq d ?n]"
    using assms(2) by (auto simp: send_tracked_def next_send_seq_def raw_send_def track_sent_def Let_def
        split: option.splits bool.splits if_splits list.splits prod.splits)
  let ?a = "map (retransmit_answer current' t2) ?ss"
  have "tp_sent (handle_retransmit_packet current' req len seq t2) = tp_sent t2 @ ?a"
    unfolding handle_retransmit_packet_def by (rule retransmits_sent)
  moreover have "map (\<lambda>a. get_le16 a 6) ?a = ?ss" using answer_seq [OF inv] by (simp add: comp_def)
  moreover have "retransmit_answer current' t2 s = (case map_of (tp_tx_buffer t2) s of
      Some pkt \<Rightarrow> (case map_of (tp_guards t2) s of
        Some g \<Rightarrow> if current' g = Some True then pkt else build_control 0 s t2 | None \<Rightarrow> pkt)
    | None \<Rightarrow> build_control 0 s t2)" for s
    by (simp add: retransmit_answer_def split: option.split)
  moreover have "retransmit_answer current' t2 ?n =
      (if guard = None \<or> current' (the guard) = Some True then with_seq d ?n else build_control 0 ?n t2)"
    using stays by (auto simp: retransmit_answer_def split: option.split)
  ultimately show ?thesis using sent by (intro conjI exI [of _ ?a]) simp_all
qed

section \<open>The packet queue\<close>

text \<open>
  A full packet queue never costs a control packet: a packet that is not scope data and that no
  callback consumes always enters the queue, in place of the oldest packet when the queue is full.\<close>

theorem control_packet_enters_queue:
  assumes "bq_maxsize (tp_queue t) = PACKET_QUEUE_MAXSIZE" and "length (bq_items (tp_queue t)) \<le> 4096"
    and "\<not> is_scope_packet (hp_data p)"
    and "hp_ptype p \<noteq> 0 \<or> \<not> tp_discard t \<and> \<not> tp_conninfo t \<and> \<not> tp_token t"
  shows "bq_items (tp_queue (route_data_packet now p t)) =
      (if length (bq_items (tp_queue t)) = 4096 then tl (bq_items (tp_queue t)) else bq_items (tp_queue t))
        @ [hp_data p]"
proof -
  let ?u = "if tp_remote_id t = 0 \<and> hp_sender p \<noteq> 0 then t\<lparr>tp_remote_id := hp_sender p\<rparr> else t"
  have u: "tp_queue ?u = tp_queue t" by simp
  have enq: "bq_items (tp_queue (enqueue_packet now False d v)) = bq_items (tp_queue v) @ [d]"
    if "\<not> bq_full (tp_queue v)" for v d
    using that by (simp add: enqueue_packet_def put_nowait_def Let_def add_call_def)
  have over: "tp_queue (note_overflow now v) = tp_queue v" for v
    by (simp add: note_overflow_def Let_def)
  have route: "route_data_packet now p t =
      (if bq_full (tp_queue ?u) then enqueue_packet now False (hp_data p) (note_overflow now
          (case get_nowait (tp_queue ?u) of Inl _ \<Rightarrow> ?u | Inr (_, q) \<Rightarrow> ?u\<lparr>tp_queue := q\<rparr>))
       else enqueue_packet now False (hp_data p) ?u)"
    using assms(3,4) by (auto simp: route_data_packet_def Let_def)
  show ?thesis
  proof (cases "bq_full (tp_queue t)")
    case True
    then have full: "length (bq_items (tp_queue t)) = 4096"
      using assms(1,2) by (simp add: bq_full_def PACKET_QUEUE_MAXSIZE_def)
    then obtain x xs where q: "bq_items (tp_queue t) = x # xs" by (cases "bq_items (tp_queue t)") auto
    let ?v = "?u\<lparr>tp_queue := (tp_queue t)\<lparr>bq_items := xs\<rparr>\<rparr>"
    have v: "route_data_packet now p t = enqueue_packet now False (hp_data p) (note_overflow now ?v)"
      unfolding route u using True q by (simp add: get_nowait_def)
    have "\<not> bq_full (tp_queue (note_overflow now ?v))"
      unfolding over using full q assms(1) by (simp add: bq_full_def PACKET_QUEUE_MAXSIZE_def)
    from enq [OF this] show ?thesis unfolding v over using full q by simp
  next
    case False
    then have "length (bq_items (tp_queue t)) \<noteq> 4096"
      using assms(1) by (simp add: bq_full_def PACKET_QUEUE_MAXSIZE_def)
    then show ?thesis unfolding route u using False enq [of ?u] u by simp
  qed
qed

section \<open>Concrete runs\<close>

definition demo_data :: "seqno \<Rightarrow> byte list" where
  "demo_data n = build_control 0 n (transport_new True)"

definition demo_held :: "seqno \<Rightarrow> held_packet" where
  "demo_held n = \<lparr>hp_data = demo_data n, hp_ptype = 0, hp_seq = n, hp_sender = get_le32 (demo_data n) 8\<rparr>"

definition demo_arrival :: "seqno \<Rightarrow> tp_event" where
  "demo_arrival n = Datagram (\<lambda>_. None) 0 (demo_data n)"

lemma demo_data_fields:
  "get_le16 (demo_data n) 4 = 0" "get_le16 (demo_data n) 6 = n" "length (demo_data n) = 16"
  "get_le32 (demo_data n) 8 = 0"
  using get_le16_append [of "le32 (of_nat CONTROL_SIZE)" 4 0 "le16 n @ le32 0 @ le32 0"]
    control_seq [of 0 n "transport_new True"]
    get_le32_append [of "le32 (of_nat CONTROL_SIZE) @ le16 0 @ le16 n" 8 0 "le32 0"]
  by (simp_all add: demo_data_def build_control_def transport_new_def)

lemma demo_step:
  "tp_step t (demo_arrival n) = handle_data_packet 0 (demo_held n) (t\<lparr>tp_rx_count := tp_rx_count t + 1\<rparr>)"
  by (simp add: demo_arrival_def handle_packet_def demo_data_fields HEADER_SIZE_def PACKET_PING_def
      demo_held_def Let_def)

lemma demo_held_fields: "hp_seq (demo_held n) = n" "hp_ptype (demo_held n) = 0"
  by (simp_all add: demo_held_def)

definition demo_queue :: "byte list list \<Rightarrow> byte list bounded_queue" where
  "demo_queue xs = \<lparr>bq_items = xs, bq_maxsize = 4096, bq_unfinished = length xs\<rparr>"

text \<open>A new session after the numbers \<open>xs\<close> were queued, with what the receive side keeps.\<close>

definition demo_session ::
  "seqno option \<Rightarrow> (seqno \<times> nat) list \<Rightarrow> seqno option \<Rightarrow> (seqno \<times> held_packet) list \<Rightarrow> nat \<Rightarrow> seqno list
     \<Rightarrow> nat \<Rightarrow> transport" where
  "demo_session lst missing nxt held reordered xs cnt = (connect_reset (transport_new True))
     \<lparr>tp_rx_last := lst, tp_missing := missing, tp_rx_next := nxt, tp_held := held,
      tp_reordered := reordered, tp_queue := demo_queue (map demo_data xs), tp_rx_count := cnt\<rparr>"

lemma demo_session_eq: "demo_session lst missing nxt held reordered xs cnt =
  \<lparr>tp_ordered = True, tp_state = CS_CONNECTING, tp_my_id = 0,
     tp_remote_id = 0, tp_send_seq = 0, tp_ping_seq = 0, tp_tx_buffer = [], tp_guards = [],
     tp_rx_last = lst, tp_missing = missing, tp_rx_next = nxt, tp_held = held, tp_given_up = [],
     tp_reordered = reordered, tp_duplicate = 0, tp_lost = 0, tp_late = 0,
     tp_queue = demo_queue (map demo_data xs), tp_rx_count = cnt, tp_last_tracked = 0,
     tp_fast_path = False, tp_shed = False, tp_discard = False, tp_conninfo = False,
     tp_token = False, tp_scope_dropped = 0, tp_overflow_evicted = 0, tp_overflow_logged = 0,
     tp_sent = [], tp_calls = []\<rparr>"
  by (simp add: demo_session_def connect_reset_def transport_new_def)

lemma demo_start: "connect_reset (transport_new True) = demo_session None [] None [] 0 [] 0"
  by (simp add: demo_session_eq connect_reset_def transport_new_def bq_new_def demo_queue_def
      PACKET_QUEUE_MAXSIZE_def)

lemma demo_route:
  "\<not> tp_conninfo t \<Longrightarrow> \<not> tp_token t \<Longrightarrow> \<not> tp_shed t \<Longrightarrow> \<not> tp_discard t
    \<Longrightarrow> tp_queue t = demo_queue ds \<Longrightarrow> length ds < 4096
    \<Longrightarrow> route_data_packet now (demo_held n) t = t\<lparr>tp_queue := demo_queue (ds @ [demo_data n])\<rparr>"
  by (auto simp: route_data_packet_def enqueue_packet_def put_nowait_def bq_full_def demo_held_def
      demo_queue_def demo_data_fields is_scope_packet_def HEADER_SIZE_def Let_def)

lemma unat_max: "unat (- 1 :: seqno) = 65535"
  by (simp add: unsigned_minus_1_eq_mask mask_eq_exp_minus_1)

lemmas transport_eval = unat_max demo_step demo_session_eq demo_held_fields demo_route handle_data_packet_def
  record_rx_seq_def accept_in_order_def release_in_order_def release_loop.simps first_held_def ahead_def
  note_missing_def MAX_MISSING_def REORDER_WINDOW_def deque_extend_def Let_def

text \<open>Number 7 comes before 6.\<close>

lemma demo_first:
  "tp_step (demo_session None [] None [] 0 [] 0) (demo_arrival 5)
     = ([demo_held 5], demo_session (Some 5) [] (Some 6) [] 0 [5] 1)"
  by (simp add: transport_eval del: tp_step.simps)

lemma demo_ahead:
  "tp_step (demo_session (Some 5) [] (Some 6) [] 0 [5] 1) (demo_arrival 7)
     = ([], demo_session (Some 7) [(6, 0)] (Some 6) [(7, demo_held 7)] 0 [5] 2)"
  by (simp add: transport_eval upt_rec del: tp_step.simps)

lemma demo_resent:
  "tp_step (demo_session (Some 7) [(6, 0)] (Some 6) [(7, demo_held 7)] 0 [5] 2) (demo_arrival 6)
     = ([demo_held 6, demo_held 7], demo_session (Some 7) [] (Some 8) [] 1 [5, 6, 7] 3)"
  by (simp add: transport_eval del: tp_step.simps)

lemma demo_gap:
  "feed tp_step (connect_reset (transport_new True)) (map demo_arrival [5, 7])
     = ([demo_held 5], demo_session (Some 7) [(6, 0)] (Some 6) [(7, demo_held 7)] 0 [5] 2)"
  by (simp add: demo_start demo_first demo_ahead del: tp_step.simps One_nat_def)

lemma demo_reordered:
  "feed tp_step (connect_reset (transport_new True)) (map demo_arrival [5, 7, 6])
     = ([demo_held 5, demo_held 6, demo_held 7],
        demo_session (Some 7) [] (Some 8) [] 1 [5, 6, 7] 3)"
  by (simp add: demo_start demo_first demo_ahead demo_resent del: tp_step.simps One_nat_def)

lemma demo_ordered: "tp_ordered (transport_new True)"
  by (simp add: transport_new_def)

theorem civ_delivery_in_order_witness:
  "0 < ahead (hp_seq (demo_held 6)) (hp_seq (demo_held 7)) \<and>
    mset [demo_held 5, demo_held 6, demo_held 7] \<subseteq># mset (concat (map arrived (map demo_arrival [5, 7, 6])))"
proof -
  note all = civ_delivery_in_order [OF demo_reordered demo_ordered]
  show ?thesis using conjunct1 [OF all, rule_format, of 1] conjunct2 [OF conjunct2 [OF all]] by simp
qed

theorem civ_packets_accounted_witness:
  "length [demo_held 5] + length [(7 :: seqno, demo_held 7)] + 0 + 0
     = length (filter numbered_event (map demo_arrival [5, 7])) + 0 + 0"
  using civ_packets_accounted [OF demo_gap demo_ordered] by (simp add: demo_session_eq transport_new_def)

theorem civ_hold_is_bounded_witness:
  "length [(7 :: seqno, demo_held 7)] \<le> 256 \<and> list_all (\<lambda>(s, p). ahead 6 s \<le> 256) [(7 :: seqno, demo_held 7)]"
  using civ_hold_is_bounded [OF demo_gap demo_ordered, of 6] by (simp add: demo_session_eq)

theorem five_passes_release_the_hold_witness:
  "\<exists>out' t'. feed tp_step (demo_session (Some 7) [(6, 0)] (Some 6) [(7, demo_held 7)] 0 [5] 2)
      (map RetransmitPass [1, 2, 3, 4, 5]) = (out', t')
    \<and> tp_held t' = [] \<and> tp_missing t' = [] \<and> length out' = 1"
proof -
  let ?t = "demo_session (Some 7) [(6, 0)] (Some 6) [(7, demo_held 7)] 0 [5] 2"
  have "tp_state ?t \<noteq> CS_DISCONNECTED" "waiting_for_retransmit ?t" "length (tp_held ?t) = 1"
    by (simp_all add: demo_session_eq waiting_for_retransmit_def)
  moreover obtain out' t' where "feed tp_step ?t (map RetransmitPass [1, 2, 3, 4, 5]) = (out', t')"
    by (rule prod.exhaust)
  ultimately show ?thesis
    using five_passes_release_the_hold [OF demo_gap demo_ordered, of 1 2 3 4 5 out' t'] by simp
qed

theorem retransmit_request_round_trip_witness:
  "\<exists>d. build_retransmit_requests ((transport_new True)\<lparr>tp_missing := [(3, 0), (0xFFFF, 2)]\<rparr>) = [d]
    \<and> requested_seqs d (get_le32 d 0) (get_le16 d 6) = [3, 0xFFFF]"
proof -
  let ?t = "(transport_new True)\<lparr>tp_missing := [(3, 0), (0xFFFF, 2)]\<rparr>"
  obtain d where "build_retransmit_requests ?t = [d]"
    by (simp add: build_retransmit_requests_def Let_def)
  then show ?thesis using retransmit_request_round_trip [of ?t d] by simp
qed

text \<open>A guarded packet is sent; a ping and an idle pass follow; the radio asks for it and for a number never used.\<close>

definition demo_request :: "byte list" where
  "demo_request = replicate 16 0 @ [0, 0, 0, 0, 9, 0, 9, 0]"

theorem retransmit_answers_each_number_witness:
  "\<exists>t1 t2. send_tracked (\<lambda>_. Some True) 1 (replicate 16 0) (Some 4) (connect_reset (transport_new True)) = (Inr (), t1)
    \<and> t2 = snd (feed tp_step t1 [PingPass 0, IdlePass 9])
    \<and> tp_sent (handle_retransmit_packet (\<lambda>g. Some (g = 4)) demo_request 24 0 t2)
        = tp_sent t2 @ [replicate 16 0, build_control 0 9 t2]
    \<and> tp_sent (handle_retransmit_packet (\<lambda>g. Some (g = 5)) demo_request 24 0 t2)
        = tp_sent t2 @ [build_control 0 0 t2, build_control 0 9 t2]"
proof -
  let ?t = "connect_reset (transport_new True)"
  obtain t1 where t1: "send_tracked (\<lambda>_. Some True) 1 (replicate 16 0) (Some 4) ?t = (Inr (), t1)"
    by (simp add: send_tracked_def next_send_seq_def)
  let ?t2 = "snd (feed tp_step t1 [PingPass 0, IdlePass 9])"
  have start: "?t = snd (feed tp_step ?t [])" by simp
  have n: "tp_send_seq ?t = 0" by (simp add: connect_reset_def)
  have req: "requested_seqs demo_request 24 0 = [0, 9]"
    by (simp add: requested_seqs_def demo_request_def range_seqs_def MAX_MISSING_def CONTROL_SIZE_def word16_def)
  have "map_of (tp_tx_buffer (snd (feed tp_step (snd (send_tracked (\<lambda>_. Some True) 1 (replicate 16 0) (Some 4)
      (connect_reset (transport_new True)))) [PingPass 0, IdlePass 9]))) 9 = None"
    by code_simp
  then have idle: "map_of (tp_tx_buffer ?t2) 9 = None" by (simp only: t1 snd_conv)
  have zero: "with_seq (replicate 16 0) 0 = replicate 16 0"
    by (simp add: with_seq_def le16_def numeral_eq_Suc)
  have "length (filter sends [PingPass 0, IdlePass 9]) < 499"
    "unat (tp_send_seq ?t) + length (filter sends [PingPass 0, IdlePass 9]) < 65535"
    using n by simp_all
  note all = retransmit_answers_each_number [of ?t "transport_new True" "[]" "\<lambda>_. Some True" 1 "replicate 16 0" "Some 4" t1 ?t2
      "[PingPass 0, IdlePass 9]" _ demo_request 24 0, OF start t1 refl this, unfolded req n zero]
  have answers: "tp_sent (handle_retransmit_packet c demo_request 24 0 ?t2)
      = tp_sent ?t2 @ [if c 4 = Some True then replicate 16 0 else build_control 0 0 ?t2, build_control 0 9 ?t2]" for c
  proof -
    from conjunct2 [OF all [of c]] obtain as where as: "tp_sent (handle_retransmit_packet c demo_request 24 0 ?t2) = tp_sent ?t2 @ as"
        "map (\<lambda>a. get_le16 a 6) as = [0, 9]"
        and stored: "\<forall>i < length as. as ! i = (case map_of (tp_tx_buffer ?t2) ([0, 9] ! i) of
             Some pkt \<Rightarrow> (case map_of (tp_guards ?t2) ([0, 9] ! i) of
                  Some g \<Rightarrow> if c g = Some True then pkt else build_control 0 ([0, 9] ! i) ?t2 | None \<Rightarrow> pkt)
           | None \<Rightarrow> build_control 0 ([0, 9] ! i) ?t2)"
        and kept: "\<forall>i < length as. [0, 9] ! i = (0 :: seqno) \<longrightarrow> as ! i =
            (if Some (4 :: nat) = None \<or> c (the (Some 4)) = Some True then replicate 16 0 else build_control 0 0 ?t2)"
      by (elim exE conjE)
    obtain p q where pq: "as = [p, q]" using as(2) by (auto simp: map_eq_Cons_conv)
    have "p = (if c 4 = Some True then replicate 16 0 else build_control 0 0 ?t2)" using kept [rule_format, of 0] pq by simp
    moreover have "q = build_control 0 9 ?t2" using stored [rule_format, of 1] pq idle by simp
    ultimately show ?thesis using as(1) pq by simp
  qed
  have "tp_sent (handle_retransmit_packet (\<lambda>g. Some (g = 4)) demo_request 24 0 ?t2) = tp_sent ?t2 @ [replicate 16 0, build_control 0 9 ?t2]"
    using answers [of "\<lambda>g. Some (g = 4)"] by simp
  moreover have "tp_sent (handle_retransmit_packet (\<lambda>g. Some (g = 5)) demo_request 24 0 ?t2) = tp_sent ?t2 @ [build_control 0 0 ?t2, build_control 0 9 ?t2]"
    using answers [of "\<lambda>g. Some (g = 5)"] by simp
  ultimately show ?thesis using t1 by blast
qed

theorem control_packet_enters_queue_witness:
  "bq_items (tp_queue (route_data_packet 0 (demo_held 5) (transport_new True))) = [demo_data 5]"
  using control_packet_enters_queue [of "transport_new True" "demo_held 5" 0]
  by (simp add: transport_new_def bq_new_def is_scope_packet_def demo_held_def demo_data_fields HEADER_SIZE_def)

text \<open>
  A jump of almost half the number space while a packet is held clears the missing numbers and is
  itself taken for a duplicate: the held packet waits, and nobody asks for a retransmission.\<close>

lemma jump_strands_the_hold:
  "tp_step (demo_session (Some 8) [(6, 0)] (Some 6) [(7, demo_held 7), (8, demo_held 8)] 0 [5] 3)
      (demo_arrival 0x8007)
    = ([], (demo_session (Some 0x8007) [] (Some 6) [(7, demo_held 7), (8, demo_held 8)] 0 [5] 4)
             \<lparr>tp_duplicate := 1\<rparr>)"
  by (simp add: transport_eval del: tp_step.simps)

end
