(* ===== verification/DeltaCodec.thy ===== *)
theory DeltaCodec
  imports Prelude "HOL-Library.AList"
begin

text \<open>
  \<open>web/_delta_encoder.py\<close>: the encoder of state updates, its two wire renderings and the client's
  \<open>apply_delta\<close>.

  \<^item> A JSON tree is a \<open>json\<close>; a dictionary is an association list in insertion order with distinct
    keys, so \<open>d[k] = v\<close> is \<open>AList.update\<close> and \<open>d.pop(k, None)\<close> is \<open>AList.delete\<close>. Floats are finite.
  \<^item> \<open>py_eq\<close> is Python's \<open>==\<close> on such trees: numbers and booleans by value, dictionaries in any order.
  \<^item> Trees are values: the copies that keep the caller's and the encoder's containers apart
    (\<open>copy_state_tree\<close>, the \<open>fresh\<close> set of \<open>_parent_for_write\<close>) are the identity on them.
  \<^item> A frame is a record with one field per key of \<open>StateUpdateFrame\<close>; \<open>None\<close> is a missing key.
\<close>

section \<open>Loops that may raise\<close>

fun fold_result :: "('a \<Rightarrow> 's \<Rightarrow> 's result) \<Rightarrow> 'a list \<Rightarrow> 's \<Rightarrow> 's result" where
  "fold_result f [] s = Inr s"
| "fold_result f (x # xs) s = bind_result (f x s) (fold_result f xs)"

lemma fold_result_append:
  "fold_result f (xs @ ys) s = bind_result (fold_result f xs s) (fold_result f ys)"
proof (induction xs arbitrary: s)
  case (Cons x xs)
  then show ?case by (cases "f x s") auto
qed simp

section \<open>JSON trees\<close>

datatype json =
    JNull
  | JBool bool
  | JInt int
  | JFloat rat
  | JStr string
  | JList "json list"
  | JTuple "json list"
  | JObj "(string \<times> json) list"

type_synonym json_dict = "(string \<times> json) list"
type_synonym state_path = "string list"
type_synonym leaf_set_op = "state_path \<times> json"

fun json_number :: "json \<Rightarrow> rat option" where
  "json_number (JBool b) = Some (if b then 1 else 0)"
| "json_number (JInt i) = Some (of_int i)"
| "json_number (JFloat r) = Some r"
| "json_number _ = None"

lemma size_entry [termination_simp]:
  "(k, v) \<in> set d \<Longrightarrow> size v < Suc (size_list (size_prod (\<lambda>x. 0) size) d)"
  by (induction d) auto

function py_eq :: "json \<Rightarrow> json \<Rightarrow> bool" where
  "py_eq JNull y = (y = JNull)"
| "py_eq (JBool b) y = (json_number y = Some (if b then 1 else 0))"
| "py_eq (JInt i) y = (json_number y = Some (of_int i))"
| "py_eq (JFloat r) y = (json_number y = Some r)"
| "py_eq (JStr s) y = (y = JStr s)"
| "py_eq (JList xs) y = (case y of JList ys \<Rightarrow> list_all2 py_eq xs ys | _ \<Rightarrow> False)"
| "py_eq (JTuple xs) y = (case y of JTuple ys \<Rightarrow> list_all2 py_eq xs ys | _ \<Rightarrow> False)"
| "py_eq (JObj a) y = (case y of
      JObj b \<Rightarrow> length a = length b \<and>
        list_all (\<lambda>(k, v). case map_of b k of None \<Rightarrow> False | Some w \<Rightarrow> py_eq v w) a
    | _ \<Rightarrow> False)"
  by pat_completeness auto
termination
  by (relation "measure (\<lambda>(x, y). size x)") (auto simp: termination_simp)

text \<open>The trees the program builds: no dictionary has a key twice.\<close>

fun wf_json :: "json \<Rightarrow> bool" where
  "wf_json (JList xs) = list_all wf_json xs"
| "wf_json (JTuple xs) = list_all wf_json xs"
| "wf_json (JObj d) = (distinct (map fst d) \<and> list_all (\<lambda>(k, v). wf_json v) d)"
| "wf_json _ = True"

section \<open>The diff\<close>

function delta_diff ::
  "json_dict \<Rightarrow> json_dict \<Rightarrow> state_path \<Rightarrow> leaf_set_op list \<times> state_path list" where
  "delta_diff prev cur prefix =
     (let parts = map (\<lambda>(k, v).
            let path = prefix @ [k] in
            case map_of prev k of
              None \<Rightarrow> ([(path, v)], [])
            | Some old \<Rightarrow>
                (if py_eq old v then ([], [])
                 else case (old, v) of
                   (JObj o', JObj v') \<Rightarrow> delta_diff o' v' path
                 | _ \<Rightarrow> ([(path, v)], []))) cur
      in (concat (map fst parts),
          concat (map snd parts)
            @ map (\<lambda>(k, _). prefix @ [k]) (filter (\<lambda>(k, _). map_of cur k = None) prev)))"
  by pat_completeness auto
termination
  by (relation "measure (\<lambda>(prev, cur, prefix). size (JObj cur))")
    (auto dest!: size_entry)

declare delta_diff.simps [simp del]

section \<open>The encoder\<close>

definition LEAF_DELTA_VERSION :: int where "LEAF_DELTA_VERSION = 2"

record state_frame =
  fr_type :: string
  fr_revision :: int
  fr_transport_seq :: int
  fr_contract_version :: "int option"
  fr_provider_generation :: "int option"
  fr_data :: "json_dict option"
  fr_changed :: "json_dict option"
  fr_removed :: "string list option"
  fr_delta_version :: "int option"
  fr_set :: "leaf_set_op list option"
  fr_unset :: "state_path list option"
  fr_state_revision :: "int option"
  fr_freshness_revision :: "int option"
  fr_observation_seq :: "int option"

record delta_encoder =
  de_previous :: "json_dict option"
  de_transport_seq :: int
  de_delta_count :: int
  de_full_interval :: int

definition encoder_new :: "int \<Rightarrow> delta_encoder" where
  "encoder_new interval =
     \<lparr>de_previous = None, de_transport_seq = 0, de_delta_count = 0, de_full_interval = interval\<rparr>"

definition encoder_reset :: "delta_encoder \<Rightarrow> delta_encoder" where
  "encoder_reset e = e\<lparr>de_previous := None, de_transport_seq := 0, de_delta_count := 0\<rparr>"

text \<open>\<open>_copy_on_write_tree\<close>: the old subtree where it equals the new one, else the new one.\<close>

function copy_on_write_tree :: "json \<Rightarrow> json \<Rightarrow> json" where
  "copy_on_write_tree prev cur =
     (case cur of
        JObj c \<Rightarrow>
          (case prev of
             JObj p \<Rightarrow>
               (if py_eq prev cur then prev
                else JObj (map (\<lambda>(k, v). (k, case map_of p k of
                       None \<Rightarrow> v | Some old \<Rightarrow> copy_on_write_tree old v)) c))
           | _ \<Rightarrow> cur)
      | JList _ \<Rightarrow> (if py_eq prev cur then prev else cur)
      | JTuple _ \<Rightarrow> (if py_eq prev cur then prev else cur)
      | _ \<Rightarrow> cur)"
  by pat_completeness auto
termination
  by (relation "measure (\<lambda>(prev, cur). size cur)") (auto dest!: size_entry)

declare copy_on_write_tree.simps [simp del]

fun dict_of :: "json \<Rightarrow> json_dict" where
  "dict_of (JObj d) = d"
| "dict_of _ = []"

definition delta_encode ::
  "json_dict \<Rightarrow> bool \<Rightarrow> int option \<Rightarrow> int option \<Rightarrow> int option \<Rightarrow> delta_encoder
     \<Rightarrow> state_frame \<times> delta_encoder"
where
  "delta_encode current force_full state_revision freshness_revision observation_seq e =
     (let seq = de_transport_seq e + 1;
          revision = (case state_revision of None \<Rightarrow> seq | Some r \<Rightarrow> r);
          blank = \<lparr>fr_type = ''full'', fr_revision = revision, fr_transport_seq = seq,
                   fr_contract_version = None, fr_provider_generation = None, fr_data = None,
                   fr_changed = None, fr_removed = None, fr_delta_version = None, fr_set = None,
                   fr_unset = None, fr_state_revision = state_revision,
                   fr_freshness_revision = freshness_revision, fr_observation_seq = observation_seq\<rparr>;
          (result, count) =
            (case de_previous e of
               Some prev \<Rightarrow>
                 (if force_full \<or> de_full_interval e \<le> de_delta_count e
                  then (blank\<lparr>fr_data := Some current\<rparr>, 0)
                  else let (set_ops, unset_ops) = delta_diff prev current [] in
                    (blank\<lparr>fr_type := ''delta'', fr_delta_version := Some LEAF_DELTA_VERSION,
                           fr_set := Some set_ops,
                           fr_unset := (if unset_ops = [] then None else Some unset_ops)\<rparr>,
                     de_delta_count e + 1))
             | None \<Rightarrow> (blank\<lparr>fr_data := Some current\<rparr>, 0));
          previous = (case de_previous e of
               None \<Rightarrow> current
             | Some prev \<Rightarrow> dict_of (copy_on_write_tree (JObj prev) (JObj current)))
      in (result, e\<lparr>de_previous := Some previous, de_transport_seq := seq, de_delta_count := count\<rparr>))"

section \<open>The older rendering\<close>

definition touch_key :: "json_dict \<Rightarrow> state_path \<Rightarrow> json_dict \<Rightarrow> json_dict result" where
  "touch_key current path changed =
     (case path of
        [] \<Rightarrow> Inl IndexError
      | k # _ \<Rightarrow> (case map_of current k of
            None \<Rightarrow> Inl KeyError
          | Some v \<Rightarrow> Inr (AList.update k v changed)))"

definition top_level_delta :: "state_frame \<Rightarrow> json_dict \<Rightarrow> state_frame result" where
  "top_level_delta envelope current =
     (if fr_type envelope \<noteq> ''delta'' then Inr envelope
      else
        let sets = (case fr_set envelope of None \<Rightarrow> [] | Some s \<Rightarrow> s);
            unsets = (case fr_unset envelope of None \<Rightarrow> [] | Some u \<Rightarrow> u);
            removed = concat (filter (\<lambda>p. length p = 1) unsets)
        in bind_result
             (fold_result (touch_key current)
               (map fst sets @ filter (\<lambda>p. length p \<noteq> 1) unsets) []) (\<lambda>changed.
             Inr (envelope\<lparr>fr_delta_version := None, fr_set := None, fr_unset := None,
                           fr_changed := Some changed,
                           fr_removed := (if removed = [] then fr_removed envelope else Some removed)\<rparr>)))"

section \<open>The client\<close>

fun set_path :: "json_dict \<Rightarrow> state_path \<Rightarrow> json \<Rightarrow> json_dict result" where
  "set_path d [] v = Inl ValueError"
| "set_path d [k] v = Inr (AList.update k v d)"
| "set_path d (k # k2 # ks) v =
     (case map_of d k of
        Some (JObj child) \<Rightarrow>
          bind_result (set_path child (k2 # ks) v) (\<lambda>child'. Inr (AList.update k (JObj child') d))
      | _ \<Rightarrow> Inl ValueError)"

fun unset_path :: "json_dict \<Rightarrow> state_path \<Rightarrow> json_dict result" where
  "unset_path d [] = Inl ValueError"
| "unset_path d [k] = Inr (AList.delete k d)"
| "unset_path d (k # k2 # ks) =
     (case map_of d k of
        Some (JObj child) \<Rightarrow>
          bind_result (unset_path child (k2 # ks)) (\<lambda>child'. Inr (AList.update k (JObj child') d))
      | _ \<Rightarrow> Inl ValueError)"

definition apply_sets :: "leaf_set_op list \<Rightarrow> json_dict \<Rightarrow> json_dict result" where
  "apply_sets = fold_result (\<lambda>(path, v) d. set_path d path v)"

definition apply_unsets :: "state_path list \<Rightarrow> json_dict \<Rightarrow> json_dict result" where
  "apply_unsets = fold_result (\<lambda>path d. unset_path d path)"

definition apply_delta :: "json_dict \<Rightarrow> state_frame \<Rightarrow> json_dict result" where
  "apply_delta full_state delta =
     (if fr_type delta = ''full'' then Inr (case fr_data delta of None \<Rightarrow> [] | Some d \<Rightarrow> d)
      else if fr_type delta \<noteq> ''delta'' then Inl ValueError
      else if fr_delta_version delta \<noteq> Some LEAF_DELTA_VERSION then
        Inr (foldl (\<lambda>d k. AList.delete k d)
              (foldl (\<lambda>d (k, v). AList.update k v d) full_state
                 (case fr_changed delta of None \<Rightarrow> [] | Some c \<Rightarrow> c))
              (case fr_removed delta of None \<Rightarrow> [] | Some r \<Rightarrow> r))
      else bind_result (apply_sets (case fr_set delta of None \<Rightarrow> [] | Some s \<Rightarrow> s) full_state)
             (apply_unsets (case fr_unset delta of None \<Rightarrow> [] | Some u \<Rightarrow> u)))"

end
