(* ===== verification/DeltaRuns.thy ===== *)
theory DeltaRuns
  imports DeltaCodec
begin

text \<open>
  What the delta codec promises. Python equality is an equivalence on the program's trees; a diff,
  applied to any tree equal to the old one, gives a tree equal to the new one; both wire renderings do
  so; the encoder's copy-on-write snapshot equals the state it copies; full frames keep coming.

  The proof of the central fact (\<open>diff_applies\<close>) goes key by key: the operations a diff emits for one key
  read and write that key only (\<open>effect\<close>), so the loops of \<open>apply_delta\<close> act pointwise.
\<close>

section \<open>Python equality is an equivalence\<close>

lemma wf_obj: "wf_json (JObj d) \<longleftrightarrow>
    distinct (map fst d) \<and> (\<forall>k v. map_of d k = Some v \<longrightarrow> wf_json v)"
  by (auto simp: list_all_iff)

lemma card_dom_map_of: "distinct (map fst d) \<Longrightarrow> card (dom (map_of d)) = length d"
  using distinct_card [of "map fst d"] by (simp add: dom_map_of_conv_image_fst)

text \<open>Two dictionaries without duplicate keys are equal iff they are equal key by key.\<close>

definition same_dict :: "json_dict \<Rightarrow> json_dict \<Rightarrow> bool" where
  "same_dict a b \<longleftrightarrow> (\<forall>k. rel_option py_eq (map_of a k) (map_of b k))"

lemma same_dict_dom: "same_dict a b \<Longrightarrow> map_of a k = None \<longleftrightarrow> map_of b k = None"
  unfolding same_dict_def by (drule spec [of _ k]) (auto elim: option.rel_cases)

lemma same_dict_Some: "same_dict a b \<Longrightarrow> map_of a k = Some v \<Longrightarrow> \<exists>w. map_of b k = Some w \<and> py_eq v w"
  unfolding same_dict_def by (drule spec [of _ k]) (auto elim: option.rel_cases)

lemma py_eq_obj_iff:
  assumes "distinct (map fst a)"
  shows "py_eq (JObj a) (JObj b) \<longleftrightarrow> length a = length b \<and>
    (\<forall>k v. map_of a k = Some v \<longrightarrow> (\<exists>w. map_of b k = Some w \<and> py_eq v w))"
  using assms by (auto 0 4 simp: list_all_iff split: option.splits)

lemma py_eq_obj:
  assumes a: "distinct (map fst a)" and b: "distinct (map fst b)"
  shows "py_eq (JObj a) (JObj b) \<longleftrightarrow> same_dict a b"
proof
  assume "py_eq (JObj a) (JObj b)"
  then have same: "length a = length b"
    and sub: "map_of a k = Some v \<Longrightarrow> \<exists>w. map_of b k = Some w \<and> py_eq v w" for k v
    using py_eq_obj_iff [OF a] by blast+
  have "dom (map_of a) = dom (map_of b)"
  proof (rule card_subset_eq)
    show "dom (map_of a) \<subseteq> dom (map_of b)" using sub by (auto simp: dom_def)
    show "card (dom (map_of a)) = card (dom (map_of b))"
      using same by (simp add: card_dom_map_of a b)
  qed (rule finite_dom_map_of)
  then have "map_of a k = None \<longleftrightarrow> map_of b k = None" for k by (metis domIff)
  then have "rel_option py_eq (map_of a k) (map_of b k)" for k
    using sub [of k] by (cases "map_of a k"; cases "map_of b k") auto
  then show "same_dict a b" by (simp add: same_dict_def)
next
  assume rel: "same_dict a b"
  then have "dom (map_of a) = dom (map_of b)"
    by (auto simp: dom_def dest: same_dict_Some) (metis not_None_eq same_dict_dom)
  then have "length a = length b"
    using card_dom_map_of [OF a] card_dom_map_of [OF b] by simp
  then show "py_eq (JObj a) (JObj b)"
    using py_eq_obj_iff [OF a] same_dict_Some [OF rel] by blast
qed

lemma py_eq_refl [simp]: "wf_json v \<Longrightarrow> py_eq v v"
proof (induction v)
  case (JObj d)
  then have d: "distinct (map fst d)" by simp
  have "py_eq v v" if "map_of d k = Some v" for k v
    using JObj.IH [of "(k, v)" v] JObj.prems map_of_SomeD [OF that] by (auto simp: list_all_iff)
  then show ?case unfolding py_eq_obj_iff [OF d] by blast
qed (auto simp: list_all_iff intro!: list.rel_refl_strong)

lemma same_dict_refl: "wf_json (JObj d) \<Longrightarrow> same_dict d d"
  using py_eq_refl [of "JObj d"] py_eq_obj [of d d] by simp

lemma list_all2_swap:
  "list_all2 P xs ys \<Longrightarrow> (\<And>x y. x \<in> set xs \<Longrightarrow> y \<in> set ys \<Longrightarrow> P x y \<Longrightarrow> Q y x) \<Longrightarrow> list_all2 Q ys xs"
  by (induction rule: list_all2_induct) auto

lemma py_eq_sym: "wf_json v \<Longrightarrow> wf_json w \<Longrightarrow> py_eq v w \<Longrightarrow> py_eq w v"
proof (induction v arbitrary: w)
  case (JObj a)
  from JObj.prems(3) obtain b where w: "w = JObj b" by (cases w) auto
  with JObj.prems have a: "distinct (map fst a)" and b: "distinct (map fst b)" by auto
  have eq: "same_dict a b" using JObj.prems(3) unfolding w py_eq_obj [OF a b] .
  have "rel_option py_eq (map_of b k) (map_of a k)" for k
  proof (cases "map_of a k")
    case None
    then show ?thesis using same_dict_dom [OF eq, of k] by simp
  next
    case (Some v)
    with same_dict_Some [OF eq] obtain x where x: "map_of b k = Some x" "py_eq v x" by blast
    have "py_eq x v"
      using JObj.IH [of "(k, v)" v x] JObj.prems Some x map_of_SomeD [OF Some] w
      by (auto simp: wf_obj simp del: wf_json.simps)
    then show ?thesis using Some x by simp
  qed
  then show ?case unfolding w py_eq_obj [OF b a] same_dict_def by blast
next
  case (JList xs)
  then show ?case by (auto simp: list_all_iff elim!: list_all2_swap split: json.splits)
next
  case (JTuple xs)
  then show ?case by (auto simp: list_all_iff elim!: list_all2_swap split: json.splits)
qed (auto split: json.splits elim: json_number.elims)

lemma py_eq_number: "py_eq v w \<Longrightarrow> json_number v = Some r \<Longrightarrow> json_number w = Some r"
  by (cases v) auto

lemma py_eq_trans:
  "wf_json u \<Longrightarrow> wf_json v \<Longrightarrow> wf_json w \<Longrightarrow> py_eq u v \<Longrightarrow> py_eq v w \<Longrightarrow> py_eq u w"
proof (induction u arbitrary: v w)
  case (JObj a)
  from JObj.prems(4) obtain b where v: "v = JObj b" by (cases v) auto
  with JObj.prems(5) obtain c where w: "w = JObj c" by (cases w) auto
  have d: "distinct (map fst a)" "distinct (map fst b)" "distinct (map fst c)"
    using JObj.prems v w by auto
  have ab: "same_dict a b" and bc: "same_dict b c"
    using JObj.prems(4,5) unfolding v w by (simp_all only: py_eq_obj d)
  have "rel_option py_eq (map_of a k) (map_of c k)" for k
  proof (cases "map_of a k")
    case None
    then show ?thesis using same_dict_dom [OF ab, of k] same_dict_dom [OF bc, of k] by simp
  next
    case (Some x)
    with same_dict_Some [OF ab] obtain y where y: "map_of b k = Some y" "py_eq x y" by blast
    with same_dict_Some [OF bc] obtain z where z: "map_of c k = Some z" "py_eq y z" by blast
    have "py_eq x z"
      using JObj.IH [of "(k, x)" x y z] JObj.prems Some y z map_of_SomeD [OF Some] v w
      by (auto simp: wf_obj simp del: wf_json.simps)
    then show ?thesis using Some z by simp
  qed
  then show ?case unfolding w py_eq_obj [OF d(1) d(3)] same_dict_def by blast
next
  case (JList xs)
  then obtain ys zs where "v = JList ys" "w = JList zs" by (auto split: json.splits)
  with JList show ?case
    by (auto simp: list_all_iff list_all2_conv_all_nth) (metis nth_mem)
next
  case (JTuple xs)
  then obtain ys zs where "v = JTuple ys" "w = JTuple zs" by (auto split: json.splits)
  with JTuple show ?case
    by (auto simp: list_all_iff list_all2_conv_all_nth) (metis nth_mem)
qed (auto dest: py_eq_number)

section \<open>Loops over dictionary keys\<close>

text \<open>
  A list of operations that reads and writes only the key \<open>k\<close>: started with \<open>x\<close> there, it returns
  with \<open>y\<close> there.
\<close>

definition effect :: "('a \<Rightarrow> json_dict \<Rightarrow> json_dict result) \<Rightarrow> 'a list \<Rightarrow> string
    \<Rightarrow> json option \<Rightarrow> json option \<Rightarrow> bool" where
  "effect f ops k x y \<longleftrightarrow> (\<forall>d. map_of d k = x \<longrightarrow>
     (\<exists>d'. fold_result f ops d = Inr d' \<and> map_of d' = (map_of d)(k := y)))"

lemma effect_Nil: "effect f [] k x x"
  by (auto simp: effect_def)

lemma effect_keys:
  assumes "distinct ks" and "\<And>k. k \<in> set ks \<Longrightarrow> effect f (A k) k (map_of d k) (y k)"
  shows "\<exists>d'. fold_result f (concat (map A ks)) d = Inr d' \<and>
    map_of d' = (\<lambda>k. if k \<in> set ks then y k else map_of d k)"
  using assms
proof (induction ks arbitrary: d)
  case (Cons k ks)
  then obtain d1 where d1: "fold_result f (A k) d = Inr d1" "map_of d1 = (map_of d)(k := y k)"
    unfolding effect_def by (metis list.set_intros(1))
  have "effect f (A k') k' (map_of d1 k') (y k')" if "k' \<in> set ks" for k'
    using Cons.prems that by (auto simp: d1(2))
  then obtain d2 where "fold_result f (concat (map A ks)) d1 = Inr d2"
    "map_of d2 = (\<lambda>k. if k \<in> set ks then y k else map_of d1 k)"
    using Cons.IH [of d1] Cons.prems(1) by auto
  then show ?case using d1 Cons.prems(1) by (auto simp: fold_result_append fun_eq_iff)
qed auto

text \<open>The operations of a nested object, prefixed by its key.\<close>

lemma effect_under:
  assumes step: "\<And>x c d. x \<in> set ops \<Longrightarrow> map_of d k = Some (JObj c) \<Longrightarrow>
      f (g x) d = bind_result (f x c) (\<lambda>c'. Inr (AList.update k (JObj c') d))"
    and "fold_result f ops c = Inr c'"
  shows "effect f (map g ops) k (Some (JObj c)) (Some (JObj c'))"
  using assms
proof (induction ops arbitrary: c)
  case Nil
  then show ?case by (auto simp: effect_def)
next
  case (Cons x xs)
  from Cons.prems(2) obtain c1 where c1: "f x c = Inr c1" "fold_result f xs c1 = Inr c'"
    by (auto simp: result_simps)
  have tail: "effect f (map g xs) k (Some (JObj c1)) (Some (JObj c'))"
    using Cons.prems(1) by (intro Cons.IH [OF _ c1(2)]) auto
  show ?case
    unfolding effect_def
  proof (intro allI impI)
    fix d
    assume d: "map_of d k = Some (JObj c)"
    let ?d1 = "AList.update k (JObj c1) d"
    have first: "f (g x) d = Inr ?d1" using Cons.prems(1) [OF _ d, of x] c1(1) by simp
    have "map_of ?d1 k = Some (JObj c1)" by (simp add: update_conv')
    then obtain d' where d': "fold_result f (map g xs) ?d1 = Inr d'"
      "map_of d' = (map_of ?d1)(k \<mapsto> JObj c')"
      using tail unfolding effect_def by blast
    have "map_of d' = (map_of d)(k \<mapsto> JObj c')" using d'(2) by (simp add: update_conv')
    then show "\<exists>d'. fold_result f (map g (x # xs)) d = Inr d' \<and>
        map_of d' = (map_of d)(k \<mapsto> JObj c')"
      using first d'(1) by simp
  qed
qed

section \<open>The diff, entry by entry\<close>

definition entry_diff :: "json_dict \<Rightarrow> state_path \<Rightarrow> string \<Rightarrow> json
    \<Rightarrow> leaf_set_op list \<times> state_path list" where
  "entry_diff prev prefix k v =
     (case map_of prev k of
        None \<Rightarrow> ([(prefix @ [k], v)], [])
      | Some old \<Rightarrow>
          (if py_eq old v then ([], [])
           else case (old, v) of
             (JObj o', JObj v') \<Rightarrow> delta_diff o' v' (prefix @ [k])
           | _ \<Rightarrow> ([(prefix @ [k], v)], [])))"

definition dropped_keys :: "json_dict \<Rightarrow> json_dict \<Rightarrow> string list" where
  "dropped_keys prev cur = map fst (filter (\<lambda>(k, _). map_of cur k = None) prev)"

lemma delta_diff_entries:
  "delta_diff prev cur prefix =
     (concat (map (\<lambda>(k, v). fst (entry_diff prev prefix k v)) cur),
      concat (map (\<lambda>(k, v). snd (entry_diff prev prefix k v)) cur)
        @ map (\<lambda>k. prefix @ [k]) (dropped_keys prev cur))"
  by (subst delta_diff.simps)
    (simp add: Let_def entry_diff_def dropped_keys_def comp_def case_prod_unfold)

definition under :: "state_path \<Rightarrow> leaf_set_op list \<times> state_path list
    \<Rightarrow> leaf_set_op list \<times> state_path list" where
  "under q = map_prod (map (\<lambda>(p, v). (q @ p, v))) (map ((@) q))"

lemma delta_diff_under: "delta_diff prev cur (q @ prefix) = under q (delta_diff prev cur prefix)"
proof (induction prev cur prefix rule: delta_diff.induct)
  case (1 prev cur prefix)
  have entry: "entry_diff prev (q @ prefix) k v = under q (entry_diff prev prefix k v)"
    if "(k, v) \<in> set cur" for k v
    using 1 [OF that refl refl]
    by (auto simp: entry_diff_def under_def split: option.splits json.splits)
  then have sets: "concat (map (\<lambda>x. fst (entry_diff prev (q @ prefix) (fst x) (snd x))) cur) =
      concat (map (\<lambda>x. map (\<lambda>p. (q @ fst p, snd p)) (fst (entry_diff prev prefix (fst x) (snd x)))) cur)"
    and unsets: "concat (map (\<lambda>x. snd (entry_diff prev (q @ prefix) (fst x) (snd x))) cur) =
      concat (map (\<lambda>x. map ((@) q) (snd (entry_diff prev prefix (fst x) (snd x)))) cur)"
    by (auto simp: under_def case_prod_unfold intro!: arg_cong [where f = concat])
  show ?case
    by (subst (1 2) delta_diff_entries)
      (simp add: under_def map_concat comp_def case_prod_unfold sets unsets)
qed

lemma delta_diff_Cons: "delta_diff prev cur [k] = under [k] (delta_diff prev cur [])"
  using delta_diff_under [of prev cur "[k]" "[]"] by simp

lemma diff_paths_nonempty:
  "(\<forall>(p, v) \<in> set (fst (delta_diff prev cur prefix)). p \<noteq> []) \<and>
   (\<forall>p \<in> set (snd (delta_diff prev cur prefix)). p \<noteq> [])"
proof (induction prev cur prefix rule: delta_diff.induct)
  case (1 prev cur prefix)
  have "(\<forall>(p, v) \<in> set (fst (entry_diff prev prefix k v)). p \<noteq> []) \<and>
      (\<forall>p \<in> set (snd (entry_diff prev prefix k v)). p \<noteq> [])" if "(k, v) \<in> set cur" for k v
    using 1 [OF that refl refl] by (auto simp: entry_diff_def split: option.splits json.splits)
  then show ?case by (subst (1 2) delta_diff_entries) fastforce
qed

section \<open>A delta takes the client from the old state to the new one\<close>

lemma distinct_set_path: "distinct (map fst d) \<Longrightarrow> set_path d p v = Inr d' \<Longrightarrow> distinct (map fst d')"
  by (induction d p v rule: set_path.induct)
     (auto simp: result_simps distinct_update split: option.splits json.splits)

lemma wf_update: "wf_json (JObj d) \<Longrightarrow> wf_json v \<Longrightarrow> wf_json (JObj (AList.update k v d))"
  by (auto simp: wf_obj distinct_update update_conv' simp del: wf_json.simps split: if_splits)

lemma wf_delete: "wf_json (JObj d) \<Longrightarrow> wf_json (JObj (AList.delete k d))"
  by (auto simp: wf_obj distinct_delete delete_conv' simp del: wf_json.simps split: if_splits)

lemma wf_child: "wf_json (JObj d) \<Longrightarrow> map_of d k = Some v \<Longrightarrow> wf_json v"
  using wf_obj by blast

lemma wf_set_path:
  "wf_json (JObj d) \<Longrightarrow> wf_json v \<Longrightarrow> set_path d p v = Inr d' \<Longrightarrow> wf_json (JObj d')"
proof (induction d p v arbitrary: d' rule: set_path.induct)
  case (3 d k k2 ks v)
  from 3(4) obtain c c' where c: "map_of d k = Some (JObj c)"
    "set_path c (k2 # ks) v = Inr c'" "d' = AList.update k (JObj c') d"
    by (auto simp: result_simps split: option.splits json.splits)
  then show ?case using 3(1) [OF c(1) refl _ 3(3) c(2)] wf_child [OF 3(2) c(1)] wf_update [OF 3(2)]
    by blast
qed (auto simp: wf_update simp del: wf_json.simps)

lemma wf_unset_path:
  "wf_json (JObj d) \<Longrightarrow> unset_path d p = Inr d' \<Longrightarrow> wf_json (JObj d')"
proof (induction d p arbitrary: d' rule: unset_path.induct)
  case (3 d k k2 ks)
  from 3(3) obtain c c' where c: "map_of d k = Some (JObj c)"
    "unset_path c (k2 # ks) = Inr c'" "d' = AList.update k (JObj c') d"
    by (auto simp: result_simps split: option.splits json.splits)
  then show ?case using 3(1) [OF c(1) refl _ c(2)] wf_child [OF 3(2) c(1)] wf_update [OF 3(2)]
    by blast
qed (auto simp: wf_delete simp del: wf_json.simps)

lemma wf_apply_sets:
  "wf_json (JObj d) \<Longrightarrow> \<forall>(p, v) \<in> set ops. wf_json v \<Longrightarrow> apply_sets ops d = Inr d' \<Longrightarrow> wf_json (JObj d')"
  unfolding apply_sets_def
proof (induction ops arbitrary: d)
  case (Cons op ops)
  then show ?case
    by (cases op) (auto simp: result_simps simp del: wf_json.simps dest: wf_set_path)
qed simp

lemma wf_apply_unsets:
  "wf_json (JObj d) \<Longrightarrow> apply_unsets ops d = Inr d' \<Longrightarrow> wf_json (JObj d')"
  unfolding apply_unsets_def
  by (induction ops arbitrary: d) (auto simp: result_simps simp del: wf_json.simps dest: wf_unset_path)

lemma diff_values_wf:
  "wf_json (JObj cur) \<Longrightarrow> \<forall>(p, v) \<in> set (fst (delta_diff prev cur prefix)). wf_json v"
proof (induction prev cur prefix rule: delta_diff.induct)
  case (1 prev cur prefix)
  have "\<forall>(p, v) \<in> set (fst (entry_diff prev prefix k v)). wf_json v" if "(k, v) \<in> set cur" for k v
  proof -
    have "wf_json v" using 1(2) that by (auto simp: list_all_iff)
    then show ?thesis
      using 1(1) [OF that refl refl]
      by (auto simp: entry_diff_def simp del: wf_json.simps split: option.splits json.splits)
  qed
  then show ?case by (subst delta_diff_entries) fastforce
qed

lemma set_path_under:
  "p \<noteq> [] \<Longrightarrow> map_of d k = Some (JObj c) \<Longrightarrow>
   set_path d (k # p) v = bind_result (set_path c p v) (\<lambda>c'. Inr (AList.update k (JObj c') d))"
  by (cases p) auto

lemma unset_path_under:
  "p \<noteq> [] \<Longrightarrow> map_of d k = Some (JObj c) \<Longrightarrow>
   unset_path d (k # p) = bind_result (unset_path c p) (\<lambda>c'. Inr (AList.update k (JObj c') d))"
  by (cases p) auto

abbreviation "set_op \<equiv> (\<lambda>(path, v) d. set_path d path v)"
abbreviation "unset_op \<equiv> (\<lambda>path d. unset_path d path)"

lemma effect_set: "effect set_op [([k], v)] k x (Some v)"
  by (auto simp: effect_def update_conv')

lemma drop_keys:
  "\<exists>d'. fold_result unset_op (map (\<lambda>k. [k]) ks) d = Inr d' \<and>
     map_of d' = (\<lambda>k. if k \<in> set ks then None else map_of d k)"
proof (induction ks arbitrary: d)
  case (Cons k ks)
  obtain d' where "fold_result unset_op (map (\<lambda>k. [k]) ks) (AList.delete k d) = Inr d'"
    "map_of d' = (\<lambda>x. if x \<in> set ks then None else map_of (AList.delete k d) x)"
    using Cons.IH [of "AList.delete k d"] by blast
  then show ?case by (auto simp: delete_conv' fun_eq_iff)
qed simp

definition diff_works :: "json_dict \<Rightarrow> json_dict \<Rightarrow> json_dict \<Rightarrow> bool" where
  "diff_works p c s \<longleftrightarrow> (\<exists>s1 s2. apply_sets (fst (delta_diff p c [])) s = Inr s1 \<and>
     apply_unsets (snd (delta_diff p c [])) s1 = Inr s2 \<and> same_dict s2 c)"

lemma nested_effect:
  assumes works: "diff_works p c s"
    and wf: "wf_json (JObj c)" "wf_json (JObj s)"
  shows "\<exists>y z. effect set_op (fst (delta_diff p c [k])) k (Some (JObj s)) y \<and>
    effect unset_op (snd (delta_diff p c [k])) k y z \<and> rel_option py_eq z (Some (JObj c))"
proof -
  let ?D = "delta_diff p c []"
  obtain s1 s2 where s: "apply_sets (fst ?D) s = Inr s1" "apply_unsets (snd ?D) s1 = Inr s2"
    "same_dict s2 c"
    using works unfolding diff_works_def by blast
  have ne: "\<And>q v. (q, v) \<in> set (fst ?D) \<Longrightarrow> q \<noteq> []" "\<And>q. q \<in> set (snd ?D) \<Longrightarrow> q \<noteq> []"
    using diff_paths_nonempty [of p c "[]"] by auto
  have "effect set_op (map (\<lambda>(q, v). ([k] @ q, v)) (fst ?D)) k (Some (JObj s)) (Some (JObj s1))"
    using s(1) unfolding apply_sets_def
    by (intro effect_under) (auto simp: set_path_under dest!: ne(1))
  moreover have "effect unset_op (map ((@) [k]) (snd ?D)) k (Some (JObj s1)) (Some (JObj s2))"
    using s(2) unfolding apply_unsets_def
    by (intro effect_under) (auto simp: unset_path_under dest!: ne(2))
  moreover have "wf_json (JObj s2)"
    using wf_apply_unsets [OF wf_apply_sets [OF wf(2) diff_values_wf [OF wf(1)] s(1)] s(2)] .
  then have "py_eq (JObj s2) (JObj c)"
    using s(3) wf by (subst py_eq_obj) auto
  ultimately show ?thesis
    by (auto simp: delta_diff_Cons [of p c k] under_def simp del: py_eq.simps intro!: exI)
qed

lemma entry_effect:
  assumes wf: "wf_json (JObj p)" "wf_json v" "wf_json (JObj s)"
    and same: "same_dict s p"
    and nested: "\<And>o' v' s'. map_of p k = Some (JObj o') \<Longrightarrow> v = JObj v' \<Longrightarrow>
      \<not> py_eq (JObj o') v \<Longrightarrow> wf_json (JObj s') \<Longrightarrow> same_dict s' o' \<Longrightarrow> diff_works o' v' s'"
  shows "\<exists>y z. effect set_op (fst (entry_diff p [] k v)) k (map_of s k) y \<and>
    effect unset_op (snd (entry_diff p [] k v)) k y z \<and> rel_option py_eq z (Some v)"
proof (cases "map_of p k")
  case None
  then show ?thesis
    using effect_set [of k v "map_of s k"] effect_Nil [of unset_op k "Some v"] wf(2)
    by (auto simp: entry_diff_def intro!: exI)
next
  case old: (Some old)
  obtain x where x: "map_of s k = Some x" "py_eq x old"
    using same old unfolding same_dict_def by (drule_tac spec [of _ k]) (auto elim: option.rel_cases)
  have wfs: "wf_json x" "wf_json old"
    using wf_child [OF wf(3) x(1)] wf_child [OF wf(1) old] .
  show ?thesis
  proof (cases "py_eq old v")
    case True
    then have "py_eq x v" using py_eq_trans [OF wfs wf(2) x(2)] by blast
    then show ?thesis
      using old True x(1) effect_Nil [of set_op k "Some x"] effect_Nil [of unset_op k "Some x"]
      by (auto simp: entry_diff_def intro!: exI)
  next
    case False
    show ?thesis
    proof (cases "\<exists>o' v'. old = JObj o' \<and> v = JObj v'")
      case True
      then obtain o' v' where ov: "old = JObj o'" "v = JObj v'" by blast
      obtain s' where s': "x = JObj s'" using x(2) ov(1) by (cases x) auto
      have "same_dict s' o'"
        using x(2) wfs unfolding s' ov(1) by (subst (asm) py_eq_obj) auto
      then have "diff_works o' v' s'"
        using nested [of o' v' s'] old ov wfs s' False by blast
      from nested_effect [OF this, of k] wf(2) wfs s' ov have "\<exists>y z.
          effect set_op (fst (delta_diff o' v' [k])) k (Some (JObj s')) y \<and>
          effect unset_op (snd (delta_diff o' v' [k])) k y z \<and> rel_option py_eq z (Some (JObj v'))"
        by blast
      then show ?thesis
        using old ov False x(1) s' by (simp add: entry_diff_def del: py_eq.simps wf_json.simps)
    next
      case plain: False
      then have "entry_diff p [] k v = ([([k], v)], [])"
        using old False by (auto simp: entry_diff_def split: json.splits)
      then show ?thesis
        using effect_set [of k v "map_of s k"] effect_Nil [of unset_op k "Some v"] wf(2)
        by (auto intro!: exI)
    qed
  qed
qed

lemma map_keys_entries:
  "distinct (map fst c) \<Longrightarrow>
   map (\<lambda>(k, v). f k v) c = map (\<lambda>k. f k (the (map_of c k))) (map fst c)"
  by (auto simp: map_of_is_SomeI)

lemma mem_dropped_keys: "k \<in> set (dropped_keys p c) \<longleftrightarrow> map_of p k \<noteq> None \<and> map_of c k = None"
  by (force simp: dropped_keys_def dest: map_of_SomeD split: option.splits
      simp flip: not_None_eq simp: map_of_eq_None_iff)

lemma diff_applies:
  fixes prefix :: state_path
  shows "wf_json (JObj p) \<Longrightarrow> wf_json (JObj c) \<Longrightarrow> wf_json (JObj s) \<Longrightarrow> same_dict s p \<Longrightarrow> diff_works p c s"
proof (induction p c prefix arbitrary: s rule: delta_diff.induct)
  case (1 p c prefix)
  have dc: "distinct (map fst c)" using "1.prems"(2) by simp
  let ?v = "\<lambda>k. the (map_of c k)"
  have "\<exists>y z. effect set_op (fst (entry_diff p [] k (?v k))) k (map_of s k) y \<and>
      effect unset_op (snd (entry_diff p [] k (?v k))) k y z \<and> rel_option py_eq z (map_of c k)"
    if "k \<in> set (map fst c)" for k
  proof -
    have "map_of c k \<noteq> None" using that by (simp add: map_of_eq_None_iff)
    then obtain v where v: "map_of c k = Some v" by blast
    have wfv: "wf_json v" using wf_child [OF "1.prems"(2) v] .
    have "\<exists>y z. effect set_op (fst (entry_diff p [] k v)) k (map_of s k) y \<and>
        effect unset_op (snd (entry_diff p [] k v)) k y z \<and> rel_option py_eq z (Some v)"
    proof (rule entry_effect [OF "1.prems"(1) wfv "1.prems"(3,4)])
      fix o' v' s'
      assume *: "map_of p k = Some (JObj o')" "v = JObj v'" "\<not> py_eq (JObj o') v"
        "wf_json (JObj s')" "same_dict s' o'"
      show "diff_works o' v' s'"
        by (rule "1.IH" [OF map_of_SomeD [OF v] refl refl *(1,3) refl refl *(2)
              wf_child [OF "1.prems"(1) *(1)] wfv [unfolded *(2)] *(4,5)])
    qed
    then show ?thesis using v by simp
  qed
  then obtain Y Z where
    sets: "\<And>k. k \<in> set (map fst c) \<Longrightarrow> effect set_op (fst (entry_diff p [] k (?v k))) k (map_of s k) (Y k)"
    and unsets: "\<And>k. k \<in> set (map fst c) \<Longrightarrow> effect unset_op (snd (entry_diff p [] k (?v k))) k (Y k) (Z k)"
    and rel: "\<And>k. k \<in> set (map fst c) \<Longrightarrow> rel_option py_eq (Z k) (map_of c k)"
    by metis
  let ?D = "delta_diff p c []"
  obtain s1 where s1: "apply_sets (fst ?D) s = Inr s1"
    "map_of s1 = (\<lambda>k. if k \<in> set (map fst c) then Y k else map_of s k)"
    using effect_keys [OF dc sets]
    unfolding delta_diff_entries apply_sets_def fst_conv map_keys_entries [OF dc] by blast
  have unsets': "effect unset_op (snd (entry_diff p [] k (?v k))) k (map_of s1 k) (Z k)"
    if "k \<in> set (map fst c)" for k
    using unsets [OF that] that by (simp add: s1(2))
  obtain s2 where s2: "fold_result unset_op (concat (map (\<lambda>(k, v). snd (entry_diff p [] k v)) c)) s1 = Inr s2"
    "map_of s2 = (\<lambda>k. if k \<in> set (map fst c) then Z k else map_of s1 k)"
    using effect_keys [OF dc unsets'] unfolding map_keys_entries [OF dc] by blast
  obtain s3 where s3: "fold_result unset_op (map (\<lambda>k. [k]) (dropped_keys p c)) s2 = Inr s3"
    "map_of s3 = (\<lambda>k. if k \<in> set (dropped_keys p c) then None else map_of s2 k)"
    using drop_keys by blast
  have "apply_unsets (snd ?D) s1 = Inr s3"
    unfolding delta_diff_entries apply_unsets_def snd_conv fold_result_append s2 bind_result.simps
    using s3(1) by simp
  moreover have "rel_option py_eq (map_of s3 k) (map_of c k)" for k
  proof (cases "k \<in> set (map fst c)")
    case True
    with map_of_eq_None_iff [of c k] have "map_of c k \<noteq> None" by simp
    then show ?thesis using True rel [OF True] by (simp add: s3(2) s2(2) mem_dropped_keys)
  next
    case False
    with map_of_eq_None_iff [of c k] have none: "map_of c k = None" by simp
    have "map_of s3 k = None"
      using False none same_dict_dom [OF "1.prems"(4), of k]
      by (auto simp: s3(2) s2(2) s1(2) mem_dropped_keys)
    then show ?thesis using none by simp
  qed
  ultimately show ?case
    unfolding diff_works_def same_dict_def using s1(1) by blast
qed

lemma entry_paths:
  "(q, w) \<in> set (fst (entry_diff p [] k v)) \<Longrightarrow> \<exists>r. q = k # r"
  "q \<in> set (snd (entry_diff p [] k v)) \<Longrightarrow> \<exists>r. r \<noteq> [] \<and> q = k # r"
  using diff_paths_nonempty
  by (fastforce simp: entry_diff_def delta_diff_Cons under_def split: option.splits if_splits json.splits)+

lemma diff_set_paths:
  assumes "(q, w) \<in> set (fst (delta_diff p c []))"
  shows "\<exists>k r. q = k # r \<and> map_of c k \<noteq> None"
proof -
  obtain k v where kv: "(k, v) \<in> set c" "(q, w) \<in> set (fst (entry_diff p [] k v))"
    using assms unfolding delta_diff_entries by auto
  have "map_of c k \<noteq> None" using kv(1) weak_map_of_SomeI by fastforce
  then show ?thesis using entry_paths(1) [OF kv(2)] by blast
qed

lemma diff_unset_paths:
  assumes "q \<in> set (snd (delta_diff p c []))"
  shows "(\<exists>k r. r \<noteq> [] \<and> q = k # r \<and> map_of c k \<noteq> None) \<or> (\<exists>k \<in> set (dropped_keys p c). q = [k])"
proof (cases "\<exists>k v. (k, v) \<in> set c \<and> q \<in> set (snd (entry_diff p [] k v))")
  case True
  then obtain k v where kv: "(k, v) \<in> set c" "q \<in> set (snd (entry_diff p [] k v))" by blast
  have "map_of c k \<noteq> None" using kv(1) weak_map_of_SomeI by fastforce
  then show ?thesis using entry_paths(2) [OF kv(2)] by blast
next
  case False
  then show ?thesis using assms unfolding delta_diff_entries by auto
qed

lemma dropped_is_unset: "k \<in> set (dropped_keys p c) \<Longrightarrow> [k] \<in> set (snd (delta_diff p c []))"
  unfolding delta_diff_entries by simp

lemma untouched:
  assumes "\<And>x d d'. x \<in> set ops \<Longrightarrow> f x d = Inr d' \<Longrightarrow> map_of d' k = map_of d k"
    and "fold_result f ops d = Inr d'"
  shows "map_of d' k = map_of d k"
  using assms
proof (induction ops arbitrary: d)
  case (Cons x xs)
  then obtain d1 where "f x d = Inr d1" "fold_result f xs d1 = Inr d'" by (auto simp: result_simps)
  then show ?case using Cons by (metis list.set_intros)
qed simp

lemma set_path_other: "set_path d (k # r) v = Inr d' \<Longrightarrow> k' \<noteq> k \<Longrightarrow> map_of d' k' = map_of d k'"
  by (cases r) (auto simp: result_simps update_conv' split: option.splits json.splits)

lemma unset_path_other: "unset_path d (k # r) = Inr d' \<Longrightarrow> k' \<noteq> k \<Longrightarrow> map_of d' k' = map_of d k'"
  by (cases r) (auto simp: result_simps update_conv' delete_conv' split: option.splits json.splits)

lemma untouched_key:
  assumes "diff_works p c s"
    and sets: "\<And>q w. (q, w) \<in> set (fst (delta_diff p c [])) \<Longrightarrow> hd q \<noteq> k"
    and unsets: "\<And>q. q \<in> set (snd (delta_diff p c [])) \<Longrightarrow> hd q \<noteq> k"
  shows "rel_option py_eq (map_of s k) (map_of c k)"
proof -
  obtain s1 s2 where s: "apply_sets (fst (delta_diff p c [])) s = Inr s1"
    "apply_unsets (snd (delta_diff p c [])) s1 = Inr s2" "same_dict s2 c"
    using assms(1) unfolding diff_works_def by blast
  have "map_of s1 k = map_of s k"
  proof (rule untouched [OF _ s(1) [unfolded apply_sets_def]])
    fix op d d'
    assume op: "op \<in> set (fst (delta_diff p c []))" "set_op op d = Inr d'"
    obtain q w where q: "op = (q, w)" by (cases op)
    then obtain k' r where "q = k' # r" using diff_set_paths op(1) by blast
    then show "map_of d' k = map_of d k"
      using sets [of q w] op q set_path_other [of d k' r w d' k] by auto
  qed
  moreover have "map_of s2 k = map_of s1 k"
  proof (rule untouched [OF _ s(2) [unfolded apply_unsets_def]])
    fix q d d'
    assume op: "q \<in> set (snd (delta_diff p c []))" "unset_path d q = Inr d'"
    then obtain k' r where "q = k' # r" using diff_unset_paths by blast
    then show "map_of d' k = map_of d k"
      using unsets [of q] op unset_path_other [of d k' r d' k] by auto
  qed
  ultimately show ?thesis using s(3) unfolding same_dict_def by metis
qed

lemma touch_keys:
  assumes "\<And>q. q \<in> set paths \<Longrightarrow> q \<noteq> [] \<and> map_of cur (hd q) \<noteq> None"
  shows "\<exists>changed'. fold_result (touch_key cur) paths changed = Inr changed' \<and>
    (distinct (map fst changed) \<longrightarrow> distinct (map fst changed')) \<and>
    map_of changed' = (\<lambda>k. if k \<in> hd ` set paths then map_of cur k else map_of changed k)"
  using assms
proof (induction paths arbitrary: changed)
  case (Cons q qs)
  obtain k r v where k: "q = k # r" "map_of cur k = Some v"
    using Cons.prems [of q] by (cases q) auto
  obtain ch where "fold_result (touch_key cur) qs (AList.update k v changed) = Inr ch"
    "distinct (map fst (AList.update k v changed)) \<longrightarrow> distinct (map fst ch)"
    "map_of ch = (\<lambda>x. if x \<in> hd ` set qs then map_of cur x else map_of (AList.update k v changed) x)"
    using Cons.IH [of "AList.update k v changed"] Cons.prems by auto
  moreover have "touch_key cur q changed = Inr (AList.update k v changed)"
    by (simp add: k touch_key_def)
  ultimately show ?case
    using distinct_update [of changed k v] by (auto simp: k update_conv' fun_eq_iff)
qed auto

lemma touch_keys_empty:
  assumes "\<And>q. q \<in> set paths \<Longrightarrow> q \<noteq> [] \<and> map_of cur (hd q) \<noteq> None"
  shows "\<exists>changed. fold_result (touch_key cur) paths [] = Inr changed \<and> distinct (map fst changed) \<and>
    map_of changed = (\<lambda>k. if k \<in> hd ` set paths then map_of cur k else None)"
  using touch_keys [OF assms, of paths "[]"] by (simp cong: if_cong)

lemma map_of_updates:
  "distinct (map fst ch) \<Longrightarrow> map_of (foldl (\<lambda>d (k, v). AList.update k v d) d ch) =
     (\<lambda>k. case map_of ch k of None \<Rightarrow> map_of d k | Some v \<Rightarrow> Some v)"
proof (induction ch arbitrary: d)
  case (Cons kv ch)
  obtain k v where kv: "kv = (k, v)" by (cases kv)
  have "map_of ch k = None" using Cons.prems kv by (simp add: map_of_eq_None_iff)
  then show ?case
    using Cons by (auto simp: kv update_conv' fun_eq_iff split: option.splits)
qed simp

lemma map_of_deletes:
  "map_of (foldl (\<lambda>d k. AList.delete k d) d ks) = (\<lambda>k. if k \<in> set ks then None else map_of d k)"
  by (induction ks arbitrary: d) (auto simp: delete_conv' fun_eq_iff)

lemma wf_updates:
  "wf_json (JObj d) \<Longrightarrow> \<forall>(k, v) \<in> set ch. wf_json v \<Longrightarrow>
   wf_json (JObj (foldl (\<lambda>d (k, v). AList.update k v d) d ch))"
  by (induction ch arbitrary: d) (auto simp del: wf_json.simps simp: wf_update)

lemma wf_deletes: "wf_json (JObj d) \<Longrightarrow> wf_json (JObj (foldl (\<lambda>d k. AList.delete k d) d ks))"
  by (induction ks arbitrary: d) (auto simp del: wf_json.simps simp: wf_delete)

section \<open>The encoder's own copy\<close>

lemma map_of_keyed: "map_of (map (\<lambda>(k, v). (k, f k v)) d) k = map_option (f k) (map_of d k)"
  by (induction d) auto

lemma keys_keyed: "map fst (map (\<lambda>(k, v). (k, f k v)) d) = map fst d"
  by (simp add: case_prod_unfold)

lemma copy_on_write_tree_same:
  "wf_json prev \<Longrightarrow> wf_json cur \<Longrightarrow>
   wf_json (copy_on_write_tree prev cur) \<and> py_eq (copy_on_write_tree prev cur) cur"
proof (induction prev cur rule: copy_on_write_tree.induct)
  case (1 prev cur)
  show ?case
  proof (cases "\<exists>p c. prev = JObj p \<and> cur = JObj c \<and> \<not> py_eq prev cur")
    case False
    then show ?thesis
      using "1.prems" py_eq_refl [of cur]
      by (subst (1 2) copy_on_write_tree.simps) (auto split: json.split simp del: py_eq.simps wf_json.simps)
  next
    case True
    then obtain p c where pc: "prev = JObj p" "cur = JObj c" and ne: "\<not> py_eq prev cur" by blast
    let ?f = "\<lambda>k v. case map_of p k of None \<Rightarrow> v | Some old \<Rightarrow> copy_on_write_tree old v"
    let ?d = "map (\<lambda>(k, v). (k, ?f k v)) c"
    have cow: "copy_on_write_tree prev cur = JObj ?d"
      using ne by (subst copy_on_write_tree.simps) (simp add: pc del: py_eq.simps)
    have each: "wf_json (?f k v) \<and> py_eq (?f k v) v" if "map_of c k = Some v" for k v
    proof -
      have wfv: "wf_json v" using wf_child "1.prems"(2) that pc by blast
      show ?thesis
      proof (cases "map_of p k")
        case None
        then show ?thesis using wfv by simp
      next
        case (Some old)
        then show ?thesis
          using "1.IH" [OF pc(2,1) ne map_of_SomeD [OF that] refl Some] wfv
            wf_child "1.prems"(1) pc by simp
      qed
    qed
    have "distinct (map fst c)" using "1.prems"(2) pc by simp
    then have dist: "distinct (map fst c)" "distinct (map fst ?d)"
      by (simp_all only: keys_keyed)
    have wf: "wf_json (JObj ?d)"
      unfolding wf_obj map_of_keyed using dist(2) each by auto
    have "same_dict ?d c"
      unfolding same_dict_def map_of_keyed
    proof
      fix k
      show "rel_option py_eq (map_option (?f k) (map_of c k)) (map_of c k)"
        using each [of k] by (cases "map_of c k") auto
    qed
    then show ?thesis
      unfolding cow using wf py_eq_obj [OF dist(2,1)] pc by blast
  qed
qed

section \<open>Encoder and client\<close>

definition encoder_ok :: "delta_encoder \<Rightarrow> bool" where
  "encoder_ok e \<longleftrightarrow> 0 \<le> de_delta_count e \<and> 0 \<le> de_transport_seq e \<and>
     (\<forall>prev. de_previous e = Some prev \<longrightarrow> wf_json (JObj prev))"

text \<open>The client's tree is the encoder's previous state, as far as Python's \<open>==\<close> can tell.\<close>

definition agrees :: "delta_encoder \<Rightarrow> json_dict \<Rightarrow> bool" where
  "agrees e s \<longleftrightarrow> wf_json (JObj s) \<and> (\<exists>prev. de_previous e = Some prev \<and> py_eq (JObj s) (JObj prev))"

lemma encoder_new_ok: "encoder_ok (encoder_new interval)"
  by (simp add: encoder_ok_def encoder_new_def)

lemma encoder_reset_ok: "encoder_ok (encoder_reset e)"
  by (simp add: encoder_ok_def encoder_reset_def)

lemma py_eq_dict: "wf_json (JObj a) \<Longrightarrow> wf_json (JObj b) \<Longrightarrow> py_eq (JObj a) (JObj b) \<longleftrightarrow> same_dict a b"
  by (rule py_eq_obj) auto

definition frame_header :: "int option \<Rightarrow> int option \<Rightarrow> int option \<Rightarrow> delta_encoder \<Rightarrow> state_frame" where
  "frame_header sr fr os e =
     \<lparr>fr_type = ''full'', fr_revision = (case sr of None \<Rightarrow> de_transport_seq e + 1 | Some r \<Rightarrow> r),
      fr_transport_seq = de_transport_seq e + 1, fr_contract_version = None,
      fr_provider_generation = None, fr_data = None, fr_changed = None, fr_removed = None,
      fr_delta_version = None, fr_set = None, fr_unset = None, fr_state_revision = sr,
      fr_freshness_revision = fr, fr_observation_seq = os\<rparr>"

definition sends_full :: "bool \<Rightarrow> delta_encoder \<Rightarrow> bool" where
  "sends_full force e \<longleftrightarrow> force \<or> de_previous e = None \<or> de_full_interval e \<le> de_delta_count e"

lemma encode_frame:
  "fst (delta_encode cur force sr fr os e) =
     (if sends_full force e then (frame_header sr fr os e)\<lparr>fr_data := Some cur\<rparr>
      else let D = delta_diff (the (de_previous e)) cur [] in
        (frame_header sr fr os e)\<lparr>fr_type := ''delta'', fr_delta_version := Some LEAF_DELTA_VERSION,
           fr_set := Some (fst D), fr_unset := (if snd D = [] then None else Some (snd D))\<rparr>)"
  by (auto simp: delta_encode_def sends_full_def frame_header_def Let_def case_prod_unfold
      split: option.splits)

lemma encode_counters:
  "de_transport_seq (snd (delta_encode cur force sr fr os e)) = de_transport_seq e + 1"
  "de_full_interval (snd (delta_encode cur force sr fr os e)) = de_full_interval e"
  "de_delta_count (snd (delta_encode cur force sr fr os e)) =
     (if sends_full force e then 0 else de_delta_count e + 1)"
  by (auto simp: delta_encode_def sends_full_def Let_def case_prod_unfold split: option.splits)

lemma cow_is_object:
  "wf_json (JObj p) \<Longrightarrow> wf_json (JObj c) \<Longrightarrow> \<exists>d. copy_on_write_tree (JObj p) (JObj c) = JObj d"
  by (subst copy_on_write_tree.simps) (simp del: py_eq.simps wf_json.simps)

lemma encode_previous:
  assumes "encoder_ok e" and "wf_json (JObj cur)"
  shows "\<exists>d. de_previous (snd (delta_encode cur force sr fr os e)) = Some d \<and> wf_json (JObj d) \<and>
    py_eq (JObj d) (JObj cur)"
proof (cases "de_previous e")
  case None
  then show ?thesis using assms(2) py_eq_refl [OF assms(2)]
    by (simp add: delta_encode_def Let_def case_prod_unfold del: py_eq.simps wf_json.simps)
next
  case (Some p)
  then have p: "wf_json (JObj p)" using assms(1) by (simp add: encoder_ok_def)
  obtain d where d: "copy_on_write_tree (JObj p) (JObj cur) = JObj d"
    using cow_is_object [OF p assms(2)] by blast
  then show ?thesis using copy_on_write_tree_same [OF p assms(2)] Some
    by (simp add: delta_encode_def Let_def case_prod_unfold del: py_eq.simps wf_json.simps)
qed

lemma encode_ok:
  "encoder_ok e \<Longrightarrow> wf_json (JObj cur) \<Longrightarrow> encoder_ok (snd (delta_encode cur force sr fr os e))"
  using encode_previous [of e cur force sr fr os]
  by (auto simp: encoder_ok_def encode_counters simp del: wf_json.simps py_eq.simps)

lemma encode_agrees:
  assumes "encoder_ok e" "wf_json (JObj cur)" "wf_json (JObj s)" "py_eq (JObj s) (JObj cur)"
  shows "agrees (snd (delta_encode cur force sr fr os e)) s"
proof -
  obtain d where d: "de_previous (snd (delta_encode cur force sr fr os e)) = Some d"
    "wf_json (JObj d)" "py_eq (JObj d) (JObj cur)"
    using encode_previous [OF assms(1,2)] by blast
  then have "py_eq (JObj s) (JObj d)"
    using py_eq_trans [OF assms(3,2) d(2) assms(4)] py_eq_sym [OF d(2) assms(2) d(3)] by blast
  then show ?thesis using d(1) assms(3) unfolding agrees_def by blast
qed

text \<open>What a client with the previous state makes of the leaf delta.\<close>

lemma apply_leaf_delta:
  assumes p: "wf_json (JObj p)" and c: "wf_json (JObj c)" and s: "wf_json (JObj s)"
    and eq: "py_eq (JObj s) (JObj p)"
    and frame: "fr_type f = ''delta''" "fr_delta_version f = Some LEAF_DELTA_VERSION"
      "fr_set f = Some (fst (delta_diff p c []))"
      "(case fr_unset f of None \<Rightarrow> [] | Some u \<Rightarrow> u) = snd (delta_diff p c [])"
  shows "\<exists>s'. apply_delta s f = Inr s' \<and> wf_json (JObj s') \<and> py_eq (JObj s') (JObj c)"
proof -
  have "diff_works p c s"
    using diff_applies [OF p c s] eq py_eq_dict [OF s p] by blast
  then obtain s1 s2 where s2: "apply_sets (fst (delta_diff p c [])) s = Inr s1"
    "apply_unsets (snd (delta_diff p c [])) s1 = Inr s2" "same_dict s2 c"
    unfolding diff_works_def by blast
  have wf: "wf_json (JObj s2)"
    using wf_apply_unsets [OF wf_apply_sets [OF s diff_values_wf [OF c] s2(1)] s2(2)] .
  have "apply_delta s f = Inr s2" by (simp add: apply_delta_def frame s2(1,2))
  then show ?thesis using wf py_eq_dict [OF wf c] s2(3) by blast
qed

lemma optional_list: "(case (if xs = [] then None else Some xs) of None \<Rightarrow> [] | Some ys \<Rightarrow> ys) = xs"
  by simp

lemma concat_singletons:
  "set (concat (filter (\<lambda>p. length p = 1) ps)) = {k. [k] \<in> set ps}"
  by (auto simp: length_Suc_conv)

lemma apply_top_level_delta:
  assumes p: "wf_json (JObj p)" and c: "wf_json (JObj c)" and s: "wf_json (JObj s)"
    and eq: "py_eq (JObj s) (JObj p)"
    and frame: "fr_type f = ''delta''" "fr_set f = Some (fst (delta_diff p c []))"
      "(case fr_unset f of None \<Rightarrow> [] | Some u \<Rightarrow> u) = snd (delta_diff p c [])" "fr_removed f = None"
  shows "\<exists>f' s'. top_level_delta f c = Inr f' \<and> apply_delta s f' = Inr s' \<and>
    wf_json (JObj s') \<and> py_eq (JObj s') (JObj c)"
proof -
  let ?D = "delta_diff p c []"
  let ?paths = "map fst (fst ?D) @ filter (\<lambda>q. length q \<noteq> 1) (snd ?D)"
  let ?removed = "concat (filter (\<lambda>q. length q = 1) (snd ?D))"
  have works: "diff_works p c s"
    using diff_applies [OF p c s] eq py_eq_dict [OF s p] by blast
  have paths: "q \<noteq> [] \<and> map_of c (hd q) \<noteq> None" if "q \<in> set ?paths" for q
    using that diff_set_paths diff_unset_paths by fastforce
  obtain ch where ch: "fold_result (touch_key c) ?paths [] = Inr ch" "distinct (map fst ch)"
    "map_of ch = (\<lambda>k. if k \<in> hd ` set ?paths then map_of c k else None)"
    using touch_keys_empty [OF paths] by blast
  let ?f' = "f\<lparr>fr_delta_version := None, fr_set := None, fr_unset := None, fr_changed := Some ch,
    fr_removed := (if ?removed = [] then fr_removed f else Some ?removed)\<rparr>"
  have top: "top_level_delta f c = Inr ?f'"
    using ch(1) frame by (simp add: top_level_delta_def Let_def)
  let ?s' = "foldl (\<lambda>d k. AList.delete k d) (foldl (\<lambda>d (k, v). AList.update k v d) s ch) ?removed"
  have app: "apply_delta s ?f' = Inr ?s'"
  proof -
    have "fr_removed ?f' = (if ?removed = [] then None else Some ?removed)"
      by (simp add: frame(4) del: concat_eq_Nil_conv)
    then have "(case fr_removed ?f' of None \<Rightarrow> [] | Some r \<Rightarrow> r) = ?removed"
      by (simp only: optional_list)
    then show ?thesis using frame(1) by (simp add: apply_delta_def del: concat_eq_Nil_conv if_split)
  qed
  obtain R s' where R: "R = ?removed"
    and s': "s' = foldl (\<lambda>d k. AList.delete k d) (foldl (\<lambda>d (k, v). AList.update k v d) s ch) R" by blast
  have app': "apply_delta s ?f' = Inr s'" using app unfolding s' R .
  have pointwise: "map_of s' = (\<lambda>k. if k \<in> set R then None
      else case map_of ch k of None \<Rightarrow> map_of s k | Some v \<Rightarrow> Some v)"
    by (simp only: s' map_of_deletes map_of_updates [OF ch(2)])
  have removed: "k \<in> set R \<longleftrightarrow> k \<in> set (dropped_keys p c)" for k
    unfolding R concat_singletons using diff_unset_paths [of "[k]" p c] dropped_is_unset [of k p c] by auto
  have "rel_option py_eq (map_of s' k) (map_of c k)" for k
  proof (cases "k \<in> set (dropped_keys p c)")
    case True
    then show ?thesis by (simp add: pointwise removed mem_dropped_keys)
  next
    case kept: False
    show ?thesis
    proof (cases "k \<in> hd ` set ?paths")
      case True
      then obtain q where "q \<in> set ?paths" "k = hd q" by blast
      then have "map_of c k \<noteq> None" using paths by blast
      then obtain v where v: "map_of c k = Some v" by blast
      then have "map_of s' k = Some v" using True kept by (simp add: pointwise removed ch(3) del: set_append set_map set_filter)
      then show ?thesis using v wf_child [OF c v] by simp
    next
      case False
      have "rel_option py_eq (map_of s k) (map_of c k)"
      proof (rule untouched_key [OF works])
        show "hd q \<noteq> k" if "(q, w) \<in> set (fst ?D)" for q w proof -
          have "q \<in> set ?paths" using that by force
          then show ?thesis using False by blast
        qed
        show "hd q \<noteq> k" if q: "q \<in> set (snd ?D)" for q
        proof (cases "length q = 1")
          case True
          then show ?thesis using kept diff_unset_paths [OF q] by auto
        next
          case long: False
          then have "q \<in> set ?paths" using q by simp
          then show ?thesis using False by blast
        qed
      qed
      then show ?thesis using False kept by (simp add: pointwise removed ch(3) del: set_append set_map set_filter)
    qed
  qed
  then have same: "same_dict s' c" by (simp add: same_dict_def)
  have "\<forall>(k, v) \<in> set ch. wf_json v"
    using ch(2,3) wf_child [OF c] map_of_is_SomeI [OF ch(2)] by (fastforce split: if_splits)
  then have wf: "wf_json (JObj s')"
    unfolding s' by (intro wf_deletes wf_updates s)
  show ?thesis using top app' wf py_eq_dict [OF wf c] same by blast
qed

lemma frame_is_full: "fr_type (fst (delta_encode cur force sr fr os e)) = ''full'' \<longleftrightarrow> sends_full force e"
  by (simp add: encode_frame frame_header_def Let_def)

text \<open>What an encoder whose previous state is known may send for \<open>cur\<close>: the whole of it, or the diff.\<close>

definition carries :: "delta_encoder \<Rightarrow> json_dict \<Rightarrow> state_frame \<Rightarrow> bool" where
  "carries e cur f \<longleftrightarrow>
     fr_type f = ''full'' \<and> fr_data f = Some cur \<or>
     fr_type f = ''delta'' \<and> fr_delta_version f = Some LEAF_DELTA_VERSION \<and> fr_removed f = None \<and>
       (\<exists>p. de_previous e = Some p \<and> fr_set f = Some (fst (delta_diff p cur [])) \<and>
         (case fr_unset f of None \<Rightarrow> [] | Some u \<Rightarrow> u) = snd (delta_diff p cur []))"

lemma encode_carries: "carries e cur (fst (delta_encode cur force sr fr os e))"
  by (auto simp: carries_def encode_frame frame_header_def sends_full_def Let_def)

lemma carried_state:
  assumes e: "encoder_ok e" and cur: "wf_json (JObj cur)" and s: "wf_json (JObj s)"
    and f: "carries e cur f" and sync: "agrees e s \<or> fr_type f = ''full''"
  shows "\<exists>s1 f2 s2. apply_delta s f = Inr s1 \<and> top_level_delta f cur = Inr f2 \<and>
    apply_delta s f2 = Inr s2 \<and> wf_json (JObj s1) \<and> py_eq (JObj s1) (JObj cur) \<and>
    wf_json (JObj s2) \<and> py_eq (JObj s2) (JObj cur)"
proof (cases "fr_type f = ''full''")
  case True
  then show ?thesis
    using f cur py_eq_refl [OF cur]
    by (auto simp: carries_def apply_delta_def top_level_delta_def simp del: py_eq.simps wf_json.simps)
next
  case False
  then obtain p where p: "de_previous e = Some p" and shape: "fr_type f = ''delta''"
    "fr_delta_version f = Some LEAF_DELTA_VERSION" "fr_set f = Some (fst (delta_diff p cur []))"
    "(case fr_unset f of None \<Rightarrow> [] | Some u \<Rightarrow> u) = snd (delta_diff p cur [])" "fr_removed f = None"
    using f unfolding carries_def by blast
  have eq: "py_eq (JObj s) (JObj p)" using sync False p by (auto simp: agrees_def)
  have wfp: "wf_json (JObj p)" using e p unfolding encoder_ok_def by blast
  show ?thesis
    using apply_leaf_delta [OF wfp cur s eq shape(1,2,3,4)]
      apply_top_level_delta [OF wfp cur s eq shape(1,3,4,5)] by blast
qed

text \<open>
  C30. Whatever the rendering, a frame takes its client to the encoded state: the client's tree was
  the encoder's previous one (in Python's sense of equality) or the frame is a full one; then both the
  leaf delta and the top-level delta are accepted, they lead to equal trees, and each is the state
  the encoder compares with next.
\<close>

theorem frame_brings_client_to_state:
  assumes "encoder_ok e" and "wf_json (JObj cur)" and "wf_json (JObj s)"
    and "delta_encode cur force sr fr os e = (f, e')"
    and "agrees e s \<or> fr_type f = ''full''"
  shows "\<exists>s1 f2 s2. apply_delta s f = Inr s1 \<and> top_level_delta f cur = Inr f2 \<and>
    apply_delta s f2 = Inr s2 \<and> py_eq (JObj s1) (JObj cur) \<and> py_eq (JObj s1) (JObj s2) \<and>
    agrees e' s1 \<and> agrees e' s2"
proof -
  have e': "e' = snd (delta_encode cur force sr fr os e)" and f: "carries e cur f"
    using assms(4) encode_carries [of e cur force sr fr os] by simp_all
  obtain s1 f2 s2 where *: "apply_delta s f = Inr s1" "top_level_delta f cur = Inr f2"
    "apply_delta s f2 = Inr s2" "wf_json (JObj s1)" "py_eq (JObj s1) (JObj cur)"
    "wf_json (JObj s2)" "py_eq (JObj s2) (JObj cur)"
    using carried_state [OF assms(1,2,3) f assms(5)] by blast
  have "py_eq (JObj s1) (JObj s2)"
    using py_eq_trans [OF *(4) assms(2) *(6) *(5) py_eq_sym [OF *(6) assms(2) *(7)]] .
  then show ?thesis
    using * encode_agrees [OF assms(1,2) *(4,5), of force sr fr os]
      encode_agrees [OF assms(1,2) *(6,7), of force sr fr os] unfolding e' by blast
qed

text \<open>
  A delta carries nothing exactly when the new state equals the previous one: no change is
  missed and no unchanged leaf is sent.
\<close>

theorem delta_is_empty_iff_state_unchanged:
  assumes "encoder_ok e" and "wf_json (JObj cur)" and "de_previous e = Some p"
    and "delta_encode cur force sr fr os e = (f, e')" and "fr_type f = ''delta''"
  shows "fr_set f = Some [] \<and> fr_unset f = None \<longleftrightarrow> py_eq (JObj p) (JObj cur)"
proof -
  have f: "f = fst (delta_encode cur force sr fr os e)" using assms(4) by simp
  have wfp: "wf_json (JObj p)" using assms(1,3) unfolding encoder_ok_def by blast
  have "\<not> sends_full force e" using assms(5) frame_is_full [of cur force sr fr os e] f by auto
  then have "fr_set f = Some [] \<and> fr_unset f = None \<longleftrightarrow> delta_diff p cur [] = ([], [])"
    using assms(3) by (auto simp: f encode_frame frame_header_def Let_def prod_eq_iff)
  also have "\<dots> \<longleftrightarrow> py_eq (JObj p) (JObj cur)"
  proof
    assume "delta_diff p cur [] = ([], [])"
    moreover have "diff_works p cur p" by (rule diff_applies [OF wfp assms(2) wfp same_dict_refl [OF wfp]])
    ultimately show "py_eq (JObj p) (JObj cur)"
      by (simp add: diff_works_def apply_sets_def apply_unsets_def py_eq_dict [OF wfp assms(2)]
          del: py_eq.simps)
  next
    assume "py_eq (JObj p) (JObj cur)"
    then have same: "same_dict p cur" using py_eq_dict [OF wfp assms(2)] by blast
    have "entry_diff p [] k v = ([], [])" if "(k, v) \<in> set cur" for k v
    proof -
      have "map_of cur k = Some v" using that assms(2) by (simp add: map_of_is_SomeI)
      then obtain old where "map_of p k = Some old" "py_eq old v"
        using same same_dict_dom [OF same, of k] same_dict_Some [OF same, of k]
        by (metis not_None_eq option.inject)
      then show ?thesis by (simp add: entry_diff_def)
    qed
    moreover have "dropped_keys p cur = []"
      using mem_dropped_keys [of _ p cur] same_dict_dom [OF same] by (metis list.set_intros(1) neq_Nil_conv)
    ultimately show "delta_diff p cur [] = ([], [])"
      unfolding delta_diff_entries by auto
  qed
  finally show ?thesis .
qed

text \<open>A stream of encodes: each call gives the state and the keyword arguments.\<close>

type_synonym encode_call = "json_dict \<times> bool \<times> int option \<times> int option \<times> int option"

fun encode_all :: "delta_encoder \<Rightarrow> encode_call list \<Rightarrow> state_frame list" where
  "encode_all e [] = []"
| "encode_all e ((cur, force, sr, fr, os) # calls) =
     (let (f, e') = delta_encode cur force sr fr os e in f # encode_all e' calls)"

lemma encode_all_numbered:
  "i < length calls \<Longrightarrow> fr_transport_seq (encode_all e calls ! i) = de_transport_seq e + int i + 1"
proof (induction calls arbitrary: e i)
  case (Cons c calls)
  obtain cur force sr fr os where c: "c = (cur, force, sr, fr, os)" by (cases c)
  show ?case
  proof (cases i)
    case 0
    then show ?thesis by (simp add: c case_prod_unfold encode_frame frame_header_def Let_def)
  next
    case (Suc j)
    then show ?thesis
      using Cons by (simp add: c case_prod_unfold Let_def encode_counters)
  qed
qed simp

lemma next_full_frame:
  "nat (de_full_interval e - de_delta_count e) < length calls \<Longrightarrow>
   \<exists>j \<le> nat (de_full_interval e - de_delta_count e). fr_type (encode_all e calls ! j) = ''full''"
proof (induction calls arbitrary: e)
  case (Cons c calls)
  obtain cur force sr fr os where c: "c = (cur, force, sr, fr, os)" by (cases c)
  let ?e = "snd (delta_encode cur force sr fr os e)"
  show ?case
  proof (cases "sends_full force e")
    case True
    then have "fr_type (encode_all e (c # calls) ! 0) = ''full''"
      using frame_is_full by (simp add: c case_prod_unfold Let_def)
    then show ?thesis by blast
  next
    case False
    then have left: "de_delta_count e < de_full_interval e" by (auto simp: sends_full_def)
    have step: "nat (de_full_interval e - de_delta_count e) =
        Suc (nat (de_full_interval ?e - de_delta_count ?e))"
      using left False by (simp add: encode_counters)
    then obtain j where "j \<le> nat (de_full_interval ?e - de_delta_count ?e)"
      "fr_type (encode_all ?e calls ! j) = ''full''"
      using Cons by auto
    then show ?thesis
      unfolding step by (intro exI [of _ "Suc j"]) (simp add: c case_prod_unfold Let_def)
  qed
qed simp

lemma count_nonneg: "0 \<le> de_delta_count e \<Longrightarrow> 0 \<le> de_delta_count (snd (delta_encode cur force sr fr os e))"
  by (simp add: encode_counters)

text \<open>
  The frames of one encoder carry consecutive transport numbers, the first one after a start or
  a reset is full, and of any \<open>full_state_interval + 1\<close> consecutive frames one is full: a client that
  lost its state is corrected within that many frames.
\<close>

theorem full_frames_keep_coming:
  assumes "0 \<le> de_delta_count e"
  shows "(\<forall>i < length calls. fr_transport_seq (encode_all e calls ! i) = de_transport_seq e + int i + 1) \<and>
    (de_previous e = None \<and> calls \<noteq> [] \<longrightarrow> fr_type (encode_all e calls ! 0) = ''full'') \<and>
    (\<forall>i. i + nat (de_full_interval e) < length calls \<longrightarrow>
      (\<exists>j. i \<le> j \<and> j \<le> i + nat (de_full_interval e) \<and> fr_type (encode_all e calls ! j) = ''full''))"
proof (intro conjI allI impI)
  fix i
  assume "i < length calls"
  then show "fr_transport_seq (encode_all e calls ! i) = de_transport_seq e + int i + 1"
    by (rule encode_all_numbered)
next
  assume "de_previous e = None \<and> calls \<noteq> []"
  then show "fr_type (encode_all e calls ! 0) = ''full''"
    using frame_is_full
    by (cases calls) (auto simp: case_prod_unfold Let_def sends_full_def)
next
  fix i
  assume "i + nat (de_full_interval e) < length calls"
  then show "\<exists>j. i \<le> j \<and> j \<le> i + nat (de_full_interval e) \<and> fr_type (encode_all e calls ! j) = ''full''"
    using assms
  proof (induction i arbitrary: e calls)
    case 0
    then have "nat (de_full_interval e - de_delta_count e) < length calls" by linarith
    then obtain j where j: "j \<le> nat (de_full_interval e - de_delta_count e)"
      "fr_type (encode_all e calls ! j) = ''full''"
      using next_full_frame by blast
    have "j \<le> nat (de_full_interval e)" using j(1) 0(2) by linarith
    then show ?case using j(2) by auto
  next
    case (Suc i)
    then obtain cur force sr fr os calls' where c: "calls = (cur, force, sr, fr, os) # calls'"
      by (cases calls) auto
    let ?e = "snd (delta_encode cur force sr fr os e)"
    obtain j where "i \<le> j" "j \<le> i + nat (de_full_interval e)" "fr_type (encode_all ?e calls' ! j) = ''full''"
      using Suc.IH [of ?e calls'] Suc.prems count_nonneg [OF Suc.prems(2)] by (auto simp: c encode_counters)
    then show ?case
      by (intro exI [of _ "Suc j"]) (simp add: c case_prod_unfold Let_def)
  qed
qed

text \<open>
  Equality is by value: a leaf that turns from the integer 1 to \<open>true\<close> is not sent, and the client
  keeps the integer.
\<close>

lemma type_change_is_not_sent: "delta_diff [(k, JInt 1)] [(k, JBool True)] [] = ([], [])"
  by (simp add: delta_diff_entries entry_diff_def dropped_keys_def)

section \<open>Instances\<close>

definition example_encoder :: delta_encoder where
  "example_encoder = (encoder_new 100)\<lparr>
     de_previous := Some [(''f'', JInt 1), (''rx'', JObj [(''a'', JInt 1), (''b'', JNull)])],
     de_transport_seq := 1\<rparr>"

theorem frame_brings_client_to_state_witness:
  "\<exists>s1 f2 s2.
     apply_delta [(''rx'', JObj [(''b'', JNull), (''a'', JBool True)]), (''f'', JFloat 1)]
       (fst (delta_encode [(''rx'', JObj [(''a'', JInt 2)])] False None None None example_encoder)) = Inr s1 \<and>
     top_level_delta (fst (delta_encode [(''rx'', JObj [(''a'', JInt 2)])] False None None None example_encoder))
       [(''rx'', JObj [(''a'', JInt 2)])] = Inr f2 \<and>
     apply_delta [(''rx'', JObj [(''b'', JNull), (''a'', JBool True)]), (''f'', JFloat 1)] f2 = Inr s2 \<and>
     py_eq (JObj s1) (JObj [(''rx'', JObj [(''a'', JInt 2)])]) \<and> py_eq (JObj s1) (JObj s2) \<and>
     agrees (snd (delta_encode [(''rx'', JObj [(''a'', JInt 2)])] False None None None example_encoder)) s1 \<and>
     agrees (snd (delta_encode [(''rx'', JObj [(''a'', JInt 2)])] False None None None example_encoder)) s2"
  by (rule frame_brings_client_to_state [OF _ _ _ prod.collapse [symmetric]])
     (simp_all add: encoder_ok_def agrees_def example_encoder_def encoder_new_def)

theorem delta_is_empty_iff_state_unchanged_witness:
  "fr_set (fst (delta_encode [(''f'', JInt 2)] False None None None
       ((encoder_new 100)\<lparr>de_previous := Some [(''f'', JInt 1)]\<rparr>))) = Some [] \<and>
   fr_unset (fst (delta_encode [(''f'', JInt 2)] False None None None
       ((encoder_new 100)\<lparr>de_previous := Some [(''f'', JInt 1)]\<rparr>))) = None \<longleftrightarrow>
   py_eq (JObj [(''f'', JInt 1)]) (JObj [(''f'', JInt 2)])"
  by (rule delta_is_empty_iff_state_unchanged [OF _ _ _ prod.collapse [symmetric]])
     (simp_all add: encoder_ok_def encoder_new_def delta_encode_def Let_def case_prod_unfold)

theorem full_frames_keep_coming_witness:
  "\<exists>j. 0 \<le> j \<and> j \<le> 0 + nat 1 \<and>
     fr_type (encode_all ((encoder_new 1)\<lparr>de_previous := Some []\<rparr>)
       [([], False, None, None, None), ([(''f'', JNull)], False, None, None, None)] ! j) = ''full''"
  using full_frames_keep_coming
    [of "(encoder_new 1)\<lparr>de_previous := Some []\<rparr>"
        "[([], False, None, None, None), ([(''f'', JNull)], False, None, None, None)]"]
  by (simp add: encoder_new_def del: encode_all.simps)

end
