(* ===== verification/StateDelivery.thy ===== *)
theory StateDelivery
  imports Buffers DeltaRuns
begin

text \<open>
  The delivery of state updates to control clients: the part of \<open>WebServer\<close> (\<open>web/server.py\<close>) that
  registers control event queues, encodes a snapshot once for all of them, fans the frame out, and
  repairs a queue that overflows; and the sender loop of \<open>ControlHandler\<close>
  (\<open>web/handlers/control.py\<close>).

  \<^item> A queue object is a number; \<open>dl_store\<close> holds the queues, \<open>dl_queues\<close> is \<open>_control_event_queues\<close>
    (a set, here in some order), \<open>dl_leaf\<close> is \<open>_leaf_delta_queues\<close>.
  \<^item> A \<open>public_view\<close> is what one delivery reads of the state store: the public body and the revisions of
    the snapshot it was built from. Building it (\<open>_build_public_state_from_snapshot\<close>) is outside the model,
    so a view is an argument of each operation, and so is the delivery key, which is compared only.
  \<^item> A message keeps its \<open>type\<close>, its \<open>name\<close> and, for a state update, its frame.
\<close>

section \<open>Messages and state\<close>

datatype server_message =
    StateUpdate state_frame
  | NamedEvent string
  | Notification string
  | OtherMessage string

record public_view =
  pv_body :: json_dict
  pv_generation :: int
  pv_state_revision :: int
  pv_freshness_revision :: int
  pv_observation_seq :: int
  pv_key :: "int list"
  pv_observed_ptt :: string

record delivery =
  dl_encoder :: delta_encoder
  dl_last_generation :: "int option"
  dl_last_key :: "int list option"
  dl_store :: "nat \<Rightarrow> server_message bounded_queue"
  dl_queues :: "nat list"
  dl_leaf :: "nat \<Rightarrow> bool"
  dl_sessions :: "string \<Rightarrow> nat option"
  dl_last_ptt :: "string option"
  dl_stopping :: bool

fun is_state_update :: "server_message \<Rightarrow> bool" where
  "is_state_update (StateUpdate _) = True"
| "is_state_update _ = False"

definition is_managed_tx_invalidation :: "server_message \<Rightarrow> bool" where
  "is_managed_tx_invalidation m \<longleftrightarrow> m = NamedEvent ''managed_transmit_changed''"

definition store_queue :: "nat \<Rightarrow> server_message bounded_queue \<Rightarrow> delivery \<Rightarrow> delivery" where
  "store_queue c q d = d\<lparr>dl_store := (dl_store d)(c := q)\<rparr>"

section \<open>Other messages\<close>

definition put_or_drop :: "server_message \<Rightarrow> nat \<Rightarrow> delivery \<Rightarrow> delivery" where
  "put_or_drop m c d =
     (case put_nowait m (dl_store d c) of Inl _ \<Rightarrow> d | Inr q \<Rightarrow> store_queue c q d)"

definition broadcast_message :: "server_message \<Rightarrow> delivery \<Rightarrow> delivery result" where
  "broadcast_message m d = fold_result (\<lambda>c d. Inr (put_or_drop m c d)) (dl_queues d) d"

definition broadcast_event :: "string \<Rightarrow> delivery \<Rightarrow> delivery result" where
  "broadcast_event name = broadcast_message (NamedEvent name)"

definition broadcast_notification :: "string \<Rightarrow> delivery \<Rightarrow> delivery result" where
  "broadcast_notification message = broadcast_message (Notification message)"

definition send_notification_to_session :: "string \<Rightarrow> string \<Rightarrow> delivery \<Rightarrow> bool \<times> delivery" where
  "send_notification_to_session session message d =
     (case dl_sessions d session of
        None \<Rightarrow> (False, d)
      | Some c \<Rightarrow> (case put_nowait (Notification message) (dl_store d c) of
            Inl _ \<Rightarrow> (False, d)
          | Inr q \<Rightarrow> (True, store_queue c q d)))"

definition on_managed_tx_changed :: "delivery \<Rightarrow> delivery result" where
  "on_managed_tx_changed d =
     (if dl_stopping d then Inr d
      else fold_result (\<lambda>c d. bind_result
             (replace_matching_with_front (NamedEvent ''managed_transmit_changed'')
               is_managed_tx_invalidation (dl_store d c))
             (\<lambda>q. Inr (store_queue c q d))) (dl_queues d) d)"

section \<open>Encoding and fan-out\<close>

definition encode_state_update ::
  "public_view \<Rightarrow> bool \<Rightarrow> delivery \<Rightarrow> state_frame \<times> delivery" where
  "encode_state_update v force_full d =
     (let generation_changed = (dl_last_generation d \<noteq> Some (pv_generation v));
          (f, e) = delta_encode (pv_body v) (force_full \<or> generation_changed)
            (Some (pv_state_revision v)) (Some (pv_freshness_revision v))
            (Some (pv_observation_seq v)) (dl_encoder d)
      in (f\<lparr>fr_contract_version := Some 1, fr_provider_generation := Some (pv_generation v)\<rparr>,
          d\<lparr>dl_encoder := e, dl_last_generation := Some (pv_generation v)\<rparr>))"

definition derive_full_state_update :: "state_frame \<Rightarrow> json_dict \<Rightarrow> state_frame" where
  "derive_full_state_update encoded body =
     encoded\<lparr>fr_type := ''full'', fr_changed := None, fr_removed := None, fr_delta_version := None,
             fr_set := None, fr_unset := None, fr_data := Some body\<rparr>"

definition fan_out_one ::
  "state_frame \<Rightarrow> json_dict \<Rightarrow> nat \<Rightarrow> delivery \<Rightarrow> delivery result" where
  "fan_out_one encoded body c d =
     bind_result (if dl_leaf d c then Inr encoded else top_level_delta encoded body) (\<lambda>queued.
       case put_nowait (StateUpdate queued) (dl_store d c) of
         Inr q \<Rightarrow> Inr (store_queue c q d)
       | Inl QueueFull \<Rightarrow>
           bind_result
             (replace_matching_with_front (StateUpdate (derive_full_state_update encoded body))
               is_state_update (dl_store d c))
             (\<lambda>q. Inr (store_queue c q d))
       | Inl err \<Rightarrow> Inl err)"

definition fanout_state_update ::
  "nat list \<Rightarrow> state_frame \<Rightarrow> json_dict \<Rightarrow> delivery \<Rightarrow> delivery result" where
  "fanout_state_update queues encoded body = fold_result (fan_out_one encoded body) queues"

text \<open>
  \<open>_broadcast_state_update\<close> from the snapshot on, when the throttle lets it through; the store's
  generation is the snapshot's (the calls are synchronous). A changed projection of the observed PTT
  is announced first.
\<close>

definition announce_observed_ptt :: "public_view \<Rightarrow> delivery \<Rightarrow> delivery result" where
  "announce_observed_ptt v d =
     (case dl_last_ptt d of
        None \<Rightarrow> Inr (d\<lparr>dl_last_ptt := Some (pv_observed_ptt v)\<rparr>)
      | Some last_ptt \<Rightarrow>
          if pv_observed_ptt v \<noteq> last_ptt
          then on_managed_tx_changed (d\<lparr>dl_last_ptt := Some (pv_observed_ptt v)\<rparr>)
          else Inr d)"

definition broadcast_state_update ::
  "public_view \<Rightarrow> bool \<Rightarrow> nat list option \<Rightarrow> delivery \<Rightarrow> delivery result" where
  "broadcast_state_update v force queues d =
     bind_result (announce_observed_ptt v d) (\<lambda>d.
       if \<not> force \<and> dl_queues d = [] then Inr d
       else if \<not> force \<and> Some (pv_key v) = dl_last_key d then Inr d
       else let (delta, d1) = encode_state_update v False d
         in fanout_state_update (case queues of None \<Rightarrow> dl_queues d1 | Some qs \<Rightarrow> qs) delta (pv_body v)
              (d1\<lparr>dl_last_key := Some (pv_key v)\<rparr>))"

definition publish_control_state_baseline ::
  "public_view \<Rightarrow> nat \<Rightarrow> nat list \<Rightarrow> bool \<Rightarrow> delivery \<Rightarrow> (state_frame \<times> delivery) result" where
  "publish_control_state_baseline v c peers queue_baseline d =
     (let (encoded, d1) = encode_state_update v False d
      in bind_result
           (fanout_state_update peers encoded (pv_body v) (d1\<lparr>dl_last_key := Some (pv_key v)\<rparr>)) (\<lambda>d2.
         let baseline = derive_full_state_update encoded (pv_body v)
         in if queue_baseline
            then bind_result
              (replace_matching_with_front (StateUpdate baseline) is_state_update (dl_store d2 c))
              (\<lambda>q. Inr (baseline, store_queue c q d2))
            else Inr (baseline, d2)))"

definition enqueue_control_state_baseline :: "public_view \<Rightarrow> nat \<Rightarrow> delivery \<Rightarrow> delivery result" where
  "enqueue_control_state_baseline v c d =
     bind_result (publish_control_state_baseline v c (filter (\<lambda>q. q \<noteq> c) (dl_queues d)) True d)
       (\<lambda>(_, d'). Inr d')"

section \<open>Registration\<close>

text \<open>An exception of the baseline leaves the queue unregistered and propagates (the state is dropped
  with it here).\<close>

definition register_control_event_queue ::
  "public_view \<Rightarrow> nat \<Rightarrow> string option \<Rightarrow> bool \<Rightarrow> delivery \<Rightarrow> (state_frame \<times> delivery) result" where
  "register_control_event_queue v c session leaf_deltas d =
     publish_control_state_baseline v c (dl_queues d) False
       (d\<lparr>dl_queues := (if c \<in> set (dl_queues d) then dl_queues d else dl_queues d @ [c]),
          dl_leaf := (if leaf_deltas then (dl_leaf d)(c := True) else dl_leaf d),
          dl_sessions := (case session of None \<Rightarrow> dl_sessions d | Some s \<Rightarrow> (dl_sessions d)(s \<mapsto> c))\<rparr>)"

definition broadcast_ws_client_state_update :: "public_view \<Rightarrow> delivery \<Rightarrow> delivery result" where
  "broadcast_ws_client_state_update v d =
     (if dl_stopping d \<or> dl_queues d = [] then Inr d
      else broadcast_state_update v True (Some (dl_queues d)) d)"

definition unregister_control_event_queue ::
  "public_view \<Rightarrow> nat \<Rightarrow> string option \<Rightarrow> delivery \<Rightarrow> delivery result" where
  "unregister_control_event_queue v c session d =
     (let was_registered = c \<in> set (dl_queues d);
          d1 = d\<lparr>dl_queues := filter (\<lambda>q. q \<noteq> c) (dl_queues d),
                 dl_leaf := (dl_leaf d)(c := False),
                 dl_sessions := (case session of
                     None \<Rightarrow> dl_sessions d
                   | Some s \<Rightarrow> if dl_sessions d s = Some c then (dl_sessions d)(s := None)
                                else dl_sessions d)\<rparr>
      in if was_registered then broadcast_ws_client_state_update v d1 else Inr d1)"

section \<open>The sender loop\<close>

text \<open>\<open>_event_sender_loop\<close>: one message taken; whether the client is sent it depends on the streams it
  subscribed to.\<close>

definition forwards :: "string set \<Rightarrow> server_message \<Rightarrow> bool" where
  "forwards streams m = (case m of
      Notification _ \<Rightarrow> True
    | StateUpdate _ \<Rightarrow> True
    | NamedEvent n \<Rightarrow> n = ''managed_transmit_changed'' \<or> ''state'' \<in> streams \<or> ''events'' \<in> streams
    | OtherMessage _ \<Rightarrow> ''state'' \<in> streams \<or> ''events'' \<in> streams)"

definition sender_step ::
  "string set \<Rightarrow> nat \<Rightarrow> delivery \<Rightarrow> (server_message option \<times> delivery) result" where
  "sender_step streams c d =
     bind_result (get_nowait (dl_store d c)) (\<lambda>(m, q).
       Inr (if forwards streams m then Some m else None, store_queue c q d))"

end
