(* ===== verification/DeliveryRuns.thy ===== *)
theory DeliveryRuns
  imports StateDelivery
begin

text \<open>
  Runs of the state delivery: clients come and go, states are broadcast, other messages share the
  queues, each client's sender takes messages at its own pace. The invariant: a client that reads
  its queue to the end holds the state the shared encoder compares with next.
\<close>

section \<open>The system\<close>

datatype delivery_event =
    Connect nat "string option" bool public_view
  | Disconnect nat "string option" public_view
  | Broadcast public_view bool
  | AskBaseline nat public_view
  | Announce string
  | Notify string
  | NotifySession string string
  | TxChanged
  | Send nat "string set"

text \<open>A client applies the state updates it is sent; other messages do not touch its tree.\<close>

fun client_receive :: "server_message \<Rightarrow> json_dict \<Rightarrow> json_dict result" where
  "client_receive (StateUpdate f) t = apply_delta t f"
| "client_receive _ t = Inr t"

text \<open>
  The server and the clients' trees. A new connection has a new queue of 100 messages
  (\<open>ControlHandler.__init__\<close>) and is sent its baseline directly (\<open>ControlHandler.run\<close>); its sender is
  cancelled before it is unregistered.
\<close>

fun delivery_step ::
  "delivery_event \<Rightarrow> delivery \<times> (nat \<Rightarrow> json_dict) \<Rightarrow> (delivery \<times> (nat \<Rightarrow> json_dict)) result" where
  "delivery_step (Connect c session leaf v) (d, trees) =
     (if c \<in> set (dl_queues d) then Inr (d, trees)
      else bind_result (register_control_event_queue v c session leaf (store_queue c (bq_new 100) d))
        (\<lambda>(baseline, d'). bind_result (apply_delta [] baseline) (\<lambda>t. Inr (d', trees(c := t)))))"
| "delivery_step (Disconnect c session v) (d, trees) =
     bind_result (unregister_control_event_queue v c session d) (\<lambda>d'. Inr (d', trees))"
| "delivery_step (Broadcast v force) (d, trees) =
     bind_result (broadcast_state_update v force None d) (\<lambda>d'. Inr (d', trees))"
| "delivery_step (AskBaseline c v) (d, trees) =
     (if c \<in> set (dl_queues d)
      then bind_result (enqueue_control_state_baseline v c d) (\<lambda>d'. Inr (d', trees))
      else Inr (d, trees))"
| "delivery_step (Announce name) (d, trees) =
     bind_result (broadcast_event name d) (\<lambda>d'. Inr (d', trees))"
| "delivery_step (Notify message) (d, trees) =
     bind_result (broadcast_notification message d) (\<lambda>d'. Inr (d', trees))"
| "delivery_step (NotifySession session message) (d, trees) =
     Inr (snd (send_notification_to_session session message d), trees)"
| "delivery_step TxChanged (d, trees) =
     bind_result (on_managed_tx_changed d) (\<lambda>d'. Inr (d', trees))"
| "delivery_step (Send c streams) (d, trees) =
     (if c \<notin> set (dl_queues d) then Inr (d, trees)
      else case sender_step streams c d of
        Inl _ \<Rightarrow> Inr (d, trees)
      | Inr (sent, d') \<Rightarrow> (case sent of
            None \<Rightarrow> Inr (d', trees)
          | Some m \<Rightarrow> bind_result (client_receive m (trees c)) (\<lambda>t. Inr (d', trees(c := t)))))"

section \<open>Reading a queue to the end\<close>

definition catches_up :: "delta_encoder \<Rightarrow> server_message list \<Rightarrow> json_dict \<Rightarrow> bool" where
  "catches_up e ms t \<longleftrightarrow> (\<exists>t'. fold_result client_receive ms t = Inr t' \<and> agrees e t')"

lemma receive_updates_only:
  "fold_result client_receive ms t = fold_result client_receive (filter is_state_update ms) t"
proof (induction ms arbitrary: t)
  case (Cons m ms)
  have "fold_result client_receive ms = fold_result client_receive (filter is_state_update ms)"
    by (rule ext) (rule Cons.IH)
  then show ?case by (cases m) simp_all
qed simp

lemma catches_up_updates: "filter is_state_update ms = filter is_state_update ms' \<Longrightarrow>
    catches_up e ms t = catches_up e ms' t"
  unfolding catches_up_def using receive_updates_only [of ms] receive_updates_only [of ms'] by simp

definition queue_ok :: "server_message bounded_queue \<Rightarrow> bool" where
  "queue_ok q \<longleftrightarrow> bq_ok q \<and> 0 < bq_maxsize q \<and> length (bq_items q) \<le> bq_unfinished q"

lemma put_ok:
  assumes "queue_ok q" and "put_nowait m q = Inr q'"
  shows "queue_ok q' \<and> bq_items q' = bq_items q @ [m]"
  using assms by (auto simp: queue_ok_def put_nowait_def bq_full_def bq_ok_def split: if_splits)

lemma put_full: "put_nowait m q = Inl err \<Longrightarrow> err = QueueFull \<and> bq_full q"
  by (auto simp: put_nowait_def split: if_splits)

lemma replace_ok:
  assumes q: "queue_ok q"
  shows "\<exists>q'. replace_matching_with_front m P q = Inr q' \<and> queue_ok q' \<and>
    bq_items q' = m # (let kept = filter (\<lambda>x. \<not> P x) (bq_items q)
      in if bq_maxsize q \<le> int (length kept) then tl kept else kept)"
proof -
  from q have q': "bq_ok q" "length (bq_items q) \<le> bq_unfinished q" "0 < bq_maxsize q"
    by (auto simp: queue_ok_def)
  obtain r where r: "replace_matching_with_front m P q = Inr r" "bq_ok r" "bq_maxsize r = bq_maxsize q"
    "let kept = filter (\<lambda>y. \<not> P y) (bq_items q)
     in bq_items r = m # (if 0 < bq_maxsize q \<and> bq_maxsize q \<le> int (length kept)
          then tl kept else kept)"
    "bq_unfinished r + length (bq_items q) = bq_unfinished q + length (bq_items r)"
    using replace_matching_with_front_correct [OF q'(1,2), of m P] by blast
  then show ?thesis using r q' by (auto simp: queue_ok_def Let_def)
qed

section \<open>One pass over the queues\<close>

lemma for_each_queue:
  assumes "distinct cs"
    and "\<And>c d'. c \<in> set cs \<Longrightarrow> dl_store d' c = dl_store d c \<Longrightarrow> dl_leaf d' = dl_leaf d \<Longrightarrow>
      \<exists>q. f c d' = Inr (store_queue c q d') \<and> Q c q"
  shows "\<exists>st. fold_result f cs d = Inr (d\<lparr>dl_store := st\<rparr>) \<and>
    (\<forall>c. if c \<in> set cs then Q c (st c) else st c = dl_store d c)"
  using assms
proof (induction cs arbitrary: d)
  case Nil
  then show ?case by (auto intro!: exI [of _ "dl_store d"])
next
  case (Cons c cs)
  obtain q where q: "f c d = Inr (store_queue c q d)" "Q c q"
    using Cons.prems(2) [of c d] by auto
  let ?d = "store_queue c q d"
  have "\<exists>q'. f c' d' = Inr (store_queue c' q' d') \<and> Q c' q'"
    if "c' \<in> set cs" "dl_store d' c' = dl_store ?d c'" "dl_leaf d' = dl_leaf ?d" for c' d'
    using Cons.prems that by (auto simp: store_queue_def split: if_splits)
  then obtain st where st: "fold_result f cs ?d = Inr (?d\<lparr>dl_store := st\<rparr>)"
    "\<forall>c. if c \<in> set cs then Q c (st c) else st c = dl_store ?d c"
    using Cons.IH [of ?d] Cons.prems(1) by auto
  have "\<forall>x. if x \<in> set (c # cs) then Q x (st x) else st x = dl_store d x"
    using st(2) q(2) Cons.prems(1) by (auto simp: store_queue_def split: if_splits)
  then show ?case using q(1) st(1) by (auto simp: store_queue_def)
qed

section \<open>The invariant\<close>

text \<open>What the encoder compares with next is \<open>body\<close>.\<close>

definition moved_to :: "delta_encoder \<Rightarrow> json_dict \<Rightarrow> bool" where
  "moved_to e body \<longleftrightarrow> encoder_ok e \<and>
     (\<forall>s. wf_json (JObj s) \<longrightarrow> py_eq (JObj s) (JObj body) \<longrightarrow> agrees e s)"

lemma moved_to_self: "moved_to e body \<Longrightarrow> wf_json (JObj body) \<Longrightarrow> agrees e body"
  unfolding moved_to_def using py_eq_refl by blast

lemma encode_state:
  assumes "encoder_ok (dl_encoder d)" and "wf_json (JObj (pv_body v))"
  shows "\<exists>f e. encode_state_update v force d =
      (f, d\<lparr>dl_encoder := e, dl_last_generation := Some (pv_generation v)\<rparr>) \<and>
    carries (dl_encoder d) (pv_body v) f \<and> moved_to e (pv_body v)"
proof -
  let ?E = "delta_encode (pv_body v) (force \<or> dl_last_generation d \<noteq> Some (pv_generation v))
    (Some (pv_state_revision v)) (Some (pv_freshness_revision v)) (Some (pv_observation_seq v)) (dl_encoder d)"
  let ?f = "(fst ?E)\<lparr>fr_contract_version := Some 1, fr_provider_generation := Some (pv_generation v)\<rparr>"
  have "encode_state_update v force d =
      (?f, d\<lparr>dl_encoder := snd ?E, dl_last_generation := Some (pv_generation v)\<rparr>)"
    by (simp add: encode_state_update_def Let_def case_prod_unfold)
  moreover have "carries (dl_encoder d) (pv_body v) ?f"
    using encode_carries by (simp add: carries_def)
  moreover have "moved_to (snd ?E) (pv_body v)"
    using encode_ok encode_agrees assms by (simp add: moved_to_def)
  ultimately show ?thesis by blast
qed

lemma apply_derived_full [simp]: "apply_delta t (derive_full_state_update f body) = Inr body"
  by (simp add: apply_delta_def derive_full_state_update_def)

lemma catches_up_full:
  assumes "moved_to e body" and "wf_json (JObj body)" and "filter is_state_update ms = []"
  shows "catches_up e (StateUpdate (derive_full_state_update f body) # ms) t"
  unfolding catches_up_def receive_updates_only [of "_ # ms"]
  using assms(3) moved_to_self [OF assms(1,2)] by simp

lemma in_set_tl: "x \<in> set (tl xs) \<Longrightarrow> x \<in> set xs"
  by (cases xs) auto

lemma filter_tl_empty: "filter P (tl (filter (\<lambda>x. \<not> P x) xs)) = []"
  by (auto simp: filter_empty_conv dest!: in_set_tl)

lemma replace_state_update:
  assumes q: "queue_ok q" and e': "moved_to e' body" "wf_json (JObj body)"
  shows "\<exists>q'. replace_matching_with_front (StateUpdate (derive_full_state_update f body)) is_state_update q
      = Inr q' \<and> queue_ok q' \<and> catches_up e' (bq_items q') t"
proof -
  obtain q' where q': "replace_matching_with_front (StateUpdate (derive_full_state_update f body))
      is_state_update q = Inr q'" "queue_ok q'"
    "bq_items q' = StateUpdate (derive_full_state_update f body) #
      (let kept = filter (\<lambda>x. \<not> is_state_update x) (bq_items q)
       in if bq_maxsize q \<le> int (length kept) then tl kept else kept)"
    using replace_ok [OF q] by blast
  have "catches_up e' (bq_items q') t"
    unfolding q'(3) by (rule catches_up_full [OF e']) (simp add: Let_def filter_tl_empty)
  then show ?thesis using q'(1,2) by blast
qed

lemma fan_out_one_catches_up:
  assumes e: "encoder_ok e" and body: "wf_json (JObj body)" and f: "carries e body f"
    and q: "queue_ok (dl_store d c)" and t: "catches_up e (bq_items (dl_store d c)) t"
    and e': "moved_to e' body"
  shows "\<exists>q. fan_out_one f body c d = Inr (store_queue c q d) \<and> queue_ok q \<and>
    catches_up e' (bq_items q) t"
proof -
  obtain t' where t': "fold_result client_receive (bq_items (dl_store d c)) t = Inr t'" "agrees e t'"
    using t unfolding catches_up_def by blast
  then have wf: "wf_json (JObj t')" unfolding agrees_def by blast
  obtain s1 f2 s2 where s: "apply_delta t' f = Inr s1" "top_level_delta f body = Inr f2"
    "apply_delta t' f2 = Inr s2" "wf_json (JObj s1)" "py_eq (JObj s1) (JObj body)"
    "wf_json (JObj s2)" "py_eq (JObj s2) (JObj body)"
    using carried_state [OF e body wf f] t'(2) by blast
  obtain queued s3 where queued: "(if dl_leaf d c then Inr f else top_level_delta f body) = Inr queued"
    "apply_delta t' queued = Inr s3" "wf_json (JObj s3)" "py_eq (JObj s3) (JObj body)"
    using s by (cases "dl_leaf d c") auto
  show ?thesis
  proof (cases "put_nowait (StateUpdate queued) (dl_store d c)")
    case (Inr q')
    have "fan_out_one f body c d = Inr (store_queue c q' d)"
      by (simp add: fan_out_one_def queued(1) Inr)
    moreover have "catches_up e' (bq_items q') t"
      using put_ok [OF q Inr] t' queued(2-4) e'
      by (simp add: catches_up_def fold_result_append moved_to_def)
    ultimately show ?thesis using put_ok [OF q Inr] by blast
  next
    case (Inl err)
    obtain q' where q': "replace_matching_with_front (StateUpdate (derive_full_state_update f body))
        is_state_update (dl_store d c) = Inr q'" "queue_ok q'" "catches_up e' (bq_items q') t"
      using replace_state_update [OF q e' body] by blast
    have "fan_out_one f body c d = Inr (store_queue c q' d)"
      using put_full [OF Inl] by (simp add: fan_out_one_def queued(1) Inl q'(1))
    then show ?thesis using q' by blast
  qed
qed

text \<open>The queues in \<open>cs\<close> are good for the encoder \<open>e\<close>.\<close>

definition in_step :: "delta_encoder \<Rightarrow> nat list \<Rightarrow> (nat \<Rightarrow> server_message bounded_queue)
    \<Rightarrow> (nat \<Rightarrow> json_dict) \<Rightarrow> bool" where
  "in_step e cs st trees \<longleftrightarrow>
     (\<forall>c \<in> set cs. queue_ok (st c) \<and> catches_up e (bq_items (st c)) (trees c))"

lemma fanout_in_step:
  assumes "encoder_ok e" and "wf_json (JObj body)" and "carries e body f" and "moved_to e' body"
    and "distinct cs" and "in_step e cs (dl_store d) trees"
  shows "\<exists>st. fanout_state_update cs f body d = Inr (d\<lparr>dl_store := st\<rparr>) \<and> in_step e' cs st trees \<and>
    (\<forall>c. c \<notin> set cs \<longrightarrow> st c = dl_store d c)"
proof -
  have "\<exists>q. fan_out_one f body c d' = Inr (store_queue c q d') \<and>
      queue_ok q \<and> catches_up e' (bq_items q) (trees c)"
    if "c \<in> set cs" "dl_store d' c = dl_store d c" for c d'
    using fan_out_one_catches_up [OF assms(1,2,3) _ _ assms(4), of d' c "trees c"] assms(6) that
    by (simp add: in_step_def)
  then obtain st where "fold_result (fan_out_one f body) cs d = Inr (d\<lparr>dl_store := st\<rparr>)"
    "\<forall>c. if c \<in> set cs then queue_ok (st c) \<and> catches_up e' (bq_items (st c)) (trees c)
      else st c = dl_store d c"
    using for_each_queue [OF assms(5), of d "fan_out_one f body"
        "\<lambda>c q. queue_ok q \<and> catches_up e' (bq_items q) (trees c)"] by blast
  then show ?thesis unfolding fanout_state_update_def in_step_def by (metis (no_types, lifting))
qed

definition delivery_inv :: "delivery \<times> (nat \<Rightarrow> json_dict) \<Rightarrow> bool" where
  "delivery_inv = (\<lambda>(d, trees). encoder_ok (dl_encoder d) \<and> distinct (dl_queues d) \<and>
     in_step (dl_encoder d) (dl_queues d) (dl_store d) trees)"

section \<open>Every operation keeps the clients in step\<close>

lemma in_step_same_updates:
  assumes "in_step e cs st trees"
    and "\<And>c. c \<in> set cs \<Longrightarrow> queue_ok (st' c) \<and>
      filter is_state_update (bq_items (st' c)) = filter is_state_update (bq_items (st c))"
  shows "in_step e cs st' trees"
  unfolding in_step_def
proof
  fix c
  assume c: "c \<in> set cs"
  then have "catches_up e (bq_items (st c)) (trees c)" using assms(1) by (simp add: in_step_def)
  then show "queue_ok (st' c) \<and> catches_up e (bq_items (st' c)) (trees c)"
    using assms(2) [OF c] catches_up_updates by metis
qed

lemma broadcast_message_in_step:
  assumes "distinct (dl_queues d)" and "in_step e (dl_queues d) (dl_store d) trees"
    and "\<not> is_state_update m"
  shows "\<exists>st. broadcast_message m d = Inr (d\<lparr>dl_store := st\<rparr>) \<and> in_step e (dl_queues d) st trees"
proof -
  let ?Q = "\<lambda>c q. queue_ok q \<and>
    filter is_state_update (bq_items q) = filter is_state_update (bq_items (dl_store d c))"
  have "\<exists>q. Inr (put_or_drop m c d') = Inr (store_queue c q d') \<and> ?Q c q"
    if c: "c \<in> set (dl_queues d)" and same: "dl_store d' c = dl_store d c" for c d'
  proof -
    have q: "queue_ok (dl_store d' c)" using assms(2) c same by (simp add: in_step_def)
    show ?thesis
    proof (cases "put_nowait m (dl_store d' c)")
      case (Inl err)
      then have "put_or_drop m c d' = store_queue c (dl_store d' c) d'"
        by (simp add: put_or_drop_def store_queue_def)
      then show ?thesis using q same by metis
    next
      case (Inr q')
      then show ?thesis
        using put_ok [OF q Inr] assms(3) same by (auto simp: put_or_drop_def)
    qed
  qed
  then obtain st where st: "fold_result (\<lambda>c d. Inr (put_or_drop m c d)) (dl_queues d) d = Inr (d\<lparr>dl_store := st\<rparr>)"
    "\<forall>c. if c \<in> set (dl_queues d) then ?Q c (st c) else st c = dl_store d c"
    using for_each_queue [OF assms(1), of d "\<lambda>c d. Inr (put_or_drop m c d)" ?Q] by blast
  have "in_step e (dl_queues d) st trees"
    by (rule in_step_same_updates [OF assms(2)]) (use st(2) in presburger)
  then show ?thesis using st(1) unfolding broadcast_message_def by blast
qed

text \<open>An invalidation finds room, or takes the place of something else than a state update.\<close>

definition room_for_invalidation :: "server_message bounded_queue \<Rightarrow> bool" where
  "room_for_invalidation q \<longleftrightarrow> (bq_full q \<longrightarrow>
     (\<exists>m \<in> set (bq_items q). is_managed_tx_invalidation m) \<or> \<not> is_state_update (hd (bq_items q)))"

lemma invalidation_keeps_updates:
  assumes q: "queue_ok q" and room: "room_for_invalidation q"
  shows "\<exists>q'. replace_matching_with_front (NamedEvent ''managed_transmit_changed'')
      is_managed_tx_invalidation q = Inr q' \<and> queue_ok q' \<and>
    filter is_state_update (bq_items q') = filter is_state_update (bq_items q)"
proof -
  let ?kept = "filter (\<lambda>x. \<not> is_managed_tx_invalidation x) (bq_items q)"
  obtain q' where q': "replace_matching_with_front (NamedEvent ''managed_transmit_changed'')
      is_managed_tx_invalidation q = Inr q'" "queue_ok q'"
    "bq_items q' = NamedEvent ''managed_transmit_changed'' #
      (if bq_maxsize q \<le> int (length ?kept) then tl ?kept else ?kept)"
    using replace_ok [OF q] by (auto simp: Let_def)
  have kept: "filter is_state_update ?kept = filter is_state_update (bq_items q)"
    by (auto simp: is_managed_tx_invalidation_def intro!: filter_cong) 
  have "filter is_state_update (tl ?kept) = filter is_state_update ?kept"
    if full: "bq_maxsize q \<le> int (length ?kept)"
  proof -
    have le: "int (length (bq_items q)) \<le> bq_maxsize q" "0 < bq_maxsize q"
      using q by (auto simp: queue_ok_def bq_ok_def)
    have short: "length ?kept \<le> length (bq_items q)" by simp
    then have "length ?kept = length (bq_items q)" using full le by linarith
    then have all: "?kept = bq_items q"
      by (metis filter_True length_filter_less less_irrefl)
    then have none: "\<not> (\<exists>m \<in> set (bq_items q). is_managed_tx_invalidation m)"
      by (simp only: filter_id_conv) blast
    have "bq_full q" unfolding bq_full_def using full short le by linarith
    then have "\<not> is_state_update (hd (bq_items q))"
      using room none by (simp add: room_for_invalidation_def)
    moreover have "bq_items q \<noteq> []" using full all le(2) by auto
    ultimately show ?thesis unfolding all by (cases "bq_items q") auto
  qed
  then show ?thesis using q' kept by auto
qed

lemma tx_changed_in_step:
  assumes "distinct (dl_queues d)" and "in_step e (dl_queues d) (dl_store d) trees"
    and "\<forall>c \<in> set (dl_queues d). room_for_invalidation (dl_store d c)"
  shows "\<exists>st. on_managed_tx_changed d = Inr (d\<lparr>dl_store := st\<rparr>) \<and> in_step e (dl_queues d) st trees"
proof (cases "dl_stopping d")
  case True
  then show ?thesis using assms(2)
    by (intro exI [of _ "dl_store d"]) (simp add: on_managed_tx_changed_def)
next
  case False
  let ?Q = "\<lambda>c q. queue_ok q \<and>
    filter is_state_update (bq_items q) = filter is_state_update (bq_items (dl_store d c))"
  let ?f = "\<lambda>c d. bind_result (replace_matching_with_front (NamedEvent ''managed_transmit_changed'')
     is_managed_tx_invalidation (dl_store d c)) (\<lambda>q. Inr (store_queue c q d))"
  have "\<exists>q. ?f c d' = Inr (store_queue c q d') \<and> ?Q c q"
    if c: "c \<in> set (dl_queues d)" and same: "dl_store d' c = dl_store d c" for c d'
  proof -
    have q: "queue_ok (dl_store d' c)" "room_for_invalidation (dl_store d' c)"
      using assms(2,3) c same by (simp_all add: in_step_def)
    obtain q' where "replace_matching_with_front (NamedEvent ''managed_transmit_changed'')
        is_managed_tx_invalidation (dl_store d' c) = Inr q'" "queue_ok q'"
      "filter is_state_update (bq_items q') = filter is_state_update (bq_items (dl_store d' c))"
      using invalidation_keeps_updates [OF q] by blast
    then show ?thesis using same by auto
  qed
  then obtain st where st: "fold_result ?f (dl_queues d) d = Inr (d\<lparr>dl_store := st\<rparr>)"
    "\<forall>c. if c \<in> set (dl_queues d) then ?Q c (st c) else st c = dl_store d c"
    using for_each_queue [OF assms(1), of d ?f ?Q] by blast
  have "in_step e (dl_queues d) st trees"
    by (rule in_step_same_updates [OF assms(2)]) (use st(2) in presburger)
  then show ?thesis using st(1) False by (auto simp: on_managed_tx_changed_def)
qed

text \<open>The events that may announce a transmit change, and when.\<close>

definition announces :: "public_view \<Rightarrow> delivery \<Rightarrow> bool" where
  "announces v d \<longleftrightarrow> dl_last_ptt d \<noteq> None \<and> dl_last_ptt d \<noteq> Some (pv_observed_ptt v)"

fun invalidates :: "delivery_event \<Rightarrow> delivery \<Rightarrow> bool" where
  "invalidates TxChanged d = True"
| "invalidates (Broadcast v force) d = announces v d"
| "invalidates (Disconnect c session v) d = announces v d"
| "invalidates _ d = False"

definition all_have_room :: "delivery \<Rightarrow> bool" where
  "all_have_room d \<longleftrightarrow> (\<forall>c \<in> set (dl_queues d). room_for_invalidation (dl_store d c))"

fun event_view :: "delivery_event \<Rightarrow> public_view option" where
  "event_view (Connect c session leaf v) = Some v"
| "event_view (Disconnect c session v) = Some v"
| "event_view (Broadcast v force) = Some v"
| "event_view (AskBaseline c v) = Some v"
| "event_view _ = None"

definition possible :: "delivery_event \<Rightarrow> delivery \<Rightarrow> bool" where
  "possible ev d \<longleftrightarrow> (\<forall>v. event_view ev = Some v \<longrightarrow> wf_json (JObj (pv_body v))) \<and>
     (invalidates ev d \<longrightarrow> all_have_room d)"

lemma announce_in_step:
  assumes inv: "delivery_inv (d, trees)" and room: "announces v d \<longrightarrow> all_have_room d"
  shows "\<exists>st. announce_observed_ptt v d = Inr (d\<lparr>dl_last_ptt := Some (pv_observed_ptt v), dl_store := st\<rparr>) \<and>
    in_step (dl_encoder d) (dl_queues d) st trees"
proof -
  have ok: "distinct (dl_queues d)" "in_step (dl_encoder d) (dl_queues d) (dl_store d) trees"
    using inv by (simp_all add: delivery_inv_def)
  let ?d = "d\<lparr>dl_last_ptt := Some (pv_observed_ptt v)\<rparr>"
  show ?thesis
  proof (cases "announces v d")
    case True
    then have "announce_observed_ptt v d = on_managed_tx_changed ?d"
      by (auto simp: announces_def announce_observed_ptt_def)
    then show ?thesis
      using tx_changed_in_step [of ?d "dl_encoder d" trees] ok room True by (simp add: all_have_room_def)
  next
    case False
    then have "announce_observed_ptt v d = Inr ?d"
      by (cases "dl_last_ptt d") (auto simp: announces_def announce_observed_ptt_def)
    moreover have "?d = ?d\<lparr>dl_store := dl_store d\<rparr>" by simp
    ultimately show ?thesis using ok(2) by metis
  qed
qed

text \<open>One encode, delivered to every registered queue but those the caller serves itself.\<close>

lemma encode_and_fan_out:
  assumes enc: "encoder_ok (dl_encoder d)" and wf: "wf_json (JObj (pv_body v))"
    and cs: "distinct cs" "in_step (dl_encoder d) cs (dl_store d) trees"
  shows "\<exists>f e st. encode_state_update v force d =
      (f, d\<lparr>dl_encoder := e, dl_last_generation := Some (pv_generation v)\<rparr>) \<and>
    fanout_state_update cs f (pv_body v)
      (d\<lparr>dl_encoder := e, dl_last_generation := Some (pv_generation v), dl_last_key := Some (pv_key v)\<rparr>) =
      Inr (d\<lparr>dl_encoder := e, dl_last_generation := Some (pv_generation v), dl_last_key := Some (pv_key v),
             dl_store := st\<rparr>) \<and>
    moved_to e (pv_body v) \<and> in_step e cs st trees \<and> (\<forall>c. c \<notin> set cs \<longrightarrow> st c = dl_store d c)"
proof -
  obtain f e where fe: "encode_state_update v force d =
      (f, d\<lparr>dl_encoder := e, dl_last_generation := Some (pv_generation v)\<rparr>)"
    "carries (dl_encoder d) (pv_body v) f" "moved_to e (pv_body v)"
    using encode_state [OF enc wf] by blast
  let ?d = "d\<lparr>dl_encoder := e, dl_last_generation := Some (pv_generation v), dl_last_key := Some (pv_key v)\<rparr>"
  have "in_step (dl_encoder d) cs (dl_store ?d) trees" using cs(2) by simp
  then obtain st where "fanout_state_update cs f (pv_body v) ?d = Inr (?d\<lparr>dl_store := st\<rparr>)"
    "in_step e cs st trees" "\<forall>c. c \<notin> set cs \<longrightarrow> st c = dl_store ?d c"
    using fanout_in_step [OF enc wf fe(2,3) cs(1)] by blast
  then show ?thesis using fe(1,3) by auto
qed

lemma broadcast_in_step:
  assumes inv: "delivery_inv (d, trees)" and wf: "wf_json (JObj (pv_body v))"
    and room: "announces v d \<longrightarrow> all_have_room d" and cs: "cs = None \<or> cs = Some (dl_queues d)"
  shows "\<exists>d'. broadcast_state_update v force cs d = Inr d' \<and> delivery_inv (d', trees)"
proof -
  obtain st where st: "announce_observed_ptt v d =
      Inr (d\<lparr>dl_last_ptt := Some (pv_observed_ptt v), dl_store := st\<rparr>)"
    "in_step (dl_encoder d) (dl_queues d) st trees"
    using announce_in_step [OF inv room] by blast
  let ?d = "d\<lparr>dl_last_ptt := Some (pv_observed_ptt v), dl_store := st\<rparr>"
  have ok: "encoder_ok (dl_encoder ?d)" "distinct (dl_queues ?d)"
    "in_step (dl_encoder ?d) (dl_queues ?d) (dl_store ?d) trees"
    using inv st(2) by (simp_all add: delivery_inv_def)
  show ?thesis
  proof (cases "\<not> force \<and> (dl_queues d = [] \<or> Some (pv_key v) = dl_last_key d)")
    case True
    then have "broadcast_state_update v force cs d = Inr ?d"
      by (auto simp: broadcast_state_update_def st(1))
    then show ?thesis using ok by (auto simp: delivery_inv_def)
  next
    case False
    obtain f e st' where f: "encode_state_update v False ?d =
        (f, ?d\<lparr>dl_encoder := e, dl_last_generation := Some (pv_generation v)\<rparr>)"
      "fanout_state_update (dl_queues ?d) f (pv_body v)
        (?d\<lparr>dl_encoder := e, dl_last_generation := Some (pv_generation v), dl_last_key := Some (pv_key v)\<rparr>) =
        Inr (?d\<lparr>dl_encoder := e, dl_last_generation := Some (pv_generation v),
                dl_last_key := Some (pv_key v), dl_store := st'\<rparr>)"
      "moved_to e (pv_body v)" "in_step e (dl_queues ?d) st' trees"
      using encode_and_fan_out [OF ok(1) wf ok(2,3), of False] by blast
    have "broadcast_state_update v force cs d =
        Inr (?d\<lparr>dl_encoder := e, dl_last_generation := Some (pv_generation v),
                dl_last_key := Some (pv_key v), dl_store := st'\<rparr>)"
      using False f(1,2) cs by (auto simp: broadcast_state_update_def st(1))
    then show ?thesis using ok(2) f(3,4) by (simp add: delivery_inv_def moved_to_def)
  qed
qed

lemma in_step_subset: "in_step e cs st trees \<Longrightarrow> set cs' \<subseteq> set cs \<Longrightarrow> in_step e cs' st trees"
  by (auto simp: in_step_def)

lemma queue_ok_new: "0 < n \<Longrightarrow> queue_ok (bq_new n)"
  by (simp add: queue_ok_def bq_ok_def bq_new_def)

lemma connect_in_step:
  assumes inv: "delivery_inv (d, trees)" and wf: "wf_json (JObj (pv_body v))"
    and c: "c \<notin> set (dl_queues d)"
  shows "\<exists>f d'. register_control_event_queue v c session leaf (store_queue c (bq_new 100) d) = Inr (f, d') \<and>
    apply_delta [] f = Inr (pv_body v) \<and> delivery_inv (d', trees(c := pv_body v))"
proof -
  let ?d = "(store_queue c (bq_new 100) d)\<lparr>
    dl_queues := dl_queues d @ [c],
    dl_leaf := (if leaf then (dl_leaf d)(c := True) else dl_leaf d),
    dl_sessions := (case session of None \<Rightarrow> dl_sessions d | Some s \<Rightarrow> (dl_sessions d)(s \<mapsto> c))\<rparr>"
  have ok: "encoder_ok (dl_encoder ?d)" "distinct (dl_queues d)"
    "in_step (dl_encoder ?d) (dl_queues d) (dl_store ?d) trees"
    using inv c by (auto simp: delivery_inv_def store_queue_def in_step_def)
  obtain f e st where f: "encode_state_update v False ?d =
      (f, ?d\<lparr>dl_encoder := e, dl_last_generation := Some (pv_generation v)\<rparr>)"
    "fanout_state_update (dl_queues d) f (pv_body v)
      (?d\<lparr>dl_encoder := e, dl_last_generation := Some (pv_generation v), dl_last_key := Some (pv_key v)\<rparr>) =
      Inr (?d\<lparr>dl_encoder := e, dl_last_generation := Some (pv_generation v),
              dl_last_key := Some (pv_key v), dl_store := st\<rparr>)"
    "moved_to e (pv_body v)" "in_step e (dl_queues d) st trees"
    "\<forall>x. x \<notin> set (dl_queues d) \<longrightarrow> st x = dl_store ?d x"
    using encode_and_fan_out [OF ok(1) wf ok(2,3), of False] by blast
  let ?d' = "?d\<lparr>dl_encoder := e, dl_last_generation := Some (pv_generation v),
    dl_last_key := Some (pv_key v), dl_store := st\<rparr>"
  have "register_control_event_queue v c session leaf (store_queue c (bq_new 100) d) =
      Inr (derive_full_state_update f (pv_body v), ?d')"
  proof -
    have "register_control_event_queue v c session leaf (store_queue c (bq_new 100) d) =
        publish_control_state_baseline v c (dl_queues d) False ?d"
      using c by (cases session; cases leaf) (simp_all add: register_control_event_queue_def store_queue_def)
    then show ?thesis
      by (simp only: publish_control_state_baseline_def f(1,2) Let_def prod.case bind_result.simps if_False)
  qed
  moreover have "st c = bq_new 100" using f(5) c by (simp add: store_queue_def)
  then have "in_step e (dl_queues d @ [c]) st (trees(c := pv_body v))"
    using f(4) c moved_to_self [OF f(3) wf] queue_ok_new [of 100]
    by (auto simp: in_step_def catches_up_def bq_new_def)
  then have "delivery_inv (?d', trees(c := pv_body v))"
    using ok(2) c f(3) by (simp add: delivery_inv_def moved_to_def)
  ultimately show ?thesis by auto
qed

lemma disconnect_in_step:
  assumes inv: "delivery_inv (d, trees)" and wf: "wf_json (JObj (pv_body v))"
    and room: "announces v d \<longrightarrow> all_have_room d"
  shows "\<exists>d'. unregister_control_event_queue v c session d = Inr d' \<and> delivery_inv (d', trees)"
proof -
  let ?d = "d\<lparr>dl_queues := filter (\<lambda>q. q \<noteq> c) (dl_queues d), dl_leaf := (dl_leaf d)(c := False),
    dl_sessions := (case session of None \<Rightarrow> dl_sessions d
      | Some s \<Rightarrow> if dl_sessions d s = Some c then (dl_sessions d)(s := None) else dl_sessions d)\<rparr>"
  have inv': "delivery_inv (?d, trees)"
    using inv by (auto simp: delivery_inv_def in_step_def)
  have room': "announces v ?d \<longrightarrow> all_have_room ?d"
    using room by (simp add: announces_def all_have_room_def)
  have "unregister_control_event_queue v c session d =
      (if c \<in> set (dl_queues d) then broadcast_ws_client_state_update v ?d else Inr ?d)"
    by (simp add: unregister_control_event_queue_def)
  moreover have "\<exists>d'. broadcast_ws_client_state_update v ?d = Inr d' \<and> delivery_inv (d', trees)"
  proof (cases "dl_stopping ?d \<or> dl_queues ?d = []")
    case True
    then have "broadcast_ws_client_state_update v ?d = Inr ?d"
      unfolding broadcast_ws_client_state_update_def by presburger
    then show ?thesis using inv' by blast
  next
    case False
    then have "broadcast_ws_client_state_update v ?d = broadcast_state_update v True (Some (dl_queues ?d)) ?d"
      unfolding broadcast_ws_client_state_update_def by presburger
    then show ?thesis using broadcast_in_step [OF inv' wf room', of "Some (dl_queues ?d)" True] by simp
  qed
  ultimately show ?thesis using inv' by auto
qed

lemma baseline_in_step:
  assumes inv: "delivery_inv (d, trees)" and wf: "wf_json (JObj (pv_body v))"
    and c: "c \<in> set (dl_queues d)"
  shows "\<exists>d'. enqueue_control_state_baseline v c d = Inr d' \<and> delivery_inv (d', trees)"
proof -
  let ?peers = "filter (\<lambda>q. q \<noteq> c) (dl_queues d)"
  have ok: "encoder_ok (dl_encoder d)" "distinct ?peers" "distinct (dl_queues d)"
    "in_step (dl_encoder d) ?peers (dl_store d) trees" "queue_ok (dl_store d c)"
    using inv c by (auto simp: delivery_inv_def in_step_def)
  obtain f e st where f: "encode_state_update v False d =
      (f, d\<lparr>dl_encoder := e, dl_last_generation := Some (pv_generation v)\<rparr>)"
    "fanout_state_update ?peers f (pv_body v)
      (d\<lparr>dl_encoder := e, dl_last_generation := Some (pv_generation v), dl_last_key := Some (pv_key v)\<rparr>) =
      Inr (d\<lparr>dl_encoder := e, dl_last_generation := Some (pv_generation v),
             dl_last_key := Some (pv_key v), dl_store := st\<rparr>)"
    "moved_to e (pv_body v)" "in_step e ?peers st trees" "\<forall>x. x \<notin> set ?peers \<longrightarrow> st x = dl_store d x"
    using encode_and_fan_out [OF ok(1) wf ok(2,4), of False] by blast
  let ?d = "d\<lparr>dl_encoder := e, dl_last_generation := Some (pv_generation v),
    dl_last_key := Some (pv_key v), dl_store := st\<rparr>"
  have same: "st c = dl_store d c" using f(5) by simp
  obtain q where q: "replace_matching_with_front (StateUpdate (derive_full_state_update f (pv_body v)))
      is_state_update (st c) = Inr q" "queue_ok q" "catches_up e (bq_items q) (trees c)"
    using replace_state_update [OF ok(5) f(3) wf, of f "trees c"] unfolding same [symmetric] by blast
  have q1: "replace_matching_with_front (StateUpdate (derive_full_state_update f (pv_body v)))
      is_state_update (dl_store ?d c) = Inr q"
    using q(1) by simp
  have "enqueue_control_state_baseline v c d = Inr (store_queue c q ?d)"
    by (simp only: enqueue_control_state_baseline_def publish_control_state_baseline_def f(1,2) q1
        Let_def prod.case bind_result.simps if_True)
  moreover have "delivery_inv (store_queue c q ?d, trees)"
    using f(3,4) ok(3) q(2,3) by (auto simp: delivery_inv_def store_queue_def in_step_def moved_to_def)
  ultimately show ?thesis by blast
qed

lemma session_notification_in_step:
  assumes inv: "delivery_inv (d, trees)"
  shows "delivery_inv (snd (send_notification_to_session session message d), trees)"
proof (cases "dl_sessions d session")
  case None
  then show ?thesis using inv by (simp add: send_notification_to_session_def)
next
  case (Some c)
  show ?thesis
  proof (cases "put_nowait (Notification message) (dl_store d c)")
    case (Inl err)
    then show ?thesis using inv Some by (simp add: send_notification_to_session_def)
  next
    case (Inr q)
    have old: "in_step (dl_encoder d) (dl_queues d) (dl_store d) trees"
      using inv by (simp add: delivery_inv_def)
    have "in_step (dl_encoder d) (dl_queues d) ((dl_store d)(c := q)) trees"
    proof (rule in_step_same_updates [OF old])
      fix x
      assume "x \<in> set (dl_queues d)"
      then have "queue_ok (dl_store d x)" using old by (simp add: in_step_def)
      then show "queue_ok (((dl_store d)(c := q)) x) \<and>
          filter is_state_update (bq_items (((dl_store d)(c := q)) x)) =
          filter is_state_update (bq_items (dl_store d x))"
        using put_ok [OF _ Inr] by (cases "x = c") simp_all
    qed
    then show ?thesis
      using inv Some Inr by (simp add: send_notification_to_session_def delivery_inv_def store_queue_def)
  qed
qed

lemma send_in_step:
  assumes inv: "delivery_inv (d, trees)" and c: "c \<in> set (dl_queues d)"
    and step: "sender_step streams c d = Inr (sent, d')"
  shows "\<exists>t. (case sent of None \<Rightarrow> Inr (trees c) | Some m \<Rightarrow> client_receive m (trees c)) = Inr t \<and>
    delivery_inv (d', trees(c := t))"
proof -
  obtain m rest where items: "bq_items (dl_store d c) = m # rest"
    and sent: "sent = (if forwards streams m then Some m else None)"
    and d': "d' = store_queue c ((dl_store d c)\<lparr>bq_items := rest\<rparr>) d"
    using step by (auto simp: sender_step_def get_nowait_def result_simps split: list.splits)
  have q: "queue_ok (dl_store d c)" and "catches_up (dl_encoder d) (m # rest) (trees c)"
    using inv c items by (auto simp: delivery_inv_def in_step_def)
  then obtain t where t: "client_receive m (trees c) = Inr t" "catches_up (dl_encoder d) rest t"
    by (auto simp: catches_up_def result_simps)
  have "(case sent of None \<Rightarrow> Inr (trees c) | Some m \<Rightarrow> client_receive m (trees c)) = Inr t"
    using t(1) by (cases m) (auto simp: sent forwards_def)
  moreover have "queue_ok ((dl_store d c)\<lparr>bq_items := rest\<rparr>)"
    using q items by (auto simp: queue_ok_def bq_ok_def)
  then have "delivery_inv (d', trees(c := t))"
    using inv t(2) unfolding d' by (auto simp: delivery_inv_def store_queue_def in_step_def)
  ultimately show ?thesis by blast
qed

lemma delivery_step_in_step:
  assumes "delivery_inv (d, trees)" and "possible ev d"
  shows "\<exists>st. delivery_step ev (d, trees) = Inr st \<and> delivery_inv st"
proof (cases ev)
  case (Connect c session leaf v)
  then have wf: "wf_json (JObj (pv_body v))" using assms(2) by (simp add: possible_def)
  show ?thesis
  proof (cases "c \<in> set (dl_queues d)")
    case True
    then show ?thesis using assms(1) Connect by simp
  next
    case False
    then show ?thesis
      using connect_in_step [OF assms(1) wf, of c session leaf] Connect by auto
  qed
next
  case (Disconnect c session v)
  then have wf: "wf_json (JObj (pv_body v))" "announces v d \<longrightarrow> all_have_room d"
    using assms(2) by (simp_all add: possible_def)
  show ?thesis using disconnect_in_step [OF assms(1) wf, of c session] Disconnect by auto
next
  case (Broadcast v force)
  then have wf: "wf_json (JObj (pv_body v))" "announces v d \<longrightarrow> all_have_room d"
    using assms(2) by (simp_all add: possible_def)
  show ?thesis using broadcast_in_step [OF assms(1) wf, of None force] Broadcast by auto
next
  case (AskBaseline c v)
  then have wf: "wf_json (JObj (pv_body v))" using assms(2) by (simp add: possible_def)
  show ?thesis
    using baseline_in_step [OF assms(1) wf, of c] AskBaseline assms(1) by (cases "c \<in> set (dl_queues d)") auto
next
  case (Announce name)
  have "distinct (dl_queues d)" "in_step (dl_encoder d) (dl_queues d) (dl_store d) trees"
    using assms(1) by (simp_all add: delivery_inv_def)
  from broadcast_message_in_step [OF this, of "NamedEvent name"] show ?thesis
    using assms(1) Announce by (auto simp: broadcast_event_def delivery_inv_def)
next
  case (Notify message)
  have "distinct (dl_queues d)" "in_step (dl_encoder d) (dl_queues d) (dl_store d) trees"
    using assms(1) by (simp_all add: delivery_inv_def)
  from broadcast_message_in_step [OF this, of "Notification message"] show ?thesis
    using assms(1) Notify by (auto simp: broadcast_notification_def delivery_inv_def)
next
  case (NotifySession session message)
  then show ?thesis using session_notification_in_step [OF assms(1), of session message] by simp
next
  case TxChanged
  have "distinct (dl_queues d)" "in_step (dl_encoder d) (dl_queues d) (dl_store d) trees"
    "\<forall>c \<in> set (dl_queues d). room_for_invalidation (dl_store d c)"
    using assms TxChanged by (simp_all add: delivery_inv_def possible_def all_have_room_def)
  from tx_changed_in_step [OF this] show ?thesis
    using assms(1) TxChanged by (auto simp: delivery_inv_def)
next
  case (Send c streams)
  show ?thesis
  proof (cases "c \<in> set (dl_queues d)")
    case False
    then show ?thesis using assms(1) Send by simp
  next
    case True
    show ?thesis
    proof (cases "sender_step streams c d")
      case (Inl err)
      then show ?thesis using assms(1) Send by simp
    next
      case (Inr r)
      obtain sent d' where r: "r = (sent, d')" by (cases r)
      obtain t where "(case sent of None \<Rightarrow> Inr (trees c) | Some m \<Rightarrow> client_receive m (trees c)) = Inr t"
        "delivery_inv (d', trees(c := t))"
        using send_in_step [OF assms(1) True, of streams sent d'] Inr r by blast
      then show ?thesis using Send True Inr r by (cases sent) auto
    qed
  qed
qed

text \<open>
  C31. No delivery operation raises and none loses a client: from a state in which every registered
  client, reading its queue to the end, arrives at the encoder's state, each operation returns and leads
  to such a state - a connection, a disconnection, a broadcast that overflows queues, a requested
  baseline, other traffic on the queues and a sender's step. The one exception is a transmit
  invalidation that finds a queue full of other messages with a state update at its head.
\<close>

theorem delivery_keeps_clients_in_step:
  assumes "delivery_inv (d, trees)" and "possible ev d"
  shows "\<exists>st. delivery_step ev (d, trees) = Inr st \<and> delivery_inv st"
  by (rule delivery_step_in_step [OF assms])

section \<open>Runs\<close>

text \<open>The server as \<open>WebServer.__init__\<close> leaves it.\<close>

definition delivery_new :: delivery where
  "delivery_new = \<lparr>dl_encoder = encoder_new 100, dl_last_generation = None, dl_last_key = None,
     dl_store = (\<lambda>_. bq_new 100), dl_queues = [], dl_leaf = (\<lambda>_. False), dl_sessions = (\<lambda>_. None),
     dl_last_ptt = None, dl_stopping = False\<rparr>"

inductive delivery_reachable :: "delivery \<times> (nat \<Rightarrow> json_dict) \<Rightarrow> bool" where
  start: "delivery_reachable (delivery_new, trees)"
| step: "delivery_reachable (d, trees) \<Longrightarrow> possible ev d \<Longrightarrow> delivery_step ev (d, trees) = Inr st \<Longrightarrow>
    delivery_reachable st"

lemma delivery_new_inv: "delivery_inv (delivery_new, trees)"
  by (simp add: delivery_inv_def delivery_new_def encoder_new_ok in_step_def)

lemma delivery_reachable_inv: "delivery_reachable st \<Longrightarrow> delivery_inv st"
proof (induction rule: delivery_reachable.induct)
  case (start trees)
  then show ?case by (rule delivery_new_inv)
next
  case (step d trees ev st)
  then show ?case using delivery_step_in_step [of d trees ev] by auto
qed

lemma drain_queue:
  "delivery_inv (d, trees) \<Longrightarrow> c \<in> set (dl_queues d) \<Longrightarrow> n = length (bq_items (dl_store d c)) \<Longrightarrow>
   \<exists>d' trees'. fold_result delivery_step (replicate n (Send c streams)) (d, trees) = Inr (d', trees') \<and>
     dl_encoder d' = dl_encoder d \<and> bq_items (dl_store d' c) = [] \<and> agrees (dl_encoder d) (trees' c)"
proof (induction n arbitrary: d trees)
  case 0
  then show ?case by (auto simp: delivery_inv_def in_step_def catches_up_def)
next
  case (Suc n)
  then obtain m rest where items: "bq_items (dl_store d c) = m # rest"
    by (cases "bq_items (dl_store d c)") auto
  let ?d = "store_queue c ((dl_store d c)\<lparr>bq_items := rest\<rparr>) d"
  let ?sent = "if forwards streams m then Some m else None"
  have step: "sender_step streams c d = Inr (?sent, ?d)"
    by (simp add: sender_step_def get_nowait_def items)
  obtain t where t: "(case ?sent of None \<Rightarrow> Inr (trees c) | Some m \<Rightarrow> client_receive m (trees c)) = Inr t"
    "delivery_inv (?d, trees(c := t))"
    using send_in_step [OF Suc.prems(1,2) step] by blast
  have "delivery_step (Send c streams) (d, trees) = Inr (?d, trees(c := t))"
    using step t(1) Suc.prems(2) by (cases "forwards streams m") auto
  moreover have d': "c \<in> set (dl_queues ?d)" "n = length (bq_items (dl_store ?d c))"
    "dl_encoder ?d = dl_encoder d"
    using Suc.prems items by (simp_all add: store_queue_def)
  ultimately show ?case
    using Suc.IH [OF t(2) d'(1,2)] unfolding d'(3) replicate_Suc fold_result.simps
    by (simp del: delivery_step.simps add: fun_upd_def)
qed

text \<open>
  C32. In every run of the server (the steps being \<open>possible\<close>: no invalidation meets a full queue with
  a state update at its head), a client whose sender is given as many turns as its queue has
  messages has been sent everything, accepted every frame, and holds the state of the last encode,
  however many broadcasts its queue refused.
\<close>

theorem clients_converge:
  assumes "delivery_reachable (d, trees)" and "c \<in> set (dl_queues d)"
  shows "\<exists>d' trees'. fold_result delivery_step
      (replicate (length (bq_items (dl_store d c))) (Send c streams)) (d, trees) = Inr (d', trees') \<and>
    dl_encoder d' = dl_encoder d \<and> bq_items (dl_store d' c) = [] \<and> agrees (dl_encoder d) (trees' c)"
  using drain_queue [OF delivery_reachable_inv [OF assms(1)] assms(2) refl] .

text \<open>
  C33. The exception is real: when a transmit change is announced and a client's queue is full of
  messages with one pending state update at its head and no earlier announcement, the update is
  thrown away and the client, reading everything it is sent, keeps its old state.
\<close>

theorem invalidation_drops_a_pending_state_update:
  assumes "delivery_inv (d, trees)" and "c \<in> set (dl_queues d)" and "\<not> dl_stopping d"
    and "bq_items (dl_store d c) = StateUpdate f # rest" and "bq_full (dl_store d c)"
    and "\<forall>m \<in> set rest. \<not> is_state_update m \<and> \<not> is_managed_tx_invalidation m"
    and "\<not> agrees (dl_encoder d) (trees c)"
  shows "\<exists>d'. delivery_step TxChanged (d, trees) = Inr (d', trees) \<and> dl_encoder d' = dl_encoder d \<and>
    bq_items (dl_store d' c) = NamedEvent ''managed_transmit_changed'' # rest \<and>
    fold_result client_receive (bq_items (dl_store d' c)) (trees c) = Inr (trees c) \<and>
    \<not> catches_up (dl_encoder d') (bq_items (dl_store d' c)) (trees c)"
proof -
  let ?new = "\<lambda>q. NamedEvent ''managed_transmit_changed'' #
    (let kept = filter (\<lambda>x. \<not> is_managed_tx_invalidation x) (bq_items q)
     in if bq_maxsize q \<le> int (length kept) then tl kept else kept)"
  let ?f = "\<lambda>c d. bind_result (replace_matching_with_front (NamedEvent ''managed_transmit_changed'')
     is_managed_tx_invalidation (dl_store d c)) (\<lambda>q. Inr (store_queue c q d))"
  have dist: "distinct (dl_queues d)" and ok: "\<And>x. x \<in> set (dl_queues d) \<Longrightarrow> queue_ok (dl_store d x)"
    using assms(1) by (simp_all add: delivery_inv_def in_step_def)
  have "\<exists>q. ?f x d' = Inr (store_queue x q d') \<and> bq_items q = ?new (dl_store d x)"
    if "x \<in> set (dl_queues d)" "dl_store d' x = dl_store d x" for x d'
    using replace_ok [OF ok [OF that(1)], of "NamedEvent ''managed_transmit_changed''" is_managed_tx_invalidation]
      that(2) by auto
  then obtain st where st: "fold_result ?f (dl_queues d) d = Inr (d\<lparr>dl_store := st\<rparr>)"
    "\<forall>x. if x \<in> set (dl_queues d) then bq_items (st x) = ?new (dl_store d x) else st x = dl_store d x"
    using for_each_queue [OF dist, of d ?f "\<lambda>x q. bq_items q = ?new (dl_store d x)"] by blast
  have "filter (\<lambda>x. \<not> is_managed_tx_invalidation x) (bq_items (dl_store d c)) = StateUpdate f # rest"
    using assms(4,6) by (auto simp: is_managed_tx_invalidation_def filter_id_conv)
  then have items: "bq_items (st c) = NamedEvent ''managed_transmit_changed'' # rest"
    using st(2) assms(2,4,5) by (auto simp: bq_full_def Let_def)
  have "filter is_state_update rest = []" using assms(6) by (auto simp: filter_empty_conv)
  then have "fold_result client_receive rest (trees c) = Inr (trees c)"
    by (simp add: receive_updates_only [of rest])
  then show ?thesis
    using st(1) items assms(3,7) by (auto simp: on_managed_tx_changed_def catches_up_def)
qed

section \<open>Instances\<close>

definition example_view :: "json_dict \<Rightarrow> public_view" where
  "example_view body = \<lparr>pv_body = body, pv_generation = 1, pv_state_revision = 5,
     pv_freshness_revision = 5, pv_observation_seq = 9, pv_key = [5], pv_observed_ptt = ''rx''\<rparr>"

definition example_update :: state_frame where
  "example_update = \<lparr>fr_type = ''delta'', fr_revision = 2, fr_transport_seq = 2,
     fr_contract_version = Some 1, fr_provider_generation = Some 1, fr_data = None, fr_changed = None,
     fr_removed = None, fr_delta_version = Some 2, fr_set = Some [([''f''], JInt 2)], fr_unset = None,
     fr_state_revision = Some 2, fr_freshness_revision = None, fr_observation_seq = None\<rparr>"

text \<open>One client, 99 notifications behind one pending state update.\<close>

definition example_delivery :: delivery where
  "example_delivery = delivery_new\<lparr>
     dl_encoder := (encoder_new 100)\<lparr>de_previous := Some [(''f'', JInt 2)], de_transport_seq := 2\<rparr>,
     dl_store := (\<lambda>_. \<lparr>bq_items = StateUpdate example_update # replicate 99 (Notification ''n''),
       bq_maxsize = 100, bq_unfinished = 100\<rparr>),
     dl_queues := [0], dl_leaf := (\<lambda>_. True)\<rparr>"

lemma example_delivery_inv: "delivery_inv (example_delivery, \<lambda>_. [(''f'', JInt 1)])"
proof -
  have "filter is_state_update (bq_items (dl_store example_delivery 0)) = [StateUpdate example_update]"
    by (simp add: example_delivery_def)
  then have "fold_result client_receive (bq_items (dl_store example_delivery 0)) [(''f'', JInt 1)] =
      Inr [(''f'', JInt 2)]"
    by (subst receive_updates_only)
      (simp add: apply_delta_def example_update_def LEAF_DELTA_VERSION_def apply_sets_def apply_unsets_def)
  moreover have "agrees (dl_encoder example_delivery) [(''f'', JInt 2)]"
    by (simp add: agrees_def example_delivery_def)
  moreover have "queue_ok (dl_store example_delivery 0)"
    by (simp add: queue_ok_def bq_ok_def example_delivery_def)
  moreover have "encoder_ok (dl_encoder example_delivery)"
    by (simp add: encoder_ok_def example_delivery_def encoder_new_def)
  moreover have "dl_queues example_delivery = [0]" by (simp add: example_delivery_def)
  ultimately show ?thesis by (auto simp: delivery_inv_def in_step_def catches_up_def)
qed

theorem delivery_keeps_clients_in_step_witness:
  "\<exists>st. delivery_step (Broadcast (example_view [(''g'', JNull)]) False)
      (example_delivery, \<lambda>_. [(''f'', JInt 1)]) = Inr st \<and> delivery_inv st"
  by (rule delivery_keeps_clients_in_step [OF example_delivery_inv])
     (simp add: possible_def example_view_def announces_def example_delivery_def delivery_new_def)

theorem clients_converge_witness:
  "\<exists>d trees d' trees'. delivery_step (Connect 7 (Some ''s'') True (example_view [(''f'', JInt 1)]))
      (delivery_new, \<lambda>_. []) = Inr (d, trees) \<and> 7 \<in> set (dl_queues d) \<and>
    fold_result delivery_step (replicate (length (bq_items (dl_store d 7))) (Send 7 {})) (d, trees) =
      Inr (d', trees') \<and> agrees (dl_encoder d) (trees' 7)"
proof -
  let ?v = "example_view [(''f'', JInt 1)]"
  have wf: "wf_json (JObj (pv_body ?v))" by (simp add: example_view_def)
  have "7 \<notin> set (dl_queues delivery_new)" by (simp add: delivery_new_def)
  from connect_in_step [OF delivery_new_inv wf this, of "Some ''s''" True "\<lambda>_. []"]
  obtain f d where d: "register_control_event_queue ?v 7 (Some ''s'') True
      (store_queue 7 (bq_new 100) delivery_new) = Inr (f, d)" "apply_delta [] f = Inr (pv_body ?v)"
    by blast
  let ?trees = "(\<lambda>_. [])(7 := pv_body ?v)"
  have step: "delivery_step (Connect 7 (Some ''s'') True ?v) (delivery_new, \<lambda>_. []) = Inr (d, ?trees)"
    using d by (simp add: delivery_new_def)
  have "possible (Connect 7 (Some ''s'') True ?v) delivery_new"
    using wf by (simp add: possible_def)
  then have reach: "delivery_reachable (d, ?trees)"
    using delivery_reachable.step [OF delivery_reachable.start _ step] by blast
  have "7 \<in> set (dl_queues d)"
    using d(1) by (auto simp: register_control_event_queue_def publish_control_state_baseline_def
        delivery_new_def encode_state_update_def fanout_state_update_def Let_def case_prod_unfold store_queue_def)
  then show ?thesis using step clients_converge [OF reach, of 7 "{}"] by blast
qed

theorem invalidation_drops_a_pending_state_update_witness:
  "\<exists>d'. delivery_step TxChanged (example_delivery, \<lambda>_. [(''f'', JInt 1)]) =
      Inr (d', \<lambda>_. [(''f'', JInt 1)]) \<and>
    \<not> catches_up (dl_encoder d') (bq_items (dl_store d' 0)) [(''f'', JInt 1)]"
  using invalidation_drops_a_pending_state_update
    [OF example_delivery_inv, of 0 example_update "replicate 99 (Notification ''n'')"]
  by (auto simp: example_delivery_def delivery_new_def bq_full_def agrees_def is_managed_tx_invalidation_def)

end
