(* ===== verification/StateStore.thy ===== *)
theory StateStore
  imports TxObservation DeltaCodec "HOL-Library.List_Lexorder" "HOL-Library.Char_ord"
begin

text \<open>
  The store of confirmed radio state, \<open>core/state_store.py\<close> (\<open>StateStore\<close>), with the observation and change
  records of \<open>core/state_pipeline_contracts.py\<close> it works on.

  \<^item> A field value is a JSON tree (a transmit-target dataclass is the tuple of its fields) and \<open>None\<close> is
    \<open>JNull\<close>; \<open>_copy_value\<close> is the identity on values. Python's \<open>!=\<close> on values is \<open>py_eq\<close> negated.
  \<^item> \<open>_entries\<close> is an association list in insertion order. The three caches (\<open>projected\<close> of an entry,
    \<open>_ordered_paths\<close>, \<open>_projected_fields\<close>) are fields of the state and are filled and dropped as in the code.
  \<^item> A reading of the freshness clock is the argument \<open>now\<close>; a call reads it once.
  \<^item> A generation subscriber is a number; its calls are logged in \<open>st_notified\<close>. Subscribers that call
    back into \<open>begin_provider_generation\<close> are not modelled, so the notification queue is empty between calls.
  \<^item> A lookup \<open>self._entries[path]\<close> of a missing path is \<open>KeyError\<close>. Where a call changes the store before
    it may raise, its result comes with the store it leaves, also when it raises.
\<close>

section \<open>Observations and changes\<close>

record field_observation =
  fo_path :: field_path
  fo_value :: json
  fo_source :: source_metadata
  fo_timestamp_monotonic :: time
  fo_quality :: "string list"
  fo_correlation_id :: "string option"
  fo_max_age :: "time option"
  fo_provider_generation :: "int option"
  fo_clock_domain :: "string option"

record field_change =
  fc_path :: field_path
  fc_previous :: json
  fc_current :: json

record change_set =
  cs_revision :: int
  cs_freshness_revision :: int
  cs_observation_seq :: int
  cs_changes :: "field_change list"
  cs_timestamp_monotonic :: time
  cs_sources :: "source_metadata list"
  cs_coalesced :: bool
  cs_observed_paths :: "field_path list"
  cs_freshness_paths :: "field_path list"

record freshness_transition =
  ft_path :: field_path
  ft_previous :: freshness_state
  ft_current :: freshness_state
  ft_freshness_revision :: int
  ft_timestamp_monotonic :: time

record reconciliation_request =
  rq_path :: field_path
  rq_reason :: string
  rq_requested_at_monotonic :: time
  rq_state_revision :: int
  rq_freshness_revision :: int
  rq_max_age :: "time option"

record store_field =
  sf_path :: field_path
  sf_value :: json
  sf_freshness :: freshness_state
  sf_last_observed_monotonic :: time
  sf_max_age :: "time option"
  sf_source :: source_metadata
  sf_quality :: "string list"
  sf_provider_generation :: int
  sf_clock_domain :: "string option"

record store_snapshot =
  sn_state_revision :: int
  sn_freshness_revision :: int
  sn_observation_seq :: int
  sn_generated_at_monotonic :: time
  sn_fields :: "store_field list"
  sn_provider_generation :: int

record snapshot_delta =
  sd_state_revision :: int
  sd_freshness_revision :: int
  sd_observation_seq :: int
  sd_changes :: "field_change list"
  sd_freshness :: "freshness_transition list"
  sd_requests :: "reconciliation_request list"
  sd_requires_full_snapshot :: bool
  sd_provider_generation :: int

section \<open>State\<close>

record field_entry =
  fe_value :: json
  fe_freshness :: freshness_state
  fe_last_observed_monotonic :: time
  fe_max_age :: "time option"
  fe_source :: source_metadata
  fe_quality :: "string list"
  fe_provider_generation :: int
  fe_clock_domain :: "string option"
  fe_projected :: "store_field option"

record relative_retention =
  rr_generation :: int
  rr_required_paths :: "field_path list"
  rr_paths :: "field_path list"
  rr_max_age :: time
  rr_coherence_window :: time
  rr_pending :: "(field_path \<times> field_observation) list"
  rr_expires_at :: "time option"

record state_store =
  st_max_history_count :: int
  st_state_revision :: int
  st_freshness_revision :: int
  st_observation_seq :: int
  st_provider_generation :: int
  st_subscribers :: "nat list"
  st_notified :: "(int \<times> nat) list"
  st_retention :: "relative_retention option"
  st_entries :: "(field_path \<times> field_entry) list"
  st_ordered_paths :: "field_path list option"
  st_projected_fields :: "store_field list option"
  st_history :: "snapshot_delta list"
  st_floor_state_revision :: int
  st_floor_freshness_revision :: int

definition store_new :: "int \<Rightarrow> state_store result" where
  "store_new max_history_count =
     (if max_history_count < 0 then Inl ValueError
      else Inr \<lparr>st_max_history_count = max_history_count, st_state_revision = 0,
        st_freshness_revision = 0, st_observation_seq = 0, st_provider_generation = 0,
        st_subscribers = [], st_notified = [], st_retention = None, st_entries = [],
        st_ordered_paths = None, st_projected_fields = None, st_history = [],
        st_floor_state_revision = 0, st_floor_freshness_revision = 0\<rparr>)"

section \<open>Caches\<close>

definition drop_projection :: "field_path \<Rightarrow> (field_path \<times> field_entry) list
    \<Rightarrow> (field_path \<times> field_entry) list" where
  "drop_projection p es =
     (case map_of es p of None \<Rightarrow> es | Some e \<Rightarrow> AList.update p (e\<lparr>fe_projected := None\<rparr>) es)"

definition entry_changed :: "field_path \<Rightarrow> state_store \<Rightarrow> state_store" where
  "entry_changed p st =
     st\<lparr>st_entries := drop_projection p (st_entries st), st_projected_fields := None\<rparr>"

definition paths_changed :: "state_store \<Rightarrow> state_store" where
  "paths_changed st = st\<lparr>st_ordered_paths := None, st_projected_fields := None\<rparr>"

definition paths_in_order :: "state_store \<Rightarrow> field_path list \<times> state_store" where
  "paths_in_order st =
     (case st_ordered_paths st of
        Some paths \<Rightarrow> (paths, st)
      | None \<Rightarrow>
          let paths = sort_key path_str (map fst (st_entries st))
          in (paths, st\<lparr>st_ordered_paths := Some paths\<rparr>))"

fun is_immutable_value :: "json \<Rightarrow> bool" where
  "is_immutable_value (JList _) = False"
| "is_immutable_value (JObj _) = False"
| "is_immutable_value (JTuple xs) = list_all is_immutable_value xs"
| "is_immutable_value _ = True"

definition field_snapshot_of :: "field_path \<Rightarrow> field_entry \<Rightarrow> store_field" where
  "field_snapshot_of p e =
     \<lparr>sf_path = p, sf_value = fe_value e, sf_freshness = fe_freshness e,
      sf_last_observed_monotonic = fe_last_observed_monotonic e, sf_max_age = fe_max_age e,
      sf_source = fe_source e, sf_quality = fe_quality e,
      sf_provider_generation = fe_provider_generation e, sf_clock_domain = fe_clock_domain e\<rparr>"

definition projected_field :: "field_path \<Rightarrow> field_entry \<Rightarrow> store_field \<times> field_entry" where
  "projected_field p e =
     (case fe_projected e of
        Some item \<Rightarrow> (item, e)
      | None \<Rightarrow>
          let item = field_snapshot_of p e
          in (item, if is_immutable_value (fe_value e) then e\<lparr>fe_projected := Some item\<rparr> else e))"

definition lookup_entry :: "field_path \<Rightarrow> (field_path \<times> field_entry) list \<Rightarrow> field_entry result" where
  "lookup_entry p es = (case map_of es p of None \<Rightarrow> Inl KeyError | Some e \<Rightarrow> Inr e)"

fun project_all :: "field_path list \<Rightarrow> (field_path \<times> field_entry) list
    \<Rightarrow> (store_field list \<times> (field_path \<times> field_entry) list \<times> bool) result" where
  "project_all [] es = Inr ([], es, True)"
| "project_all (p # ps) es =
     bind_result (lookup_entry p es) (\<lambda>e.
       let (item, e') = projected_field p e
       in bind_result (project_all ps (AList.update p e' es)) (\<lambda>(items, es', shared).
            Inr (item # items, es', fe_projected e' \<noteq> None \<and> shared)))"

definition snapshot_fields :: "state_store \<Rightarrow> (store_field list \<times> state_store) result" where
  "snapshot_fields st =
     (case st_projected_fields st of
        Some cached \<Rightarrow> Inr (cached, st)
      | None \<Rightarrow>
          let (paths, st1) = paths_in_order st
          in bind_result (project_all paths (st_entries st1)) (\<lambda>(items, es, shared).
               Inr (items, st1\<lparr>st_entries := es,
                               st_projected_fields := (if shared then Some items else None)\<rparr>)))"

definition take_snapshot :: "time \<Rightarrow> state_store \<Rightarrow> (store_snapshot \<times> state_store) result" where
  "take_snapshot now st =
     bind_result (snapshot_fields st) (\<lambda>(fields, st').
       Inr (\<lparr>sn_state_revision = st_state_revision st', sn_freshness_revision = st_freshness_revision st',
              sn_observation_seq = st_observation_seq st', sn_generated_at_monotonic = now,
              sn_fields = fields, sn_provider_generation = st_provider_generation st'\<rparr>, st'))"

definition store_field_of :: "field_path \<Rightarrow> state_store \<Rightarrow> (store_field \<times> state_store) result" where
  "store_field_of p st =
     bind_result (lookup_entry p (st_entries st)) (\<lambda>e.
       let (item, e') = projected_field p e
       in Inr (item, st\<lparr>st_entries := AList.update p e' (st_entries st)\<rparr>))"

section \<open>History\<close>

text \<open>The pruning loop: it pops as long as there are too many entries.\<close>

fun history_prune_loop :: "int \<Rightarrow> snapshot_delta list \<Rightarrow> int \<Rightarrow> int \<Rightarrow> snapshot_delta list \<times> int \<times> int" where
  "history_prune_loop limit [] state_floor freshness_floor = ([], state_floor, freshness_floor)"
| "history_prune_loop limit (d # ds) state_floor freshness_floor =
     (if int (length (d # ds)) > limit
      then history_prune_loop limit ds
        (if sd_changes d \<noteq> [] then max state_floor (sd_state_revision d) else state_floor)
        (if sd_freshness d \<noteq> [] \<or> sd_requests d \<noteq> []
         then max freshness_floor (sd_freshness_revision d) else freshness_floor)
      else (d # ds, state_floor, freshness_floor))"

definition prune_history :: "state_store \<Rightarrow> state_store" where
  "prune_history st =
     (let (h, sf, ff) = history_prune_loop (st_max_history_count st) (st_history st)
            (st_floor_state_revision st) (st_floor_freshness_revision st)
      in st\<lparr>st_history := h, st_floor_state_revision := sf, st_floor_freshness_revision := ff\<rparr>)"

definition append_history ::
  "field_change list \<Rightarrow> freshness_transition list \<Rightarrow> reconciliation_request list
     \<Rightarrow> state_store \<Rightarrow> state_store" where
  "append_history changes freshness requests st =
     (if changes = [] \<and> freshness = [] \<and> requests = [] then st
      else prune_history (st\<lparr>st_history := st_history st @
        [\<lparr>sd_state_revision = st_state_revision st, sd_freshness_revision = st_freshness_revision st,
          sd_observation_seq = st_observation_seq st, sd_changes = changes, sd_freshness = freshness,
          sd_requests = requests, sd_requires_full_snapshot = False,
          sd_provider_generation = st_provider_generation st\<rparr>]\<rparr>))"

definition requires_full_snapshot :: "store_snapshot \<Rightarrow> state_store \<Rightarrow> bool" where
  "requires_full_snapshot sn st \<longleftrightarrow>
     sn_provider_generation sn \<noteq> st_provider_generation st \<or>
     sn_state_revision sn < st_floor_state_revision st \<or>
     sn_freshness_revision sn < st_floor_freshness_revision st"

definition delta_since :: "store_snapshot \<Rightarrow> state_store \<Rightarrow> snapshot_delta" where
  "delta_since sn st =
     (let full = requires_full_snapshot sn st
      in \<lparr>sd_state_revision = st_state_revision st, sd_freshness_revision = st_freshness_revision st,
          sd_observation_seq = st_observation_seq st,
          sd_changes = (if full then [] else concat (map sd_changes
            (filter (\<lambda>d. sd_state_revision d > sn_state_revision sn) (st_history st)))),
          sd_freshness = (if full then [] else concat (map (\<lambda>d.
            filter (\<lambda>t. ft_freshness_revision t > sn_freshness_revision sn) (sd_freshness d))
            (st_history st))),
          sd_requests = (if full then [] else concat (map (\<lambda>d.
            filter (\<lambda>r. rq_freshness_revision r > sn_freshness_revision sn) (sd_requests d))
            (st_history st))),
          sd_requires_full_snapshot = full,
          sd_provider_generation = st_provider_generation st\<rparr>)"

section \<open>One observation\<close>

definition empty_changeset :: "time \<Rightarrow> state_store \<Rightarrow> change_set" where
  "empty_changeset timestamp st =
     \<lparr>cs_revision = st_state_revision st, cs_freshness_revision = st_freshness_revision st,
      cs_observation_seq = st_observation_seq st, cs_changes = [], cs_timestamp_monotonic = timestamp,
      cs_sources = [], cs_coalesced = False, cs_observed_paths = [], cs_freshness_paths = []\<rparr>"

definition is_current_observation :: "field_observation \<Rightarrow> state_store \<Rightarrow> bool" where
  "is_current_observation ob st \<longleftrightarrow> fo_provider_generation ob = Some (st_provider_generation st)"

definition older_than_entry :: "field_observation \<Rightarrow> field_entry \<Rightarrow> bool" where
  "older_than_entry ob e \<longleftrightarrow>
     fo_provider_generation ob = Some (fe_provider_generation e) \<and> fo_clock_domain ob \<noteq> None \<and>
     fo_clock_domain ob = fe_clock_domain e \<and>
     fo_timestamp_monotonic ob < fe_last_observed_monotonic e"

definition older_than_observation :: "field_observation \<Rightarrow> field_observation \<Rightarrow> bool" where
  "older_than_observation ob previous \<longleftrightarrow>
     fo_provider_generation ob = fo_provider_generation previous \<and> fo_clock_domain ob \<noteq> None \<and>
     fo_clock_domain ob = fo_clock_domain previous \<and>
     fo_timestamp_monotonic ob < fo_timestamp_monotonic previous"

definition mark_fresh :: "field_path \<Rightarrow> freshness_state \<Rightarrow> time \<Rightarrow> state_store
    \<Rightarrow> freshness_transition option \<times> state_store" where
  "mark_fresh p previous timestamp st =
     (if previous = Fresh_FRESH then (None, st)
      else (Some \<lparr>ft_path = p, ft_previous = previous, ft_current = Fresh_FRESH,
                  ft_freshness_revision = st_freshness_revision st + 1,
                  ft_timestamp_monotonic = timestamp\<rparr>,
            st\<lparr>st_freshness_revision := st_freshness_revision st + 1\<rparr>))"

definition entry_of_observation :: "int \<Rightarrow> field_observation \<Rightarrow> field_entry" where
  "entry_of_observation generation ob =
     \<lparr>fe_value = fo_value ob, fe_freshness = Fresh_FRESH,
      fe_last_observed_monotonic = fo_timestamp_monotonic ob, fe_max_age = fo_max_age ob,
      fe_source = fo_source ob, fe_quality = fo_quality ob, fe_provider_generation = generation,
      fe_clock_domain = fo_clock_domain ob, fe_projected = None\<rparr>"

definition apply_one :: "field_observation \<Rightarrow> state_store \<Rightarrow> change_set \<times> state_store" where
  "apply_one ob st =
     (let previous_entry = map_of (st_entries st) (fo_path ob) in
      if \<not> is_current_observation ob st
         \<or> (case previous_entry of None \<Rightarrow> False | Some e \<Rightarrow> older_than_entry ob e)
      then (empty_changeset (fo_timestamp_monotonic ob) st, st)
      else
        let st1 = st\<lparr>st_observation_seq := st_observation_seq st + 1\<rparr>;
            previous_freshness = (case previous_entry of None \<Rightarrow> Fresh_UNKNOWN | Some e \<Rightarrow> fe_freshness e);
            (transition, st2) = mark_fresh (fo_path ob) previous_freshness (fo_timestamp_monotonic ob) st1;
            previous_value = (case previous_entry of None \<Rightarrow> JNull | Some e \<Rightarrow> fe_value e);
            semantic_changed = (previous_entry = None \<or> \<not> py_eq previous_value (fo_value ob));
            st3 = (if semantic_changed
                   then st2\<lparr>st_state_revision := st_state_revision st2 + 1\<rparr> else st2);
            changes = (if semantic_changed
                   then [\<lparr>fc_path = fo_path ob, fc_previous = previous_value, fc_current = fo_value ob\<rparr>]
                   else []);
            st4 = (case previous_entry of None \<Rightarrow> paths_changed st3 | Some _ \<Rightarrow> entry_changed (fo_path ob) st3);
            st5 = st4\<lparr>st_entries := AList.update (fo_path ob)
                    (entry_of_observation (st_provider_generation st4) ob) (st_entries st4)\<rparr>;
            transitions = (case transition of None \<Rightarrow> [] | Some t \<Rightarrow> [t]);
            changeset = \<lparr>cs_revision = st_state_revision st5,
              cs_freshness_revision = st_freshness_revision st5,
              cs_observation_seq = st_observation_seq st5, cs_changes = changes,
              cs_timestamp_monotonic = fo_timestamp_monotonic ob, cs_sources = [fo_source ob],
              cs_coalesced = False, cs_observed_paths = [fo_path ob],
              cs_freshness_paths = map ft_path transitions\<rparr>
        in (changeset, append_history changes transitions [] st5))"

section \<open>Discarding and aging\<close>

fun discard_loop :: "field_path list \<Rightarrow> field_change list \<Rightarrow> state_store
    \<Rightarrow> field_change list \<times> state_store" where
  "discard_loop [] removed st = (removed, st)"
| "discard_loop (p # ps) removed st =
     (case map_of (st_entries st) p of
        None \<Rightarrow> discard_loop ps removed st
      | Some e \<Rightarrow>
          discard_loop ps
            (removed @ [\<lparr>fc_path = p, fc_previous = fe_value e, fc_current = JNull\<rparr>])
            (paths_changed (st\<lparr>st_entries := AList.delete p (st_entries st)\<rparr>)))"

definition discard :: "field_path list \<Rightarrow> time \<Rightarrow> state_store \<Rightarrow> change_set \<times> state_store" where
  "discard paths now st =
     (let (changes, st1) = discard_loop paths [] st;
          st2 = (if changes = [] then st1
                 else append_history changes [] []
                   (st1\<lparr>st_state_revision := st_state_revision st1 + 1\<rparr>))
      in ((empty_changeset now st2)\<lparr>cs_changes := changes\<rparr>, st2))"

definition set_entry :: "field_path \<Rightarrow> field_entry \<Rightarrow> state_store \<Rightarrow> state_store" where
  "set_entry p e st = st\<lparr>st_entries := AList.update p e (st_entries st)\<rparr>"

definition overdue :: "time \<Rightarrow> field_entry \<Rightarrow> bool" where
  "overdue timestamp e \<longleftrightarrow>
     (case fe_max_age e of None \<Rightarrow> False
      | Some max_age \<Rightarrow> \<not> timestamp - fe_last_observed_monotonic e \<le> max_age)"

fun stale_loop :: "time \<Rightarrow> field_path list \<Rightarrow> field_path list \<Rightarrow> state_store
    \<Rightarrow> (freshness_transition list \<times> reconciliation_request list \<times> state_store) result" where
  "stale_loop timestamp relative_due [] st = Inr ([], [], st)"
| "stale_loop timestamp relative_due (p # ps) st =
     bind_result (lookup_entry p (st_entries st)) (\<lambda>e.
       if fe_freshness e \<noteq> Fresh_FRESH \<or> (p \<notin> set relative_due \<and> \<not> overdue timestamp e)
       then stale_loop timestamp relative_due ps st
       else
         let st1 = entry_changed p (set_entry p (e\<lparr>fe_freshness := Fresh_STALE\<rparr>)
                     (st\<lparr>st_freshness_revision := st_freshness_revision st + 1\<rparr>));
             transition = \<lparr>ft_path = p, ft_previous = Fresh_FRESH, ft_current = Fresh_STALE,
               ft_freshness_revision = st_freshness_revision st1, ft_timestamp_monotonic = timestamp\<rparr>;
             request = \<lparr>rq_path = p, rq_reason = ''stale'', rq_requested_at_monotonic = timestamp,
               rq_state_revision = st_state_revision st1,
               rq_freshness_revision = st_freshness_revision st1, rq_max_age = fe_max_age e\<rparr>
         in bind_result (stale_loop timestamp relative_due ps st1) (\<lambda>(transitions, requests, st2).
              Inr (transition # transitions, request # requests, st2)))"

section \<open>Relative VFO retention\<close>

definition relative_names :: "string list" where
  "relative_names = [''freq_hz'', ''mode'', ''filter_num'', ''data_mode'']"

text \<open>\<open>FieldPath.active\<close> and \<open>FieldPath.unselected\<close> of receiver 0, built without the checks these
  literals pass; the set is a list in one order.\<close>

definition relative_path :: "vfo_slot \<Rightarrow> string \<Rightarrow> field_path" where
  "relative_path slot name = \<lparr>fp_scope = RECEIVER, fp_family = FREQ_MODE, fp_name = name,
     fp_receiver_id = Some ''0'', fp_slot = Some slot\<rparr>"

definition relative_paths :: "field_path list" where
  "relative_paths = map (relative_path SLOT_ACTIVE) relative_names
     @ map (relative_path SLOT_UNSELECTED) relative_names"

definition active_slot_of :: "string \<Rightarrow> field_path" where
  "active_slot_of receiver = \<lparr>fp_scope = RECEIVER, fp_family = VFO, fp_name = ''active_slot'',
     fp_receiver_id = Some receiver, fp_slot = None\<rparr>"

definition relative_session_paths :: "relative_retention \<Rightarrow> field_path list" where
  "relative_session_paths rr =
     rr_paths rr @ concat (map (\<lambda>receiver. active_slot_of receiver #
       concat (map (\<lambda>slot. map (\<lambda>name. \<lparr>fp_scope = RECEIVER, fp_family = FREQ_MODE, fp_name = name,
           fp_receiver_id = Some receiver, fp_slot = Some slot\<rparr>) relative_names) [SLOT_A, SLOT_B]))
       (remdups (concat (map (\<lambda>p. case fp_receiver_id p of None \<Rightarrow> [] | Some r \<Rightarrow> [r]) (rr_paths rr)))))"

text \<open>
  The slot a relative path stands for, while the observed A/B identity is fresh. A list or dictionary has no hash:
  \<open>binding.value not in {"A", "B"}\<close> raises \<open>TypeError\<close>.
\<close>

fun hashable :: "json \<Rightarrow> bool" where
  "hashable (JList _) = False"
| "hashable (JObj _) = False"
| "hashable (JTuple xs) = list_all hashable xs"
| "hashable _ = True"

definition bound_alias_path :: "field_path \<Rightarrow> state_store \<Rightarrow> field_path option result" where
  "bound_alias_path p st =
     (case fp_receiver_id p of
        None \<Rightarrow> Inr None
      | Some receiver \<Rightarrow>
          if fp_slot p \<notin> {Some SLOT_ACTIVE, Some SLOT_UNSELECTED} then Inr None
          else case map_of (st_entries st) (active_slot_of receiver) of
            None \<Rightarrow> Inr None
          | Some binding \<Rightarrow>
              if fe_freshness binding \<noteq> Fresh_FRESH then Inr None
              else if \<not> hashable (fe_value binding) then Inl TypeError
              else if fe_value binding \<notin> {JStr ''A'', JStr ''B''} then Inr None
              else
                let selected = (if fe_value binding = JStr ''A'' then SLOT_A else SLOT_B);
                    slot = (if fp_slot p = Some SLOT_ACTIVE then selected
                            else if selected = SLOT_A then SLOT_B else SLOT_A)
                in Inr (Some (p\<lparr>fp_scope := RECEIVER, fp_slot := Some slot\<rparr>)))"

fun with_bound_aliases :: "field_observation list \<Rightarrow> state_store \<Rightarrow> field_observation list result" where
  "with_bound_aliases [] st = Inr []"
| "with_bound_aliases (ob # obs) st =
     bind_result (bound_alias_path (fo_path ob) st) (\<lambda>alias.
     bind_result (with_bound_aliases obs st) (\<lambda>expanded.
       Inr (case alias of None \<Rightarrow> ob # expanded | Some a \<Rightarrow> ob # ob\<lparr>fo_path := a\<rparr> # expanded)))"

fun alias_paths :: "field_path list \<Rightarrow> state_store \<Rightarrow> field_path list result" where
  "alias_paths [] st = Inr []"
| "alias_paths (p # ps) st =
     bind_result (bound_alias_path p st) (\<lambda>alias.
     bind_result (alias_paths ps st) (\<lambda>aliases. Inr (case alias of None \<Rightarrow> aliases | Some a \<Rightarrow> a # aliases)))"

definition expire_relative_vfo :: "time \<Rightarrow> state_store \<Rightarrow> field_path list result \<times> state_store" where
  "expire_relative_vfo now st =
     (case st_retention st of
        None \<Rightarrow> (Inr [], st)
      | Some rr \<Rightarrow>
          (case rr_expires_at rr of
             None \<Rightarrow> (Inr [], st)
           | Some expires \<Rightarrow>
               if now < expires then (Inr [], st)
               else
                 let st1 = st\<lparr>st_retention := Some (rr\<lparr>rr_expires_at := None, rr_pending := []\<rparr>)\<rparr>
                 in (bind_result (alias_paths (rr_paths rr) st1) (\<lambda>aliases. Inr (rr_paths rr @ aliases)), st1)))"

text \<open>The paths of the loop are those of the entries, so its \<open>KeyError\<close> does not occur.\<close>

definition mark_stale_due :: "time \<Rightarrow> state_store \<Rightarrow> snapshot_delta result \<times> state_store" where
  "mark_stale_due timestamp st =
     (let (due, st1) = expire_relative_vfo timestamp st
      in case due of
           Inl e \<Rightarrow> (Inl e, st1)
         | Inr relative_due \<Rightarrow>
             let (paths, st2) = paths_in_order st1
             in case stale_loop timestamp relative_due paths st2 of
                  Inl e \<Rightarrow> (Inl e, st2)
                | Inr (freshness, requests, st3) \<Rightarrow>
                    (Inr \<lparr>sd_state_revision = st_state_revision st3,
                       sd_freshness_revision = st_freshness_revision st3,
                       sd_observation_seq = st_observation_seq st3, sd_changes = [],
                       sd_freshness = freshness, sd_requests = requests, sd_requires_full_snapshot = False,
                       sd_provider_generation = st_provider_generation st3\<rparr>,
                     append_history [] freshness requests st3))"

definition max_of :: "time list \<Rightarrow> time option" where
  "max_of ts = (case ts of [] \<Rightarrow> None | t # us \<Rightarrow> Some (fold max us t))"

definition min_of :: "time list \<Rightarrow> time option" where
  "min_of ts = (case ts of [] \<Rightarrow> None | t # us \<Rightarrow> Some (fold min us t))"

definition merge_changesets :: "change_set list \<Rightarrow> time \<Rightarrow> state_store \<Rightarrow> change_set" where
  "merge_changesets parts now st =
     (case max_of (map cs_timestamp_monotonic parts) of
        None \<Rightarrow> empty_changeset now st
      | Some latest \<Rightarrow>
          \<lparr>cs_revision = st_state_revision st, cs_freshness_revision = st_freshness_revision st,
           cs_observation_seq = st_observation_seq st, cs_changes = concat (map cs_changes parts),
           cs_timestamp_monotonic = latest, cs_sources = concat (map cs_sources parts),
           cs_coalesced = list_ex cs_coalesced parts,
           cs_observed_paths = concat (map cs_observed_paths parts),
           cs_freshness_paths = concat (map cs_freshness_paths parts)\<rparr>)"

fun apply_each :: "field_observation list \<Rightarrow> state_store \<Rightarrow> change_set list \<times> state_store" where
  "apply_each [] st = ([], st)"
| "apply_each (ob # obs) st =
     (let (c, st1) = apply_one ob st; (cs, st2) = apply_each obs st1 in (c # cs, st2))"

definition stamped_empty :: "field_observation list \<Rightarrow> time \<Rightarrow> state_store \<Rightarrow> change_set" where
  "stamped_empty observations now st =
     empty_changeset (case max_of (map fo_timestamp_monotonic observations) of
       None \<Rightarrow> now | Some t \<Rightarrow> t) st"

definition apply_observation_batch ::
  "field_observation list \<Rightarrow> time \<Rightarrow> state_store \<Rightarrow> change_set \<times> state_store" where
  "apply_observation_batch observations now st =
     (if list_ex (\<lambda>ob. \<not> is_current_observation ob st) observations
      then (stamped_empty observations now st, st)
      else let (parts, st1) = apply_each observations st in (merge_changesets parts now st1, st1))"

definition reset_relative_vfo_retention ::
  "int \<Rightarrow> time \<Rightarrow> state_store \<Rightarrow> change_set \<times> state_store" where
  "reset_relative_vfo_retention generation now st =
     (case st_retention st of
        None \<Rightarrow> (empty_changeset now st, st)
      | Some rr \<Rightarrow>
          let rr' = rr\<lparr>rr_generation := generation, rr_pending := [], rr_expires_at := None\<rparr>
          in discard (relative_session_paths rr') now (st\<lparr>st_retention := Some rr'\<rparr>))"

text \<open>\<open>replace\<close> runs the checks of the dataclass again: a negative \<open>max_age\<close> is a \<open>ValueError\<close>.\<close>

definition replace_max_age :: "time \<Rightarrow> field_observation \<Rightarrow> field_observation result" where
  "replace_max_age expires ob =
     (let age = expires - fo_timestamp_monotonic ob
      in if age < 0 then Inl ValueError else Inr (ob\<lparr>fo_max_age := Some age\<rparr>))"

fun replace_all_ages :: "time \<Rightarrow> field_observation list \<Rightarrow> field_observation list result" where
  "replace_all_ages expires [] = Inr []"
| "replace_all_ages expires (ob # obs) =
     bind_result (replace_max_age expires ob) (\<lambda>ob'.
     bind_result (replace_all_ages expires obs) (\<lambda>obs'. Inr (ob' # obs')))"

definition stage_pending :: "field_observation list \<Rightarrow> (field_path \<times> field_observation) list
    \<Rightarrow> (field_path \<times> field_observation) list" where
  "stage_pending relative pending = foldl (\<lambda>pending ob.
     (case map_of pending (fo_path ob) of
        Some previous \<Rightarrow>
          if older_than_observation ob previous then pending else AList.update (fo_path ob) ob pending
      | None \<Rightarrow> AList.update (fo_path ob) ob pending)) pending relative"

definition required_times :: "relative_retention \<Rightarrow> time list" where
  "required_times rr = concat (map (\<lambda>p. case map_of (rr_pending rr) p of
     None \<Rightarrow> [] | Some ob \<Rightarrow> [fo_timestamp_monotonic ob]) (rr_required_paths rr))"

text \<open>The time of the newest mandatory observation, if all are pending and close enough.\<close>

definition complete_at :: "relative_retention \<Rightarrow> time option" where
  "complete_at rr =
     (let times = required_times rr
      in if length times = length (rr_required_paths rr)
         then (case (max_of times, min_of times) of
            (Some latest, Some earliest) \<Rightarrow>
              if latest - earliest \<le> rr_coherence_window rr then Some latest else None
          | _ \<Rightarrow> None)
         else None)"

definition extend_age :: "time \<Rightarrow> field_path \<Rightarrow> state_store \<Rightarrow> state_store" where
  "extend_age expires p st =
     (case map_of (st_entries st) p of
        None \<Rightarrow> st
      | Some e \<Rightarrow> entry_changed p (set_entry p
          (e\<lparr>fe_max_age := Some (expires - fe_last_observed_monotonic e)\<rparr>) st))"

fun extend_paths :: "time \<Rightarrow> field_path list \<Rightarrow> state_store \<Rightarrow> unit result \<times> state_store" where
  "extend_paths expires [] st = (Inr (), st)"
| "extend_paths expires (p # ps) st =
     (let st1 = extend_age expires p st
      in case bound_alias_path p st1 of
           Inl e \<Rightarrow> (Inl e, st1)
         | Inr None \<Rightarrow> extend_paths expires ps st1
         | Inr (Some alias) \<Rightarrow> extend_paths expires ps (extend_age expires alias st1))"

definition with_retention ::
  "(relative_retention \<Rightarrow> relative_retention) \<Rightarrow> state_store \<Rightarrow> state_store" where
  "with_retention f st = st\<lparr>st_retention := map_option f (st_retention st)\<rparr>"

definition commit_base :: "relative_retention \<Rightarrow> time \<Rightarrow> change_set list \<Rightarrow> time \<Rightarrow> state_store
    \<Rightarrow> change_set result \<times> state_store" where
  "commit_base rr latest changesets now st =
     (let expires = latest + rr_max_age rr;
          st1 = st\<lparr>st_retention := Some (rr\<lparr>rr_expires_at := Some expires\<rparr>)\<rparr>
      in case replace_all_ages expires
           (filter (\<lambda>ob. \<bar>latest - fo_timestamp_monotonic ob\<bar> \<le> rr_coherence_window rr)
             (map snd (rr_pending rr))) of
           Inl e \<Rightarrow> (Inl e, st1)
         | Inr committed \<Rightarrow>
             let (c1, st2) = discard (rr_paths rr) now st1
             in case with_bound_aliases committed st2 of
                  Inl e \<Rightarrow> (Inl e, st2)
                | Inr batch \<Rightarrow>
                    let (c2, st3) = apply_observation_batch batch now st2;
                        st4 = with_retention (\<lambda>rr. rr\<lparr>rr_pending := []\<rparr>) st3
                    in (Inr (merge_changesets (changesets @ [c1, c2]) now st4), st4))"

definition patch_base :: "relative_retention \<Rightarrow> time \<Rightarrow> field_observation list \<Rightarrow> change_set list
    \<Rightarrow> time \<Rightarrow> state_store \<Rightarrow> change_set result \<times> state_store" where
  "patch_base rr expires relative changesets now st =
     (case bind_result (replace_all_ages expires relative) (\<lambda>immediate. with_bound_aliases immediate st) of
        Inl e \<Rightarrow> (Inl e, st)
      | Inr batch \<Rightarrow>
          let (c, st1) = apply_observation_batch batch now st
          in case complete_at rr of
               None \<Rightarrow> (Inr (merge_changesets (changesets @ [c]) now st1), st1)
             | Some latest \<Rightarrow>
                 let expires' = latest + rr_max_age rr;
                     st2 = with_retention (\<lambda>rr. rr\<lparr>rr_expires_at := Some expires'\<rparr>) st1
                 in case extend_paths expires' (rr_paths rr) st2 of
                      (Inl e, st3) \<Rightarrow> (Inl e, st3)
                    | (Inr _, st3) \<Rightarrow>
                        let st4 = with_retention (\<lambda>rr. rr\<lparr>rr_pending := []\<rparr>) st3
                        in (Inr (merge_changesets (changesets @ [c]) now st4), st4))"

text \<open>Once the batch is accepted and its relative part is not empty.\<close>

definition stage_relative :: "field_observation list \<Rightarrow> int \<Rightarrow> change_set list \<Rightarrow> time \<Rightarrow> state_store
    \<Rightarrow> change_set result \<times> state_store" where
  "stage_relative relative generation changesets now st =
     (case st_retention st of
        None \<Rightarrow> (Inr (empty_changeset now st), st)
      | Some rr0 \<Rightarrow>
          if list_ex (\<lambda>ob. fo_path ob \<in> set (rr_required_paths rr0) \<and> fo_value ob = JNull) relative
          then let (c, st1) = reset_relative_vfo_retention generation now st
               in (Inr (merge_changesets (changesets @ [c]) now st1), st1)
          else
            let rr = rr0\<lparr>rr_pending := stage_pending relative (rr_pending rr0)\<rparr>;
                st1 = st\<lparr>st_retention := Some rr\<rparr>
            in case rr_expires_at rr of
                 Some expires \<Rightarrow> patch_base rr expires relative changesets now st1
               | None \<Rightarrow>
                   (case complete_at rr of
                      None \<Rightarrow> (Inr (merge_changesets changesets now st1), st1)
                    | Some latest \<Rightarrow> commit_base rr latest changesets now st1))"

definition relative_part :: "field_observation list \<Rightarrow> relative_retention \<Rightarrow> state_store
    \<Rightarrow> field_observation list" where
  "relative_part batch rr st = filter (\<lambda>ob. fo_path ob \<in> set (rr_paths rr) \<and>
     (case map_of (st_entries st) (fo_path ob) of
        None \<Rightarrow> True | Some e \<Rightarrow> \<not> older_than_entry ob e)) batch"

definition apply_relative_vfo_observations ::
  "field_observation list \<Rightarrow> int \<Rightarrow> time \<Rightarrow> state_store \<Rightarrow> change_set result \<times> state_store" where
  "apply_relative_vfo_observations batch generation now st =
     (case st_retention st of
        None \<Rightarrow> let (c, st1) = apply_observation_batch batch now st in (Inr c, st1)
      | Some rr \<Rightarrow>
          if batch = [] \<or> generation \<noteq> rr_generation rr
             \<or> list_ex (\<lambda>ob. \<not> is_current_observation ob st) batch
          then (Inr (stamped_empty batch now st), st)
          else
            let relative = relative_part batch rr st
            in case max_of (map fo_timestamp_monotonic relative) of
                 None \<Rightarrow> (Inr (empty_changeset now st), st)
               | Some newest_at \<Rightarrow>
                   if (case rr_expires_at rr of None \<Rightarrow> False | Some x \<Rightarrow> newest_at \<ge> x)
                   then (case mark_stale_due newest_at st of
                       (Inl e, st1) \<Rightarrow> (Inl e, st1)
                     | (Inr expired, st1) \<Rightarrow>
                         stage_relative relative generation
                           (if sd_freshness expired \<noteq> []
                            then [(empty_changeset newest_at st1)\<lparr>cs_freshness_paths :=
                                    map ft_path (sd_freshness expired)\<rparr>]
                            else []) now st1)
                   else stage_relative relative generation [] now st)"

definition apply_observation :: "field_observation \<Rightarrow> time \<Rightarrow> state_store
    \<Rightarrow> change_set result \<times> state_store" where
  "apply_observation ob now st =
     (if \<not> is_current_observation ob st
      then (Inr (empty_changeset (fo_timestamp_monotonic ob) st), st)
      else
        let one = (let (c, st1) = apply_one ob st in (Inr c, st1))
        in case st_retention st of
             Some rr \<Rightarrow>
               if fo_path ob \<in> set (rr_paths rr)
               then apply_relative_vfo_observations [ob] (rr_generation rr) now st
               else one
           | None \<Rightarrow> one)"

definition apply_current :: "field_observation \<Rightarrow> time \<Rightarrow> state_store
    \<Rightarrow> change_set result \<times> state_store" where
  "apply_current ob now st =
     apply_observation (ob\<lparr>fo_provider_generation := Some (st_provider_generation st)\<rparr>) now st"

definition observation_of_entry :: "field_path \<Rightarrow> field_entry \<Rightarrow> field_observation" where
  "observation_of_entry p e =
     \<lparr>fo_path = p, fo_value = fe_value e, fo_source = fe_source e,
      fo_timestamp_monotonic = fe_last_observed_monotonic e, fo_quality = fe_quality e,
      fo_correlation_id = None, fo_max_age = fe_max_age e,
      fo_provider_generation = Some (fe_provider_generation e), fo_clock_domain = fe_clock_domain e\<rparr>"

definition configure_relative_vfo_retention ::
  "int \<Rightarrow> time \<Rightarrow> time \<Rightarrow> time \<Rightarrow> state_store \<Rightarrow> unit result \<times> state_store" where
  "configure_relative_vfo_retention generation max_age coherence_window now st =
     (if generation < 0 \<or> max_age \<le> 0 \<or> coherence_window \<le> 0 then (Inl ValueError, st)
      else
        let existing = map (\<lambda>(p, e). observation_of_entry p e)
              (filter (\<lambda>(p, e). p \<in> set relative_paths \<and> fe_freshness e = Fresh_FRESH \<and>
                 \<not> overdue now e) (st_entries st));
            st1 = snd (discard relative_paths now st);
            st2 = st1\<lparr>st_retention := Some \<lparr>rr_generation = generation,
                    rr_required_paths = filter (\<lambda>p. fp_name p \<in> {''freq_hz'', ''mode''}) relative_paths,
                    rr_paths = relative_paths, rr_max_age = max_age,
                    rr_coherence_window = coherence_window, rr_pending = [], rr_expires_at = None\<rparr>\<rparr>
        in case apply_relative_vfo_observations existing generation now st2 of
             (Inl e, st3) \<Rightarrow> (Inl e, st3)
           | (Inr _, st3) \<Rightarrow> (Inr (), st3))"

section \<open>Provider generations\<close>

definition begin_provider_generation :: "state_store \<Rightarrow> int \<times> state_store" where
  "begin_provider_generation st =
     (let st1 = st\<lparr>st_provider_generation := st_provider_generation st + 1,
                   st_retention := map_option (\<lambda>rr. rr\<lparr>rr_pending := [], rr_expires_at := None\<rparr>)
                     (st_retention st)\<rparr>;
          removed = map (\<lambda>(p, e). \<lparr>fc_path = p, fc_previous = fe_value e, fc_current = JNull\<rparr>)
            (sort_key (\<lambda>(p, _). path_str p) (st_entries st1));
          st2 = paths_changed (st1\<lparr>st_entries := []\<rparr>);
          st3 = (if removed = [] then st2
                 else append_history removed [] []
                   (st2\<lparr>st_state_revision := st_state_revision st2 + 1\<rparr>));
          st4 = st3\<lparr>st_notified := st_notified st3 @
                  map (\<lambda>subscriber. (st_provider_generation st3, subscriber)) (st_subscribers st3)\<rparr>
      in (st_provider_generation st4, st4))"

definition subscribe_provider_generation :: "nat \<Rightarrow> state_store \<Rightarrow> state_store" where
  "subscribe_provider_generation subscriber st =
     st\<lparr>st_subscribers := st_subscribers st @ [subscriber]\<rparr>"

definition unsubscribe_provider_generation :: "nat \<Rightarrow> state_store \<Rightarrow> state_store" where
  "unsubscribe_provider_generation subscriber st =
     st\<lparr>st_subscribers := filter (\<lambda>item. item \<noteq> subscriber) (st_subscribers st)\<rparr>"

end
