(* ===== verification/StoreRuns.thy ===== *)
theory StoreRuns
  imports StateStore DeltaRuns
begin

text \<open>
  What the state store promises: its caches never show, its history replays, generations are fenced,
  aging is exact.

  The central notion is \<open>evolves\<close>: between two states of a store lies a list of logged deltas whose replay
  takes the old values and freshness to the new ones, whatever pruning did to the list meanwhile.
\<close>

section \<open>What a state shows\<close>

definition view :: "state_store \<Rightarrow> field_path \<Rightarrow> json" where
  "view st p = (case map_of (st_entries st) p of None \<Rightarrow> JNull | Some e \<Rightarrow> fe_value e)"

definition freshness_of :: "state_store \<Rightarrow> field_path \<Rightarrow> freshness_state option" where
  "freshness_of st p = map_option fe_freshness (map_of (st_entries st) p)"

definition replay :: "field_change list \<Rightarrow> (field_path \<Rightarrow> json) \<Rightarrow> field_path \<Rightarrow> json" where
  "replay changes m = foldl (\<lambda>m c. m(fc_path c := fc_current c)) m changes"

definition last_freshness :: "freshness_transition list \<Rightarrow> field_path \<Rightarrow> freshness_state option
    \<Rightarrow> freshness_state option" where
  "last_freshness ts p start = foldl (\<lambda>f t. if ft_path t = p then Some (ft_current t) else f) start ts"

lemma replay_simps [simp]:
  "replay [] m = m"
  "replay (c # cs) m = replay cs (m(fc_path c := fc_current c))"
  "replay (cs @ cs') m = replay cs' (replay cs m)"
  by (simp_all add: replay_def)

lemma last_freshness_simps [simp]:
  "last_freshness [] p x = x"
  "last_freshness (t # ts) p x = last_freshness ts p (if ft_path t = p then Some (ft_current t) else x)"
  "last_freshness (ts @ ts') p x = last_freshness ts' p (last_freshness ts p x)"
  by (simp_all add: last_freshness_def)

lemma last_freshness_start: "last_freshness ts p None = Some f \<Longrightarrow> last_freshness ts p x = Some f"
proof (induction ts arbitrary: x)
  case (Cons t ts)
  then show ?case by (cases "ft_path t = p") auto
qed simp

definition wf_changes :: "field_change list \<Rightarrow> bool" where
  "wf_changes cs \<longleftrightarrow> (\<forall>c \<in> set cs. wf_json (fc_current c))"

lemma replay_cong:
  "wf_changes cs \<Longrightarrow> (\<And>q. py_eq (m q) (m' q)) \<Longrightarrow> py_eq (replay cs m p) (replay cs m' p)"
proof (induction cs arbitrary: m m')
  case (Cons c cs)
  then show ?case by (simp add: wf_changes_def)
qed simp

lemma replay_wf: "wf_changes cs \<Longrightarrow> (\<And>q. wf_json (m q)) \<Longrightarrow> wf_json (replay cs m p)"
proof (induction cs arbitrary: m)
  case (Cons c cs)
  then show ?case by (simp add: wf_changes_def)
qed simp

section \<open>The invariant\<close>

definition entry_ok :: "int \<Rightarrow> field_path \<Rightarrow> field_entry \<Rightarrow> bool" where
  "entry_ok generation p e \<longleftrightarrow> wf_json (fe_value e) \<and> fe_provider_generation e = generation \<and>
     (fe_projected e = None \<or> fe_projected e = Some (field_snapshot_of p e))"

definition entries_ok :: "int \<Rightarrow> (field_path \<times> field_entry) list \<Rightarrow> bool" where
  "entries_ok generation es \<longleftrightarrow> distinct (map fst es) \<and>
     (\<forall>p e. map_of es p = Some e \<longrightarrow> entry_ok generation p e)"

text \<open>The snapshot by definition: the entries in the order of their paths.\<close>

definition sorted_paths :: "(field_path \<times> field_entry) list \<Rightarrow> field_path list" where
  "sorted_paths es = sort_key path_str (map fst es)"

definition reference_fields :: "(field_path \<times> field_entry) list \<Rightarrow> store_field list" where
  "reference_fields es = map (\<lambda>p. field_snapshot_of p (the (map_of es p))) (sorted_paths es)"

definition caches_ok :: "state_store \<Rightarrow> bool" where
  "caches_ok st \<longleftrightarrow>
     (\<forall>ps. st_ordered_paths st = Some ps \<longrightarrow> ps = sorted_paths (st_entries st)) \<and>
     (\<forall>fs. st_projected_fields st = Some fs \<longrightarrow> fs = reference_fields (st_entries st))"

definition delta_ok :: "snapshot_delta \<Rightarrow> bool" where
  "delta_ok d \<longleftrightarrow> wf_changes (sd_changes d) \<and>
     (\<forall>t \<in> set (sd_freshness d). ft_freshness_revision t \<le> sd_freshness_revision d) \<and>
     (\<forall>r \<in> set (sd_requests d). rq_freshness_revision r \<le> sd_freshness_revision d)"

definition history_ok :: "state_store \<Rightarrow> bool" where
  "history_ok st \<longleftrightarrow>
     (\<forall>d \<in> set (st_history st). delta_ok d \<and> sd_state_revision d \<le> st_state_revision st \<and>
        sd_freshness_revision d \<le> st_freshness_revision st) \<and>
     int (length (st_history st)) \<le> st_max_history_count st \<and>
     st_floor_state_revision st \<le> st_state_revision st \<and>
     st_floor_freshness_revision st \<le> st_freshness_revision st"

definition store_ok :: "state_store \<Rightarrow> bool" where
  "store_ok st \<longleftrightarrow> entries_ok (st_provider_generation st) (st_entries st) \<and> caches_ok st \<and> history_ok st"

lemma view_wf: "store_ok st \<Longrightarrow> wf_json (view st p)"
  by (auto simp: store_ok_def entries_ok_def entry_ok_def view_def split: option.splits)

section \<open>Evolution\<close>

definition evolves :: "state_store \<Rightarrow> state_store \<Rightarrow> bool" where
  "evolves st st' \<longleftrightarrow> st_max_history_count st' = st_max_history_count st \<and>
     st_provider_generation st \<le> st_provider_generation st' \<and>
     st_state_revision st \<le> st_state_revision st' \<and>
     st_freshness_revision st \<le> st_freshness_revision st' \<and>
     st_floor_state_revision st \<le> st_floor_state_revision st' \<and>
     st_floor_freshness_revision st \<le> st_floor_freshness_revision st' \<and>
     (st_provider_generation st = st_provider_generation st' \<longrightarrow>
       (\<exists>ds k. k \<le> length (st_history st @ ds) \<and>
         st_history st' = drop k (st_history st @ ds) \<and>
         (\<forall>d \<in> set (take k (st_history st @ ds)).
            (sd_changes d \<noteq> [] \<longrightarrow> sd_state_revision d \<le> st_floor_state_revision st') \<and>
            (sd_freshness d \<noteq> [] \<longrightarrow> sd_freshness_revision d \<le> st_floor_freshness_revision st')) \<and>
         (\<forall>d \<in> set ds. delta_ok d \<and>
            (sd_changes d \<noteq> [] \<longrightarrow> st_state_revision st < sd_state_revision d) \<and>
            (\<forall>t \<in> set (sd_freshness d). st_freshness_revision st < ft_freshness_revision t)) \<and>
         (\<forall>p. py_eq (replay (concat (map sd_changes ds)) (view st) p) (view st' p)) \<and>
         (\<forall>p e. map_of (st_entries st') p = Some e \<longrightarrow>
            last_freshness (concat (map sd_freshness ds)) p (freshness_of st p) = Some (fe_freshness e))))"

text \<open>A step that touches nothing a snapshot shows.\<close>

definition same_view :: "state_store \<Rightarrow> state_store \<Rightarrow> bool" where
  "same_view st st' \<longleftrightarrow>
     st_provider_generation st' = st_provider_generation st \<and>
     st_state_revision st' = st_state_revision st \<and>
     st_freshness_revision st' = st_freshness_revision st \<and>
     st_floor_state_revision st' = st_floor_state_revision st \<and>
     st_floor_freshness_revision st' = st_floor_freshness_revision st \<and>
     st_history st' = st_history st \<and> st_max_history_count st' = st_max_history_count st \<and>
     view st' = view st \<and> freshness_of st' = freshness_of st"

lemma same_view_refl [simp]: "same_view st st"
  by (simp add: same_view_def)

lemma same_view_trans: "same_view st st' \<Longrightarrow> same_view st' st'' \<Longrightarrow> same_view st st''"
  by (simp add: same_view_def)

lemma evolves_same_view:
  assumes "store_ok st" and "same_view st st'"
  shows "evolves st st'"
proof -
  have "map_of (st_entries st') p = Some e \<Longrightarrow> freshness_of st p = Some (fe_freshness e)" for p e
  proof -
    assume "map_of (st_entries st') p = Some e"
    then have "freshness_of st' p = Some (fe_freshness e)" by (simp add: freshness_of_def)
    then show ?thesis using assms(2) by (simp add: same_view_def)
  qed
  then show ?thesis
    using assms view_wf [OF assms(1)]
    by (auto simp: evolves_def same_view_def intro!: exI [of _ "[]"] exI [of _ 0])
qed

lemma evolves_refl: "store_ok st \<Longrightarrow> evolves st st"
  by (rule evolves_same_view) simp_all

lemma evolves_trans:
  assumes ok: "store_ok st" "store_ok st'" "store_ok st''"
    and e1: "evolves st st'" and e2: "evolves st' st''"
  shows "evolves st st''"
proof -
  have limit: "st_max_history_count st'' = st_max_history_count st" using e1 e2 by (simp add: evolves_def)
  have mono: "st_provider_generation st \<le> st_provider_generation st'"
    "st_provider_generation st' \<le> st_provider_generation st''"
    "st_state_revision st \<le> st_state_revision st'" "st_state_revision st' \<le> st_state_revision st''"
    "st_freshness_revision st \<le> st_freshness_revision st'"
    "st_freshness_revision st' \<le> st_freshness_revision st''"
    "st_floor_state_revision st \<le> st_floor_state_revision st'"
    "st_floor_state_revision st' \<le> st_floor_state_revision st''"
    "st_floor_freshness_revision st \<le> st_floor_freshness_revision st'"
    "st_floor_freshness_revision st' \<le> st_floor_freshness_revision st''"
    using e1 e2 by (simp_all add: evolves_def)
  show ?thesis
  proof (cases "st_provider_generation st = st_provider_generation st''")
    case False
    then show ?thesis using mono limit by (simp add: evolves_def)
  next
    case True
    then have gen: "st_provider_generation st = st_provider_generation st'"
      "st_provider_generation st' = st_provider_generation st''"
      using mono by simp_all
    obtain ds k where d1: "k \<le> length (st_history st @ ds)" "st_history st' = drop k (st_history st @ ds)"
      "\<forall>d \<in> set (take k (st_history st @ ds)).
            (sd_changes d \<noteq> [] \<longrightarrow> sd_state_revision d \<le> st_floor_state_revision st') \<and>
            (sd_freshness d \<noteq> [] \<longrightarrow> sd_freshness_revision d \<le> st_floor_freshness_revision st')"
      "\<forall>d \<in> set ds. delta_ok d \<and>
            (sd_changes d \<noteq> [] \<longrightarrow> st_state_revision st < sd_state_revision d) \<and>
            (\<forall>t \<in> set (sd_freshness d). st_freshness_revision st < ft_freshness_revision t)"
      "\<forall>p. py_eq (replay (concat (map sd_changes ds)) (view st) p) (view st' p)"
      "\<forall>p e. map_of (st_entries st') p = Some e \<longrightarrow>
            last_freshness (concat (map sd_freshness ds)) p (freshness_of st p) = Some (fe_freshness e)"
      using e1 gen(1) unfolding evolves_def by blast
    obtain ds' k' where d2: "k' \<le> length (st_history st' @ ds')"
      "st_history st'' = drop k' (st_history st' @ ds')"
      "\<forall>d \<in> set (take k' (st_history st' @ ds')).
            (sd_changes d \<noteq> [] \<longrightarrow> sd_state_revision d \<le> st_floor_state_revision st'') \<and>
            (sd_freshness d \<noteq> [] \<longrightarrow> sd_freshness_revision d \<le> st_floor_freshness_revision st'')"
      "\<forall>d \<in> set ds'. delta_ok d \<and>
            (sd_changes d \<noteq> [] \<longrightarrow> st_state_revision st' < sd_state_revision d) \<and>
            (\<forall>t \<in> set (sd_freshness d). st_freshness_revision st' < ft_freshness_revision t)"
      "\<forall>p. py_eq (replay (concat (map sd_changes ds')) (view st') p) (view st'' p)"
      "\<forall>p e. map_of (st_entries st'') p = Some e \<longrightarrow>
            last_freshness (concat (map sd_freshness ds')) p (freshness_of st' p) = Some (fe_freshness e)"
      using e2 gen(2) unfolding evolves_def by blast
    let ?h = "st_history st @ ds @ ds'"
    have cut: "st_history st' @ ds' = drop k ?h" using d1(1,2) by simp
    have take: "take (k + k') ?h = take k (st_history st @ ds) @ take k' (st_history st' @ ds')"
      unfolding cut take_add using d1(1) by simp
    have h: "st_history st'' = drop (k + k') ?h"
      using d2(2) unfolding cut by (simp only: drop_drop add.commute)
    have len: "k + k' \<le> length ?h" using d1(1) d2(1) unfolding cut by simp
    have dropped: "\<forall>d \<in> set (take (k + k') ?h).
        (sd_changes d \<noteq> [] \<longrightarrow> sd_state_revision d \<le> st_floor_state_revision st'') \<and>
        (sd_freshness d \<noteq> [] \<longrightarrow> sd_freshness_revision d \<le> st_floor_freshness_revision st'')"
      unfolding take using d1(3) d2(3) mono by fastforce
    have new: "\<forall>d \<in> set (ds @ ds'). delta_ok d \<and>
        (sd_changes d \<noteq> [] \<longrightarrow> st_state_revision st < sd_state_revision d) \<and>
        (\<forall>t \<in> set (sd_freshness d). st_freshness_revision st < ft_freshness_revision t)"
      using d1(4) d2(4) mono by fastforce
    have wf: "wf_changes (concat (map sd_changes ds))" "wf_changes (concat (map sd_changes ds'))"
      using d1(4) d2(4) by (auto simp: delta_ok_def wf_changes_def)
    have "py_eq (replay (concat (map sd_changes (ds @ ds'))) (view st) p) (view st'' p)" for p
    proof -
      let ?m = "replay (concat (map sd_changes ds)) (view st)"
      have "py_eq (replay (concat (map sd_changes ds')) ?m p) (replay (concat (map sd_changes ds')) (view st') p)"
        by (rule replay_cong [OF wf(2)]) (use d1(5) in blast)
      moreover have "wf_json (replay (concat (map sd_changes ds')) ?m p)"
        "wf_json (replay (concat (map sd_changes ds')) (view st') p)"
        by (intro replay_wf wf view_wf ok)+
      ultimately show ?thesis
        using py_eq_trans [OF _ _ view_wf [OF ok(3)]] d2(5) by simp
    qed
    moreover have "last_freshness (concat (map sd_freshness (ds @ ds'))) p (freshness_of st p) =
        Some (fe_freshness e)" if e: "map_of (st_entries st'') p = Some e" for p e
    proof (cases "map_of (st_entries st') p")
      case None
      then have "freshness_of st' p = None" by (simp add: freshness_of_def)
      then have "last_freshness (concat (map sd_freshness ds')) p None = Some (fe_freshness e)"
        using d2(6) [rule_format, OF e] by (simp only:)
      from last_freshness_start [OF this] show ?thesis
        unfolding map_append concat_append last_freshness_simps .
    next
      case (Some e1)
      then have "freshness_of st' p = Some (fe_freshness e1)" by (simp add: freshness_of_def)
      then show ?thesis
        using d1(6) [rule_format, OF Some] d2(6) [rule_format, OF e]
        unfolding map_append concat_append last_freshness_simps by (simp only:)
    qed
    ultimately have "\<exists>ds k. k \<le> length (st_history st @ ds) \<and>
         st_history st'' = drop k (st_history st @ ds) \<and>
         (\<forall>d \<in> set (take k (st_history st @ ds)).
            (sd_changes d \<noteq> [] \<longrightarrow> sd_state_revision d \<le> st_floor_state_revision st'') \<and>
            (sd_freshness d \<noteq> [] \<longrightarrow> sd_freshness_revision d \<le> st_floor_freshness_revision st'')) \<and>
         (\<forall>d \<in> set ds. delta_ok d \<and>
            (sd_changes d \<noteq> [] \<longrightarrow> st_state_revision st < sd_state_revision d) \<and>
            (\<forall>t \<in> set (sd_freshness d). st_freshness_revision st < ft_freshness_revision t)) \<and>
         (\<forall>p. py_eq (replay (concat (map sd_changes ds)) (view st) p) (view st'' p)) \<and>
         (\<forall>p e. map_of (st_entries st'') p = Some e \<longrightarrow>
            last_freshness (concat (map sd_freshness ds)) p (freshness_of st p) = Some (fe_freshness e))"
      using len h dropped new by (intro exI [of _ "ds @ ds'"] exI [of _ "k + k'"] conjI) blast+
    then show ?thesis
      unfolding evolves_def using mono limit by auto
  qed
qed

section \<open>Logging\<close>

lemma history_prune_loop_spec:
  assumes "history_prune_loop limit h a b = (h', a', b')"
  shows "\<exists>k \<le> length h. h' = drop k h \<and> (0 \<le> limit \<longrightarrow> int (length h') \<le> limit) \<and>
    a \<le> a' \<and> b \<le> b' \<and>
    (\<forall>m. a \<le> m \<longrightarrow> (\<forall>d \<in> set h. sd_state_revision d \<le> m) \<longrightarrow> a' \<le> m) \<and>
    (\<forall>m. b \<le> m \<longrightarrow> (\<forall>d \<in> set h. sd_freshness_revision d \<le> m) \<longrightarrow> b' \<le> m) \<and>
    (\<forall>d \<in> set (take k h). (sd_changes d \<noteq> [] \<longrightarrow> sd_state_revision d \<le> a') \<and>
       (sd_freshness d \<noteq> [] \<or> sd_requests d \<noteq> [] \<longrightarrow> sd_freshness_revision d \<le> b'))"
  using assms
proof (induction limit h a b rule: history_prune_loop.induct)
  case (1 limit a b)
  then show ?case by auto
next
  case (2 limit d ds a b)
  show ?case
  proof (cases "int (length (d # ds)) > limit")
    case False
    then show ?thesis using 2(2) by (intro exI [of _ 0]) auto
  next
    case True
    let ?a = "if sd_changes d \<noteq> [] then max a (sd_state_revision d) else a"
    let ?b = "if sd_freshness d \<noteq> [] \<or> sd_requests d \<noteq> [] then max b (sd_freshness_revision d) else b"
    have "history_prune_loop limit ds ?a ?b = (h', a', b')" using 2(2) True by simp
    then obtain k where k: "k \<le> length ds" "h' = drop k ds" "0 \<le> limit \<longrightarrow> int (length h') \<le> limit"
      "?a \<le> a'" "?b \<le> b'"
      "\<forall>m. ?a \<le> m \<longrightarrow> (\<forall>d \<in> set ds. sd_state_revision d \<le> m) \<longrightarrow> a' \<le> m"
      "\<forall>m. ?b \<le> m \<longrightarrow> (\<forall>d \<in> set ds. sd_freshness_revision d \<le> m) \<longrightarrow> b' \<le> m"
      "\<forall>d \<in> set (take k ds). (sd_changes d \<noteq> [] \<longrightarrow> sd_state_revision d \<le> a') \<and>
         (sd_freshness d \<noteq> [] \<or> sd_requests d \<noteq> [] \<longrightarrow> sd_freshness_revision d \<le> b')"
      using 2(1) [OF True] by blast
    have "a \<le> a'" "b \<le> b'" "sd_changes d \<noteq> [] \<longrightarrow> sd_state_revision d \<le> a'"
      "sd_freshness d \<noteq> [] \<or> sd_requests d \<noteq> [] \<longrightarrow> sd_freshness_revision d \<le> b'"
      using k(4,5) by (auto split: if_splits)
    moreover have "\<forall>m. a \<le> m \<longrightarrow> (\<forall>x \<in> set (d # ds). sd_state_revision x \<le> m) \<longrightarrow> a' \<le> m"
      "\<forall>m. b \<le> m \<longrightarrow> (\<forall>x \<in> set (d # ds). sd_freshness_revision x \<le> m) \<longrightarrow> b' \<le> m"
      using k(6,7) by auto
    ultimately show ?thesis
      using k(1,2,3,8) by (intro exI [of _ "Suc k"]) auto
  qed
qed

definition new_delta :: "field_change list \<Rightarrow> freshness_transition list \<Rightarrow> reconciliation_request list
    \<Rightarrow> state_store \<Rightarrow> snapshot_delta" where
  "new_delta changes freshness requests st =
     \<lparr>sd_state_revision = st_state_revision st, sd_freshness_revision = st_freshness_revision st,
      sd_observation_seq = st_observation_seq st, sd_changes = changes, sd_freshness = freshness,
      sd_requests = requests, sd_requires_full_snapshot = False,
      sd_provider_generation = st_provider_generation st\<rparr>"

lemma append_history_view [simp]:
  "st_entries (append_history c f r st) = st_entries st"
  "st_provider_generation (append_history c f r st) = st_provider_generation st"
  "st_state_revision (append_history c f r st) = st_state_revision st"
  "st_freshness_revision (append_history c f r st) = st_freshness_revision st"
  "st_observation_seq (append_history c f r st) = st_observation_seq st"
  "st_ordered_paths (append_history c f r st) = st_ordered_paths st"
  "st_projected_fields (append_history c f r st) = st_projected_fields st"
  "st_max_history_count (append_history c f r st) = st_max_history_count st"
  "st_retention (append_history c f r st) = st_retention st"
  by (simp_all add: append_history_def prune_history_def Let_def split: prod.split)

text \<open>\<open>st1\<close> is \<open>st\<close> with its revisions advanced and its entries changed, nothing logged yet.\<close>

definition unlogged :: "state_store \<Rightarrow> state_store \<Rightarrow> bool" where
  "unlogged st st1 \<longleftrightarrow> st_history st1 = st_history st \<and>
     st_max_history_count st1 = st_max_history_count st \<and>
     st_floor_state_revision st1 = st_floor_state_revision st \<and>
     st_floor_freshness_revision st1 = st_floor_freshness_revision st \<and>
     st_state_revision st \<le> st_state_revision st1 \<and> st_freshness_revision st \<le> st_freshness_revision st1"

definition loggable :: "field_change list \<Rightarrow> freshness_transition list \<Rightarrow> reconciliation_request list
    \<Rightarrow> state_store \<Rightarrow> bool" where
  "loggable changes fs rs st1 \<longleftrightarrow> wf_changes changes \<and>
     (\<forall>t \<in> set fs. ft_freshness_revision t \<le> st_freshness_revision st1) \<and>
     (\<forall>r \<in> set rs. rq_freshness_revision r \<le> st_freshness_revision st1)"

lemma append_history_spec:
  assumes ok: "history_ok st" and un: "unlogged st st1" and log: "loggable changes fs rs st1"
  shows "\<exists>ds k. k \<le> length (st_history st @ ds) \<and>
      st_history (append_history changes fs rs st1) = drop k (st_history st @ ds) \<and>
      (\<forall>d \<in> set (take k (st_history st @ ds)).
        (sd_changes d \<noteq> [] \<longrightarrow> sd_state_revision d \<le>
           st_floor_state_revision (append_history changes fs rs st1)) \<and>
        (sd_freshness d \<noteq> [] \<longrightarrow> sd_freshness_revision d \<le>
           st_floor_freshness_revision (append_history changes fs rs st1))) \<and>
      ds = (if changes = [] \<and> fs = [] \<and> rs = [] then [] else [new_delta changes fs rs st1]) \<and>
      st_floor_state_revision st \<le> st_floor_state_revision (append_history changes fs rs st1) \<and>
      st_floor_freshness_revision st \<le> st_floor_freshness_revision (append_history changes fs rs st1) \<and>
      history_ok (append_history changes fs rs st1)"
proof (cases "changes = [] \<and> fs = [] \<and> rs = []")
  case True
  then have "append_history changes fs rs st1 = st1" by (simp add: append_history_def)
  moreover have "history_ok st1" using ok un by (fastforce simp: history_ok_def unlogged_def)
  ultimately show ?thesis using True un by (auto simp: unlogged_def intro!: exI [of _ "[]"] exI [of _ 0])
next
  case False
  let ?d = "new_delta changes fs rs st1"
  let ?st = "append_history changes fs rs st1"
  obtain h' a' b' where p: "history_prune_loop (st_max_history_count st) (st_history st @ [?d])
      (st_floor_state_revision st) (st_floor_freshness_revision st) = (h', a', b')"
    by (metis prod_cases3)
  have st: "?st = st1\<lparr>st_history := h', st_floor_state_revision := a', st_floor_freshness_revision := b'\<rparr>"
  proof -
    have "append_history changes fs rs st1 = prune_history (st1\<lparr>st_history := st_history st @ [?d]\<rparr>)"
      using False un by (auto simp: append_history_def new_delta_def unlogged_def)
    then show ?thesis using un p by (simp add: prune_history_def unlogged_def)
  qed
  obtain k where k: "k \<le> length (st_history st @ [?d])" "h' = drop k (st_history st @ [?d])"
    "0 \<le> st_max_history_count st \<longrightarrow> int (length h') \<le> st_max_history_count st"
    "st_floor_state_revision st \<le> a'" "st_floor_freshness_revision st \<le> b'"
    "\<forall>m. st_floor_state_revision st \<le> m \<longrightarrow> (\<forall>d \<in> set (st_history st @ [?d]). sd_state_revision d \<le> m) \<longrightarrow> a' \<le> m"
    "\<forall>m. st_floor_freshness_revision st \<le> m \<longrightarrow> (\<forall>d \<in> set (st_history st @ [?d]). sd_freshness_revision d \<le> m) \<longrightarrow> b' \<le> m"
    "\<forall>d \<in> set (take k (st_history st @ [?d])). (sd_changes d \<noteq> [] \<longrightarrow> sd_state_revision d \<le> a') \<and>
       (sd_freshness d \<noteq> [] \<or> sd_requests d \<noteq> [] \<longrightarrow> sd_freshness_revision d \<le> b')"
    using history_prune_loop_spec [OF p] by blast
  have all: "delta_ok d \<and> sd_state_revision d \<le> st_state_revision st1 \<and>
      sd_freshness_revision d \<le> st_freshness_revision st1" if "d \<in> set (st_history st @ [?d])" for d
    using that ok un log by (fastforce simp: history_ok_def unlogged_def loggable_def delta_ok_def new_delta_def)
  have max: "0 \<le> st_max_history_count st" using ok by (auto simp: history_ok_def)
  have "a' \<le> st_state_revision st1" "b' \<le> st_freshness_revision st1"
    using k(6,7) all ok un by (auto simp: history_ok_def unlogged_def)
  then have "history_ok ?st"
    using all k(2,3) max un unfolding st by (auto simp: history_ok_def unlogged_def dest: in_set_dropD)
  then show ?thesis
    using False k(1,2,4,5,8) unfolding st by (intro exI [of _ "[?d]"] exI [of _ k]) auto
qed

lemma evolves_log:
  assumes ok: "store_ok st" and un: "unlogged st st1" and log: "loggable changes fs rs st1"
    and gen: "st_provider_generation st1 = st_provider_generation st"
    and rev: "changes \<noteq> [] \<Longrightarrow> st_state_revision st < st_state_revision st1"
    and frev: "\<forall>t \<in> set fs. st_freshness_revision st < ft_freshness_revision t"
    and vals: "\<And>p. py_eq (replay changes (view st) p) (view st1 p)"
    and fresh: "\<And>p e. map_of (st_entries st1) p = Some e \<Longrightarrow>
      last_freshness fs p (freshness_of st p) = Some (fe_freshness e)"
  shows "evolves st (append_history changes fs rs st1) \<and> history_ok (append_history changes fs rs st1)"
proof -
  let ?st = "append_history changes fs rs st1"
  have "history_ok st" using ok by (simp add: store_ok_def)
  from append_history_spec [OF this un log] obtain ds k where *:
    "k \<le> length (st_history st @ ds)" "st_history ?st = drop k (st_history st @ ds)"
    "\<forall>d \<in> set (take k (st_history st @ ds)).
        (sd_changes d \<noteq> [] \<longrightarrow> sd_state_revision d \<le> st_floor_state_revision ?st) \<and>
        (sd_freshness d \<noteq> [] \<longrightarrow> sd_freshness_revision d \<le> st_floor_freshness_revision ?st)"
    "ds = (if changes = [] \<and> fs = [] \<and> rs = [] then [] else [new_delta changes fs rs st1])"
    "st_floor_state_revision st \<le> st_floor_state_revision ?st"
    "st_floor_freshness_revision st \<le> st_floor_freshness_revision ?st" "history_ok ?st"
    by blast
  have cat: "concat (map sd_changes ds) = changes" "concat (map sd_freshness ds) = fs"
    using *(4) by (auto simp: new_delta_def)
  have "view ?st = view st1" by (simp add: view_def fun_eq_iff)
  then have "\<forall>p. py_eq (replay (concat (map sd_changes ds)) (view st) p) (view ?st p)"
    using vals cat by simp
  moreover have "\<forall>p e. map_of (st_entries ?st) p = Some e \<longrightarrow>
      last_freshness (concat (map sd_freshness ds)) p (freshness_of st p) = Some (fe_freshness e)"
    using fresh cat by simp
  moreover have "\<forall>d \<in> set ds. delta_ok d \<and>
      (sd_changes d \<noteq> [] \<longrightarrow> st_state_revision st < sd_state_revision d) \<and>
      (\<forall>t \<in> set (sd_freshness d). st_freshness_revision st < ft_freshness_revision t)"
    using *(4) log rev frev by (auto simp: new_delta_def delta_ok_def loggable_def)
  moreover have "st_max_history_count ?st = st_max_history_count st"
    "st_provider_generation st \<le> st_provider_generation ?st"
    "st_state_revision st \<le> st_state_revision ?st" "st_freshness_revision st \<le> st_freshness_revision ?st"
    using gen un by (simp_all add: unlogged_def)
  ultimately show ?thesis
    using *(1,2,3,5,6,7) unfolding evolves_def by blast
qed

section \<open>Moves\<close>

text \<open>What every operation does: it keeps the invariant and evolves the state.\<close>

definition moves :: "state_store \<Rightarrow> state_store \<Rightarrow> bool" where
  "moves st st' \<longleftrightarrow> (store_ok st \<longrightarrow> store_ok st' \<and> evolves st st')"

lemma moves_refl [simp]: "moves st st"
  by (simp add: moves_def evolves_refl)

lemma moves_trans: "moves st st' \<Longrightarrow> moves st' st'' \<Longrightarrow> moves st st''"
  unfolding moves_def using evolves_trans by blast

lemma moves_same_view: "(store_ok st \<Longrightarrow> store_ok st' \<and> same_view st st') \<Longrightarrow> moves st st'"
  unfolding moves_def using evolves_same_view by blast

lemma keys_update:
  "map fst (AList.update k v al) = (if k \<in> fst ` set al then map fst al else map fst al @ [k])"
  by (induction al) auto

lemma update_same: "map_of es p = Some e \<Longrightarrow> sorted_paths (AList.update p e' es) = sorted_paths es"
proof -
  assume "map_of es p = Some e"
  then have "p \<in> fst ` set es" by (force dest: map_of_SomeD)
  then show ?thesis by (simp add: sorted_paths_def keys_update)
qed

lemma entries_ok_update:
  "entries_ok g es \<Longrightarrow> entry_ok g p e \<Longrightarrow> entries_ok g (AList.update p e es)"
  by (auto simp: entries_ok_def distinct_update update_conv' split: if_splits)

lemma entries_ok_delete: "entries_ok g es \<Longrightarrow> entries_ok g (AList.delete p es)"
  by (auto simp: entries_ok_def distinct_delete delete_conv' split: if_splits)

lemma entry_ok_unprojected: "entry_ok g p e \<Longrightarrow> entry_ok g p (e\<lparr>fe_projected := None\<rparr>)"
  by (simp add: entry_ok_def)

lemma drop_projection_map: "map_of (drop_projection p es) =
    (map_of es)(p := map_option (\<lambda>e. e\<lparr>fe_projected := None\<rparr>) (map_of es p))"
  by (auto simp: drop_projection_def update_conv' fun_eq_iff split: option.split)

lemma drop_projection_ok: "entries_ok g es \<Longrightarrow> entries_ok g (drop_projection p es)"
proof (cases "map_of es p")
  case (Some e)
  assume es: "entries_ok g es"
  then have "entry_ok g p e" using Some unfolding entries_ok_def by blast
  then show ?thesis
    using es Some by (simp add: drop_projection_def entries_ok_update entry_ok_unprojected)
qed (simp add: drop_projection_def)

lemma drop_projection_paths [simp]: "sorted_paths (drop_projection p es) = sorted_paths es"
  by (simp add: drop_projection_def update_same split: option.split)

lemma caches_paths_changed [simp]: "caches_ok (paths_changed st)"
  by (simp add: caches_ok_def paths_changed_def)

lemma caches_entry_changed:
  "\<forall>ps. st_ordered_paths st = Some ps \<longrightarrow> ps = sorted_paths (st_entries st) \<Longrightarrow> caches_ok (entry_changed p st)"
  by (simp add: caches_ok_def entry_changed_def)

section \<open>One observation\<close>

lemma mark_fresh_cases:
  "mark_fresh p prev ts st = (if prev = Fresh_FRESH then (None, st) else
     (Some \<lparr>ft_path = p, ft_previous = prev, ft_current = Fresh_FRESH,
            ft_freshness_revision = st_freshness_revision st + 1, ft_timestamp_monotonic = ts\<rparr>,
      st\<lparr>st_freshness_revision := st_freshness_revision st + 1\<rparr>))"
  by (simp add: mark_fresh_def)

text \<open>The accepted branch: its changes, its transitions and the state before logging.\<close>

definition accepts :: "field_observation \<Rightarrow> state_store \<Rightarrow> bool" where
  "accepts ob st \<longleftrightarrow> is_current_observation ob st \<and>
     (case map_of (st_entries st) (fo_path ob) of None \<Rightarrow> True | Some e \<Rightarrow> \<not> older_than_entry ob e)"

lemma apply_one_rejects: "\<not> accepts ob st \<Longrightarrow> apply_one ob st = (empty_changeset (fo_timestamp_monotonic ob) st, st)"
  by (auto simp: apply_one_def accepts_def Let_def split: option.splits)

definition semantic_change :: "field_observation \<Rightarrow> state_store \<Rightarrow> bool" where
  "semantic_change ob st \<longleftrightarrow> (case map_of (st_entries st) (fo_path ob) of
     None \<Rightarrow> True | Some e \<Rightarrow> \<not> py_eq (fe_value e) (fo_value ob))"

definition observed_changes :: "field_observation \<Rightarrow> state_store \<Rightarrow> field_change list" where
  "observed_changes ob st = (if semantic_change ob st
     then [\<lparr>fc_path = fo_path ob, fc_previous = view st (fo_path ob), fc_current = fo_value ob\<rparr>] else [])"

definition observed_transitions :: "field_observation \<Rightarrow> state_store \<Rightarrow> freshness_transition list" where
  "observed_transitions ob st = (if freshness_of st (fo_path ob) = Some Fresh_FRESH then [] else
     [\<lparr>ft_path = fo_path ob,
       ft_previous = (case freshness_of st (fo_path ob) of None \<Rightarrow> Fresh_UNKNOWN | Some f \<Rightarrow> f),
       ft_current = Fresh_FRESH, ft_freshness_revision = st_freshness_revision st + 1,
       ft_timestamp_monotonic = fo_timestamp_monotonic ob\<rparr>])"

definition observed_entries :: "field_observation \<Rightarrow> state_store \<Rightarrow> (field_path \<times> field_entry) list" where
  "observed_entries ob st =
     AList.update (fo_path ob) (entry_of_observation (st_provider_generation st) ob)
       (drop_projection (fo_path ob) (st_entries st))"

definition observed :: "field_observation \<Rightarrow> state_store \<Rightarrow> state_store" where
  "observed ob st = st\<lparr>
     st_observation_seq := st_observation_seq st + 1,
     st_freshness_revision := st_freshness_revision st + int (length (observed_transitions ob st)),
     st_state_revision := st_state_revision st + int (length (observed_changes ob st)),
     st_ordered_paths := (case map_of (st_entries st) (fo_path ob) of
        None \<Rightarrow> None | Some _ \<Rightarrow> st_ordered_paths st),
     st_projected_fields := None,
     st_entries := observed_entries ob st\<rparr>"

lemma apply_one_accepts:
  assumes "accepts ob st"
  shows "snd (apply_one ob st) =
      append_history (observed_changes ob st) (observed_transitions ob st) [] (observed ob st)"
    and "cs_changes (fst (apply_one ob st)) = observed_changes ob st"
proof -
  note defs = apply_one_def accepts_def Let_def mark_fresh_cases paths_changed_def entry_changed_def
    view_def freshness_of_def observed_def observed_changes_def observed_transitions_def
    observed_entries_def semantic_change_def drop_projection_def
  have "snd (apply_one ob st) =
      append_history (observed_changes ob st) (observed_transitions ob st) [] (observed ob st) \<and>
    cs_changes (fst (apply_one ob st)) = observed_changes ob st"
  proof (cases "map_of (st_entries st) (fo_path ob)")
    case None
    then show ?thesis using assms by (simp add: defs)
  next
    case (Some e)
    then show ?thesis
      using assms
      by (cases "fe_freshness e = Fresh_FRESH"; cases "py_eq (fe_value e) (fo_value ob)")
        (simp_all add: defs)
  qed
  then show "snd (apply_one ob st) =
      append_history (observed_changes ob st) (observed_transitions ob st) [] (observed ob st)"
    "cs_changes (fst (apply_one ob st)) = observed_changes ob st" by blast+
qed

lemma observed_map: "map_of (observed_entries ob st) q =
    (if q = fo_path ob then Some (entry_of_observation (st_provider_generation st) ob)
     else map_of (st_entries st) q)"
  by (simp add: observed_entries_def update_conv' drop_projection_map)

lemma apply_one_moves:
  assumes wf: "wf_json (fo_value ob)"
  shows "moves st (snd (apply_one ob st))"
proof (cases "accepts ob st")
  case False
  then show ?thesis by (simp add: apply_one_rejects)
next
  case True
  let ?p = "fo_path ob" and ?st1 = "observed ob st"
  show ?thesis
    unfolding moves_def apply_one_accepts [OF True]
  proof
    assume ok: "store_ok st"
    then have eok: "entries_ok (st_provider_generation st) (st_entries st)" and cok: "caches_ok st"
      by (simp_all add: store_ok_def)
    have st1: "st_entries ?st1 = observed_entries ob st" "st_provider_generation ?st1 = st_provider_generation st"
      by (simp_all add: observed_def)
    have wf_view: "wf_json (view st q)" for q by (rule view_wf [OF ok])
    have view1: "view ?st1 = (view st)(?p := fo_value ob)"
      by (rule ext) (simp add: view_def st1 observed_map entry_of_observation_def)
    have vals: "py_eq (replay (observed_changes ob st) (view st) q) (view ?st1 q)" for q
    proof (cases "semantic_change ob st")
      case True
      then show ?thesis using wf wf_view by (simp add: view1 observed_changes_def)
    next
      case False
      then have "py_eq (view st ?p) (fo_value ob)"
        by (auto simp: semantic_change_def view_def split: option.splits)
      then show ?thesis using False wf_view by (simp add: view1 observed_changes_def)
    qed
    have fresh: "last_freshness (observed_transitions ob st) q (freshness_of st q) = Some (fe_freshness e)"
      if "map_of (st_entries ?st1) q = Some e" for q e
      using that by (auto simp: st1 observed_map observed_transitions_def freshness_of_def
          entry_of_observation_def split: if_splits)
    have un: "unlogged st ?st1" by (simp add: unlogged_def observed_def)
    have log: "loggable (observed_changes ob st) (observed_transitions ob st) [] ?st1"
      using wf by (auto simp: loggable_def wf_changes_def observed_def observed_changes_def
          observed_transitions_def)
    have rev: "observed_changes ob st \<noteq> [] \<Longrightarrow> st_state_revision st < st_state_revision ?st1"
      by (simp add: observed_def)
    have frev: "\<forall>t \<in> set (observed_transitions ob st). st_freshness_revision st < ft_freshness_revision t"
      by (simp add: observed_transitions_def)
    note logged = evolves_log [OF ok un log st1(2) rev frev vals fresh]
    have "entry_ok (st_provider_generation st) ?p (entry_of_observation (st_provider_generation st) ob)"
      using wf by (simp add: entry_ok_def entry_of_observation_def)
    then have entries: "entries_ok (st_provider_generation st) (observed_entries ob st)"
      unfolding observed_entries_def using eok by (intro entries_ok_update drop_projection_ok)
    have "sorted_paths (observed_entries ob st) = sorted_paths (st_entries st)"
      if "map_of (st_entries st) ?p = Some e" for e
      unfolding observed_entries_def
      using update_same [of "drop_projection ?p (st_entries st)" ?p] that by (simp add: drop_projection_map)
    then have "caches_ok ?st1"
      using cok by (cases "map_of (st_entries st) ?p") (auto simp: caches_ok_def observed_def)
    then show "store_ok (append_history (observed_changes ob st) (observed_transitions ob st) [] ?st1) \<and>
        evolves st (append_history (observed_changes ob st) (observed_transitions ob st) [] ?st1)"
      using logged entries by (simp add: store_ok_def caches_ok_def st1)
  qed
qed

lemma apply_each_moves:
  "\<forall>ob \<in> set obs. wf_json (fo_value ob) \<Longrightarrow> moves st (snd (apply_each obs st))"
proof (induction obs arbitrary: st)
  case (Cons ob obs)
  have "moves st (snd (apply_one ob st))" using apply_one_moves Cons.prems by simp
  then have "moves st (snd (apply_each obs (snd (apply_one ob st))))"
    by (rule moves_trans) (use Cons in simp)
  then show ?case by (simp add: case_prod_unfold Let_def)
qed simp

lemma batch_moves:
  "\<forall>ob \<in> set obs. wf_json (fo_value ob) \<Longrightarrow> moves st (snd (apply_observation_batch obs now st))"
  using apply_each_moves [of obs st] by (simp add: apply_observation_batch_def case_prod_unfold Let_def)

section \<open>Discarding\<close>

text \<open>Only entries and caches may differ.\<close>

definition same_counters :: "state_store \<Rightarrow> state_store \<Rightarrow> bool" where
  "same_counters st st' \<longleftrightarrow>
     st_provider_generation st' = st_provider_generation st \<and>
     st_state_revision st' = st_state_revision st \<and> st_freshness_revision st' = st_freshness_revision st \<and>
     st_floor_state_revision st' = st_floor_state_revision st \<and>
     st_floor_freshness_revision st' = st_floor_freshness_revision st \<and>
     st_history st' = st_history st \<and> st_max_history_count st' = st_max_history_count st \<and>
     st_retention st' = st_retention st"

lemma discard_loop_spec:
  assumes "entries_ok g (st_entries st)" and "caches_ok st"
    and "discard_loop ps removed st = (changes, st')"
  shows "\<exists>new. changes = removed @ new \<and> same_counters st st' \<and> entries_ok g (st_entries st') \<and>
    caches_ok st' \<and> map_of (st_entries st') = (\<lambda>q. if q \<in> set ps then None else map_of (st_entries st) q) \<and>
    replay new (view st) = view st' \<and> wf_changes new \<and> (new = [] \<longrightarrow> st' = st)"
  using assms
proof (induction ps arbitrary: removed st)
  case Nil
  then show ?case by (auto simp: same_counters_def wf_changes_def)
next
  case (Cons p ps)
  show ?case
  proof (cases "map_of (st_entries st) p")
    case None
    with Cons.prems(3) have "discard_loop ps removed st = (changes, st')" by simp
    moreover have "(\<lambda>q. if q \<in> set (p # ps) then None else map_of (st_entries st) q) =
        (\<lambda>q. if q \<in> set ps then None else map_of (st_entries st) q)"
      using None by (auto simp: fun_eq_iff)
    ultimately show ?thesis using Cons.IH [OF Cons.prems(1,2)] by (simp only:)
  next
    case (Some e)
    let ?c = "\<lparr>fc_path = p, fc_previous = fe_value e, fc_current = JNull\<rparr>"
    let ?st = "paths_changed (st\<lparr>st_entries := AList.delete p (st_entries st)\<rparr>)"
    have es: "st_entries ?st = AList.delete p (st_entries st)" by (simp add: paths_changed_def)
    have "discard_loop ps (removed @ [?c]) ?st = (changes, st')" using Cons.prems(3) Some by simp
    moreover have "entries_ok g (st_entries ?st)" unfolding es using Cons.prems(1) by (rule entries_ok_delete)
    ultimately obtain new where new: "changes = (removed @ [?c]) @ new" "same_counters ?st st'"
      "entries_ok g (st_entries st')" "caches_ok st'"
      "map_of (st_entries st') = (\<lambda>q. if q \<in> set ps then None else map_of (st_entries ?st) q)"
      "replay new (view ?st) = view st'" "wf_changes new"
      using Cons.IH [of ?st "removed @ [?c]"] caches_paths_changed by blast
    have "view ?st = (view st)(p := JNull)"
      by (rule ext) (simp add: view_def es delete_conv')
    then have "replay (?c # new) (view st) = view st'" using new(6) by simp
    moreover have "map_of (st_entries st') = (\<lambda>q. if q \<in> set (p # ps) then None else map_of (st_entries st) q)"
      unfolding new(5) es by (auto simp: fun_eq_iff delete_conv')
    moreover have "same_counters st st'" using new(2) by (simp add: same_counters_def paths_changed_def)
    ultimately show ?thesis
      using new(1,3,4,7) by (intro exI [of _ "?c # new"]) (simp add: wf_changes_def)
  qed
qed

lemma discard_spec:
  assumes ok: "store_ok st"
  shows "store_ok (snd (discard ps now st))" and "evolves st (snd (discard ps now st))"
    and "map_of (st_entries (snd (discard ps now st))) = (\<lambda>q. if q \<in> set ps then None else map_of (st_entries st) q)"
    and "st_retention (snd (discard ps now st)) = st_retention st"
    and "st_provider_generation (snd (discard ps now st)) = st_provider_generation st"
proof -
  have eok: "entries_ok (st_provider_generation st) (st_entries st)" and cok: "caches_ok st"
    using ok by (simp_all add: store_ok_def)
  obtain changes st' where loop: "discard_loop ps [] st = (changes, st')" by (cases "discard_loop ps [] st")
  have d: "same_counters st st'" "entries_ok (st_provider_generation st) (st_entries st')" "caches_ok st'"
    "map_of (st_entries st') = (\<lambda>q. if q \<in> set ps then None else map_of (st_entries st) q)"
    "replay changes (view st) = view st'" "wf_changes changes" "changes = [] \<longrightarrow> st' = st"
    using discard_loop_spec [OF eok cok loop] by auto
  have all: "store_ok (snd (discard ps now st)) \<and> evolves st (snd (discard ps now st)) \<and>
    map_of (st_entries (snd (discard ps now st))) = (\<lambda>q. if q \<in> set ps then None else map_of (st_entries st) q) \<and>
    st_retention (snd (discard ps now st)) = st_retention st \<and>
    st_provider_generation (snd (discard ps now st)) = st_provider_generation st"
  proof (cases "changes = []")
    case True
    then have "snd (discard ps now st) = st" using d(7) loop by (simp add: discard_def)
    then show ?thesis using ok d(4,7) True evolves_refl by simp
  next
    case False
    let ?st1 = "st'\<lparr>st_state_revision := st_state_revision st' + 1\<rparr>"
    have res: "snd (discard ps now st) = append_history changes [] [] ?st1"
      using False loop by (simp add: discard_def Let_def)
    have view1: "view ?st1 = view st'" by (simp add: view_def fun_eq_iff)
    have "wf_json (view st' q)" for q
      using d(5) replay_wf [OF d(6), of "view st" q] view_wf [OF ok] by simp
    then have vals: "py_eq (replay changes (view st) q) (view ?st1 q)" for q
      by (simp add: d(5) view1)
    have fresh: "last_freshness [] q (freshness_of st q) = Some (fe_freshness e)"
      if "map_of (st_entries ?st1) q = Some e" for q e
    proof -
      have "map_of (st_entries st) q = Some e" using that by (simp add: d(4) split: if_splits)
      then show ?thesis by (simp add: freshness_of_def)
    qed
    have un: "unlogged st ?st1" and gen: "st_provider_generation ?st1 = st_provider_generation st"
      and rev: "st_state_revision st < st_state_revision ?st1"
      using d(1) by (simp_all add: same_counters_def unlogged_def)
    have log: "loggable changes [] [] ?st1" using d(6) by (simp add: loggable_def)
    have "evolves st (append_history changes [] [] ?st1) \<and> history_ok (append_history changes [] [] ?st1)"
      by (rule evolves_log [OF ok un log gen rev _ vals fresh]) simp_all
    moreover have "st_provider_generation st' = st_provider_generation st" "st_retention st' = st_retention st"
      using d(1) by (simp_all add: same_counters_def)
    ultimately show ?thesis
      unfolding res using d(2,3,4) by (simp add: store_ok_def caches_ok_def)
  qed
  then show "store_ok (snd (discard ps now st))" "evolves st (snd (discard ps now st))"
    "map_of (st_entries (snd (discard ps now st))) = (\<lambda>q. if q \<in> set ps then None else map_of (st_entries st) q)"
    "st_retention (snd (discard ps now st)) = st_retention st"
    "st_provider_generation (snd (discard ps now st)) = st_provider_generation st"
    by blast+
qed

lemma discard_moves: "moves st (snd (discard ps now st))"
  unfolding moves_def using discard_spec by blast

section \<open>Snapshots and caches\<close>

definition erase :: "field_entry \<Rightarrow> field_entry" where
  "erase e = e\<lparr>fe_projected := None\<rparr>"

text \<open>The same entries up to the projections kept on them.\<close>

definition same_entries :: "(field_path \<times> field_entry) list \<Rightarrow> (field_path \<times> field_entry) list \<Rightarrow> bool" where
  "same_entries es es' \<longleftrightarrow> map fst es' = map fst es \<and>
     (\<forall>q. map_option erase (map_of es' q) = map_option erase (map_of es q))"

lemma same_entries_refl [simp]: "same_entries es es"
  by (simp add: same_entries_def)

lemma same_entries_trans: "same_entries es es' \<Longrightarrow> same_entries es' es'' \<Longrightarrow> same_entries es es''"
  by (simp add: same_entries_def)

lemma same_entries_lookup:
  "same_entries es es' \<Longrightarrow> map_option fe_value (map_of es' q) = map_option fe_value (map_of es q) \<and>
   map_option fe_freshness (map_of es' q) = map_option fe_freshness (map_of es q) \<and>
   map_option (field_snapshot_of q) (map_of es' q) = map_option (field_snapshot_of q) (map_of es q)"
proof -
  assume "same_entries es es'"
  then have *: "map_option erase (map_of es' q) = map_option erase (map_of es q)"
    by (simp add: same_entries_def)
  have parts: "fe_value (erase e) = fe_value e" "fe_freshness (erase e) = fe_freshness e"
    "field_snapshot_of q (erase e) = field_snapshot_of q e" for e
    by (simp_all add: erase_def field_snapshot_of_def)
  from * show ?thesis
    by (cases "map_of es' q"; cases "map_of es q") (auto dest: arg_cong [where f = fe_value]
        arg_cong [where f = fe_freshness] arg_cong [where f = "field_snapshot_of q"] simp: parts)
qed

lemma same_entries_paths: "same_entries es es' \<Longrightarrow> sorted_paths es' = sorted_paths es"
  by (simp add: same_entries_def sorted_paths_def)

lemma same_entries_reference: "same_entries es es' \<Longrightarrow> reference_fields es' = reference_fields es"
proof -
  assume same: "same_entries es es'"
  have "field_snapshot_of p (the (map_of es' p)) = field_snapshot_of p (the (map_of es p))"
    if "p \<in> set (sorted_paths es)" for p
  proof -
    have "map_of es p \<noteq> None" using that by (simp add: sorted_paths_def map_of_eq_None_iff)
    then show ?thesis using same_entries_lookup [OF same, of p] by (cases "map_of es' p") auto
  qed
  then show ?thesis by (simp add: reference_fields_def same_entries_paths [OF same])
qed

lemma same_entries_view:
  "same_entries (st_entries st) (st_entries st') \<Longrightarrow> view st' = view st \<and> freshness_of st' = freshness_of st"
proof -
  assume same: "same_entries (st_entries st) (st_entries st')"
  have "view st' q = view st q" for q
    using same_entries_lookup [OF same, of q]
    by (cases "map_of (st_entries st') q"; cases "map_of (st_entries st) q") (auto simp: view_def)
  moreover have "freshness_of st' q = freshness_of st q" for q
    using same_entries_lookup [OF same, of q] by (simp add: freshness_of_def)
  ultimately show ?thesis by blast
qed

lemma projected_field_spec:
  "entry_ok g p e \<Longrightarrow> projected_field p e = (item, e') \<Longrightarrow>
   item = field_snapshot_of p e \<and> entry_ok g p e' \<and> erase e' = erase e"
  by (auto simp: projected_field_def entry_ok_def erase_def field_snapshot_of_def Let_def split: option.splits)

lemma same_entries_update:
  "map_of es p = Some e \<Longrightarrow> erase e' = erase e \<Longrightarrow> same_entries es (AList.update p e' es)"
proof -
  assume "map_of es p = Some e" "erase e' = erase e"
  then have "p \<in> fst ` set es" by (force dest: map_of_SomeD)
  then show ?thesis
    using \<open>map_of es p = Some e\<close> \<open>erase e' = erase e\<close>
    by (simp add: same_entries_def keys_update update_conv' del: map_of_eq_Some_iff)
qed

lemma project_all_spec:
  "entries_ok g es \<Longrightarrow> set ps \<subseteq> fst ` set es \<Longrightarrow>
   \<exists>es' shared. project_all ps es =
       Inr (map (\<lambda>p. field_snapshot_of p (the (map_of es p))) ps, es', shared) \<and>
     entries_ok g es' \<and> same_entries es es'"
proof (induction ps arbitrary: es)
  case (Cons p ps)
  then obtain e where e: "map_of es p = Some e" by (cases "map_of es p") (auto simp: map_of_eq_None_iff)
  have "entry_ok g p e" using Cons.prems(1) e unfolding entries_ok_def by blast
  obtain item e' where pf: "projected_field p e = (item, e')" by (cases "projected_field p e")
  have item: "item = field_snapshot_of p e" "entry_ok g p e'" "erase e' = erase e"
    using projected_field_spec [OF \<open>entry_ok g p e\<close> pf] by blast+
  let ?es = "AList.update p e' es"
  have same: "same_entries es ?es" by (rule same_entries_update [OF e item(3)])
  have "entries_ok g ?es" using Cons.prems(1) item(2) by (rule entries_ok_update)
  moreover have "set ps \<subseteq> fst ` set ?es"
    using Cons.prems(2) same unfolding same_entries_def by (metis list.set_map insert_subset list.simps(15))
  ultimately obtain es' shared where *: "project_all ps ?es =
      Inr (map (\<lambda>p. field_snapshot_of p (the (map_of ?es p))) ps, es', shared)"
    "entries_ok g es'" "same_entries ?es es'"
    using Cons.IH by blast
  have "field_snapshot_of q (the (map_of ?es q)) = field_snapshot_of q (the (map_of es q))" if "q \<in> set ps" for q
  proof -
    have "map_of es q \<noteq> None" using that Cons.prems(2) by (auto simp: map_of_eq_None_iff)
    then show ?thesis using same_entries_lookup [OF same, of q] by (cases "map_of ?es q") auto
  qed
  then have "map (\<lambda>p. field_snapshot_of p (the (map_of ?es p))) ps = map (\<lambda>p. field_snapshot_of p (the (map_of es p))) ps"
    by simp
  then show ?case
    using *(1,2) same_entries_trans [OF same *(3)] e pf item(1)
    by (simp add: lookup_entry_def)
next
  case Nil
  then show ?case by (intro exI [of _ es] exI [of _ True]) simp
qed

lemma paths_in_order_spec:
  assumes "store_ok st"
  shows "paths_in_order st = (sorted_paths (st_entries st), snd (paths_in_order st))"
    and "store_ok (snd (paths_in_order st))" and "same_view st (snd (paths_in_order st))"
    and "st_entries (snd (paths_in_order st)) = st_entries st"
    and "st_retention (snd (paths_in_order st)) = st_retention st"
    and "st_projected_fields (snd (paths_in_order st)) = st_projected_fields st"
    and "st_observation_seq (snd (paths_in_order st)) = st_observation_seq st"
  using assms
  by (auto simp: paths_in_order_def store_ok_def caches_ok_def history_ok_def sorted_paths_def Let_def
      same_view_def view_def freshness_of_def fun_eq_iff split: option.splits)

lemma set_sorted_paths: "set (sorted_paths es) = fst ` set es"
  by (simp add: sorted_paths_def)

lemma snapshot_fields_spec:
  assumes ok: "store_ok st"
  shows "\<exists>st'. snapshot_fields st = Inr (reference_fields (st_entries st), st') \<and> store_ok st' \<and>
    same_view st st' \<and> st_observation_seq st' = st_observation_seq st \<and> st_retention st' = st_retention st \<and>
    same_entries (st_entries st) (st_entries st')"
proof (cases "st_projected_fields st")
  case (Some fs)
  then show ?thesis using ok by (auto simp: snapshot_fields_def store_ok_def caches_ok_def)
next
  case None
  let ?st1 = "snd (paths_in_order st)"
  note p = paths_in_order_spec [OF ok]
  have gen: "st_provider_generation ?st1 = st_provider_generation st" using p(3) by (simp add: same_view_def)
  have eok: "entries_ok (st_provider_generation st) (st_entries st)" using ok by (simp add: store_ok_def)
  obtain es' shared where pa: "project_all (sorted_paths (st_entries st)) (st_entries st) =
      Inr (reference_fields (st_entries st), es', shared)"
    "entries_ok (st_provider_generation st) es'" "same_entries (st_entries st) es'"
    using project_all_spec [OF eok, of "sorted_paths (st_entries st)"]
    unfolding reference_fields_def set_sorted_paths by blast
  let ?st2 = "?st1\<lparr>st_entries := es',
    st_projected_fields := (if shared then Some (reference_fields (st_entries st)) else None)\<rparr>"
  have "snapshot_fields st = Inr (reference_fields (st_entries st), ?st2)"
    unfolding snapshot_fields_def None by (subst p(1)) (simp add: p(4) pa(1))
  moreover have "caches_ok ?st2"
    using p(2,4) same_entries_paths [OF pa(3)] same_entries_reference [OF pa(3)]
    by (auto simp: store_ok_def caches_ok_def)
  then have "store_ok ?st2" using p(2) pa(2) gen by (simp add: store_ok_def history_ok_def)
  moreover have "same_view st ?st2"
    using p(3) same_entries_view [of st ?st2] pa(3) by (simp add: same_view_def)
  ultimately show ?thesis using p(5,7) pa(3) by auto
qed

lemma take_snapshot_spec:
  assumes ok: "store_ok st"
  shows "\<exists>st'. take_snapshot now st = Inr (\<lparr>sn_state_revision = st_state_revision st,
      sn_freshness_revision = st_freshness_revision st, sn_observation_seq = st_observation_seq st,
      sn_generated_at_monotonic = now, sn_fields = reference_fields (st_entries st),
      sn_provider_generation = st_provider_generation st\<rparr>, st') \<and> store_ok st' \<and> same_view st st' \<and>
    st_retention st' = st_retention st \<and> same_entries (st_entries st) (st_entries st')"
  using snapshot_fields_spec [OF ok] by (auto simp: take_snapshot_def same_view_def)

lemma store_field_spec:
  assumes ok: "store_ok st"
  shows "(case map_of (st_entries st) p of
      None \<Rightarrow> store_field_of p st = Inl KeyError
    | Some e \<Rightarrow> \<exists>st'. store_field_of p st = Inr (field_snapshot_of p e, st') \<and> store_ok st' \<and> same_view st st' \<and>
        st_retention st' = st_retention st \<and> same_entries (st_entries st) (st_entries st'))"
proof (cases "map_of (st_entries st) p")
  case None
  then show ?thesis by (simp add: store_field_of_def lookup_entry_def)
next
  case (Some e)
  obtain item e' where pf: "projected_field p e = (item, e')" by (cases "projected_field p e")
  have eok: "entries_ok (st_provider_generation st) (st_entries st)" using ok by (simp add: store_ok_def)
  then have "entry_ok (st_provider_generation st) p e" using Some unfolding entries_ok_def by blast
  from projected_field_spec [OF this pf] have item: "item = field_snapshot_of p e"
    "entry_ok (st_provider_generation st) p e'" "erase e' = erase e" by blast+
  have same: "same_entries (st_entries st) (AList.update p e' (st_entries st))"
    by (rule same_entries_update [OF Some item(3)])
  let ?st = "st\<lparr>st_entries := AList.update p e' (st_entries st)\<rparr>"
  have "store_ok ?st"
    using ok entries_ok_update [OF eok item(2)] same_entries_paths [OF same] same_entries_reference [OF same]
    by (simp add: store_ok_def caches_ok_def history_ok_def)
  moreover have "same_view st ?st"
    using same_entries_view [of st ?st] same by (simp add: same_view_def)
  ultimately show ?thesis using Some pf item(1) same by (simp add: store_field_of_def lookup_entry_def)
qed

section \<open>Aging\<close>

definition ages :: "time \<Rightarrow> field_path list \<Rightarrow> state_store \<Rightarrow> field_path \<Rightarrow> bool" where
  "ages timestamp due st p \<longleftrightarrow> (case map_of (st_entries st) p of
     None \<Rightarrow> False
   | Some e \<Rightarrow> fe_freshness e = Fresh_FRESH \<and> (p \<in> set due \<or>
       (\<exists>max_age \<in> set_option (fe_max_age e). max_age < timestamp - fe_last_observed_monotonic e)))"

lemma ages_overdue:
  "ages timestamp due st p \<longleftrightarrow> (case map_of (st_entries st) p of
     None \<Rightarrow> False
   | Some e \<Rightarrow> fe_freshness e = Fresh_FRESH \<and> (p \<in> set due \<or> overdue timestamp e))"
  by (auto simp: ages_def overdue_def not_le split: option.split)

definition aged_entry :: "field_entry \<Rightarrow> field_entry" where
  "aged_entry e = e\<lparr>fe_freshness := Fresh_STALE, fe_projected := None\<rparr>"

lemma last_freshness_stale:
  "\<forall>t \<in> set ts. ft_current t = Fresh_STALE \<Longrightarrow>
   last_freshness ts p x = (if p \<in> set (map ft_path ts) then Some Fresh_STALE else x)"
  by (induction ts arbitrary: x) auto

definition same_logs :: "state_store \<Rightarrow> state_store \<Rightarrow> bool" where
  "same_logs st st' \<longleftrightarrow>
     st_provider_generation st' = st_provider_generation st \<and> st_state_revision st' = st_state_revision st \<and>
     st_floor_state_revision st' = st_floor_state_revision st \<and>
     st_floor_freshness_revision st' = st_floor_freshness_revision st \<and>
     st_history st' = st_history st \<and> st_max_history_count st' = st_max_history_count st \<and>
     st_retention st' = st_retention st"

lemma stale_loop_spec:
  assumes "entries_ok g (st_entries st)" and "caches_ok st" and "set ps \<subseteq> fst ` set (st_entries st)"
    and "distinct ps"
  shows "\<exists>fs rs st'. stale_loop timestamp due ps st = Inr (fs, rs, st') \<and> same_logs st st' \<and>
    st_freshness_revision st' = st_freshness_revision st + int (length fs) \<and>
    entries_ok g (st_entries st') \<and> caches_ok st' \<and>
    map ft_path fs = filter (ages timestamp due st) ps \<and> map rq_path rs = map ft_path fs \<and>
    (\<forall>t \<in> set fs. ft_current t = Fresh_STALE \<and> st_freshness_revision st < ft_freshness_revision t \<and>
       ft_freshness_revision t \<le> st_freshness_revision st') \<and>
    (\<forall>r \<in> set rs. rq_freshness_revision r \<le> st_freshness_revision st') \<and>
    map_of (st_entries st') = (\<lambda>q. if q \<in> set ps \<and> ages timestamp due st q
       then map_option aged_entry (map_of (st_entries st) q) else map_of (st_entries st) q)"
  using assms
proof (induction ps arbitrary: st)
  case Nil
  then show ?case by (auto simp: same_logs_def)
next
  case (Cons p ps)
  then have "map_of (st_entries st) p \<noteq> None" by (simp add: map_of_eq_None_iff)
  then obtain e where e: "map_of (st_entries st) p = Some e" by blast
  have lookup: "lookup_entry p (st_entries st) = Inr e" by (simp add: lookup_entry_def e)
  show ?case
  proof (cases "ages timestamp due st p")
    case False
    then have skip: "stale_loop timestamp due (p # ps) st = stale_loop timestamp due ps st"
      using e lookup by (auto simp: ages_overdue)
    have "set ps \<subseteq> fst ` set (st_entries st)" "distinct ps" using Cons.prems(3,4) by simp_all
    from Cons.IH [OF Cons.prems(1,2) this] obtain fs rs st' where *:
      "stale_loop timestamp due ps st = Inr (fs, rs, st')" "same_logs st st'"
      "st_freshness_revision st' = st_freshness_revision st + int (length fs)"
      "entries_ok g (st_entries st')" "caches_ok st'"
      "map ft_path fs = filter (ages timestamp due st) ps" "map rq_path rs = map ft_path fs"
      "\<forall>t \<in> set fs. ft_current t = Fresh_STALE \<and> st_freshness_revision st < ft_freshness_revision t \<and>
         ft_freshness_revision t \<le> st_freshness_revision st'"
      "\<forall>r \<in> set rs. rq_freshness_revision r \<le> st_freshness_revision st'"
      "map_of (st_entries st') = (\<lambda>q. if q \<in> set ps \<and> ages timestamp due st q
         then map_option aged_entry (map_of (st_entries st) q) else map_of (st_entries st) q)"
      by blast
    have "map_of (st_entries st') = (\<lambda>q. if q \<in> set (p # ps) \<and> ages timestamp due st q
         then map_option aged_entry (map_of (st_entries st) q) else map_of (st_entries st) q)"
      unfolding *(10) using False by (auto simp: fun_eq_iff)
    then show ?thesis
      unfolding skip using *(1-9) False by (intro exI [of _ fs] exI [of _ rs] exI [of _ st'] conjI) simp_all
  next
    case True
    let ?st = "entry_changed p (set_entry p (e\<lparr>fe_freshness := Fresh_STALE\<rparr>)
      (st\<lparr>st_freshness_revision := st_freshness_revision st + 1\<rparr>))"
    have es: "st_entries ?st = drop_projection p (AList.update p (e\<lparr>fe_freshness := Fresh_STALE\<rparr>) (st_entries st))"
      by (simp add: entry_changed_def set_entry_def)
    have lk: "map_of (st_entries ?st) = (map_of (st_entries st))(p \<mapsto> aged_entry e)"
      by (simp add: es drop_projection_map update_conv' aged_entry_def fun_eq_iff)
    have eok: "entries_ok g (st_entries ?st)"
    proof -
      have "entry_ok g p (aged_entry e)"
        using Cons.prems(1) e unfolding entries_ok_def entry_ok_def by (fastforce simp: aged_entry_def simp del: map_of_eq_Some_iff)
      then have "entries_ok g (AList.update p (aged_entry e) (st_entries st))"
        by (rule entries_ok_update [OF Cons.prems(1)])
      moreover have "st_entries ?st = AList.update p (aged_entry e)
          (AList.update p (e\<lparr>fe_freshness := Fresh_STALE\<rparr>) (st_entries st))"
        by (simp add: es drop_projection_def update_conv' aged_entry_def)
      moreover have "AList.update p x (AList.update p y al) = AList.update p x al" for x y and al :: "(field_path \<times> field_entry) list"
        by (induction al) auto
      ultimately show ?thesis by simp
    qed
    have sp: "sorted_paths (st_entries ?st) = sorted_paths (st_entries st)"
      by (simp add: es update_same [OF e])
    have cok: "caches_ok ?st"
      using Cons.prems(2) sp by (auto simp: caches_ok_def entry_changed_def set_entry_def)
    have "set (sorted_paths (st_entries ?st)) = set (sorted_paths (st_entries st))" using sp by simp
    then have keys: "set ps \<subseteq> fst ` set (st_entries ?st)" and dist: "distinct ps" and new: "p \<notin> set ps"
      using Cons.prems(3,4) by (simp_all add: set_sorted_paths)
    from Cons.IH [OF eok cok keys dist] obtain fs rs st' where *:
      "stale_loop timestamp due ps ?st = Inr (fs, rs, st')" "same_logs ?st st'"
      "st_freshness_revision st' = st_freshness_revision ?st + int (length fs)"
      "entries_ok g (st_entries st')" "caches_ok st'"
      "map ft_path fs = filter (ages timestamp due ?st) ps" "map rq_path rs = map ft_path fs"
      "\<forall>t \<in> set fs. ft_current t = Fresh_STALE \<and> st_freshness_revision ?st < ft_freshness_revision t \<and>
         ft_freshness_revision t \<le> st_freshness_revision st'"
      "\<forall>r \<in> set rs. rq_freshness_revision r \<le> st_freshness_revision st'"
      "map_of (st_entries st') = (\<lambda>q. if q \<in> set ps \<and> ages timestamp due ?st q
         then map_option aged_entry (map_of (st_entries ?st) q) else map_of (st_entries ?st) q)"
      by blast
    have rev: "st_freshness_revision ?st = st_freshness_revision st + 1"
      by (simp add: entry_changed_def set_entry_def)
    let ?t = "\<lparr>ft_path = p, ft_previous = Fresh_FRESH, ft_current = Fresh_STALE,
      ft_freshness_revision = st_freshness_revision ?st, ft_timestamp_monotonic = timestamp\<rparr>"
    let ?r = "\<lparr>rq_path = p, rq_reason = ''stale'', rq_requested_at_monotonic = timestamp,
      rq_state_revision = st_state_revision ?st, rq_freshness_revision = st_freshness_revision ?st,
      rq_max_age = fe_max_age e\<rparr>"
    have step: "stale_loop timestamp due (p # ps) st = Inr (?t # fs, ?r # rs, st')"
      using True e lookup *(1) by (auto simp: ages_overdue Let_def)
    have ages: "ages timestamp due ?st q = ages timestamp due st q" if "q \<in> set ps" for q
      using that new unfolding ages_overdue lk by auto
    have filt: "filter (ages timestamp due ?st) ps = filter (ages timestamp due st) ps"
      by (rule filter_cong [OF refl ages])
    have "map_of (st_entries st') = (\<lambda>q. if q \<in> set (p # ps) \<and> ages timestamp due st q
         then map_option aged_entry (map_of (st_entries st) q) else map_of (st_entries st) q)"
      unfolding *(10) lk using True e new ages by (auto simp: fun_eq_iff)
    moreover have "same_logs st st'" using *(2) by (simp add: same_logs_def entry_changed_def set_entry_def)
    moreover have "map ft_path (?t # fs) = filter (ages timestamp due st) (p # ps)"
      using True *(6) filt by simp
    moreover have "\<forall>t \<in> set (?t # fs). ft_current t = Fresh_STALE \<and>
        st_freshness_revision st < ft_freshness_revision t \<and> ft_freshness_revision t \<le> st_freshness_revision st'"
      using *(3,8) rev by fastforce
    moreover have "\<forall>r \<in> set (?r # rs). rq_freshness_revision r \<le> st_freshness_revision st'"
      using *(3,9) by simp
    moreover have "st_freshness_revision st' = st_freshness_revision st + int (length (?t # fs))"
      using *(3) rev by simp
    moreover have "map rq_path (?r # rs) = map ft_path (?t # fs)" using *(7) by simp
    ultimately show ?thesis unfolding step using *(4,5) by blast
  qed
qed

lemma retention_moves:
  "store_ok st \<Longrightarrow> store_ok (st\<lparr>st_retention := r\<rparr>) \<and> same_view st (st\<lparr>st_retention := r\<rparr>)"
  by (simp add: store_ok_def caches_ok_def history_ok_def same_view_def view_def freshness_of_def fun_eq_iff)

text \<open>The identity of the receiver is fresh but cannot be looked up in a set.\<close>

definition unhashable_slot :: "state_store \<Rightarrow> bool" where
  "unhashable_slot st \<longleftrightarrow> (\<exists>e. map_of (st_entries st) (active_slot_of ''0'') = Some e \<and> fe_freshness e = Fresh_FRESH \<and>
     \<not> hashable (fe_value e))"

text \<open>The common deadline has come.\<close>

definition base_due :: "time \<Rightarrow> state_store \<Rightarrow> bool" where
  "base_due t st \<longleftrightarrow> (\<exists>rr x. st_retention st = Some rr \<and> rr_expires_at rr = Some x \<and> x \<le> t)"

lemma bound_alias_result: "fp_receiver_id p = Some ''0'' \<Longrightarrow> fp_slot p \<in> {Some SLOT_ACTIVE, Some SLOT_UNSELECTED} \<Longrightarrow>
    if unhashable_slot st then bound_alias_path p st = Inl TypeError else \<exists>a. bound_alias_path p st = Inr a"
  by (auto simp: bound_alias_path_def unhashable_slot_def Let_def split: option.split)

lemma relative_slots: "p \<in> set relative_paths \<Longrightarrow> fp_slot p \<in> {Some SLOT_ACTIVE, Some SLOT_UNSELECTED} \<and>
    fp_receiver_id p = Some ''0''"
  by (auto simp: relative_paths_def relative_path_def)

lemma relative_paths_not_Nil: "relative_paths \<noteq> []"
  by (simp add: relative_paths_def relative_names_def)

lemma alias_paths_result:
  "set ps \<subseteq> set relative_paths \<Longrightarrow> ps \<noteq> [] \<Longrightarrow>
    if unhashable_slot st then alias_paths ps st = Inl TypeError else \<exists>as. alias_paths ps st = Inr as"
proof (induction ps)
  case (Cons p ps)
  have p: "if unhashable_slot st then bound_alias_path p st = Inl TypeError else \<exists>a. bound_alias_path p st = Inr a"
    using Cons.prems(1) relative_slots [of p] by (intro bound_alias_result) auto
  show ?case
  proof (cases "ps = []")
    case True
    then show ?thesis using p by (auto split: if_splits)
  next
    case False
    then show ?thesis using p Cons by (auto split: if_splits)
  qed
qed simp

text \<open>The retention of a store, if any, is about the eight relative fields.\<close>

definition relative_retained :: "state_store \<Rightarrow> bool" where
  "relative_retained st \<longleftrightarrow> (\<forall>rr. st_retention st = Some rr \<longrightarrow> rr_paths rr = relative_paths)"

lemma expire_spec:
  "store_ok st \<Longrightarrow> store_ok (snd (expire_relative_vfo now st)) \<and> same_view st (snd (expire_relative_vfo now st)) \<and>
   st_entries (snd (expire_relative_vfo now st)) = st_entries st"
  using retention_moves [of st] by (simp add: expire_relative_vfo_def Let_def split: option.split)

lemma expire_result:
  "relative_retained st \<Longrightarrow> if base_due t st \<and> unhashable_slot st then fst (expire_relative_vfo t st) = Inl TypeError
    else \<exists>due. fst (expire_relative_vfo t st) = Inr due"
proof (cases "base_due t st")
  case True
  assume ret: "relative_retained st"
  obtain rr x where rr: "st_retention st = Some rr" "rr_expires_at rr = Some x" "x \<le> t" using True by (auto simp: base_due_def)
  let ?st = "st\<lparr>st_retention := Some (rr\<lparr>rr_expires_at := None, rr_pending := []\<rparr>)\<rparr>"
  have "unhashable_slot ?st = unhashable_slot st" by (simp add: unhashable_slot_def)
  then show ?thesis using alias_paths_result [of relative_paths ?st] relative_paths_not_Nil rr ret
    by (auto simp: expire_relative_vfo_def relative_retained_def Let_def True split: if_splits)
next
  case False
  then show ?thesis by (auto simp: expire_relative_vfo_def base_due_def split: option.split)
qed

text \<open>Everything there is to say about one aging pass.\<close>

lemma mark_stale_spec:
  assumes ok: "store_ok st" and due: "fst (expire_relative_vfo timestamp st) = Inr due"
  shows "\<exists>delta st'. mark_stale_due timestamp st = (Inr delta, st') \<and> store_ok st' \<and> evolves st st' \<and>
    map ft_path (sd_freshness delta) = filter (ages timestamp due st) (sorted_paths (st_entries st)) \<and>
    map rq_path (sd_requests delta) = map ft_path (sd_freshness delta) \<and>
    st_retention st' = st_retention (snd (expire_relative_vfo timestamp st)) \<and>
    st_state_revision st' = st_state_revision st \<and> st_provider_generation st' = st_provider_generation st \<and>
    map_of (st_entries st') = (\<lambda>q. if ages timestamp due st q
      then map_option aged_entry (map_of (st_entries st) q) else map_of (st_entries st) q)"
proof -
  let ?st1 = "snd (expire_relative_vfo timestamp st)"
  let ?st2 = "snd (paths_in_order ?st1)"
  have e: "store_ok ?st1" "same_view st ?st1" "st_entries ?st1 = st_entries st"
    using expire_spec [OF ok] by blast+
  note p = paths_in_order_spec [OF e(1)]
  have view2: "same_view st ?st2" by (rule same_view_trans [OF e(2) p(3)])
  have es2: "st_entries ?st2 = st_entries st" using p(4) e(3) by simp
  have gen2: "st_provider_generation ?st2 = st_provider_generation st" "st_state_revision ?st2 = st_state_revision st"
    using view2 by (simp_all add: same_view_def)
  have ok2: "entries_ok (st_provider_generation st) (st_entries ?st2)" "caches_ok ?st2"
    using p(2) gen2 by (simp_all add: store_ok_def)
  have keys: "set (sorted_paths (st_entries st)) \<subseteq> fst ` set (st_entries ?st2)"
    by (simp add: set_sorted_paths es2)
  have dist: "distinct (sorted_paths (st_entries st))"
    using ok2(1) es2 by (simp add: sorted_paths_def entries_ok_def)
  have same_ages: "ages timestamp due ?st2 = ages timestamp due st"
    by (simp add: ages_overdue es2 fun_eq_iff)
  obtain fs rs st3 where *:
    "stale_loop timestamp due (sorted_paths (st_entries st)) ?st2 = Inr (fs, rs, st3)" "same_logs ?st2 st3"
    "st_freshness_revision st3 = st_freshness_revision ?st2 + int (length fs)"
    "entries_ok (st_provider_generation st) (st_entries st3)" "caches_ok st3"
    "map ft_path fs = filter (ages timestamp due st) (sorted_paths (st_entries st))"
    "map rq_path rs = map ft_path fs"
    "\<forall>t \<in> set fs. ft_current t = Fresh_STALE \<and> st_freshness_revision ?st2 < ft_freshness_revision t \<and>
         ft_freshness_revision t \<le> st_freshness_revision st3"
    "\<forall>r \<in> set rs. rq_freshness_revision r \<le> st_freshness_revision st3"
    "map_of (st_entries st3) = (\<lambda>q. if q \<in> set (sorted_paths (st_entries st)) \<and> ages timestamp due st q
         then map_option aged_entry (map_of (st_entries st) q) else map_of (st_entries st) q)"
    using stale_loop_spec [OF ok2 keys dist, of timestamp due] unfolding same_ages es2 by blast
  have known: "q \<in> set (sorted_paths (st_entries st))" if "ages timestamp due st q" for q
    using that by (auto simp: ages_overdue set_sorted_paths map_of_eq_None_iff split: option.splits dest: map_of_SomeD intro: rev_image_eqI)
  have map3: "map_of (st_entries st3) = (\<lambda>q. if ages timestamp due st q
      then map_option aged_entry (map_of (st_entries st) q) else map_of (st_entries st) q)"
    unfolding *(10) using known by (auto simp: fun_eq_iff)
  let ?st4 = "append_history [] fs rs st3"
  have un: "unlogged ?st2 st3" using *(2,3) by (simp add: unlogged_def same_logs_def)
  have log: "loggable [] fs rs st3" using *(8,9) by (simp add: loggable_def wf_changes_def)
  have gen3: "st_provider_generation st3 = st_provider_generation ?st2" "st_retention st3 = st_retention ?st2"
    "st_state_revision st3 = st_state_revision ?st2"
    using *(2) by (simp_all add: same_logs_def)
  have "view st3 = view ?st2"
    by (rule ext) (auto simp: view_def map3 es2 aged_entry_def split: option.split)
  then have vals: "py_eq (replay [] (view ?st2) q) (view st3 q)" for q
    using view_wf [OF p(2)] by simp
  have fresh: "last_freshness fs q (freshness_of ?st2 q) = Some (fe_freshness x)"
    if "map_of (st_entries st3) q = Some x" for q x
  proof -
    have stale: "\<forall>t \<in> set fs. ft_current t = Fresh_STALE" using *(8) by blast
    have mem: "q \<in> set (map ft_path fs) \<longleftrightarrow> ages timestamp due st q"
      unfolding *(6) using known by auto
    show ?thesis
      unfolding last_freshness_stale [OF stale] mem
      using that unfolding map3 by (auto simp: freshness_of_def es2 aged_entry_def split: if_splits simp del: map_of_eq_Some_iff)
  qed
  have logged: "evolves ?st2 ?st4 \<and> history_ok ?st4"
    by (rule evolves_log [OF p(2) un log gen3(1) _ _ vals fresh]) (use *(8) in auto)
  have ok4: "store_ok ?st4"
    using logged *(4,5) gen2 gen3 by (simp add: store_ok_def caches_ok_def)
  have "evolves st ?st2" by (rule evolves_same_view [OF ok view2])
  then have "evolves st ?st4" using evolves_trans [OF ok p(2) ok4] logged by blast
  moreover have "mark_stale_due timestamp st = (Inr \<lparr>sd_state_revision = st_state_revision st3,
      sd_freshness_revision = st_freshness_revision st3, sd_observation_seq = st_observation_seq st3,
      sd_changes = [], sd_freshness = fs, sd_requests = rs, sd_requires_full_snapshot = False,
      sd_provider_generation = st_provider_generation st3\<rparr>, ?st4)"
  proof -
    have x: "expire_relative_vfo timestamp st = (Inr due, ?st1)" by (simp add: due [symmetric])
    have ps: "paths_in_order ?st1 = (sorted_paths (st_entries st), ?st2)" using p(1) e(3) by simp
    show ?thesis unfolding mark_stale_due_def Let_def
      by (subst x, unfold prod.case sum.case, subst ps) (simp add: *(1))
  qed
  ultimately show ?thesis
    using ok4 *(6,7) gen2 gen3 p(5) map3 by simp
qed

section \<open>The relative VFO fields share one deadline\<close>

text \<open>
  While a base is committed, every fresh relative field is due at the common deadline; without a base no
  relative field is fresh.
\<close>

definition deadlines_ok :: "bool \<Rightarrow> relative_retention \<Rightarrow> (field_path \<times> field_entry) list \<Rightarrow> bool" where
  "deadlines_ok b rr es \<longleftrightarrow> (b \<longrightarrow> (\<forall>p \<in> set (rr_paths rr). \<forall>e. map_of es p = Some e \<longrightarrow> fe_freshness e = Fresh_FRESH \<longrightarrow>
     (\<exists>x. rr_expires_at rr = Some x \<and> fe_max_age e = Some (x - fe_last_observed_monotonic e))))"

definition pending_ok :: "(field_path \<times> field_observation) list \<Rightarrow> bool" where
  "pending_ok pending \<longleftrightarrow> (\<forall>(p, ob) \<in> set pending. wf_json (fo_value ob) \<and> fo_path ob \<in> set relative_paths)"

definition retention_ok :: "relative_retention \<Rightarrow> bool" where
  "retention_ok rr \<longleftrightarrow> rr_paths rr = relative_paths \<and>
     rr_required_paths rr = filter (\<lambda>p. fp_name p \<in> {''freq_hz'', ''mode''}) relative_paths \<and>
     rr_coherence_window rr \<le> rr_max_age rr \<and> pending_ok (rr_pending rr)"

text \<open>
  The deadlines hold as long as the identity of the receiver can be looked up: a call that raises over it may
  have dropped the deadline of fields that are still fresh. The flag says whether that is claimed; everything else
  holds in any case.
\<close>

definition slot_value :: "state_store \<Rightarrow> json option" where
  "slot_value st = map_option fe_value (map_of (st_entries st) (active_slot_of ''0''))"

definition slot_ok :: "state_store \<Rightarrow> bool" where
  "slot_ok st \<longleftrightarrow> (\<forall>v. slot_value st = Some v \<longrightarrow> hashable v)"

definition relative_ok :: "bool \<Rightarrow> state_store \<Rightarrow> bool" where
  "relative_ok b st \<longleftrightarrow> (b \<longrightarrow> slot_ok st) \<and>
     (\<forall>rr. st_retention st = Some rr \<longrightarrow> retention_ok rr \<and> deadlines_ok b rr (st_entries st))"

definition store_inv :: "bool \<Rightarrow> state_store \<Rightarrow> bool" where
  "store_inv b st \<longleftrightarrow> store_ok st \<and> relative_ok b st"

lemma slot_ok_hashable: "slot_ok st \<Longrightarrow> \<not> unhashable_slot st"
  by (auto simp: slot_ok_def slot_value_def unhashable_slot_def)

lemma slot_ok_value: "slot_ok st \<Longrightarrow> slot_value st' = slot_value st \<or> slot_value st' = None \<Longrightarrow> slot_ok st'"
  by (auto simp: slot_ok_def)

lemma relative_ok_retained: "relative_ok b st \<Longrightarrow> relative_retained st"
  by (auto simp: relative_ok_def relative_retained_def retention_ok_def)

lemma alias_slot: "bound_alias_path p st = Inr (Some a) \<Longrightarrow> fp_slot a \<noteq> None"
  by (auto simp: bound_alias_path_def Let_def split: option.splits if_splits)

lemma alias_not_relative: "bound_alias_path p st = Inr (Some a) \<Longrightarrow> a \<notin> set relative_paths"
  by (auto simp: bound_alias_path_def Let_def split: option.splits if_splits dest: relative_slots)

text \<open>One observation, as far as the deadlines are concerned.\<close>

lemma apply_one_entries:
  "map_of (st_entries (snd (apply_one ob st))) = (if accepts ob st
     then (map_of (st_entries st))(fo_path ob \<mapsto> entry_of_observation (st_provider_generation st) ob)
     else map_of (st_entries st))"
  by (cases "accepts ob st")
    (auto simp: apply_one_accepts apply_one_rejects observed_def observed_map fun_eq_iff)

lemma apply_one_rest:
  "st_retention (snd (apply_one ob st)) = st_retention st"
  "st_provider_generation (snd (apply_one ob st)) = st_provider_generation st"
  by (cases "accepts ob st"; simp add: apply_one_accepts apply_one_rejects observed_def)+

text \<open>Observations that leave the relative fields alone or are due at \<open>x\<close>.\<close>

definition due_at :: "time \<Rightarrow> field_observation \<Rightarrow> bool" where
  "due_at x ob \<longleftrightarrow> fo_path ob \<in> set relative_paths \<longrightarrow> fo_max_age ob = Some (x - fo_timestamp_monotonic ob)"

lemma apply_each_deadlines:
  "retention_ok rr \<Longrightarrow> deadlines_ok b rr (st_entries st) \<Longrightarrow>
   (\<forall>ob \<in> set obs. fo_path ob \<notin> set relative_paths \<or> (\<exists>x. rr_expires_at rr = Some x \<and> due_at x ob)) \<Longrightarrow>
   deadlines_ok b rr (st_entries (snd (apply_each obs st))) \<and>
   st_retention (snd (apply_each obs st)) = st_retention st \<and>
   st_provider_generation (snd (apply_each obs st)) = st_provider_generation st"
proof (induction obs arbitrary: st)
  case (Cons ob obs)
  let ?st = "snd (apply_one ob st)"
  have "deadlines_ok b rr (st_entries ?st)"
    using Cons.prems
    by (auto simp: deadlines_ok_def apply_one_entries due_at_def entry_of_observation_def retention_ok_def)
  moreover have "\<forall>o' \<in> set obs. fo_path o' \<notin> set relative_paths \<or> (\<exists>x. rr_expires_at rr = Some x \<and> due_at x o')"
    using Cons.prems(3) by simp
  ultimately show ?case
    using Cons.IH [of ?st] Cons.prems(1) by (simp add: case_prod_unfold Let_def apply_one_rest)
qed simp

lemma batch_deadlines:
  assumes "retention_ok rr" and "deadlines_ok b rr (st_entries st)"
    and "\<forall>ob \<in> set obs. fo_path ob \<notin> set relative_paths \<or> (\<exists>x. rr_expires_at rr = Some x \<and> due_at x ob)"
  shows "deadlines_ok b rr (st_entries (snd (apply_observation_batch obs now st))) \<and>
    st_retention (snd (apply_observation_batch obs now st)) = st_retention st \<and>
    st_provider_generation (snd (apply_observation_batch obs now st)) = st_provider_generation st"
  using apply_each_deadlines [OF assms] assms(2)
  by (simp add: apply_observation_batch_def case_prod_unfold Let_def)

lemma batch_slots:
  assumes "\<forall>ob \<in> set obs. fp_slot (fo_path ob) \<noteq> None"
  shows "unhashable_slot (snd (apply_observation_batch obs now st)) = unhashable_slot st"
    and "slot_value (snd (apply_observation_batch obs now st)) = slot_value st"
proof -
  have "\<forall>ob \<in> set obs. fp_slot (fo_path ob) \<noteq> None \<Longrightarrow>
      map_of (st_entries (snd (apply_each obs st))) (active_slot_of ''0'') = map_of (st_entries st) (active_slot_of ''0'')" for obs
  proof (induction obs arbitrary: st)
    case (Cons ob obs)
    have "fo_path ob \<noteq> active_slot_of ''0''" using Cons.prems by (auto simp: active_slot_of_def)
    then show ?case using Cons.IH [of "snd (apply_one ob st)"] Cons.prems
      by (simp add: case_prod_unfold Let_def apply_one_entries)
  qed simp
  from this [OF assms] show "unhashable_slot (snd (apply_observation_batch obs now st)) = unhashable_slot st"
    "slot_value (snd (apply_observation_batch obs now st)) = slot_value st"
    by (simp_all add: unhashable_slot_def slot_value_def apply_observation_batch_def case_prod_unfold Let_def)
qed

text \<open>An observation of the identity itself, if there is one, has a hash.\<close>

definition readable :: "field_observation \<Rightarrow> bool" where
  "readable ob \<longleftrightarrow> (fo_path ob = active_slot_of ''0'' \<longrightarrow> hashable (fo_value ob))"

lemma apply_one_slot: "readable ob \<Longrightarrow> slot_ok st \<Longrightarrow> slot_ok (snd (apply_one ob st))"
  by (auto simp: readable_def slot_ok_def slot_value_def apply_one_entries entry_of_observation_def split: if_splits)

lemma batch_slot_ok: "\<forall>ob \<in> set obs. readable ob \<Longrightarrow> slot_ok st \<Longrightarrow> slot_ok (snd (apply_observation_batch obs now st))"
proof -
  have "\<forall>ob \<in> set obs. readable ob \<Longrightarrow> slot_ok st \<Longrightarrow> slot_ok (snd (apply_each obs st))" for st
  proof (induction obs arbitrary: st)
    case (Cons ob obs)
    then show ?case using apply_one_slot [of ob st] by (simp add: case_prod_unfold Let_def)
  qed simp
  then show "\<forall>ob \<in> set obs. readable ob \<Longrightarrow> slot_ok st \<Longrightarrow> slot_ok (snd (apply_observation_batch obs now st))"
    by (simp add: apply_observation_batch_def case_prod_unfold Let_def)
qed

lemma discard_slot: "store_ok st \<Longrightarrow> slot_value (snd (discard ps now st)) = slot_value st \<or> slot_value (snd (discard ps now st)) = None"
  by (simp add: slot_value_def discard_spec(3))

text \<open>Only an identity without a hash keeps the aliases from being found.\<close>

lemma with_bound_aliases_result:
  "\<forall>ob \<in> set obs. fo_path ob \<in> set relative_paths \<Longrightarrow> obs \<noteq> [] \<Longrightarrow>
    if unhashable_slot st then with_bound_aliases obs st = Inl TypeError else \<exists>batch. with_bound_aliases obs st = Inr batch"
proof (induction obs)
  case (Cons ob obs)
  have p: "if unhashable_slot st then bound_alias_path (fo_path ob) st = Inl TypeError
      else \<exists>a. bound_alias_path (fo_path ob) st = Inr a"
    using Cons.prems(1) relative_slots [of "fo_path ob"] by (intro bound_alias_result) auto
  show ?case
  proof (cases "obs = []")
    case True
    then show ?thesis using p by (auto split: if_splits)
  next
    case False
    then show ?thesis using p Cons by (auto split: if_splits)
  qed
qed simp

lemma with_bound_aliases_error:
  "\<forall>ob \<in> set obs. fo_path ob \<in> set relative_paths \<Longrightarrow> with_bound_aliases obs st = Inl e \<Longrightarrow> e = TypeError \<and> unhashable_slot st"
  using with_bound_aliases_result [of obs st] by (cases "obs = []") (auto split: if_splits)

lemma with_bound_aliases_ok:
  "\<forall>ob \<in> set obs. due_at x ob \<and> wf_json (fo_value ob) \<and> fo_path ob \<in> set relative_paths \<Longrightarrow>
   with_bound_aliases obs st = Inr batch \<Longrightarrow>
   \<forall>ob \<in> set batch. due_at x ob \<and> wf_json (fo_value ob) \<and> fp_slot (fo_path ob) \<noteq> None"
proof (induction obs arbitrary: batch)
  case (Cons ob obs)
  obtain al rest where a: "bound_alias_path (fo_path ob) st = Inr al" "with_bound_aliases obs st = Inr rest"
      "batch = (case al of None \<Rightarrow> ob # rest | Some a \<Rightarrow> ob # ob\<lparr>fo_path := a\<rparr> # rest)"
    using Cons.prems(2) by (auto simp: bind_result_Inr_iff)
  have ob: "due_at x ob" "wf_json (fo_value ob)" "fp_slot (fo_path ob) \<noteq> None"
    using Cons.prems(1) relative_slots [of "fo_path ob"] by auto
  have rest: "\<forall>ob \<in> set rest. due_at x ob \<and> wf_json (fo_value ob) \<and> fp_slot (fo_path ob) \<noteq> None"
    using Cons.IH [OF _ a(2)] Cons.prems(1) by simp
  show ?case
  proof (cases al)
    case None
    then show ?thesis using a(3) ob rest by simp
  next
    case (Some p)
    then show ?thesis using a ob rest alias_not_relative [of "fo_path ob" st p] alias_slot [of "fo_path ob" st p]
      by (auto simp: due_at_def)
  qed
qed simp

lemma replace_all_ages_ok:
  "replace_all_ages x obs = Inr obs' \<Longrightarrow> \<forall>ob \<in> set obs. wf_json (fo_value ob) \<and> fo_path ob \<in> set relative_paths \<Longrightarrow>
   (\<forall>ob \<in> set obs'. due_at x ob \<and> wf_json (fo_value ob) \<and> fo_path ob \<in> set relative_paths) \<and> length obs' = length obs"
  by (induction obs arbitrary: obs')
    (auto simp: result_simps replace_max_age_def due_at_def Let_def split: if_splits)

lemma replace_all_ages_total:
  "\<forall>ob \<in> set obs. fo_timestamp_monotonic ob \<le> x \<Longrightarrow> \<exists>obs'. replace_all_ages x obs = Inr obs'"
  by (induction obs) (auto simp: replace_max_age_def Let_def)

lemma update_subset: "set (AList.update k v al) \<subseteq> insert (k, v) (set al)"
  by (induction al) auto

lemma stage_pending_ok:
  "pending_ok pending \<Longrightarrow> \<forall>ob \<in> set obs. wf_json (fo_value ob) \<and> fo_path ob \<in> set relative_paths \<Longrightarrow>
    pending_ok (stage_pending obs pending)"
  unfolding stage_pending_def
proof (induction obs arbitrary: pending)
  case (Cons ob obs)
  have upd: "pending_ok (AList.update (fo_path ob) ob pending)"
    using Cons.prems update_subset [of "fo_path ob" ob pending] by (auto simp: pending_ok_def)
  then show ?case using Cons by (auto split: option.split)
qed simp

lemma max_of_ge: "max_of ts = Some m \<Longrightarrow> t \<in> set ts \<Longrightarrow> t \<le> m"
  by (cases ts) (auto simp: max_of_def Max.set_eq_fold [symmetric])

lemma extend_age_moves: "moves st (extend_age x p st)"
proof (cases "map_of (st_entries st) p")
  case None
  then show ?thesis by (simp add: extend_age_def)
next
  case (Some e)
  let ?e = "e\<lparr>fe_max_age := Some (x - fe_last_observed_monotonic e)\<rparr>"
  let ?es = "drop_projection p (AList.update p ?e (st_entries st))"
  have st: "extend_age x p st = st\<lparr>st_entries := ?es, st_projected_fields := None\<rparr>"
    using Some by (simp add: extend_age_def entry_changed_def set_entry_def)
  have lk: "map_of ?es = (map_of (st_entries st))(p \<mapsto> ?e\<lparr>fe_projected := None\<rparr>)"
    by (simp add: drop_projection_map update_conv' fun_eq_iff)
  show ?thesis
  proof (rule moves_same_view)
    assume ok: "store_ok st"
    then have eok: "entries_ok (st_provider_generation st) (st_entries st)" by (simp add: store_ok_def)
    have "distinct (map fst ?es)"
      using eok by (auto simp: drop_projection_def entries_ok_def distinct_update split: option.split)
    moreover have "entry_ok (st_provider_generation st) q x'" if "map_of ?es q = Some x'" for q x'
      using that eok Some unfolding lk entries_ok_def
      by (auto simp: entry_ok_def split: if_splits simp del: map_of_eq_Some_iff)
    ultimately have "entries_ok (st_provider_generation st) ?es" unfolding entries_ok_def by blast
    moreover have "sorted_paths ?es = sorted_paths (st_entries st)"
      by (simp add: update_same [OF Some])
    ultimately have "store_ok (extend_age x p st)"
      using ok by (simp add: st store_ok_def caches_ok_def history_ok_def)
    moreover have "view (extend_age x p st) = view st" "freshness_of (extend_age x p st) = freshness_of st"
      using Some by (auto simp: st view_def freshness_of_def lk fun_eq_iff)
    ultimately show "store_ok (extend_age x p st) \<and> same_view st (extend_age x p st)"
      by (simp add: st same_view_def)
  qed
qed

definition extend_path :: "time \<Rightarrow> field_path \<Rightarrow> state_store \<Rightarrow> state_store" where
  "extend_path x p st =
     (let st1 = extend_age x p st in case bound_alias_path p st1 of Inr (Some a) \<Rightarrow> extend_age x a st1 | _ \<Rightarrow> st1)"

lemma extend_path_moves: "moves st (extend_path x p st)"
  unfolding extend_path_def Let_def
  by (auto split: option.split sum.split intro: moves_trans extend_age_moves)

lemma extend_all_moves: "moves st (foldl (\<lambda>st p. extend_path x p st) st ps)"
  by (induction ps arbitrary: st) (auto intro: moves_trans extend_path_moves)

lemma extend_age_entries: "map_of (st_entries (extend_age x p st)) q =
    (if q = p then map_option (\<lambda>e. e\<lparr>fe_max_age := Some (x - fe_last_observed_monotonic e), fe_projected := None\<rparr>)
       (map_of (st_entries st) p) else map_of (st_entries st) q)"
  by (auto simp: extend_age_def entry_changed_def set_entry_def drop_projection_map update_conv' split: option.split)

lemma extend_path_entries:
  "q \<in> set relative_paths \<Longrightarrow> map_of (st_entries (extend_path x p st)) q =
    (if q = p then map_option (\<lambda>e. e\<lparr>fe_max_age := Some (x - fe_last_observed_monotonic e), fe_projected := None\<rparr>)
       (map_of (st_entries st) p) else map_of (st_entries st) q)"
  by (auto simp: extend_path_def Let_def extend_age_entries dest: alias_not_relative split: option.split sum.split)

lemma extend_age_slot: "unhashable_slot (extend_age x p st) = unhashable_slot st"
proof -
  have "map_option (\<lambda>e. (fe_freshness e, fe_value e)) (map_of (st_entries (extend_age x p st)) q) =
      map_option (\<lambda>e. (fe_freshness e, fe_value e)) (map_of (st_entries st) q)" for q
    by (simp add: extend_age_entries option.map_comp comp_def)
  moreover have "unhashable_slot st' \<longleftrightarrow> (\<exists>v. map_option (\<lambda>e. (fe_freshness e, fe_value e))
      (map_of (st_entries st') (active_slot_of ''0'')) = Some (Fresh_FRESH, v) \<and> \<not> hashable v)" for st'
    by (auto simp: unhashable_slot_def simp del: map_of_eq_Some_iff)
  ultimately show ?thesis by (simp only:)
qed

lemma extend_all_slot: "slot_value (foldl (\<lambda>st p. extend_path x p st) st ps) = slot_value st"
proof (induction ps arbitrary: st)
  case (Cons p ps)
  have "slot_value (extend_age x q st) = slot_value st" for q st
    by (simp add: slot_value_def extend_age_entries option.map_comp comp_def)
  then have "slot_value (extend_path x p st) = slot_value st"
    by (simp add: extend_path_def Let_def split: sum.split option.split)
  then show ?case using Cons by simp
qed simp

text \<open>So the loop over the relative paths does not raise, and is the fold of its steps.\<close>

lemma extend_paths_fold:
  "\<not> unhashable_slot st \<Longrightarrow> set ps \<subseteq> set relative_paths \<Longrightarrow>
   extend_paths x ps st = (Inr (), foldl (\<lambda>st p. extend_path x p st) st ps)"
proof (induction ps arbitrary: st)
  case (Cons p ps)
  have free: "\<not> unhashable_slot (extend_age x p st)" using Cons.prems(1) by (simp add: extend_age_slot)
  then obtain a where a: "bound_alias_path p (extend_age x p st) = Inr a"
    using bound_alias_result [of p "extend_age x p st"] relative_slots [of p] Cons.prems(2) by auto
  have "extend_paths x (p # ps) st = extend_paths x ps (extend_path x p st)"
    by (cases a) (simp_all add: a extend_path_def Let_def)
  moreover have "\<not> unhashable_slot (extend_path x p st)"
    using free by (cases a) (simp_all add: a extend_path_def Let_def extend_age_slot)
  ultimately show ?case using Cons.IH [of "extend_path x p st"] Cons.prems(2) by simp
qed simp

lemma extend_rest:
  "st_retention (foldl (\<lambda>st p. extend_path x p st) st ps) = st_retention st"
proof (induction ps arbitrary: st)
  case (Cons p ps)
  have "st_retention (extend_age x q st') = st_retention st'" for q st'
    by (simp add: extend_age_def entry_changed_def set_entry_def split: option.split)
  then have "st_retention (extend_path x p st) = st_retention st"
    by (simp add: extend_path_def Let_def split: option.split sum.split)
  then show ?case using Cons by simp
qed simp

lemma extend_generation:
  "st_provider_generation (foldl (\<lambda>st p. extend_path x p st) st ps) = st_provider_generation st"
proof (induction ps arbitrary: st)
  case (Cons p ps)
  have "st_provider_generation (extend_age x q st') = st_provider_generation st'" for q st'
    by (simp add: extend_age_def entry_changed_def set_entry_def split: option.split)
  then have "st_provider_generation (extend_path x p st) = st_provider_generation st"
    by (simp add: extend_path_def Let_def split: option.split sum.split)
  then show ?case using Cons by simp
qed simp

lemma extend_all_none:
  "q \<in> set relative_paths \<Longrightarrow> map_of (st_entries st) q = None \<Longrightarrow>
   map_of (st_entries (foldl (\<lambda>st p. extend_path x p st) st ps)) q = None"
proof (induction ps arbitrary: st)
  case (Cons p ps)
  have "map_of (st_entries (extend_path x p st)) q = None"
    unfolding extend_path_entries [OF Cons.prems(1)] using Cons.prems(2) by auto
  then show ?case using Cons.IH [OF Cons.prems(1)] by simp
qed simp

lemma extend_all_entries:
  "q \<in> set relative_paths \<Longrightarrow> map_of (st_entries (foldl (\<lambda>st p. extend_path x p st) st ps)) q = Some e \<Longrightarrow>
   q \<in> set ps \<or> map_of (st_entries st) q = Some e0 \<and> fe_max_age e0 = Some (x - fe_last_observed_monotonic e0) \<Longrightarrow>
   fe_max_age e = Some (x - fe_last_observed_monotonic e)"
proof (induction ps arbitrary: st e0)
  case (Cons p ps)
  let ?st = "extend_path x p st"
  show ?case
  proof (cases "map_of (st_entries ?st) q")
    case None
    from extend_all_none [OF Cons.prems(1) this, of x ps] Cons.prems(2) show ?thesis
      by (simp del: map_of_eq_Some_iff)
  next
    case (Some e1)
    have "q \<in> set ps \<or> map_of (st_entries ?st) q = Some e1 \<and> fe_max_age e1 = Some (x - fe_last_observed_monotonic e1)"
    proof (cases "q = p")
      case True
      then show ?thesis using Some extend_path_entries [OF Cons.prems(1), of x p st]
        by (cases "map_of (st_entries st) p") (auto simp del: map_of_eq_Some_iff)
    next
      case False
      then have "map_of (st_entries ?st) q = map_of (st_entries st) q"
        using extend_path_entries [OF Cons.prems(1), of x p st] by simp
      from trans [OF sym [OF this] Some] show ?thesis using Some Cons.prems(3) False
        by (auto simp del: map_of_eq_Some_iff)
    qed
    moreover have "map_of (st_entries (foldl (\<lambda>st p. extend_path x p st) ?st ps)) q = Some e"
      using Cons.prems(2) by (simp del: map_of_eq_Some_iff)
    ultimately show ?thesis using Cons.IH [OF Cons.prems(1), of ?st e1] by blast
  qed
qed auto

text \<open>
  What an operation on the relative fields promises, also when it raises: it moves the store and keeps the
  deadlines; and it only raises \<open>TypeError\<close>, over an identity without a hash.
\<close>

definition lands :: "bool \<Rightarrow> state_store \<Rightarrow> 'a result \<times> state_store \<Rightarrow> bool" where
  "lands b st out \<longleftrightarrow> store_inv b (snd out) \<and> evolves st (snd out) \<and>
     st_provider_generation (snd out) = st_provider_generation st \<and>
     (\<forall>e. fst out = Inl e \<longrightarrow> e = TypeError \<and> unhashable_slot st)"

lemma landsI: "store_ok st \<Longrightarrow> moves st st' \<Longrightarrow> relative_ok b st' \<Longrightarrow>
    st_provider_generation st' = st_provider_generation st \<Longrightarrow> lands b st (Inr c, st')"
  by (simp add: lands_def store_inv_def moves_def)

lemma lands_raise: "store_ok st \<Longrightarrow> moves st st' \<Longrightarrow> b \<longrightarrow> slot_ok st \<Longrightarrow> relative_ok False st' \<Longrightarrow>
    st_provider_generation st' = st_provider_generation st \<Longrightarrow> e = TypeError \<Longrightarrow> unhashable_slot st \<Longrightarrow> lands b st (Inl e, st')"
  using slot_ok_hashable by (cases b) (auto simp: lands_def store_inv_def moves_def)

lemma lands_trans:
  assumes "store_ok st" and "store_ok st1" and "evolves st st1"
    and "st_provider_generation st1 = st_provider_generation st" and "lands b st1 out"
    and "unhashable_slot st1 \<Longrightarrow> unhashable_slot st"
  shows "lands b st out"
proof -
  have "evolves st (snd out)"
    using evolves_trans [OF assms(1,2) _ assms(3)] assms(5) by (simp add: lands_def store_inv_def)
  then show ?thesis using assms(4,5,6) by (auto simp: lands_def)
qed

lemma relative_ok_False: "relative_ok b st \<Longrightarrow> relative_ok False st"
  by (auto simp: relative_ok_def deadlines_ok_def)

lemma relative_ok_mono:
  assumes "relative_ok b st" and "st_retention st' = st_retention st" and "slot_value st' = slot_value st \<or> slot_value st' = None"
    and "\<And>q e. map_of (st_entries st') q = Some e \<Longrightarrow> fe_freshness e = Fresh_FRESH \<Longrightarrow> q \<in> set relative_paths \<Longrightarrow>
      map_of (st_entries st) q = Some e"
  shows "relative_ok b st'"
proof -
  have "b \<longrightarrow> slot_ok st'" using assms(1) slot_ok_value [OF _ assms(3)] by (simp add: relative_ok_def)
  moreover have "retention_ok rr \<and> deadlines_ok b rr (st_entries st')" if "st_retention st' = Some rr" for rr
    using assms(1,2,4) that unfolding relative_ok_def deadlines_ok_def retention_ok_def by metis
  ultimately show ?thesis by (simp add: relative_ok_def)
qed

lemma discard_relative_ok:
  assumes "store_ok st" and "relative_ok b st"
  shows "relative_ok b (snd (discard ps now st))"
proof (rule relative_ok_mono [OF assms(2) _ discard_slot [OF assms(1)]])
  show "st_retention (snd (discard ps now st)) = st_retention st" by (rule discard_spec(4) [OF assms(1)])
  show "map_of (st_entries st) q = Some e" if "map_of (st_entries (snd (discard ps now st))) q = Some e" for q e
    using that unfolding discard_spec(3) [OF assms(1)] by (auto split: if_splits)
qed

lemma session_paths_relative: "set (rr_paths rr) \<subseteq> set (relative_session_paths rr)"
  by (auto simp: relative_session_paths_def)

lemma reset_lands:
  assumes "store_inv b st"
  shows "lands b st (Inr c, snd (reset_relative_vfo_retention generation now st))"
proof (cases "st_retention st")
  case None
  then show ?thesis using assms
    by (auto simp: reset_relative_vfo_retention_def store_inv_def intro!: landsI)
next
  case (Some rr)
  let ?rr = "rr\<lparr>rr_generation := generation, rr_pending := [], rr_expires_at := None\<rparr>"
  let ?st = "st\<lparr>st_retention := Some ?rr\<rparr>"
  let ?st' = "snd (discard (relative_session_paths ?rr) now ?st)"
  have ok: "store_ok st" using assms by (simp add: store_inv_def)
  note r = retention_moves [OF ok, of "Some ?rr"]
  have "moves st ?st" by (rule moves_same_view) (rule r)
  then have m: "moves st ?st'" by (rule moves_trans) (rule discard_moves)
  note d = discard_spec [OF conjunct1 [OF r], of "relative_session_paths ?rr" now]
  have "slot_ok ?st'" if "slot_ok st"
    using slot_ok_value [OF that, of ?st'] discard_slot [OF conjunct1 [OF r]] by (simp add: slot_value_def)
  then have "relative_ok b ?st'"
    using assms Some session_paths_relative [of ?rr]
    by (auto simp: relative_ok_def store_inv_def retention_ok_def pending_ok_def deadlines_ok_def d split: if_splits)
  then show ?thesis
    using Some landsI [OF ok m] d(5)
    by (simp add: reset_relative_vfo_retention_def Let_def)
qed

lemma with_retention_moves: "moves st (with_retention f st)"
  unfolding with_retention_def by (rule moves_same_view) (rule retention_moves)

lemma pending_part_wf:
  "pending_ok pending \<Longrightarrow> \<forall>ob \<in> set (filter P (map snd pending)). wf_json (fo_value ob) \<and> fo_path ob \<in> set relative_paths"
  by (auto simp: pending_ok_def)

lemma deadlines_pending [simp]: "deadlines_ok b (rr\<lparr>rr_pending := x\<rparr>) es = deadlines_ok b rr es"
  by (simp add: deadlines_ok_def)

lemma retention_drop_pending: "retention_ok rr \<Longrightarrow> retention_ok (rr\<lparr>rr_pending := []\<rparr>)"
  by (simp add: retention_ok_def pending_ok_def)

lemma retention_expires [simp]: "retention_ok (rr\<lparr>rr_expires_at := x\<rparr>) = retention_ok rr"
  by (simp add: retention_ok_def)

text \<open>Entries under a new deadline.\<close>

lemma relative_ok_retention:
  "st_retention st = Some rr \<Longrightarrow> retention_ok rr \<Longrightarrow> deadlines_ok b rr (st_entries st) \<Longrightarrow> (b \<Longrightarrow> slot_ok st) \<Longrightarrow> relative_ok b st"
  by (simp add: relative_ok_def)

lemma commit_base_lands:
  assumes ok: "store_ok st" and ret: "retention_ok rr"
    and pend: "st_retention st = Some rr" and cur: "complete_at rr = Some latest" and slot: "b \<longrightarrow> slot_ok st"
  shows "lands b st (commit_base rr latest changesets now st)"
proof -
  let ?x = "latest + rr_max_age rr"
  let ?rr = "rr\<lparr>rr_expires_at := Some ?x\<rparr>"
  let ?st1 = "st\<lparr>st_retention := Some ?rr\<rparr>"
  let ?obs = "filter (\<lambda>ob. \<bar>latest - fo_timestamp_monotonic ob\<bar> \<le> rr_coherence_window rr) (map snd (rr_pending rr))"
  have wf: "\<forall>ob \<in> set ?obs. wf_json (fo_value ob) \<and> fo_path ob \<in> set relative_paths"
    using ret by (intro pending_part_wf) (simp add: retention_ok_def)
  have "\<forall>ob \<in> set ?obs. fo_timestamp_monotonic ob \<le> ?x"
    using ret by (auto simp: retention_ok_def)
  then obtain committed where c: "replace_all_ages ?x ?obs = Inr committed"
    using replace_all_ages_total by blast
  note r = retention_moves [OF ok, of "Some ?rr"]
  let ?st2 = "snd (discard (rr_paths rr) now ?st1)"
  note d = discard_spec [OF conjunct1 [OF r], of "rr_paths rr" now]
  have "moves st ?st1" by (rule moves_same_view) (rule r)
  moreover have "moves ?st1 ?st2" by (rule discard_moves)
  ultimately have m2: "moves st ?st2" using moves_trans by blast
  have rr': "retention_ok ?rr" using ret by simp
  have dl2: "deadlines_ok b ?rr (st_entries ?st2)"
    unfolding deadlines_ok_def d(3) by simp
  have slot2: "slot_value ?st2 = slot_value st \<or> slot_value ?st2 = None"
    using discard_slot [OF conjunct1 [OF r], of "rr_paths rr" now] by (simp add: slot_value_def)
  have all: "\<forall>ob \<in> set committed. due_at ?x ob \<and> wf_json (fo_value ob) \<and> fo_path ob \<in> set relative_paths"
    using replace_all_ages_ok [OF c wf] by blast
  show ?thesis
  proof (cases "with_bound_aliases committed ?st2")
    case (Inl e)
    have "e = TypeError" "unhashable_slot ?st2" using with_bound_aliases_error [OF _ Inl] all by blast+
    moreover from this(2) have "unhashable_slot st" unfolding unhashable_slot_def d(3) by (auto split: if_splits)
    moreover have "relative_ok False ?st2" using rr' by (simp add: relative_ok_def deadlines_ok_def d(4))
    ultimately have "lands b st (Inl e, ?st2)" using lands_raise [OF ok m2 slot] d(5) by simp
    then show ?thesis by (simp add: commit_base_def Let_def c case_prod_unfold Inl)
  next
    case (Inr batch)
    have al: "\<forall>ob \<in> set batch. due_at ?x ob \<and> wf_json (fo_value ob) \<and> fp_slot (fo_path ob) \<noteq> None"
      by (rule with_bound_aliases_ok [OF all Inr])
    let ?st3 = "snd (apply_observation_batch batch now ?st2)"
    have "\<forall>ob \<in> set batch. fo_path ob \<notin> set relative_paths \<or> (\<exists>x. rr_expires_at ?rr = Some x \<and> due_at x ob)"
      using al by simp
    with dl2 have b: "deadlines_ok b ?rr (st_entries ?st3)" "st_retention ?st3 = st_retention ?st2"
      "st_provider_generation ?st3 = st_provider_generation ?st2"
      using batch_deadlines [OF rr', of b ?st2 _ now] by blast+
    let ?st4 = "with_retention (\<lambda>rr. rr\<lparr>rr_pending := []\<rparr>) ?st3"
    have "moves ?st2 ?st3" by (rule batch_moves) (use al in blast)
    then have m: "moves st ?st4" using m2 with_retention_moves moves_trans by blast
    have "st_retention ?st4 = Some (?rr\<lparr>rr_pending := []\<rparr>)" "st_entries ?st4 = st_entries ?st3"
      using b(2) d(4) by (simp_all add: with_retention_def)
    moreover have "retention_ok (?rr\<lparr>rr_pending := []\<rparr>)" using rr' by (rule retention_drop_pending)
    moreover have "deadlines_ok b (?rr\<lparr>rr_pending := []\<rparr>) (st_entries ?st3)"
      using b(1) unfolding deadlines_pending .
    moreover have "slot_ok ?st4" if b
    proof -
      have "slot_value ?st4 = slot_value ?st2"
        using batch_slots(2) [of batch now ?st2] al by (simp add: with_retention_def slot_value_def)
      then show ?thesis using slot slot2 that slot_ok_value [of st ?st4] by simp
    qed
    ultimately have rel: "relative_ok b ?st4" by (metis relative_ok_retention)
    have "st_provider_generation ?st4 = st_provider_generation st"
      using b(3) d(5) by (simp add: with_retention_def)
    from landsI [OF ok m rel this] show ?thesis
      by (simp add: commit_base_def Let_def c Inr case_prod_unfold)
  qed
qed

lemma patch_base_lands:
  assumes ok: "store_ok st" and ret: "retention_ok rr" and pend: "st_retention st = Some rr"
    and dl: "deadlines_ok b rr (st_entries st)" and x: "rr_expires_at rr = Some x"
    and wf: "\<forall>ob \<in> set relative. wf_json (fo_value ob) \<and> fo_path ob \<in> set relative_paths" and some: "relative \<noteq> []"
    and times: "\<forall>ob \<in> set relative. fo_timestamp_monotonic ob \<le> x" and slot: "b \<longrightarrow> slot_ok st"
  shows "lands b st (patch_base rr x relative changesets now st)"
proof -
  obtain immediate where c: "replace_all_ages x relative = Inr immediate"
    using replace_all_ages_total [OF times] by blast
  have all: "\<forall>ob \<in> set immediate. due_at x ob \<and> wf_json (fo_value ob) \<and> fo_path ob \<in> set relative_paths" "immediate \<noteq> []"
    using replace_all_ages_ok [OF c wf] some by auto
  have rel0: "relative_ok b st" by (rule relative_ok_retention [OF pend ret dl]) (use slot in simp)
  show ?thesis
  proof (cases "with_bound_aliases immediate st")
    case (Inl e)
    have "e = TypeError" "unhashable_slot st" using with_bound_aliases_error [OF _ Inl] all by blast+
    then have "lands b st (Inl e, st)" using lands_raise [OF ok moves_refl slot relative_ok_False [OF rel0]] by simp
    then show ?thesis by (simp add: patch_base_def c Inl)
  next
    case (Inr batch)
    have free: "\<not> unhashable_slot st"
      using with_bound_aliases_result [of immediate st] all Inr by (auto split: if_splits)
    have al: "\<forall>ob \<in> set batch. due_at x ob \<and> wf_json (fo_value ob) \<and> fp_slot (fo_path ob) \<noteq> None"
      by (rule with_bound_aliases_ok [OF all(1) Inr])
    let ?st1 = "snd (apply_observation_batch batch now st)"
    have "\<forall>ob \<in> set batch. fo_path ob \<notin> set relative_paths \<or> (\<exists>x. rr_expires_at rr = Some x \<and> due_at x ob)"
      using al x by blast
    then have b: "deadlines_ok b rr (st_entries ?st1)" "st_retention ?st1 = Some rr"
      "st_provider_generation ?st1 = st_provider_generation st"
      using batch_deadlines [OF ret dl, of _ now] pend by fastforce+
    have m1: "moves st ?st1" by (rule batch_moves) (use al in blast)
    have slot1: "slot_value ?st1 = slot_value st" using batch_slots(2) [of batch now st] al by blast
    show ?thesis
    proof (cases "complete_at rr")
      case None
      have "relative_ok b ?st1" by (rule relative_ok_retention [OF b(2) ret b(1)]) (use slot slot1 slot_ok_value in blast)
      from landsI [OF ok m1 this b(3)] show ?thesis
        by (simp add: patch_base_def Let_def c Inr None case_prod_unfold)
    next
      case (Some latest)
      let ?x = "latest + rr_max_age rr"
      let ?rr = "rr\<lparr>rr_expires_at := Some ?x\<rparr>"
      let ?st2 = "with_retention (\<lambda>rr. rr\<lparr>rr_expires_at := Some ?x\<rparr>) ?st1"
      let ?st3 = "foldl (\<lambda>st p. extend_path ?x p st) ?st2 (rr_paths rr)"
      let ?st4 = "with_retention (\<lambda>rr. rr\<lparr>rr_pending := []\<rparr>) ?st3"
      have "unhashable_slot ?st2 = unhashable_slot ?st1" by (simp add: unhashable_slot_def with_retention_def)
      then have "\<not> unhashable_slot ?st2" using batch_slots(1) [of batch now st] al free by blast
      then have loop: "extend_paths ?x (rr_paths rr) ?st2 = (Inr (), ?st3)"
        by (rule extend_paths_fold) (use ret in \<open>simp add: retention_ok_def\<close>)
      have m: "moves st ?st4" using m1 with_retention_moves extend_all_moves moves_trans by meson
      have "deadlines_ok b ?rr (st_entries ?st3)"
        unfolding deadlines_ok_def
        using extend_all_entries [of _ ?x ?st2 "rr_paths rr"] ret
        by (auto simp: retention_ok_def simp del: map_of_eq_Some_iff)
      then have "deadlines_ok b (?rr\<lparr>rr_pending := []\<rparr>) (st_entries ?st4)"
        by (simp add: with_retention_def)
      moreover have "st_retention ?st4 = Some (?rr\<lparr>rr_pending := []\<rparr>)"
        using b(2) by (simp add: with_retention_def extend_rest)
      moreover have "retention_ok (?rr\<lparr>rr_pending := []\<rparr>)" using ret by (intro retention_drop_pending) simp
      moreover have "slot_value ?st4 = slot_value st"
        using slot1 extend_all_slot [of ?x ?st2 "rr_paths rr"] by (simp add: with_retention_def slot_value_def)
      then have "b \<Longrightarrow> slot_ok ?st4" using slot slot_ok_value by blast
      ultimately have rel: "relative_ok b ?st4" by (metis relative_ok_retention)
      have "st_provider_generation ?st4 = st_provider_generation st"
        using b(3) by (simp add: with_retention_def extend_generation)
      from landsI [OF ok m rel this] show ?thesis
        by (simp add: patch_base_def Let_def c Inr Some case_prod_unfold loop)
    qed
  qed
qed

lemma stage_relative_lands:
  assumes inv: "store_inv b st" and wf: "\<forall>ob \<in> set relative. wf_json (fo_value ob) \<and> fo_path ob \<in> set relative_paths"
    and some: "relative \<noteq> []"
    and times: "\<And>rr x. st_retention st = Some rr \<Longrightarrow> rr_expires_at rr = Some x \<Longrightarrow>
      \<forall>ob \<in> set relative. fo_timestamp_monotonic ob \<le> x"
  shows "lands b st (stage_relative relative generation changesets now st)"
proof (cases "st_retention st")
  case None
  then show ?thesis using inv by (auto simp: stage_relative_def store_inv_def intro!: landsI)
next
  case (Some rr0)
  have ok: "store_ok st" and ret: "retention_ok rr0" and dl: "deadlines_ok b rr0 (st_entries st)" and slot: "b \<longrightarrow> slot_ok st"
    using inv Some by (simp_all add: store_inv_def relative_ok_def)
  show ?thesis
  proof (cases "list_ex (\<lambda>ob. fo_path ob \<in> set (rr_required_paths rr0) \<and> fo_value ob = JNull) relative")
    case True
    then show ?thesis
      using reset_lands [OF inv, of _ generation now] Some
      by (simp add: stage_relative_def Let_def case_prod_unfold)
  next
    case False
    let ?rr = "rr0\<lparr>rr_pending := stage_pending relative (rr_pending rr0)\<rparr>"
    let ?st = "st\<lparr>st_retention := Some ?rr\<rparr>"
    note r = retention_moves [OF ok, of "Some ?rr"]
    have ret': "retention_ok ?rr"
      using ret stage_pending_ok [OF _ wf, of "rr_pending rr0"] by (simp add: retention_ok_def)
    have dl': "deadlines_ok b ?rr (st_entries ?st)" using dl by simp
    have slot': "b \<longrightarrow> slot_ok ?st" using slot by (simp add: slot_ok_def slot_value_def)
    have ev: "evolves st ?st" by (rule evolves_same_view [OF ok conjunct2 [OF r]])
    have "lands b ?st (case rr_expires_at ?rr of
                 Some expires \<Rightarrow> patch_base ?rr expires relative changesets now ?st
               | None \<Rightarrow>
                   (case complete_at ?rr of
                      None \<Rightarrow> (Inr (merge_changesets changesets now ?st), ?st)
                    | Some latest \<Rightarrow> commit_base ?rr latest changesets now ?st))"
    proof (cases "rr_expires_at ?rr")
      case (Some x)
      then show ?thesis
        using patch_base_lands [OF conjunct1 [OF r] ret' _ dl' Some wf some _ slot'] times \<open>st_retention st = Some rr0\<close>
        by simp
    next
      case None
      have rel: "relative_ok b ?st" by (rule relative_ok_retention [OF _ ret' dl']) (use slot' in simp_all)
      show ?thesis
      proof (cases "complete_at ?rr")
        case None': None
        from landsI [OF conjunct1 [OF r] moves_refl rel refl] show ?thesis
          using None None' by simp
      next
        case (Some latest)
        then show ?thesis
          using commit_base_lands [OF conjunct1 [OF r] ret' _ Some slot'] None by simp
      qed
    qed
    then have "lands b st (case rr_expires_at ?rr of
                 Some expires \<Rightarrow> patch_base ?rr expires relative changesets now ?st
               | None \<Rightarrow>
                   (case complete_at ?rr of
                      None \<Rightarrow> (Inr (merge_changesets changesets now ?st), ?st)
                    | Some latest \<Rightarrow> commit_base ?rr latest changesets now ?st))"
      by (rule lands_trans [OF ok conjunct1 [OF r] ev, rotated]) (simp_all add: unhashable_slot_def)
    then show ?thesis by (simp only: stage_relative_def Some option.case False if_False Let_def)
  qed
qed

lemma mark_stale_inv:
  assumes inv: "store_inv b st"
  shows "if base_due t st \<and> unhashable_slot st
    then mark_stale_due t st = (Inl TypeError, snd (expire_relative_vfo t st)) \<and> lands b st (mark_stale_due t st)
    else \<exists>delta. fst (mark_stale_due t st) = Inr delta \<and> lands b st (mark_stale_due t st) \<and>
      (\<forall>rr x. st_retention (snd (mark_stale_due t st)) = Some rr \<longrightarrow> rr_expires_at rr = Some x \<longrightarrow> t < x) \<and>
      (unhashable_slot (snd (mark_stale_due t st)) \<longrightarrow> unhashable_slot st)"
proof -
  have ok: "store_ok st" and rel: "relative_ok b st" using inv by (simp_all add: store_inv_def)
  note res = expire_result [OF relative_ok_retained [OF rel], of t]
  show ?thesis
  proof (cases "base_due t st \<and> unhashable_slot st")
    case True
    then obtain rr x where rr: "st_retention st = Some rr" "rr_expires_at rr = Some x" "x \<le> t" by (auto simp: base_due_def)
    let ?rr = "rr\<lparr>rr_expires_at := None, rr_pending := []\<rparr>"
    let ?st = "snd (expire_relative_vfo t st)"
    have e: "expire_relative_vfo t st = (Inl TypeError, ?st)" using res True by (simp add: prod_eq_iff)
    have st: "?st = st\<lparr>st_retention := Some ?rr\<rparr>" using rr by (simp add: expire_relative_vfo_def Let_def)
    have mark: "mark_stale_due t st = (Inl TypeError, ?st)" unfolding mark_stale_due_def Let_def by (subst e) simp
    have m: "moves st ?st" unfolding st by (rule moves_same_view) (rule retention_moves)
    have "relative_ok False ?st"
      using rel rr(1) by (auto simp: st relative_ok_def deadlines_ok_def retention_ok_def pending_ok_def)
    moreover have "b \<longrightarrow> slot_ok st" using rel by (simp add: relative_ok_def)
    moreover have "st_provider_generation ?st = st_provider_generation st" by (simp add: st)
    ultimately have "lands b st (Inl TypeError :: snapshot_delta result, ?st)"
      using lands_raise [OF ok m] True by blast
    then show ?thesis using mark True by simp
  next
    case False
    then obtain due where due: "fst (expire_relative_vfo t st) = Inr due" using res by auto
    obtain delta st' where m: "mark_stale_due t st = (Inr delta, st')" "store_ok st'" "evolves st st'"
      "st_retention st' = st_retention (snd (expire_relative_vfo t st))"
      "st_provider_generation st' = st_provider_generation st"
      "map_of (st_entries st') = (\<lambda>q. if ages t due st q
        then map_option aged_entry (map_of (st_entries st) q) else map_of (st_entries st) q)"
      using mark_stale_spec [OF ok due] by blast
    have fresh: "map_of (st_entries st) q = Some e \<and> \<not> ages t due st q"
      if "map_of (st_entries st') q = Some e" "fe_freshness e = Fresh_FRESH" for q e
      using that unfolding m(6) by (auto simp: aged_entry_def split: if_splits simp del: map_of_eq_Some_iff)
    have slot: "slot_value st' = slot_value st"
      by (simp add: slot_value_def m(6) aged_entry_def option.map_comp comp_def)
    have "relative_ok b st' \<and> (\<forall>rr x. st_retention st' = Some rr \<longrightarrow> rr_expires_at rr = Some x \<longrightarrow> t < x)"
    proof (cases "base_due t st")
      case False
      then have same: "st_retention st' = st_retention st" "\<And>rr x. st_retention st = Some rr \<Longrightarrow> rr_expires_at rr = Some x \<Longrightarrow> t < x"
        using m(4) by (auto simp: expire_relative_vfo_def base_due_def split: option.splits)
      have "relative_ok b st'"
        by (rule relative_ok_mono [OF rel same(1) disjI1 [OF slot]]) (use fresh in blast)
      then show ?thesis using same by simp
    next
      case True
      then obtain rr x where rr: "st_retention st = Some rr" "rr_expires_at rr = Some x" "x \<le> t"
        by (auto simp: base_due_def)
      then have sub: "set (rr_paths rr) \<subseteq> set due" and
        ret: "st_retention st' = Some (rr\<lparr>rr_expires_at := None, rr_pending := []\<rparr>)"
        using m(4) due by (auto simp: expire_relative_vfo_def Let_def bind_result_Inr_iff)
      have "deadlines_ok b (rr\<lparr>rr_expires_at := None, rr_pending := []\<rparr>) (st_entries st')"
        using fresh sub by (fastforce simp: deadlines_ok_def ages_overdue simp del: map_of_eq_Some_iff)
      moreover have "retention_ok (rr\<lparr>rr_expires_at := None, rr_pending := []\<rparr>)"
        using rel rr(1) by (simp add: relative_ok_def retention_ok_def pending_ok_def)
      moreover have "b \<Longrightarrow> slot_ok st'" using rel slot slot_ok_value [of st st'] by (simp add: relative_ok_def)
      ultimately show ?thesis using relative_ok_retention [OF ret] ret by simp
    qed
    moreover have "unhashable_slot st'  \<Longrightarrow> unhashable_slot st"
      unfolding unhashable_slot_def using fresh by blast
    ultimately show ?thesis using m False by (auto simp: lands_def store_inv_def)
  qed
qed

lemma apply_each_rest:
  "st_retention (snd (apply_each obs st)) = st_retention st \<and>
   st_provider_generation (snd (apply_each obs st)) = st_provider_generation st"
proof (induction obs arbitrary: st)
  case (Cons ob obs)
  then show ?case by (simp add: case_prod_unfold Let_def apply_one_rest)
qed simp

lemma relative_part_wf:
  "\<forall>ob \<in> set batch. wf_json (fo_value ob) \<Longrightarrow> rr_paths rr = relative_paths \<Longrightarrow>
   \<forall>ob \<in> set (relative_part batch rr st). wf_json (fo_value ob) \<and> fo_path ob \<in> set relative_paths"
  by (simp add: relative_part_def)

lemma apply_relative_lands:
  assumes inv: "store_inv b st" and wf: "\<forall>ob \<in> set batch. wf_json (fo_value ob)"
    and read: "b \<longrightarrow> (\<forall>ob \<in> set batch. readable ob)"
  shows "lands b st (apply_relative_vfo_observations batch generation now st)"
proof (cases "st_retention st")
  case None
  let ?st = "snd (apply_observation_batch batch now st)"
  have "st_retention ?st = None" "st_provider_generation ?st = st_provider_generation st"
    using None apply_each_rest [of batch st] by (simp_all add: apply_observation_batch_def case_prod_unfold Let_def)
  moreover have "b \<longrightarrow> slot_ok ?st"
    using batch_slot_ok [of batch st now] read inv by (simp add: store_inv_def relative_ok_def)
  ultimately show ?thesis
    using landsI [of st ?st b "fst (apply_observation_batch batch now st)"] batch_moves [OF wf, of st now] inv None
    by (simp add: apply_relative_vfo_observations_def store_inv_def relative_ok_def case_prod_unfold Let_def)
next
  case (Some rr)
  have ok: "store_ok st" and rel: "relative_ok b st" using inv by (simp_all add: store_inv_def)
  have stay: "lands b st (Inr c, st)" for c :: change_set using landsI [OF ok moves_refl rel] by simp
  let ?rel = "relative_part batch rr st"
  have wf': "\<forall>ob \<in> set ?rel. wf_json (fo_value ob) \<and> fo_path ob \<in> set relative_paths"
    by (rule relative_part_wf [OF wf]) (use rel Some in \<open>simp add: relative_ok_def retention_ok_def\<close>)
  show ?thesis
  proof (cases "batch = [] \<or> generation \<noteq> rr_generation rr \<or>
      list_ex (\<lambda>ob. \<not> is_current_observation ob st) batch")
    case True
    then show ?thesis using stay Some by (simp add: apply_relative_vfo_observations_def)
  next
    case current: False
    show ?thesis
    proof (cases "max_of (map fo_timestamp_monotonic ?rel)")
      case None
      then show ?thesis using stay Some current by (simp add: apply_relative_vfo_observations_def Let_def)
    next
      case newest: (Some t)
      have le: "\<forall>ob \<in> set ?rel. fo_timestamp_monotonic ob \<le> t" using max_of_ge [OF newest] by simp
      have some: "?rel \<noteq> []" using newest by (auto simp: max_of_def)
      show ?thesis
      proof (cases "case rr_expires_at rr of None \<Rightarrow> False | Some x \<Rightarrow> t \<ge> x")
        case True
        obtain res st1 where mark: "mark_stale_due t st = (res, st1)" by fastforce
        note m = mark_stale_inv [OF inv, of t, unfolded mark fst_conv snd_conv]
        have l: "lands b st (res, st1)" using m by (auto split: if_splits)
        show ?thesis
        proof (cases res)
          case (Inl e)
          have "lands b st (Inl e :: change_set result, st1)" using l by (simp add: lands_def Inl)
          then show ?thesis
            using Some current newest True by (simp add: apply_relative_vfo_observations_def Let_def mark Inl)
        next
          case (Inr delta)
          have m1: "\<And>rr x. st_retention st1 = Some rr \<Longrightarrow> rr_expires_at rr = Some x \<Longrightarrow> t < x"
              "unhashable_slot st1 \<Longrightarrow> unhashable_slot st"
            using m Inr by (auto split: if_splits)
          have st1: "store_inv b st1" "evolves st st1" "st_provider_generation st1 = st_provider_generation st"
            using l by (simp_all add: lands_def)
          have "\<forall>ob \<in> set ?rel. fo_timestamp_monotonic ob \<le> x"
            if "st_retention st1 = Some rr'" "rr_expires_at rr' = Some x" for rr' x
            using m1(1) [OF that] le by fastforce
          then have "lands b st1 (stage_relative ?rel generation cs now st1)" for cs
            by (rule stage_relative_lands [OF st1(1) wf' some])
          moreover have "store_ok st1" using st1(1) by (simp add: store_inv_def)
          ultimately have "lands b st (stage_relative ?rel generation cs now st1)" for cs
            using lands_trans [OF ok _ st1(2,3) _ m1(2)] by blast
          then show ?thesis
            using Some current newest True by (simp add: apply_relative_vfo_observations_def Let_def mark Inr)
        qed
      next
        case False
        have "\<forall>ob \<in> set ?rel. fo_timestamp_monotonic ob \<le> x"
          if "st_retention st = Some rr'" "rr_expires_at rr' = Some x" for rr' x
          using that False Some le by fastforce
        then have "lands b st (stage_relative ?rel generation [] now st)"
          by (rule stage_relative_lands [OF inv wf' some])
        then show ?thesis using Some current newest False
          by (simp add: apply_relative_vfo_observations_def Let_def)
      qed
    qed
  qed
qed

lemma apply_observation_lands:
  assumes inv: "store_inv b st" and wf: "wf_json (fo_value ob)" and read: "b \<longrightarrow> readable ob"
  shows "lands b st (apply_observation ob now st)"
proof -
  have ok: "store_ok st" and rel: "relative_ok b st" using inv by (simp_all add: store_inv_def)
  have one: "lands b st (Inr (fst (apply_one ob st)), snd (apply_one ob st))"
    if "\<And>rr. st_retention st = Some rr \<Longrightarrow> fo_path ob \<notin> set (rr_paths rr)"
  proof -
    have "b \<longrightarrow> slot_ok (snd (apply_one ob st))" using rel read apply_one_slot by (simp add: relative_ok_def)
    then have "relative_ok b (snd (apply_one ob st))"
      using rel that
      by (auto simp: relative_ok_def deadlines_ok_def apply_one_rest apply_one_entries split: if_splits)
    then show ?thesis
      using landsI [OF ok apply_one_moves [OF wf]] apply_one_rest by simp
  qed
  have "lands b st (Inr c, st)" for c :: change_set using landsI [OF ok moves_refl rel] by simp
  then show ?thesis
    using one apply_relative_lands [OF inv, of "[ob]"] wf read
    by (auto simp: apply_observation_def case_prod_unfold Let_def split: option.split)
qed

lemma relative_readable: "fo_path ob \<in> set relative_paths \<Longrightarrow> readable ob"
  using relative_slots [of "fo_path ob"] by (auto simp: readable_def active_slot_of_def)

lemma configure_inv:
  assumes inv: "store_inv b st" and win: "coherence_window \<le> max_age"
    and args: "0 \<le> generation" "0 < coherence_window"
  shows "lands b st (configure_relative_vfo_retention generation max_age coherence_window now st)"
proof -
  have ok: "store_ok st" and rel: "relative_ok b st" using inv by (simp_all add: store_inv_def)
  let ?existing = "map (\<lambda>(p, e). observation_of_entry p e)
              (filter (\<lambda>(p, e). p \<in> set relative_paths \<and> fe_freshness e = Fresh_FRESH \<and>
                 \<not> overdue now e) (st_entries st))"
  let ?st1 = "snd (discard relative_paths now st)"
  let ?rr = "\<lparr>rr_generation = generation,
                    rr_required_paths = filter (\<lambda>p. fp_name p \<in> {''freq_hz'', ''mode''}) relative_paths,
                    rr_paths = relative_paths, rr_max_age = max_age,
                    rr_coherence_window = coherence_window, rr_pending = [], rr_expires_at = None\<rparr>"
  let ?st2 = "?st1\<lparr>st_retention := Some ?rr\<rparr>"
  note d = discard_spec [OF ok, of relative_paths now]
  note r = retention_moves [OF d(1), of "Some ?rr"]
  have "fe_value e = fe_value e \<and> wf_json (fe_value e)" if "(p, e) \<in> set (st_entries st)" for p e
    using that ok by (auto simp: store_ok_def entries_ok_def entry_ok_def)
  then have wf: "\<forall>ob \<in> set ?existing. wf_json (fo_value ob)"
    by (auto simp: observation_of_entry_def)
  have read: "\<forall>ob \<in> set ?existing. readable ob"
    by (auto simp: observation_of_entry_def intro: relative_readable)
  have "retention_ok ?rr" using win by (simp add: retention_ok_def pending_ok_def)
  moreover have "deadlines_ok b ?rr (st_entries ?st2)" unfolding deadlines_ok_def using d(3) by simp
  moreover have slot: "slot_value ?st2 = slot_value st \<or> slot_value ?st2 = None"
    using discard_slot [OF ok, of relative_paths now] by (simp add: slot_value_def)
  ultimately have "relative_ok b ?st2"
    using relative_ok_retention [of ?st2 ?rr b] rel slot_ok_value [of st ?st2] by (simp add: relative_ok_def)
  then have "store_inv b ?st2" using r by (simp add: store_inv_def)
  from apply_relative_lands [OF this wf] read
  have "lands b ?st2 (apply_relative_vfo_observations ?existing generation now ?st2)" by blast
  moreover have "evolves st ?st2"
    using evolves_trans [OF ok d(1) conjunct1 [OF r] d(2) evolves_same_view [OF d(1) conjunct2 [OF r]]] .
  moreover have "st_provider_generation ?st2 = st_provider_generation st" using d(5) by simp
  moreover have "unhashable_slot ?st2 \<Longrightarrow> unhashable_slot st"
    unfolding unhashable_slot_def using d(3) by (auto split: if_splits)
  ultimately have l: "lands b st (apply_relative_vfo_observations ?existing generation now ?st2)"
    using lands_trans [OF ok conjunct1 [OF r]] by blast
  obtain res st3 where res: "apply_relative_vfo_observations ?existing generation now ?st2 = (res, st3)" by fastforce
  have "configure_relative_vfo_retention generation max_age coherence_window now st =
      (case res of Inl e \<Rightarrow> Inl e | Inr _ \<Rightarrow> Inr (), st3)"
    unfolding configure_relative_vfo_retention_def Let_def
    using args win by (subst res) (simp split: sum.split)
  then show ?thesis using l unfolding res by (auto simp: lands_def split: sum.splits)
qed

section \<open>Provider generations\<close>

lemma replay_removals: "(\<forall>c \<in> set cs. fc_current c = JNull) \<Longrightarrow>
    replay cs m p = (if p \<in> fc_path ` set cs then JNull else m p)"
  by (induction cs arbitrary: m) auto

lemma begin_inv:
  assumes inv: "store_inv b st"
  shows "store_inv b (snd (begin_provider_generation st))" and "evolves st (snd (begin_provider_generation st))"
    and "st_entries (snd (begin_provider_generation st)) = []"
    and "st_provider_generation (snd (begin_provider_generation st)) = st_provider_generation st + 1"
proof -
  let ?rr = "map_option (\<lambda>rr. rr\<lparr>rr_pending := [], rr_expires_at := None\<rparr>) (st_retention st)"
  let ?removed = "map (\<lambda>(p, e). \<lparr>fc_path = p, fc_previous = fe_value e, fc_current = JNull\<rparr>)
            (sort_key (\<lambda>(p, _). path_str p) (st_entries st))"
  let ?st2 = "st\<lparr>st_provider_generation := st_provider_generation st + 1, st_retention := ?rr,
    st_entries := [], st_ordered_paths := None, st_projected_fields := None\<rparr>"
  let ?st3 = "if ?removed = [] then ?st2
    else append_history ?removed [] [] (?st2\<lparr>st_state_revision := st_state_revision st + 1\<rparr>)"
  have st': "snd (begin_provider_generation st) = ?st3\<lparr>st_notified := st_notified ?st3 @
      map (\<lambda>subscriber. (st_provider_generation ?st3, subscriber)) (st_subscribers ?st3)\<rparr>"
    by (simp add: begin_provider_generation_def Let_def paths_changed_def)
  have ok: "store_ok st" and rel: "relative_ok b st" using inv by (simp_all add: store_inv_def)
  have hist: "history_ok st" using ok by (simp add: store_ok_def)
  have un: "unlogged st (?st2\<lparr>st_state_revision := st_state_revision st + 1\<rparr>)" by (simp add: unlogged_def)
  have log: "loggable ?removed [] [] (?st2\<lparr>st_state_revision := st_state_revision st + 1\<rparr>)"
    by (auto simp: loggable_def wf_changes_def)
  have h3: "history_ok ?st3 \<and> st_floor_state_revision st \<le> st_floor_state_revision ?st3 \<and>
      st_floor_freshness_revision st \<le> st_floor_freshness_revision ?st3"
  proof (cases "?removed = []")
    case True
    then show ?thesis using hist by (simp add: history_ok_def)
  next
    case False
    then show ?thesis using append_history_spec [OF hist un log] by auto
  qed
  have parts: "st_entries ?st3 = []" "st_provider_generation ?st3 = st_provider_generation st + 1"
    "st_retention ?st3 = ?rr" "st_ordered_paths ?st3 = None" "st_projected_fields ?st3 = None"
    "st_state_revision st \<le> st_state_revision ?st3" "st_freshness_revision st = st_freshness_revision ?st3"
    by simp_all
  show "st_entries (snd (begin_provider_generation st)) = []"
    "st_provider_generation (snd (begin_provider_generation st)) = st_provider_generation st + 1"
    unfolding st' using parts by simp_all
  show "evolves st (snd (begin_provider_generation st))"
    unfolding st' evolves_def using parts h3 by simp
  have "store_ok (snd (begin_provider_generation st))"
    unfolding st' using parts h3 by (simp add: store_ok_def entries_ok_def caches_ok_def history_ok_def)
  moreover have "relative_ok b (snd (begin_provider_generation st))"
    unfolding st' using parts rel
    by (auto simp: relative_ok_def deadlines_ok_def retention_ok_def pending_ok_def slot_ok_def slot_value_def)
  ultimately show "store_inv b (snd (begin_provider_generation st))" by (simp add: store_inv_def)
qed

section \<open>Runs\<close>

datatype store_event =
    Observe field_observation time
  | ObserveCurrent field_observation time
  | ObserveRelative "field_observation list" int time
  | Discard "field_path list" time
  | MarkStale time
  | Snapshot time
  | ReadField field_path
  | DeltaSince store_snapshot
  | BeginGeneration
  | ConfigureRetention int time time time
  | ResetRetention int time
  | Subscribe nat
  | Unsubscribe nat

text \<open>What a call leaves, with its result dropped.\<close>

definition called :: "'a result \<times> state_store \<Rightarrow> unit result \<times> state_store" where
  "called out = (case fst out of Inl e \<Rightarrow> Inl e | Inr _ \<Rightarrow> Inr (), snd out)"

definition read_from :: "state_store \<Rightarrow> ('a \<times> state_store) result \<Rightarrow> unit result \<times> state_store" where
  "read_from st r = (case r of Inl e \<Rightarrow> (Inl e, st) | Inr (_, st') \<Rightarrow> (Inr (), st'))"

fun store_step :: "store_event \<Rightarrow> state_store \<Rightarrow> unit result \<times> state_store" where
  "store_step (Observe ob now) st = called (apply_observation ob now st)"
| "store_step (ObserveCurrent ob now) st = called (apply_current ob now st)"
| "store_step (ObserveRelative obs generation now) st = called (apply_relative_vfo_observations obs generation now st)"
| "store_step (Discard paths now) st = (Inr (), snd (discard paths now st))"
| "store_step (MarkStale t) st = called (mark_stale_due t st)"
| "store_step (Snapshot now) st = read_from st (take_snapshot now st)"
| "store_step (ReadField p) st = read_from st (store_field_of p st)"
| "store_step (DeltaSince sn) st = read_from st (Inr (delta_since sn st, st))"
| "store_step BeginGeneration st = (Inr (), snd (begin_provider_generation st))"
| "store_step (ConfigureRetention generation max_age window now) st =
     configure_relative_vfo_retention generation max_age window now st"
| "store_step (ResetRetention generation now) st = (Inr (), snd (reset_relative_vfo_retention generation now st))"
| "store_step (Subscribe n) st = (Inr (), subscribe_provider_generation n st)"
| "store_step (Unsubscribe n) st = (Inr (), unsubscribe_provider_generation n st)"

definition after :: "state_store \<Rightarrow> store_event \<Rightarrow> state_store" where
  "after st ev = snd (store_step ev st)"

definition store_run :: "store_event list \<Rightarrow> state_store \<Rightarrow> state_store" where
  "store_run evs st = foldl after st evs"

text \<open>Values are well-formed JSON trees; the coherence window is at most the retention time, as in every caller.\<close>

fun event_ok :: "store_event \<Rightarrow> bool" where
  "event_ok (Observe ob _) = wf_json (fo_value ob)"
| "event_ok (ObserveCurrent ob _) = wf_json (fo_value ob)"
| "event_ok (ObserveRelative obs _ _) = list_all (\<lambda>ob. wf_json (fo_value ob)) obs"
| "event_ok (ConfigureRetention _ max_age window _) = (window \<le> max_age)"
| "event_ok _ = True"

text \<open>The observed A/B identity, if it is observed, has a hash: the code's callers observe strings.\<close>

fun readable_event :: "store_event \<Rightarrow> bool" where
  "readable_event (Observe ob _) = readable ob"
| "readable_event (ObserveCurrent ob _) = readable ob"
| "readable_event (ObserveRelative obs _ _) = list_all readable obs"
| "readable_event _ = True"

definition raises :: "store_event \<Rightarrow> state_store \<Rightarrow> py_error option" where
  "raises ev st = (case ev of
       ReadField p \<Rightarrow> if p \<in> set (map fst (st_entries st)) then None else Some KeyError
     | ConfigureRetention generation max_age window _ \<Rightarrow>
         if generation < 0 \<or> max_age \<le> 0 \<or> window \<le> 0 then Some ValueError else None
     | _ \<Rightarrow> None)"

text \<open>What is shown of a call: the store stays in order, and the call raises what it should.\<close>

definition goes_well :: "bool \<Rightarrow> store_event \<Rightarrow> state_store \<Rightarrow> bool" where
  "goes_well b ev st \<longleftrightarrow> store_inv b (after st ev) \<and> evolves st (after st ev) \<and>
     (case raises ev st of
        Some e \<Rightarrow> store_step ev st = (Inl e, st)
      | None \<Rightarrow> \<forall>e. fst (store_step ev st) = Inl e \<longrightarrow> e = TypeError \<and> unhashable_slot st)"

lemma goes_well_lands: "lands b st out \<Longrightarrow> store_step ev st = called out \<Longrightarrow> raises ev st = None \<Longrightarrow> goes_well b ev st"
  by (auto simp: goes_well_def after_def called_def lands_def split: sum.splits)

lemma goes_well_returns: "store_step ev st = (Inr (), st') \<Longrightarrow> raises ev st = None \<Longrightarrow> store_inv b st' \<Longrightarrow> evolves st st' \<Longrightarrow>
    goes_well b ev st"
  by (simp add: goes_well_def after_def)

lemma same_view_inv:
  assumes "store_inv b st" and "store_ok st'" and "same_view st st'" and "relative_ok b st'"
  shows "store_inv b st' \<and> evolves st st'"
  using assms evolves_same_view by (simp add: store_inv_def)

lemma relative_ok_same_entries:
  assumes "relative_ok b st" and "st_retention st' = st_retention st" and same: "same_entries (st_entries st) (st_entries st')"
  shows "relative_ok b st'"
proof -
  have erased: "\<exists>e0. map_of (st_entries st) q = Some e0 \<and> fe_freshness e0 = fe_freshness e \<and> fe_max_age e0 = fe_max_age e \<and>
      fe_last_observed_monotonic e0 = fe_last_observed_monotonic e \<and> fe_value e0 = fe_value e"
    if e: "map_of (st_entries st') q = Some e" for q e
  proof -
    have "map_option erase (map_of (st_entries st) q) = map_option erase (map_of (st_entries st') q)"
      using same unfolding same_entries_def by simp
    then obtain e0 where "map_of (st_entries st) q = Some e0" "erase e0 = erase e"
      using e by (cases "map_of (st_entries st) q") auto
    then show ?thesis
      by (intro exI [of _ e0]) (simp add: erase_def, metis field_entry.ext_inject field_entry.surjective field_entry.update_convs(9))
  qed
  have "slot_value st' = slot_value st \<or> slot_value st' = None"
  proof (cases "map_of (st_entries st') (active_slot_of ''0'')")
    case (Some e)
    then show ?thesis using erased [OF Some] by (auto simp: slot_value_def simp del: map_of_eq_Some_iff)
  qed (simp add: slot_value_def)
  then have "b \<longrightarrow> slot_ok st'" using assms(1) slot_ok_value [of st st'] by (simp add: relative_ok_def)
  moreover have "retention_ok rr \<and> deadlines_ok b rr (st_entries st')" if "st_retention st' = Some rr" for rr
    using assms(1,2) that erased unfolding relative_ok_def deadlines_ok_def by metis
  ultimately show ?thesis by (simp add: relative_ok_def)
qed

lemma rest_inv:
  assumes "store_inv b st" and "st' = st\<lparr>st_subscribers := subs\<rparr>"
  shows "store_inv b st' \<and> evolves st st'"
  using assms evolves_same_view [of st st']
  by (simp add: store_inv_def store_ok_def caches_ok_def history_ok_def relative_ok_def slot_ok_def slot_value_def
      same_view_def view_def freshness_of_def fun_eq_iff)

lemma mark_stale_lands: "store_inv b st \<Longrightarrow> lands b st (mark_stale_due t st)"
  using mark_stale_inv [of b st t] by (auto split: if_splits)

lemma store_step_goes_well:
  assumes inv: "store_inv b st" and ev: "event_ok ev" and read: "b \<longrightarrow> readable_event ev"
  shows "goes_well b ev st"
proof -
  have ok: "store_ok st" and rel: "relative_ok b st" using inv by (simp_all add: store_inv_def)
  show ?thesis
  proof (cases ev)
    case (Observe ob now)
    have "lands b st (apply_observation ob now st)"
      by (rule apply_observation_lands [OF inv]) (use ev read Observe in simp_all)
    then show ?thesis by (rule goes_well_lands) (simp_all add: Observe raises_def)
  next
    case (ObserveCurrent ob now)
    have "lands b st (apply_current ob now st)"
      unfolding apply_current_def
      by (rule apply_observation_lands [OF inv]) (use ev read ObserveCurrent in \<open>simp_all add: readable_def\<close>)
    then show ?thesis by (rule goes_well_lands) (simp_all add: ObserveCurrent raises_def)
  next
    case (ObserveRelative obs g now)
    have "lands b st (apply_relative_vfo_observations obs g now st)"
      by (rule apply_relative_lands [OF inv]) (use ev read ObserveRelative in \<open>simp_all add: list_all_iff\<close>)
    then show ?thesis by (rule goes_well_lands) (simp_all add: ObserveRelative raises_def)
  next
    case (Discard ps now)
    have "store_inv b (snd (discard ps now st))"
      using discard_relative_ok [OF ok rel] discard_spec(1) [OF ok] by (simp add: store_inv_def)
    then show ?thesis
      using goes_well_returns [of ev st "snd (discard ps now st)" b] discard_spec(2) [OF ok] Discard by (simp add: raises_def)
  next
    case (MarkStale t)
    show ?thesis by (rule goes_well_lands [OF mark_stale_lands [OF inv]]) (simp_all add: MarkStale raises_def)
  next
    case (Snapshot now)
    obtain sn st' where sn: "take_snapshot now st = Inr (sn, st')" "store_ok st'" "same_view st st'"
      "st_retention st' = st_retention st" "same_entries (st_entries st) (st_entries st')"
      using take_snapshot_spec [OF ok] by blast
    then show ?thesis
      using same_view_inv [OF inv, of st'] relative_ok_same_entries [OF rel, of st'] Snapshot
        goes_well_returns [of ev st st' b] by (simp add: raises_def read_from_def)
  next
    case (ReadField p)
    show ?thesis
    proof (cases "map_of (st_entries st) p")
      case None
      then have "p \<notin> set (map fst (st_entries st))" by (simp add: map_of_eq_None_iff)
      then show ?thesis using ReadField store_field_spec [OF ok, of p] None inv evolves_refl [OF ok]
        by (simp add: raises_def goes_well_def after_def read_from_def)
    next
      case (Some e)
      obtain st' where "store_field_of p st = Inr (field_snapshot_of p e, st')" "store_ok st'" "same_view st st'"
        "st_retention st' = st_retention st" "same_entries (st_entries st) (st_entries st')"
        using store_field_spec [OF ok, of p] Some by auto
      moreover have "p \<in> set (map fst (st_entries st))" using Some by (force dest: map_of_SomeD)
      ultimately show ?thesis
        using same_view_inv [OF inv, of st'] relative_ok_same_entries [OF rel, of st'] ReadField
          goes_well_returns [of ev st st' b] by (simp add: raises_def read_from_def)
    qed
  next
    case (DeltaSince sn)
    then show ?thesis using goes_well_returns [of ev st st b] inv evolves_refl [OF ok] by (simp add: raises_def read_from_def)
  next
    case BeginGeneration
    then show ?thesis
      using begin_inv [OF inv] goes_well_returns [of ev st "snd (begin_provider_generation st)" b] by (simp add: raises_def)
  next
    case (ConfigureRetention g age w now)
    show ?thesis
    proof (cases "g < 0 \<or> age \<le> 0 \<or> w \<le> 0")
      case True
      then show ?thesis using ConfigureRetention inv evolves_refl [OF ok]
        by (simp add: raises_def configure_relative_vfo_retention_def goes_well_def after_def)
    next
      case False
      have "lands b st (configure_relative_vfo_retention g age w now st)"
        using configure_inv [OF inv, of w age g now] ConfigureRetention ev False by simp
      then show ?thesis using ConfigureRetention False by (auto simp: raises_def goes_well_def after_def lands_def)
    qed
  next
    case (ResetRetention g now)
    have "lands b st (Inr (), snd (reset_relative_vfo_retention g now st))" by (rule reset_lands [OF inv])
    then show ?thesis by (rule goes_well_lands) (simp_all add: ResetRetention raises_def called_def)
  next
    case (Subscribe n)
    then show ?thesis
      using rest_inv [OF inv, of "subscribe_provider_generation n st"] goes_well_returns [of ev st _ b]
      by (simp add: raises_def subscribe_provider_generation_def)
  next
    case (Unsubscribe n)
    then show ?thesis
      using rest_inv [OF inv, of "unsubscribe_provider_generation n st"] goes_well_returns [of ev st _ b]
      by (simp add: raises_def unsubscribe_provider_generation_def)
  qed
qed

lemma after_inv:
  assumes "store_inv b st" and "event_ok ev" and "b \<longrightarrow> readable_event ev"
  shows "store_inv b (after st ev) \<and> evolves st (after st ev)"
  using store_step_goes_well [OF assms] by (simp add: goes_well_def)

lemma store_run_inv:
  "store_inv b st \<Longrightarrow> list_all event_ok evs \<Longrightarrow> b \<longrightarrow> list_all readable_event evs \<Longrightarrow>
   store_inv b (store_run evs st) \<and> evolves st (store_run evs st)"
proof (induction evs arbitrary: st)
  case (Cons ev evs)
  have a: "store_inv b (after st ev)" "evolves st (after st ev)" using after_inv Cons.prems by simp_all
  have b: "store_inv b (store_run evs (after st ev))" "evolves (after st ev) (store_run evs (after st ev))"
    using Cons.IH [OF a(1)] Cons.prems(2,3) by simp_all
  have "evolves st (store_run evs (after st ev))"
    by (rule evolves_trans [OF _ _ _ a(2) b(2)]) (use Cons.prems(1) a(1) b(1) in \<open>simp_all add: store_inv_def\<close>)
  then show ?case using b(1) by (simp add: store_run_def)
qed (simp add: store_run_def store_inv_def evolves_refl)

text \<open>The part of the invariant that needs no hash.\<close>

lemmas store_run_ok = store_run_inv [where b = False, simplified]

lemma new_inv: "store_new limit = Inr st \<Longrightarrow> store_inv b st"
  by (auto simp: store_new_def store_inv_def store_ok_def entries_ok_def caches_ok_def history_ok_def
      relative_ok_def slot_ok_def slot_value_def split: if_splits)

section \<open>Deltas\<close>

definition snapshot_item :: "store_snapshot \<Rightarrow> field_path \<Rightarrow> store_field option" where
  "snapshot_item sn p = map_of (map (\<lambda>f. (sf_path f, f)) (sn_fields sn)) p"

definition snapshot_value :: "store_snapshot \<Rightarrow> field_path \<Rightarrow> json" where
  "snapshot_value sn p = (case snapshot_item sn p of None \<Rightarrow> JNull | Some f \<Rightarrow> sf_value f)"

definition snapshot_freshness :: "store_snapshot \<Rightarrow> field_path \<Rightarrow> freshness_state option" where
  "snapshot_freshness sn p = map_option sf_freshness (snapshot_item sn p)"

lemma field_snapshot_parts [simp]:
  "sf_path (field_snapshot_of p e) = p" "sf_value (field_snapshot_of p e) = fe_value e"
  "sf_freshness (field_snapshot_of p e) = fe_freshness e"
  "sf_provider_generation (field_snapshot_of p e) = fe_provider_generation e"
  by (simp_all add: field_snapshot_of_def)

lemma reference_lookup:
  "map_of (map (\<lambda>f. (sf_path f, f)) (reference_fields es)) p = map_option (field_snapshot_of p) (map_of es p)"
proof -
  have "map (\<lambda>f. (sf_path f, f)) (reference_fields es) =
      map (\<lambda>p. (p, field_snapshot_of p (the (map_of es p)))) (sorted_paths es)"
    by (simp add: reference_fields_def)
  then have "map_of (map (\<lambda>f. (sf_path f, f)) (reference_fields es)) p =
      (if p \<in> set (sorted_paths es) then Some (field_snapshot_of p (the (map_of es p))) else None)"
    by (simp add: map_of_map_restrict restrict_map_def)
  moreover have "p \<in> set (sorted_paths es) \<longleftrightarrow> map_of es p \<noteq> None"
    by (simp add: set_sorted_paths map_of_eq_None_iff)
  ultimately show ?thesis by auto
qed

lemma snapshot_shows:
  assumes "store_ok st" and "take_snapshot t st = Inr (sn, st')"
  shows "sn_fields sn = reference_fields (st_entries st)" and "snapshot_value sn = view st"
    and "snapshot_freshness sn = freshness_of st" and "sn_state_revision sn = st_state_revision st"
    and "sn_freshness_revision sn = st_freshness_revision st"
    and "sn_provider_generation sn = st_provider_generation st" and "same_view st st'"
proof -
  have *: "sn_fields sn = reference_fields (st_entries st) \<and> sn_state_revision sn = st_state_revision st \<and>
      sn_freshness_revision sn = st_freshness_revision st \<and>
      sn_provider_generation sn = st_provider_generation st \<and> same_view st st'"
    using take_snapshot_spec [OF assms(1), of t] assms(2) by auto
  then show "sn_fields sn = reference_fields (st_entries st)" "sn_state_revision sn = st_state_revision st"
    "sn_freshness_revision sn = st_freshness_revision st"
    "sn_provider_generation sn = st_provider_generation st" "same_view st st'" by blast+
  have "snapshot_item sn p = map_option (field_snapshot_of p) (map_of (st_entries st) p)" for p
    using * by (simp add: snapshot_item_def reference_lookup)
  then show "snapshot_value sn = view st" "snapshot_freshness sn = freshness_of st"
    by (auto simp: snapshot_value_def snapshot_freshness_def view_def freshness_of_def fun_eq_iff option.map_comp comp_def
        split: option.split simp del: map_of_eq_Some_iff)
qed

lemma snapshot_then_run:
  assumes "store_new limit = Inr st0" and "list_all event_ok (evs @ evs')"
    and "take_snapshot t (store_run evs st0) = Inr (sn, st1)"
  shows "store_inv False (store_run evs st0)" and "store_inv False st1" and "store_inv False (store_run evs' st1)"
    and "evolves st1 (store_run evs' st1)"
proof -
  show a: "store_inv False (store_run evs st0)" using store_run_ok [OF new_inv [OF assms(1)], of evs] assms(2) by simp
  have "after (store_run evs st0) (Snapshot t) = st1" using assms(3) by (simp add: after_def read_from_def)
  then show b: "store_inv False st1" using after_inv [OF a, of "Snapshot t"] by simp
  show "store_inv False (store_run evs' st1)" "evolves st1 (store_run evs' st1)"
    using store_run_ok [OF b, of evs'] assms(2) by simp_all
qed

lemma concat_filter_all: "(\<And>d. d \<in> set ds \<Longrightarrow> \<not> P d \<Longrightarrow> f d = []) \<Longrightarrow> concat (map f (filter P ds)) = concat (map f ds)"
  by (induction ds) auto

lemma concat_filter_none: "(\<And>d. d \<in> set ds \<Longrightarrow> P d \<Longrightarrow> f d = []) \<Longrightarrow> concat (map f (filter P ds)) = []"
  by (induction ds) auto

lemma concat_none: "(\<And>d. d \<in> set ds \<Longrightarrow> f d = []) \<Longrightarrow> concat (map f ds) = []"
  by (induction ds) auto

lemma concat_same: "(\<And>d. d \<in> set ds \<Longrightarrow> f d = g d) \<Longrightarrow> concat (map f ds) = concat (map g ds)"
  by (induction ds) auto

text \<open>The changes of a delta, whenever the state floor has not passed the snapshot.\<close>

lemma logged_changes:
  assumes ok: "store_ok st" and ev: "evolves st st'"
    and gen: "st_provider_generation st = st_provider_generation st'"
    and floor: "st_floor_state_revision st' \<le> st_state_revision st"
  shows "py_eq (replay (concat (map sd_changes (filter (\<lambda>d. sd_state_revision d > st_state_revision st)
      (st_history st')))) (view st) p) (view st' p)"
proof -
  let ?P = "\<lambda>d. sd_state_revision d > st_state_revision st"
  obtain ds k where d: "k \<le> length (st_history st @ ds)" "st_history st' = drop k (st_history st @ ds)"
    "\<forall>d \<in> set (take k (st_history st @ ds)).
            (sd_changes d \<noteq> [] \<longrightarrow> sd_state_revision d \<le> st_floor_state_revision st') \<and>
            (sd_freshness d \<noteq> [] \<longrightarrow> sd_freshness_revision d \<le> st_floor_freshness_revision st')"
    "\<forall>d \<in> set ds. delta_ok d \<and>
            (sd_changes d \<noteq> [] \<longrightarrow> st_state_revision st < sd_state_revision d) \<and>
            (\<forall>t \<in> set (sd_freshness d). st_freshness_revision st < ft_freshness_revision t)"
    "\<forall>p. py_eq (replay (concat (map sd_changes ds)) (view st) p) (view st' p)"
    using ev gen unfolding evolves_def by blast
  let ?cut = "concat (map sd_changes (filter ?P (take k (st_history st @ ds))))"
  have "?cut = []" using d(3) floor by (intro concat_filter_none) fastforce
  then have "concat (map sd_changes (filter ?P (st_history st'))) =
      concat (map sd_changes (filter ?P (take k (st_history st @ ds) @ st_history st')))"
    by simp
  also have "\<dots> = concat (map sd_changes (filter ?P (st_history st @ ds)))"
    unfolding d(2) append_take_drop_id ..
  also have "\<dots> = concat (map sd_changes (filter ?P (st_history st))) @ concat (map sd_changes (filter ?P ds))"
    by simp
  also have "concat (map sd_changes (filter ?P (st_history st))) = []"
    using ok by (intro concat_filter_none) (auto simp: store_ok_def history_ok_def)
  also have "concat (map sd_changes (filter ?P ds)) = concat (map sd_changes ds)"
    using d(4) by (intro concat_filter_all) blast
  finally show ?thesis using d(5) by simp
qed

lemma logged_freshness:
  assumes ok: "store_ok st" and ev: "evolves st st'"
    and gen: "st_provider_generation st = st_provider_generation st'"
    and floor: "st_floor_freshness_revision st' \<le> st_freshness_revision st"
    and ok': "store_ok st'" and e: "map_of (st_entries st') p = Some e"
  shows "last_freshness (concat (map (\<lambda>d. filter (\<lambda>t. ft_freshness_revision t > st_freshness_revision st)
      (sd_freshness d)) (st_history st'))) p (freshness_of st p) = Some (fe_freshness e)"
proof -
  let ?g = "\<lambda>d. filter (\<lambda>t. ft_freshness_revision t > st_freshness_revision st) (sd_freshness d)"
  obtain ds k where d: "k \<le> length (st_history st @ ds)" "st_history st' = drop k (st_history st @ ds)"
    "\<forall>d \<in> set (take k (st_history st @ ds)).
            (sd_changes d \<noteq> [] \<longrightarrow> sd_state_revision d \<le> st_floor_state_revision st') \<and>
            (sd_freshness d \<noteq> [] \<longrightarrow> sd_freshness_revision d \<le> st_floor_freshness_revision st')"
    "\<forall>d \<in> set ds. delta_ok d \<and>
            (sd_changes d \<noteq> [] \<longrightarrow> st_state_revision st < sd_state_revision d) \<and>
            (\<forall>t \<in> set (sd_freshness d). st_freshness_revision st < ft_freshness_revision t)"
    "\<forall>p e. map_of (st_entries st') p = Some e \<longrightarrow>
            last_freshness (concat (map sd_freshness ds)) p (freshness_of st p) = Some (fe_freshness e)"
    using ev gen unfolding evolves_def by blast
  have dok: "delta_ok d" if "d \<in> set (st_history st @ ds)" for d
    using that d(4) ok by (auto simp: store_ok_def history_ok_def)
  have "?g x = []" if "x \<in> set (take k (st_history st @ ds))" for x
  proof -
    have "delta_ok x" using that dok in_set_takeD by fast
    moreover have "sd_freshness x \<noteq> [] \<longrightarrow> sd_freshness_revision x \<le> st_freshness_revision st"
      using d(3) that floor by fastforce
    ultimately show ?thesis unfolding delta_ok_def filter_empty_conv by fastforce
  qed
  then have "concat (map ?g (st_history st')) = concat (map ?g (take k (st_history st @ ds) @ st_history st'))"
    by (simp add: concat_none)
  also have "\<dots> = concat (map ?g (st_history st @ ds))"
    unfolding d(2) append_take_drop_id ..
  also have "\<dots> = concat (map ?g (st_history st)) @ concat (map ?g ds)" by simp
  also have "concat (map ?g (st_history st)) = []"
  proof (rule concat_none)
    fix x assume "x \<in> set (st_history st)"
    then have "delta_ok x \<and> sd_freshness_revision x \<le> st_freshness_revision st"
      using ok by (simp add: store_ok_def history_ok_def)
    then show "?g x = []" unfolding delta_ok_def filter_empty_conv by fastforce
  qed
  also have "concat (map ?g ds) = concat (map sd_freshness ds)"
    using d(4) by (intro concat_same) (simp add: filter_id_conv)
  finally show ?thesis using d(5) e by simp
qed

section \<open>The properties\<close>

text \<open>
  C24. A delta brings a snapshot up to date: whatever calls the store received between two snapshots, and
  whatever its history forgot meanwhile, as long as \<open>delta_since\<close> does not ask for a full snapshot, replaying
  its changes over the values of the older snapshot gives the values of the newer one, and its last transition
  of every field (or the older freshness, if there is none) is the freshness in the newer one.\<close>

theorem delta_since_updates_a_snapshot:
  assumes new: "store_new limit = Inr st0" and evs: "list_all event_ok (evs @ evs')"
    and sn: "take_snapshot t (store_run evs st0) = Inr (sn, st1)"
    and sn': "take_snapshot t' (store_run evs' st1) = Inr (sn', st2)"
    and d: "\<not> sd_requires_full_snapshot (delta_since sn (store_run evs' st1))"
  shows "py_eq (replay (sd_changes (delta_since sn (store_run evs' st1))) (snapshot_value sn) p) (snapshot_value sn' p) \<and>
    (p \<in> sf_path ` set (sn_fields sn') \<longrightarrow>
      last_freshness (sd_freshness (delta_since sn (store_run evs' st1))) p (snapshot_freshness sn p) =
        snapshot_freshness sn' p)"
proof -
  let ?st' = "store_run evs' st1"
  note r = snapshot_then_run [OF new evs sn]
  note s = snapshot_shows [OF conjunct1 [OF r(1) [unfolded store_inv_def]] sn]
  note s' = snapshot_shows [OF conjunct1 [OF r(3) [unfolded store_inv_def]] sn']
  have ok: "store_ok st1" "store_ok ?st'" using r by (simp_all add: store_inv_def)
  have v: "snapshot_value sn = view st1" "snapshot_freshness sn = freshness_of st1"
    "sn_state_revision sn = st_state_revision st1" "sn_freshness_revision sn = st_freshness_revision st1"
    "sn_provider_generation sn = st_provider_generation st1"
    using s by (simp_all add: same_view_def)
  have nf: "st_provider_generation st1 = st_provider_generation ?st'"
    "st_floor_state_revision ?st' \<le> st_state_revision st1"
    "st_floor_freshness_revision ?st' \<le> st_freshness_revision st1"
    using d v by (simp_all add: delta_since_def Let_def requires_full_snapshot_def)
  then have "\<not> requires_full_snapshot sn ?st'" using v by (simp add: requires_full_snapshot_def)
  then have ds: "sd_changes (delta_since sn ?st') =
      concat (map sd_changes (filter (\<lambda>d. sd_state_revision d > st_state_revision st1) (st_history ?st')))"
    "sd_freshness (delta_since sn ?st') = concat (map (\<lambda>d.
      filter (\<lambda>t. ft_freshness_revision t > st_freshness_revision st1) (sd_freshness d)) (st_history ?st'))"
    using v by (simp_all add: delta_since_def Let_def)
  have "py_eq (replay (sd_changes (delta_since sn ?st')) (snapshot_value sn) p) (snapshot_value sn' p)"
    unfolding ds v s'(2) by (rule logged_changes [OF ok(1) r(4) nf(1,2)])
  moreover have "last_freshness (sd_freshness (delta_since sn ?st')) p (snapshot_freshness sn p) = snapshot_freshness sn' p"
    if "p \<in> sf_path ` set (sn_fields sn')"
  proof -
    have "p \<in> set (sorted_paths (st_entries ?st'))"
      using that unfolding s'(1) reference_fields_def by auto
    then have "map_of (st_entries ?st') p \<noteq> None" by (simp add: set_sorted_paths map_of_eq_None_iff)
    then obtain e where e: "map_of (st_entries ?st') p = Some e" by blast
    from logged_freshness [OF ok(1) r(4) nf(1,3) ok(2) e] show ?thesis
      unfolding ds v s'(3) using e by (simp add: freshness_of_def)
  qed
  ultimately show ?thesis by blast
qed

text \<open>
  C25. The caches never show: in every run a snapshot returns, lists exactly the fields the store holds, each
  as it is now, without repetition and in the order of their path strings.\<close>

theorem snapshot_is_the_state:
  assumes "store_new limit = Inr st0" and "list_all event_ok evs" and "st = store_run evs st0"
  shows "\<exists>sn st'. take_snapshot now st = Inr (sn, st') \<and>
    map sf_path (sn_fields sn) = sort_key path_str (map fst (st_entries st)) \<and> distinct (map sf_path (sn_fields sn)) \<and>
    (\<forall>p. snapshot_item sn p = map_option (field_snapshot_of p) (map_of (st_entries st) p))"
proof -
  have ok: "store_ok st" using store_run_ok [OF new_inv [OF assms(1)] assms(2)] assms(3) by (simp add: store_inv_def)
  obtain sn st' where sn: "take_snapshot now st = Inr (sn, st')" using take_snapshot_spec [OF ok, of now] by blast
  have f: "sn_fields sn = reference_fields (st_entries st)" by (rule snapshot_shows(1) [OF ok sn])
  have "map sf_path (sn_fields sn) = sort_key path_str (map fst (st_entries st))"
    by (simp add: f reference_fields_def sorted_paths_def comp_def)
  moreover have "distinct (map fst (st_entries st))" using ok by (simp add: store_ok_def entries_ok_def)
  ultimately show ?thesis using sn by (simp add: f snapshot_item_def reference_lookup)
qed

text \<open>Revisions identify the state: two snapshots of one store with the same generation and the same state
  revision show equal values, so a consumer may skip the work when the pair has not moved.\<close>

theorem equal_revisions_show_equal_values:
  assumes new: "store_new limit = Inr st0" and evs: "list_all event_ok (evs @ evs')"
    and sn: "take_snapshot t (store_run evs st0) = Inr (sn, st1)"
    and sn': "take_snapshot t' (store_run evs' st1) = Inr (sn', st2)"
    and gen: "sn_provider_generation sn = sn_provider_generation sn'"
    and rev: "sn_state_revision sn = sn_state_revision sn'"
  shows "py_eq (snapshot_value sn p) (snapshot_value sn' p)"
proof -
  let ?st' = "store_run evs' st1"
  note r = snapshot_then_run [OF new evs sn]
  note s = snapshot_shows [OF conjunct1 [OF r(1) [unfolded store_inv_def]] sn]
  note s' = snapshot_shows [OF conjunct1 [OF r(3) [unfolded store_inv_def]] sn']
  have ok: "store_ok st1" "store_ok ?st'" using r by (simp_all add: store_inv_def)
  have v: "snapshot_value sn = view st1" "sn_state_revision sn = st_state_revision st1"
    "sn_provider_generation sn = st_provider_generation st1"
    using s by (simp_all add: same_view_def)
  have h: "history_ok ?st'" using ok(2) by (simp add: store_ok_def)
  have same: "st_provider_generation st1 = st_provider_generation ?st'" "st_state_revision st1 = st_state_revision ?st'"
    using gen rev v s' by simp_all
  then have "st_floor_state_revision ?st' \<le> st_state_revision st1" using h by (simp add: history_ok_def)
  from logged_changes [OF ok(1) r(4) same(1) this]
  have "py_eq (replay (concat (map sd_changes (filter (\<lambda>d. sd_state_revision d > st_state_revision ?st')
      (st_history ?st')))) (view st1) p) (view ?st' p)"
    unfolding same(2) .
  moreover have none: "filter (\<lambda>d. sd_state_revision d > st_state_revision ?st') (st_history ?st') = []"
    using h by (auto simp: filter_empty_conv history_ok_def)
  ultimately show ?thesis unfolding none v(1) s'(2) by simp
qed

text \<open>
  C26. Generations are fenced: in every run a snapshot shows only fields observed under the current provider
  generation, a new generation shows none at all, and an observation stamped with any other generation leaves
  the store exactly as it was and changes nothing.\<close>

theorem only_the_current_generation_shows:
  assumes "store_new limit = Inr st0" and "list_all event_ok evs" and "st = store_run evs st0"
  shows "(\<forall>sn st'. take_snapshot now st = Inr (sn, st') \<longrightarrow>
      (\<forall>f \<in> set (sn_fields sn). sf_provider_generation f = st_provider_generation st)) \<and>
    (\<forall>sn st'. take_snapshot now (snd (begin_provider_generation st)) = Inr (sn, st') \<longrightarrow> sn_fields sn = []) \<and>
    (fo_provider_generation ob \<noteq> Some (st_provider_generation st) \<longrightarrow>
      apply_observation ob now st = (Inr (empty_changeset (fo_timestamp_monotonic ob) st), st))"
proof -
  have inv: "store_inv False st" using store_run_ok [OF new_inv [OF assms(1)] assms(2)] assms(3) by simp
  then have ok: "store_ok st" by (simp add: store_inv_def)
  have "sf_provider_generation f = st_provider_generation st"
    if sn: "take_snapshot now st = Inr (sn, st')" and f: "f \<in> set (sn_fields sn)" for sn st' f
  proof -
    obtain p where p: "p \<in> set (sorted_paths (st_entries st))"
      "f = field_snapshot_of p (the (map_of (st_entries st) p))"
      using f unfolding snapshot_shows(1) [OF ok sn] reference_fields_def by auto
    then obtain e where "map_of (st_entries st) p = Some e"
      by (cases "map_of (st_entries st) p") (auto simp: set_sorted_paths map_of_eq_None_iff)
    then show ?thesis using p(2) ok
      by (auto simp: store_ok_def entries_ok_def entry_ok_def simp del: map_of_eq_Some_iff)
  qed
  moreover have "sn_fields sn = []"
    if "take_snapshot now (snd (begin_provider_generation st)) = Inr (sn, st')" for sn st'
    using snapshot_shows(1) [OF _ that] begin_inv(1,3) [OF inv]
    by (simp add: store_inv_def reference_fields_def sorted_paths_def)
  ultimately show ?thesis by (simp add: apply_observation_def is_current_observation_def)
qed

text \<open>
  C27. Aging is exact: \<open>mark_stale_due\<close> at time \<open>t\<close> turns stale, in the order of the paths and each with
  one reconciliation request, exactly the fresh fields whose age exceeds their \<open>max_age\<close> and those of a
  relative base whose common deadline has come; every other entry and every value stays. It raises in one case
  only, before it ages anything: the deadline has come and a fresh A/B identity without a hash was observed.\<close>

theorem aging_is_exact:
  assumes "store_new limit = Inr st0" and "list_all event_ok evs" and "st = store_run evs st0"
  shows "(list_all readable_event evs \<longrightarrow> \<not> unhashable_slot st) \<and>
    (if base_due t st \<and> unhashable_slot st
     then fst (mark_stale_due t st) = Inl TypeError \<and> st_entries (snd (mark_stale_due t st)) = st_entries st
     else \<exists>d st' due. mark_stale_due t st = (Inr d, st') \<and> fst (expire_relative_vfo t st) = Inr due \<and>
       map ft_path (sd_freshness d) = filter (ages t due st) (sort_key path_str (map fst (st_entries st))) \<and>
       map rq_path (sd_requests d) = map ft_path (sd_freshness d) \<and>
       (\<forall>p. map_of (st_entries st') p = (if p \<in> ft_path ` set (sd_freshness d)
          then map_option aged_entry (map_of (st_entries st) p) else map_of (st_entries st) p)) \<and>
       view st' = view st)"
proof -
  have inv: "store_inv False st" using store_run_ok [OF new_inv [OF assms(1)] assms(2)] assms(3) by simp
  then have ok: "store_ok st" and rel: "relative_ok False st" by (simp_all add: store_inv_def)
  have hash: "\<not> unhashable_slot st" if "list_all readable_event evs"
    using store_run_inv [OF new_inv [OF assms(1)] assms(2), of True] that assms(3) slot_ok_hashable
    by (simp add: store_inv_def relative_ok_def)
  note res = expire_result [OF relative_ok_retained [OF rel], of t]
  show ?thesis
  proof (cases "base_due t st \<and> unhashable_slot st")
    case True
    then have "mark_stale_due t st = (Inl TypeError, snd (expire_relative_vfo t st))"
      using mark_stale_inv [OF inv, of t] by (simp split: if_splits)
    then show ?thesis using True hash expire_spec [OF ok, of t] by auto
  next
    case False
    then obtain due where due: "fst (expire_relative_vfo t st) = Inr due" using res by auto
    obtain d st' where m: "mark_stale_due t st = (Inr d, st')"
      "map ft_path (sd_freshness d) = filter (ages t due st) (sorted_paths (st_entries st))"
      "map rq_path (sd_requests d) = map ft_path (sd_freshness d)"
      "map_of (st_entries st') = (\<lambda>q. if ages t due st q
        then map_option aged_entry (map_of (st_entries st) q) else map_of (st_entries st) q)"
      using mark_stale_spec [OF ok due] by blast
    have known: "q \<in> set (sorted_paths (st_entries st))" if "ages t due st q" for q
      using that by (auto simp: ages_overdue set_sorted_paths map_of_eq_None_iff split: option.splits dest: map_of_SomeD intro: rev_image_eqI)
    have "ft_path ` set (sd_freshness d) = set (map ft_path (sd_freshness d))" by simp
    then have mem: "p \<in> ft_path ` set (sd_freshness d) \<longleftrightarrow> ages t due st p" for p
      unfolding m(2) using known by auto
    have "view st' = view st"
      by (rule ext) (auto simp: view_def m(4) aged_entry_def split: option.split)
    moreover have "\<forall>p. map_of (st_entries st') p = (if p \<in> ft_path ` set (sd_freshness d)
        then map_option aged_entry (map_of (st_entries st) p) else map_of (st_entries st) p)"
      unfolding mem m(4) by blast
    ultimately have "\<exists>d st' due. mark_stale_due t st = (Inr d, st') \<and> fst (expire_relative_vfo t st) = Inr due \<and>
       map ft_path (sd_freshness d) = filter (ages t due st) (sort_key path_str (map fst (st_entries st))) \<and>
       map rq_path (sd_requests d) = map ft_path (sd_freshness d) \<and>
       (\<forall>p. map_of (st_entries st') p = (if p \<in> ft_path ` set (sd_freshness d)
          then map_option aged_entry (map_of (st_entries st) p) else map_of (st_entries st) p)) \<and>
       view st' = view st"
      using m(1-3) due unfolding sorted_paths_def by blast
    then show ?thesis using hash False by (simp only: if_False simp_thms) blast
  qed
qed

text \<open>
  C28. The relative VFO fields of a receiver share one deadline: in every run with retention configured, in which
  the A/B identity is observed with values that have a hash, a relative field is fresh only while a complete base is
  committed, and then its age runs out exactly at the deadline of that base. (Over a list or dictionary
  \<open>mark_stale_due\<close> raises after it has dropped the deadline: \<open>unreadable_identity_drops_the_deadline\<close>.)\<close>

theorem relative_fields_share_one_deadline:
  assumes "store_new limit = Inr st0" and "list_all event_ok evs" and "list_all readable_event evs" and "st = store_run evs st0"
    and "st_retention st = Some rr" and "p \<in> set relative_paths"
    and "map_of (st_entries st) p = Some e" and "fe_freshness e = Fresh_FRESH"
  shows "\<exists>x. rr_expires_at rr = Some x \<and> (\<forall>t. overdue t e \<longleftrightarrow> x < t)"
proof -
  have "relative_ok True st"
    using store_run_inv [OF new_inv [OF assms(1)] assms(2), of True] assms(3,4) by (simp add: store_inv_def)
  then have rr: "retention_ok rr" "deadlines_ok True rr (st_entries st)" using assms(5) by (auto simp: relative_ok_def)
  have "p \<in> set (rr_paths rr)" using rr(1) assms(6) by (simp add: retention_ok_def)
  then obtain x where "rr_expires_at rr = Some x" "fe_max_age e = Some (x - fe_last_observed_monotonic e)"
    using rr(2) assms(7,8) unfolding deadlines_ok_def by blast
  then show ?thesis by (intro exI [of _ x]) (simp add: overdue_def not_le)
qed

text \<open>
  C29. Every call returns: in every run, with every public call of the store and any values, reading a field the store
  does not hold raises \<open>KeyError\<close> and configuring retention with a negative generation or a time that is not
  positive raises \<open>ValueError\<close>, both leaving the store as it was; any other call returns, unless the A/B identity
  that was observed last is fresh and has no hash, where the only error is \<open>TypeError\<close>; with readable
  identities none is raised. In particular no re-aged observation fails its check and no path in the cached order is
  missing. The history never exceeds its limit.\<close>

theorem store_calls_return:
  assumes "store_new limit = Inr st0" and "list_all event_ok (evs @ [ev])" and "st = store_run evs st0"
  shows "(case raises ev st of
      Some e \<Rightarrow> store_step ev st = (Inl e, st)
    | None \<Rightarrow> fst (store_step ev st) = Inr () \<or> fst (store_step ev st) = Inl TypeError \<and> unhashable_slot st) \<and>
    (list_all readable_event evs \<longrightarrow> \<not> unhashable_slot st) \<and>
    int (length (st_history (snd (store_step ev st)))) \<le> limit"
proof -
  have run: "store_inv False st" "evolves st0 st" using store_run_ok [OF new_inv [OF assms(1)], of evs] assms(2,3) by simp_all
  have evs: "list_all event_ok evs" and ev: "event_ok ev" using assms(2) by simp_all
  have well: "goes_well False ev st" by (rule store_step_goes_well [OF run(1) ev]) simp
  have "st_max_history_count st0 = limit" using assms(1) by (auto simp: store_new_def split: if_splits)
  then have "store_inv False (after st ev)" "st_max_history_count (after st ev) = limit"
    using well run(2) by (simp_all add: goes_well_def evolves_def)
  then have hist: "int (length (st_history (snd (store_step ev st)))) \<le> limit"
    by (auto simp: store_inv_def store_ok_def history_ok_def after_def)
  have "\<not> unhashable_slot st" if "list_all readable_event evs"
    using store_run_inv [OF new_inv [OF assms(1)] evs, of True] that assms(3) slot_ok_hashable
    by (simp add: store_inv_def relative_ok_def)
  moreover have "fst (store_step ev st) = Inr () \<or> (\<exists>e. fst (store_step ev st) = Inl e)"
    by (cases "fst (store_step ev st)") simp_all
  ultimately show ?thesis using well hist unfolding goes_well_def by (cases "raises ev st") auto
qed

section \<open>At concrete inputs\<close>

definition demo_observation :: "field_path \<Rightarrow> json \<Rightarrow> time \<Rightarrow> field_observation" where
  "demo_observation p v t =
     \<lparr>fo_path = p, fo_value = v,
      fo_source = \<lparr>sm_source = ''poll_response'', sm_provider = ''icom'', sm_transport = None,
        sm_native_id = None, sm_capability_id = None, sm_command_source = None, sm_session_id = None\<rparr>,
      fo_timestamp_monotonic = t, fo_quality = [], fo_correlation_id = None, fo_max_age = Some 5,
      fo_provider_generation = Some 0, fo_clock_domain = Some ''monotonic''\<rparr>"

definition demo_frequency :: field_path where
  "demo_frequency = relative_path SLOT_ACTIVE ''freq_hz''"

definition demo_store :: state_store where
  "demo_store = projr (store_new 4)"

lemma demo_store_new: "store_new 4 = Inr demo_store"
  by (simp add: demo_store_def store_new_def)

definition demo_before :: "store_event list" where
  "demo_before = [Observe (demo_observation demo_frequency (JInt 14074000) 0) 0]"

definition demo_then :: "store_event list" where
  "demo_then = [Observe (demo_observation demo_frequency (JInt 7074000) 1) 1, MarkStale 9]"

definition demo_store_snapshot :: "store_snapshot \<times> state_store" where
  "demo_store_snapshot = projr (take_snapshot 1 (store_run demo_before demo_store))"

definition demo_later :: state_store where
  "demo_later = store_run demo_then (snd demo_store_snapshot)"

definition demo_later_snapshot :: "store_snapshot \<times> state_store" where
  "demo_later_snapshot = projr (take_snapshot 9 demo_later)"

definition demo_vfo_base :: "store_event list" where
  "demo_vfo_base = ConfigureRetention 0 10 2 0 #
     map (\<lambda>p. Observe (demo_observation p (if fp_name p = ''mode'' then JStr ''USB'' else JInt 14074000) 0) 0)
       (filter (\<lambda>p. fp_name p \<in> {''freq_hz'', ''mode''}) relative_paths)"

lemma demo_events: "list_all event_ok (demo_before @ demo_then)" "list_all event_ok demo_before"
    "list_all event_ok (demo_vfo_base @ [MarkStale 9])" "list_all event_ok demo_vfo_base"
    "list_all readable_event demo_vfo_base"
  by code_simp+

lemma demo_snapshots:
  "take_snapshot 1 (store_run demo_before demo_store) = Inr (fst demo_store_snapshot, snd demo_store_snapshot)"
  "take_snapshot 9 (store_run demo_then (snd demo_store_snapshot)) = Inr (fst demo_later_snapshot, snd demo_later_snapshot)"
  by code_simp+

theorem delta_since_updates_a_snapshot_witness:
  "py_eq (replay (sd_changes (delta_since (fst demo_store_snapshot) (store_run demo_then (snd demo_store_snapshot))))
      (snapshot_value (fst demo_store_snapshot)) demo_frequency) (snapshot_value (fst demo_later_snapshot) demo_frequency) \<and>
    snapshot_value (fst demo_later_snapshot) demo_frequency = JInt 7074000"
proof -
  have "\<not> sd_requires_full_snapshot (delta_since (fst demo_store_snapshot) (store_run demo_then (snd demo_store_snapshot)))"
    "snapshot_value (fst demo_later_snapshot) demo_frequency = JInt 7074000"
    by code_simp+
  then show ?thesis
    using delta_since_updates_a_snapshot [OF demo_store_new demo_events(1) demo_snapshots, of demo_frequency] by blast
qed

theorem snapshot_is_the_state_witness:
  "\<exists>sn st'. take_snapshot 9 (store_run demo_before demo_store) = Inr (sn, st') \<and>
    map sf_path (sn_fields sn) = [demo_frequency]"
proof -
  have "sort_key path_str (map fst (st_entries (store_run demo_before demo_store))) = [demo_frequency]" by code_simp
  then show ?thesis
    using snapshot_is_the_state [OF demo_store_new demo_events(2) refl, of 9] by auto
qed

theorem equal_revisions_show_equal_values_witness:
  "py_eq (snapshot_value (fst demo_store_snapshot) demo_frequency)
     (snapshot_value (fst (projr (take_snapshot 9 (store_run [MarkStale 9] (snd demo_store_snapshot))))) demo_frequency)"
proof -
  let ?sn' = "projr (take_snapshot 9 (store_run [MarkStale 9] (snd demo_store_snapshot)))"
  have "list_all event_ok (demo_before @ [MarkStale 9])"
    "take_snapshot 9 (store_run [MarkStale 9] (snd demo_store_snapshot)) = Inr (fst ?sn', snd ?sn')"
    "sn_provider_generation (fst demo_store_snapshot) = sn_provider_generation (fst ?sn')"
    "sn_state_revision (fst demo_store_snapshot) = sn_state_revision (fst ?sn')"
    by code_simp+
  then show ?thesis
    using equal_revisions_show_equal_values [OF demo_store_new _ demo_snapshots(1)] by blast
qed

theorem only_the_current_generation_shows_witness:
  "\<exists>c. apply_observation (demo_observation demo_frequency JNull 3\<lparr>fo_provider_generation := Some 7\<rparr>) 3
      (store_run demo_before demo_store) = (Inr c, store_run demo_before demo_store) \<and> cs_changes c = []"
proof -
  have "fo_provider_generation (demo_observation demo_frequency JNull 3\<lparr>fo_provider_generation := Some 7\<rparr>) \<noteq>
      Some (st_provider_generation (store_run demo_before demo_store))" by code_simp
  then show ?thesis
    using only_the_current_generation_shows [OF demo_store_new demo_events(2) refl, of 3
        "demo_observation demo_frequency JNull 3\<lparr>fo_provider_generation := Some 7\<rparr>"]
    by (simp add: empty_changeset_def)
qed

theorem aging_is_exact_witness:
  "\<exists>d st'. mark_stale_due 9 (store_run demo_before demo_store) = (Inr d, st') \<and>
    map ft_path (sd_freshness d) = [demo_frequency]"
proof -
  let ?st = "store_run demo_before demo_store"
  have due: "fst (expire_relative_vfo 9 ?st) = Inr []" by code_simp
  have "filter (ages 9 [] ?st) (sort_key path_str (map fst (st_entries ?st))) = [demo_frequency]"
    "list_all readable_event demo_before" by code_simp+
  then show ?thesis using aging_is_exact [OF demo_store_new demo_events(2) refl, of 9] due by auto
qed

theorem relative_fields_share_one_deadline_witness:
  "\<exists>x. rr_expires_at (the (st_retention (store_run demo_vfo_base demo_store))) = Some x \<and>
    (\<forall>t. overdue t (the (map_of (st_entries (store_run demo_vfo_base demo_store)) demo_frequency)) \<longleftrightarrow> x < t)"
proof (rule relative_fields_share_one_deadline [OF demo_store_new demo_events(4,5) refl, where p = demo_frequency])
  let ?st = "store_run demo_vfo_base demo_store"
  show "st_retention ?st = Some (the (st_retention ?st))" "demo_frequency \<in> set relative_paths"
    "map_of (st_entries ?st) demo_frequency = Some (the (map_of (st_entries ?st) demo_frequency))"
    "fe_freshness (the (map_of (st_entries ?st) demo_frequency)) = Fresh_FRESH"
    by code_simp+
qed

theorem store_calls_return_witness:
  "fst (store_step (MarkStale 9) (store_run demo_vfo_base demo_store)) = Inr () \<and>
   int (length (st_history (snd (store_step (MarkStale 9) (store_run demo_vfo_base demo_store))))) \<le> 4"
  using store_calls_return [OF demo_store_new demo_events(3) refl] demo_events(5) by (auto simp: raises_def)

text \<open>
  An identity that was observed as a list: at the deadline of the base \<open>mark_stale_due\<close> raises, the deadline is gone,
  and the frequency stays fresh.
\<close>

definition demo_unreadable :: "store_event list" where
  "demo_unreadable = demo_vfo_base @ [Observe (demo_observation (active_slot_of ''0'') (JList []) 0) 0]"

theorem unreadable_identity_drops_the_deadline:
  "let st = store_run demo_unreadable demo_store; out = store_step (MarkStale 12) st
   in base_due 12 st \<and> fst out = Inl TypeError \<and> map_option rr_expires_at (st_retention (snd out)) = Some None \<and>
      map_option fe_freshness (map_of (st_entries (snd out)) demo_frequency) = Some Fresh_FRESH"
proof -
  have "rr_expires_at (the (st_retention (store_run demo_unreadable demo_store))) = Some 10"
    "st_retention (store_run demo_unreadable demo_store) \<noteq> None" by code_simp+
  then have "base_due 12 (store_run demo_unreadable demo_store)" by (auto simp: base_due_def)
  moreover have "let st = store_run demo_unreadable demo_store; out = store_step (MarkStale 12) st
   in fst out = Inl TypeError \<and> map_option rr_expires_at (st_retention (snd out)) = Some None \<and>
      map_option fe_freshness (map_of (st_entries (snd out)) demo_frequency) = Some Fresh_FRESH" by code_simp
  ultimately show ?thesis by (simp add: Let_def)
qed

end
