(* ===== verification/AcquisitionPolicy.thy ===== *)
theory AcquisitionPolicy
  imports StateStore
begin

text \<open>
  What can be acquired and how: \<open>core/state_acquisition_policy.py\<close>.

  \<^item> Numbers are rationals; the checks that a value is a number, a boolean or a list of strings are types.
  \<^item> A frozen dataclass with checks is a record and a function \<open>mk_\<dots>\<close> with the checks of \<open>__post_init__\<close>.
  \<^item> A dictionary of policies is an association list in declaration order. A clause value is a JSON tree; the
    values of a policy compare structurally.
\<close>

section \<open>Policies\<close>

datatype field_availability = SUPPORTED | UNSUPPORTED | AVAILABILITY_UNKNOWN

datatype reconciliation_priority = PREFER_UNSOLICITED | PREFER_COMMAND_RESPONSE | PREFER_POLL
  | PREFER_LAST_OBSERVATION

datatype external_cat_pause = PAUSE_POLLING | COALESCE_METERS_ONLY | CONTINUE_POLLING

datatype acquisition_phase = PHASE_RECEIVE | PHASE_TRANSMIT | PHASE_BOTH

record class_policy =
  cp_nominal :: rat
  cp_ceiling :: rat
  cp_polled_in :: acquisition_phase
  cp_held_at_ceiling_in_tx :: bool
  cp_expires_by_time :: bool

definition mk_class_policy :: "rat \<Rightarrow> rat \<Rightarrow> acquisition_phase \<Rightarrow> bool \<Rightarrow> bool \<Rightarrow> class_policy result" where
  "mk_class_policy nominal slowest polled_in held expires =
     (if nominal \<le> 0 \<or> slowest \<le> 0 then Inl ValueError
      else if nominal > slowest then Inl ValueError
      else Inr \<lparr>cp_nominal = nominal, cp_ceiling = slowest, cp_polled_in = polled_in,
                cp_held_at_ceiling_in_tx = held, cp_expires_by_time = expires\<rparr>)"

definition class_freshness_ttl :: "class_policy \<Rightarrow> rat option" where
  "class_freshness_ttl cp =
     (if \<not> cp_expires_by_time cp then None
      else Some (max (2 * cp_ceiling cp) (cp_ceiling cp + 7 / 10)))"

definition OPERATOR_SET_MAX_CADENCE :: rat where
  "OPERATOR_SET_MAX_CADENCE = 5"

text \<open>The table in rank order.\<close>

definition class_table :: "(acquisition_class \<times> class_policy) list" where
  "class_table =
     [(KEYING, \<lparr>cp_nominal = 3 / 10, cp_ceiling = 1 / 2, cp_polled_in = PHASE_BOTH,
         cp_held_at_ceiling_in_tx = False, cp_expires_by_time = True\<rparr>),
      (TX_METER, \<lparr>cp_nominal = 1 / 4, cp_ceiling = 1, cp_polled_in = PHASE_TRANSMIT,
         cp_held_at_ceiling_in_tx = False, cp_expires_by_time = True\<rparr>),
      (LIVE, \<lparr>cp_nominal = 1, cp_ceiling = 1, cp_polled_in = PHASE_BOTH,
         cp_held_at_ceiling_in_tx = False, cp_expires_by_time = True\<rparr>),
      (METER, \<lparr>cp_nominal = 3 / 10, cp_ceiling = 2 / 5, cp_polled_in = PHASE_BOTH,
         cp_held_at_ceiling_in_tx = False, cp_expires_by_time = True\<rparr>),
      (CONTROL, \<lparr>cp_nominal = 2, cp_ceiling = 5, cp_polled_in = PHASE_BOTH,
         cp_held_at_ceiling_in_tx = False, cp_expires_by_time = True\<rparr>),
      (PANEL, \<lparr>cp_nominal = OPERATOR_SET_MAX_CADENCE, cp_ceiling = 10, cp_polled_in = PHASE_BOTH,
         cp_held_at_ceiling_in_tx = False, cp_expires_by_time = True\<rparr>),
      (SETTING, \<lparr>cp_nominal = 10, cp_ceiling = 30, cp_polled_in = PHASE_BOTH,
         cp_held_at_ceiling_in_tx = True, cp_expires_by_time = False\<rparr>),
      (MENU, \<lparr>cp_nominal = 30, cp_ceiling = 60, cp_polled_in = PHASE_BOTH,
         cp_held_at_ceiling_in_tx = True, cp_expires_by_time = False\<rparr>)]"

definition class_entry :: "acquisition_class \<Rightarrow> class_policy" where
  "class_entry k = the (map_of class_table k)"

record adaptive_decay =
  ad_enabled :: bool
  ad_idle_multiplier :: rat
  ad_max_cadence :: "rat option"

definition positive_option :: "rat option \<Rightarrow> bool" where
  "positive_option v = (case v of None \<Rightarrow> True | Some n \<Rightarrow> 0 < n)"

definition mk_adaptive_decay :: "bool \<Rightarrow> rat \<Rightarrow> rat option \<Rightarrow> adaptive_decay result" where
  "mk_adaptive_decay enabled idle_multiplier max_cadence =
     (if idle_multiplier < 1 then Inl ValueError
      else if \<not> positive_option max_cadence then Inl ValueError
      else if enabled \<and> idle_multiplier \<le> 1 then Inl ValueError
      else Inr \<lparr>ad_enabled = enabled, ad_idle_multiplier = idle_multiplier, ad_max_cadence = max_cadence\<rparr>)"

definition default_decay :: adaptive_decay where
  "default_decay = \<lparr>ad_enabled = False, ad_idle_multiplier = 1, ad_max_cadence = None\<rparr>"

record meter_coalescing =
  mc_window :: rat
  mc_max_samples :: "int option"

definition mk_meter_coalescing :: "rat \<Rightarrow> int option \<Rightarrow> meter_coalescing result" where
  "mk_meter_coalescing window max_samples =
     (if window < 0 then Inl ValueError
      else if (case max_samples of None \<Rightarrow> False | Some n \<Rightarrow> n \<le> 0) then Inl ValueError
      else Inr \<lparr>mc_window = window, mc_max_samples = max_samples\<rparr>)"

text \<open>One condition on another field's value, with its operand.\<close>

datatype availability_test = In_values "json list" | Not_in_values "json list" | Min_value rat
  | Max_value rat | Equals_value json

record availability_clause =
  ac_field :: field_path
  ac_test :: availability_test

record acquisition_policy =
  ap_cadence :: "rat option"
  ap_freshness_ttl :: "rat option"
  ap_reconciliation :: reconciliation_priority
  ap_decay :: adaptive_decay
  ap_external_cat_pause :: external_cat_pause
  ap_meter_coalescing :: "meter_coalescing option"
  ap_tx_only :: bool
  ap_available_when :: "availability_clause list"

definition mk_acquisition_policy :: "acquisition_policy \<Rightarrow> acquisition_policy result" where
  "mk_acquisition_policy p =
     (if \<not> positive_option (ap_cadence p) then Inl ValueError
      else if \<not> positive_option (ap_freshness_ttl p) then Inl ValueError
      else if (case (ap_cadence p, ap_freshness_ttl p) of
                 (Some cadence, Some ttl) \<Rightarrow> ttl < cadence | _ \<Rightarrow> False) then Inl ValueError
      else Inr p)"

definition default_policy_fields :: acquisition_policy where
  "default_policy_fields =
     \<lparr>ap_cadence = Some 5, ap_freshness_ttl = Some 15, ap_reconciliation = PREFER_POLL,
      ap_decay = default_decay, ap_external_cat_pause = PAUSE_POLLING, ap_meter_coalescing = None,
      ap_tx_only = False, ap_available_when = []\<rparr>"

definition acquisition_policy_for_class :: "acquisition_class \<Rightarrow> acquisition_policy" where
  "acquisition_policy_for_class k =
     default_policy_fields\<lparr>ap_cadence := Some (cp_nominal (class_entry k)),
       ap_freshness_ttl := class_freshness_ttl (class_entry k),
       ap_tx_only := (cp_polled_in (class_entry k) = PHASE_TRANSMIT)\<rparr>"

definition acquisition_policy_for_class_with_demotion :: "acquisition_class \<Rightarrow> acquisition_policy" where
  "acquisition_policy_for_class_with_demotion k =
     acquisition_policy_for_class (demoted_acquisition_class k)"

section \<open>Capabilities and profiles\<close>

record field_capability =
  fk_path :: field_path
  fk_availability :: field_availability
  fk_unsolicited_push :: bool
  fk_polling :: bool
  fk_stream_like :: bool
  fk_command_response_observable :: bool
  fk_startup_required :: bool
  fk_supported_controls :: "string list"
  fk_diagnostic :: string

definition valid_token :: "string \<Rightarrow> bool" where
  "valid_token s \<longleftrightarrow> s \<noteq> [] \<and> list_all (\<lambda>c. c \<in> set token_alphabet) s"

definition mk_field_capability :: "field_capability \<Rightarrow> field_capability result" where
  "mk_field_capability c =
     (if \<not> list_all valid_token (fk_supported_controls c) then Inl ValueError
      else if fk_availability c \<noteq> SUPPORTED \<and>
        (fk_unsolicited_push c \<or> fk_polling c \<or> fk_stream_like c \<or>
         fk_command_response_observable c \<or> fk_supported_controls c \<noteq> []) then Inl ValueError
      else if fk_stream_like c \<and> fp_family (fk_path c) \<noteq> METERS then Inl ValueError
      else Inr c)"

definition can_poll :: "field_capability \<Rightarrow> bool" where
  "can_poll c \<longleftrightarrow> fk_availability c = SUPPORTED \<and> fk_polling c"

definition is_unavailable :: "field_capability \<Rightarrow> bool" where
  "is_unavailable c \<longleftrightarrow> fk_availability c \<in> {UNSUPPORTED, AVAILABILITY_UNKNOWN}"

record acquisition_profile =
  pr_provider :: string
  pr_capabilities :: "field_capability list"
  pr_default_policy :: acquisition_policy
  pr_field_policies :: "(field_path \<times> acquisition_policy) list"

definition mk_acquisition_profile :: "acquisition_profile \<Rightarrow> acquisition_profile result" where
  "mk_acquisition_profile p =
     (if \<not> valid_token (pr_provider p) then Inl ValueError
      else if \<not> distinct (map fk_path (pr_capabilities p)) then Inl ValueError
      else if list_ex (\<lambda>(path, policy). ap_meter_coalescing policy \<noteq> None \<and> fp_family path \<noteq> METERS)
                (pr_field_policies p) then Inl ValueError
      else Inr p)"

definition find_capability :: "acquisition_profile \<Rightarrow> field_path \<Rightarrow> field_capability option" where
  "find_capability pr path = map_of (map (\<lambda>c. (fk_path c, c)) (pr_capabilities pr)) path"

definition capability_for :: "acquisition_profile \<Rightarrow> field_path \<Rightarrow> field_capability" where
  "capability_for pr path =
     (case find_capability pr path of
        Some c \<Rightarrow> c
      | None \<Rightarrow> \<lparr>fk_path = path, fk_availability = AVAILABILITY_UNKNOWN, fk_unsolicited_push = False,
                 fk_polling = False, fk_stream_like = False, fk_command_response_observable = False,
                 fk_startup_required = True, fk_supported_controls = [],
                 fk_diagnostic = path_str path @ '': missing capability metadata''\<rparr>)"

definition slow_receiver_demotion_path :: field_path where
  "slow_receiver_demotion_path = \<lparr>fp_scope = GLOBAL, fp_family = SLOW_STATE, fp_name = ''active'',
     fp_receiver_id = None, fp_slot = None\<rparr>"

text \<open>\<open>str.strip().lower()\<close> on ASCII text.\<close>

definition is_space :: "char \<Rightarrow> bool" where
  "is_space c \<longleftrightarrow> c \<in> {CHR '' '', CHR 0x09, CHR 0x0A, CHR 0x0B, CHR 0x0C, CHR 0x0D, CHR 0x1C, CHR 0x1D, CHR 0x1E, CHR 0x1F}"

definition lower_char :: "char \<Rightarrow> char" where
  "lower_char c = (if of_char c \<in> {65 .. 90 :: nat} then char_of (of_char c + 32 :: nat) else c)"

definition strip_lower :: "string \<Rightarrow> string" where
  "strip_lower s = map lower_char (rev (dropWhile is_space (rev (dropWhile is_space s))))"

definition other_receiver :: "string \<Rightarrow> string option" where
  "other_receiver observed =
     (if strip_lower observed = ''main'' then Some ''sub''
      else if strip_lower observed = ''sub'' then Some ''main'' else None)"

definition demoted_receiver_id :: "field_capability list \<Rightarrow> string option \<Rightarrow> string option" where
  "demoted_receiver_id capabilities observed_active =
     (case observed_active of
        None \<Rightarrow> None
      | Some observed \<Rightarrow>
          if \<not> list_ex (\<lambda>c. fk_path c = slow_receiver_demotion_path \<and> can_poll c) capabilities then None
          else other_receiver observed)"

definition policy_for :: "acquisition_profile \<Rightarrow> field_path \<Rightarrow> string option \<Rightarrow> acquisition_policy" where
  "policy_for pr path observed_active =
     (case map_of (pr_field_policies pr) path of
        Some policy \<Rightarrow> policy
      | None \<Rightarrow>
          (case find_capability pr path of
             Some c \<Rightarrow>
               if can_poll c then
                 (if demoted_receiver_id (pr_capabilities pr) observed_active \<noteq> None \<and>
                     fp_receiver_id path = demoted_receiver_id (pr_capabilities pr) observed_active
                  then acquisition_policy_for_class_with_demotion (acquisition_class_for_path path)
                  else acquisition_policy_for_class (acquisition_class_for_path path))
               else pr_default_policy pr
           | None \<Rightarrow> pr_default_policy pr))"

definition pollable_paths :: "acquisition_profile \<Rightarrow> field_path list" where
  "pollable_paths pr = map fk_path (filter can_poll (pr_capabilities pr))"

definition unavailable_paths :: "acquisition_profile \<Rightarrow> field_path list" where
  "unavailable_paths pr = map fk_path (filter is_unavailable (pr_capabilities pr))"

section \<open>Fitting the poll demand to a transport budget\<close>

record budget_fit =
  bf_effective :: "acquisition_class \<Rightarrow> rat option"
  bf_demand :: rat
  bf_fits :: bool
  bf_saturated :: bool

definition BUDGET_MARGIN :: rat where
  "BUDGET_MARGIN = 3 / 4"

definition FIT_EPSILON :: rat where
  "FIT_EPSILON = 1 / 10 ^ 9"

definition class_tx_only :: "acquisition_class \<Rightarrow> bool" where
  "class_tx_only k \<longleftrightarrow> cp_polled_in (class_entry k) = PHASE_TRANSMIT"

definition live_counts :: "bool \<Rightarrow> (acquisition_class \<times> int) list \<Rightarrow> (acquisition_class \<times> int) list" where
  "live_counts tx counts = filter (\<lambda>(k, _). tx \<or> \<not> class_tx_only k) counts"

definition start_cadence :: "bool \<Rightarrow> acquisition_class \<Rightarrow> rat" where
  "start_cadence tx k =
     (if tx \<and> cp_held_at_ceiling_in_tx (class_entry k) then cp_ceiling (class_entry k)
      else cp_nominal (class_entry k))"

definition fit_demand :: "rat \<Rightarrow> (acquisition_class \<times> int) list \<Rightarrow> (acquisition_class \<Rightarrow> rat) \<Rightarrow> rat" where
  "fit_demand reserved live cadence = reserved + sum_list (map (\<lambda>(k, n). of_int n / cadence k) live)"

definition stretch_class :: "rat \<Rightarrow> rat \<Rightarrow> bool \<Rightarrow> (acquisition_class \<times> int) list \<Rightarrow> acquisition_class
    \<Rightarrow> (acquisition_class \<Rightarrow> rat) \<Rightarrow> acquisition_class \<Rightarrow> rat" where
  "stretch_class reserved limit saturated live k cadence =
     (case map_of live k of
        None \<Rightarrow> cadence
      | Some n \<Rightarrow>
          if fit_demand reserved live cadence \<le> limit \<or> saturated then cadence
          else
            let need = of_int n / cadence k - (fit_demand reserved live cadence - limit);
                slowest = cp_ceiling (class_entry k)
            in cadence(k := if need \<le> 0 then slowest else min slowest (of_int n / need)))"

definition stretch_all :: "rat \<Rightarrow> rat \<Rightarrow> bool \<Rightarrow> (acquisition_class \<times> int) list
    \<Rightarrow> (acquisition_class \<Rightarrow> rat) \<Rightarrow> acquisition_class list \<Rightarrow> acquisition_class \<Rightarrow> rat" where
  "stretch_all reserved limit saturated live cadence classes =
     foldl (\<lambda>c k. stretch_class reserved limit saturated live k c) cadence classes"

text \<open>The counts are a dictionary: one entry per class.\<close>

definition fit_to_budget :: "(acquisition_class \<times> int) list \<Rightarrow> rat \<Rightarrow> rat \<Rightarrow> bool \<Rightarrow> rat \<Rightarrow> budget_fit result" where
  "fit_to_budget counts budget margin tx reserved =
     (if budget \<le> 0 then Inl ValueError
      else if margin \<le> 0 then Inl ValueError
      else if reserved < 0 then Inl ValueError
      else
        let limit = margin * budget;
            saturated = reserved \<ge> budget - FIT_EPSILON;
            live = live_counts tx counts;
            cadence = stretch_all reserved limit saturated live (start_cadence tx) (rev (map fst class_table));
            settled = fit_demand reserved live cadence
        in Inr \<lparr>bf_effective = (\<lambda>k. if k \<in> set (map fst live) then Some (cadence k) else None),
                bf_demand = settled, bf_fits = (settled \<le> limit + FIT_EPSILON), bf_saturated = saturated\<rparr>)"

section \<open>Availability\<close>

text \<open>Numbers among the values: \<open>bool\<close> is not one.\<close>

fun number_of_value :: "json \<Rightarrow> rat option" where
  "number_of_value (JInt n) = Some (of_int n)"
| "number_of_value (JFloat x) = Some x"
| "number_of_value _ = None"

fun availability_test_holds :: "availability_test \<Rightarrow> json \<Rightarrow> bool" where
  "availability_test_holds (In_values vs) v = list_ex (\<lambda>c. py_eq v c) vs"
| "availability_test_holds (Not_in_values vs) v = list_all (\<lambda>c. \<not> py_eq v c) vs"
| "availability_test_holds (Equals_value c) v = py_eq v c"
| "availability_test_holds (Min_value n) v = (case number_of_value v of None \<Rightarrow> False | Some x \<Rightarrow> x \<ge> n)"
| "availability_test_holds (Max_value n) v = (case number_of_value v of None \<Rightarrow> False | Some x \<Rightarrow> x \<le> n)"

definition snapshot_lookup :: "store_snapshot \<Rightarrow> field_path \<Rightarrow> store_field option" where
  "snapshot_lookup sn p = map_of (map (\<lambda>f. (sf_path f, f)) (sn_fields sn)) p"

text \<open>The stored field a clause reads, under either spelling of its receiver.\<close>

definition clause_source :: "store_snapshot \<Rightarrow> field_path \<Rightarrow> store_field option result" where
  "clause_source sn p = bind_result (receiver_alias p) (\<lambda>alias.
     Inr (case snapshot_lookup sn p of
            Some f \<Rightarrow> Some f
          | None \<Rightarrow> (case alias of None \<Rightarrow> None | Some a \<Rightarrow> snapshot_lookup sn a)))"

text \<open>The clauses in order: \<open>None\<close> is unknown so far, a contradicted clause ends the loop.\<close>

fun resolve_clauses :: "store_snapshot \<Rightarrow> availability_clause list \<Rightarrow> bool option \<Rightarrow> bool option result" where
  "resolve_clauses sn [] state = Inr state"
| "resolve_clauses sn (c # cs) state =
     bind_result (clause_source sn (ac_field c)) (\<lambda>source.
       case source of
         None \<Rightarrow> resolve_clauses sn cs None
       | Some f \<Rightarrow>
           if availability_test_holds (ac_test c) (sf_value f) then resolve_clauses sn cs state
           else Inr (Some False))"

fun resolve_policies :: "store_snapshot \<Rightarrow> (field_path \<times> acquisition_policy) list
    \<Rightarrow> (field_path \<times> bool option) list result" where
  "resolve_policies sn [] = Inr []"
| "resolve_policies sn ((path, policy) # ps) =
     (if ap_available_when policy = [] then resolve_policies sn ps
      else bind_result (resolve_clauses sn (ap_available_when policy) (Some True)) (\<lambda>state.
           bind_result (resolve_policies sn ps) (\<lambda>rest. Inr ((path, state) # rest))))"

definition resolve_available_when :: "acquisition_profile \<Rightarrow> store_snapshot \<Rightarrow> (field_path \<times> bool option) list result" where
  "resolve_available_when pr sn = resolve_policies sn (pr_field_policies pr)"

section \<open>Ranks\<close>

text \<open>\<open>_CLASS_RANK\<close> of the scheduler: 0 for the highest-ranked class.\<close>

definition acquisition_classes :: "acquisition_class list" where
  "acquisition_classes = [KEYING, TX_METER, LIVE, METER, CONTROL, PANEL, SETTING, MENU]"

definition class_rank :: "acquisition_class \<Rightarrow> nat" where
  "class_rank k = length (takeWhile (\<lambda>j. j \<noteq> k) acquisition_classes)"

end
