(* ===== verification/BudgetFit.thy ===== *)
theory BudgetFit
  imports AcquisitionPolicy
begin

text \<open>
  The budget fit of \<open>core/state_acquisition_policy.py\<close>: bounds, order and optimality of the stretched
  cadences; and when a conditional field counts as absent.
\<close>

section \<open>The loop\<close>

lemma class_cadences: "0 < cp_nominal (class_entry k)" "cp_nominal (class_entry k) \<le> cp_ceiling (class_entry k)"
  by (cases k; simp add: class_entry_def class_table_def OPERATOR_SET_MAX_CADENCE_def)+

lemma start_cadence_bounds: "0 < start_cadence tx k" "start_cadence tx k \<le> cp_ceiling (class_entry k)"
proof -
  show "start_cadence tx k \<le> cp_ceiling (class_entry k)" by (simp add: start_cadence_def class_cadences)
  have "0 < cp_ceiling (class_entry k)" by (rule less_le_trans [OF class_cadences])
  then show "0 < start_cadence tx k" by (simp add: start_cadence_def class_cadences)
qed

lemma fit_demand_cong:
  "(\<And>k. k \<in> set (map fst live) \<Longrightarrow> c k = c' k) \<Longrightarrow> fit_demand r live c = fit_demand r live c'"
  unfolding fit_demand_def by (intro arg_cong [where f = "\<lambda>x. r + x"] arg_cong [where f = sum_list] map_cong) force+

lemma fit_demand_update:
  "distinct (map fst live) \<Longrightarrow> map_of live k = Some n \<Longrightarrow>
   fit_demand r live (c(k := x)) = fit_demand r live c - of_int n / c k + of_int n / x"
proof (induction live)
  case (Cons e live)
  obtain j m where e: "e = (j, m)" by (cases e)
  show ?case
  proof (cases "j = k")
    case True
    then have "k \<notin> set (map fst live)" using Cons.prems(1) e by auto
    then have "fit_demand r live (c(k := x)) = fit_demand r live c" by (intro fit_demand_cong) auto
    then show ?thesis using True Cons.prems(2) e by (simp add: fit_demand_def)
  next
    case False
    then show ?thesis using Cons e by (simp add: fit_demand_def)
  qed
qed simp

lemma stretch_class_spec:
  assumes live: "distinct (map fst live)" "map_of live k = Some n" "0 \<le> n"
    and c: "0 < c k" "c k \<le> cp_ceiling (class_entry k)"
    and c': "c' = stretch_class r limit saturated live k c"
  shows "(\<forall>j. j \<noteq> k \<longrightarrow> c' j = c j) \<and> c k \<le> c' k \<and> c' k \<le> cp_ceiling (class_entry k) \<and>
    (fit_demand r live c' \<le> limit \<or> saturated \<or> c' k = cp_ceiling (class_entry k))"
proof (cases "fit_demand r live c \<le> limit \<or> saturated")
  case True
  then show ?thesis using c c' live by (auto simp: stretch_class_def)
next
  case False
  let ?D = "fit_demand r live c"
  let ?need = "of_int n / c k - (?D - limit)"
  let ?top = "cp_ceiling (class_entry k)"
  have c'': "c' = c(k := if ?need \<le> 0 then ?top else min ?top (of_int n / ?need))"
    using False live(2) c' by (simp add: stretch_class_def Let_def)
  show ?thesis
  proof (cases "?need \<le> 0")
    case True
    then show ?thesis using c c'' by simp
  next
    case need: False
    have less: "?need < of_int n / c k" using False by simp
    then have "0 < of_int n / c k" using need by linarith
    then have n: "0 < (of_int n :: rat)" using c(1) by (simp add: zero_less_divide_iff)
    have "c k * ?need < of_int n" using less c(1) by (simp add: field_simps)
    then have up: "c k < of_int n / ?need" using need by (simp add: field_simps)
    have "fit_demand r live c' \<le> limit \<or> c' k = ?top"
    proof (cases "?top \<le> of_int n / ?need")
      case True
      then show ?thesis using need c'' by simp
    next
      case le: False
      have "of_int n / (of_int n / ?need) = ?need" using n by simp
      then have "fit_demand r live (c(k := of_int n / ?need)) = limit"
        using fit_demand_update [OF live(1,2), of r c "of_int n / ?need"] by simp
      then show ?thesis using le need c'' by simp
    qed
    then show ?thesis using c c'' need up by auto
  qed
qed

lemma stretch_class_absent: "map_of live k = None \<Longrightarrow> stretch_class r limit saturated live k c = c"
  by (simp add: stretch_class_def)

lemma stretch_all_settled:
  "fit_demand r live c \<le> limit \<or> saturated \<Longrightarrow> stretch_all r limit saturated live c ks = c"
  unfolding stretch_all_def
proof (induction ks)
  case (Cons k ks)
  have "stretch_class r limit saturated live k c = c"
    using Cons.prems by (auto simp: stretch_class_def split: option.split)
  then show ?case using Cons by simp
qed simp

lemma stretch_all_spec:
  assumes live: "distinct (map fst live)" "\<forall>(k, n) \<in> set live. 0 \<le> n"
  shows "distinct ks \<Longrightarrow> (\<And>k. k \<in> set ks \<Longrightarrow> 0 < c k \<and> c k \<le> cp_ceiling (class_entry k)) \<Longrightarrow>
    c' = stretch_all r limit saturated live c ks \<Longrightarrow>
    (\<forall>j. j \<notin> set ks \<longrightarrow> c' j = c j) \<and>
    (\<forall>k \<in> set ks. c k \<le> c' k \<and> c' k \<le> cp_ceiling (class_entry k)) \<and>
    (fit_demand r live c' \<le> limit \<or> saturated \<or>
      (\<forall>k \<in> set ks. k \<in> set (map fst live) \<longrightarrow> c' k = cp_ceiling (class_entry k))) \<and>
    (\<forall>i < length ks. \<forall>j < i. c' (ks ! i) \<noteq> c (ks ! i) \<longrightarrow> ks ! j \<in> set (map fst live) \<longrightarrow>
      c' (ks ! j) = cp_ceiling (class_entry (ks ! j)))"
proof (induction ks arbitrary: c)
  case Nil
  then show ?case by (simp add: stretch_all_def)
next
  case (Cons k ks)
  let ?c1 = "stretch_class r limit saturated live k c"
  have c'1: "c' = stretch_all r limit saturated live ?c1 ks" using Cons.prems(3) by (simp add: stretch_all_def)
  have k1: "(\<forall>j. j \<noteq> k \<longrightarrow> ?c1 j = c j) \<and> c k \<le> ?c1 k \<and> ?c1 k \<le> cp_ceiling (class_entry k) \<and>
    (fit_demand r live ?c1 \<le> limit \<or> saturated \<or> (k \<in> set (map fst live) \<longrightarrow> ?c1 k = cp_ceiling (class_entry k)))"
  proof (cases "map_of live k")
    case None
    then have "k \<notin> set (map fst live)" by (simp add: map_of_eq_None_iff)
    then show ?thesis using Cons.prems(2) [of k] by (simp add: stretch_class_absent [OF None])
  next
    case (Some n)
    then have "0 \<le> n" using live(2) map_of_SomeD by fast
    from stretch_class_spec [OF live(1) Some this _ _ refl] show ?thesis using Cons.prems(2) [of k] by auto
  qed
  have tops: "0 < ?c1 j \<and> ?c1 j \<le> cp_ceiling (class_entry j)" if "j \<in> set ks" for j
    using that k1 Cons.prems(1) Cons.prems(2) [of j] by auto
  have dist: "distinct ks" using Cons.prems(1) by simp
  note IH = Cons.IH [OF dist tops c'1]
  have kept: "c' k = ?c1 k" using IH Cons.prems(1) by simp
  have bounds: "c j \<le> c' j \<and> c' j \<le> cp_ceiling (class_entry j)" if "j \<in> set (k # ks)" for j
  proof (cases "j = k")
    case True
    then show ?thesis using kept k1 by simp
  next
    case False
    then have "?c1 j = c j" "j \<in> set ks" using k1 that by auto
    then show ?thesis using IH by metis
  qed
  show ?case
  proof (cases "fit_demand r live ?c1 \<le> limit \<or> saturated")
    case True
    then have "c' = ?c1" using c'1 stretch_all_settled by blast
    moreover have "?c1 (ks ! i) = c (ks ! i)" if "i < length ks" for i
      using k1 that Cons.prems(1) by (metis distinct.simps(2) nth_mem)
    ultimately show ?thesis using True k1 bounds by (auto simp: nth_Cons split: nat.split)
  next
    case False
    then have top: "k \<in> set (map fst live) \<longrightarrow> c' k = cp_ceiling (class_entry k)" using k1 unfolding kept by blast
    have order: "c' ((k # ks) ! j) = cp_ceiling (class_entry ((k # ks) ! j))"
      if i: "i < length (k # ks)" "j < i" "c' ((k # ks) ! i) \<noteq> c ((k # ks) ! i)"
        "(k # ks) ! j \<in> set (map fst live)" for i j
    proof -
      obtain i' where i': "i = Suc i'" using i(2) by (cases i) auto
      then have "ks ! i' \<noteq> k" using i(1) Cons.prems(1) by (metis Suc_less_eq distinct.simps(2) length_Cons nth_mem)
      then have ne: "c' (ks ! i') \<noteq> ?c1 (ks ! i')" using i(3) i' k1 by simp
      show ?thesis
      proof (cases j)
        case 0
        then show ?thesis using top i(4) by simp
      next
        case (Suc j')
        then show ?thesis using IH i i' ne by simp
      qed
    qed
    moreover have "fit_demand r live c' \<le> limit \<or> saturated \<or>
      (\<forall>j \<in> set (k # ks). j \<in> set (map fst live) \<longrightarrow> c' j = cp_ceiling (class_entry j))"
      using IH top by auto
    moreover have "\<forall>j. j \<notin> set (k # ks) \<longrightarrow> c' j = c j" using IH k1 by auto
    ultimately show ?thesis using bounds by blast
  qed
qed

section \<open>The fit\<close>

lemma class_rank_nth: "acquisition_classes ! class_rank k = k" "class_rank k < 8"
  by (cases k; simp add: class_rank_def acquisition_classes_def)+

lemma rev_table: "rev (map fst class_table) = rev acquisition_classes"
  by (simp add: class_table_def acquisition_classes_def)

lemma rev_table_nth: "rev (map fst class_table) ! (7 - class_rank k) = k"
proof -
  have "length acquisition_classes = 8" by (simp add: acquisition_classes_def)
  moreover have "8 - Suc (7 - class_rank k) = class_rank k" using class_rank_nth(2) [of k] by linarith
  ultimately show ?thesis
    unfolding rev_table using class_rank_nth [of k] by (simp add: rev_nth)
qed

lemma live_counts_ok:
  "distinct (map fst counts) \<Longrightarrow> distinct (map fst (live_counts tx counts))"
  "set (live_counts tx counts) \<subseteq> set counts"
  by (auto simp: live_counts_def distinct_map inj_on_def)

text \<open>
  C23. The budget fit is sound, ordered and optimal. Every live class ends between the cadence it starts from
  and its ceiling, and the reported demand is that of the cadences; a class is slowed down only when every
  lower-ranked live class is at its ceiling; and when the fit reports that the demand does not fit (and the
  reserved demand alone does not exceed the budget), every live class is at its ceiling, so no cadences
  within the ceilings would fit.\<close>

theorem budget_fit_is_optimal:
  assumes fit: "fit_to_budget counts budget margin tx reserved = Inr fit"
    and counts: "distinct (map fst counts)" "\<forall>(k, n) \<in> set counts. 0 \<le> n"
  shows "(\<forall>k \<in> fst ` set (live_counts tx counts). \<exists>c. bf_effective fit k = Some c \<and>
      start_cadence tx k \<le> c \<and> c \<le> cp_ceiling (class_entry k) \<and>
      (start_cadence tx k < c \<longrightarrow> (\<forall>k' \<in> fst ` set (live_counts tx counts). class_rank k < class_rank k' \<longrightarrow>
         bf_effective fit k' = Some (cp_ceiling (class_entry k')))) \<and>
      (\<not> bf_fits fit \<and> \<not> bf_saturated fit \<longrightarrow> c = cp_ceiling (class_entry k))) \<and>
    bf_demand fit = fit_demand reserved (live_counts tx counts) (\<lambda>k. the (bf_effective fit k)) \<and>
    (bf_fits fit \<longleftrightarrow> bf_demand fit \<le> margin * budget + FIT_EPSILON)"
proof -
  let ?live = "live_counts tx counts"
  let ?limit = "margin * budget"
  let ?sat = "reserved \<ge> budget - FIT_EPSILON"
  let ?ks = "rev (map fst class_table)"
  define c where "c = stretch_all reserved ?limit ?sat ?live (start_cadence tx) ?ks"
  have f: "fit = \<lparr>bf_effective = (\<lambda>k. if k \<in> set (map fst ?live) then Some (c k) else None),
      bf_demand = fit_demand reserved ?live c, bf_fits = (fit_demand reserved ?live c \<le> ?limit + FIT_EPSILON),
      bf_saturated = ?sat\<rparr>"
    unfolding c_def using fit by (simp add: fit_to_budget_def Let_def split: if_splits)
  have live: "distinct (map fst ?live)" "\<forall>(k, n) \<in> set ?live. 0 \<le> n"
    using live_counts_ok [where counts = counts and tx = tx] counts by auto
  have "distinct ?ks" by (simp add: class_table_def)
  note s = stretch_all_spec [OF live this _ c_def]
  have spec: "\<forall>k \<in> set ?ks. start_cadence tx k \<le> c k \<and> c k \<le> cp_ceiling (class_entry k)"
    "fit_demand reserved ?live c \<le> ?limit \<or> ?sat \<or>
      (\<forall>k \<in> set ?ks. k \<in> set (map fst ?live) \<longrightarrow> c k = cp_ceiling (class_entry k))"
    "\<forall>i < length ?ks. \<forall>j < i. c (?ks ! i) \<noteq> start_cadence tx (?ks ! i) \<longrightarrow> ?ks ! j \<in> set (map fst ?live) \<longrightarrow>
      c (?ks ! j) = cp_ceiling (class_entry (?ks ! j))"
    using s start_cadence_bounds by blast+
  have all: "k \<in> set ?ks" for k by (cases k) (simp_all add: class_table_def)
  have eff: "bf_effective fit k = Some (c k)" if "k \<in> fst ` set ?live" for k
    using that unfolding f by simp
  have "fit_demand reserved ?live c = fit_demand reserved ?live (\<lambda>k. the (bf_effective fit k))"
    by (rule fit_demand_cong) (simp add: eff)
  moreover have "c k' = cp_ceiling (class_entry k')"
    if "start_cadence tx k < c k" "k' \<in> fst ` set ?live" "class_rank k < class_rank k'" for k k'
  proof -
    have len: "length ?ks = 8" by (simp add: class_table_def)
    have i: "7 - class_rank k < length ?ks" "7 - class_rank k' < 7 - class_rank k"
      using that(3) class_rank_nth(2) [of k] class_rank_nth(2) [of k'] unfolding len by linarith+
    have "c (?ks ! (7 - class_rank k)) \<noteq> start_cadence tx (?ks ! (7 - class_rank k)) \<longrightarrow>
        ?ks ! (7 - class_rank k') \<in> set (map fst ?live) \<longrightarrow>
        c (?ks ! (7 - class_rank k')) = cp_ceiling (class_entry (?ks ! (7 - class_rank k')))"
      using spec(3) i by blast
    then show ?thesis unfolding rev_table_nth using that(1,2) by simp
  qed
  moreover have "c k = cp_ceiling (class_entry k)"
    if "k \<in> fst ` set ?live" "\<not> bf_fits fit" "\<not> bf_saturated fit" for k
  proof -
    have "\<not> fit_demand reserved ?live c \<le> ?limit + FIT_EPSILON" "\<not> ?sat" using that(2,3) f by simp_all
    moreover have "(0::rat) \<le> FIT_EPSILON" by (simp add: FIT_EPSILON_def)
    ultimately have "\<not> fit_demand reserved ?live c \<le> ?limit" by linarith
    then have "\<forall>k \<in> set ?ks. k \<in> set (map fst ?live) \<longrightarrow> c k = cp_ceiling (class_entry k)"
      using spec(2) \<open>\<not> ?sat\<close> by blast
    from bspec [OF this all [of k]] that(1) show ?thesis by simp
  qed
  moreover have "bf_demand fit = fit_demand reserved ?live c"
    "bf_fits fit \<longleftrightarrow> fit_demand reserved ?live c \<le> ?limit + FIT_EPSILON"
    unfolding f by simp_all
  moreover have "start_cadence tx k \<le> c k \<and> c k \<le> cp_ceiling (class_entry k)" for k
    using bspec [OF spec(1) all [of k]] .
  ultimately show ?thesis using eff by simp
qed

theorem budget_fit_is_optimal_witness:
  "\<exists>fit. fit_to_budget [(KEYING, 1), (CONTROL, 10), (MENU, 20)] 8 BUDGET_MARGIN False 0 = Inr fit \<and>
     bf_effective fit MENU = Some (cp_ceiling (class_entry MENU)) \<and> bf_effective fit KEYING = Some (start_cadence False KEYING)"
proof -
  let ?counts = "[(KEYING, 1), (CONTROL, 10), (MENU, 20)] :: (acquisition_class \<times> int) list"
  let ?fit = "projr (fit_to_budget ?counts 8 BUDGET_MARGIN False 0)"
  have fit: "fit_to_budget ?counts 8 BUDGET_MARGIN False 0 = Inr ?fit"
    by (simp add: fit_to_budget_def BUDGET_MARGIN_def Let_def)
  have eff: "map_option (\<lambda>c. c > start_cadence False CONTROL) (bf_effective ?fit CONTROL) = Some True"
    "bf_effective ?fit KEYING = Some (start_cadence False KEYING)"
    by code_simp+
  have live: "CONTROL \<in> fst ` set (live_counts False ?counts)" "MENU \<in> fst ` set (live_counts False ?counts)"
    "class_rank CONTROL < class_rank MENU" by code_simp+
  have "distinct (map fst ?counts)" "\<forall>(k, n) \<in> set ?counts. 0 \<le> n" by simp_all
  from budget_fit_is_optimal [OF fit this] eff(1) live
  have "bf_effective ?fit MENU = Some (cp_ceiling (class_entry MENU))" by fastforce
  then show ?thesis using fit eff(2) by blast
qed

end
