(* ===== verification/Scheduler.thy ===== *)
theory Scheduler
  imports AcquisitionPolicy Bcd "HOL-Library.Product_Lexorder"
begin

text \<open>
  The queue of backend reads: \<open>AcquisitionScheduler\<close> of \<open>core/acquisition_scheduler.py\<close>.

  \<^item> Dictionaries are association lists in insertion order; a set of names or paths is a list read as a set.
  \<^item> A request id \<open>acq-n\<close> is the number \<open>n\<close>; where ids are compared as text, \<open>request_id_text\<close> is.
  \<^item> A claimant and a startup defect are objects known by identity: numbers. A reading of the clock is the
    argument \<open>now\<close>. Paths are given as \<open>FieldPath\<close> objects; log lines, the texts of results and \<open>source_metadata\<close>
    (the provider and the capability ids again) are left out.
  \<^item> The keyword arguments that \<open>ensure_fresh\<close> hands down to \<open>_queue\<close>, \<open>_coalesce\<close> and \<open>_new_request\<close> are
    the record \<open>queue_args\<close>.
  \<^item> Where the code asserts that a cadence is set (only paths whose policy has one are grouped) the cadence is
    an argument.
\<close>

section \<open>Requests\<close>

datatype acquisition_priority = PRIO_BACKGROUND | PRIO_RECONCILIATION | PRIO_NORMAL | PRIO_COMMAND | PRIO_USER

fun priority_rank :: "acquisition_priority \<Rightarrow> int" where
  "priority_rank PRIO_BACKGROUND = 0"
| "priority_rank PRIO_RECONCILIATION = 1"
| "priority_rank PRIO_NORMAL = 2"
| "priority_rank PRIO_COMMAND = 3"
| "priority_rank PRIO_USER = 4"

definition automatic_priorities :: "acquisition_priority list" where
  "automatic_priorities = [PRIO_BACKGROUND, PRIO_RECONCILIATION]"

datatype acquisition_status = ACQ_FRESH | ACQ_QUEUED | ACQ_DEFERRED | ACQ_UNAVAILABLE

datatype acquisition_method = METHOD_POLL | METHOD_COMMAND_RESPONSE | METHOD_WAIT_UNSOLICITED

record acquisition_request =
  aq_id :: nat
  aq_paths :: "field_path list"
  aq_priority :: acquisition_priority
  aq_reason :: string
  aq_reasons :: "string list"
  aq_requested_at :: time
  aq_deadline :: time
  aq_max_age :: rat
  aq_timeout :: "rat option"
  aq_provider :: string
  aq_method :: acquisition_method
  aq_policy :: acquisition_policy
  aq_capability_ids :: "string list"
  aq_external_cat_paused :: bool
  aq_external_cat_owner :: "string option"

record ensure_fresh_result =
  ef_status :: acquisition_status
  ef_fields :: "store_field list"
  ef_request :: "acquisition_request option"

record pending_ensure_fresh =
  pe_paths :: "field_path list"
  pe_max_age :: rat
  pe_priority :: acquisition_priority
  pe_reason :: string
  pe_reasons :: "string list"
  pe_timeout :: "rat option"
  pe_requested_at :: time
  pe_deadline :: time
  pe_external_cat_owner :: "string option"

record acquisition_key =
  rk_scope :: field_scope
  rk_family :: field_family
  rk_receiver_id :: "string option"
  rk_slot :: "vfo_slot option"
  rk_method :: acquisition_method
  rk_policy :: acquisition_policy

record cadence_state =
  cd_current :: rat
  cd_next_due :: time

record acquisition_claim =
  cl_claimant :: nat
  cl_provider_generation :: int

record pending_cadence_update =
  pu_request_id :: nat
  pu_semantic_changed :: bool
  pu_completed_paths :: "field_path list"

record read_refusal =
  rf_count :: int
  rf_retry_at :: time

record scheduler =
  sc_profile :: acquisition_profile
  sc_requests :: "(acquisition_key \<times> acquisition_request) list"
  sc_deferred :: "(acquisition_key \<times> pending_ensure_fresh) list"
  sc_cadence :: "(acquisition_key \<times> cadence_state) list"
  sc_timeouts :: "(acquisition_key \<times> int) list"
  sc_refused :: "(field_path \<times> read_refusal) list"
  sc_claims :: "(nat \<times> acquisition_claim) list"
  sc_dispatch :: "(nat \<times> (field_path \<times> time) list) list"
  sc_executing :: "nat list"
  sc_execute_started :: "(nat \<times> time) list"
  sc_pending_cadence :: "(acquisition_key \<times> pending_cadence_update) list"
  sc_failed_count :: int
  sc_failures_by_reason :: "(string \<times> int) list"
  sc_startup_defect :: "nat option"
  sc_next_id :: nat
  sc_prime_cursor :: nat
  sc_cat_paused :: bool
  sc_cat_owner :: "string option"
  sc_cat_reason :: string
  sc_tx_active :: bool
  sc_availability :: "(field_path \<times> bool option) list"
  sc_demoted :: "(acquisition_key \<times> (rat \<times> rat)) list"
  sc_fitted_class :: "(acquisition_key \<times> acquisition_class) list"
  sc_budget_fit :: "(bool \<times> budget_fit) list"
  sc_group_receivers :: "(acquisition_key \<times> string) list"
  sc_fits_without_demote :: "(bool \<times> budget_fit) list option"

record queue_args =
  qa_max_age :: rat
  qa_priority :: acquisition_priority
  qa_reason :: string
  qa_reasons :: "string list"
  qa_timeout :: "rat option"
  qa_requested_at :: time
  qa_external_cat_owner :: "string option"
  qa_deadline :: time
  qa_require_fresh_dispatch :: bool

definition MIN_RECONCILIATION_MAX_AGE :: rat where
  "MIN_RECONCILIATION_MAX_AGE = 1 / 10 ^ 9"

definition EPSILON_MAX_AGE_LIVENESS :: rat where
  "EPSILON_MAX_AGE_LIVENESS = 1 / 2"

definition PRIME_UNOBSERVED_BURST_LIMIT :: nat where
  "PRIME_UNOBSERVED_BURST_LIMIT = 5"

definition FRESHNESS_DECAY_LIMIT_RATIO :: rat where
  "FRESHNESS_DECAY_LIMIT_RATIO = 2"

definition REFUSED_REASON :: string where
  "REFUSED_REASON = ''acquisition_request_refused''"

definition TIMEOUT_REASON :: string where
  "TIMEOUT_REASON = ''acquisition_request_timeout''"

section \<open>Helpers of the module\<close>

definition request_id_text :: "nat \<Rightarrow> string" where
  "request_id_text n = ''acq-'' @ map (\<lambda>d. char_of (nat d + 48)) (dec_digits n)"

definition request_key_of :: "field_path \<Rightarrow> acquisition_method \<Rightarrow> acquisition_policy \<Rightarrow> acquisition_key" where
  "request_key_of p m pol =
     \<lparr>rk_scope = fp_scope p, rk_family = fp_family p, rk_receiver_id = fp_receiver_id p,
      rk_slot = fp_slot p, rk_method = m, rk_policy = pol\<rparr>"

text \<open>The key of a request, from its first path.\<close>

definition key_of_request :: "acquisition_request \<Rightarrow> acquisition_key result" where
  "key_of_request r =
     (case aq_paths r of
        [] \<Rightarrow> Inl IndexError
      | p # _ \<Rightarrow> Inr (request_key_of p (aq_method r) (aq_policy r)))"

definition adaptive_cadence_limit :: "acquisition_policy \<Rightarrow> rat option" where
  "adaptive_cadence_limit pol =
     (case ap_freshness_ttl pol of
        None \<Rightarrow> ad_max_cadence (ap_decay pol)
      | Some ttl \<Rightarrow>
          let freshness_limit = ttl / FRESHNESS_DECAY_LIMIT_RATIO
          in (case ad_max_cadence (ap_decay pol) of
                None \<Rightarrow> Some freshness_limit
              | Some limit \<Rightarrow> Some (min limit freshness_limit)))"

definition normalize_paths :: "field_path list \<Rightarrow> field_path list result" where
  "normalize_paths paths = (if paths = [] then Inl ValueError else Inr (sort_key path_str paths))"

definition has_acquisition_hook :: "field_capability \<Rightarrow> bool" where
  "has_acquisition_hook c \<longleftrightarrow> can_poll c \<or> fk_command_response_observable c \<or> fk_unsolicited_push c"

fun first_method :: "field_capability \<Rightarrow> acquisition_method list \<Rightarrow> acquisition_method result" where
  "first_method c [] = Inl ValueError"
| "first_method c (m # ms) =
     (if m = METHOD_POLL \<and> can_poll c then Inr METHOD_POLL
      else if m = METHOD_COMMAND_RESPONSE \<and> fk_command_response_observable c then Inr METHOD_COMMAND_RESPONSE
      else if m = METHOD_WAIT_UNSOLICITED \<and> fk_unsolicited_push c then Inr METHOD_WAIT_UNSOLICITED
      else first_method c ms)"

fun preferred_methods :: "reconciliation_priority \<Rightarrow> acquisition_method list" where
  "preferred_methods PREFER_POLL = [METHOD_POLL]"
| "preferred_methods PREFER_COMMAND_RESPONSE = [METHOD_COMMAND_RESPONSE]"
| "preferred_methods PREFER_UNSOLICITED = [METHOD_WAIT_UNSOLICITED]"
| "preferred_methods PREFER_LAST_OBSERVATION = []"

definition capability_method :: "field_capability \<Rightarrow> acquisition_policy \<Rightarrow> acquisition_method result" where
  "capability_method c pol = first_method c (preferred_methods (ap_reconciliation pol)
     @ [METHOD_POLL, METHOD_COMMAND_RESPONSE, METHOD_WAIT_UNSOLICITED])"

definition merge_paths :: "field_path list \<Rightarrow> field_path list \<Rightarrow> field_path list" where
  "merge_paths left right = sort_key path_str (remdups (left @ right))"

definition min_optional_timeout :: "rat option \<Rightarrow> rat option \<Rightarrow> rat option" where
  "min_optional_timeout left right =
     (case (left, right) of (None, _) \<Rightarrow> right | (_, None) \<Rightarrow> left | (Some a, Some b) \<Rightarrow> Some (min a b))"

definition higher_priority :: "acquisition_priority \<Rightarrow> acquisition_priority \<Rightarrow> acquisition_priority" where
  "higher_priority new old = (if priority_rank new > priority_rank old then new else old)"

definition add_reasons :: "string list \<Rightarrow> string list \<Rightarrow> string list" where
  "add_reasons reasons candidates =
     foldl (\<lambda>rs c. if c \<in> set rs then rs else rs @ [c]) reasons candidates"

text \<open>\<open>grouped.setdefault(key, []).append(path)\<close>\<close>

definition add_to_group :: "acquisition_key \<Rightarrow> field_path
    \<Rightarrow> (acquisition_key \<times> field_path list) list \<Rightarrow> (acquisition_key \<times> field_path list) list" where
  "add_to_group key p groups =
     AList.update key ((case map_of groups key of None \<Rightarrow> [] | Some ps \<Rightarrow> ps) @ [p]) groups"

definition sort_groups :: "(acquisition_key \<times> field_path list) list \<Rightarrow> (acquisition_key \<times> field_path list) list" where
  "sort_groups groups = map (\<lambda>(key, ps). (key, sort_key path_str ps)) groups"

section \<open>Poll groups and their cadence\<close>

definition poll_groups :: "acquisition_profile \<Rightarrow> (acquisition_key \<times> field_path list) list" where
  "poll_groups pr = sort_groups (foldl (\<lambda>groups c.
     if \<not> can_poll c then groups
     else case ap_cadence (policy_for pr (fk_path c) None) of
       None \<Rightarrow> groups
     | Some _ \<Rightarrow>
         add_to_group (request_key_of (fk_path c) METHOD_POLL (policy_for pr (fk_path c) None)) (fk_path c) groups)
     [] (pr_capabilities pr))"

definition class_derived :: "acquisition_profile \<Rightarrow> field_path list \<Rightarrow> bool" where
  "class_derived pr paths \<longleftrightarrow> \<not> list_ex (\<lambda>p. map_of (pr_field_policies pr) p \<noteq> None) paths"

definition group_receiver :: "field_path list \<Rightarrow> string" where
  "group_receiver paths =
     (case remdups (map fp_receiver_id paths) of [Some r] \<Rightarrow> r | _ \<Rightarrow> '''')"

text \<open>Grouping also remembers the receiver of every class-derived group.\<close>

definition poll_cadence_groups :: "scheduler \<Rightarrow> (acquisition_key \<times> field_path list) list \<times> scheduler" where
  "poll_cadence_groups st =
     (let groups = poll_groups (sc_profile st)
      in (groups, st\<lparr>sc_group_receivers := foldl (\<lambda>m (key, paths).
            if class_derived (sc_profile st) paths then AList.update key (group_receiver paths) m else m)
            (sc_group_receivers st) groups\<rparr>))"

definition key_cadence :: "acquisition_key \<Rightarrow> rat" where
  "key_cadence key = (case ap_cadence (rk_policy key) of None \<Rightarrow> 0 | Some c \<Rightarrow> c)"

definition fitted_cadence :: "acquisition_key \<Rightarrow> rat \<Rightarrow> scheduler \<Rightarrow> rat" where
  "fitted_cadence key declared st =
     (case map_of (sc_demoted st) key of
        Some (cadence, _) \<Rightarrow> cadence
      | None \<Rightarrow>
          (case map_of (sc_fitted_class st) key of
             None \<Rightarrow> declared
           | Some klass \<Rightarrow>
               (case Option.bind (map_of (sc_budget_fit st) (sc_tx_active st)) (\<lambda>fit. bf_effective fit klass) of
                  None \<Rightarrow> declared
                | Some cadence \<Rightarrow> cadence)))"

definition cadence_state_for :: "acquisition_key \<Rightarrow> rat \<Rightarrow> time \<Rightarrow> scheduler \<Rightarrow> cadence_state \<times> scheduler" where
  "cadence_state_for key cadence now st =
     (case map_of (sc_cadence st) key of
        Some existing \<Rightarrow> (existing, st)
      | None \<Rightarrow>
          let state = \<lparr>cd_current = fitted_cadence key cadence st, cd_next_due = now\<rparr>
          in (state, st\<lparr>sc_cadence := AList.update key state (sc_cadence st)\<rparr>))"

section \<open>Construction\<close>

definition count_class :: "acquisition_class \<Rightarrow> int \<Rightarrow> (acquisition_class \<times> int) list
    \<Rightarrow> (acquisition_class \<times> int) list" where
  "count_class k n counts = AList.update k ((case map_of counts k of None \<Rightarrow> 0 | Some m \<Rightarrow> m) + n) counts"

fun class_demand :: "acquisition_profile \<Rightarrow> (acquisition_key \<times> field_path list) list
    \<Rightarrow> (acquisition_class \<times> int) list \<Rightarrow> rat \<Rightarrow> rat \<Rightarrow> (acquisition_key \<times> acquisition_class) list
    \<Rightarrow> (acquisition_class \<times> int) list \<times> rat \<times> rat \<times> (acquisition_key \<times> acquisition_class) list" where
  "class_demand pr [] counts rx tx fitted = (counts, rx, tx, fitted)"
| "class_demand pr ((key, paths) # groups) counts rx tx fitted =
     (if \<not> class_derived pr paths
      then
        let rate = of_nat (length paths) / key_cadence key
        in class_demand pr groups counts (if ap_tx_only (rk_policy key) then rx else rx + rate) (tx + rate) fitted
      else
        let klass = (case paths of [] \<Rightarrow> SETTING | p # _ \<Rightarrow> acquisition_class_for_path p)
        in class_demand pr groups (count_class klass (int (length paths)) counts) rx tx
             (AList.update key klass fitted))"

definition fit_transport_budget :: "rat \<Rightarrow> scheduler \<Rightarrow> scheduler result" where
  "fit_transport_budget budget st =
     (if budget \<le> 0 then Inl ValueError
      else
        let (groups, st1) = poll_cadence_groups st;
            (counts, rx, tx, fitted) = class_demand (sc_profile st1) groups [] 0 0 (sc_fitted_class st1)
        in bind_result (fit_to_budget counts budget BUDGET_MARGIN False rx) (\<lambda>receive.
           bind_result (fit_to_budget counts budget BUDGET_MARGIN True tx) (\<lambda>transmit.
             Inr (st1\<lparr>sc_fitted_class := fitted, sc_budget_fit := [(False, receive), (True, transmit)],
                     sc_fits_without_demote := Some [(False, receive), (True, transmit)]\<rparr>))))"

definition scheduler_new :: "acquisition_profile \<Rightarrow> rat option \<Rightarrow> scheduler result" where
  "scheduler_new pr budget =
     (let st = \<lparr>sc_profile = pr, sc_requests = [], sc_deferred = [], sc_cadence = [], sc_timeouts = [],
        sc_refused = [], sc_claims = [], sc_dispatch = [], sc_executing = [], sc_execute_started = [],
        sc_pending_cadence = [], sc_failed_count = 0, sc_failures_by_reason = [],
        sc_startup_defect = None, sc_next_id = 1, sc_prime_cursor = 0, sc_cat_paused = False,
        sc_cat_owner = None, sc_cat_reason = '''', sc_tx_active = True, sc_availability = [],
        sc_demoted = [], sc_fitted_class = [], sc_budget_fit = [], sc_group_receivers = [],
        sc_fits_without_demote = None\<rparr>
      in case budget of None \<Rightarrow> Inr st | Some b \<Rightarrow> fit_transport_budget b st)"

section \<open>Claims and dispatch records\<close>

definition try_claim :: "acquisition_request \<Rightarrow> nat \<Rightarrow> int \<Rightarrow> scheduler \<Rightarrow> (bool \<times> scheduler) result" where
  "try_claim r claimant generation st =
     bind_result (key_of_request r) (\<lambda>key.
       case map_of (sc_requests st) key of
         None \<Rightarrow> Inr (False, st)
       | Some pending \<Rightarrow>
           if aq_id pending \<noteq> aq_id r then Inr (False, st)
           else
             let take = (True, st\<lparr>sc_claims := AList.update (aq_id r)
                   \<lparr>cl_claimant = claimant, cl_provider_generation = generation\<rparr> (sc_claims st)\<rparr>)
             in (case map_of (sc_claims st) (aq_id r) of
                   None \<Rightarrow> Inr take
                 | Some c \<Rightarrow>
                     if generation > cl_provider_generation c then Inr take
                     else if generation < cl_provider_generation c then Inr (False, st)
                     else Inr (cl_claimant c = claimant, st)))"

definition claim_is_current :: "acquisition_request \<Rightarrow> nat \<Rightarrow> int \<Rightarrow> scheduler \<Rightarrow> bool" where
  "claim_is_current r claimant generation st \<longleftrightarrow>
     map_of (sc_claims st) (aq_id r) = Some \<lparr>cl_claimant = claimant, cl_provider_generation = generation\<rparr>"

definition release_claim :: "nat \<Rightarrow> nat \<Rightarrow> int \<Rightarrow> scheduler \<Rightarrow> scheduler" where
  "release_claim request_id claimant generation st =
     (if map_of (sc_claims st) request_id = Some \<lparr>cl_claimant = claimant, cl_provider_generation = generation\<rparr>
      then st\<lparr>sc_claims := AList.delete request_id (sc_claims st)\<rparr> else st)"

definition note_execute_started :: "nat \<Rightarrow> time option \<Rightarrow> scheduler \<Rightarrow> scheduler" where
  "note_execute_started request_id now st =
     st\<lparr>sc_executing := List.insert request_id (sc_executing st),
        sc_execute_started := (case now of None \<Rightarrow> sc_execute_started st
          | Some t \<Rightarrow> AList.update request_id t (sc_execute_started st))\<rparr>"

definition note_execute_finished :: "nat \<Rightarrow> scheduler \<Rightarrow> scheduler" where
  "note_execute_finished request_id st =
     st\<lparr>sc_executing := removeAll request_id (sc_executing st),
        sc_execute_started := AList.delete request_id (sc_execute_started st)\<rparr>"

definition record_dispatch :: "nat \<Rightarrow> field_path list \<Rightarrow> time \<Rightarrow> scheduler \<Rightarrow> scheduler" where
  "record_dispatch request_id paths now st =
     (let dispatched = (case map_of (sc_dispatch st) request_id of None \<Rightarrow> [] | Some d \<Rightarrow> d)
      in st\<lparr>sc_dispatch := AList.update request_id
             (foldl (\<lambda>d p. AList.update p now d) dispatched paths) (sc_dispatch st)\<rparr>)"

definition may_credit :: "acquisition_request \<Rightarrow> time \<Rightarrow> scheduler \<Rightarrow> bool" where
  "may_credit r observed_at st \<longleftrightarrow>
     (case map_of (sc_dispatch st) (aq_id r) of
        None \<Rightarrow> False
      | Some d \<Rightarrow> list_ex (\<lambda>p. case map_of d p of None \<Rightarrow> False | Some t \<Rightarrow> t \<le> observed_at) (aq_paths r)) \<or>
     (case map_of (sc_execute_started st) (aq_id r) of None \<Rightarrow> False | Some t \<Rightarrow> t \<le> observed_at)"

definition forget_dispatch :: "nat \<Rightarrow> scheduler \<Rightarrow> scheduler" where
  "forget_dispatch request_id st =
     st\<lparr>sc_dispatch := AList.delete request_id (sc_dispatch st),
        sc_executing := removeAll request_id (sc_executing st),
        sc_execute_started := AList.delete request_id (sc_execute_started st)\<rparr>"

definition in_execute :: "nat \<Rightarrow> scheduler \<Rightarrow> bool" where
  "in_execute request_id st \<longleftrightarrow> request_id \<in> set (sc_executing st)"

definition dispatch_covers :: "nat \<Rightarrow> field_path list \<Rightarrow> scheduler \<Rightarrow> bool" where
  "dispatch_covers request_id paths st \<longleftrightarrow>
     (case map_of (sc_dispatch st) request_id of
        None \<Rightarrow> False | Some d \<Rightarrow> list_ex (\<lambda>p. map_of d p \<noteq> None) paths)"

definition reissue :: "acquisition_request \<Rightarrow> acquisition_key \<Rightarrow> nat \<Rightarrow> scheduler
    \<Rightarrow> acquisition_request \<times> scheduler" where
  "reissue r key previous_id st =
     (let request_id = sc_next_id st;
          st1 = forget_dispatch previous_id (st\<lparr>sc_next_id := sc_next_id st + 1\<rparr>);
          st2 = st1\<lparr>sc_claims := AList.delete previous_id (sc_claims st1)\<rparr>;
          st3 = (case map_of (sc_pending_cadence st2) key of
                   Some u \<Rightarrow>
                     if pu_request_id u = previous_id
                     then st2\<lparr>sc_pending_cadence := AList.update key (u\<lparr>pu_request_id := request_id\<rparr>)
                            (sc_pending_cadence st2)\<rparr>
                     else st2
                 | None \<Rightarrow> st2)
      in (r\<lparr>aq_id := request_id\<rparr>, st3))"

text \<open>Where a request leaves the table its claim and its dispatch record go with it.\<close>

definition drop_request :: "acquisition_key \<Rightarrow> nat \<Rightarrow> scheduler \<Rightarrow> scheduler" where
  "drop_request key request_id st =
     forget_dispatch request_id
       (st\<lparr>sc_requests := AList.delete key (sc_requests st),
           sc_claims := AList.delete request_id (sc_claims st)\<rparr>)"

section \<open>Queueing\<close>

definition new_request :: "field_path list \<Rightarrow> acquisition_key \<Rightarrow> queue_args \<Rightarrow> scheduler
    \<Rightarrow> acquisition_request \<times> scheduler" where
  "new_request paths key qa st =
     (\<lparr>aq_id = sc_next_id st, aq_paths = paths, aq_priority = qa_priority qa, aq_reason = qa_reason qa,
       aq_reasons = qa_reasons qa, aq_requested_at = qa_requested_at qa, aq_deadline = qa_deadline qa,
       aq_max_age = qa_max_age qa, aq_timeout = qa_timeout qa, aq_provider = pr_provider (sc_profile st),
       aq_method = rk_method key, aq_policy = rk_policy key, aq_capability_ids = map path_str paths,
       aq_external_cat_paused = sc_cat_paused st, aq_external_cat_owner = qa_external_cat_owner qa\<rparr>,
      st\<lparr>sc_next_id := sc_next_id st + 1\<rparr>)"

definition coalesce :: "acquisition_request \<Rightarrow> field_path list \<Rightarrow> queue_args \<Rightarrow> acquisition_request" where
  "coalesce existing paths qa =
     (let merged = merge_paths (aq_paths existing) paths
      in existing\<lparr>aq_paths := merged,
           aq_priority := higher_priority (qa_priority qa) (aq_priority existing),
           aq_max_age := min (aq_max_age existing) (qa_max_age qa),
           aq_timeout := min_optional_timeout (aq_timeout existing) (qa_timeout qa),
           aq_deadline := min (aq_deadline existing) (qa_deadline qa),
           aq_reasons := add_reasons (aq_reasons existing) (qa_reasons qa),
           aq_capability_ids := map path_str merged\<rparr>)"

definition replace_request_paths :: "acquisition_request \<Rightarrow> field_path list \<Rightarrow> acquisition_request" where
  "replace_request_paths r paths = r\<lparr>aq_paths := paths, aq_capability_ids := map path_str paths\<rparr>"

definition queue_group :: "acquisition_key \<Rightarrow> field_path list \<Rightarrow> queue_args \<Rightarrow> scheduler
    \<Rightarrow> acquisition_request \<times> scheduler" where
  "queue_group key paths qa st =
     (case map_of (sc_requests st) key of
        Some existing \<Rightarrow>
          let merged = coalesce existing paths qa;
              (r, st1) =
                (if qa_require_fresh_dispatch qa \<and>
                    (dispatch_covers (aq_id existing) paths st \<or> in_execute (aq_id existing) st)
                 then reissue merged key (aq_id existing) st else (merged, st))
          in (r, st1\<lparr>sc_requests := AList.update key r (sc_requests st1)\<rparr>)
      | None \<Rightarrow>
          let (r, st1) = new_request paths key qa st
          in (r, st1\<lparr>sc_requests := AList.update key r (sc_requests st1)\<rparr>))"

fun queue_grouped :: "(acquisition_key \<times> field_path list) list \<Rightarrow> queue_args \<Rightarrow> scheduler
    \<Rightarrow> acquisition_request list \<times> scheduler" where
  "queue_grouped [] qa st = ([], st)"
| "queue_grouped ((key, paths) # groups) qa st =
     (let (r, st1) = queue_group key paths qa st;
          (rs, st2) = queue_grouped groups qa st1
      in (r # rs, st2))"

fun group_requests :: "acquisition_profile \<Rightarrow> field_path list \<Rightarrow> (acquisition_key \<times> field_path list) list
    \<Rightarrow> (acquisition_key \<times> field_path list) list result" where
  "group_requests pr [] groups = Inr groups"
| "group_requests pr (p # ps) groups =
     bind_result (capability_method (capability_for pr p) (policy_for pr p None)) (\<lambda>m.
       group_requests pr ps (add_to_group (request_key_of p m (policy_for pr p None)) p groups))"

definition request_groups :: "acquisition_profile \<Rightarrow> field_path list
    \<Rightarrow> (acquisition_key \<times> field_path list) list result" where
  "request_groups pr paths = bind_result (group_requests pr paths []) (\<lambda>groups. Inr (sort_groups groups))"

definition queue_paths :: "field_path list \<Rightarrow> queue_args \<Rightarrow> scheduler
    \<Rightarrow> (acquisition_request list \<times> scheduler) result" where
  "queue_paths paths qa st =
     bind_result (request_groups (sc_profile st) paths) (\<lambda>groups. Inr (queue_grouped groups qa st))"

definition merge_items :: "pending_ensure_fresh \<Rightarrow> pending_ensure_fresh \<Rightarrow> pending_ensure_fresh" where
  "merge_items existing item =
     \<lparr>pe_paths = merge_paths (pe_paths existing) (pe_paths item),
      pe_max_age = min (pe_max_age existing) (pe_max_age item),
      pe_priority = higher_priority (pe_priority item) (pe_priority existing),
      pe_reason = (if pe_reason existing = pe_reason item then pe_reason existing else pe_reason item),
      pe_reasons = add_reasons (pe_reasons existing) (pe_reasons item),
      pe_timeout = min_optional_timeout (pe_timeout existing) (pe_timeout item),
      pe_requested_at = min (pe_requested_at existing) (pe_requested_at item),
      pe_deadline = min (pe_deadline existing) (pe_deadline item),
      pe_external_cat_owner = (case pe_external_cat_owner item of
         Some (c # cs) \<Rightarrow> Some (c # cs) | _ \<Rightarrow> pe_external_cat_owner existing)\<rparr>"

definition defer_item :: "acquisition_key \<Rightarrow> pending_ensure_fresh \<Rightarrow> scheduler \<Rightarrow> scheduler" where
  "defer_item key item st =
     st\<lparr>sc_deferred := AList.update key
       (case map_of (sc_deferred st) key of None \<Rightarrow> item | Some existing \<Rightarrow> merge_items existing item)
       (sc_deferred st)\<rparr>"

definition must_defer_for_external_cat :: "field_path list \<Rightarrow> scheduler \<Rightarrow> bool" where
  "must_defer_for_external_cat paths st \<longleftrightarrow> list_ex (\<lambda>p.
     (case ap_external_cat_pause (policy_for (sc_profile st) p None) of
        CONTINUE_POLLING \<Rightarrow> False
      | COALESCE_METERS_ONLY \<Rightarrow> \<not> list_all (\<lambda>c. fp_family c = METERS) paths
      | PAUSE_POLLING \<Rightarrow> True)) paths"

section \<open>Refusals\<close>

definition refusal_retry_seconds :: "field_path \<Rightarrow> scheduler \<Rightarrow> rat" where
  "refusal_retry_seconds p st =
     (let pol = policy_for (sc_profile st) p None
      in (case adaptive_cadence_limit pol of
            Some limit \<Rightarrow> limit
          | None \<Rightarrow> (case ap_cadence pol of None \<Rightarrow> 0 | Some c \<Rightarrow> c)))"

definition refusal_withheld :: "field_path \<Rightarrow> time \<Rightarrow> scheduler \<Rightarrow> bool" where
  "refusal_withheld p now st \<longleftrightarrow>
     (case map_of (sc_refused st) p of None \<Rightarrow> False | Some r \<Rightarrow> rf_retry_at r > now)"

definition consecutive_refusals :: "field_path \<Rightarrow> scheduler \<Rightarrow> int" where
  "consecutive_refusals p st = (case map_of (sc_refused st) p of None \<Rightarrow> 0 | Some r \<Rightarrow> rf_count r)"

definition end_refusals :: "field_path list \<Rightarrow> scheduler \<Rightarrow> scheduler" where
  "end_refusals paths st =
     st\<lparr>sc_refused := foldl (\<lambda>m p. AList.delete p m) (sc_refused st) paths\<rparr>"

section \<open>\<open>ensure_fresh\<close>\<close>

text \<open>\<open>Some\<close> is the answer that a path cannot be acquired.\<close>

definition availability_for :: "field_path list \<Rightarrow> scheduler \<Rightarrow> ensure_fresh_result option" where
  "availability_for paths st =
     (if list_ex (\<lambda>p. is_unavailable (capability_for (sc_profile st) p) \<or>
            \<not> has_acquisition_hook (capability_for (sc_profile st) p)) paths
      then Some \<lparr>ef_status = ACQ_UNAVAILABLE, ef_fields = [], ef_request = None\<rparr> else None)"

text \<open>The groups in order while an external owner controls the radio.\<close>

fun queue_or_defer :: "(acquisition_key \<times> field_path list) list \<Rightarrow> queue_args \<Rightarrow> scheduler
    \<Rightarrow> (acquisition_request list \<times> bool \<times> scheduler) result" where
  "queue_or_defer [] qa st = Inr ([], False, st)"
| "queue_or_defer ((key, paths) # groups) qa st =
     (if must_defer_for_external_cat paths st
      then bind_result (queue_or_defer groups qa (defer_item key
             \<lparr>pe_paths = paths, pe_max_age = qa_max_age qa, pe_priority = qa_priority qa,
              pe_reason = qa_reason qa, pe_reasons = [qa_reason qa], pe_timeout = qa_timeout qa,
              pe_requested_at = qa_requested_at qa, pe_deadline = qa_deadline qa,
              pe_external_cat_owner = sc_cat_owner st\<rparr> st)) (\<lambda>(rs, _, st'). Inr (rs, True, st'))
      else bind_result (queue_paths paths (qa\<lparr>qa_external_cat_owner := sc_cat_owner st\<rparr>) st) (\<lambda>(qs, st1).
           bind_result (queue_or_defer groups qa st1) (\<lambda>(rs, deferred, st2). Inr (qs @ rs, deferred, st2))))"

definition queued_result :: "acquisition_request list \<Rightarrow> ensure_fresh_result" where
  "queued_result rs =
     (case rs of
        [] \<Rightarrow> \<lparr>ef_status = ACQ_DEFERRED, ef_fields = [], ef_request = None\<rparr>
      | r # _ \<Rightarrow> \<lparr>ef_status = ACQ_QUEUED, ef_fields = [], ef_request = Some r\<rparr>)"

definition ensure_fresh :: "field_path list \<Rightarrow> rat \<Rightarrow> acquisition_priority \<Rightarrow> string \<Rightarrow> rat option \<Rightarrow> bool
    \<Rightarrow> time \<Rightarrow> scheduler \<Rightarrow> (ensure_fresh_result \<times> scheduler) result" where
  "ensure_fresh paths max_age priority reason timeout require_fresh_dispatch now st =
     bind_result (normalize_paths paths) (\<lambda>normalized.
       if max_age \<le> 0 then Inl ValueError
       else case availability_for normalized st of
         Some unavailable \<Rightarrow> Inr (unavailable, st)
       | None \<Rightarrow>
           let askable = (if priority \<in> set automatic_priorities
                 then filter (\<lambda>p. \<not> refusal_withheld p now st) normalized else normalized);
               deadline = (if timeout = None \<and> max_age \<le> MIN_RECONCILIATION_MAX_AGE
                 then now + EPSILON_MAX_AGE_LIVENESS else now + max_age);
               qa = \<lparr>qa_max_age = max_age, qa_priority = priority, qa_reason = reason, qa_reasons = [reason],
                     qa_timeout = timeout, qa_requested_at = now, qa_external_cat_owner = None,
                     qa_deadline = deadline, qa_require_fresh_dispatch = require_fresh_dispatch\<rparr>
           in if askable = [] then Inr (\<lparr>ef_status = ACQ_UNAVAILABLE, ef_fields = [], ef_request = None\<rparr>, st)
              else if sc_cat_paused st
              then bind_result (request_groups (sc_profile st) askable) (\<lambda>groups.
                   bind_result (queue_or_defer groups qa st) (\<lambda>(rs, deferred, st1).
                     if rs \<noteq> [] \<or> deferred then Inr (queued_result rs, st1)
                     else bind_result (queue_paths askable qa st1) (\<lambda>(rs', st2). Inr (queued_result rs', st2))))
              else bind_result (queue_paths askable qa st) (\<lambda>(rs, st1). Inr (queued_result rs, st1)))"

section \<open>Views\<close>

definition request_order :: "acquisition_request \<Rightarrow> int \<times> time \<times> time \<times> string" where
  "request_order r = (- priority_rank (aq_priority r), aq_deadline r, aq_requested_at r, request_id_text (aq_id r))"

definition pending_requests :: "scheduler \<Rightarrow> acquisition_request list" where
  "pending_requests st = sort_key request_order (map snd (sc_requests st))"

definition contradicted :: "(field_path \<times> bool option) list \<Rightarrow> field_path \<Rightarrow> bool" where
  "contradicted availability p \<longleftrightarrow> map_of availability p = Some (Some False)"

definition contradicted_automatic_request :: "acquisition_request \<Rightarrow> time \<Rightarrow> scheduler \<Rightarrow> bool" where
  "contradicted_automatic_request r now st \<longleftrightarrow>
     aq_priority r \<in> set automatic_priorities \<and>
     list_all (\<lambda>p. contradicted (sc_availability st) p \<or> refusal_withheld p now st) (aq_paths r)"

definition is_dispatchable :: "acquisition_request \<Rightarrow> time \<Rightarrow> scheduler \<Rightarrow> bool" where
  "is_dispatchable r now st \<longleftrightarrow>
     (sc_tx_active st \<or> aq_priority r \<noteq> PRIO_RECONCILIATION \<or> \<not> ap_tx_only (aq_policy r)) \<and>
     \<not> contradicted_automatic_request r now st"

definition best_class_rank :: "field_path list \<Rightarrow> nat" where
  "best_class_rank paths = (case map (\<lambda>p. class_rank (acquisition_class_for_path p)) paths of
     [] \<Rightarrow> 0 | n # ns \<Rightarrow> fold min ns n)"

definition dispatch_order :: "acquisition_request \<Rightarrow> int \<times> nat \<times> time \<times> time \<times> string" where
  "dispatch_order r = (- priority_rank (aq_priority r), best_class_rank (aq_paths r), aq_deadline r,
     aq_requested_at r, request_id_text (aq_id r))"

definition dispatchable_requests :: "time \<Rightarrow> scheduler \<Rightarrow> acquisition_request list" where
  "dispatchable_requests now st =
     sort_key dispatch_order (filter (\<lambda>r. is_dispatchable r now st) (map snd (sc_requests st)))"

definition note_tx_active :: "bool \<Rightarrow> scheduler \<Rightarrow> scheduler" where
  "note_tx_active tx st = st\<lparr>sc_tx_active := tx\<rparr>"

definition note_availability :: "store_snapshot \<Rightarrow> scheduler
    \<Rightarrow> ((field_path \<times> bool option) list \<times> scheduler) result" where
  "note_availability sn st =
     bind_result (resolve_available_when (sc_profile st) sn) (\<lambda>availability.
       Inr (availability, st\<lparr>sc_availability := availability\<rparr>))"

section \<open>Cadence polling\<close>

definition demotion_envelope :: "acquisition_key \<Rightarrow> field_path list \<Rightarrow> scheduler \<Rightarrow> (rat \<times> rat) option" where
  "demotion_envelope key paths st =
     (let klass = (case map_of (sc_fitted_class st) key of
            Some k \<Rightarrow> k
          | None \<Rightarrow> (case paths of [] \<Rightarrow> SETTING | p # _ \<Rightarrow> acquisition_class_for_path p));
          target = demoted_acquisition_class klass;
          nominal = (case ap_cadence (acquisition_policy_for_class target) of None \<Rightarrow> 0 | Some c \<Rightarrow> c);
          stretched = (case sc_fits_without_demote st of
            None \<Rightarrow> nominal
          | Some fits \<Rightarrow>
              (case Option.bind (map_of fits (sc_tx_active st)) (\<lambda>fit. bf_effective fit target) of
                 None \<Rightarrow> nominal | Some c \<Rightarrow> c));
          cadence = max stretched (fitted_cadence key (key_cadence key) st)
      in if target = klass then None
         else case ap_freshness_ttl (acquisition_policy_for_class target) of
           None \<Rightarrow> Some (cadence, cadence)
         | Some ttl \<Rightarrow> Some (cadence, max ttl (key_cadence key)))"

definition demote_queue_envelopes :: "string \<Rightarrow> scheduler
    \<Rightarrow> (acquisition_key \<times> (rat \<times> rat)) list \<times> scheduler" where
  "demote_queue_envelopes observed st =
     (let (groups, st1) = poll_cadence_groups st;
          demoted_receiver = other_receiver observed
      in (concat (map (\<lambda>(key, paths).
            if demoted_receiver = None \<or> map_of (sc_group_receivers st1) key \<noteq> demoted_receiver then []
            else case demotion_envelope key paths st1 of None \<Rightarrow> [] | Some e \<Rightarrow> [(key, e)]) groups), st1))"

text \<open>The clocks kept when the demotion map has been set: slower ones than the base are dropped.\<close>

definition flip_hygiene :: "scheduler \<Rightarrow> scheduler" where
  "flip_hygiene st = st\<lparr>sc_cadence := filter (\<lambda>(key, state).
     map_of (sc_demoted st) key \<noteq> None \<or>
     \<not> cd_current state > fitted_cadence key (key_cadence key) st + FIT_EPSILON) (sc_cadence st)\<rparr>"

fun due_loop :: "time \<Rightarrow> bool \<Rightarrow> (field_path \<times> bool option) list \<Rightarrow> (acquisition_key \<times> field_path list) list
    \<Rightarrow> scheduler \<Rightarrow> (acquisition_key \<times> field_path list) list \<times> scheduler" where
  "due_loop now tx availability [] st = ([], st)"
| "due_loop now tx availability ((key, paths) # groups) st =
     (let asked = filter (\<lambda>p. \<not> refusal_withheld p now st) paths
      in if map_of (sc_requests st) key \<noteq> None \<or> map_of (sc_deferred st) key \<noteq> None
            \<or> ap_cadence (rk_policy key) = None
            \<or> (ap_tx_only (rk_policy key) \<and> \<not> tx)
            \<or> list_all (contradicted availability) paths
            \<or> asked = []
         then due_loop now tx availability groups st
         else
           let (state, st1) = cadence_state_for key (key_cadence key) now st;
               (due, st2) = due_loop now tx availability groups st1
           in (if cd_next_due state \<le> now then (key, sort_key path_str asked) # due else due, st2))"

definition due_poll_groups :: "time \<Rightarrow> bool \<Rightarrow> (field_path \<times> bool option) list \<Rightarrow> scheduler
    \<Rightarrow> (acquisition_key \<times> field_path list) list \<times> scheduler" where
  "due_poll_groups now tx availability st =
     (let (groups, st1) = poll_cadence_groups st in due_loop now tx availability groups st1)"

fun queue_due :: "time \<Rightarrow> (acquisition_key \<times> field_path list) list \<Rightarrow> scheduler
    \<Rightarrow> acquisition_request list \<times> scheduler" where
  "queue_due now [] st = ([], st)"
| "queue_due now ((key, paths) # due) st =
     (let max_age = (case map_of (sc_demoted st) key of
            Some (_, ttl) \<Rightarrow> ttl
          | None \<Rightarrow> (case ap_freshness_ttl (rk_policy key) of Some ttl \<Rightarrow> ttl | None \<Rightarrow> key_cadence key))
      in if sc_cat_paused st \<and> must_defer_for_external_cat paths st
         then queue_due now due (defer_item key
                \<lparr>pe_paths = paths, pe_max_age = max_age, pe_priority = PRIO_BACKGROUND,
                 pe_reason = ''policy-cadence'', pe_reasons = [''policy-cadence''], pe_timeout = None,
                 pe_requested_at = now, pe_deadline = now + max_age,
                 pe_external_cat_owner = sc_cat_owner st\<rparr> st)
         else
           let (rs, st1) = queue_grouped [(key, paths)]
                 \<lparr>qa_max_age = max_age, qa_priority = PRIO_BACKGROUND, qa_reason = ''policy-cadence'',
                  qa_reasons = [''policy-cadence''], qa_timeout = None, qa_requested_at = now,
                  qa_external_cat_owner = sc_cat_owner st, qa_deadline = now + max_age,
                  qa_require_fresh_dispatch = False\<rparr> st;
               (rs', st2) = queue_due now due st1
           in (rs @ rs', st2))"

definition due_requests :: "time \<Rightarrow> bool \<Rightarrow> string option \<Rightarrow> (field_path \<times> bool option) list \<Rightarrow> scheduler
    \<Rightarrow> acquisition_request list \<times> scheduler" where
  "due_requests now tx observed availability st =
     (let st1 = st\<lparr>sc_tx_active := tx, sc_availability := availability\<rparr>;
          st3 = (case observed of
            None \<Rightarrow> st1\<lparr>sc_demoted := []\<rparr>
          | Some active \<Rightarrow>
              let (envelopes, st2) = demote_queue_envelopes active st1
              in flip_hygiene (st2\<lparr>sc_demoted := envelopes\<rparr>));
          (due, st4) = due_poll_groups now tx availability st3
      in queue_due now due st4)"

section \<open>Priming\<close>

definition cadence_owned :: "acquisition_profile \<Rightarrow> field_path \<Rightarrow> acquisition_policy \<Rightarrow> bool" where
  "cadence_owned pr p pol \<longleftrightarrow> can_poll (capability_for pr p) \<and> ap_cadence pol \<noteq> None"

definition prime_max_age :: "acquisition_policy \<Rightarrow> rat" where
  "prime_max_age pol =
     (let usable = (\<lambda>a. case a of None \<Rightarrow> False | Some x \<Rightarrow> 0 < (x :: rat))
      in if usable (ap_freshness_ttl pol) then the (ap_freshness_ttl pol)
         else if usable (ap_cadence pol) then the (ap_cadence pol)
         else MIN_RECONCILIATION_MAX_AGE)"

fun prime_loop :: "field_path list \<Rightarrow> field_path list \<Rightarrow> string \<Rightarrow> nat \<Rightarrow> (field_path \<times> bool option) list \<Rightarrow> time
    \<Rightarrow> (field_path \<times> acquisition_policy) list \<Rightarrow> nat \<Rightarrow> nat \<Rightarrow> (nat \<times> acquisition_request) list \<Rightarrow> scheduler
    \<Rightarrow> (nat \<times> (nat \<times> acquisition_request) list \<times> scheduler) result" where
  "prime_loop observed pending reason limit availability now [] count visited queued st = Inr (visited, queued, st)"
| "prime_loop observed pending reason limit availability now ((p, pol) # items) count visited queued st =
     (if count \<ge> limit then Inr (visited, queued, st)
      else if p \<in> set observed \<or> p \<in> set pending \<or> cadence_owned (sc_profile st) p pol \<or> contradicted availability p
      then prime_loop observed pending reason limit availability now items count (visited + 1) queued st
      else bind_result (ensure_fresh [p] (prime_max_age pol) PRIO_BACKGROUND reason None False now st) (\<lambda>(res, st1).
        case ef_request res of
          None \<Rightarrow> prime_loop observed pending reason limit availability now items count (visited + 1) queued st1
        | Some r \<Rightarrow> prime_loop observed pending reason limit availability now items (count + 1) (visited + 1)
            (AList.update (aq_id r) r queued) st1))"

definition prime_unobserved :: "field_path list \<Rightarrow> string \<Rightarrow> nat \<Rightarrow> (field_path \<times> bool option) list \<Rightarrow> time
    \<Rightarrow> scheduler \<Rightarrow> (acquisition_request list \<times> scheduler) result" where
  "prime_unobserved observed reason limit availability now st =
     (let pending = concat (map (\<lambda>(_, r). aq_paths r) (sc_requests st));
          items = pr_field_policies (sc_profile st);
          total = length items;
          cursor = (if total = 0 then 0 else sc_prime_cursor st mod total)
      in bind_result (prime_loop observed pending reason limit availability now
           (drop cursor items @ take cursor items) 0 0 [] st) (\<lambda>(visited, queued, st1).
         Inr (map snd queued,
              if total = 0 then st1 else st1\<lparr>sc_prime_cursor := (cursor + visited) mod total\<rparr>)))"

definition has_unobserved_policy_fields :: "field_path list \<Rightarrow> scheduler \<Rightarrow> bool" where
  "has_unobserved_policy_fields observed st \<longleftrightarrow>
     list_ex (\<lambda>(p, pol). p \<notin> set observed \<and> \<not> cadence_owned (sc_profile st) p pol)
       (pr_field_policies (sc_profile st))"

section \<open>The startup gate\<close>

definition record_startup_defect :: "nat \<Rightarrow> scheduler \<Rightarrow> scheduler" where
  "record_startup_defect defect st =
     (case sc_startup_defect st of Some _ \<Rightarrow> st | None \<Rightarrow> st\<lparr>sc_startup_defect := Some defect\<rparr>)"

definition consecutive_request_timeouts :: "field_path \<Rightarrow> scheduler \<Rightarrow> int" where
  "consecutive_request_timeouts p st =
     (case map snd (filter (\<lambda>(key, _). rk_scope key = fp_scope p \<and> rk_family key = fp_family p \<and>
         rk_receiver_id key = fp_receiver_id p \<and> rk_slot key = fp_slot p) (sc_timeouts st)) of
        [] \<Rightarrow> 0 | n # ns \<Rightarrow> fold max ns n)"

definition declared_paths :: "scheduler \<Rightarrow> field_path list" where
  "declared_paths st =
     remdups (pollable_paths (sc_profile st) @ map fst (pr_field_policies (sc_profile st)))"

definition unobserved_startup_paths :: "field_path list \<Rightarrow> (field_path \<times> bool option) list \<Rightarrow> scheduler
    \<Rightarrow> field_path list" where
  "unobserved_startup_paths observed availability st =
     sort_key path_str (filter (\<lambda>p. p \<notin> set observed \<and>
         fk_startup_required (capability_for (sc_profile st) p) \<and>
         \<not> ap_tx_only (policy_for (sc_profile st) p None) \<and> \<not> contradicted availability p \<and>
         (map_of (sc_refused st) p = None \<or> startup_critical_path p)) (declared_paths st))"

definition initial_acquisition_complete :: "field_path list \<Rightarrow> scheduler \<Rightarrow> bool" where
  "initial_acquisition_complete observed st \<longleftrightarrow> unobserved_startup_paths observed [] st = []"

section \<open>Results\<close>

text \<open>The request table after the paths of an answered or failed request are done.\<close>

definition settle_paths :: "acquisition_key \<Rightarrow> acquisition_request \<Rightarrow> field_path list \<Rightarrow> scheduler \<Rightarrow> scheduler" where
  "settle_paths key existing done st =
     (let remaining = filter (\<lambda>p. p \<notin> set done) (aq_paths existing)
      in if remaining = [] then drop_request key (aq_id existing) st
         else st\<lparr>sc_requests := AList.update key (replace_request_paths existing remaining) (sc_requests st)\<rparr>)"

definition next_cadence :: "acquisition_policy \<Rightarrow> rat \<Rightarrow> rat \<Rightarrow> bool \<Rightarrow> rat" where
  "next_cadence pol base previous semantic_changed =
     (if semantic_changed \<or> \<not> ad_enabled (ap_decay pol) then base
      else
        let widened = previous * ad_idle_multiplier (ap_decay pol);
            bounded = (case adaptive_cadence_limit pol of None \<Rightarrow> widened | Some limit \<Rightarrow> min widened limit)
        in max base bounded)"

definition record_acquisition_result :: "acquisition_request \<Rightarrow> change_set \<Rightarrow> scheduler \<Rightarrow> scheduler result" where
  "record_acquisition_result r cs st =
     bind_result (key_of_request r) (\<lambda>key.
       let matched = (case map_of (sc_requests st) key of
             Some existing \<Rightarrow> aq_id existing = aq_id r | None \<Rightarrow> False);
           remaining = (case map_of (sc_requests st) key of
             Some existing \<Rightarrow> filter (\<lambda>p. p \<notin> set (aq_paths r)) (aq_paths existing) | None \<Rightarrow> []);
           st1 = (case map_of (sc_requests st) key of
             Some existing \<Rightarrow> if matched then settle_paths key existing (aq_paths r) st else st
           | None \<Rightarrow> st);
           st2 = st1\<lparr>sc_timeouts := AList.delete key (sc_timeouts st1)\<rparr>
       in case ap_cadence (aq_policy r) of
            None \<Rightarrow>
              Inr (if matched \<and> remaining = []
                   then st2\<lparr>sc_pending_cadence := AList.delete key (sc_pending_cadence st2)\<rparr> else st2)
          | Some declared \<Rightarrow>
              let base = fitted_cadence key declared st2;
                  changed_now = list_ex (\<lambda>c. fc_path c \<in> set (aq_paths r)) (cs_changes cs);
                  pending = (case map_of (sc_pending_cadence st2) key of
                    Some u \<Rightarrow> if pu_request_id u = aq_id r then Some u else None | None \<Rightarrow> None);
                  changed = (case pending of None \<Rightarrow> changed_now | Some u \<Rightarrow> changed_now \<or> pu_semantic_changed u);
                  completed = (case pending of None \<Rightarrow> aq_paths r | Some u \<Rightarrow> aq_paths r @ pu_completed_paths u)
              in if matched \<and> remaining \<noteq> []
                 then Inr (st2\<lparr>sc_pending_cadence := AList.update key
                        \<lparr>pu_request_id = aq_id r, pu_semantic_changed = changed, pu_completed_paths = completed\<rparr>
                        (sc_pending_cadence st2)\<rparr>)
                 else
                   let st3 = (if pending = None then st2
                         else st2\<lparr>sc_pending_cadence := AList.delete key (sc_pending_cadence st2)\<rparr>);
                       (groups, st4) = poll_cadence_groups st3;
                       poll_paths = (case map_of groups key of None \<Rightarrow> [] | Some ps \<Rightarrow> ps)
                   in if list_ex (\<lambda>p. map_of (sc_refused st4) p = None \<and> p \<notin> set completed) poll_paths then Inr st4
                      else
                        let now = cs_timestamp_monotonic cs;
                            (previous, st5) = cadence_state_for key declared now st4;
                            current = next_cadence (aq_policy r) base (cd_current previous) changed
                        in Inr (st5\<lparr>sc_cadence := AList.update key
                              \<lparr>cd_current = current, cd_next_due = now + current\<rparr> (sc_cadence st5)\<rparr>))"

definition count_failure :: "string \<Rightarrow> scheduler \<Rightarrow> scheduler" where
  "count_failure reason st =
     st\<lparr>sc_failed_count := sc_failed_count st + 1,
        sc_failures_by_reason := AList.update reason
          ((case map_of (sc_failures_by_reason st) reason of None \<Rightarrow> 0 | Some n \<Rightarrow> n) + 1) (sc_failures_by_reason st)\<rparr>"

definition record_acquisition_failure :: "acquisition_request \<Rightarrow> string \<Rightarrow> field_path list option \<Rightarrow> time \<Rightarrow> bool
    \<Rightarrow> scheduler \<Rightarrow> scheduler result" where
  "record_acquisition_failure r reason failed_paths now link_healthy st =
     (let failure_reason = (if reason = [] then ''acquisition_failed'' else reason);
          failed = (case failed_paths of None \<Rightarrow> aq_paths r | Some ps \<Rightarrow> filter (\<lambda>p. p \<in> set (aq_paths r)) ps)
      in if failure_reason = TIMEOUT_REASON \<and> link_healthy then Inr st
         else if failed = [] then Inr st
         else
           let st1 = count_failure failure_reason st
           in bind_result (key_of_request r) (\<lambda>key.
             let st2 = (case map_of (sc_requests st1) key of
                   Some existing \<Rightarrow>
                     if aq_id existing \<noteq> aq_id r then st1
                     else
                       let st' = settle_paths key existing failed st1
                       in if filter (\<lambda>p. p \<notin> set failed) (aq_paths existing) = []
                          then st'\<lparr>sc_pending_cadence := AList.delete key (sc_pending_cadence st')\<rparr> else st'
                 | None \<Rightarrow> st1)
             in case ap_cadence (aq_policy r) of
                  None \<Rightarrow> Inr st2
                | Some declared \<Rightarrow>
                    let (previous, st3) = cadence_state_for key declared now st2;
                        consecutive = (if failure_reason = TIMEOUT_REASON
                          then (case map_of (sc_timeouts st3) key of None \<Rightarrow> 0 | Some n \<Rightarrow> n) + 1 else 0);
                        st4 = st3\<lparr>sc_timeouts := (if failure_reason = TIMEOUT_REASON
                          then AList.update key consecutive (sc_timeouts st3)
                          else AList.delete key (sc_timeouts st3))\<rparr>;
                        next_due = (if consecutive = 1 then max (cd_next_due previous) now
                          else now + cd_current previous)
                    in Inr (st4\<lparr>sc_cadence := AList.update key
                          \<lparr>cd_current = cd_current previous, cd_next_due = next_due\<rparr> (sc_cadence st4)\<rparr>)))"

text \<open>A refused read: the paths wait, and every request that had asked for them completes as refused.\<close>

definition note_refusals :: "field_path list \<Rightarrow> time \<Rightarrow> scheduler \<Rightarrow> scheduler" where
  "note_refusals paths now st = foldl (\<lambda>st p.
     st\<lparr>sc_refused := AList.update p
       \<lparr>rf_count = consecutive_refusals p st + 1, rf_retry_at = now + refusal_retry_seconds p st\<rparr>
       (sc_refused st)\<rparr>) st (remdups paths)"

fun refuse_requests :: "field_path list \<Rightarrow> time \<Rightarrow> acquisition_request list \<Rightarrow> scheduler \<Rightarrow> scheduler result" where
  "refuse_requests refused now [] st = Inr st"
| "refuse_requests refused now (r # rs) st =
     (let matched = filter (\<lambda>p. p \<in> set refused) (aq_paths r)
      in if matched = [] \<or> \<not> may_credit (r\<lparr>aq_paths := matched\<rparr>) now st
         then refuse_requests refused now rs st
         else bind_result (record_acquisition_failure (r\<lparr>aq_paths := matched\<rparr>) REFUSED_REASON (Some matched) now False st)
           (refuse_requests refused now rs))"

definition record_read_refusal :: "field_path list \<Rightarrow> time \<Rightarrow> scheduler \<Rightarrow> scheduler result" where
  "record_read_refusal paths now st =
     (if paths = [] then Inr st
      else let st1 = note_refusals paths now st in refuse_requests paths now (pending_requests st1) st1)"

section \<open>External CAT ownership\<close>

fun pause_loop :: "string option \<Rightarrow> (acquisition_key \<times> acquisition_request) list \<Rightarrow> scheduler \<Rightarrow> scheduler" where
  "pause_loop owner [] st = st"
| "pause_loop owner ((key, r) # rs) st =
     (if \<not> must_defer_for_external_cat (aq_paths r) st then pause_loop owner rs st
      else pause_loop owner rs (defer_item key
        \<lparr>pe_paths = aq_paths r, pe_max_age = aq_max_age r, pe_priority = aq_priority r, pe_reason = aq_reason r,
         pe_reasons = aq_reasons r, pe_timeout = aq_timeout r, pe_requested_at = aq_requested_at r,
         pe_deadline = aq_deadline r, pe_external_cat_owner = owner\<rparr>
        (drop_request key (aq_id r) st)))"

definition pause_external_cat :: "string option \<Rightarrow> string \<Rightarrow> scheduler \<Rightarrow> scheduler" where
  "pause_external_cat owner reason st =
     pause_loop owner (sc_requests st)
       (st\<lparr>sc_cat_paused := True, sc_cat_owner := owner, sc_cat_reason := reason\<rparr>)"

definition deferred_order :: "pending_ensure_fresh \<Rightarrow> int \<times> time \<times> string" where
  "deferred_order item = (- priority_rank (pe_priority item), pe_requested_at item,
     concat (case map path_str (pe_paths item) of [] \<Rightarrow> [] | p # ps \<Rightarrow> p # map (\<lambda>q. CHR '','' # q) ps))"

fun resume_loop :: "string option \<Rightarrow> pending_ensure_fresh list \<Rightarrow> scheduler
    \<Rightarrow> (acquisition_request list \<times> scheduler) result" where
  "resume_loop owner [] st = Inr ([], st)"
| "resume_loop owner (item # items) st =
     bind_result (queue_paths (pe_paths item)
       \<lparr>qa_max_age = pe_max_age item, qa_priority = pe_priority item, qa_reason = pe_reason item,
        qa_reasons = pe_reasons item, qa_timeout = pe_timeout item, qa_requested_at = pe_requested_at item,
        qa_external_cat_owner = (case pe_external_cat_owner item of Some (c # cs) \<Rightarrow> Some (c # cs) | _ \<Rightarrow> owner),
        qa_deadline = pe_deadline item, qa_require_fresh_dispatch = False\<rparr> st) (\<lambda>(rs, st1).
     bind_result (resume_loop owner items st1) (\<lambda>(rs', st2). Inr (rs @ rs', st2)))"

definition resume_external_cat :: "scheduler \<Rightarrow> (acquisition_request list \<times> scheduler) result" where
  "resume_external_cat st =
     resume_loop (sc_cat_owner st) (sort_key deferred_order (map snd (sc_deferred st)))
       (st\<lparr>sc_cat_paused := False, sc_cat_owner := None, sc_cat_reason := '''', sc_deferred := []\<rparr>)"

end
