(* ===== verification/SchedulerRuns.thy ===== *)
theory SchedulerRuns
  imports Scheduler
begin

text \<open>
  What the acquisition scheduler promises: its tables stay consistent, a read that was asked for is not lost,
  claims are exclusive, polling keeps its cadence, priming is fair.
\<close>

declare map_of_eq_Some_iff [simp del] Some_eq_map_of_iff [simp del]

section \<open>The invariant\<close>

definition can_ask :: "acquisition_profile \<Rightarrow> field_path \<Rightarrow> bool" where
  "can_ask pr p \<longleftrightarrow> has_acquisition_hook (capability_for pr p)"

text \<open>The paths belong under the key.\<close>

definition fits_key :: "acquisition_profile \<Rightarrow> acquisition_key \<Rightarrow> field_path list \<Rightarrow> bool" where
  "fits_key pr key paths \<longleftrightarrow> paths \<noteq> [] \<and>
     (\<forall>p \<in> set paths. request_key_of p (rk_method key) (rk_policy key) = key \<and> can_ask pr p)"

definition request_ok :: "acquisition_profile \<Rightarrow> nat \<Rightarrow> acquisition_key \<Rightarrow> acquisition_request \<Rightarrow> bool" where
  "request_ok pr n key r \<longleftrightarrow> fits_key pr key (aq_paths r) \<and> aq_method r = rk_method key \<and>
     aq_policy r = rk_policy key \<and> aq_id r < n"

definition item_ok :: "acquisition_profile \<Rightarrow> pending_ensure_fresh \<Rightarrow> bool" where
  "item_ok pr item \<longleftrightarrow> pe_paths item \<noteq> [] \<and> (\<forall>p \<in> set (pe_paths item). can_ask pr p)"

definition sched_ok :: "scheduler \<Rightarrow> bool" where
  "sched_ok st \<longleftrightarrow>
     (\<forall>key r. map_of (sc_requests st) key = Some r \<longrightarrow> request_ok (sc_profile st) (sc_next_id st) key r) \<and>
     (\<forall>key key' r r'. map_of (sc_requests st) key = Some r \<longrightarrow> map_of (sc_requests st) key' = Some r' \<longrightarrow>
        aq_id r = aq_id r' \<longrightarrow> key = key') \<and>
     (\<forall>i c. map_of (sc_claims st) i = Some c \<longrightarrow> (\<exists>key r. map_of (sc_requests st) key = Some r \<and> aq_id r = i)) \<and>
     (\<forall>key item. map_of (sc_deferred st) key = Some item \<longrightarrow> item_ok (sc_profile st) item) \<and>
     distinct (map fst (sc_requests st)) \<and> distinct (map fst (sc_deferred st))"

lemma ok_request: "sched_ok st \<Longrightarrow> map_of (sc_requests st) key = Some r \<Longrightarrow>
    request_ok (sc_profile st) (sc_next_id st) key r"
  unfolding sched_ok_def by blast

lemma ok_ids: "sched_ok st \<Longrightarrow> map_of (sc_requests st) key = Some r \<Longrightarrow> map_of (sc_requests st) key' = Some r' \<Longrightarrow>
    aq_id r = aq_id r' \<Longrightarrow> key = key'"
  unfolding sched_ok_def by blast

lemma ok_claim: "sched_ok st \<Longrightarrow> map_of (sc_claims st) i = Some c \<Longrightarrow>
    \<exists>key r. map_of (sc_requests st) key = Some r \<and> aq_id r = i"
  unfolding sched_ok_def by blast

lemma ok_item: "sched_ok st \<Longrightarrow> map_of (sc_deferred st) key = Some item \<Longrightarrow> item_ok (sc_profile st) item"
  unfolding sched_ok_def by blast

definition pending_path :: "scheduler \<Rightarrow> field_path \<Rightarrow> bool" where
  "pending_path st p \<longleftrightarrow> (\<exists>key r. map_of (sc_requests st) key = Some r \<and> p \<in> set (aq_paths r))"

definition deferred_path :: "scheduler \<Rightarrow> field_path \<Rightarrow> bool" where
  "deferred_path st p \<longleftrightarrow> (\<exists>key item. map_of (sc_deferred st) key = Some item \<and> p \<in> set (pe_paths item))"

definition wanted :: "scheduler \<Rightarrow> field_path \<Rightarrow> bool" where
  "wanted st p \<longleftrightarrow> pending_path st p \<or> deferred_path st p"

text \<open>A step that leaves the tables alone.\<close>

definition same_tables :: "scheduler \<Rightarrow> scheduler \<Rightarrow> bool" where
  "same_tables st st' \<longleftrightarrow> sc_profile st' = sc_profile st \<and> sc_requests st' = sc_requests st \<and>
     sc_deferred st' = sc_deferred st \<and> sc_claims st' = sc_claims st \<and> sc_next_id st' = sc_next_id st"

lemma same_tables_refl [simp]: "same_tables st st"
  by (simp add: same_tables_def)

lemma same_tables_trans: "same_tables st st' \<Longrightarrow> same_tables st' st'' \<Longrightarrow> same_tables st st''"
  by (simp add: same_tables_def)

text \<open>What a step does to the reads asked for: it keeps the invariant and all of them, but for some.\<close>

definition keeps :: "field_path set \<Rightarrow> scheduler \<Rightarrow> scheduler \<Rightarrow> bool" where
  "keeps but st st' \<longleftrightarrow> sc_profile st' = sc_profile st \<and> sc_next_id st \<le> sc_next_id st' \<and>
     (sched_ok st \<longrightarrow> sched_ok st' \<and> (\<forall>p. wanted st p \<longrightarrow> p \<notin> but \<longrightarrow> wanted st' p))"

lemma keeps_same: "same_tables st st' \<Longrightarrow> keeps but st st'"
  by (simp add: keeps_def same_tables_def sched_ok_def wanted_def pending_path_def deferred_path_def)

lemma keeps_refl [simp]: "keeps but st st"
  by (rule keeps_same) simp

lemma keeps_trans: "keeps but st st' \<Longrightarrow> keeps but st' st'' \<Longrightarrow> keeps but st st''"
  unfolding keeps_def by auto

lemma keeps_mono: "keeps but st st' \<Longrightarrow> but \<subseteq> but' \<Longrightarrow> keeps but' st st'"
  unfolding keeps_def by blast

section \<open>The table operations\<close>

lemma set_merge_paths [simp]: "set (merge_paths xs ys) = set xs \<union> set ys"
  by (simp add: merge_paths_def)

lemma merge_paths_Nil [simp]: "merge_paths xs ys = [] \<longleftrightarrow> xs = [] \<and> ys = []"
  by (metis set_merge_paths set_empty Un_empty)

lemma update_map: "map_of (AList.update k v al) = (map_of al)(k \<mapsto> v)"
  by (simp add: update_conv' fun_eq_iff)

lemma delete_map: "map_of (AList.delete k al) = (map_of al)(k := None)"
  by (simp add: delete_conv' fun_eq_iff)

lemma request_ok_mono: "request_ok pr n key r \<Longrightarrow> n \<le> n' \<Longrightarrow> request_ok pr n' key r"
  by (simp add: request_ok_def)

lemma coalesce_ok:
  "request_ok pr n key r \<Longrightarrow> fits_key pr key paths \<Longrightarrow> request_ok pr n key (coalesce r paths qa) \<and>
   aq_id (coalesce r paths qa) = aq_id r \<and> set (aq_paths (coalesce r paths qa)) = set (aq_paths r) \<union> set paths"
  by (auto simp: request_ok_def fits_key_def coalesce_def Let_def)

text \<open>Putting a request under its key: one with the id it had, or a new one.\<close>

lemma put_request_keeps:
  assumes ok: "sched_ok st" and r: "request_ok (sc_profile st) n key r" and n: "sc_next_id st \<le> n"
    and st': "sc_profile st' = sc_profile st" "sc_next_id st' = n" "sc_deferred st' = sc_deferred st"
      "sc_requests st' = AList.update key r (sc_requests st)"
    and old: "\<And>r0. map_of (sc_requests st) key = Some r0 \<Longrightarrow> set (aq_paths r0) \<subseteq> set (aq_paths r)"
    and ids: "aq_id r < sc_next_id st \<Longrightarrow> \<exists>r0. map_of (sc_requests st) key = Some r0 \<and> aq_id r0 = aq_id r"
    and claims: "\<And>i. map_of (sc_claims st') i \<noteq> None \<Longrightarrow> map_of (sc_claims st) i \<noteq> None \<and>
      (\<forall>r0. map_of (sc_requests st) key = Some r0 \<longrightarrow> aq_id r0 = i \<longrightarrow> aq_id r = i)"
  shows "keeps {} st st' \<and> (\<forall>p. pending_path st p \<or> p \<in> set (aq_paths r) \<longrightarrow> pending_path st' p)"
proof -
  have lk: "map_of (sc_requests st') = (map_of (sc_requests st))(key \<mapsto> r)"
    unfolding st'(4) by (rule update_map)
  have fresh: "aq_id r \<noteq> aq_id r'" if "map_of (sc_requests st) key' = Some r'" "key' \<noteq> key" for key' r'
  proof (cases "aq_id r < sc_next_id st")
    case True
    then obtain r0 where "map_of (sc_requests st) key = Some r0" "aq_id r0 = aq_id r" using ids by blast
    moreover have "aq_id r0 = aq_id r' \<longrightarrow> key = key'"
      using ok_ids [OF ok calculation(1) that(1)] by blast
    ultimately show ?thesis using that(2) by simp
  next
    case False
    then show ?thesis using ok_request [OF ok that(1)] unfolding request_ok_def by linarith
  qed
  have "request_ok (sc_profile st') n key' r'" if "map_of (sc_requests st') key' = Some r'" for key' r'
  proof (cases "key' = key")
    case True
    then show ?thesis using that r unfolding lk st'(1) by simp
  next
    case False
    then have "request_ok (sc_profile st) (sc_next_id st) key' r'" using that ok unfolding lk sched_ok_def by simp
    then show ?thesis using request_ok_mono n st'(1) by simp
  qed
  moreover have "\<forall>k k' q q'. map_of (sc_requests st') k = Some q \<longrightarrow> map_of (sc_requests st') k' = Some q' \<longrightarrow>
      aq_id q = aq_id q' \<longrightarrow> k = k'"
  proof (intro allI impI)
    fix k k' q q'
    assume a: "map_of (sc_requests st') k = Some q" "map_of (sc_requests st') k' = Some q'" "aq_id q = aq_id q'"
    show "k = k'"
    proof (cases "k = key"; cases "k' = key")
      assume "k \<noteq> key" "k' \<noteq> key"
      then show ?thesis using a ok unfolding lk sched_ok_def by simp
    qed (use a fresh [of k q] fresh [of k' q'] in \<open>auto simp: lk\<close>)
  qed
  moreover have "\<exists>k q. map_of (sc_requests st') k = Some q \<and> aq_id q = i"
    if "map_of (sc_claims st') i = Some c" for i c
  proof -
    have "map_of (sc_claims st) i \<noteq> None" using claims [of i] that by simp
    then obtain c' where "map_of (sc_claims st) i = Some c'" by blast
    then obtain k q where k: "map_of (sc_requests st) k = Some q" "aq_id q = i"
      using ok_claim [OF ok] by blast
    show ?thesis
    proof (cases "k = key")
      case True
      then have "aq_id r = i" using claims [of i] that k by auto
      then show ?thesis unfolding lk by (intro exI [of _ key] exI [of _ r]) simp
    next
      case False
      then show ?thesis unfolding lk using k by (intro exI [of _ k] exI [of _ q]) simp
    qed
  qed
  moreover have "distinct (map fst (sc_requests st'))"
    using ok unfolding st'(4) sched_ok_def by (simp add: distinct_update)
  ultimately have ok': "sched_ok st'"
    unfolding sched_ok_def using ok st' by (simp add: sched_ok_def)
  have mono: "pending_path st' p" if p: "pending_path st p" for p
  proof -
    obtain k q where k: "map_of (sc_requests st) k = Some q" "p \<in> set (aq_paths q)"
      using p unfolding pending_path_def by blast
    show ?thesis
    proof (cases "k = key")
      case True
      then have "p \<in> set (aq_paths r)" using old k by blast
      then show ?thesis unfolding pending_path_def lk by (intro exI [of _ key] exI [of _ r]) simp
    next
      case False
      then show ?thesis unfolding pending_path_def lk using k by (intro exI [of _ k] exI [of _ q]) simp
    qed
  qed
  have "wanted st' p" if "wanted st p" for p
    using that mono st'(3) by (auto simp: wanted_def deferred_path_def)
  moreover have "pending_path st' p" if "p \<in> set (aq_paths r)" for p
    unfolding pending_path_def lk using that by (intro exI [of _ key] exI [of _ r]) simp
  ultimately show ?thesis using ok' st' n mono by (auto simp: keeps_def)
qed

lemma queue_group_keeps:
  assumes ok: "sched_ok st" and fits: "fits_key (sc_profile st) key paths"
    and q: "queue_group key paths qa st = (r, st')"
  shows "keeps {} st st' \<and> (\<forall>p. pending_path st p \<or> p \<in> set paths \<longrightarrow> pending_path st' p) \<and> sc_deferred st' = sc_deferred st \<and>
    map_of (sc_requests st') key = Some r \<and> set paths \<subseteq> set (aq_paths r)"
proof (cases "map_of (sc_requests st) key")
  case None
  let ?r = "fst (new_request paths key qa st)"
  have r: "r = ?r" and st': "st' = st\<lparr>sc_next_id := sc_next_id st + 1, sc_requests := AList.update key ?r (sc_requests st)\<rparr>"
    using q None by (auto simp: queue_group_def new_request_def Let_def)
  have ro: "request_ok (sc_profile st) (sc_next_id st + 1) key ?r"
    using fits by (simp add: request_ok_def new_request_def)
  have id: "aq_id ?r = sc_next_id st" by (simp add: new_request_def)
  have "keeps {} st st' \<and> (\<forall>p. pending_path st p \<or> p \<in> set (aq_paths ?r) \<longrightarrow> pending_path st' p)"
    by (rule put_request_keeps [OF ok ro]) (use None id in \<open>simp_all add: st'\<close>)
  then show ?thesis by (simp add: st' r update_map) (simp add: new_request_def)
next
  case (Some r0)
  let ?m = "coalesce r0 paths qa"
  have ro0: "request_ok (sc_profile st) (sc_next_id st) key r0" using ok Some by (simp add: sched_ok_def)
  note m = coalesce_ok [OF ro0 fits, of qa]
  show ?thesis
  proof (cases "qa_require_fresh_dispatch qa \<and> (dispatch_covers (aq_id r0) paths st \<or> in_execute (aq_id r0) st)")
    case False
    have r: "r = ?m" and st': "st' = st\<lparr>sc_requests := AList.update key ?m (sc_requests st)\<rparr>"
      using q Some False by (auto simp: queue_group_def Let_def)
    have "keeps {} st st' \<and> (\<forall>p. pending_path st p \<or> p \<in> set (aq_paths ?m) \<longrightarrow> pending_path st' p)"
      by (rule put_request_keeps [OF ok conjunct1 [OF m]]) (use Some m in \<open>simp_all add: st'\<close>)
    then show ?thesis using m by (auto simp: st' r update_map)
  next
    case True
    obtain r1 st1 where re: "reissue ?m key (aq_id r0) st = (r1, st1)" by fastforce
    have q': "r = r1" "st' = st1\<lparr>sc_requests := AList.update key r1 (sc_requests st1)\<rparr>"
      using q Some True re by (auto simp: queue_group_def Let_def)
    have r1: "r1 = ?m\<lparr>aq_id := sc_next_id st\<rparr>" and st1: "sc_profile st1 = sc_profile st"
      "sc_next_id st1 = sc_next_id st + 1" "sc_deferred st1 = sc_deferred st" "sc_requests st1 = sc_requests st"
      "sc_claims st1 = AList.delete (aq_id r0) (sc_claims st)"
      using re by (auto simp: reissue_def forget_dispatch_def Let_def split: option.splits if_splits)
    have ro: "request_ok (sc_profile st) (sc_next_id st + 1) key r1"
      using m by (simp add: r1 request_ok_def)
    have id: "aq_id r1 = sc_next_id st" by (simp add: r1)
    have paths: "set (aq_paths r1) = set (aq_paths r0) \<union> set paths" using m by (simp add: r1)
    have "keeps {} st st' \<and> (\<forall>p. pending_path st p \<or> p \<in> set (aq_paths r1) \<longrightarrow> pending_path st' p)"
    proof (rule put_request_keeps [OF ok ro])
      fix i
      assume "map_of (sc_claims st') i \<noteq> None"
      then have "map_of (sc_claims st) i \<noteq> None" "i \<noteq> aq_id r0"
        by (auto simp: q' st1 delete_map split: if_splits)
      then show "map_of (sc_claims st) i \<noteq> None \<and>
          (\<forall>r0'. map_of (sc_requests st) key = Some r0' \<longrightarrow> aq_id r0' = i \<longrightarrow> aq_id r1 = i)"
        using Some by simp
    qed (use Some id paths in \<open>simp_all add: q' st1\<close>)
    then show ?thesis using paths by (auto simp: q' st1 update_map)
  qed
qed


lemma queue_grouped_keeps:
  "sched_ok st \<Longrightarrow> \<forall>(key, paths) \<in> set groups. fits_key (sc_profile st) key paths \<Longrightarrow>
   queue_grouped groups qa st = (rs, st') \<Longrightarrow>
   keeps {} st st' \<and> (\<forall>p. pending_path st p \<or> (\<exists>(key, paths) \<in> set groups. p \<in> set paths) \<longrightarrow> pending_path st' p) \<and>
   sc_deferred st' = sc_deferred st \<and> length rs = length groups"
proof (induction groups arbitrary: st rs st')
  case (Cons g groups)
  obtain key paths where g: "g = (key, paths)" by (cases g)
  obtain r st1 where q: "queue_group key paths qa st = (r, st1)" by fastforce
  obtain rs' st2 where qs: "queue_grouped groups qa st1 = (rs', st2)" by fastforce
  have eq: "rs = r # rs'" "st' = st2" using Cons.prems(3) by (simp_all add: g q qs)
  have fits: "fits_key (sc_profile st) key paths" using Cons.prems(2) g by simp
  note one = queue_group_keeps [OF Cons.prems(1) fits q]
  have ok1: "sched_ok st1" "sc_profile st1 = sc_profile st" using one Cons.prems(1) by (simp_all add: keeps_def)
  have "\<forall>(key, paths) \<in> set groups. fits_key (sc_profile st1) key paths" using Cons.prems(2) ok1(2) by simp
  note rest = Cons.IH [OF ok1(1) this qs]
  have same: "sc_deferred st2 = sc_deferred st" "keeps {} st st2"
    using one rest keeps_trans [of "{}" st st1 st2] by simp_all
  then show ?case using one rest by (auto simp: g eq)
qed simp


lemma defer_item_keeps:
  assumes item: "item_ok (sc_profile st) item"
  shows "keeps {} st (defer_item key item st)" "\<forall>p \<in> set (pe_paths item). deferred_path (defer_item key item st) p"
    "sc_requests (defer_item key item st) = sc_requests st"
    "\<forall>p. deferred_path st p \<longrightarrow> deferred_path (defer_item key item st) p"
proof -
  let ?st = "defer_item key item st"
  define m where "m = (case map_of (sc_deferred st) key of None \<Rightarrow> item | Some existing \<Rightarrow> merge_items existing item)"
  have m: "sc_deferred ?st = AList.update key m (sc_deferred st)" by (simp add: defer_item_def m_def)
  have paths: "set (pe_paths m) = set (pe_paths item) \<union>
      (case map_of (sc_deferred st) key of None \<Rightarrow> {} | Some e \<Rightarrow> set (pe_paths e))"
    by (cases "map_of (sc_deferred st) key") (auto simp: m_def merge_items_def)
  have lk: "map_of (sc_deferred ?st) = (map_of (sc_deferred st))(key \<mapsto> m)"
    unfolding m by (rule update_map)
  have rest: "sc_profile ?st = sc_profile st" "sc_requests ?st = sc_requests st" "sc_claims ?st = sc_claims st"
    "sc_next_id ?st = sc_next_id st"
    by (simp_all add: defer_item_def)
  show "sc_requests ?st = sc_requests st" by (rule rest(2))
  have mono: "deferred_path ?st p" if p: "deferred_path st p" for p
  proof -
    obtain k e where k: "map_of (sc_deferred st) k = Some e" "p \<in> set (pe_paths e)"
      using p unfolding deferred_path_def by blast
    show ?thesis
    proof (cases "k = key")
      case True
      then show ?thesis unfolding deferred_path_def lk using k paths by (intro exI [of _ key] exI [of _ m]) simp
    next
      case False
      then show ?thesis unfolding deferred_path_def lk using k by (intro exI [of _ k] exI [of _ e]) simp
    qed
  qed
  then show "\<forall>p. deferred_path st p \<longrightarrow> deferred_path ?st p" by blast
  show "\<forall>p \<in> set (pe_paths item). deferred_path ?st p"
    unfolding deferred_path_def lk using paths by (intro ballI exI [of _ key] exI [of _ m]) simp
  have "sched_ok ?st" if ok: "sched_ok st"
  proof -
    have mi: "item_ok (sc_profile st) m"
    proof (cases "map_of (sc_deferred st) key")
      case None
      then show ?thesis using item paths by (auto simp: item_ok_def)
    next
      case (Some e)
      then show ?thesis using item paths ok_item [OF ok Some] by (auto simp: item_ok_def)
    qed
    have "item_ok (sc_profile st) e" if "map_of (sc_deferred ?st) k = Some e" for k e
      using that mi ok_item [OF ok, of k e] unfolding lk by (simp split: if_splits)
    moreover have "distinct (map fst (sc_deferred ?st))"
      using ok unfolding m by (simp add: sched_ok_def distinct_update)
    ultimately show ?thesis using ok unfolding sched_ok_def rest by blast
  qed
  then show "keeps {} st ?st"
    using mono rest by (auto simp: keeps_def wanted_def pending_path_def)
qed

text \<open>A request leaving the table: the reads of its paths are no longer pending.\<close>

lemma drop_request_keeps:
  assumes r: "map_of (sc_requests st) key = Some r"
  shows "keeps (set (aq_paths r)) st (drop_request key (aq_id r) st)"
    "sc_deferred (drop_request key (aq_id r) st) = sc_deferred st"
    "map_of (sc_requests (drop_request key (aq_id r) st)) = (map_of (sc_requests st))(key := None)"
proof -
  let ?st = "drop_request key (aq_id r) st"
  have st': "sc_requests ?st = AList.delete key (sc_requests st)"
    "sc_claims ?st = AList.delete (aq_id r) (sc_claims st)" "sc_profile ?st = sc_profile st"
    "sc_next_id ?st = sc_next_id st" "sc_deferred ?st = sc_deferred st"
    by (simp_all add: drop_request_def forget_dispatch_def)
  show "sc_deferred ?st = sc_deferred st" by (rule st'(5))
  show lk: "map_of (sc_requests ?st) = (map_of (sc_requests st))(key := None)"
    unfolding st'(1) by (rule delete_map)
  have "sched_ok ?st" if ok: "sched_ok st"
  proof -
    have "request_ok (sc_profile st) (sc_next_id st) k q" if "map_of (sc_requests ?st) k = Some q" for k q
      using that ok_request [OF ok, of k q] unfolding lk by (simp split: if_splits)
    moreover have "k = k'" if "map_of (sc_requests ?st) k = Some q" "map_of (sc_requests ?st) k' = Some q'"
        "aq_id q = aq_id q'" for k k' q q'
      using that ok_ids [OF ok, of k q k' q'] unfolding lk by (simp split: if_splits)
    moreover have "\<exists>k q. map_of (sc_requests ?st) k = Some q \<and> aq_id q = i"
      if c: "map_of (sc_claims ?st) i = Some c" for i c
    proof -
      have i: "map_of (sc_claims st) i = Some c" "i \<noteq> aq_id r"
        using c by (auto simp: st' delete_map split: if_splits)
      obtain k q where "map_of (sc_requests st) k = Some q" "aq_id q = i" using ok_claim [OF ok i(1)] by blast
      moreover from this have "k \<noteq> key" using r i(2) by auto
      ultimately show ?thesis unfolding lk by (intro exI [of _ k] exI [of _ q]) simp
    qed
    moreover have "distinct (map fst (sc_requests ?st))"
      using ok unfolding st'(1) by (simp add: sched_ok_def distinct_delete)
    ultimately show ?thesis using ok unfolding sched_ok_def st'(3,4,5) by blast
  qed
  moreover have "wanted ?st p" if w: "wanted st p" "p \<notin> set (aq_paths r)" for p
  proof (cases "deferred_path st p")
    case True
    then show ?thesis by (simp add: wanted_def deferred_path_def st'(5))
  next
    case False
    then obtain k q where "map_of (sc_requests st) k = Some q" "p \<in> set (aq_paths q)"
      using w unfolding wanted_def pending_path_def by blast
    moreover from this have "k \<noteq> key" using r w(2) by auto
    ultimately have "pending_path ?st p"
      unfolding pending_path_def lk by (intro exI [of _ k] exI [of _ q]) simp
    then show ?thesis by (simp add: wanted_def)
  qed
  ultimately show "keeps (set (aq_paths r)) st ?st" by (simp add: keeps_def st')
qed

lemma settle_paths_keeps:
  assumes r: "map_of (sc_requests st) key = Some r"
  shows "keeps (set ps) st (settle_paths key r ps st)" "sc_deferred (settle_paths key r ps st) = sc_deferred st"
proof -
  let ?rest = "filter (\<lambda>p. p \<notin> set ps) (aq_paths r)"
  have "keeps (set ps) st (settle_paths key r ps st) \<and> sc_deferred (settle_paths key r ps st) = sc_deferred st"
  proof (cases "?rest = []")
    case True
    then have "set (aq_paths r) \<subseteq> set ps" by (auto simp: filter_empty_conv)
    then show ?thesis using True keeps_mono [OF drop_request_keeps(1) [OF r]] drop_request_keeps(2) [OF r]
      by (simp add: settle_paths_def)
  next
    case False
    let ?r = "replace_request_paths r ?rest"
    let ?st = "st\<lparr>sc_requests := AList.update key ?r (sc_requests st)\<rparr>"
    have st': "settle_paths key r ps st = ?st" using False by (simp add: settle_paths_def)
    have lk: "map_of (sc_requests ?st) = (map_of (sc_requests st))(key \<mapsto> ?r)" by (simp add: update_map)
    have id: "aq_id ?r = aq_id r" "aq_paths ?r = ?rest" by (simp_all add: replace_request_paths_def)
    have "sched_ok ?st" if ok: "sched_ok st"
    proof -
      have rok: "request_ok (sc_profile st) (sc_next_id st) key ?r"
        using ok_request [OF ok r] False by (auto simp: request_ok_def fits_key_def replace_request_paths_def)
      have "request_ok (sc_profile st) (sc_next_id st) k q" if "map_of (sc_requests ?st) k = Some q" for k q
        using that rok ok_request [OF ok, of k q] unfolding lk by (simp split: if_splits)
      moreover have "k = k'" if a: "map_of (sc_requests ?st) k = Some q" "map_of (sc_requests ?st) k' = Some q'"
          "aq_id q = aq_id q'" for k k' q q'
      proof -
        have "\<exists>q0. map_of (sc_requests st) k = Some q0 \<and> aq_id q0 = aq_id q"
          "\<exists>q0. map_of (sc_requests st) k' = Some q0 \<and> aq_id q0 = aq_id q'"
          using a(1,2) r id(1) unfolding lk by (auto split: if_splits)
        then show ?thesis using ok_ids [OF ok] a(3) by metis
      qed
      moreover have "\<exists>k q. map_of (sc_requests ?st) k = Some q \<and> aq_id q = i"
        if c: "map_of (sc_claims st) i = Some c" for i c
      proof -
        obtain k q where k: "map_of (sc_requests st) k = Some q" "aq_id q = i" using ok_claim [OF ok c] by blast
        show ?thesis
          unfolding lk using k r id(1) by (intro exI [of _ k] exI [of _ "if k = key then ?r else q"]) auto
      qed
      moreover have "distinct (map fst (sc_requests ?st))"
        using ok by (simp add: sched_ok_def distinct_update)
      ultimately show ?thesis using ok unfolding sched_ok_def by simp
    qed
    moreover have "wanted ?st p" if w: "wanted st p" "p \<notin> set ps" for p
    proof (cases "deferred_path st p")
      case True
      then show ?thesis by (simp add: wanted_def deferred_path_def)
    next
      case False
      then obtain k q where k: "map_of (sc_requests st) k = Some q" "p \<in> set (aq_paths q)"
        using w unfolding wanted_def pending_path_def by blast
      have "pending_path ?st p"
        unfolding pending_path_def lk using k r w(2) id(2)
        by (intro exI [of _ k] exI [of _ "if k = key then ?r else q"]) auto
      then show ?thesis by (simp add: wanted_def)
    qed
    ultimately show ?thesis unfolding st' by (simp add: keeps_def)
  qed
  then show "keeps (set ps) st (settle_paths key r ps st)"
    "sc_deferred (settle_paths key r ps st) = sc_deferred st" by blast+
qed

section \<open>Groups\<close>

lemma add_to_group_map: "map_of (add_to_group key p groups) =
    (map_of groups)(key \<mapsto> (case map_of groups key of None \<Rightarrow> [] | Some ps \<Rightarrow> ps) @ [p])"
  by (simp add: add_to_group_def update_map)

definition groups_ok :: "acquisition_profile \<Rightarrow> (acquisition_key \<times> field_path list) list \<Rightarrow> bool" where
  "groups_ok pr groups \<longleftrightarrow> distinct (map fst groups) \<and>
     (\<forall>key paths. map_of groups key = Some paths \<longrightarrow> fits_key pr key paths)"

lemma groups_ok_add:
  assumes "groups_ok pr groups" and "can_ask pr p"
  shows "groups_ok pr (add_to_group (request_key_of p m pol) p groups)"
proof -
  let ?key = "request_key_of p m pol"
  have fits: "fits_key pr k ps" if "map_of (add_to_group ?key p groups) k = Some ps" for k ps
  proof (cases "k = ?key")
    case True
    have "fits_key pr ?key ((case map_of groups ?key of None \<Rightarrow> [] | Some ps \<Rightarrow> ps) @ [p])"
    proof (cases "map_of groups ?key")
      case None
      then show ?thesis using assms(2) by (simp add: fits_key_def request_key_of_def)
    next
      case (Some qs)
      then have "fits_key pr ?key qs" using assms(1) by (simp add: groups_ok_def)
      then show ?thesis using Some assms(2) by (auto simp: fits_key_def request_key_of_def)
    qed
    then show ?thesis using that True by (simp add: add_to_group_map)
  next
    case False
    then show ?thesis using that assms(1) by (simp add: add_to_group_map groups_ok_def)
  qed
  moreover have "distinct (map fst (add_to_group ?key p groups))"
    using assms(1) by (simp add: groups_ok_def add_to_group_def distinct_update)
  ultimately show ?thesis by (simp add: groups_ok_def)
qed

lemma sort_groups_map: "map_of (sort_groups groups) key = map_option (sort_key path_str) (map_of groups key)"
  by (induction groups) (auto simp: sort_groups_def)

lemma sort_groups_keys [simp]: "map fst (sort_groups groups) = map fst groups"
  by (induction groups) (auto simp: sort_groups_def)

lemma groups_ok_sort: "groups_ok pr groups \<Longrightarrow> groups_ok pr (sort_groups groups)"
proof -
  assume ok: "groups_ok pr groups"
  have "fits_key pr key ps" if ps: "map_of (sort_groups groups) key = Some ps" for key ps
  proof -
    obtain qs where "map_of groups key = Some qs" "ps = sort_key path_str qs"
      using ps by (auto simp: sort_groups_map)
    moreover have "sort_key path_str qs = [] \<longleftrightarrow> qs = []" for qs :: "field_path list"
      by (metis length_0_conv length_sort)
    ultimately show ?thesis using ok by (simp add: groups_ok_def fits_key_def)
  qed
  then show ?thesis using ok by (simp add: groups_ok_def)
qed

lemma groups_ok_all: "groups_ok pr groups \<Longrightarrow> \<forall>(key, paths) \<in> set groups. fits_key pr key paths"
  unfolding groups_ok_def by (metis (mono_tags, lifting) case_prodI2 map_of_eq_Some_iff)

lemma capability_method_total: "can_ask pr p \<Longrightarrow> \<exists>m. capability_method (capability_for pr p) pol = Inr m"
  by (cases "ap_reconciliation pol")
    (auto simp: can_ask_def has_acquisition_hook_def capability_method_def)

definition in_groups :: "(acquisition_key \<times> field_path list) list \<Rightarrow> field_path \<Rightarrow> bool" where
  "in_groups groups p \<longleftrightarrow> (\<exists>key ps. map_of groups key = Some ps \<and> p \<in> set ps)"

lemma in_groups_add: "in_groups (add_to_group key p groups) q \<longleftrightarrow> q = p \<or> in_groups groups q"
proof (cases "map_of groups key")
  case None
  then show ?thesis
    unfolding in_groups_def add_to_group_map by (auto split: if_splits) (metis None option.distinct(1))
next
  case (Some ps)
  have lk: "map_of (add_to_group key p groups) = (map_of groups)(key \<mapsto> ps @ [p])"
    by (simp add: add_to_group_map Some)
  show ?thesis
  proof
    assume "in_groups (add_to_group key p groups) q"
    then obtain k qs where "((map_of groups)(key \<mapsto> ps @ [p])) k = Some qs" "q \<in> set qs"
      unfolding in_groups_def lk by blast
    then show "q = p \<or> in_groups groups q"
      using Some by (cases "k = key") (auto simp: in_groups_def)
  next
    assume "q = p \<or> in_groups groups q"
    then show "in_groups (add_to_group key p groups) q"
    proof
      assume "q = p"
      then show ?thesis unfolding in_groups_def lk by (intro exI [of _ key] exI [of _ "ps @ [p]"]) simp
    next
      assume "in_groups groups q"
      then obtain k qs where "map_of groups k = Some qs" "q \<in> set qs" unfolding in_groups_def by blast
      then show ?thesis unfolding in_groups_def lk using Some
        by (intro exI [of _ k] exI [of _ "if k = key then ps @ [p] else qs"]) auto
    qed
  qed
qed

lemma in_groups_sort [simp]: "in_groups (sort_groups groups) p = in_groups groups p"
proof
  assume "in_groups (sort_groups groups) p"
  then obtain k ps where "map_of groups k = Some ps" "p \<in> set (sort_key path_str ps)"
    unfolding in_groups_def sort_groups_map by (auto simp: map_option_case split: option.splits)
  then show "in_groups groups p" unfolding in_groups_def by (intro exI [of _ k] exI [of _ ps]) simp
next
  assume "in_groups groups p"
  then obtain k ps where "map_of groups k = Some ps" "p \<in> set ps" unfolding in_groups_def by blast
  then show "in_groups (sort_groups groups) p"
    unfolding in_groups_def sort_groups_map by (intro exI [of _ k] exI [of _ "sort_key path_str ps"]) simp
qed

lemma in_groups_list: "distinct (map fst groups) \<Longrightarrow> in_groups groups p \<longleftrightarrow> (\<exists>(key, ps) \<in> set groups. p \<in> set ps)"
  unfolding in_groups_def by (auto simp: map_of_eq_Some_iff)

lemma group_requests_spec:
  "\<forall>p \<in> set paths. can_ask pr p \<Longrightarrow> groups_ok pr groups \<Longrightarrow>
   \<exists>groups'. group_requests pr paths groups = Inr groups' \<and> groups_ok pr groups' \<and>
     (\<forall>p. in_groups groups' p \<longleftrightarrow> p \<in> set paths \<or> in_groups groups p)"
proof (induction paths arbitrary: groups)
  case (Cons p ps)
  obtain m where m: "capability_method (capability_for pr p) (policy_for pr p None) = Inr m"
    using capability_method_total Cons.prems(1) by fastforce
  let ?g = "add_to_group (request_key_of p m (policy_for pr p None)) p groups"
  have "groups_ok pr ?g" using groups_ok_add Cons.prems by simp
  then obtain groups' where "group_requests pr ps ?g = Inr groups'" "groups_ok pr groups'"
    "\<forall>q. in_groups groups' q \<longleftrightarrow> q \<in> set ps \<or> in_groups ?g q"
    using Cons.IH [of ?g] Cons.prems(1) by auto
  then show ?case using m by (auto simp: in_groups_add)
qed simp

lemma request_groups_spec:
  assumes "\<forall>p \<in> set paths. can_ask pr p"
  shows "\<exists>groups. request_groups pr paths = Inr groups \<and> groups_ok pr groups \<and>
    (\<forall>p. in_groups groups p \<longleftrightarrow> p \<in> set paths)"
proof -
  have "groups_ok pr []" by (simp add: groups_ok_def)
  from group_requests_spec [OF assms this] obtain groups where
    "group_requests pr paths [] = Inr groups" "groups_ok pr groups"
    "\<forall>p. in_groups groups p \<longleftrightarrow> p \<in> set paths \<or> in_groups [] p" by blast
  then show ?thesis
    by (intro exI [of _ "sort_groups groups"]) (simp add: request_groups_def groups_ok_sort in_groups_def [of "[]"])
qed

lemma queue_paths_keeps:
  assumes ok: "sched_ok st" and ask: "\<forall>p \<in> set paths. can_ask (sc_profile st) p"
  shows "\<exists>rs st'. queue_paths paths qa st = Inr (rs, st') \<and> keeps {} st st' \<and> sc_deferred st' = sc_deferred st \<and>
    (\<forall>p. pending_path st p \<or> p \<in> set paths \<longrightarrow> pending_path st' p) \<and> (rs = [] \<longleftrightarrow> paths = [])"
proof -
  obtain groups where g: "request_groups (sc_profile st) paths = Inr groups" "groups_ok (sc_profile st) groups"
    "\<forall>p. in_groups groups p \<longleftrightarrow> p \<in> set paths"
    using request_groups_spec [OF ask] by blast
  obtain rs st' where q: "queue_grouped groups qa st = (rs, st')" by fastforce
  note k = queue_grouped_keeps [OF ok groups_ok_all [OF g(2)] q]
  have dist: "distinct (map fst groups)" using g(2) by (simp add: groups_ok_def)
  have "p \<in> set paths \<longleftrightarrow> (\<exists>(key, ps) \<in> set groups. p \<in> set ps)" for p
    using g(3) in_groups_list [OF dist] by simp
  moreover have "groups = [] \<longleftrightarrow> paths = []"
  proof
    assume "groups = []"
    then have "set paths = {}" using g(3) by (auto simp: in_groups_def)
    then show "paths = []" by simp
  next
    assume "paths = []"
    then have none: "\<not> in_groups groups p" for p using g(3) by simp
    show "groups = []"
    proof (cases groups)
      case (Cons x xs)
      obtain key ps where x: "x = (key, ps)" by (cases x)
      have look: "map_of groups key = Some ps" unfolding Cons x by simp
      then have "fits_key (sc_profile st) key ps" using g(2) unfolding groups_ok_def by blast
      then have "hd ps \<in> set ps" by (simp add: fits_key_def)
      then have "in_groups groups (hd ps)"
        unfolding in_groups_def using look by (intro exI [of _ key] exI [of _ ps]) simp
      then show ?thesis using none by blast
    qed simp
  qed
  ultimately show ?thesis using g(1) q k by (auto simp: queue_paths_def)
qed

lemma keeps_can_ask: "keeps but st st' \<Longrightarrow> sc_profile st' = sc_profile st"
  by (simp add: keeps_def)

lemma keeps_ok: "keeps but st st' \<Longrightarrow> sched_ok st \<Longrightarrow> sched_ok st'"
  by (simp add: keeps_def)

lemma queue_or_defer_keeps:
  "sched_ok st \<Longrightarrow> \<forall>(key, paths) \<in> set groups. fits_key (sc_profile st) key paths \<Longrightarrow>
   \<exists>rs d st'. queue_or_defer groups qa st = Inr (rs, d, st') \<and> keeps {} st st' \<and>
     (\<forall>p. (\<exists>(key, paths) \<in> set groups. p \<in> set paths) \<longrightarrow> wanted st' p) \<and> (rs = [] \<and> \<not> d \<longrightarrow> groups = [])"
proof (induction groups arbitrary: st)
  case Nil
  show ?case by (intro exI [of _ "[]"] exI [of _ False] exI [of _ st]) simp
next
  case (Cons g groups)
  obtain key paths where g: "g = (key, paths)" by (cases g)
  have fits: "fits_key (sc_profile st) key paths" using Cons.prems(2) g by simp
  have ask: "\<forall>p \<in> set paths. can_ask (sc_profile st) p" using fits by (simp add: fits_key_def)
  show ?case
  proof (cases "must_defer_for_external_cat paths st")
    case True
    let ?item = "\<lparr>pe_paths = paths, pe_max_age = qa_max_age qa, pe_priority = qa_priority qa,
              pe_reason = qa_reason qa, pe_reasons = [qa_reason qa], pe_timeout = qa_timeout qa,
              pe_requested_at = qa_requested_at qa, pe_deadline = qa_deadline qa,
              pe_external_cat_owner = sc_cat_owner st\<rparr>"
    have "item_ok (sc_profile st) ?item" using fits by (simp add: item_ok_def fits_key_def)
    note d = defer_item_keeps [OF this, of key]
    let ?st1 = "defer_item key ?item st"
    have prof: "sc_profile ?st1 = sc_profile st" by (rule keeps_can_ask [OF d(1)])
    obtain rs b st' where r: "queue_or_defer groups qa ?st1 = Inr (rs, b, st')" "keeps {} ?st1 st'"
      "\<forall>p. (\<exists>(key, paths) \<in> set groups. p \<in> set paths) \<longrightarrow> wanted st' p"
      using Cons.IH [OF keeps_ok [OF d(1) Cons.prems(1)]] Cons.prems(2) prof by auto
    have "wanted st' p" if "p \<in> set paths" for p
      using d(2) that r(2) keeps_ok [OF d(1) Cons.prems(1)] by (simp add: keeps_def wanted_def)
    then show ?thesis
      using r keeps_trans [OF d(1) r(2)] True by (auto simp: g)
  next
    case False
    obtain qs st1 where q: "queue_paths paths (qa\<lparr>qa_external_cat_owner := sc_cat_owner st\<rparr>) st = Inr (qs, st1)"
      "keeps {} st st1" "\<forall>p. pending_path st p \<or> p \<in> set paths \<longrightarrow> pending_path st1 p" "qs = [] \<longleftrightarrow> paths = []"
      using queue_paths_keeps [OF Cons.prems(1) ask, of "qa\<lparr>qa_external_cat_owner := sc_cat_owner st\<rparr>"] by blast
    have ok1: "sched_ok st1" by (rule keeps_ok [OF q(2) Cons.prems(1)])
    obtain rs b st' where r: "queue_or_defer groups qa st1 = Inr (rs, b, st')" "keeps {} st1 st'"
      "\<forall>p. (\<exists>(key, paths) \<in> set groups. p \<in> set paths) \<longrightarrow> wanted st' p"
      using Cons.IH [OF ok1] Cons.prems(2) keeps_can_ask [OF q(2)] by auto
    have "wanted st' p" if "p \<in> set paths" for p
      using q(3) that r(2) ok1 by (simp add: keeps_def wanted_def)
    moreover have "qs \<noteq> []" using q(4) fits by (simp add: fits_key_def)
    ultimately show ?thesis
      using q(1) r keeps_trans [OF q(2) r(2)] False by (auto simp: g)
  qed
qed

lemma availability_for_None: "availability_for paths st = None \<Longrightarrow> \<forall>p \<in> set paths. can_ask (sc_profile st) p"
  by (auto simp: availability_for_def can_ask_def list_ex_iff split: if_splits)

text \<open>\<open>ensure_fresh\<close>: a request that is not refused is pending or deferred afterwards.\<close>

lemma ensure_fresh_keeps:
  assumes ok: "sched_ok st" and paths: "paths \<noteq> []" and age: "0 < max_age"
  shows "\<exists>res st'. ensure_fresh paths max_age priority reason timeout fresh now st = Inr (res, st') \<and> keeps {} st st' \<and>
    (ef_status res = ACQ_UNAVAILABLE \<longrightarrow> st' = st) \<and>
    (ef_status res \<noteq> ACQ_UNAVAILABLE \<longrightarrow> (\<forall>p \<in> set paths. wanted st' p \<or>
        (priority \<in> set automatic_priorities \<and> refusal_withheld p now st))) \<and>
    (ef_status res = ACQ_QUEUED \<longleftrightarrow> ef_request res \<noteq> None)"
proof -
  let ?n = "sort_key path_str paths"
  show ?thesis
  proof (cases "availability_for ?n st")
    case (Some u)
    then have "ensure_fresh paths max_age priority reason timeout fresh now st = Inr (u, st)"
      "ef_status u = ACQ_UNAVAILABLE" "ef_request u = None"
      using paths age by (auto simp: ensure_fresh_def normalize_paths_def availability_for_def split: if_splits)
    then show ?thesis by auto
  next
    case None
    have ask: "\<forall>p \<in> set ?n. can_ask (sc_profile st) p" by (rule availability_for_None [OF None])
    let ?a = "if priority \<in> set automatic_priorities then filter (\<lambda>p. \<not> refusal_withheld p now st) ?n else ?n"
    let ?qa = "\<lparr>qa_max_age = max_age, qa_priority = priority, qa_reason = reason, qa_reasons = [reason],
                     qa_timeout = timeout, qa_requested_at = now, qa_external_cat_owner = None,
                     qa_deadline = (if timeout = None \<and> max_age \<le> MIN_RECONCILIATION_MAX_AGE
                       then now + EPSILON_MAX_AGE_LIVENESS else now + max_age),
                     qa_require_fresh_dispatch = fresh\<rparr>"
    have askable: "\<forall>p \<in> set ?a. can_ask (sc_profile st) p" using ask by auto
    have split: "p \<in> set ?a \<or> (priority \<in> set automatic_priorities \<and> refusal_withheld p now st)" if "p \<in> set paths" for p
      using that by auto
    note ef = ensure_fresh_def normalize_paths_def Let_def
    show ?thesis
    proof (cases "?a = []")
      case True
      then show ?thesis using paths age None by (simp add: ef)
    next
      case ne: False
      show ?thesis
      proof (cases "sc_cat_paused st")
        case True
        obtain groups where g: "request_groups (sc_profile st) ?a = Inr groups" "groups_ok (sc_profile st) groups"
          "\<forall>p. in_groups groups p \<longleftrightarrow> p \<in> set ?a"
          using request_groups_spec [OF askable] by blast
        have dist: "distinct (map fst groups)" using g(2) by (simp add: groups_ok_def)
        obtain rs d st' where q: "queue_or_defer groups ?qa st = Inr (rs, d, st')" "keeps {} st st'"
          "\<forall>p. (\<exists>(key, paths) \<in> set groups. p \<in> set paths) \<longrightarrow> wanted st' p" "rs = [] \<and> \<not> d \<longrightarrow> groups = []"
          using queue_or_defer_keeps [OF ok groups_ok_all [OF g(2)], of ?qa] by blast
        have "groups \<noteq> []" using g(3) ne by (cases "?a") (auto simp: in_groups_def)
        then have nz: "rs \<noteq> [] \<or> d" using q(4) by blast
        have w: "\<forall>p \<in> set ?a. wanted st' p" using q(3) g(3) in_groups_list [OF dist] by blast
        have "ensure_fresh paths max_age priority reason timeout fresh now st = Inr (queued_result rs, st')"
          using paths age None ne True g(1) q(1) nz by (simp add: ef)
        moreover have "ef_status (queued_result rs) \<noteq> ACQ_UNAVAILABLE"
          "ef_status (queued_result rs) = ACQ_QUEUED \<longleftrightarrow> ef_request (queued_result rs) \<noteq> None"
          by (simp_all add: queued_result_def split: list.split)
        ultimately show ?thesis using q(2) w split by blast
      next
        case False
        obtain rs st' where q: "queue_paths ?a ?qa st = Inr (rs, st')" "keeps {} st st'"
          "\<forall>p. pending_path st p \<or> p \<in> set ?a \<longrightarrow> pending_path st' p"
          using queue_paths_keeps [OF ok askable, of ?qa] by blast
        have w: "\<forall>p \<in> set ?a. wanted st' p" using q(3) by (simp add: wanted_def)
        have "ensure_fresh paths max_age priority reason timeout fresh now st = Inr (queued_result rs, st')"
          using paths age None ne False q(1) by (simp add: ef)
        moreover have "ef_status (queued_result rs) \<noteq> ACQ_UNAVAILABLE"
          "ef_status (queued_result rs) = ACQ_QUEUED \<longleftrightarrow> ef_request (queued_result rs) \<noteq> None"
          by (simp_all add: queued_result_def split: list.split)
        ultimately show ?thesis using q(2) w split by blast
      qed
    qed
  qed
qed

lemma cadence_state_for_tables:
  "cadence_state_for key c now st = (s, st') \<Longrightarrow> same_tables st st'"
  by (auto simp: cadence_state_for_def same_tables_def Let_def split: option.splits)

lemma poll_cadence_groups_spec:
  "poll_cadence_groups st = (groups, st') \<Longrightarrow> groups = poll_groups (sc_profile st) \<and> same_tables st st'"
  by (auto simp: poll_cadence_groups_def same_tables_def Let_def)

lemma flip_hygiene_tables: "same_tables st (flip_hygiene st)"
  by (simp add: flip_hygiene_def same_tables_def)

lemma demote_queue_envelopes_tables: "demote_queue_envelopes a st = (e, st') \<Longrightarrow> same_tables st st'"
  by (auto simp: demote_queue_envelopes_def Let_def split: prod.splits dest: poll_cadence_groups_spec)

lemma count_failure_tables: "same_tables st (count_failure r st)"
  by (simp add: count_failure_def same_tables_def)

lemma note_refusals_tables: "same_tables st (note_refusals ps now st)"
proof -
  have "same_tables st (foldl (\<lambda>st p. st\<lparr>sc_refused := f p st\<rparr>) st ps)" for f ps
    by (induction ps arbitrary: st) (simp_all add: same_tables_def)
  then show ?thesis unfolding note_refusals_def .
qed

section \<open>Polling\<close>

definition profile_ok :: "acquisition_profile \<Rightarrow> bool" where
  "profile_ok pr \<longleftrightarrow> distinct (map fk_path (pr_capabilities pr))"

lemma can_ask_polled:
  assumes ok: "profile_ok pr" and c: "c \<in> set (pr_capabilities pr)" "can_poll c"
  shows "can_ask pr (fk_path c)"
proof -
  have "distinct (map fst (map (\<lambda>c. (fk_path c, c)) (pr_capabilities pr)))"
    using ok by (simp add: profile_ok_def comp_def)
  then have "find_capability pr (fk_path c) = Some c"
    unfolding find_capability_def using c(1) by (auto simp: map_of_eq_Some_iff)
  then show ?thesis using c(2) by (simp add: can_ask_def capability_for_def has_acquisition_hook_def)
qed

lemma poll_groups_ok:
  assumes "profile_ok pr" shows "groups_ok pr (poll_groups pr)"
proof -
  let ?f = "\<lambda>groups c. if \<not> can_poll c then groups
     else case ap_cadence (policy_for pr (fk_path c) None) of
       None \<Rightarrow> groups
     | Some _ \<Rightarrow>
         add_to_group (request_key_of (fk_path c) METHOD_POLL (policy_for pr (fk_path c) None)) (fk_path c) groups"
  have "groups_ok pr groups \<Longrightarrow> set cs \<subseteq> set (pr_capabilities pr) \<Longrightarrow> groups_ok pr (foldl ?f groups cs)" for groups cs
  proof (induction cs arbitrary: groups)
    case (Cons c cs)
    have "groups_ok pr (?f groups c)"
      using Cons.prems groups_ok_add [OF Cons.prems(1)] can_ask_polled [OF assms, of c]
      by (simp split: option.split)
    then show ?case using Cons by simp
  qed simp
  moreover have "groups_ok pr []" by (simp add: groups_ok_def)
  ultimately show ?thesis unfolding poll_groups_def by (intro groups_ok_sort) blast
qed

text \<open>The groups a tick asks for: not pending, not deferred, due by their clock.\<close>

lemma due_loop_tables: "due_loop now tx av groups st = (due, st') \<Longrightarrow> same_tables st st'"
proof (induction groups arbitrary: st due st')
  case (Cons g groups)
  obtain key paths where g: "g = (key, paths)" by (cases g)
  obtain s st1 where c: "cadence_state_for key (key_cadence key) now st = (s, st1)" by fastforce
  obtain due1 st2 where d: "due_loop now tx av groups st1 = (due1, st2)" by fastforce
  show ?case
    using Cons.prems Cons.IH [of st] Cons.IH [OF d] same_tables_trans [OF cadence_state_for_tables [OF c]]
    by (simp add: g c d Let_def split: if_splits)
qed simp

lemma due_loop_fits:
  "due_loop now tx av groups st = (due, st') \<Longrightarrow> \<forall>(key, paths) \<in> set groups. fits_key pr key paths \<Longrightarrow>
   \<forall>(key, paths) \<in> set due. fits_key pr key paths"
proof (induction groups arbitrary: st due st')
  case (Cons g groups)
  obtain key paths where g: "g = (key, paths)" by (cases g)
  obtain s st1 where c: "cadence_state_for key (key_cadence key) now st = (s, st1)" by fastforce
  obtain due1 st2 where d: "due_loop now tx av groups st1 = (due1, st2)" by fastforce
  have rest: "\<forall>(key, paths) \<in> set groups. fits_key pr key paths" using Cons.prems(2) by simp
  let ?asked = "filter (\<lambda>p. \<not> refusal_withheld p now st) paths"
  have "fits_key pr key (sort_key path_str ?asked)" if "?asked \<noteq> []"
  proof -
    have "sort_key path_str ?asked \<noteq> []" using that by (metis length_0_conv length_sort)
    then show ?thesis using Cons.prems(2) by (auto simp: g fits_key_def)
  qed
  then show ?case
    using Cons.prems(1) Cons.IH [OF _ rest, of st] Cons.IH [OF d rest]
    by (auto simp: g c d Let_def split: if_splits)
qed simp

lemma queue_due_keeps:
  "sched_ok st \<Longrightarrow> \<forall>(key, paths) \<in> set due. fits_key (sc_profile st) key paths \<Longrightarrow>
   queue_due now due st = (rs, st') \<Longrightarrow>
   keeps {} st st' \<and> (\<forall>p. (\<exists>(key, paths) \<in> set due. p \<in> set paths) \<longrightarrow> wanted st' p)"
proof (induction due arbitrary: st rs)
  case (Cons d due)
  obtain key paths where d: "d = (key, paths)" by (cases d)
  have fits: "fits_key (sc_profile st) key paths" using Cons.prems(2) d by simp
  define max_age where "max_age = (case map_of (sc_demoted st) key of
            Some (_, ttl) \<Rightarrow> ttl
          | None \<Rightarrow> (case ap_freshness_ttl (rk_policy key) of Some ttl \<Rightarrow> ttl | None \<Rightarrow> key_cadence key))"
  have rest: "keeps {} st st' \<and> (\<forall>p. (\<exists>(key, paths) \<in> set (d # due). p \<in> set paths) \<longrightarrow> wanted st' p)"
    if k: "keeps {} st st1" and w: "\<forall>p \<in> set paths. wanted st1 p" and q: "queue_due now due st1 = (rs', st')" for st1 rs'
  proof -
    have ok1: "sched_ok st1" by (rule keeps_ok [OF k Cons.prems(1)])
    have "\<forall>(key, paths) \<in> set due. fits_key (sc_profile st1) key paths"
      using Cons.prems(2) keeps_can_ask [OF k] by simp
    note ih = Cons.IH [OF ok1 this q]
    have "wanted st' p" if "p \<in> set paths" for p using w ih that ok1 by (simp add: keeps_def)
    then show ?thesis using ih keeps_trans [OF k] by (auto simp: d)
  qed
  show ?case
  proof (cases "sc_cat_paused st \<and> must_defer_for_external_cat paths st")
    case True
    let ?item = "\<lparr>pe_paths = paths, pe_max_age = max_age, pe_priority = PRIO_BACKGROUND,
                 pe_reason = ''policy-cadence'', pe_reasons = [''policy-cadence''], pe_timeout = None,
                 pe_requested_at = now, pe_deadline = now + max_age, pe_external_cat_owner = sc_cat_owner st\<rparr>"
    have "item_ok (sc_profile st) ?item" using fits by (simp add: item_ok_def fits_key_def)
    note di = defer_item_keeps [OF this, of key]
    have "queue_due now due (defer_item key ?item st) = (rs, st')"
      using Cons.prems(3) True unfolding d max_age_def by (simp add: Let_def)
    then show ?thesis using rest [OF di(1)] di(2) by (simp add: wanted_def)
  next
    case False
    let ?qa = "\<lparr>qa_max_age = max_age, qa_priority = PRIO_BACKGROUND, qa_reason = ''policy-cadence'',
                  qa_reasons = [''policy-cadence''], qa_timeout = None, qa_requested_at = now,
                  qa_external_cat_owner = sc_cat_owner st, qa_deadline = now + max_age,
                  qa_require_fresh_dispatch = False\<rparr>"
    obtain qs st1 where q: "queue_grouped [(key, paths)] ?qa st = (qs, st1)" by fastforce
    obtain rs' st2 where r: "queue_due now due st1 = (rs', st2)" by fastforce
    have "st2 = st'" using Cons.prems(3) False q r unfolding d max_age_def by (simp add: Let_def)
    then have r': "queue_due now due st1 = (rs', st')" using r by simp
    have "\<forall>(key, paths) \<in> set [(key, paths)]. fits_key (sc_profile st) key paths" using fits by simp
    note g = queue_grouped_keeps [OF Cons.prems(1) this q]
    show ?thesis using rest [OF _ _ r'] g by (simp add: wanted_def)
  qed
qed simp

lemma due_requests_keeps:
  assumes ok: "sched_ok st" and pr: "profile_ok (sc_profile st)" and d: "due_requests now tx obs av st = (rs, st')"
  shows "keeps {} st st'"
proof -
  define st1 where "st1 = st\<lparr>sc_tx_active := tx, sc_availability := av\<rparr>"
  define st3 where "st3 = (case obs of None \<Rightarrow> st1\<lparr>sc_demoted := []\<rparr>
     | Some active \<Rightarrow> let (envelopes, st2) = demote_queue_envelopes active st1
          in flip_hygiene (st2\<lparr>sc_demoted := envelopes\<rparr>))"
  obtain due st4 where l: "due_poll_groups now tx av st3 = (due, st4)" by fastforce
  have q: "queue_due now due st4 = (rs, st')"
    using d l by (simp add: due_requests_def st1_def st3_def Let_def split: option.splits prod.splits)
  have s3: "same_tables st st3"
  proof (cases obs)
    case None
    then show ?thesis by (simp add: st3_def st1_def same_tables_def)
  next
    case (Some a)
    obtain e st2 where e: "demote_queue_envelopes a st1 = (e, st2)" by fastforce
    have "same_tables st st1" by (simp add: st1_def same_tables_def)
    from same_tables_trans [OF this demote_queue_envelopes_tables [OF e]]
    have "same_tables st (st2\<lparr>sc_demoted := e\<rparr>)" by (simp add: same_tables_def)
    from same_tables_trans [OF this flip_hygiene_tables] show ?thesis by (simp add: st3_def Some e)
  qed
  obtain groups st3' where g: "poll_cadence_groups st3 = (groups, st3')" by fastforce
  note gs = poll_cadence_groups_spec [OF g]
  have l': "due_loop now tx av groups st3' = (due, st4)" using l g by (simp add: due_poll_groups_def)
  have s4: "same_tables st st4"
    using same_tables_trans [OF s3] same_tables_trans [OF conjunct2 [OF gs] due_loop_tables [OF l']] by blast
  have prof: "sc_profile st3 = sc_profile st" "sc_profile st4 = sc_profile st"
    using s3 s4 by (simp_all add: same_tables_def)
  have "\<forall>(key, paths) \<in> set groups. fits_key (sc_profile st) key paths"
    using groups_ok_all [OF poll_groups_ok [OF pr]] gs prof by simp
  from due_loop_fits [OF l' this]
  have "\<forall>(key, paths) \<in> set due. fits_key (sc_profile st4) key paths" using prof by simp
  from queue_due_keeps [OF keeps_ok [OF keeps_same [OF s4] ok] this q] show ?thesis
    using keeps_trans [OF keeps_same [OF s4]] by blast
qed

section \<open>Priming\<close>

lemma prime_max_age_pos: "0 < prime_max_age pol"
  by (cases "ap_freshness_ttl pol"; cases "ap_cadence pol")
    (auto simp: prime_max_age_def Let_def MIN_RECONCILIATION_MAX_AGE_def)

lemma prime_loop_keeps:
  "sched_ok st \<Longrightarrow> \<exists>v q st'. prime_loop obs pending reason limit av now items count visited queued st = Inr (v, q, st') \<and>
     keeps {} st st'"
proof (induction items arbitrary: count visited queued st)
  case (Cons item items)
  obtain p pol where item: "item = (p, pol)" by (cases item)
  obtain res st1 where e: "ensure_fresh [p] (prime_max_age pol) PRIO_BACKGROUND reason None False now st = Inr (res, st1)"
    "keeps {} st st1"
    using ensure_fresh_keeps [OF Cons.prems, of "[p]" "prime_max_age pol"] prime_max_age_pos by blast
  have ok1: "sched_ok st1" by (rule keeps_ok [OF e(2) Cons.prems])
  consider "count \<ge> limit"
    | "count < limit" "p \<in> set obs \<or> p \<in> set pending \<or> cadence_owned (sc_profile st) p pol \<or> contradicted av p"
    | "count < limit" "\<not> (p \<in> set obs \<or> p \<in> set pending \<or> cadence_owned (sc_profile st) p pol \<or> contradicted av p)"
    by fastforce
  then show ?case
  proof cases
    case 1
    then show ?thesis by (intro exI [of _ visited] exI [of _ queued] exI [of _ st]) (simp add: item)
  next
    case 2
    then show ?thesis using Cons.IH [OF Cons.prems, of count "visited + 1" queued] by (simp add: item)
  next
    case 3
    show ?thesis
    proof (cases "ef_request res")
      case None
      obtain v q st' where "prime_loop obs pending reason limit av now items count (visited + 1) queued st1 = Inr (v, q, st')"
        "keeps {} st1 st'"
        using Cons.IH [OF ok1] by blast
      then show ?thesis using 3 e None keeps_trans [OF e(2)]
        by (intro exI [of _ v] exI [of _ q] exI [of _ st']) (simp add: item)
    next
      case (Some r)
      obtain v q st' where "prime_loop obs pending reason limit av now items (count + 1) (visited + 1)
          (AList.update (aq_id r) r queued) st1 = Inr (v, q, st')" "keeps {} st1 st'"
        using Cons.IH [OF ok1] by blast
      then show ?thesis using 3 e Some keeps_trans [OF e(2)]
        by (intro exI [of _ v] exI [of _ q] exI [of _ st']) (simp add: item)
    qed
  qed
qed simp

lemma prime_unobserved_keeps:
  assumes "sched_ok st"
  shows "\<exists>rs st'. prime_unobserved obs reason limit av now st = Inr (rs, st') \<and> keeps {} st st'"
proof -
  define items where "items = pr_field_policies (sc_profile st)"
  define cursor where "cursor = (if length items = 0 then 0 else sc_prime_cursor st mod length items)"
  obtain v q st1 where l: "prime_loop obs (concat (map (\<lambda>(_, r). aq_paths r) (sc_requests st))) reason limit av now
      (drop cursor items @ take cursor items) 0 0 [] st = Inr (v, q, st1)" "keeps {} st st1"
    using prime_loop_keeps [OF assms] by blast
  let ?st' = "if length items = 0 then st1 else st1\<lparr>sc_prime_cursor := (cursor + v) mod length items\<rparr>"
  have "same_tables st1 ?st'" by (simp add: same_tables_def)
  then have "keeps {} st ?st'" using keeps_trans [OF l(2) keeps_same] by blast
  moreover have "prime_unobserved obs reason limit av now st = Inr (map snd q, ?st')"
    using l(1) unfolding prime_unobserved_def items_def cursor_def Let_def by simp
  ultimately show ?thesis by blast
qed

section \<open>Results, failures, refusals\<close>

text \<open>The key of a request in the table is the one it is filed under.\<close>

lemma key_of_filed:
  assumes ok: "sched_ok st" and r: "map_of (sc_requests st) key = Some r"
  shows "key_of_request r = Inr key"
proof -
  have "request_ok (sc_profile st) (sc_next_id st) key r" by (rule ok_request [OF ok r])
  then show ?thesis
    by (cases "aq_paths r") (auto simp: request_ok_def fits_key_def key_of_request_def)
qed

lemma same_tables_updates [simp]:
  "same_tables st (st'\<lparr>sc_timeouts := a\<rparr>) = same_tables st st'"
  "same_tables st (st'\<lparr>sc_pending_cadence := b\<rparr>) = same_tables st st'"
  "same_tables st (st'\<lparr>sc_cadence := c\<rparr>) = same_tables st st'"
  by (simp_all add: same_tables_def)

lemma keeps_then_same: "keeps but st st' \<Longrightarrow> same_tables st' st'' \<Longrightarrow> keeps but st st''"
  using keeps_trans keeps_same by blast

definition unfiled :: "acquisition_request \<Rightarrow> scheduler \<Rightarrow> bool" where
  "unfiled r st \<longleftrightarrow> (\<forall>key q. map_of (sc_requests st) key = Some q \<longrightarrow> aq_id q \<noteq> aq_id r)"

text \<open>A result completes its paths; the result of a request that is not filed completes nothing.\<close>

lemma record_acquisition_result_keeps:
  assumes "record_acquisition_result r cs st = Inr st'"
  shows "keeps (set (aq_paths r)) st st' \<and> (unfiled r st \<longrightarrow> same_tables st st')"
proof -
  obtain key where key: "key_of_request r = Inr key" using assms
    by (cases "key_of_request r") (auto simp: record_acquisition_result_def)
  define st1 where "st1 = (case map_of (sc_requests st) key of
             Some existing \<Rightarrow> if (case map_of (sc_requests st) key of
                 Some existing \<Rightarrow> aq_id existing = aq_id r | None \<Rightarrow> False)
               then settle_paths key existing (aq_paths r) st else st
           | None \<Rightarrow> st)"
  have k1: "keeps (set (aq_paths r)) st st1"
    using settle_paths_keeps(1) unfolding st1_def by (simp split: option.split)
  have "same_tables st1 st'"
  proof (cases "ap_cadence (aq_policy r)")
    case None
    then show ?thesis
      using assms unfolding record_acquisition_result_def key bind_result.simps Let_def st1_def [symmetric]
      by (auto simp: same_tables_def)
  next
    case (Some declared)
    define st2 where "st2 = st1\<lparr>sc_timeouts := AList.delete key (sc_timeouts st1)\<rparr>"
    define pending where "pending = (case map_of (sc_pending_cadence st2) key of
                    Some u \<Rightarrow> if pu_request_id u = aq_id r then Some u else None | None \<Rightarrow> None)"
    define st3 where "st3 = (if pending = None then st2
                         else st2\<lparr>sc_pending_cadence := AList.delete key (sc_pending_cadence st2)\<rparr>)"
    obtain groups st4 where g: "poll_cadence_groups st3 = (groups, st4)" by fastforce
    obtain previous st5 where p: "cadence_state_for key declared (cs_timestamp_monotonic cs) st4 = (previous, st5)"
      by fastforce
    have t2: "same_tables st1 st2" "same_tables st1 st3" by (simp_all add: st2_def st3_def same_tables_def)
    have t4: "same_tables st1 st4" using same_tables_trans [OF t2(2)] poll_cadence_groups_spec [OF g] by blast
    have t5: "same_tables st1 st5" by (rule same_tables_trans [OF t4 cadence_state_for_tables [OF p]])
    show ?thesis
      using assms t2 t4 t5
      unfolding record_acquisition_result_def key bind_result.simps Let_def Some option.case st1_def [symmetric]
        st2_def [symmetric] pending_def [symmetric] st3_def [symmetric] g prod.case p
      by (auto simp: same_tables_def split: if_splits)
  qed
  moreover have "st1 = st" if "unfiled r st"
    using that by (auto simp: st1_def unfiled_def split: option.split)
  ultimately show ?thesis using keeps_then_same [OF k1] by blast
qed

definition failed_set :: "acquisition_request \<Rightarrow> string \<Rightarrow> field_path list option \<Rightarrow> bool \<Rightarrow> field_path set" where
  "failed_set r reason failed_paths link_healthy =
     (if reason = TIMEOUT_REASON \<and> link_healthy then {}
      else case failed_paths of None \<Rightarrow> set (aq_paths r) | Some ps \<Rightarrow> set ps \<inter> set (aq_paths r))"

text \<open>A failure is always recorded, and only its paths are no longer waited for.\<close>

lemma record_acquisition_failure_keeps:
  "\<exists>st'. record_acquisition_failure r reason failed_paths now healthy st = Inr st' \<and>
     keeps (failed_set r reason failed_paths healthy) st st' \<and> (unfiled r st \<longrightarrow> same_tables st st')"
proof -
  define why where "why = (if reason = [] then ''acquisition_failed'' else reason)"
  define failed where "failed = (case failed_paths of None \<Rightarrow> aq_paths r | Some ps \<Rightarrow> filter (\<lambda>p. p \<in> set (aq_paths r)) ps)"
  have why: "why = TIMEOUT_REASON \<longleftrightarrow> reason = TIMEOUT_REASON"
    by (auto simp: why_def TIMEOUT_REASON_def)
  show ?thesis
  proof (cases "(why = TIMEOUT_REASON \<and> healthy) \<or> failed = []")
    case True
    then have "record_acquisition_failure r reason failed_paths now healthy st = Inr st"
      unfolding record_acquisition_failure_def Let_def why_def [symmetric] failed_def [symmetric] by auto
    then show ?thesis by (intro exI [of _ st]) simp
  next
    case False
    have set: "set failed = failed_set r reason failed_paths healthy"
      using False why by (auto simp: failed_def failed_set_def split: option.split)
    have "aq_paths r \<noteq> []" using False by (auto simp: failed_def filter_empty_conv split: option.splits)
    then obtain key where key: "key_of_request r = Inr key"
      by (cases "aq_paths r") (auto simp: key_of_request_def)
    define st1 where "st1 = count_failure why st"
    define st2 where "st2 = (case map_of (sc_requests st1) key of
                   Some existing \<Rightarrow>
                     if aq_id existing \<noteq> aq_id r then st1
                     else if filter (\<lambda>p. p \<notin> set failed) (aq_paths existing) = []
                          then (settle_paths key existing failed st1)\<lparr>sc_pending_cadence :=
                            AList.delete key (sc_pending_cadence (settle_paths key existing failed st1))\<rparr>
                          else settle_paths key existing failed st1
                 | None \<Rightarrow> st1)"
    have u: "same_tables st st2" if "unfiled r st"
    proof -
      have t: "same_tables st st1" unfolding st1_def by (rule count_failure_tables)
      then have "sc_requests st1 = sc_requests st" by (simp add: same_tables_def)
      then have "st2 = st1" using that by (auto simp: st2_def unfiled_def split: option.split)
      then show ?thesis using t by simp
    qed
    have k1: "keeps (set failed) st st1" unfolding st1_def by (rule keeps_same [OF count_failure_tables])
    have "keeps (set failed) st1 st2"
    proof (cases "map_of (sc_requests st1) key")
      case (Some existing)
      note k = settle_paths_keeps(1) [OF Some, of failed]
      have "same_tables (settle_paths key existing failed st1) ((settle_paths key existing failed st1)\<lparr>sc_pending_cadence :=
              AList.delete key (sc_pending_cadence (settle_paths key existing failed st1))\<rparr>)"
        by (simp add: same_tables_def)
      from keeps_then_same [OF k this] k show ?thesis by (simp add: st2_def Some)
    qed (simp add: st2_def)
    then have k2: "keeps (set failed) st st2" by (rule keeps_trans [OF k1])
    note rec = record_acquisition_failure_def Let_def why_def [symmetric] failed_def [symmetric] key bind_result.simps
    show ?thesis
    proof (cases "ap_cadence (aq_policy r)")
      case None
      then have "record_acquisition_failure r reason failed_paths now healthy st = Inr st2"
        using False unfolding rec st1_def [symmetric] st2_def [symmetric] by auto
      then show ?thesis using k2 set u by (intro exI [of _ st2]) simp
    next
      case (Some declared)
      obtain previous st3 where p: "cadence_state_for key declared now st2 = (previous, st3)" by fastforce
      note k3 = keeps_then_same [OF k2 cadence_state_for_tables [OF p]]
      have "\<exists>st'. record_acquisition_failure r reason failed_paths now healthy st = Inr st' \<and> same_tables st3 st'"
        using False unfolding rec st1_def [symmetric] st2_def [symmetric] Some option.case p prod.case
        by (auto simp: same_tables_def)
      then obtain st' where "record_acquisition_failure r reason failed_paths now healthy st = Inr st'"
        "same_tables st3 st'" by blast
      moreover from this(2) have "unfiled r st \<longrightarrow> same_tables st st'"
        using u same_tables_trans [OF cadence_state_for_tables [OF p]] same_tables_trans by blast
      ultimately show ?thesis using keeps_then_same [OF k3] set by (intro exI [of _ st']) simp
    qed
  qed
qed

lemma refuse_requests_keeps: "\<exists>st'. refuse_requests refused now rs st = Inr st' \<and> keeps (set refused) st st'"
proof (induction rs arbitrary: st)
  case (Cons r rs)
  define matched where "matched = filter (\<lambda>p. p \<in> set refused) (aq_paths r)"
  show ?case
  proof (cases "matched = [] \<or> \<not> may_credit (r\<lparr>aq_paths := matched\<rparr>) now st")
    case True
    then have "refuse_requests refused now (r # rs) st = refuse_requests refused now rs st"
      unfolding refuse_requests.simps Let_def matched_def [symmetric] by simp
    then show ?thesis using Cons.IH by simp
  next
    case False
    obtain st1 where s: "record_acquisition_failure (r\<lparr>aq_paths := matched\<rparr>) REFUSED_REASON (Some matched) now False st = Inr st1"
      "keeps (failed_set (r\<lparr>aq_paths := matched\<rparr>) REFUSED_REASON (Some matched) False) st st1"
      using record_acquisition_failure_keeps by blast
    have "failed_set (r\<lparr>aq_paths := matched\<rparr>) REFUSED_REASON (Some matched) False \<subseteq> set refused"
      by (auto simp: failed_set_def matched_def)
    then have k: "keeps (set refused) st st1" by (rule keeps_mono [OF s(2)])
    obtain st' where s': "refuse_requests refused now rs st1 = Inr st'" "keeps (set refused) st1 st'"
      using Cons.IH by blast
    have "refuse_requests refused now (r # rs) st = Inr st'"
      using False s(1) s'(1) unfolding refuse_requests.simps Let_def matched_def [symmetric] by simp
    then show ?thesis using keeps_trans [OF k s'(2)] by blast
  qed
qed simp

lemma record_read_refusal_keeps:
  "\<exists>st'. record_read_refusal paths now st = Inr st' \<and> keeps (set paths) st st'"
proof (cases "paths = []")
  case False
  let ?st1 = "note_refusals paths now st"
  obtain st' where s: "refuse_requests paths now (pending_requests ?st1) ?st1 = Inr st'" "keeps (set paths) ?st1 st'"
    using refuse_requests_keeps by blast
  have "keeps (set paths) st st'" by (rule keeps_trans [OF keeps_same [OF note_refusals_tables] s(2)])
  then show ?thesis using s(1) False by (simp add: record_read_refusal_def Let_def)
qed (simp add: record_read_refusal_def)

section \<open>External CAT ownership\<close>

text \<open>A pending request becomes a deferred one under its key.\<close>

lemma defer_pending_keeps:
  assumes ok: "sched_ok st" and r: "map_of (sc_requests st) key = Some r" and paths: "pe_paths item = aq_paths r"
  shows "keeps {} st (defer_item key item (drop_request key (aq_id r) st))"
    "map_of (sc_requests (defer_item key item (drop_request key (aq_id r) st))) = (map_of (sc_requests st))(key := None)"
proof -
  let ?d = "drop_request key (aq_id r) st"
  note drop = drop_request_keeps [OF r]
  have prof: "sc_profile ?d = sc_profile st" by (rule keeps_can_ask [OF drop(1)])
  have "item_ok (sc_profile ?d) item"
    using ok_request [OF ok r] paths prof by (simp add: item_ok_def request_ok_def fits_key_def)
  note di = defer_item_keeps [OF this, of key]
  have k: "keeps (set (aq_paths r)) st (defer_item key item ?d)"
    by (rule keeps_trans [OF drop(1) keeps_mono [OF di(1)]]) simp
  have "wanted (defer_item key item ?d) p" if "p \<in> set (aq_paths r)" for p
    using di(2) that paths by (simp add: wanted_def)
  then show "keeps {} st (defer_item key item ?d)" using k by (auto simp: keeps_def)
  show "map_of (sc_requests (defer_item key item ?d)) = (map_of (sc_requests st))(key := None)"
    using di(3) drop(3) by simp
qed

lemma must_defer_cong: "sc_profile st' = sc_profile st \<Longrightarrow> must_defer_for_external_cat ps st' = must_defer_for_external_cat ps st"
  by (simp add: must_defer_for_external_cat_def)

lemma pause_loop_keeps:
  "sched_ok st \<Longrightarrow> \<forall>(key, r) \<in> set rs. map_of (sc_requests st) key = Some r \<Longrightarrow> distinct (map fst rs) \<Longrightarrow>
   keeps {} st (pause_loop owner rs st) \<and>
   map_of (sc_requests (pause_loop owner rs st)) = (\<lambda>key. case map_of (sc_requests st) key of None \<Rightarrow> None
     | Some r \<Rightarrow> if (key, r) \<in> set rs \<and> must_defer_for_external_cat (aq_paths r) st then None else Some r)"
proof (induction rs arbitrary: st)
  case Nil
  show ?case by (auto split: option.split)
next
  case (Cons x rs)
  obtain key r where x: "x = (key, r)" by (cases x)
  have r: "map_of (sc_requests st) key = Some r" using Cons.prems(2) by (simp add: x)
  have notin: "\<forall>q. (key, q) \<notin> set rs" using Cons.prems(3) by (force simp: x)
  show ?case
  proof (cases "must_defer_for_external_cat (aq_paths r) st")
    case False
    have "\<forall>(key, r) \<in> set rs. map_of (sc_requests st) key = Some r" "distinct (map fst rs)"
      using Cons.prems by simp_all
    note ih = Cons.IH [OF Cons.prems(1) this]
    then show ?thesis using False r by (auto simp: x fun_eq_iff split: option.split)
  next
    case True
    let ?item = "\<lparr>pe_paths = aq_paths r, pe_max_age = aq_max_age r, pe_priority = aq_priority r, pe_reason = aq_reason r,
         pe_reasons = aq_reasons r, pe_timeout = aq_timeout r, pe_requested_at = aq_requested_at r,
         pe_deadline = aq_deadline r, pe_external_cat_owner = owner\<rparr>"
    let ?st1 = "defer_item key ?item (drop_request key (aq_id r) st)"
    have k: "keeps {} st ?st1" and lk: "map_of (sc_requests ?st1) = (map_of (sc_requests st))(key := None)"
      using defer_pending_keeps [OF Cons.prems(1) r, of ?item] by simp_all
    have ok1: "sched_ok ?st1" by (rule keeps_ok [OF k Cons.prems(1)])
    have prof: "sc_profile ?st1 = sc_profile st" by (rule keeps_can_ask [OF k])
    have "\<forall>(key, r) \<in> set rs. map_of (sc_requests ?st1) key = Some r"
      using Cons.prems(2) notin unfolding lk by auto
    note ih = Cons.IH [OF ok1 this] 
    have eq: "pause_loop owner (x # rs) st = pause_loop owner rs ?st1" using True by (simp add: x)
    have d: "distinct (map fst rs)" using Cons.prems(3) by simp
    have "map_of (sc_requests (pause_loop owner rs ?st1)) k = (case map_of (sc_requests st) k of None \<Rightarrow> None
      | Some q \<Rightarrow> if (k, q) \<in> set (x # rs) \<and> must_defer_for_external_cat (aq_paths q) st then None else Some q)" for k
      using conjunct2 [OF ih [OF d]] True r unfolding lk must_defer_cong [OF prof]
      by (auto simp: x split: option.split)
    then show ?thesis unfolding eq using keeps_trans [OF k conjunct1 [OF ih [OF d]]] by (simp add: fun_eq_iff)
  qed
qed

lemma pause_external_cat_keeps:
  assumes ok: "sched_ok st"
  shows "keeps {} st (pause_external_cat owner reason st)"
    "map_of (sc_requests (pause_external_cat owner reason st)) key = Some r \<Longrightarrow>
     map_of (sc_requests st) key = Some r \<and> \<not> must_defer_for_external_cat (aq_paths r) st"
proof -
  let ?st = "st\<lparr>sc_cat_paused := True, sc_cat_owner := owner, sc_cat_reason := reason\<rparr>"
  have same: "same_tables st ?st" by (simp add: same_tables_def)
  have ok': "sched_ok ?st" by (rule keeps_ok [OF keeps_same [OF same] ok])
  have d: "distinct (map fst (sc_requests st))" using ok by (simp add: sched_ok_def)
  have look: "\<forall>(key, r) \<in> set (sc_requests st). map_of (sc_requests ?st) key = Some r"
    using d by (auto simp: map_of_eq_Some_iff)
  note p = pause_loop_keeps [OF ok' look d, of owner]
  show "keeps {} st (pause_external_cat owner reason st)"
    unfolding pause_external_cat_def by (rule keeps_trans [OF keeps_same [OF same] conjunct1 [OF p]])
  assume r: "map_of (sc_requests (pause_external_cat owner reason st)) key = Some r"
  have eq: "map_of (sc_requests (pause_external_cat owner reason st)) key = (case map_of (sc_requests ?st) key of None \<Rightarrow> None
     | Some r \<Rightarrow> if (key, r) \<in> set (sc_requests st) \<and> must_defer_for_external_cat (aq_paths r) ?st then None else Some r)"
    unfolding pause_external_cat_def by (rule fun_cong [OF conjunct2 [OF p]])
  have "must_defer_for_external_cat ps ?st = must_defer_for_external_cat ps st" for ps
    by (rule must_defer_cong) simp
  then show "map_of (sc_requests st) key = Some r \<and> \<not> must_defer_for_external_cat (aq_paths r) st"
    using r map_of_SomeD [of "sc_requests st" key] unfolding eq by (auto split: option.splits if_splits)
qed

lemma resume_loop_keeps:
  "sched_ok st \<Longrightarrow> \<forall>item \<in> set items. item_ok (sc_profile st) item \<Longrightarrow>
   \<exists>rs st'. resume_loop owner items st = Inr (rs, st') \<and> sched_ok st' \<and> keeps {} st st' \<and> sc_deferred st' = sc_deferred st \<and>
     (\<forall>p. pending_path st p \<or> (\<exists>item \<in> set items. p \<in> set (pe_paths item)) \<longrightarrow> pending_path st' p)"
proof (induction items arbitrary: st)
  case (Cons item items)
  let ?qa = "\<lparr>qa_max_age = pe_max_age item, qa_priority = pe_priority item, qa_reason = pe_reason item,
        qa_reasons = pe_reasons item, qa_timeout = pe_timeout item, qa_requested_at = pe_requested_at item,
        qa_external_cat_owner = (case pe_external_cat_owner item of Some (c # cs) \<Rightarrow> Some (c # cs) | _ \<Rightarrow> owner),
        qa_deadline = pe_deadline item, qa_require_fresh_dispatch = False\<rparr>"
  have "\<forall>p \<in> set (pe_paths item). can_ask (sc_profile st) p" using Cons.prems(2) by (simp add: item_ok_def)
  from queue_paths_keeps [OF Cons.prems(1) this, of ?qa]
  obtain qs st1 where q: "queue_paths (pe_paths item) ?qa st = Inr (qs, st1)" "keeps {} st st1"
    "sc_deferred st1 = sc_deferred st" "\<forall>p. pending_path st p \<or> p \<in> set (pe_paths item) \<longrightarrow> pending_path st1 p" by blast
  have ok1: "sched_ok st1" by (rule keeps_ok [OF q(2) Cons.prems(1)])
  have "\<forall>item \<in> set items. item_ok (sc_profile st1) item" using Cons.prems(2) keeps_can_ask [OF q(2)] by simp
  from Cons.IH [OF ok1 this] obtain rs st' where r: "resume_loop owner items st1 = Inr (rs, st')" "sched_ok st'"
    "keeps {} st1 st'" "sc_deferred st' = sc_deferred st1"
    "\<forall>p. pending_path st1 p \<or> (\<exists>item \<in> set items. p \<in> set (pe_paths item)) \<longrightarrow> pending_path st' p" by blast
  have "resume_loop owner (item # items) st = Inr (qs @ rs, st')" using q(1) r(1) by simp
  moreover have "\<forall>p. pending_path st p \<or> (\<exists>i \<in> set (item # items). p \<in> set (pe_paths i)) \<longrightarrow> pending_path st' p"
    using q(4) r(5) by auto
  ultimately show ?case using r(2,4) q(3) keeps_trans [OF q(2) r(3)] by auto
qed simp

lemma resume_external_cat_keeps:
  assumes ok: "sched_ok st"
  shows "\<exists>rs st'. resume_external_cat st = Inr (rs, st') \<and> keeps {} st st' \<and> sc_deferred st' = [] \<and>
    (\<forall>p. wanted st p \<longrightarrow> pending_path st' p)"
proof -
  let ?st = "st\<lparr>sc_cat_paused := False, sc_cat_owner := None, sc_cat_reason := '''', sc_deferred := []\<rparr>"
  let ?items = "sort_key deferred_order (map snd (sc_deferred st))"
  have d: "distinct (map fst (sc_deferred st))" using ok by (simp add: sched_ok_def)
  have ok': "sched_ok ?st" using ok by (simp add: sched_ok_def)
  have "item_ok (sc_profile st) item" if "item \<in> set ?items" for item
  proof -
    have "item \<in> snd ` set (sc_deferred st)" using that by simp
    then obtain x where "x \<in> set (sc_deferred st)" "item = snd x" by blast
    then have "(fst x, item) \<in> set (sc_deferred st)" by simp
    then obtain key where "(key, item) \<in> set (sc_deferred st)" by blast
    then have "map_of (sc_deferred st) key = Some item" using d by (simp add: map_of_eq_Some_iff)
    then show ?thesis by (rule ok_item [OF ok])
  qed
  then have items: "\<forall>item \<in> set ?items. item_ok (sc_profile ?st) item" by simp
  obtain rs st' where r: "resume_loop (sc_cat_owner st) ?items ?st = Inr (rs, st')" "sched_ok st'"
    "keeps {} ?st st'" "sc_deferred st' = []"
    "\<forall>p. pending_path ?st p \<or> (\<exists>item \<in> set ?items. p \<in> set (pe_paths item)) \<longrightarrow> pending_path st' p"
    using resume_loop_keeps [OF ok' items, of "sc_cat_owner st"] by auto
  have w: "pending_path st' p" if asked: "wanted st p" for p
  proof (cases "pending_path st p")
    case True
    then have "pending_path ?st p" by (simp add: pending_path_def)
    then show ?thesis using r(5) by blast
  next
    case False
    then obtain key item where "map_of (sc_deferred st) key = Some item" "p \<in> set (pe_paths item)"
      using asked unfolding wanted_def deferred_path_def by blast
    then have "item \<in> set ?items" by (force dest: map_of_SomeD)
    then show ?thesis using r(5) \<open>p \<in> set (pe_paths item)\<close> by blast
  qed
  have "keeps {} st st'" using w r(2,3) by (auto simp: keeps_def wanted_def)
  then show ?thesis using r w by (auto simp: resume_external_cat_def)
qed

section \<open>Claims\<close>

lemma try_claim_keeps: "try_claim r claimant generation st = Inr (b, st') \<Longrightarrow> keeps {} st st'"
proof -
  assume t: "try_claim r claimant generation st = Inr (b, st')"
  obtain key where key: "key_of_request r = Inr key" using t by (cases "key_of_request r") (auto simp: try_claim_def)
  let ?c = "\<lparr>cl_claimant = claimant, cl_provider_generation = generation\<rparr>"
  have cases: "st' = st \<or> (\<exists>pending. map_of (sc_requests st) key = Some pending \<and> aq_id pending = aq_id r \<and>
      st' = st\<lparr>sc_claims := AList.update (aq_id r) ?c (sc_claims st)\<rparr>)"
    using t by (auto simp: try_claim_def key Let_def split: option.splits if_splits)
  then show ?thesis
  proof
    assume "\<exists>pending. map_of (sc_requests st) key = Some pending \<and> aq_id pending = aq_id r \<and>
      st' = st\<lparr>sc_claims := AList.update (aq_id r) ?c (sc_claims st)\<rparr>"
    then obtain pending where p: "map_of (sc_requests st) key = Some pending" "aq_id pending = aq_id r"
      "st' = st\<lparr>sc_claims := AList.update (aq_id r) ?c (sc_claims st)\<rparr>" by blast
    have "sched_ok st'" if ok: "sched_ok st"
    proof -
      have "\<exists>key r. map_of (sc_requests st) key = Some r \<and> aq_id r = i"
        if c: "map_of (AList.update (aq_id r) ?c (sc_claims st)) i = Some c" for i c
        using c ok_claim [OF ok, of i c] p(1,2) by (cases "i = aq_id r") (auto simp: update_map)
      then show ?thesis using ok unfolding sched_ok_def p(3) by simp
    qed
    then show ?thesis by (simp add: keeps_def p(3) wanted_def pending_path_def deferred_path_def)
  qed simp
qed

lemma release_claim_keeps: "keeps {} st (release_claim i claimant generation st)"
proof -
  let ?st = "st\<lparr>sc_claims := AList.delete i (sc_claims st)\<rparr>"
  have "sched_ok ?st" if ok: "sched_ok st"
  proof -
    have "\<exists>key r. map_of (sc_requests st) key = Some r \<and> aq_id r = j"
      if "map_of (AList.delete i (sc_claims st)) j = Some c" for j c
      using that ok_claim [OF ok, of j c] by (simp add: delete_map split: if_splits)
    then show ?thesis using ok unfolding sched_ok_def by simp
  qed
  then have "keeps {} st ?st" by (simp add: keeps_def wanted_def pending_path_def deferred_path_def)
  then show ?thesis by (simp add: release_claim_def)
qed

section \<open>The calls of the scheduler\<close>

datatype scheduler_event =
    ENSURE_FRESH "field_path list" rat acquisition_priority string "rat option" bool time
  | DUE_REQUESTS time bool "string option" "(field_path \<times> bool option) list"
  | PRIME_UNOBSERVED "field_path list" string nat "(field_path \<times> bool option) list" time
  | ACQUIRED acquisition_request change_set
  | ACQUIRE_FAILED acquisition_request string "field_path list option" time bool
  | READ_REFUSED "field_path list" time
  | END_REFUSALS "field_path list"
  | PAUSE_CAT "string option" string
  | RESUME_CAT
  | TRY_CLAIM acquisition_request nat int
  | RELEASE_CLAIM nat nat int
  | EXECUTE_STARTED nat "time option"
  | EXECUTE_FINISHED nat
  | DISPATCHED nat "field_path list" time
  | NOTE_TX_ACTIVE bool

text \<open>A call that raises leaves the state: the exceptions are raised before anything is changed.\<close>

definition after_call :: "scheduler \<Rightarrow> ('a \<times> scheduler) result \<Rightarrow> scheduler" where
  "after_call st r = (case r of Inl _ \<Rightarrow> st | Inr (_, st') \<Rightarrow> st')"

fun scheduler_step :: "scheduler \<Rightarrow> scheduler_event \<Rightarrow> scheduler" where
  "scheduler_step st (ENSURE_FRESH paths max_age priority reason timeout fresh now) =
     after_call st (ensure_fresh paths max_age priority reason timeout fresh now st)"
| "scheduler_step st (DUE_REQUESTS now tx observed availability) = snd (due_requests now tx observed availability st)"
| "scheduler_step st (PRIME_UNOBSERVED observed reason limit availability now) =
     after_call st (prime_unobserved observed reason limit availability now st)"
| "scheduler_step st (ACQUIRED r cs) = (case record_acquisition_result r cs st of Inl _ \<Rightarrow> st | Inr st' \<Rightarrow> st')"
| "scheduler_step st (ACQUIRE_FAILED r reason failed now healthy) =
     (case record_acquisition_failure r reason failed now healthy st of Inl _ \<Rightarrow> st | Inr st' \<Rightarrow> st')"
| "scheduler_step st (READ_REFUSED paths now) =
     (case record_read_refusal paths now st of Inl _ \<Rightarrow> st | Inr st' \<Rightarrow> st')"
| "scheduler_step st (END_REFUSALS paths) = end_refusals paths st"
| "scheduler_step st (PAUSE_CAT owner reason) = pause_external_cat owner reason st"
| "scheduler_step st RESUME_CAT = after_call st (resume_external_cat st)"
| "scheduler_step st (TRY_CLAIM r claimant generation) = after_call st (try_claim r claimant generation st)"
| "scheduler_step st (RELEASE_CLAIM i claimant generation) = release_claim i claimant generation st"
| "scheduler_step st (EXECUTE_STARTED i now) = note_execute_started i now st"
| "scheduler_step st (EXECUTE_FINISHED i) = note_execute_finished i st"
| "scheduler_step st (DISPATCHED i paths now) = record_dispatch i paths now st"
| "scheduler_step st (NOTE_TX_ACTIVE tx) = note_tx_active tx st"

definition scheduler_run :: "scheduler \<Rightarrow> scheduler_event list \<Rightarrow> scheduler" where
  "scheduler_run = foldl scheduler_step"

text \<open>The reads an event completes: those of the request answered, those that failed, those refused.\<close>

fun answered :: "scheduler_event \<Rightarrow> field_path set" where
  "answered (ACQUIRED r cs) = set (aq_paths r)"
| "answered (ACQUIRE_FAILED r reason failed now healthy) = failed_set r reason failed healthy"
| "answered (READ_REFUSED paths now) = set paths"
| "answered e = {}"

definition run_ok :: "scheduler \<Rightarrow> bool" where
  "run_ok st \<longleftrightarrow> sched_ok st \<and> profile_ok (sc_profile st)"

lemma run_ok_keeps: "keeps but st st' \<Longrightarrow> run_ok st \<Longrightarrow> run_ok st'"
  by (simp add: run_ok_def keeps_def)

lemma ensure_fresh_after: "sched_ok st \<Longrightarrow> keeps {} st (after_call st (ensure_fresh paths max_age priority reason timeout fresh now st))"
proof (cases "paths \<noteq> [] \<and> 0 < max_age")
  case True
  moreover assume "sched_ok st"
  ultimately show ?thesis
    using ensure_fresh_keeps [of st paths max_age priority reason timeout fresh now] by (auto simp: after_call_def)
next
  case False
  then have "\<exists>e. ensure_fresh paths max_age priority reason timeout fresh now st = Inl e"
    by (auto simp: ensure_fresh_def normalize_paths_def)
  then show ?thesis by (auto simp: after_call_def)
qed

lemma step_keeps:
  assumes "run_ok st" shows "keeps (answered e) st (scheduler_step st e)"
proof -
  have ok: "sched_ok st" and pr: "profile_ok (sc_profile st)" using assms by (simp_all add: run_ok_def)
  show ?thesis
  proof (cases e)
    case (ENSURE_FRESH x1 x2 x3 x4 x5 x6 x7)
    show ?thesis unfolding ENSURE_FRESH scheduler_step.simps answered.simps by (rule ensure_fresh_after [OF ok])
  next
    case (DUE_REQUESTS now tx obs av)
    show ?thesis unfolding DUE_REQUESTS scheduler_step.simps answered.simps
      by (rule due_requests_keeps [OF ok pr]) (rule surjective_pairing)
  next
    case (PRIME_UNOBSERVED obs reason limit av now)
    obtain rs st' where "prime_unobserved obs reason limit av now st = Inr (rs, st')" "keeps {} st st'"
      using prime_unobserved_keeps [OF ok] by blast
    then show ?thesis by (simp add: PRIME_UNOBSERVED after_call_def)
  next
    case (ACQUIRED r cs)
    then show ?thesis using record_acquisition_result_keeps by (simp split: sum.split)
  next
    case (ACQUIRE_FAILED r reason failed now healthy)
    obtain st' where "record_acquisition_failure r reason failed now healthy st = Inr st'"
      "keeps (failed_set r reason failed healthy) st st'"
      using record_acquisition_failure_keeps by blast
    then show ?thesis by (simp add: ACQUIRE_FAILED)
  next
    case (READ_REFUSED paths now)
    obtain st' where "record_read_refusal paths now st = Inr st'" "keeps (set paths) st st'"
      using record_read_refusal_keeps by blast
    then show ?thesis by (simp add: READ_REFUSED)
  next
    case (END_REFUSALS paths)
    show ?thesis unfolding END_REFUSALS by (rule keeps_same) (simp add: end_refusals_def same_tables_def)
  next
    case (PAUSE_CAT owner reason)
    show ?thesis unfolding PAUSE_CAT scheduler_step.simps answered.simps by (rule pause_external_cat_keeps(1) [OF ok])
  next
    case RESUME_CAT
    obtain rs st' where "resume_external_cat st = Inr (rs, st')" "keeps {} st st'"
      using resume_external_cat_keeps [OF ok] by blast
    then show ?thesis by (simp add: RESUME_CAT after_call_def)
  next
    case (TRY_CLAIM r claimant generation)
    then show ?thesis using try_claim_keeps by (auto simp: after_call_def split: sum.split)
  next
    case (RELEASE_CLAIM i claimant generation)
    then show ?thesis using release_claim_keeps by simp
  next
    case (EXECUTE_STARTED i now)
    show ?thesis unfolding EXECUTE_STARTED by (rule keeps_same) (simp add: note_execute_started_def same_tables_def)
  next
    case (EXECUTE_FINISHED i)
    show ?thesis unfolding EXECUTE_FINISHED by (rule keeps_same) (simp add: note_execute_finished_def same_tables_def)
  next
    case (DISPATCHED i paths now)
    show ?thesis unfolding DISPATCHED by (rule keeps_same) (simp add: record_dispatch_def same_tables_def Let_def)
  next
    case (NOTE_TX_ACTIVE tx)
    show ?thesis unfolding NOTE_TX_ACTIVE by (rule keeps_same) (simp add: note_tx_active_def same_tables_def)
  qed
qed

lemma run_keeps:
  assumes "run_ok st" shows "keeps (\<Union>e \<in> set es. answered e) st (scheduler_run st es)"
  using assms
proof (induction es arbitrary: st)
  case Nil
  show ?case by (simp add: scheduler_run_def)
next
  case (Cons e es)
  note k = step_keeps [OF Cons.prems, of e]
  note ih = Cons.IH [OF run_ok_keeps [OF k Cons.prems]]
  have "keeps (\<Union>e \<in> set (e # es). answered e) st (scheduler_step st e)" by (rule keeps_mono [OF k]) auto
  moreover have "keeps (\<Union>e \<in> set (e # es). answered e) (scheduler_step st e) (scheduler_run (scheduler_step st e) es)"
    by (rule keeps_mono [OF ih]) auto
  ultimately have "keeps (\<Union>e \<in> set (e # es). answered e) st (scheduler_run (scheduler_step st e) es)"
    by (rule keeps_trans)
  then show ?case by (simp add: scheduler_run_def)
qed

lemma new_scheduler_ok:
  assumes new: "scheduler_new pr budget = Inr st" and pr: "profile_ok pr"
  shows "run_ok st \<and> sc_profile st = pr"
proof -
  let ?st = "\<lparr>sc_profile = pr, sc_requests = [], sc_deferred = [], sc_cadence = [], sc_timeouts = [],
        sc_refused = [], sc_claims = [], sc_dispatch = [], sc_executing = [], sc_execute_started = [],
        sc_pending_cadence = [], sc_failed_count = 0, sc_failures_by_reason = [],
        sc_startup_defect = None, sc_next_id = 1, sc_prime_cursor = 0, sc_cat_paused = False,
        sc_cat_owner = None, sc_cat_reason = '''', sc_tx_active = True, sc_availability = [],
        sc_demoted = [], sc_fitted_class = [], sc_budget_fit = [], sc_group_receivers = [],
        sc_fits_without_demote = None\<rparr>"
  have ok: "run_ok ?st" using pr by (simp add: run_ok_def sched_ok_def)
  show ?thesis
  proof (cases budget)
    case None
    then have "st = ?st" using new unfolding scheduler_new_def Let_def by simp
    then show ?thesis using ok by simp
  next
    case (Some b)
    have fit: "fit_transport_budget b ?st = Inr st" using new Some by (simp add: scheduler_new_def Let_def)
    obtain groups st1 where g: "poll_cadence_groups ?st = (groups, st1)" by fastforce
    obtain counts rx tx fitted where
      c: "class_demand (sc_profile st1) groups [] 0 0 (sc_fitted_class st1) = (counts, rx, tx, fitted)"
      by (cases "class_demand (sc_profile st1) groups [] 0 0 (sc_fitted_class st1)") auto
    obtain receive transmit where "st = st1\<lparr>sc_fitted_class := fitted, sc_budget_fit := [(False, receive), (True, transmit)],
                     sc_fits_without_demote := Some [(False, receive), (True, transmit)]\<rparr>"
      using fit unfolding fit_transport_budget_def g Let_def prod.case c
      by (simp split: if_splits) (auto simp only: bind_result_Inr_iff sum.inject)
    then have "same_tables st1 st" by (simp add: same_tables_def)
    then have same: "same_tables ?st st" using same_tables_trans poll_cadence_groups_spec [OF g] by blast
    then show ?thesis using run_ok_keeps [OF keeps_same [OF same] ok] by (simp add: same_tables_def)
  qed
qed

end
