(* ===== verification/SchedulerProps.thy ===== *)
theory SchedulerProps
  imports SchedulerRuns
begin

text \<open>
  The properties of the acquisition scheduler, over runs of its calls from a new scheduler: reads are not lost,
  neither over a pause for an external CAT client nor to a late answer; claims are exclusive; polling keeps its
  cadence; priming reaches every field.
\<close>

lemma run_from_new:
  assumes "scheduler_new pr budget = Inr st0" and "mk_acquisition_profile raw = Inr pr"
  shows "run_ok (scheduler_run st0 es) \<and> sc_profile (scheduler_run st0 es) = pr"
proof -
  have "profile_ok pr" using assms(2) by (auto simp: mk_acquisition_profile_def profile_ok_def split: if_splits)
  note new = new_scheduler_ok [OF assms(1) this]
  note k = run_keeps [OF conjunct1 [OF new], of es]
  show ?thesis using run_ok_keeps [OF k] keeps_can_ask [OF k] new by simp
qed

section \<open>Reads are kept\<close>

text \<open>
  C18. A read that was asked for is kept until it is answered. From a new scheduler, after any calls,
  \<open>ensure_fresh\<close> either says that a path cannot be acquired or is withheld, and changes nothing, or every
  path it was given that the radio has not just refused is queued or deferred, and stays so over any further calls
  (polling ticks, priming, pauses and resumes, claims, results and failures of other reads) until a result, a
  failure or a refusal names that path. The table of requests stays consistent: each is filed under the
  key of all its paths, with an id no other has, and only filed requests are claimed.
\<close>

theorem reads_are_kept_until_answered:
  assumes "scheduler_new pr budget = Inr st0" "mk_acquisition_profile raw = Inr pr"
    and st: "st = scheduler_run st0 es"
    and e: "ensure_fresh paths max_age priority reason timeout fresh now st = Inr (res, st1)"
  shows "(if ef_status res = ACQ_UNAVAILABLE then st1 = st
      else \<forall>p \<in> set paths. priority \<notin> set automatic_priorities \<or> \<not> refusal_withheld p now st \<longrightarrow>
        (\<forall>later. p \<notin> (\<Union>e \<in> set later. answered e) \<longrightarrow> wanted (scheduler_run st1 later) p)) \<and>
    (\<forall>later. sched_ok (scheduler_run st1 later))"
proof -
  have ok: "run_ok st" unfolding st using run_from_new [OF assms(1,2)] by blast
  then have ok': "sched_ok st" by (simp add: run_ok_def)
  have args: "paths \<noteq> []" "0 < max_age"
    using e by (auto simp: ensure_fresh_def normalize_paths_def split: if_splits)
  note s = ensure_fresh_keeps [OF ok' args, of priority reason timeout fresh now]
  have k: "keeps {} st st1" "ef_status res = ACQ_UNAVAILABLE \<longrightarrow> st1 = st"
    "ef_status res \<noteq> ACQ_UNAVAILABLE \<longrightarrow> (\<forall>p \<in> set paths. wanted st1 p \<or>
        (priority \<in> set automatic_priorities \<and> refusal_withheld p now st))"
    using s unfolding e by auto
  have ok1: "run_ok st1" by (rule run_ok_keeps [OF k(1) ok])
  have "wanted (scheduler_run st1 later) p"
    if "wanted st1 p" "p \<notin> (\<Union>e \<in> set later. answered e)" for p later
    using run_keeps [OF ok1, of later] that ok1 unfolding keeps_def run_ok_def by blast
  moreover have "sched_ok (scheduler_run st1 later)" for later
    using run_ok_keeps [OF run_keeps [OF ok1] ok1] by (simp add: run_ok_def)
  ultimately show ?thesis using k(2,3) by auto
qed

section \<open>External CAT\<close>

lemma queue_group_paused: "queue_group key paths qa st = (r, st') \<Longrightarrow> sc_cat_paused st' = sc_cat_paused st"
  by (auto simp: queue_group_def reissue_def forget_dispatch_def new_request_def Let_def
      split: option.splits if_splits prod.splits)

lemma queue_grouped_paused: "queue_grouped groups qa st = (rs, st') \<Longrightarrow> sc_cat_paused st' = sc_cat_paused st"
  by (induction groups qa st arbitrary: rs st' rule: queue_grouped.induct)
    (auto simp: Let_def split: prod.splits dest: queue_group_paused)

lemma resume_loop_paused: "resume_loop owner items st = Inr (rs, st') \<Longrightarrow> sc_cat_paused st' = sc_cat_paused st"
proof (induction items arbitrary: st rs)
  case (Cons item items)
  obtain qs st1 rs' where q: "queue_paths (pe_paths item)
       \<lparr>qa_max_age = pe_max_age item, qa_priority = pe_priority item, qa_reason = pe_reason item,
        qa_reasons = pe_reasons item, qa_timeout = pe_timeout item, qa_requested_at = pe_requested_at item,
        qa_external_cat_owner = (case pe_external_cat_owner item of Some (c # cs) \<Rightarrow> Some (c # cs) | _ \<Rightarrow> owner),
        qa_deadline = pe_deadline item, qa_require_fresh_dispatch = False\<rparr> st = Inr (qs, st1)"
    "resume_loop owner items st1 = Inr (rs', st')"
    using Cons.prems by (auto simp: bind_result_Inr_iff)
  then have "sc_cat_paused st1 = sc_cat_paused st"
    unfolding queue_paths_def bind_result_Inr_iff by (auto dest: queue_grouped_paused)
  then show ?case using Cons.IH [OF q(2)] by simp
qed simp

lemma resume_external_cat_unpaused: "resume_external_cat st = Inr (rs, st') \<Longrightarrow> \<not> sc_cat_paused st'"
  unfolding resume_external_cat_def by (drule resume_loop_paused) simp

text \<open>
  C19. A pause for an external CAT client loses no read and a resume always succeeds. When \<open>pause_external_cat\<close>
  returns, no request is left in the queue that the pause policy of its fields defers; a read that was wanted
  before the pause is still wanted over any calls during it that do not answer it; and \<open>resume_external_cat\<close>
  then puts every wanted read back into the queue, with nothing left deferred, and never raises.
\<close>

theorem external_cat_pause_loses_nothing:
  assumes "scheduler_new pr budget = Inr st0" "mk_acquisition_profile raw = Inr pr"
    and st: "st = scheduler_run st0 es" and p: "wanted st p"
    and during: "p \<notin> (\<Union>e \<in> set meanwhile. answered e)"
  shows "(\<forall>r \<in> set (pending_requests (pause_external_cat owner reason st)).
        \<not> must_defer_for_external_cat (aq_paths r) (pause_external_cat owner reason st)) \<and>
    (\<exists>rs st2. resume_external_cat (scheduler_run (pause_external_cat owner reason st) meanwhile) = Inr (rs, st2) \<and>
       \<not> sc_cat_paused st2 \<and> sc_deferred st2 = [] \<and> (\<exists>r \<in> set (pending_requests st2). p \<in> set (aq_paths r)))"
proof -
  let ?st1 = "pause_external_cat owner reason st"
  have ok: "run_ok st" unfolding st using run_from_new [OF assms(1,2)] by blast
  then have ok': "sched_ok st" by (simp add: run_ok_def)
  note pause = pause_external_cat_keeps [OF ok', of owner reason]
  have ok1: "run_ok ?st1" by (rule run_ok_keeps [OF pause(1) ok])
  have prof: "sc_profile ?st1 = sc_profile st" by (rule keeps_can_ask [OF pause(1)])
  have "\<not> must_defer_for_external_cat (aq_paths r) ?st1" if r: "r \<in> set (pending_requests ?st1)" for r
  proof -
    have "r \<in> snd ` set (sc_requests ?st1)" using r by (simp add: pending_requests_def)
    then obtain x where "x \<in> set (sc_requests ?st1)" "r = snd x" by blast
    then have "(fst x, r) \<in> set (sc_requests ?st1)" by simp
    moreover have "distinct (map fst (sc_requests ?st1))" using ok1 by (simp add: run_ok_def sched_ok_def)
    ultimately have "map_of (sc_requests ?st1) (fst x) = Some r" by simp
    from pause(2) [OF this] show ?thesis using must_defer_cong [OF prof] by simp
  qed
  moreover have "\<exists>rs st2. resume_external_cat (scheduler_run ?st1 meanwhile) = Inr (rs, st2) \<and>
       \<not> sc_cat_paused st2 \<and> sc_deferred st2 = [] \<and> (\<exists>r \<in> set (pending_requests st2). p \<in> set (aq_paths r))"
  proof -
    let ?mid = "scheduler_run ?st1 meanwhile"
    note k = run_keeps [OF ok1, of meanwhile]
    have okm: "sched_ok ?mid" using run_ok_keeps [OF k ok1] by (simp add: run_ok_def)
    have "wanted ?st1 p" using pause(1) ok' p by (simp add: keeps_def)
    then have w: "wanted ?mid p" using k ok1 during unfolding keeps_def run_ok_def by blast
    obtain rs st2 where r: "resume_external_cat ?mid = Inr (rs, st2)" "sc_deferred st2 = []"
      "\<forall>p. wanted ?mid p \<longrightarrow> pending_path st2 p"
      using resume_external_cat_keeps [OF okm] by blast
    have "pending_path st2 p" using r(3) w by blast
    then obtain key q where q: "map_of (sc_requests st2) key = Some q" "p \<in> set (aq_paths q)"
      unfolding pending_path_def by blast
    then have "q \<in> set (pending_requests st2)"
      unfolding pending_requests_def by (force dest: map_of_SomeD)
    moreover have "\<not> sc_cat_paused st2" using r(1) by (rule resume_external_cat_unpaused)
    ultimately show ?thesis using r q(2) by blast
  qed
  ultimately show ?thesis by blast
qed

section \<open>Claims\<close>

text \<open>
  A claim is exclusive. In any state of a run, once \<open>try_claim\<close> has given a request to a claimant, that
  claim is current, the request is filed and no other request has its id; a claimant of the same or an older
  provider generation that then tries is refused and changes nothing, and the release of a claim that is not the
  current one changes nothing either.
\<close>

theorem claims_are_exclusive:
  assumes "scheduler_new pr budget = Inr st0" "mk_acquisition_profile raw = Inr pr"
    and st: "st = scheduler_run st0 es"
    and claim: "try_claim r claimant generation st = Inr (True, st1)"
    and other: "(claimant', generation') \<noteq> (claimant, generation)"
  shows "claim_is_current r claimant generation st1 \<and>
    (\<exists>!key. \<exists>q. map_of (sc_requests st1) key = Some q \<and> aq_id q = aq_id r) \<and>
    (generation' \<le> generation \<longrightarrow> try_claim r claimant' generation' st1 = Inr (False, st1)) \<and>
    release_claim (aq_id r) claimant' generation' st1 = st1"
proof -
  have ok: "sched_ok st" unfolding st using run_from_new [OF assms(1,2)] by (simp add: run_ok_def)
  have ok1: "sched_ok st1" by (rule keeps_ok [OF try_claim_keeps [OF claim] ok])
  obtain key where key: "key_of_request r = Inr key" using claim by (cases "key_of_request r") (auto simp: try_claim_def)
  obtain q where q: "map_of (sc_requests st) key = Some q" "aq_id q = aq_id r"
    using claim by (auto simp: try_claim_def key Let_def split: option.splits if_splits)
  have same: "sc_requests st1 = sc_requests st"
    using claim by (auto simp: try_claim_def key Let_def split: option.splits if_splits)
  have cur: "map_of (sc_claims st1) (aq_id r) = Some \<lparr>cl_claimant = claimant, cl_provider_generation = generation\<rparr>"
  proof (cases "map_of (sc_claims st) (aq_id r)")
    case None
    then show ?thesis using claim q by (auto simp: try_claim_def key Let_def update_map)
  next
    case (Some c)
    then show ?thesis using claim q by (cases c) (auto simp: try_claim_def key Let_def update_map split: if_splits)
  qed
  have "\<exists>!key. \<exists>q. map_of (sc_requests st1) key = Some q \<and> aq_id q = aq_id r"
  proof (rule ex1I [of _ key])
    show "\<exists>q. map_of (sc_requests st1) key = Some q \<and> aq_id q = aq_id r" using q same by simp
    fix k
    assume "\<exists>q'. map_of (sc_requests st1) k = Some q' \<and> aq_id q' = aq_id r"
    then obtain q' where "map_of (sc_requests st1) k = Some q'" "aq_id q' = aq_id r" by blast
    then show "k = key" using ok_ids [OF ok1, of k q' key q] q same by simp
  qed
  moreover have "try_claim r claimant' generation' st1 = Inr (False, st1)" if "generation' \<le> generation"
    using that other q cur unfolding try_claim_def key bind_result.simps same Let_def by auto
  moreover have "release_claim (aq_id r) claimant' generation' st1 = st1"
    using other cur by (auto simp: release_claim_def)
  ultimately show ?thesis using cur by (simp add: claim_is_current_def)
qed

section \<open>Late answers\<close>

lemma queued_result_status [simp]: "ef_status (queued_result rs) \<noteq> ACQ_UNAVAILABLE"
  by (simp add: queued_result_def split: list.split)



section \<open>What the calls leave alone\<close>

text \<open>The profile, the refusals, the priming cursor, the fitted classes and their fits.\<close>

definition calm :: "scheduler \<Rightarrow> scheduler \<Rightarrow> bool" where
  "calm st st' \<longleftrightarrow> sc_refused st' = sc_refused st \<and> sc_prime_cursor st' = sc_prime_cursor st \<and>
     sc_fitted_class st' = sc_fitted_class st \<and> sc_budget_fit st' = sc_budget_fit st \<and> sc_profile st' = sc_profile st"

lemma calm_refl [simp]: "calm st st"
  by (simp add: calm_def)

lemma calm_trans: "calm st st' \<Longrightarrow> calm st' st'' \<Longrightarrow> calm st st''"
  by (simp add: calm_def)

lemma queue_group_calm: "queue_group key paths qa st = (r, st') \<Longrightarrow> calm st st' \<and> sc_cadence st' = sc_cadence st"
  by (auto simp: calm_def queue_group_def reissue_def forget_dispatch_def new_request_def Let_def
      split: option.splits if_splits prod.splits)



lemma defer_item_calm: "calm st (defer_item key item st) \<and> sc_cadence (defer_item key item st) = sc_cadence st"
  by (simp add: calm_def defer_item_def)



lemma cadence_state_for_calm: "cadence_state_for key c now st = (s, st') \<Longrightarrow> calm st st'"
  by (auto simp: calm_def cadence_state_for_def Let_def split: option.splits)

lemma poll_cadence_groups_calm:
  "poll_cadence_groups st = (groups, st') \<Longrightarrow> calm st st' \<and> sc_cadence st' = sc_cadence st \<and> sc_demoted st' = sc_demoted st"
  by (auto simp: calm_def poll_cadence_groups_def Let_def)

lemma demote_queue_envelopes_calm:
  "demote_queue_envelopes a st = (e, st') \<Longrightarrow> calm st st' \<and> sc_cadence st' = sc_cadence st"
  by (auto simp: demote_queue_envelopes_def Let_def split: prod.splits dest: poll_cadence_groups_calm)



lemma due_loop_calm: "due_loop now tx av groups st = (due, st') \<Longrightarrow> calm st st'"
proof (induction groups arbitrary: st due st')
  case (Cons g groups)
  obtain key paths where g: "g = (key, paths)" by (cases g)
  obtain s st1 where c: "cadence_state_for key (key_cadence key) now st = (s, st1)" by fastforce
  obtain due1 st2 where d: "due_loop now tx av groups st1 = (due1, st2)" by fastforce
  show ?case
    using Cons.prems Cons.IH [of st] Cons.IH [OF d] calm_trans [OF cadence_state_for_calm [OF c]]
    by (simp add: g c d Let_def split: if_splits)
qed simp

text \<open>A due group is deferred under its key, or queued under it.\<close>

lemma queue_due_Cons:
  "\<exists>item qa. queue_due now ((key, paths) # due) st =
     (if sc_cat_paused st \<and> must_defer_for_external_cat paths st then queue_due now due (defer_item key item st)
      else case queue_group key paths qa st of (r, st1) \<Rightarrow> case queue_due now due st1 of (rs, st2) \<Rightarrow> (r # rs, st2))"
  unfolding queue_due.simps Let_def queue_grouped.simps by (simp add: split_beta) blast

lemma queue_due_calm: "queue_due now due st = (rs, st') \<Longrightarrow> calm st st' \<and> sc_cadence st' = sc_cadence st"
proof (induction due arbitrary: st rs)
  case (Cons d due)
  obtain key paths where d: "d = (key, paths)" by (cases d)
  obtain item qa where eq: "queue_due now ((key, paths) # due) st =
     (if sc_cat_paused st \<and> must_defer_for_external_cat paths st then queue_due now due (defer_item key item st)
      else case queue_group key paths qa st of (r, st1) \<Rightarrow> case queue_due now due st1 of (rs, st2) \<Rightarrow> (r # rs, st2))"
    using queue_due_Cons by blast
  show ?case
  proof (cases "sc_cat_paused st \<and> must_defer_for_external_cat paths st")
    case True
    then show ?thesis using Cons.IH [of "defer_item key item st" rs] defer_item_calm [of st key item] Cons.prems eq d
      by (auto intro: calm_trans)
  next
    case False
    obtain r st1 where q: "queue_group key paths qa st = (r, st1)" by fastforce
    obtain rs1 st2 where s: "queue_due now due st1 = (rs1, st2)" by fastforce
    have "st2 = st'" using Cons.prems False q s by (simp only: d eq if_not_P prod.case) simp
    then show ?thesis using Cons.IH [OF s [unfolded \<open>st2 = st'\<close>]] queue_group_calm [OF q] by (auto intro: calm_trans)
  qed
qed simp

lemma due_requests_calm: "calm st (snd (due_requests now tx obs av st))"
proof -
  define st1 where "st1 = st\<lparr>sc_tx_active := tx, sc_availability := av\<rparr>"
  define st3 where "st3 = (case obs of None \<Rightarrow> st1\<lparr>sc_demoted := []\<rparr>
     | Some active \<Rightarrow> let (envelopes, st2) = demote_queue_envelopes active st1
          in flip_hygiene (st2\<lparr>sc_demoted := envelopes\<rparr>))"
  obtain due st4 where l: "due_poll_groups now tx av st3 = (due, st4)" by fastforce
  obtain rs st' where q: "queue_due now due st4 = (rs, st')" by fastforce
  have eq: "due_requests now tx obs av st = (rs, st')"
    using q l by (simp add: due_requests_def st1_def st3_def Let_def split: option.splits prod.splits)
  have "calm st st3"
  proof (cases obs)
    case None
    then show ?thesis by (simp add: st3_def st1_def calm_def)
  next
    case (Some a)
    obtain e st2 where e: "demote_queue_envelopes a st1 = (e, st2)" by fastforce
    have "calm st1 st3" using demote_queue_envelopes_calm [OF e] by (simp add: st3_def Some e calm_def flip_hygiene_def)
    then show ?thesis by (simp add: st1_def calm_def)
  qed
  moreover have "calm st3 st4"
    using l due_loop_calm poll_cadence_groups_calm unfolding due_poll_groups_def
    by (metis (no_types, lifting) calm_trans case_prod_conv old.prod.exhaust)
  ultimately show ?thesis using queue_due_calm [OF q] eq by (simp add: calm_def)
qed










section \<open>Priming\<close>





lemma scheduler_run_Cons: "scheduler_run st (e # es) = scheduler_run (scheduler_step st e) es"
  by (simp add: scheduler_run_def)


section \<open>Cadence\<close>

text \<open>Which groups a tick asks for.\<close>

definition next_due :: "acquisition_key \<Rightarrow> time \<Rightarrow> scheduler \<Rightarrow> time" where
  "next_due key now st = (case map_of (sc_cadence st) key of None \<Rightarrow> now | Some s \<Rightarrow> cd_next_due s)"

definition may_poll :: "time \<Rightarrow> bool \<Rightarrow> (field_path \<times> bool option) list \<Rightarrow> acquisition_key \<Rightarrow> field_path list \<Rightarrow> scheduler \<Rightarrow> bool" where
  "may_poll now tx av key paths st \<longleftrightarrow>
     map_of (sc_requests st) key = None \<and> map_of (sc_deferred st) key = None \<and> ap_cadence (rk_policy key) \<noteq> None \<and>
     (ap_tx_only (rk_policy key) \<longrightarrow> tx) \<and> \<not> list_all (contradicted av) paths \<and>
     (\<exists>p \<in> set paths. \<not> refusal_withheld p now st)"

lemma due_loop_exact:
  "due_loop now tx av groups st = (due, st') \<Longrightarrow> distinct (map fst groups) \<Longrightarrow>
   key \<in> fst ` set due \<longleftrightarrow> (\<exists>paths. (key, paths) \<in> set groups \<and> may_poll now tx av key paths st \<and> next_due key now st \<le> now)"
proof (induction groups arbitrary: st due st')
  case (Cons g groups)
  obtain k paths where g: "g = (k, paths)" by (cases g)
  have d: "distinct (map fst groups)" "k \<notin> fst ` set groups" using Cons.prems(2) by (simp_all add: g)
  let ?asked = "filter (\<lambda>p. \<not> refusal_withheld p now st) paths"
  have asked: "?asked = [] \<longleftrightarrow> \<not> (\<exists>p \<in> set paths. \<not> refusal_withheld p now st)" by (auto simp: filter_empty_conv)
  show ?case
  proof (cases "may_poll now tx av k paths st")
    case False
    then have "due_loop now tx av groups st = (due, st')"
      using Cons.prems(1) asked by (simp add: g may_poll_def Let_def split: if_splits)
    then show ?thesis using Cons.IH [OF _ d(1)] False by (auto simp: g)
  next
    case True
    obtain s st1 where c: "cadence_state_for k (key_cadence k) now st = (s, st1)" by fastforce
    obtain due1 st2 where l: "due_loop now tx av groups st1 = (due1, st2)" by fastforce
    have due: "due = (if cd_next_due s \<le> now then (k, sort_key path_str ?asked) # due1 else due1)"
      using Cons.prems(1) True asked l unfolding g due_loop.simps may_poll_def by (auto simp: c Let_def split: prod.splits)
    have s: "cd_next_due s = next_due k now st"
      using c by (auto simp: cadence_state_for_def next_due_def Let_def split: option.splits)
    have same: "sc_requests st1 = sc_requests st" "sc_deferred st1 = sc_deferred st" "sc_refused st1 = sc_refused st"
      "k' \<noteq> k \<Longrightarrow> map_of (sc_cadence st1) k' = map_of (sc_cadence st) k'" for k'
      using c by (auto simp: cadence_state_for_def Let_def update_map split: option.splits)
    have eq: "may_poll now tx av key ps st1 = may_poll now tx av key ps st" for ps
      by (simp add: may_poll_def same refusal_withheld_def)
    have nd: "key \<noteq> k \<Longrightarrow> next_due key now st1 = next_due key now st" by (simp add: next_due_def same(4))
    show ?thesis
    proof (cases "key = k")
      case True
      then have "key \<notin> fst ` set due1" using Cons.IH [OF l d(1)] d(2) by force
      then show ?thesis using True \<open>may_poll now tx av k paths st\<close> d(2) unfolding due g s by force
    next
      case False
      then show ?thesis using Cons.IH [OF l d(1)] nd unfolding due g eq by auto
    qed
  qed
qed simp

lemma next_cadence_bounds:
  "base \<le> next_cadence pol base previous changed \<and> (changed \<or> \<not> ad_enabled (ap_decay pol) \<longrightarrow> next_cadence pol base previous changed = base) \<and>
   (\<forall>limit. adaptive_cadence_limit pol = Some limit \<longrightarrow> next_cadence pol base previous changed \<le> max base limit)"
  by (auto simp: next_cadence_def Let_def split: option.split)

lemma cadence_state_for_due: "cadence_state_for key c now st = (s, st') \<Longrightarrow>
    sc_refused st' = sc_refused st \<and> sc_requests st' = sc_requests st \<and> sc_deferred st' = sc_deferred st"
  by (auto simp: cadence_state_for_def Let_def split: option.splits)

text \<open>A read of the group is filed, or deferred while external CAT has the radio.\<close>

definition asked :: "acquisition_key \<Rightarrow> scheduler \<Rightarrow> bool" where
  "asked key st \<longleftrightarrow> map_of (sc_requests st) key \<noteq> None \<or> map_of (sc_deferred st) key \<noteq> None"

text \<open>Whether a tick may ask for the group: it is neither confined to transmit, nor wholly absent, nor wholly withheld.\<close>

definition group_open :: "time \<Rightarrow> bool \<Rightarrow> (field_path \<times> bool option) list \<Rightarrow> acquisition_key \<Rightarrow> field_path list \<Rightarrow> scheduler \<Rightarrow> bool" where
  "group_open now tx av key paths st \<longleftrightarrow> (ap_tx_only (rk_policy key) \<longrightarrow> tx) \<and> \<not> list_all (contradicted av) paths \<and>
     (\<exists>p \<in> set paths. \<not> refusal_withheld p now st)"

text \<open>A tick drops no clock that is not slower than the cadence of a group that is not demoted.\<close>

definition keeps_clock :: "rat \<Rightarrow> acquisition_key \<Rightarrow> bool \<Rightarrow> string option \<Rightarrow> scheduler \<Rightarrow> bool" where
  "keeps_clock c key tx observed st \<longleftrightarrow> observed = None \<or>
     c \<le> fitted_cadence key (key_cadence key) (st\<lparr>sc_demoted := [], sc_tx_active := tx\<rparr>) + FIT_EPSILON"

lemma queue_group_asked: "queue_group k paths qa st = (r, st') \<Longrightarrow> asked key st' \<longleftrightarrow> asked key st \<or> key = k"
  by (auto simp: asked_def queue_group_def reissue_def forget_dispatch_def new_request_def Let_def update_map
      split: option.splits if_splits prod.splits)

lemma defer_item_asked: "asked key (defer_item k item st) \<longleftrightarrow> asked key st \<or> key = k"
  by (auto simp: asked_def defer_item_def update_map)

lemma queue_due_asked: "queue_due now due st = (rs, st') \<Longrightarrow> asked key st' \<longleftrightarrow> asked key st \<or> key \<in> fst ` set due"
proof (induction due arbitrary: st rs)
  case (Cons d due)
  obtain k paths where d: "d = (k, paths)" by (cases d)
  obtain item qa where eq: "queue_due now ((k, paths) # due) st =
     (if sc_cat_paused st \<and> must_defer_for_external_cat paths st then queue_due now due (defer_item k item st)
      else case queue_group k paths qa st of (r, st1) \<Rightarrow> case queue_due now due st1 of (rs, st2) \<Rightarrow> (r # rs, st2))"
    using queue_due_Cons by blast
  show ?case
  proof (cases "sc_cat_paused st \<and> must_defer_for_external_cat paths st")
    case True
    then show ?thesis using Cons.IH [of "defer_item k item st" rs] defer_item_asked [of key k item st] Cons.prems eq d by simp
  next
    case False
    obtain r st1 where q: "queue_group k paths qa st = (r, st1)" by fastforce
    obtain rs1 st2 where s: "queue_due now due st1 = (rs1, st2)" by fastforce
    have "st2 = st'" using Cons.prems False q s by (simp only: d eq if_not_P prod.case) simp
    then show ?thesis using Cons.IH [OF s [unfolded \<open>st2 = st'\<close>]] queue_group_asked [OF q] d by simp
  qed
qed simp

lemma due_loop_clock: "due_loop now tx av groups st = (due, st') \<Longrightarrow> map_of (sc_cadence st) key = Some s \<Longrightarrow>
    map_of (sc_cadence st') key = Some s"
proof (induction groups arbitrary: st due st')
  case (Cons g groups)
  obtain k paths where g: "g = (k, paths)" by (cases g)
  obtain s' st1 where c: "cadence_state_for k (key_cadence k) now st = (s', st1)" by fastforce
  obtain due1 st2 where d: "due_loop now tx av groups st1 = (due1, st2)" by fastforce
  have "map_of (sc_cadence st1) key = Some s"
    using c Cons.prems(2) by (auto simp: cadence_state_for_def Let_def update_map split: option.splits)
  then show ?case using Cons.prems Cons.IH [of st] Cons.IH [OF d] by (simp add: g c d Let_def split: if_splits)
qed simp

lemma map_of_filter_kept: "map_of xs k = Some v \<Longrightarrow> P (k, v) \<Longrightarrow> map_of (filter P xs) k = Some v"
  by (induction xs) (auto split: if_splits)

lemma demote_queue_envelopes_state:
  "demote_queue_envelopes a st = (e, st') \<Longrightarrow> \<exists>receivers. st' = st\<lparr>sc_group_receivers := receivers\<rparr>"
  by (auto simp: demote_queue_envelopes_def poll_cadence_groups_def Let_def)

text \<open>A tick that drops no faster clock asks for the group exactly when the clock has passed and the group is open.\<close>

lemma tick_asks:
  assumes pok: "profile_ok (sc_profile st)" and group: "map_of (poll_groups (sc_profile st)) key = Some paths"
    and declared: "ap_cadence (rk_policy key) \<noteq> None" and unasked: "\<not> asked key st"
    and clock: "map_of (sc_cadence st) key = Some s" and kept: "keeps_clock (cd_current s) key tx obs st"
    and tick: "st' = snd (due_requests now tx obs av st)"
  shows "(asked key st' \<longleftrightarrow> cd_next_due s \<le> now \<and> group_open now tx av key paths st) \<and> map_of (sc_cadence st') key = Some s"
proof -
  define st1 where "st1 = st\<lparr>sc_tx_active := tx, sc_availability := av\<rparr>"
  define st3 where "st3 = (case obs of None \<Rightarrow> st1\<lparr>sc_demoted := []\<rparr>
     | Some active \<Rightarrow> let (envelopes, st2) = demote_queue_envelopes active st1
          in flip_hygiene (st2\<lparr>sc_demoted := envelopes\<rparr>))"
  obtain groups st3' where g: "poll_cadence_groups st3 = (groups, st3')" by fastforce
  obtain due st4 where l: "due_loop now tx av groups st3' = (due, st4)" by fastforce
  obtain rs st5 where q: "queue_due now due st4 = (rs, st5)" by fastforce
  have "due_poll_groups now tx av st3 = (due, st4)" using l g by (simp add: due_poll_groups_def)
  then have st': "st' = st5"
    using q by (simp add: tick due_requests_def st1_def st3_def Let_def split: option.splits prod.splits)
  have c3: "map_of (sc_cadence st3) key = Some s \<and> sc_refused st3 = sc_refused st \<and> same_tables st st3"
  proof (cases obs)
    case None
    then show ?thesis using clock by (simp add: st3_def st1_def same_tables_def)
  next
    case (Some a)
    obtain e st2 where e: "demote_queue_envelopes a st1 = (e, st2)" by fastforce
    obtain receivers where st2: "st2 = st1\<lparr>sc_group_receivers := receivers\<rparr>" using demote_queue_envelopes_state [OF e] by blast
    have "map_of e key \<noteq> None \<or> \<not> cd_current s > fitted_cadence key (key_cadence key) (st2\<lparr>sc_demoted := e\<rparr>) + FIT_EPSILON"
      using kept by (auto simp: keeps_clock_def Some fitted_cadence_def st2 st1_def split: option.splits)
    then have "map_of (sc_cadence (flip_hygiene (st2\<lparr>sc_demoted := e\<rparr>))) key = Some s"
      unfolding flip_hygiene_def using clock by (simp add: map_of_filter_kept st2 st1_def)
    moreover have "st3 = flip_hygiene (st2\<lparr>sc_demoted := e\<rparr>)" by (simp add: st3_def Some e)
    ultimately show ?thesis by (simp add: flip_hygiene_def st2 st1_def same_tables_def)
  qed
  have g3: "groups = poll_groups (sc_profile st)" "same_tables st st3'"
    using poll_cadence_groups_spec [OF g] c3 same_tables_trans by (auto simp: same_tables_def)
  have s3: "sc_cadence st3' = sc_cadence st3" "sc_refused st3' = sc_refused st3"
    using g by (auto simp: poll_cadence_groups_def Let_def)
  have d: "distinct (map fst groups)" using poll_groups_ok [OF pok] g3(1) by (simp add: groups_ok_def)
  then have mem: "(key, ps) \<in> set groups \<longleftrightarrow> ps = paths" for ps using group g3(1)
    by (metis map_of_is_SomeI map_of_SomeD option.inject)
  have "may_poll now tx av key paths st3' \<longleftrightarrow> group_open now tx av key paths st"
    using g3(2) unasked declared c3 by (simp add: may_poll_def group_open_def asked_def same_tables_def refusal_withheld_def s3)
  moreover have "next_due key now st3' = cd_next_due s" using c3 by (simp add: next_due_def s3)
  moreover have "\<not> asked key st4"
    using unasked g3(2) due_loop_tables [OF l] by (simp add: asked_def same_tables_def)
  moreover have "map_of (sc_cadence st5) key = Some s"
    using due_loop_clock [OF l, of key s] c3 s3 queue_due_calm [OF q] by simp
  ultimately show ?thesis
    using due_loop_exact [OF l d, of key] queue_due_asked [OF q, of key] mem st' by auto
qed

text \<open>Ticks after another.\<close>

definition ticks_run :: "scheduler \<Rightarrow> (time \<times> bool \<times> string option \<times> (field_path \<times> bool option) list) list \<Rightarrow> scheduler" where
  "ticks_run st ticks = scheduler_run st (map (\<lambda>(now, tx, obs, av). DUE_REQUESTS now tx obs av) ticks)"

lemma ticks_run_simps [simp]:
  "ticks_run st [] = st" "ticks_run st ((now, tx, obs, av) # ticks) = ticks_run (snd (due_requests now tx obs av st)) ticks"
  by (simp_all add: ticks_run_def scheduler_run_Cons) (simp add: scheduler_run_def)

lemma keeps_clock_calm: "calm st st' \<Longrightarrow> keeps_clock c key tx obs st' = keeps_clock c key tx obs st"
  by (simp add: keeps_clock_def fitted_cadence_def calm_def cong: option.case_cong)

lemma group_open_calm: "calm st st' \<Longrightarrow> group_open now tx av key paths st' = group_open now tx av key paths st"
  by (simp add: group_open_def refusal_withheld_def calm_def)

lemma ticks_wait:
  assumes "profile_ok (sc_profile st)" "map_of (poll_groups (sc_profile st)) key = Some paths"
    and "ap_cadence (rk_policy key) \<noteq> None" "\<not> asked key st" "map_of (sc_cadence st) key = Some s"
    and "\<forall>(now, tx, obs, av) \<in> set ticks. keeps_clock (cd_current s) key tx obs st \<and>
      \<not> (cd_next_due s \<le> now \<and> group_open now tx av key paths st)"
  shows "calm st (ticks_run st ticks) \<and> \<not> asked key (ticks_run st ticks) \<and> map_of (sc_cadence (ticks_run st ticks)) key = Some s"
  using assms
proof (induction ticks arbitrary: st)
  case (Cons t ticks)
  obtain now tx obs av where t: "t = (now, tx, obs, av)" by (cases t)
  let ?st = "snd (due_requests now tx obs av st)"
  have c: "calm st ?st" by (rule due_requests_calm)
  have one: "\<not> asked key ?st" "map_of (sc_cadence ?st) key = Some s"
    using tick_asks [OF Cons.prems(1-5) _ refl, of tx obs now av] Cons.prems(6) by (auto simp: t)
  have "sc_profile ?st = sc_profile st" using c by (simp add: calm_def)
  then have "calm ?st (ticks_run ?st ticks) \<and> \<not> asked key (ticks_run ?st ticks) \<and> map_of (sc_cadence (ticks_run ?st ticks)) key = Some s"
    using Cons.IH [of ?st] Cons.prems one keeps_clock_calm [OF c] group_open_calm [OF c] by auto
  then show ?case using c calm_trans by (auto simp: t)
qed simp

text \<open>
  C21. Polling keeps its cadence. When a filed request that covers the whole poll group of its key has been answered, the group's clock is
  \<open>c\<close> seconds after the answer, where \<open>c\<close> is at least the group's (fitted or demoted) cadence, exactly that when a
  value of the request has changed or the policy does not decay, and at most the larger of it and the decay limit (half the
  freshness TTL or the maximum cadence). From then on a tick (\<open>due_requests\<close>) asks for the group exactly when the clock has
  passed and the group is open (not confined to transmit, wholly declared absent, or all withheld after refusals): any
  number of earlier ticks ask for none of it, and the first such tick does. The ticks are those that find no active
  receiver, or have no faster cadence for the group than \<open>c\<close>: a tick that has one drops the clock and asks at once
  (\<open>observed_receiver_undoes_the_decay\<close>).
\<close>

theorem polling_keeps_its_cadence:
  assumes "scheduler_new pr budget = Inr st0" "mk_acquisition_profile raw = Inr pr"
    and st: "st = scheduler_run st0 es"
    and r: "map_of (sc_requests st) key = Some r" "map_of (sc_deferred st) key = None"
    and group: "map_of (poll_groups pr) key = Some paths" "set paths \<subseteq> set (aq_paths r)"
    and declared: "ap_cadence (rk_policy key) = Some declared"
    and res: "record_acquisition_result r cs st = Inr st1"
  shows "\<exists>c. map_of (sc_cadence st1) key = Some \<lparr>cd_current = c, cd_next_due = cs_timestamp_monotonic cs + c\<rparr> \<and>
    fitted_cadence key declared st \<le> c \<and>
    (list_ex (\<lambda>ch. fc_path ch \<in> set (aq_paths r)) (cs_changes cs) \<or> \<not> ad_enabled (ap_decay (rk_policy key)) \<longrightarrow>
      c = fitted_cadence key declared st) \<and>
    (\<forall>limit. adaptive_cadence_limit (rk_policy key) = Some limit \<longrightarrow> c \<le> max (fitted_cadence key declared st) limit) \<and>
    (\<forall>ticks. (\<forall>(now, tx, obs, av) \<in> set ticks. keeps_clock c key tx obs st1 \<and>
        \<not> (cs_timestamp_monotonic cs + c \<le> now \<and> group_open now tx av key paths st1)) \<longrightarrow>
      \<not> asked key (ticks_run st1 ticks) \<and>
      (\<forall>now tx obs av. keeps_clock c key tx obs st1 \<longrightarrow>
        (asked key (snd (due_requests now tx obs av (ticks_run st1 ticks))) \<longleftrightarrow>
          cs_timestamp_monotonic cs + c \<le> now \<and> group_open now tx av key paths st1)))"
proof -
  have run: "run_ok st" "sc_profile st = pr" unfolding st using run_from_new [OF assms(1,2)] by blast+
  have ok: "sched_ok st" using run(1) by (simp add: run_ok_def)
  have pok: "profile_ok pr" using run by (simp add: run_ok_def)
  have key: "key_of_request r = Inr key" by (rule key_of_filed [OF ok r(1)])
  have pol: "aq_policy r = rk_policy key" using ok_request [OF ok r(1)] by (simp add: request_ok_def)
  let ?now = "cs_timestamp_monotonic cs"
  let ?changed = "list_ex (\<lambda>ch. fc_path ch \<in> set (aq_paths r)) (cs_changes cs)"
  define st2 where "st2 = (drop_request key (aq_id r) st)\<lparr>sc_timeouts := AList.delete key (sc_timeouts (drop_request key (aq_id r) st))\<rparr>"
  define pending where "pending = (case map_of (sc_pending_cadence st2) key of
                    Some u \<Rightarrow> if pu_request_id u = aq_id r then Some u else None | None \<Rightarrow> None)"
  define changed where "changed = (case pending of None \<Rightarrow> ?changed | Some u \<Rightarrow> ?changed \<or> pu_semantic_changed u)"
  define st3 where "st3 = (if pending = None then st2
                         else st2\<lparr>sc_pending_cadence := AList.delete key (sc_pending_cadence st2)\<rparr>)"
  obtain groups st4 where g: "poll_cadence_groups st3 = (groups, st4)" by fastforce
  obtain previous st5 where p: "cadence_state_for key declared ?now st4 = (previous, st5)" by fastforce
  let ?c = "next_cadence (rk_policy key) (fitted_cadence key declared st2) (cd_current previous) changed"
  have prof: "sc_profile st2 = pr" "sc_profile st3 = pr" "sc_profile st4 = pr" "sc_profile st5 = pr"
    using run(2) poll_cadence_groups_spec [OF g] cadence_state_for_tables [OF p]
    by (simp_all add: st2_def st3_def drop_request_def forget_dispatch_def same_tables_def)
  have groups: "groups = poll_groups pr" using poll_cadence_groups_spec [OF g] prof by simp
  have settle: "settle_paths key r (aq_paths r) st = drop_request key (aq_id r) st"
    by (simp add: settle_paths_def)
  have allp: "\<not> list_ex (\<lambda>p. map_of (sc_refused st4) p = None \<and>
      p \<notin> set (case pending of None \<Rightarrow> aq_paths r | Some u \<Rightarrow> aq_paths r @ pu_completed_paths u))
      (case map_of groups key of None \<Rightarrow> [] | Some ps \<Rightarrow> ps)"
    using group groups by (auto simp: list_ex_iff split: option.split)
  have st1: "st1 = st5\<lparr>sc_cadence := AList.update key \<lparr>cd_current = ?c, cd_next_due = ?now + ?c\<rparr> (sc_cadence st5)\<rparr>"
    using res allp r(1)
    unfolding record_acquisition_result_def key bind_result.simps Let_def pol declared option.case r(1) simp_thms if_True settle
      st2_def [symmetric] pending_def [symmetric] changed_def [symmetric] st3_def [symmetric] g prod.case p
    by (auto split: if_splits)
  have fit: "fitted_cadence key declared st2 = fitted_cadence key declared st"
    unfolding fitted_cadence_def st2_def drop_request_def forget_dispatch_def
    by (simp cong: option.case_cong)
  have tables: "map_of (sc_requests st1) key = None" "map_of (sc_deferred st1) key = None"
    using r(2) poll_cadence_groups_spec [OF g] cadence_state_for_tables [OF p]
    by (simp_all add: st1 st2_def st3_def drop_request_def forget_dispatch_def same_tables_def delete_map)
  have cad: "map_of (sc_cadence st1) key = Some \<lparr>cd_current = ?c, cd_next_due = ?now + ?c\<rparr>"
    by (simp add: st1 update_map)
  have prof1: "sc_profile st1 = pr" using prof by (simp add: st1)
  have run1: "profile_ok (sc_profile st1)" "map_of (poll_groups (sc_profile st1)) key = Some paths"
    "ap_cadence (rk_policy key) \<noteq> None" "\<not> asked key st1"
    using pok run(2) group(1) tables declared by (simp_all add: prof1 asked_def)
  have ticks: "\<not> asked key (ticks_run st1 ticks) \<and> (\<forall>now tx obs av. keeps_clock ?c key tx obs st1 \<longrightarrow>
      (asked key (snd (due_requests now tx obs av (ticks_run st1 ticks))) \<longleftrightarrow> ?now + ?c \<le> now \<and> group_open now tx av key paths st1))"
    if waits: "\<forall>(now, tx, obs, av) \<in> set ticks. keeps_clock ?c key tx obs st1 \<and>
      \<not> (?now + ?c \<le> now \<and> group_open now tx av key paths st1)" for ticks
  proof -
    let ?st = "ticks_run st1 ticks"
    have w: "calm st1 ?st" "\<not> asked key ?st" "map_of (sc_cadence ?st) key = Some \<lparr>cd_current = ?c, cd_next_due = ?now + ?c\<rparr>"
      using ticks_wait [OF run1 cad, of ticks] waits by simp_all
    have "sc_profile ?st = sc_profile st1" using w(1) by (simp add: calm_def)
    then show ?thesis
      using tick_asks [OF _ _ run1(3) w(2,3) _ refl] run1(1,2) w(2) keeps_clock_calm [OF w(1)] group_open_calm [OF w(1)]
      by (metis cadence_state.select_convs)
  qed
  have "?changed \<Longrightarrow> changed" by (simp add: changed_def split: option.split)
  then show ?thesis using cad ticks next_cadence_bounds [of "fitted_cadence key declared st2" "rk_policy key"] unfolding fit
    by (intro exI [of _ ?c]) (simp add: fit)
qed

section \<open>On a small profile\<close>

definition demo_field :: "field_family \<Rightarrow> string \<Rightarrow> string \<Rightarrow> field_path" where
  "demo_field family name receiver = \<lparr>fp_scope = RECEIVER, fp_family = family, fp_name = name,
     fp_receiver_id = Some receiver, fp_slot = None\<rparr>"

definition demo_gain :: field_path where
  "demo_gain = demo_field OPERATOR_CONTROLS ''af_level'' ''main''"

definition demo_menu :: field_path where
  "demo_menu = demo_field OPERATOR_CONTROLS ''break_in_delay'' ''main''"

definition demo_toggle :: field_path where
  "demo_toggle = demo_field OPERATOR_TOGGLES ''nb'' ''sub''"

definition demo_capability :: "field_path \<Rightarrow> field_capability" where
  "demo_capability p = \<lparr>fk_path = p, fk_availability = SUPPORTED, fk_unsolicited_push = False, fk_polling = True,
     fk_stream_like = False, fk_command_response_observable = False, fk_startup_required = True,
     fk_supported_controls = [], fk_diagnostic = ''''\<rparr>"

definition demo_decay_policy :: acquisition_policy where
  "demo_decay_policy = default_policy_fields\<lparr>ap_cadence := Some 2, ap_freshness_ttl := None,
     ap_decay := \<lparr>ad_enabled = True, ad_idle_multiplier = 3, ad_max_cadence = Some 20\<rparr>\<rparr>"

definition demo_profile :: acquisition_profile where
  "demo_profile = \<lparr>pr_provider = ''demo'', pr_capabilities = map demo_capability [demo_gain, demo_menu, demo_toggle],
     pr_default_policy = default_policy_fields,
     pr_field_policies = [(demo_gain, demo_decay_policy), (demo_menu, default_policy_fields\<lparr>ap_cadence := None\<rparr>)]\<rparr>"

definition demo_scheduler :: scheduler where
  "demo_scheduler = projr (scheduler_new demo_profile None)"

definition demo_answer :: "time \<Rightarrow> change_set" where
  "demo_answer now = \<lparr>cs_revision = 1, cs_freshness_revision = 1, cs_observation_seq = 1, cs_changes = [],
     cs_timestamp_monotonic = now, cs_sources = [], cs_coalesced = False, cs_observed_paths = [], cs_freshness_paths = []\<rparr>"

definition demo_ask :: "field_path \<Rightarrow> scheduler_event" where
  "demo_ask p = ENSURE_FRESH [p] 1 PRIO_NORMAL ''demo'' None False 0"

lemma demo_new: "scheduler_new demo_profile None = Inr demo_scheduler" "mk_acquisition_profile demo_profile = Inr demo_profile"
  by (simp add: demo_scheduler_def scheduler_new_def Let_def) code_simp

lemma projr_pair: "(case x of Inl _ \<Rightarrow> False | Inr (a, b) \<Rightarrow> P a b) \<Longrightarrow>
    x = Inr (fst (projr x), snd (projr x)) \<and> P (fst (projr x)) (snd (projr x))"
  by (cases x) auto

lemma filed_wanted:
  "list_ex (\<lambda>(_, r). p \<in> set (aq_paths r)) (sc_requests (scheduler_run demo_scheduler es)) \<Longrightarrow>
   wanted (scheduler_run demo_scheduler es) p"
proof -
  let ?st = "scheduler_run demo_scheduler es"
  assume "list_ex (\<lambda>(_, r). p \<in> set (aq_paths r)) (sc_requests ?st)"
  then obtain key r where r: "(key, r) \<in> set (sc_requests ?st)" "p \<in> set (aq_paths r)" by (auto simp: list_ex_iff)
  have "distinct (map fst (sc_requests ?st))"
    using run_from_new [OF demo_new, of es] unfolding run_ok_def sched_ok_def by blast
  then have "map_of (sc_requests ?st) key = Some r" using r(1) by (rule map_of_is_SomeI)
  then show ?thesis using r(2) unfolding wanted_def pending_path_def by blast
qed

theorem reads_are_kept_until_answered_witness:
  "wanted (scheduler_run (snd (projr (ensure_fresh [demo_gain] 1 PRIO_NORMAL ''demo'' None False 0 demo_scheduler)))
     [PAUSE_CAT None ''wsjtx'', DUE_REQUESTS 1 False None [], RESUME_CAT]) demo_gain"
proof -
  let ?x = "ensure_fresh [demo_gain] 1 PRIO_NORMAL ''demo'' None False 0 demo_scheduler"
  have "case ?x of Inl _ \<Rightarrow> False | Inr (res, st) \<Rightarrow> ef_status res = ACQ_QUEUED" by code_simp
  from projr_pair [OF this] have e: "?x = Inr (fst (projr ?x), snd (projr ?x))" "ef_status (fst (projr ?x)) = ACQ_QUEUED"
    by blast+
  have st: "demo_scheduler = scheduler_run demo_scheduler []" by (simp add: scheduler_run_def)
  from reads_are_kept_until_answered [OF demo_new st e(1)] e(2) show ?thesis
    by (simp add: automatic_priorities_def)
qed

theorem external_cat_pause_loses_nothing_witness:
  "\<exists>rs st. resume_external_cat (scheduler_run (pause_external_cat None ''wsjtx''
       (scheduler_run demo_scheduler [demo_ask demo_gain])) [DUE_REQUESTS 1 False None []]) = Inr (rs, st) \<and>
     \<not> sc_cat_paused st \<and> sc_deferred st = [] \<and> (\<exists>r \<in> set (pending_requests st). demo_gain \<in> set (aq_paths r))"
proof -
  have "list_ex (\<lambda>(_, r). demo_gain \<in> set (aq_paths r)) (sc_requests (scheduler_run demo_scheduler [demo_ask demo_gain]))"
    by code_simp
  from external_cat_pause_loses_nothing [OF demo_new refl filed_wanted [OF this], of "[DUE_REQUESTS 1 False None []]" None "''wsjtx''"]
  show ?thesis by simp
qed

definition demo_request :: acquisition_request where
  "demo_request = snd (hd (sc_requests (scheduler_run demo_scheduler [demo_ask demo_gain])))"

theorem claims_are_exclusive_witness:
  "try_claim demo_request 6 7 (snd (projr (try_claim demo_request 5 7 (scheduler_run demo_scheduler [demo_ask demo_gain])))) =
     Inr (False, snd (projr (try_claim demo_request 5 7 (scheduler_run demo_scheduler [demo_ask demo_gain]))))"
proof -
  let ?x = "try_claim demo_request 5 7 (scheduler_run demo_scheduler [demo_ask demo_gain])"
  have "case ?x of Inl _ \<Rightarrow> False | Inr (b, st) \<Rightarrow> b" by code_simp
  from projr_pair [OF this] have "?x = Inr (True, snd (projr ?x))" by (cases ?x) auto
  from claims_are_exclusive [OF demo_new refl this, of 6 7] show ?thesis by simp
qed




definition demo_gain_key :: acquisition_key where
  "demo_gain_key = request_key_of demo_gain METHOD_POLL demo_decay_policy"

definition demo_polled :: scheduler where
  "demo_polled = scheduler_run demo_scheduler [DUE_REQUESTS 0 False None []]"

definition demo_gain_poll :: acquisition_request where
  "demo_gain_poll = the (map_of (sc_requests demo_polled) demo_gain_key)"

theorem polling_keeps_its_cadence_witness:
  "let st1 = projr (record_acquisition_result demo_gain_poll (demo_answer 1) demo_polled);
       quiet = ticks_run st1 [(2, False, None, []), (6, True, None, [])]
   in \<not> asked demo_gain_key quiet \<and> (\<forall>now. asked demo_gain_key (snd (due_requests now False None [] quiet)) \<longleftrightarrow> 7 \<le> now)"
proof -
  let ?x = "record_acquisition_result demo_gain_poll (demo_answer 1) demo_polled"
  have "case ?x of Inl _ \<Rightarrow> False | Inr _ \<Rightarrow> True" by code_simp
  then have x: "?x = Inr (projr ?x)" by (cases ?x) auto
  have r: "map_of (sc_requests demo_polled) demo_gain_key = Some demo_gain_poll" "map_of (sc_deferred demo_polled) demo_gain_key = None"
    by code_simp+
  have g: "map_of (poll_groups demo_profile) demo_gain_key = Some [demo_gain]" "set [demo_gain] \<subseteq> set (aq_paths demo_gain_poll)"
    by code_simp+
  have d: "ap_cadence (rk_policy demo_gain_key) = Some 2" "\<not> ap_tx_only (rk_policy demo_gain_key)" by code_simp+
  have c: "map_option cd_current (map_of (sc_cadence (projr ?x)) demo_gain_key) = Some 6" by code_simp
  have free: "map_of (sc_refused (projr ?x)) demo_gain = None" by code_simp
  have eligible: "group_open now tx [] demo_gain_key [demo_gain] (projr ?x)" for now tx
    using d(2) free by (simp add: group_open_def contradicted_def refusal_withheld_def)
  from polling_keeps_its_cadence [OF demo_new demo_polled_def r g d(1) x] obtain c where
    "map_of (sc_cadence (projr ?x)) demo_gain_key = Some \<lparr>cd_current = c, cd_next_due = cs_timestamp_monotonic (demo_answer 1) + c\<rparr>"
    and after: "\<And>ticks. (\<forall>(now, tx, obs, av) \<in> set ticks. keeps_clock c demo_gain_key tx obs (projr ?x) \<and>
        \<not> (cs_timestamp_monotonic (demo_answer 1) + c \<le> now \<and> group_open now tx av demo_gain_key [demo_gain] (projr ?x))) \<Longrightarrow>
      \<not> asked demo_gain_key (ticks_run (projr ?x) ticks) \<and>
      (\<forall>now tx obs av. keeps_clock c demo_gain_key tx obs (projr ?x) \<longrightarrow>
        (asked demo_gain_key (snd (due_requests now tx obs av (ticks_run (projr ?x) ticks))) \<longleftrightarrow>
          cs_timestamp_monotonic (demo_answer 1) + c \<le> now \<and> group_open now tx av demo_gain_key [demo_gain] (projr ?x)))"
    by blast
  then have "c = 6" "cs_timestamp_monotonic (demo_answer 1) = 1" using c by (simp_all add: demo_answer_def)
  then show ?thesis using after [of "[(2, False, None, []), (6, True, None, [])]"] eligible
    unfolding Let_def keeps_clock_def by simp
qed

text \<open>
  An idle group that has decayed to six seconds is due at 7. A tick at 2 leaves it alone while no active receiver is
  observed; with one observed it drops the clock, since it is slower than the class cadence, and asks at once.
\<close>

definition asks_for :: "field_path \<Rightarrow> acquisition_request list \<times> scheduler \<Rightarrow> bool" where
  "asks_for p out = list_ex (\<lambda>r. p \<in> set (aq_paths r)) (fst out)"

theorem observed_receiver_undoes_the_decay:
  "let st1 = projr (record_acquisition_result demo_gain_poll (demo_answer 1) demo_polled)
   in map_option cd_next_due (map_of (sc_cadence st1) demo_gain_key) = Some 7 \<and>
      \<not> asks_for demo_gain (due_requests 2 False None [] st1) \<and>
      asks_for demo_gain (due_requests 2 False (Some ''MAIN'') [] st1)"
  by code_simp

text \<open>
  The receiver that is not selected polls a class slower, although this profile does not poll which one is.
\<close>

theorem demotion_needs_no_polled_selection:
  "slow_receiver_demotion_path \<notin> set (pollable_paths demo_profile) \<and>
   map snd (sc_demoted (snd (due_requests 0 False (Some ''MAIN'') [] demo_scheduler))) \<noteq> []"
  by code_simp

text \<open>
  A group that stays demoted never polls faster again: the new cadence is at least the one it was demoted to, also
  when that was the ceiling a setting is held at in transmit and the transmission is over.
\<close>

theorem demoted_cadence_never_falls:
  assumes "demote_queue_envelopes active st = (envelopes, st')" "(key, (cadence', ttl')) \<in> set envelopes"
    and "map_of (sc_demoted st) key = Some (cadence, ttl)"
  shows "cadence \<le> cadence'"
proof -
  obtain groups st1 where g: "poll_cadence_groups st = (groups, st1)" by fastforce
  have "sc_demoted st1 = sc_demoted st" using g by (auto simp: poll_cadence_groups_def Let_def)
  then have fit: "fitted_cadence key c st1 = cadence" for c using assms(3) by (simp add: fitted_cadence_def)
  obtain paths where "demotion_envelope key paths st1 = Some (cadence', ttl')"
    using assms(1,2) unfolding demote_queue_envelopes_def g Let_def by (auto split: if_splits option.splits)
  then have "cadence' = max (fst (cadence', ttl')) cadence"
    unfolding demotion_envelope_def Let_def fit by (auto split: if_splits option.splits simp: max_def)
  then show ?thesis by (simp add: max_def split: if_splits)
qed

end
