(* ===== verification/Spec2Isabelle.thy ===== *)
theory Spec2Isabelle
  imports Bcd CivFrames TxLease ManagedTx Breaker Buffers PriorityGate TrackerRuns PttLedger QueueRuns AudioStream TransportRuns
    DeliveryRuns StoreRuns BudgetFit SchedulerProps
begin

text \<open>
  A verification of the core logic of rigplane, the server between a transceiver and its
  clients. Paths below are relative to \<open>src/rigplane/\<close>.

  \<^bold>\<open>The program.\<close> A client (browser, \<open>rigctld\<close>, command line) acquires control of the radio and puts
  typed commands into a queue; the poller takes them out in order, checks that they are still
  current and that the transmit interlock allows them, and sends CI-V frames through a tracker
  that pairs each answer with the request it belongs to. Keying the transmitter goes through a
  supervisor (a lease with a watchdog and a release debt) and a reducer of transmit intent.
  Audio comes and goes as numbered datagrams. The state of the radio goes out to the clients as
  full frames and deltas through bounded queues.

  \<^bold>\<open>The theories and the code they model.\<close>

  \<^item> \<open>Prelude\<close>: values, exceptions as \<open>Inl\<close>, runs of a step function, the locales
    \<open>guarded_system\<close> (an invariant every operation keeps), \<open>epoch_system\<close> (a counter that is
    never turned back) and \<open>codec\<close> (a decoder that inverts an encoder on its domain).
  \<^item> \<open>Bcd\<close> and \<open>CivFrames\<close>: \<open>commands/_codec.py\<close>, the BCD part of \<open>core/types.py\<close>,
    \<open>commands/_frame.py\<close>, \<open>commands/command_map.py\<close> and the buffer scanner of \<open>core/civ.py\<close>. Encoders and
    decoders as functions to results; round trips, bijections on the documented ranges, every
    rejected input, and the completeness of the frame scanner.
  \<^item> \<open>CivTracker\<close>, \<open>TrackerRuns\<close>, \<open>PttLedger\<close>: \<open>CivRequestTracker\<close> and \<open>PttReplyLedger\<close> of \<open>core/civ.py\<close>.
    A future is a number whose state is kept in a map. Shown: to which waiter an answer goes, that
    no waiter is forgotten, that a completed future stays, that old generations are shut out.
  \<^item> \<open>TxSafety\<close>, \<open>TxLease\<close>: \<open>core/tx_safety.py\<close>. The supervisor with every call it offers; its
    clock and id source are streams of the state. \<open>TxLease\<close> states an abstract lease machine and
    proves that the supervisor refines it, with the safety facts that follow: a release debt is
    ended only by an OFF observed past its boundary, the watchdog bounds key-down, the ON write is
    made once and only when guarded, an owed OFF is serviced.
  \<^item> \<open>ManagedTx\<close>: \<open>runtime/managed_tx_state.py\<close>, the pure reducer of transmit intent.
  \<^item> \<open>Breaker\<close>, \<open>Buffers\<close>, \<open>PriorityGate\<close>: \<open>rigctld/circuit_breaker.py\<close>, \<open>core/_bounded_queue.py\<close>,
    \<open>runtime/managed_tx_fence.py\<close>, \<open>core/priority_exchange.py\<close>. The gate is a step relation over the
    interleavings of its callers.
  \<^item> \<open>FieldPaths\<close>, \<open>TxObservation\<close>: the paths and acquisition classes of
    \<open>core/state_pipeline_contracts.py\<close>, the snapshot records the policies read, and
    \<open>core/tx_observation.py\<close>.
  \<^item> \<open>Commands\<close>, \<open>TxInterlock\<close>: the command dataclasses of \<open>runtime/_poller_types.py\<close>, and the transmit
    interlock of \<open>core/tx_interlock_contract.py\<close> and \<open>runtime/tx_interlock.py\<close>: what may be sent in
    which observed state, the raw de-key exemptions, and the two lanes of the quiet window.
  \<^item> \<open>Controller\<close>, \<open>ControllerRuns\<close>: \<open>runtime/controller_authority.py\<close>; a task is a field of the
    state with the step that ends it. Sessions, grants, tickets and their revocation.
  \<^item> \<open>CommandQueue\<close>, \<open>QueueRuns\<close>: the queue of \<open>runtime/_poller_types.py\<close> and, with the authority, the
    check of an entry's currency: a revocation voids everything queued under the old ticket.
  \<^item> \<open>Sequences\<close>, \<open>AudioStream\<close>: 16-bit sequence numbers, header formats and the locale
    \<open>ordered_output\<close>; \<open>audio/lan_stream.py\<close> with its packets, jitter buffer and stream.
  \<^item> \<open>Transport\<close>, \<open>TransportRuns\<close>: the packet handling of \<open>core/transport.py\<close>: tracked sends and their
    retransmission, pings, gap tracking, ordered delivery and the packet queue. Runs begin with
    \<open>connect_reset\<close>, whatever the instance did before. Shown: the radio's order, the account of every
    packet, the bound on the hold and its release after five passes, the answers to retransmit requests.
  \<^item> \<open>DeltaCodec\<close>, \<open>DeltaRuns\<close>: \<open>web/_delta_encoder.py\<close> over JSON trees with Python's equality. A diff
    applied to any tree equal to the old one gives a tree equal to the new one, in both renderings.
  \<^item> \<open>StateStore\<close>, \<open>StoreRuns\<close>: \<open>core/state_store.py\<close>, the store of confirmed observations. Its invariant and the
    relation \<open>evolves\<close> (a list of logged deltas leads from one state to the later one, whatever pruning
    dropped) give the properties: a delta brings an old snapshot up to date, the caches never show, only the
    current provider generation shows, aging is exact, the relative VFO fields share one deadline, every
    call returns. Time is an argument; generation subscribers are a log.
  \<^item> \<open>AcquisitionPolicy\<close>, \<open>BudgetFit\<close>: \<open>core/state_acquisition_policy.py\<close>: the class table, policies, capabilities
    and profiles, and the fit of the polling demand to a transport budget, shown to stretch the lowest
    classes first and no further than their ceilings.
  \<^item> \<open>Scheduler\<close>, \<open>SchedulerRuns\<close>, \<open>SchedulerProps\<close>: \<open>AcquisitionScheduler\<close> of \<open>core/acquisition_scheduler.py\<close>, the queue of
    backend reads. \<open>SchedulerRuns\<close> has the invariant of its tables and, for each call, which reads it may
    complete (\<open>keeps\<close>); \<open>SchedulerProps\<close> the properties over runs from a new scheduler: a read is kept until it is
    answered, a pause for external CAT loses none, a late answer completes nothing, claims are exclusive, polling
    keeps its cadence, priming reaches every field. Three theorems record what the demotion of the
    receiver that is not selected does to the clocks.
  \<^item> \<open>StateDelivery\<close>, \<open>DeliveryRuns\<close>: the control-client part of \<open>web/server.py\<close> and the sender loop of
    \<open>web/handlers/control.py\<close>: one encode for all clients, bounded queues that overflow, baselines. A client
    that drains its queue holds the state of the last encode; the one operation that can break this
    (a transmit invalidation on a full queue) is shown with the queue on which it does.

  \<^bold>\<open>How the code is translated.\<close> A method that changes its object is a function from the state
  record to the new state (and its result); an exception is \<open>Inl\<close> of its class. Awaited calls of
  other objects end a step: where several tasks interleave, each stretch between two awaits is a
  step of its own. Clock readings are arguments or streams; \<open>time.monotonic()\<close> values are rationals,
  so rounding of floats is not modelled. Dictionaries are association lists in insertion order or
  maps. Callbacks are recorded in a log.

  \<^bold>\<open>Bounds and fuel.\<close> Loops are structural recursions or functions with a termination proof. The only
  counters that stand for fuel are the length arguments of the loops that take a fixed number of
  items: \<open>drain_loop\<close> gets the queue length and \<open>take_n\<close> in \<open>QueueRuns\<close> gets
  \<open>queue_pending_count\<close>, which is all a drain can return.

  \<^bold>\<open>Not modelled.\<close> Sockets, serial ports, processes and task scheduling outside the gate; the web (but
  for its state delivery), \<open>rigctld\<close> and command-line front ends; the radio facade and the device backends, which call the modelled
  parts once per radio function; profile loading; sound devices, resampling, scope rendering and SDR
  drivers (floating-point arrays); log messages; of the acquisition module, the coalescing of meter samples and the two
  services between scheduler and store.
\<close>

end
